(* ===== verification/Prelude.thy ===== *)
theory Prelude
  imports Main "HOL-Library.Word"
begin

text \<open>
  The shared layer of the development: bytes, byte regions and the C string view of them, the
  little-endian encoding of 32-bit integers that both file systems of the repository use on disk,
  and the lemma collections that carry the component proofs.

  A memory region or a file is a list of bytes. \<open>peek\<close> reads a window of it, \<open>poke\<close> overwrites a
  window in place, \<open>overlay\<close> is what a short \<open>read(2)\<close> does to the buffer it is given.
\<close>

unbundle bit_operations_syntax

type_synonym byte = "8 word"

named_theorems region_simps \<open>reading windows of a byte region after an update\<close>
named_theorems codec_simps \<open>decoding what has been encoded\<close>

lemma find_SomeD: "find P xs = Some x \<Longrightarrow> x \<in> set xs \<and> P x"
  by (induction xs) (auto split: if_splits)

section \<open>Byte regions\<close>

definition peek :: "nat \<Rightarrow> nat \<Rightarrow> byte list \<Rightarrow> byte list" where
  "peek off n xs = take n (drop off xs)"

definition poke :: "nat \<Rightarrow> byte list \<Rightarrow> byte list \<Rightarrow> byte list" where
  "poke off bs xs = take off xs @ bs @ drop (off + length bs) xs"

definition overlay :: "byte list \<Rightarrow> byte list \<Rightarrow> byte list" where
  "overlay got buf = got @ drop (length got) buf"

lemma length_peek [simp]: "length (peek off n xs) = min n (length xs - off)"
  by (simp add: peek_def)

lemma length_peek_inside: "off + n \<le> length xs \<Longrightarrow> length (peek off n xs) = n"
  by simp

lemma length_poke [simp]: "off + length bs \<le> length xs \<Longrightarrow> length (poke off bs xs) = length xs"
  by (simp add: poke_def)

lemma length_poke_general: "off \<le> length xs \<Longrightarrow> length (poke off bs xs) = max (length xs) (off + length bs)"
  by (simp add: poke_def)

lemma nth_poke:
  assumes "off \<le> length xs" "i < max (length xs) (off + length bs)"
  shows "poke off bs xs ! i =
    (if off \<le> i \<and> i < off + length bs then bs ! (i - off) else xs ! i)"
  using assms by (auto simp: poke_def nth_append min_def)

lemma nth_peek: "i < n \<Longrightarrow> off + i < length xs \<Longrightarrow> peek off n xs ! i = xs ! (off + i)"
  by (simp add: peek_def)

lemma peek_eqI:
  assumes "off + n \<le> length xs" "off + n \<le> length ys"
    and "\<And>i. off \<le> i \<Longrightarrow> i < off + n \<Longrightarrow> xs ! i = ys ! i"
  shows "peek off n xs = peek off n ys"
  using assms by (intro nth_equalityI) (auto simp: nth_peek)

lemma peek_poke_same [region_simps]:
  "off \<le> length xs \<Longrightarrow> n = length bs \<Longrightarrow> peek off n (poke off bs xs) = bs"
  by (simp add: peek_def poke_def)

lemma peek_poke_within:
  assumes "off \<le> length xs" "off \<le> a" "a + n \<le> off + length bs"
  shows "peek a n (poke off bs xs) = peek (a - off) n bs"
proof (rule nth_equalityI)
  fix i assume "i < length (peek a n (poke off bs xs))"
  then have "i < n" "a + i < max (length xs) (off + length bs)"
    using assms by (auto simp: length_poke_general)
  then show "peek a n (poke off bs xs) ! i = peek (a - off) n bs ! i"
    using assms by (simp add: nth_peek nth_poke length_poke_general)
qed (use assms in \<open>auto simp: length_poke_general\<close>)

lemma peek_poke_before [region_simps]:
  assumes "off \<le> length xs" "a + n \<le> off"
  shows "peek a n (poke off bs xs) = peek a n xs"
proof -
  have "take n (drop a (poke off bs xs)) = drop a (take (a + n) (poke off bs xs))"
    by (simp add: drop_take)
  also have "\<dots> = drop a (take (a + n) xs)"
    using assms by (simp add: poke_def min_def)
  finally show ?thesis by (simp add: peek_def drop_take)
qed

lemma peek_poke_after [region_simps]:
  assumes "off + length bs \<le> a" "off \<le> length xs"
  shows "peek a n (poke off bs xs) = peek a n xs"
proof -
  have "drop a (poke off bs xs) = drop a xs"
    using assms by (simp add: poke_def min_def)
  then show ?thesis by (simp add: peek_def)
qed

lemma peek_full: "peek 0 (length xs) xs = xs"
  by (simp add: peek_def)

lemma peek_peek: "peek a n (peek off m xs) = peek (off + a) (min n (m - a)) xs"
  by (simp add: peek_def drop_take add.commute)

lemma overlay_full [simp]: "length buf \<le> length got \<Longrightarrow> overlay got buf = got"
  by (simp add: overlay_def)

lemma length_overlay [simp]: "length (overlay got buf) = max (length got) (length buf)"
  by (simp add: overlay_def)

section \<open>C strings in byte regions\<close>

text \<open>The C string that starts at an offset of a region: the bytes up to the first NUL.\<close>

definition cstr :: "byte list \<Rightarrow> byte list" where
  "cstr bs = takeWhile (\<lambda>b. b \<noteq> 0) bs"

text \<open>\<open>strcpy(dst + off, s)\<close>: the bytes of \<open>s\<close> and the terminator.\<close>

definition strcpy_at :: "nat \<Rightarrow> byte list \<Rightarrow> byte list \<Rightarrow> byte list" where
  "strcpy_at off s xs = poke off (s @ [0]) xs"

lemma cstr_append_nul [simp]: "0 \<notin> set s \<Longrightarrow> cstr (s @ 0 # ys) = s"
  by (induction s) (auto simp: cstr_def)

lemma cstr_no_nul [simp]: "0 \<notin> set (cstr bs)"
  by (auto simp: cstr_def dest: set_takeWhileD)

lemma cstr_take: "0 \<in> set (take n bs) \<Longrightarrow> cstr (take n bs) = cstr bs"
proof (induction bs arbitrary: n)
  case (Cons b bs)
  then show ?case by (cases n) (auto simp: cstr_def)
qed simp

lemma length_cstr_less: "0 \<in> set bs \<Longrightarrow> length (cstr bs) < length bs"
  by (induction bs) (auto simp: cstr_def)

section \<open>Little-endian 32-bit integers\<close>

definition enc32 :: "int \<Rightarrow> byte list" where
  "enc32 v = [word_of_int v, word_of_int (v div 2 ^ 8), word_of_int (v div 2 ^ 16), word_of_int (v div 2 ^ 24)]"

definition udec32 :: "byte list \<Rightarrow> int" where
  "udec32 bs = uint (bs ! 0) + 2 ^ 8 * uint (bs ! 1) + 2 ^ 16 * uint (bs ! 2) + 2 ^ 24 * uint (bs ! 3)"

definition dec32 :: "byte list \<Rightarrow> int" where
  "dec32 bs = (if udec32 bs < 2 ^ 31 then udec32 bs else udec32 bs - 2 ^ 32)"

definition int32 :: "int \<Rightarrow> bool" where
  "int32 v \<longleftrightarrow> - (2 ^ 31) \<le> v \<and> v < 2 ^ 31"

lemma length_enc32 [simp]: "length (enc32 v) = 4"
  by (simp add: enc32_def)

lemma mod_digits: "u mod (256 * m) = u mod 256 + 256 * (u div 256 mod m)" if "0 \<le> m" for u m :: int
  using zmod_zmult2_eq[of m u 256] that by simp

lemma uint_byte_of_int: "uint (word_of_int v :: byte) = v mod 256"
  by (simp add: uint_word_of_int)

lemma udec32_enc32: "udec32 (enc32 v) = v mod 2 ^ 32"
proof -
  have digits: "v mod (256 * (256 * (256 * 256))) =
    v mod 256 + 256 * (v div 256 mod 256 + 256 * (v div 256 div 256 mod 256 +
      256 * (v div 256 div 256 div 256 mod 256)))"
    by (simp only: mod_digits[of "256 * (256 * 256)"] mod_digits[of "256 * 256"] mod_digits[of 256]
        mult_nonneg_nonneg zero_le_numeral)
  have shifts: "v div 256 div 256 = v div 65536" "v div 65536 div 256 = v div 16777216"
    by (simp_all add: zdiv_zmult2_eq[symmetric])
  have "udec32 (enc32 v) = v mod 256 + 256 * (v div 256 mod 256) + 65536 * (v div 65536 mod 256)
      + 16777216 * (v div 16777216 mod 256)"
    unfolding udec32_def enc32_def by (simp add: uint_byte_of_int)
  also have "\<dots> = v mod (256 * (256 * (256 * 256)))"
    unfolding digits shifts by (simp only: algebra_simps)
  finally show ?thesis by simp
qed

lemma int32_wrap: "int32 v \<Longrightarrow> v mod 2 ^ 32 = (if v < 0 then v + 2 ^ 32 else v)"
proof (cases "v < 0")
  case True
  assume "int32 v"
  with True have "(v + 2 ^ 32) mod 2 ^ 32 = v + 2 ^ 32"
    by (intro mod_pos_pos_trivial) (auto simp: int32_def)
  with True show ?thesis by simp
qed (auto simp: int32_def)

lemma dec32_enc32 [codec_simps]: "int32 v \<Longrightarrow> dec32 (enc32 v) = v"
  unfolding dec32_def udec32_enc32 by (simp only: int32_wrap) (auto simp: int32_def)

lemma byte_range: "0 \<le> uint b" "uint b < 256" for b :: byte
  using uint_lt2p[of b] by simp_all

lemma udec32_range: "0 \<le> udec32 bs" "udec32 bs < 2 ^ 32"
proof -
  have "0 \<le> a + 256 * b + 65536 * c + 16777216 * d \<and> a + 256 * b + 65536 * c + 16777216 * d < 4294967296"
    if "0 \<le> a \<and> a < 256" "0 \<le> b \<and> b < 256" "0 \<le> c \<and> c < 256" "0 \<le> d \<and> d < 256" for a b c d :: int
    using that by auto
  from this[of "uint (bs ! 0)" "uint (bs ! 1)" "uint (bs ! 2)" "uint (bs ! 3)"]
  show "0 \<le> udec32 bs" "udec32 bs < 2 ^ 32"
    using byte_range by (auto simp: udec32_def)
qed

lemma int32_dec32: "int32 (dec32 bs)"
  using udec32_range[of bs] by (auto simp: int32_def dec32_def)

end
