(* ===== verification/Posix_File.thy ===== *)
theory Posix_File
  imports Prelude
begin

text \<open>
  The host file that backs the log-structured server (the \<open>fd\<close> of \<open>linux/lfs.c\<close>), with the three
  system calls the server uses on it. An open file is its bytes and its offset:
  \<^item> \<open>lseek(fd, off, SEEK_SET)\<close> sets the offset, and fails (\<open>EINVAL\<close>, offset unchanged) for a negative one;
  \<^item> \<open>read(fd, buf, n)\<close> delivers the bytes between the offset and the end of the file, \<open>n\<close> at most;
  \<^item> \<open>write(fd, buf, n)\<close> overwrites from the offset, a gap after the old end reads as zeros.
  The server never looks at the results of these calls, so a full disk or an I/O error has no branch
  in its code and none here.
\<close>

record open_file =
  content :: "byte list"
  offset :: nat

definition lseek :: "int \<Rightarrow> open_file \<Rightarrow> open_file" where
  "lseek off f = (if off < 0 then f else f\<lparr>offset := nat off\<rparr>)"

definition fd_read :: "nat \<Rightarrow> open_file \<Rightarrow> byte list \<times> open_file" where
  "fd_read n f = (let got = peek (offset f) n (content f)
                  in (got, f\<lparr>offset := offset f + length got\<rparr>))"

definition zero_extend :: "nat \<Rightarrow> byte list \<Rightarrow> byte list" where
  "zero_extend n xs = xs @ replicate (n - length xs) 0"

definition fd_write :: "byte list \<Rightarrow> open_file \<Rightarrow> open_file" where
  "fd_write bs f = f\<lparr>content := poke (offset f) bs (zero_extend (offset f) (content f)),
                     offset := offset f + length bs\<rparr>"

section \<open>Reading and writing at an absolute position\<close>

lemma lseek_nonneg [simp]: "0 \<le> off \<Longrightarrow> lseek off f = f\<lparr>offset := nat off\<rparr>"
  by (simp add: lseek_def)

lemma lseek_content [simp]: "content (lseek off f) = content f"
  by (simp add: lseek_def)

lemma fd_read_content [simp]: "content (snd (fd_read n f)) = content f"
  by (simp add: fd_read_def Let_def)

lemma length_zero_extend [simp]: "length (zero_extend n xs) = max n (length xs)"
  by (simp add: zero_extend_def)

lemma zero_extend_id [simp]: "n \<le> length xs \<Longrightarrow> zero_extend n xs = xs"
  by (simp add: zero_extend_def)

lemma peek_zero_extend: "a + n \<le> length xs \<Longrightarrow> peek a n (zero_extend m xs) = peek a n xs"
  by (simp add: peek_def zero_extend_def)

lemma length_fd_write [simp]:
  "length (content (fd_write bs f)) = max (length (content f)) (offset f + length bs)"
  by (simp add: fd_write_def length_poke_general)

lemma peek_fd_write_same [region_simps]:
  "n = length bs \<Longrightarrow> peek (offset f) n (content (fd_write bs f)) = bs"
  by (simp add: fd_write_def peek_poke_same)

lemma peek_fd_write_within:
  "offset f \<le> a \<Longrightarrow> a + n \<le> offset f + length bs \<Longrightarrow>
   peek a n (content (fd_write bs f)) = peek (a - offset f) n bs"
  by (simp add: fd_write_def peek_poke_within)

lemma peek_fd_write_other [region_simps]:
  assumes "a + n \<le> offset f \<or> offset f + length bs \<le> a" "a + n \<le> length (content f)"
  shows "peek a n (content (fd_write bs f)) = peek a n (content f)"
  using assms by (auto simp: fd_write_def peek_poke_before peek_poke_after peek_zero_extend)

end
