(* ===== verification/Lfs_Layout.thy ===== *)
theory Lfs_Layout
  imports Posix_File
begin

text \<open>
  The on-disk structures of the server (\<open>linux/lfs.h\<close>): \<open>struct __inode\<close> and \<open>struct __directory\<close>,
  with the bytes they have in memory and on disk (the server writes the structs as they are). Every
  field is an \<open>int\<close> or a \<open>char\<close>, so there is no padding: an inode is 3 + 14 + 14 integers, 124 bytes,
  a directory 128 integers and 128 names of 28 bytes, one block of 4096 bytes.
\<close>

definition MAXINODES :: nat where "MAXINODES = 4096"
definition CRSIZE :: int where "CRSIZE = 6"
definition BLOCKSIZE :: nat where "BLOCKSIZE = 4096"
definition MFS_DIRECTORY :: int where "MFS_DIRECTORY = 0"
definition MFS_REGULAR_FILE :: int where "MFS_REGULAR_FILE = 1"

record inode =
  i_size :: int
  i_type :: int
  i_inum :: int
  dpointers :: "int list"
  dp_used :: "int list"

text \<open>The two-dimensional array \<open>char names[128][28]\<close> is one region of 3584 bytes.\<close>

record directory =
  d_inums :: "int list"
  d_names :: "byte list"

definition encs :: "int list \<Rightarrow> byte list" where
  "encs vs = concat (map enc32 vs)"

definition decs :: "nat \<Rightarrow> byte list \<Rightarrow> int list" where
  "decs n bs = map (\<lambda>i. dec32 (peek (4 * i) 4 bs)) [0..<n]"

definition sizeof_inode :: nat where "sizeof_inode = 124"

definition enc_inode :: "inode \<Rightarrow> byte list" where
  "enc_inode n = enc32 (i_size n) @ enc32 (i_type n) @ enc32 (i_inum n) @ encs (dpointers n) @ encs (dp_used n)"

definition dec_inode :: "byte list \<Rightarrow> inode" where
  "dec_inode bs = \<lparr>i_size = dec32 (peek 0 4 bs), i_type = dec32 (peek 4 4 bs), i_inum = dec32 (peek 8 4 bs),
     dpointers = decs 14 (drop 12 bs), dp_used = decs 14 (drop 68 bs)\<rparr>"

definition enc_directory :: "directory \<Rightarrow> byte list" where
  "enc_directory d = encs (d_inums d) @ d_names d"

definition dec_directory :: "byte list \<Rightarrow> directory" where
  "dec_directory bs = \<lparr>d_inums = decs 128 bs, d_names = peek 512 3584 bs\<rparr>"

text \<open>The string \<open>names[j]\<close>, and \<open>strcpy(names[j], s)\<close>.\<close>

definition dname :: "directory \<Rightarrow> nat \<Rightarrow> byte list" where
  "dname d j = cstr (drop (28 * j) (d_names d))"

definition set_dname :: "nat \<Rightarrow> byte list \<Rightarrow> directory \<Rightarrow> directory" where
  "set_dname j s d = d\<lparr>d_names := strcpy_at (28 * j) s (d_names d)\<rparr>"

definition set_dinum :: "nat \<Rightarrow> int \<Rightarrow> directory \<Rightarrow> directory" where
  "set_dinum j v d = d\<lparr>d_inums := (d_inums d)[j := v]\<rparr>"

text \<open>The string literals \<open>"."\<close>, \<open>".."\<close> and \<open>"DNE"\<close> of \<open>lfs.c\<close>.\<close>

definition str_dot :: "byte list" where "str_dot = [46]"
definition str_dotdot :: "byte list" where "str_dotdot = [46, 46]"
definition str_DNE :: "byte list" where "str_DNE = [68, 78, 69]"

text \<open>What the C types say of a value: 14 and 128 array entries, 32-bit integers, 3584 name bytes.\<close>

definition inode_fits :: "inode \<Rightarrow> bool" where
  "inode_fits n \<longleftrightarrow> length (dpointers n) = 14 \<and> length (dp_used n) = 14 \<and>
     list_all int32 (i_size n # i_type n # i_inum n # dpointers n @ dp_used n)"

definition directory_fits :: "directory \<Rightarrow> bool" where
  "directory_fits d \<longleftrightarrow> length (d_inums d) = 128 \<and> list_all int32 (d_inums d) \<and> length (d_names d) = 3584"

text \<open>Every name slot holds its terminator, so no name runs into the next slot.\<close>

definition names_terminated :: "directory \<Rightarrow> bool" where
  "names_terminated d \<longleftrightarrow> list_all (\<lambda>j. 0 \<in> set (peek (28 * j) 28 (d_names d))) [0..<128]"

definition name_ok :: "byte list \<Rightarrow> bool" where
  "name_ok s \<longleftrightarrow> 0 \<notin> set s \<and> length s < 28"

section \<open>Encoding and decoding\<close>

lemma length_encs [simp]: "length (encs vs) = 4 * length vs"
  by (induction vs) (auto simp: encs_def)

lemma length_decs [simp]: "length (decs n bs) = n"
  by (simp add: decs_def)

lemma nth_decs: "i < n \<Longrightarrow> decs n bs ! i = dec32 (peek (4 * i) 4 bs)"
  by (simp add: decs_def)

lemma peek_encs: "i < length vs \<Longrightarrow> peek (4 * i) 4 (encs vs @ ys) = enc32 (vs ! i)"
proof (induction vs arbitrary: i)
  case (Cons v vs)
  then show ?case
    by (cases i) (auto simp: encs_def peek_def)
qed simp

lemma decs_encs [codec_simps]:
  "list_all int32 vs \<Longrightarrow> n = length vs \<Longrightarrow> decs n (encs vs @ ys) = vs"
  by (rule nth_equalityI) (auto simp: nth_decs peek_encs codec_simps list_all_length)

lemma peek_at_length: "off = length xs \<Longrightarrow> peek off n (xs @ ys) = peek 0 n ys"
  by (simp add: peek_def)

lemma peek_later: "length xs \<le> off \<Longrightarrow> peek off n (xs @ ys) = peek (off - length xs) n ys"
  by (simp add: peek_def)

lemma peek_enc32 [simp]: "peek 0 4 (enc32 v @ ys) = enc32 v"
  by (simp add: peek_def)

lemma length_enc_inode: "inode_fits n \<Longrightarrow> length (enc_inode n) = sizeof_inode"
  by (simp add: enc_inode_def inode_fits_def sizeof_inode_def)

lemma length_enc_directory: "directory_fits d \<Longrightarrow> length (enc_directory d) = BLOCKSIZE"
  by (simp add: enc_directory_def directory_fits_def BLOCKSIZE_def)

lemma dec_enc_inode [codec_simps]:
  assumes "inode_fits n"
  shows "dec_inode (enc_inode n @ ys) = n"
proof -
  have fits: "int32 (i_size n)" "int32 (i_type n)" "int32 (i_inum n)"
    "list_all int32 (dpointers n)" "list_all int32 (dp_used n)"
    "length (dpointers n) = 14" "length (dp_used n) = 14"
    using assms by (auto simp: inode_fits_def)
  have d12: "drop 12 (enc_inode n @ ys) = encs (dpointers n) @ encs (dp_used n) @ ys"
    by (simp add: enc_inode_def)
  have d68: "drop 68 (enc_inode n @ ys) = encs (dp_used n) @ ys"
    using fits by (simp add: enc_inode_def)
  have head: "peek 0 4 (enc_inode n @ ys) = enc32 (i_size n)"
    "peek 4 4 (enc_inode n @ ys) = enc32 (i_type n)" "peek 8 4 (enc_inode n @ ys) = enc32 (i_inum n)"
    by (simp_all add: enc_inode_def peek_later)
  show ?thesis
    unfolding dec_inode_def d12 d68 head using fits by (simp add: codec_simps)
qed

lemma dec_enc_inode_exact [codec_simps]: "inode_fits n \<Longrightarrow> dec_inode (enc_inode n) = n"
  using dec_enc_inode[of n "[]"] by simp

lemma dec_enc_directory [codec_simps]:
  "directory_fits d \<Longrightarrow> dec_directory (enc_directory d @ ys) = d"
  by (simp add: dec_directory_def enc_directory_def directory_fits_def codec_simps peek_later)
     (simp add: peek_def)

lemma dec_enc_directory_exact [codec_simps]: "directory_fits d \<Longrightarrow> dec_directory (enc_directory d) = d"
  using dec_enc_directory[of d "[]"] by simp

lemma inode_fits_dec: "inode_fits (dec_inode bs)"
  by (auto simp: inode_fits_def dec_inode_def int32_dec32 decs_def list_all_iff)

lemma directory_fits_dec: "length bs = BLOCKSIZE \<Longrightarrow> directory_fits (dec_directory bs)"
  by (auto simp: directory_fits_def dec_directory_def BLOCKSIZE_def int32_dec32 decs_def list_all_iff)

section \<open>Names\<close>

lemma dname_slot:
  "names_terminated d \<Longrightarrow> j < 128 \<Longrightarrow> dname d j = cstr (peek (28 * j) 28 (d_names d))"
  by (auto simp: dname_def names_terminated_def list_all_iff peek_def cstr_take)

lemma names_terminatedD:
  "names_terminated d \<Longrightarrow> j < 128 \<Longrightarrow> 0 \<in> set (peek (28 * j) 28 (d_names d))"
  by (simp add: names_terminated_def list_all_iff)

lemma slots_apart: "i \<noteq> j \<Longrightarrow> 28 * i + 28 \<le> 28 * j \<or> 28 * j + 28 \<le> (28 * i :: nat)"
  by auto

lemma slot_poke_same:
  assumes "name_ok s" "j < 128" "length ns = 3584"
  shows "peek (28 * j) 28 (poke (28 * j) (s @ [0]) ns) = s @ 0 # peek (28 * j + length s + 1) (27 - length s) ns"
proof -
  have len: "28 * j + 28 \<le> length ns" "Suc (length s) \<le> 28"
    using assms by (auto simp: name_ok_def)
  show ?thesis
    using len by (simp add: peek_def poke_def min_def Suc_diff_le take_Cons')
qed

lemma slot_poke_other:
  assumes "name_ok s" "j < 128" "i < 128" "length ns = 3584" "i \<noteq> j"
  shows "peek (28 * i) 28 (poke (28 * j) (s @ [0]) ns) = peek (28 * i) 28 ns"
proof -
  have "length (s @ [0]) \<le> 28" "28 * j \<le> length ns"
    using assms by (auto simp: name_ok_def)
  with slots_apart[OF assms(5)] show ?thesis
    by (elim disjE) (auto intro: peek_poke_before peek_poke_after)
qed

lemma set_dname_terminated:
  assumes "names_terminated d" "directory_fits d" "name_ok s" "j < 128"
  shows "names_terminated (set_dname j s d)"
proof -
  have "0 \<in> set (peek (28 * i) 28 (poke (28 * j) (s @ [0]) (d_names d)))" if "i < 128" for i
    using assms that names_terminatedD[OF assms(1) that]
    by (cases "i = j") (simp_all add: slot_poke_same slot_poke_other directory_fits_def)
  then show ?thesis
    by (simp add: names_terminated_def set_dname_def strcpy_at_def list_all_iff)
qed

lemma dname_set_same:
  assumes "directory_fits d" "name_ok s" "j < 128"
  shows "dname (set_dname j s d) j = s"
proof -
  have len: "28 * j \<le> length (d_names d)" using assms by (simp add: directory_fits_def)
  have "drop (28 * j) (poke (28 * j) (s @ [0]) (d_names d)) = s @ 0 # drop (28 * j + length (s @ [0])) (d_names d)"
    using len by (simp add: poke_def)
  then show ?thesis
    using assms by (simp add: dname_def set_dname_def strcpy_at_def name_ok_def)
qed

lemma dname_set_other:
  assumes "names_terminated d" "directory_fits d" "name_ok s" "j < 128" "i < 128" "i \<noteq> j"
  shows "dname (set_dname j s d) i = dname d i"
  using assms dname_slot[OF set_dname_terminated[OF assms(1-4)] assms(5)] dname_slot[OF assms(1,5)]
  by (simp add: set_dname_def strcpy_at_def directory_fits_def slot_poke_other)

lemma set_dname_simps [simp]:
  "d_inums (set_dname j s d) = d_inums d"
  "d_names (set_dinum j v d) = d_names d"
  "d_inums (set_dinum j v d) = (d_inums d)[j := v]"
  "dname (set_dinum j v d) i = dname d i"
  "names_terminated (set_dinum j v d) = names_terminated d"
  by (simp_all add: set_dname_def set_dinum_def dname_def names_terminated_def)

lemma set_dname_fits:
  "directory_fits d \<Longrightarrow> name_ok s \<Longrightarrow> j < 128 \<Longrightarrow> directory_fits (set_dname j s d)"
  by (simp add: directory_fits_def set_dname_def strcpy_at_def name_ok_def)

lemma set_dinum_fits: "directory_fits d \<Longrightarrow> int32 v \<Longrightarrow> directory_fits (set_dinum j v d)"
  by (cases "j < length (d_inums d)")
     (auto simp: directory_fits_def set_dinum_def list_all_iff dest: set_update_subset_insert[THEN subsetD])

lemma name_ok_literals [simp]: "name_ok str_dot" "name_ok str_dotdot" "name_ok str_DNE"
  by (simp_all add: name_ok_def str_dot_def str_dotdot_def str_DNE_def)

lemma literals_distinct [simp]:
  "str_dot \<noteq> str_dotdot" "str_dot \<noteq> str_DNE" "str_dotdot \<noteq> str_DNE"
  "str_dotdot \<noteq> str_dot" "str_DNE \<noteq> str_dot" "str_DNE \<noteq> str_dotdot"
  by (simp_all add: str_dot_def str_dotdot_def str_DNE_def)

end
