(* ===== verification/Lfs_Server.thy ===== *)
theory Lfs_Server
  imports Lfs_Layout
begin

text \<open>
  The log-structured file server, \<open>linux/lfs.c\<close>: its global state and one definition per function,
  in the order of the source. The image file starts with the checkpoint region (the inode map, 4096
  integers, and after it \<open>next_block\<close>, the end of the log); inodes and data are blocks of 4096 bytes
  from block 6 on.

  C integers are mathematical integers here: the code's signed arithmetic is undefined where it would
  overflow, and the invariant of \<open>Lfs_Inv\<close> keeps every block address below \<open>2 ^ 19\<close>, so that no byte
  offset leaves 32 bits. What is stored on disk is truncated to 32 bits by \<open>enc32\<close>.

  Automatic and \<open>malloc\<close>ed variables start with indeterminate contents. A record of type \<open>junk\<close> holds
  these contents, one field per uninitialised variable, and every function that has such a variable
  takes it; the theorems hold for all of them.
\<close>

record lfs =
  imap :: "int list"
  next_block :: int
  fd :: open_file

record junk =
  junk_node :: inode        \<comment> \<open>\<open>node\<close>, \<open>parent\<close>, \<open>pinode\<close>: the first inode variable of a function\<close>
  junk_child :: inode       \<comment> \<open>the second one: \<open>node\<close> of \<open>unlink_server\<close>, \<open>pnode\<close> of \<open>read_server\<close>\<close>
  junk_heap :: inode        \<comment> \<open>what \<open>malloc\<close> returns in \<open>lookup_server\<close>\<close>
  junk_direct :: directory  \<comment> \<open>\<open>direct\<close> of \<open>lookup_server\<close>\<close>
  junk_block :: directory   \<comment> \<open>\<open>block\<close> of \<open>creat_server\<close>, \<open>direct\<close> of \<open>read_server\<close> and \<open>unlink_server\<close>\<close>
  junk_temp :: directory    \<comment> \<open>\<open>tempDir\<close>\<close>
  junk_new :: directory     \<comment> \<open>\<open>d\<close> of \<open>build_dir_block\<close>, \<open>base_block\<close> of \<open>start_server\<close>\<close>
  junk_dirent :: "byte list" \<comment> \<open>\<open>dirEnt\<close> of \<open>read_server\<close>\<close>
  junk_tail :: "byte list"  \<comment> \<open>the stack after \<open>parent\<close>, which \<open>creat_server\<close> writes out with it\<close>

record mfs_stat =
  st_type :: int
  st_size :: int

text \<open>The idiom \<open>lseek(fd, b*BLOCKSIZE, SEEK_SET); read/write(fd, ...)\<close>.\<close>

definition seek_read :: "int \<Rightarrow> nat \<Rightarrow> lfs \<Rightarrow> byte list \<times> lfs" where
  "seek_read b n s =
     (let (got, f) = fd_read n (lseek (b * int BLOCKSIZE) (fd s)) in (got, s\<lparr>fd := f\<rparr>))"

definition seek_write :: "int \<Rightarrow> byte list \<Rightarrow> lfs \<Rightarrow> lfs" where
  "seek_write b bs s = s\<lparr>fd := fd_write bs (lseek (b * int BLOCKSIZE) (fd s))\<rparr>"

definition update_CR :: "int \<Rightarrow> lfs \<Rightarrow> lfs" where
  "update_CR inum s =
     (let f1 = (if inum \<noteq> -1 then fd_write (enc32 (imap s ! nat inum)) (lseek (inum * 4) (fd s)) else fd s);
          f2 = fd_write (enc32 (next_block s)) (lseek (int MAXINODES * 4) f1)
      in s\<lparr>fd := f2\<rparr>)"

definition find_inode :: "int \<Rightarrow> inode \<Rightarrow> lfs \<Rightarrow> int \<times> inode \<times> lfs" where
  "find_inode inum node s =
     (if inum < 0 \<or> inum \<ge> int MAXINODES then (-1, node, s)
      else let (got, s1) = seek_read (imap s ! nat inum) sizeof_inode s
           in (0, dec_inode (overlay got (enc_inode node)), s1))"

definition empty_entry :: "nat \<Rightarrow> directory \<Rightarrow> directory" where
  "empty_entry i d = set_dname i str_DNE (set_dinum i (-1) d)"

definition dot_entries :: "int \<Rightarrow> int \<Rightarrow> directory \<Rightarrow> directory" where
  "dot_entries inum pinum d =
     set_dname 1 str_dotdot (set_dinum 1 pinum (set_dname 0 str_dot (set_dinum 0 inum d)))"

definition build_dir_block :: "junk \<Rightarrow> int \<Rightarrow> int \<Rightarrow> int \<Rightarrow> lfs \<Rightarrow> int \<times> lfs" where
  "build_dir_block u first_block inum pinum s =
     (let d0 = fold empty_entry [0..<128] (junk_new u);
          d = (if first_block \<noteq> 0 then dot_entries inum pinum d0 else d0);
          s1 = seek_write (next_block s) (take BLOCKSIZE (enc_directory d)) s;
          s2 = s1\<lparr>next_block := next_block s1 + 1\<rparr>
      in (next_block s2 - 1, s2))"

text \<open>
  \<open>start_server\<close> up to the call of \<open>listenOnServer\<close>. \<open>existing\<close> is the image that the first \<open>open\<close> finds
  (none: it returns -1), \<open>creatable\<close> whether the second \<open>open\<close> succeeds; the result is \<open>None\<close> where the
  function returns -1.
\<close>

definition root_node :: "int \<Rightarrow> inode" where
  "root_node b = \<lparr>i_size = int BLOCKSIZE, i_type = MFS_DIRECTORY, i_inum = 0,
     dpointers = b # replicate 13 (-1), dp_used = 1 # replicate 13 0\<rparr>"

definition base_block :: "junk \<Rightarrow> directory" where
  "base_block u =
     fold empty_entry [2..<128]
       (set_dname 1 str_dotdot (set_dname 0 str_dot (set_dinum 1 0 (set_dinum 0 0 (junk_new u)))))"

definition start_server :: "junk \<Rightarrow> bool \<Rightarrow> byte list option \<Rightarrow> lfs option" where
  "start_server u creatable existing =
     (case existing of
        None \<Rightarrow>
          if \<not> creatable then None
          else
            let s0 = \<lparr>imap = replicate MAXINODES (-1), next_block = CRSIZE, fd = \<lparr>content = [], offset = 0\<rparr>\<rparr>;
                f1 = fd_write (encs (imap s0)) (lseek 0 (fd s0));
                f2 = fd_write (enc32 (next_block s0)) f1;
                s1 = seek_write (next_block s0) (enc_directory (base_block u)) (s0\<lparr>fd := f2\<rparr>);
                s2 = s1\<lparr>next_block := next_block s1 + 1\<rparr>;
                s3 = s2\<lparr>imap := (imap s2)[0 := next_block s2]\<rparr>;
                s4 = seek_write (next_block s3) (enc_inode (root_node (next_block s0))) s3;
                s5 = s4\<lparr>next_block := next_block s4 + 1\<rparr>
            in Some (update_CR 0 s5)
      | Some bytes \<Rightarrow>
          let f0 = lseek 0 \<lparr>content = bytes, offset = 0\<rparr>;
              (m, f1) = fd_read (4 * MAXINODES) f0;
              (nb, f2) = fd_read 4 f1
          in Some \<lparr>imap = decs MAXINODES (overlay m (replicate (4 * MAXINODES) 0)),
                   next_block = dec32 (overlay nb (replicate 4 0)), fd = f2\<rparr>)"

primrec lookup_blocks :: "byte list \<Rightarrow> inode \<Rightarrow> nat list \<Rightarrow> directory \<Rightarrow> lfs \<Rightarrow> int \<times> lfs" where
  "lookup_blocks name pinode [] direct s = (-1, s)"
| "lookup_blocks name pinode (i # is) direct s =
     (if dp_used pinode ! i = 1 then
        let (got, s1) = seek_read (dpointers pinode ! i) BLOCKSIZE s;
            d = dec_directory (overlay got (enc_directory direct))
        in (case find (\<lambda>j. dname d j = name) [0..<128] of
              Some j \<Rightarrow> (d_inums d ! j, s1)
            | None \<Rightarrow> lookup_blocks name pinode is d s1)
      else lookup_blocks name pinode is direct s)"

definition lookup_server :: "junk \<Rightarrow> int \<Rightarrow> byte list \<Rightarrow> lfs \<Rightarrow> int \<times> lfs" where
  "lookup_server u pinum name s =
     (let (rc, pinode, s1) = find_inode pinum (junk_heap u) s
      in if rc \<noteq> 0 then (-1, s1)
         else lookup_blocks name pinode [0..<14] (junk_direct u) s1)"

definition stat_server :: "junk \<Rightarrow> int \<Rightarrow> mfs_stat \<Rightarrow> lfs \<Rightarrow> int \<times> mfs_stat \<times> lfs" where
  "stat_server u inum m s =
     (let (rc, node, s1) = find_inode inum (junk_node u) s
      in if rc = -1 then (-1, m, s1)
         else (0, m\<lparr>st_type := i_type node, st_size := i_size node\<rparr>, s1))"

text \<open>The body of the inner loop of \<open>creat_server\<close>: slot \<open>e\<close> of the parent's block \<open>b\<close> is free.\<close>

definition new_inode :: "int \<Rightarrow> int \<Rightarrow> inode" where
  "new_inode inum type = \<lparr>i_size = 0, i_type = type, i_inum = inum,
     dpointers = replicate 14 (-1), dp_used = replicate 14 0\<rparr>"

definition creat_entry ::
  "junk \<Rightarrow> int \<Rightarrow> int \<Rightarrow> byte list \<Rightarrow> int \<Rightarrow> nat \<Rightarrow> nat \<Rightarrow> inode \<Rightarrow> directory \<Rightarrow> lfs \<Rightarrow> int \<times> lfs" where
  "creat_entry u pinum type name inum b e parent block s =
     (let s1 = seek_write (imap s ! nat pinum) (take BLOCKSIZE (enc_inode parent @ junk_tail u)) s;
          block' = set_dname e name (set_dinum e inum block);
          s2 = seek_write (dpointers parent ! b) (take BLOCKSIZE (enc_directory block')) s1;
          n0 = new_inode inum type;
          (n1, s3) =
            (if type = MFS_DIRECTORY then
               (let n = n0\<lparr>dp_used := (dp_used n0)[0 := 1], dpointers := (dpointers n0)[0 := next_block s2]\<rparr>;
                    (_, s3) = build_dir_block u 1 inum pinum s2
                in (n\<lparr>i_size := i_size n + int BLOCKSIZE\<rparr>, s3))
             else (n0, s2))
      in if type \<noteq> MFS_DIRECTORY \<and> type \<noteq> MFS_REGULAR_FILE then (-1, s3)
         else
           let s4 = s3\<lparr>imap := (imap s3)[nat inum := next_block s3]\<rparr>;
               s5 = seek_write (next_block s4) (enc_inode n1) s4;
               s6 = s5\<lparr>next_block := next_block s5 + 1\<rparr>
           in (0, update_CR inum s6))"

text \<open>
  The loop over the parent's direct pointers. An unused pointer gets a fresh directory block and is
  visited again (the \<open>b--\<close> of the source). The array has 14 entries, so the guard on its length is the
  C type's; it makes the recursion total on every value of the record.
\<close>

function creat_scan ::
  "junk \<Rightarrow> int \<Rightarrow> int \<Rightarrow> byte list \<Rightarrow> int \<Rightarrow> nat \<Rightarrow> inode \<Rightarrow> directory \<Rightarrow> lfs \<Rightarrow> int \<times> lfs" where
  "creat_scan u pinum type name inum b parent block s =
     (if b \<ge> 14 \<or> b \<ge> length (dp_used parent) then (-1, s)
      else if dp_used parent ! b \<noteq> 0 then
        let (got, s1) = seek_read (dpointers parent ! b) BLOCKSIZE s;
            blk = dec_directory (overlay got (enc_directory block))
        in (case find (\<lambda>e. d_inums blk ! e = -1) [0..<128] of
              Some e \<Rightarrow> creat_entry u pinum type name inum b e parent blk s1
            | None \<Rightarrow> creat_scan u pinum type name inum (Suc b) parent blk s1)
      else
        let (bl, s1) = build_dir_block u 0 inum (-1) s
        in creat_scan u pinum type name inum b
             (parent\<lparr>i_size := i_size parent + int BLOCKSIZE,
                     dp_used := (dp_used parent)[b := 1],
                     dpointers := (dpointers parent)[b := bl]\<rparr>) block s1)"
  by pat_completeness auto
termination
  by (relation "measure (\<lambda>(u, pinum, type, name, inum, b, parent, block, s).
        2 * (14 - b) + (if b < length (dp_used parent) \<and> dp_used parent ! b = 0 then 1 else 0))") auto

declare creat_scan.simps [simp del]

definition creat_server :: "junk \<Rightarrow> int \<Rightarrow> int \<Rightarrow> byte list \<Rightarrow> lfs \<Rightarrow> int \<times> lfs" where
  "creat_server u pinum type name s =
     (let (rc, parent, s1) = find_inode pinum (junk_node u) s
      in if rc = -1 then (-1, s1)
         else if i_type parent \<noteq> MFS_DIRECTORY then (-1, s1)
         else
           let (found, s2) = lookup_server u pinum name s1
           in if found \<noteq> -1 then (0, s2)
              else (case find (\<lambda>i. imap s2 ! i = -1) [0..<MAXINODES] of
                      None \<Rightarrow> (-1, s2)
                    | Some i \<Rightarrow> creat_scan u pinum type name (int i) 0 parent (junk_block u) s2))"

text \<open>The update of the in-memory inode by \<open>write_server\<close>: pointer, flag, size.\<close>

definition write_node :: "inode \<Rightarrow> int \<Rightarrow> int \<Rightarrow> inode" where
  "write_node node block b =
     (let n1 = node\<lparr>dpointers := (dpointers node)[nat block := b]\<rparr>;
          n2 = (if dp_used n1 ! nat block = 0 then n1\<lparr>dp_used := (dp_used n1)[nat block := 1]\<rparr> else n1)
      in if (block + 1) * int BLOCKSIZE > i_size n2
         then n2\<lparr>i_size := (block + 1) * int BLOCKSIZE\<rparr> else n2)"

definition write_server :: "junk \<Rightarrow> int \<Rightarrow> byte list \<Rightarrow> int \<Rightarrow> lfs \<Rightarrow> int \<times> lfs" where
  "write_server u inum buffer block s =
     (let (rc, node, s1) = find_inode inum (junk_node u) s
      in if rc \<noteq> 0 then (-1, s1)
         else if i_type node \<noteq> MFS_REGULAR_FILE then (-1, s1)
         else if block < 0 \<or> block > 13 then (-1, s1)
         else
           let s2 = seek_write (next_block s1) (take BLOCKSIZE buffer) s1;
               s3 = seek_write (imap s2 ! nat inum) (enc_inode (write_node node block (next_block s2))) s2;
               s4 = s3\<lparr>next_block := next_block s3 + 1\<rparr>
           in (0, update_CR inum s4))"

text \<open>The search for the entry of a directory in the blocks of \<open>pnode\<close>; the last match wins.\<close>

primrec read_dir_blocks ::
  "int \<Rightarrow> inode \<Rightarrow> nat list \<Rightarrow> directory \<Rightarrow> byte list \<Rightarrow> lfs \<Rightarrow> byte list \<times> lfs" where
  "read_dir_blocks inum pnode [] direct dirEnt s = (dirEnt, s)"
| "read_dir_blocks inum pnode (i # is) direct dirEnt s =
     (if dp_used pnode ! i = 1 then
        let (got, s1) = seek_read (dpointers pnode ! i) BLOCKSIZE s;
            d = dec_directory (overlay got (enc_directory direct));
            de = fold (\<lambda>j de. if d_inums d ! j = inum
                              then poke 28 (enc32 inum) (strcpy_at 0 (dname d j) de) else de)
                      [0..<128] dirEnt
        in read_dir_blocks inum pnode is d de s1
      else read_dir_blocks inum pnode is direct dirEnt s)"

definition read_server :: "junk \<Rightarrow> int \<Rightarrow> byte list \<Rightarrow> int \<Rightarrow> lfs \<Rightarrow> int \<times> byte list \<times> lfs" where
  "read_server u inum buffer block s =
     (let (rc, node, s1) = find_inode inum (junk_node u) s
      in if rc \<noteq> 0 then (-1, buffer, s1)
         else if block < 0 \<or> block > 13 then (-1, buffer, s1)
         else if i_type node = MFS_REGULAR_FILE then
           let (got, s2) = seek_read (dpointers node ! nat block) BLOCKSIZE s1
           in (0, overlay got buffer, s2)
         else
           let (_, pnode, s2) = find_inode (dpointers node ! 1) (junk_child u) s1;
               (dirEnt, s3) = read_dir_blocks inum pnode [0..<14] (junk_block u) (junk_dirent u) s2
           in (0, overlay dirEnt buffer, s3))"

text \<open>
  The loop of \<open>unlink_server\<close> over the entries of the parent's first block; the flag is false where the
  source returns -1 from inside the loop (a directory that is not empty).
\<close>

definition clear_entry :: "inode \<Rightarrow> nat \<Rightarrow> directory \<Rightarrow> lfs \<Rightarrow> directory \<times> lfs" where
  "clear_entry pinode j direct s =
     (let d = set_dinum j (-1) (set_dname j str_DNE direct)
      in (d, seek_write (dpointers pinode ! 0) (take BLOCKSIZE (enc_directory d)) s))"

primrec unlink_entries ::
  "junk \<Rightarrow> byte list \<Rightarrow> inode \<Rightarrow> inode \<Rightarrow> nat list \<Rightarrow> directory \<Rightarrow> lfs \<Rightarrow> bool \<times> lfs" where
  "unlink_entries u name pinode node [] direct s = (True, s)"
| "unlink_entries u name pinode node (j # js) direct s =
     (if dname direct j = name then
        if i_type node = MFS_REGULAR_FILE then
          let (d, s1) = clear_entry pinode j direct s
          in unlink_entries u name pinode node js d s1
        else
          let (got, s1) = seek_read (dpointers node ! 0) BLOCKSIZE s;
              tempDir = dec_directory (overlay got (enc_directory (junk_temp u)))
          in if list_ex (\<lambda>i. d_inums tempDir ! i \<noteq> -1) [2..<128] then (False, s1)
             else
               let (d, s2) = clear_entry pinode j direct s1
               in unlink_entries u name pinode node js d s2
      else unlink_entries u name pinode node js direct s)"

definition unlink_server :: "junk \<Rightarrow> int \<Rightarrow> byte list \<Rightarrow> lfs \<Rightarrow> int \<times> lfs" where
  "unlink_server u pinum name s =
     (let (rc, pinode, s1) = find_inode pinum (junk_node u) s
      in if rc \<noteq> 0 then (-1, s1)
         else if i_type pinode \<noteq> MFS_DIRECTORY then (-1, s1)
         else
           let (got, s2) = seek_read (dpointers pinode ! 0) BLOCKSIZE s1;
               direct = dec_directory (overlay got (enc_directory (junk_block u)));
               (inum, s3) = lookup_server u pinum name s2
           in if inum < 0 then (0, s3)
              else
                let (_, node, s4) = find_inode inum (junk_child u) s3;
                    (done, s5) = unlink_entries u name pinode node [0..<128] direct s4
                in if \<not> done then (-1, s5)
                   else (0, update_CR inum (s5\<lparr>imap := (imap s5)[nat inum := -1]\<rparr>)))"

end
