(* ===== verification/Lfs_Inv.thy ===== *)
theory Lfs_Inv
  imports Lfs_Server
begin

text \<open>
  The invariant of the server's state and the facts about single accesses to the image that the
  correctness proofs rest on. \<open>lfs_inv\<close> says that
  \<^item> the checkpoint region on disk is the inode map and \<open>next_block\<close> in memory;
  \<^item> every inode in the map is an inode of the right number, its size is the extent of its blocks, its
    pointers lie inside the log;
  \<^item> no block of the log belongs to two inodes or plays two roles;
  \<^item> the blocks of a directory hold terminated names, inode numbers of the map, \<open>"DNE"\<close> in free entries
    and no name twice.
\<close>

section \<open>Views of the image\<close>

definition bytes :: "lfs \<Rightarrow> byte list" where
  "bytes s = content (fd s)"

definition at_block :: "int \<Rightarrow> nat \<Rightarrow> lfs \<Rightarrow> byte list" where
  "at_block b n s = peek (nat b * BLOCKSIZE) n (bytes s)"

definition inode_of :: "lfs \<Rightarrow> nat \<Rightarrow> inode" where
  "inode_of s i = dec_inode (at_block (imap s ! i) sizeof_inode s)"

definition data_of :: "lfs \<Rightarrow> nat \<Rightarrow> nat \<Rightarrow> byte list" where
  "data_of s i k = at_block (dpointers (inode_of s i) ! k) BLOCKSIZE s"

definition live :: "lfs \<Rightarrow> nat \<Rightarrow> bool" where
  "live s i \<longleftrightarrow> i < MAXINODES \<and> imap s ! i \<noteq> -1"

definition used :: "inode \<Rightarrow> nat \<Rightarrow> bool" where
  "used n k \<longleftrightarrow> k < 14 \<and> dp_used n ! k = 1"

definition is_dir :: "lfs \<Rightarrow> nat \<Rightarrow> bool" where
  "is_dir s i \<longleftrightarrow> live s i \<and> i_type (inode_of s i) = MFS_DIRECTORY"

definition is_file :: "lfs \<Rightarrow> nat \<Rightarrow> bool" where
  "is_file s i \<longleftrightarrow> live s i \<and> i_type (inode_of s i) = MFS_REGULAR_FILE"

text \<open>The entries of one directory block, and of a whole directory in the order the server visits them.\<close>

definition block_entries :: "byte list \<Rightarrow> (byte list \<times> int) list" where
  "block_entries bs = map (\<lambda>j. (dname (dec_directory bs) j, d_inums (dec_directory bs) ! j)) [0..<128]"

definition dir_entries :: "lfs \<Rightarrow> nat \<Rightarrow> (byte list \<times> int) list" where
  "dir_entries s i = concat (map (\<lambda>k. if used (inode_of s i) k then block_entries (data_of s i k) else []) [0..<14])"

section \<open>The invariant\<close>

definition cr_ok :: "lfs \<Rightarrow> bool" where
  "cr_ok s \<longleftrightarrow> 4 * MAXINODES + 4 \<le> length (bytes s) \<and>
     (\<forall>i < MAXINODES. peek (4 * i) 4 (bytes s) = enc32 (imap s ! i)) \<and>
     peek (4 * MAXINODES) 4 (bytes s) = enc32 (next_block s)"

definition block_in :: "lfs \<Rightarrow> int \<Rightarrow> nat \<Rightarrow> bool" where
  "block_in s b n \<longleftrightarrow> CRSIZE \<le> b \<and> b < next_block s \<and> nat b * BLOCKSIZE + n \<le> length (bytes s)"

definition size_ok :: "inode \<Rightarrow> bool" where
  "size_ok n \<longleftrightarrow> (\<forall>k. used n k \<longrightarrow> int (Suc k) * int BLOCKSIZE \<le> i_size n) \<and>
     (i_size n = 0 \<or> (\<exists>k. used n k \<and> i_size n = int (Suc k) * int BLOCKSIZE))"

definition node_ok :: "lfs \<Rightarrow> nat \<Rightarrow> inode \<Rightarrow> bool" where
  "node_ok s i n \<longleftrightarrow> i_inum n = int i \<and> i_type n \<in> {MFS_DIRECTORY, MFS_REGULAR_FILE} \<and> size_ok n \<and>
     (\<forall>k < 14. (dp_used n ! k = 1 \<and> block_in s (dpointers n ! k) BLOCKSIZE) \<or>
               (dp_used n ! k = 0 \<and> dpointers n ! k = -1)) \<and>
     (i_type n = MFS_DIRECTORY \<longrightarrow> used n 0 \<and> (\<forall>k. used n (Suc k) \<longrightarrow> used n k))"

definition dir_block_ok :: "byte list \<Rightarrow> bool" where
  "dir_block_ok bs \<longleftrightarrow> length bs = BLOCKSIZE \<and> names_terminated (dec_directory bs) \<and>
     (\<forall>j < 128. -1 \<le> d_inums (dec_directory bs) ! j \<and> d_inums (dec_directory bs) ! j < int MAXINODES \<and>
        (d_inums (dec_directory bs) ! j = -1 \<longrightarrow> dname (dec_directory bs) j = str_DNE))"

text \<open>The blocks in use: the inode itself (\<open>None\<close>) and its direct pointers, for every live inode.\<close>

definition slots :: "lfs \<Rightarrow> (nat \<times> nat option) set" where
  "slots s = {(i, None) | i. live s i} \<union> {(i, Some k) | i k. live s i \<and> used (inode_of s i) k}"

definition slot_block :: "lfs \<Rightarrow> nat \<times> nat option \<Rightarrow> int" where
  "slot_block s p = (case snd p of None \<Rightarrow> imap s ! fst p | Some k \<Rightarrow> dpointers (inode_of s (fst p)) ! k)"

definition unique_names :: "(byte list \<times> int) list \<Rightarrow> bool" where
  "unique_names es \<longleftrightarrow> distinct (filter (\<lambda>n. n \<noteq> str_DNE) (map fst es))"

definition dir_ok :: "lfs \<Rightarrow> nat \<Rightarrow> bool" where
  "dir_ok s i \<longleftrightarrow> (\<forall>k. used (inode_of s i) k \<longrightarrow> dir_block_ok (data_of s i k)) \<and> unique_names (dir_entries s i)"

definition lfs_inv :: "lfs \<Rightarrow> bool" where
  "lfs_inv s \<longleftrightarrow> length (imap s) = MAXINODES \<and> CRSIZE \<le> next_block s \<and> next_block s \<le> 2 ^ 19 \<and> cr_ok s \<and>
     (\<forall>i. live s i \<longrightarrow> block_in s (imap s ! i) sizeof_inode \<and> node_ok s i (inode_of s i)) \<and>
     inj_on (slot_block s) (slots s) \<and>
     (\<forall>i. is_dir s i \<longrightarrow> dir_ok s i)"

text \<open>What the C types say of the uninitialised variables.\<close>

definition junk_fits :: "junk \<Rightarrow> bool" where
  "junk_fits u \<longleftrightarrow> inode_fits (junk_node u) \<and> inode_fits (junk_child u) \<and> inode_fits (junk_heap u) \<and>
     directory_fits (junk_direct u) \<and> directory_fits (junk_block u) \<and> directory_fits (junk_temp u) \<and>
     directory_fits (junk_new u) \<and> length (junk_dirent u) = 32 \<and>
     length (junk_tail u) = BLOCKSIZE - sizeof_inode"

section \<open>Single accesses\<close>

lemma const_nums [simp]:
  "sizeof_inode \<le> BLOCKSIZE" "0 < BLOCKSIZE" "4 * MAXINODES + 4 \<le> 6 * BLOCKSIZE" "0 < MAXINODES"
  by (simp_all add: sizeof_inode_def BLOCKSIZE_def MAXINODES_def)

lemma blocks_apart: "b \<noteq> c \<Longrightarrow> (b::nat) * B + B \<le> c * B \<or> c * B + B \<le> b * B"
  by (metis add.commute mult_Suc mult_le_mono1 nat_neq_iff not_less_eq_eq not_less)

lemma bytes_fd_update [simp]: "bytes (s\<lparr>fd := f\<rparr>) = content f"
  by (simp add: bytes_def)

lemma bytes_other_updates [simp]:
  "bytes (s\<lparr>imap := m\<rparr>) = bytes s" "bytes (s\<lparr>next_block := b\<rparr>) = bytes s"
  by (simp_all add: bytes_def)

lemma at_block_other_updates [simp]:
  "at_block b n (s\<lparr>imap := m\<rparr>) = at_block b n s" "at_block b n (s\<lparr>next_block := nb\<rparr>) = at_block b n s"
  by (simp_all add: at_block_def)

lemma seek_write_frame [simp]:
  "imap (seek_write b bs s) = imap s" "next_block (seek_write b bs s) = next_block s"
  by (simp_all add: seek_write_def)

lemma update_CR_frame [simp]:
  "imap (update_CR i s) = imap s" "next_block (update_CR i s) = next_block s"
  by (simp_all add: update_CR_def Let_def)

lemma seek_read_frame [simp]:
  "imap (snd (seek_read b n s)) = imap s" "next_block (snd (seek_read b n s)) = next_block s"
  "bytes (snd (seek_read b n s)) = bytes s"
  by (simp_all add: seek_read_def bytes_def split_beta)

lemma length_seek_write [simp]:
  "0 \<le> b \<Longrightarrow> length (bytes (seek_write b bs s)) = max (length (bytes s)) (nat b * BLOCKSIZE + length bs)"
  by (simp add: seek_write_def bytes_def nat_mult_distrib)

lemma at_seek_write_same:
  "0 \<le> b \<Longrightarrow> n \<le> length bs \<Longrightarrow> at_block b n (seek_write b bs s) = take n bs"
  using peek_fd_write_within[of "(fd s)\<lparr>offset := nat b * BLOCKSIZE\<rparr>" "nat b * BLOCKSIZE" n bs]
  by (simp add: at_block_def seek_write_def nat_mult_distrib peek_def)

lemma at_seek_write_other:
  assumes "0 \<le> b" "0 \<le> c" "b \<noteq> c" "length bs \<le> BLOCKSIZE" "n \<le> BLOCKSIZE"
    "nat c * BLOCKSIZE + n \<le> length (bytes s)"
  shows "at_block c n (seek_write b bs s) = at_block c n s"
proof -
  have "nat b \<noteq> nat c" using assms by simp
  from blocks_apart[OF this, of BLOCKSIZE]
  have "nat c * BLOCKSIZE + n \<le> nat b * BLOCKSIZE \<or> nat b * BLOCKSIZE + length bs \<le> nat c * BLOCKSIZE"
    using assms(4,5) by linarith
  then show ?thesis
    using assms peek_fd_write_other[of "nat c * BLOCKSIZE" n "(fd s)\<lparr>offset := nat b * BLOCKSIZE\<rparr>" bs]
    by (simp add: at_block_def seek_write_def bytes_def nat_mult_distrib)
qed

lemma low_seek_write:
  assumes "CRSIZE \<le> b" "a + n \<le> 4 * MAXINODES + 4" "a + n \<le> length (bytes s)"
  shows "peek a n (bytes (seek_write b bs s)) = peek a n (bytes s)"
proof -
  have "6 * BLOCKSIZE \<le> nat b * BLOCKSIZE" using assms(1) by (simp add: CRSIZE_def)
  moreover have "4 * MAXINODES + 4 \<le> 6 * BLOCKSIZE" by simp
  ultimately have "a + n \<le> nat b * BLOCKSIZE" using assms(2) by linarith
  then show ?thesis
    using assms peek_fd_write_other[of a n "(fd s)\<lparr>offset := nat b * BLOCKSIZE\<rparr>" bs]
    by (simp add: seek_write_def bytes_def nat_mult_distrib CRSIZE_def)
qed

text \<open>The two writes of \<open>update_CR\<close>, as an update of the image.\<close>

lemma bytes_update_CR:
  assumes "inum < MAXINODES" "4 * MAXINODES + 4 \<le> length (bytes s)"
  shows "bytes (update_CR (int inum) s) =
    poke (4 * MAXINODES) (enc32 (next_block s)) (poke (4 * inum) (enc32 (imap s ! inum)) (bytes s))"
proof -
  have "nat (int inum * 4) = 4 * inum" "nat (int MAXINODES * 4) = 4 * MAXINODES" by simp_all
  moreover have "4 * inum + 4 \<le> length (content (fd s))" "4 * MAXINODES \<le> length (content (fd s))"
    using assms by (auto simp: bytes_def)
  ultimately show ?thesis
    by (simp add: update_CR_def bytes_def fd_write_def Let_def)
qed

lemma length_update_CR:
  "inum < MAXINODES \<Longrightarrow> 4 * MAXINODES + 4 \<le> length (bytes s) \<Longrightarrow>
   length (bytes (update_CR (int inum) s)) = length (bytes s)"
  by (simp add: bytes_update_CR)

lemma at_update_CR:
  assumes "inum < MAXINODES" "4 * MAXINODES + 4 \<le> length (bytes s)" "CRSIZE \<le> b"
  shows "at_block b n (update_CR (int inum) s) = at_block b n s"
proof -
  have "6 * BLOCKSIZE \<le> nat b * BLOCKSIZE" using assms(3) by (simp add: CRSIZE_def)
  moreover have "4 * MAXINODES + 4 \<le> 6 * BLOCKSIZE" by simp
  ultimately have "4 * MAXINODES + 4 \<le> nat b * BLOCKSIZE" by linarith
  then show ?thesis
    using assms by (simp add: at_block_def bytes_update_CR peek_poke_after)
qed

lemma cr_ok_update_CR:
  assumes "inum < MAXINODES" "4 * MAXINODES + 4 \<le> length (bytes s)"
    and "\<And>i. i < MAXINODES \<Longrightarrow> i \<noteq> inum \<Longrightarrow> peek (4 * i) 4 (bytes s) = enc32 (imap s ! i)"
  shows "cr_ok (update_CR (int inum) s)"
proof -
  let ?m = "poke (4 * inum) (enc32 (imap s ! inum)) (bytes s)"
  have "peek (4 * i) 4 ?m = enc32 (imap s ! i)" if "i < MAXINODES" for i
  proof (cases "i = inum")
    case True
    then show ?thesis using assms(1,2) by (simp add: peek_poke_same)
  next
    case False
    then have "4 * i + 4 \<le> 4 * inum \<or> 4 * inum + 4 \<le> 4 * i" by linarith
    then have "peek (4 * i) 4 ?m = peek (4 * i) 4 (bytes s)"
      using assms(1,2) by (auto simp: peek_poke_before peek_poke_after)
    with assms(3)[OF that False] show ?thesis by simp
  qed
  moreover have "4 * MAXINODES \<le> length ?m" using assms(1,2) by simp
  ultimately show ?thesis
    using assms(1,2)
    by (auto simp: cr_ok_def length_update_CR bytes_update_CR region_simps)
qed

lemma seek_read_inside:
  assumes "0 \<le> b" "nat b * BLOCKSIZE + n \<le> length (bytes s)"
  shows "fst (seek_read b n s) = at_block b n s"
  using assms by (simp add: seek_read_def fd_read_def at_block_def bytes_def nat_mult_distrib split_beta Let_def)

lemma length_at_block:
  "nat b * BLOCKSIZE + n \<le> length (bytes s) \<Longrightarrow> length (at_block b n s) = n"
  by (simp add: at_block_def)

end
