(* ===== verification/Lfs_Read.thy ===== *)
theory Lfs_Read
  imports Lfs_Inv
begin

text \<open>
  The operations of the server that only read: \<open>find_inode\<close>, \<open>lookup_server\<close>, \<open>stat_server\<close> and
  \<open>read_server\<close>. They move the file offset and nothing else (\<open>same_image\<close>), and in a state that
  satisfies the invariant they return what the views of \<open>Lfs_Inv\<close> say.
\<close>

definition same_image :: "lfs \<Rightarrow> lfs \<Rightarrow> bool" where
  "same_image s t \<longleftrightarrow> imap t = imap s \<and> next_block t = next_block s \<and> bytes t = bytes s"

named_theorems same_image_views \<open>the views of two states with the same image agree\<close>

lemma same_image_refl [simp]: "same_image s s"
  by (simp add: same_image_def)

lemma same_image_trans [trans]: "same_image s t \<Longrightarrow> same_image t r \<Longrightarrow> same_image s r"
  by (simp add: same_image_def)

lemma same_imageD [same_image_views]:
  assumes "same_image s t"
  shows "imap t = imap s" "next_block t = next_block s" "bytes t = bytes s"
  using assms by (simp_all add: same_image_def)

lemma same_image_at_block [same_image_views]: "same_image s t \<Longrightarrow> at_block b n t = at_block b n s"
  by (simp add: at_block_def same_image_def)

lemma same_image_inode_of [same_image_views]: "same_image s t \<Longrightarrow> inode_of t i = inode_of s i"
  by (simp add: inode_of_def same_image_at_block same_imageD)

lemma same_image_data_of [same_image_views]: "same_image s t \<Longrightarrow> data_of t i k = data_of s i k"
  by (simp add: data_of_def same_image_views)

lemma same_image_live [same_image_views]: "same_image s t \<Longrightarrow> live t i = live s i"
  by (simp add: live_def same_image_views)

lemma same_image_kinds [same_image_views]:
  "same_image s t \<Longrightarrow> is_dir t i = is_dir s i" "same_image s t \<Longrightarrow> is_file t i = is_file s i"
  by (simp_all add: is_dir_def is_file_def same_image_views)

lemma same_image_dir_entries [same_image_views]: "same_image s t \<Longrightarrow> dir_entries t i = dir_entries s i"
  by (simp add: dir_entries_def same_image_views cong: if_cong)

lemma same_image_lfs_inv [same_image_views]:
  assumes "same_image s t"
  shows "lfs_inv t = lfs_inv s"
proof -
  have "slots t = slots s" using assms by (simp add: slots_def same_image_views)
  moreover have "slot_block t = slot_block s"
    using assms by (simp add: slot_block_def fun_eq_iff same_image_views split: option.splits)
  moreover have "node_ok t = node_ok s" "block_in t = block_in s"
    using assms by (simp_all add: node_ok_def block_in_def fun_eq_iff same_image_views)
  moreover have "dir_ok t = dir_ok s"
    using assms by (simp add: dir_ok_def fun_eq_iff same_image_views)
  ultimately show ?thesis
    using assms by (simp add: lfs_inv_def cr_ok_def same_image_views)
qed

lemma same_image_seek_read [simp]: "same_image s (snd (seek_read b n s))"
  by (simp add: same_image_def)

section \<open>The invariant at one inode\<close>

lemma inv_live:
  assumes "lfs_inv s" "live s i"
  shows "block_in s (imap s ! i) sizeof_inode" "node_ok s i (inode_of s i)"
  using assms by (auto simp: lfs_inv_def)

lemma inode_of_fits [simp]: "inode_fits (inode_of s i)"
  by (simp add: inode_of_def inode_fits_dec)

lemma fits_lengths [simp]:
  "inode_fits n \<Longrightarrow> length (dpointers n) = 14" "inode_fits n \<Longrightarrow> length (dp_used n) = 14"
  by (simp_all add: inode_fits_def)

lemma inv_used_block:
  assumes "lfs_inv s" "live s i" "used (inode_of s i) k"
  shows "block_in s (dpointers (inode_of s i) ! k) BLOCKSIZE"
  using inv_live(2)[OF assms(1,2)] assms(3) by (fastforce simp: node_ok_def used_def)

lemma block_inD:
  assumes "block_in s b n"
  shows "0 \<le> b" "CRSIZE \<le> b" "b < next_block s" "nat b * BLOCKSIZE + n \<le> length (bytes s)"
  using assms by (auto simp: block_in_def CRSIZE_def)

lemma length_data_of:
  "lfs_inv s \<Longrightarrow> live s i \<Longrightarrow> used (inode_of s i) k \<Longrightarrow> length (data_of s i k) = BLOCKSIZE"
  by (simp add: data_of_def length_at_block block_inD(4)[OF inv_used_block])

lemma inv_dir_block:
  "lfs_inv s \<Longrightarrow> is_dir s i \<Longrightarrow> used (inode_of s i) k \<Longrightarrow> dir_block_ok (data_of s i k)"
  by (simp add: lfs_inv_def dir_ok_def)

lemma is_dir_live: "is_dir s i \<Longrightarrow> live s i" and is_file_live: "is_file s i \<Longrightarrow> live s i"
  by (simp_all add: is_dir_def is_file_def)

lemma live_bound: "live s i \<Longrightarrow> i < MAXINODES"
  by (simp add: live_def)

section \<open>Reading operations\<close>

lemma find_inode_invalid:
  "i < 0 \<or> int MAXINODES \<le> i \<Longrightarrow> find_inode i node s = (-1, node, s)"
  by (auto simp: find_inode_def)

lemma find_inode_live:
  assumes "lfs_inv s" "live s i" "inode_fits node"
  obtains t where "find_inode (int i) node s = (0, inode_of s i, t)" "same_image s t"
proof -
  note b = block_inD[OF inv_live(1)[OF assms(1,2)]]
  have got: "fst (seek_read (imap s ! i) sizeof_inode s) = at_block (imap s ! i) sizeof_inode s"
    using b by (intro seek_read_inside) auto
  have "overlay (at_block (imap s ! i) sizeof_inode s) (enc_inode node) = at_block (imap s ! i) sizeof_inode s"
    using b assms(3) by (simp add: length_at_block length_enc_inode)
  with got have "find_inode (int i) node s =
      (0, inode_of s i, snd (seek_read (imap s ! i) sizeof_inode s))"
    using live_bound[OF assms(2)] by (simp add: find_inode_def split_beta inode_of_def)
  then show thesis by (rule that) simp
qed

lemma read_dir_block:
  assumes "lfs_inv s" "live s i" "used (inode_of s i) k" "directory_fits d"
  obtains t where "seek_read (dpointers (inode_of s i) ! k) BLOCKSIZE s = (data_of s i k, t)" "same_image s t"
    and "overlay (data_of s i k) (enc_directory d) = data_of s i k"
proof -
  note b = block_inD[OF inv_used_block[OF assms(1-3)]]
  have "fst (seek_read (dpointers (inode_of s i) ! k) BLOCKSIZE s) = data_of s i k"
    unfolding data_of_def using b by (intro seek_read_inside) auto
  then have "seek_read (dpointers (inode_of s i) ! k) BLOCKSIZE s =
      (data_of s i k, snd (seek_read (dpointers (inode_of s i) ! k) BLOCKSIZE s))"
    by (metis prod.collapse)
  moreover have "overlay (data_of s i k) (enc_directory d) = data_of s i k"
    using assms by (simp add: length_data_of length_enc_directory)
  ultimately show thesis by (rule that[OF _ same_image_seek_read])
qed

lemma map_of_find: "map_of (map (\<lambda>j. (f j, g j)) js) x = map_option g (find (\<lambda>j. f j = x) js)"
  by (induction js) auto

lemma map_of_block_entries:
  "map_of (block_entries bs) name =
     map_option (\<lambda>j. d_inums (dec_directory bs) ! j) (find (\<lambda>j. dname (dec_directory bs) j = name) [0..<128])"
  unfolding block_entries_def by (rule map_of_find)

lemma lookup_blocks_map:
  assumes "lfs_inv s" "live s i" "directory_fits direct" "set ks \<subseteq> {0..<14}"
  shows "\<exists>t. lookup_blocks name (inode_of s i) ks direct s =
      ((case map_of (concat (map (\<lambda>k. if used (inode_of s i) k then block_entries (data_of s i k) else []) ks)) name of
          None \<Rightarrow> -1 | Some v \<Rightarrow> v), t) \<and> same_image s t"
  using assms
proof (induction ks arbitrary: direct s)
  case Nil
  then show ?case by auto
next
  case (Cons k ks)
  show ?case
  proof (cases "used (inode_of s i) k")
    case False
    with Cons.prems have "dp_used (inode_of s i) ! k \<noteq> 1" by (auto simp: used_def)
    with False Cons.IH[OF Cons.prems(1-3)] Cons.prems(4) show ?thesis by auto
  next
    case True
    obtain t where t: "seek_read (dpointers (inode_of s i) ! k) BLOCKSIZE s = (data_of s i k, t)" "same_image s t"
      and ov: "overlay (data_of s i k) (enc_directory direct) = data_of s i k"
      using read_dir_block[OF Cons.prems(1,2) True Cons.prems(3)] .
    have fits: "directory_fits (dec_directory (data_of s i k))"
      by (rule directory_fits_dec) (rule length_data_of[OF Cons.prems(1,2) True])
    obtain r where r: "lookup_blocks name (inode_of t i) ks (dec_directory (data_of s i k)) t =
        ((case map_of (concat (map (\<lambda>k. if used (inode_of t i) k then block_entries (data_of t i k) else []) ks)) name of
          None \<Rightarrow> -1 | Some v \<Rightarrow> v), r)" "same_image t r"
      using Cons.IH[OF _ _ fits, of t] Cons.prems t(2) by (auto simp: same_image_views)
    have "dp_used (inode_of s i) ! k = 1" using True by (simp add: used_def)
    then show ?thesis
      using True t r ov same_image_trans[OF t(2) r(2)]
      by (auto simp: map_of_block_entries same_image_views map_add_def split: option.splits cong: if_cong)
  qed
qed

lemma lookup_server_map:
  assumes "lfs_inv s" "live s i" "junk_fits u"
  obtains t where "lookup_server u (int i) name s =
      ((case map_of (dir_entries s i) name of None \<Rightarrow> -1 | Some v \<Rightarrow> v), t)" "same_image s t"
proof -
  have fits: "inode_fits (junk_heap u)" "directory_fits (junk_direct u)"
    using assms(3) by (simp_all add: junk_fits_def)
  obtain t where t: "find_inode (int i) (junk_heap u) s = (0, inode_of s i, t)" "same_image s t"
    using find_inode_live[OF assms(1,2) fits(1)] .
  obtain r where r: "lookup_blocks name (inode_of t i) [0..<14] (junk_direct u) t =
      ((case map_of (dir_entries t i) name of None \<Rightarrow> -1 | Some v \<Rightarrow> v), r)" "same_image t r"
    using lookup_blocks_map[of t i "junk_direct u" "[0..<14]" name] assms fits t(2)
    unfolding dir_entries_def by (auto simp: same_image_views)
  have "lookup_server u (int i) name s =
      ((case map_of (dir_entries s i) name of None \<Rightarrow> -1 | Some v \<Rightarrow> v), r)"
    using t r by (simp add: lookup_server_def same_image_views)
  then show thesis using same_image_trans[OF t(2) r(2)] by (rule that)
qed

lemma lookup_server_invalid:
  "i < 0 \<or> int MAXINODES \<le> i \<Longrightarrow> lookup_server u i name s = (-1, s)"
  by (simp add: lookup_server_def find_inode_invalid)

lemma stat_server_live:
  assumes "lfs_inv s" "live s i" "junk_fits u"
  obtains t where "stat_server u (int i) m s =
      (0, m\<lparr>st_type := i_type (inode_of s i), st_size := i_size (inode_of s i)\<rparr>, t)" "same_image s t"
proof -
  obtain t where "find_inode (int i) (junk_node u) s = (0, inode_of s i, t)" "same_image s t"
    using find_inode_live[OF assms(1,2)] assms(3) by (auto simp: junk_fits_def)
  then show thesis by (intro that) (auto simp: stat_server_def)
qed

lemma read_server_file:
  assumes "lfs_inv s" "is_file s i" "junk_fits u" "used (inode_of s i) k" "length buffer \<le> BLOCKSIZE"
  obtains t where "read_server u (int i) buffer (int k) s = (0, data_of s i k, t)" "same_image s t"
proof -
  have live: "live s i" and ftype: "i_type (inode_of s i) = MFS_REGULAR_FILE"
    using assms(2) by (simp_all add: is_file_def)
  obtain t where t: "find_inode (int i) (junk_node u) s = (0, inode_of s i, t)" "same_image s t"
    using find_inode_live[OF assms(1) live] assms(3) by (auto simp: junk_fits_def)
  have t_inv: "lfs_inv t" "live t i" "used (inode_of t i) k"
    using assms live t(2) by (simp_all add: same_image_views)
  obtain r where r: "seek_read (dpointers (inode_of t i) ! k) BLOCKSIZE t = (data_of t i k, r)" "same_image t r"
    using read_dir_block[OF t_inv, of "junk_block u"] assms(3) by (auto simp: junk_fits_def)
  have "overlay (data_of s i k) buffer = data_of s i k"
    using assms live by (simp add: length_data_of)
  then have "read_server u (int i) buffer (int k) s = (0, data_of s i k, r)"
    using t r ftype assms(4) by (simp add: read_server_def same_image_views used_def)
  then show thesis using same_image_trans[OF t(2) r(2)] by (rule that)
qed

end
