(* ===== verification/Lfs_Frame.thy ===== *)
theory Lfs_Frame
  imports Lfs_Read
begin

text \<open>
  Frame reasoning for the operations that write. \<open>log_frame W s t\<close>: from \<open>s\<close> to \<open>t\<close> the log has changed
  in the blocks of \<open>W\<close> at most. An inode none of whose blocks is in \<open>W\<close> is the same in both states
  (\<open>agree\<close>), and a state whose inodes either agree with the old one or satisfy the invariant on their
  own, with all new blocks taken from the end of the log, satisfies the invariant again (\<open>lfs_invI\<close>).
\<close>

definition log_frame :: "int set \<Rightarrow> lfs \<Rightarrow> lfs \<Rightarrow> bool" where
  "log_frame W s t \<longleftrightarrow> length (bytes s) \<le> length (bytes t) \<and>
     (\<forall>c n. CRSIZE \<le> c \<longrightarrow> c \<notin> W \<longrightarrow> n \<le> BLOCKSIZE \<longrightarrow> nat c * BLOCKSIZE + n \<le> length (bytes s) \<longrightarrow>
        at_block c n t = at_block c n s)"

definition low_frame :: "lfs \<Rightarrow> lfs \<Rightarrow> bool" where
  "low_frame s t \<longleftrightarrow> length (bytes s) \<le> length (bytes t) \<and>
     (\<forall>a n. a + n \<le> 4 * MAXINODES + 4 \<longrightarrow> a + n \<le> length (bytes s) \<longrightarrow> peek a n (bytes t) = peek a n (bytes s))"

definition agree :: "lfs \<Rightarrow> lfs \<Rightarrow> nat \<Rightarrow> bool" where
  "agree s t i \<longleftrightarrow> imap t ! i = imap s ! i \<and> inode_of t i = inode_of s i \<and>
     (\<forall>k. used (inode_of s i) k \<longrightarrow> data_of t i k = data_of s i k)"

section \<open>Frames of single steps\<close>

lemma log_frame_trans:
  assumes "log_frame V s t" "log_frame W t r"
  shows "log_frame (V \<union> W) s r"
  using assms unfolding log_frame_def by (metis UnCI dual_order.trans)

lemma log_frame_mono: "log_frame V s t \<Longrightarrow> V \<subseteq> W \<Longrightarrow> log_frame W s t"
  unfolding log_frame_def by blast

lemma log_frame_same_image: "same_image s t \<Longrightarrow> log_frame {} s t"
  by (simp add: log_frame_def same_image_views)

lemma log_frame_updates [simp]:
  "log_frame {} s (s\<lparr>imap := m\<rparr>)" "log_frame {} s (s\<lparr>next_block := nb\<rparr>)"
  by (simp_all add: log_frame_def)

lemma log_frame_seek_write:
  "0 \<le> b \<Longrightarrow> length bs \<le> BLOCKSIZE \<Longrightarrow> log_frame {b} s (seek_write b bs s)"
  by (auto simp: log_frame_def CRSIZE_def at_seek_write_other)

lemma log_frame_update_CR:
  "inum < MAXINODES \<Longrightarrow> 4 * MAXINODES + 4 \<le> length (bytes s) \<Longrightarrow> log_frame {} s (update_CR (int inum) s)"
  by (simp add: log_frame_def length_update_CR at_update_CR)

lemma low_frame_trans: "low_frame s t \<Longrightarrow> low_frame t r \<Longrightarrow> low_frame s r"
  unfolding low_frame_def by (metis dual_order.trans)

lemma low_frame_same_image: "same_image s t \<Longrightarrow> low_frame s t"
  by (simp add: low_frame_def same_image_views)

lemma low_frame_updates [simp]:
  "low_frame s (s\<lparr>imap := m\<rparr>)" "low_frame s (s\<lparr>next_block := nb\<rparr>)"
  by (simp_all add: low_frame_def)

lemma low_frame_seek_write: "CRSIZE \<le> b \<Longrightarrow> low_frame s (seek_write b bs s)"
  by (auto simp: low_frame_def low_seek_write CRSIZE_def)

lemma log_frameD:
  "log_frame W s t \<Longrightarrow> CRSIZE \<le> c \<Longrightarrow> c \<notin> W \<Longrightarrow> n \<le> BLOCKSIZE \<Longrightarrow>
   nat c * BLOCKSIZE + n \<le> length (bytes s) \<Longrightarrow> at_block c n t = at_block c n s"
  by (simp add: log_frame_def)

lemma log_frame_length: "log_frame W s t \<Longrightarrow> length (bytes s) \<le> length (bytes t)"
  by (simp add: log_frame_def)

lemma cr_ok_after:
  assumes "cr_ok s" "low_frame s t" "inum < MAXINODES" "length (imap s) = MAXINODES"
    and "\<And>i. i < MAXINODES \<Longrightarrow> i \<noteq> inum \<Longrightarrow> imap t ! i = imap s ! i"
  shows "cr_ok (update_CR (int inum) t)"
proof (rule cr_ok_update_CR[OF assms(3)])
  show "4 * MAXINODES + 4 \<le> length (bytes t)"
    using assms(1,2) by (simp add: cr_ok_def low_frame_def)
  show "peek (4 * i) 4 (bytes t) = enc32 (imap t ! i)" if "i < MAXINODES" "i \<noteq> inum" for i
    using assms(1,2) assms(5)[OF that] that by (simp add: cr_ok_def low_frame_def)
qed

section \<open>Sequences of block writes\<close>

definition writes :: "(int \<times> byte list) list \<Rightarrow> lfs \<Rightarrow> lfs" where
  "writes ws s = fold (\<lambda>(b, bs). seek_write b bs) ws s"

definition log_writes :: "(int \<times> byte list) list \<Rightarrow> bool" where
  "log_writes ws \<longleftrightarrow> distinct (map fst ws) \<and> list_all (\<lambda>(b, bs). CRSIZE \<le> b \<and> length bs \<le> BLOCKSIZE) ws"

lemma writes_simps [simp]:
  "writes [] s = s" "writes ((b, bs) # ws) s = writes ws (seek_write b bs s)"
  "imap (writes ws s) = imap s" "next_block (writes ws s) = next_block s"
  by (simp_all add: writes_def) (induction ws arbitrary: s; auto)+

lemma seek_write_commute [simp]:
  "seek_write b bs (s\<lparr>imap := m\<rparr>) = (seek_write b bs s)\<lparr>imap := m\<rparr>"
  "seek_write b bs (s\<lparr>next_block := nb\<rparr>) = (seek_write b bs s)\<lparr>next_block := nb\<rparr>"
  by (simp_all add: seek_write_def)

lemma log_writes_Cons [simp]:
  "log_writes ((b, bs) # ws) \<longleftrightarrow> b \<notin> fst ` set ws \<and> CRSIZE \<le> b \<and> length bs \<le> BLOCKSIZE \<and> log_writes ws"
  by (auto simp: log_writes_def)

lemma log_writes_Nil [simp]: "log_writes []"
  by (simp add: log_writes_def)

lemma writes_log_frame: "log_writes ws \<Longrightarrow> log_frame (fst ` set ws) s (writes ws s)"
proof (induction ws arbitrary: s)
  case Nil
  then show ?case by (simp add: log_frame_def)
next
  case (Cons w ws)
  obtain b bs where w: "w = (b, bs)" by (cases w)
  have "log_frame {b} s (seek_write b bs s)"
    using Cons.prems by (intro log_frame_seek_write) (auto simp: w CRSIZE_def)
  from log_frame_trans[OF this Cons.IH] Cons.prems show ?case by (simp add: w)
qed

lemma writes_low_frame: "log_writes ws \<Longrightarrow> low_frame s (writes ws s)"
proof (induction ws arbitrary: s)
  case Nil
  then show ?case by (simp add: low_frame_def)
next
  case (Cons w ws)
  obtain b bs where w: "w = (b, bs)" by (cases w)
  then show ?case
    using low_frame_trans[OF low_frame_seek_write Cons.IH] Cons.prems by simp
qed

lemma at_writes:
  assumes "log_writes ws" "(b, bs) \<in> set ws"
  shows "nat b * BLOCKSIZE + length bs \<le> length (bytes (writes ws s))"
    and "n \<le> length bs \<Longrightarrow> at_block b n (writes ws s) = take n bs"
proof -
  have "nat b * BLOCKSIZE + length bs \<le> length (bytes (writes ws s)) \<and>
      (n \<le> length bs \<longrightarrow> at_block b n (writes ws s) = take n bs)" for n
    using assms
  proof (induction ws arbitrary: s)
    case (Cons w ws)
    obtain c cs where w: "w = (c, cs)" by (cases w)
    have ws: "log_writes ws" "CRSIZE \<le> c" "length cs \<le> BLOCKSIZE" "c \<notin> fst ` set ws"
      using Cons.prems(1) by (auto simp: w)
    show ?case
    proof (cases "(b, bs) \<in> set ws")
      case True
      then show ?thesis using Cons.IH[OF ws(1)] by (simp add: w)
    next
      case False
      then have bc: "b = c" "bs = cs" using Cons.prems(2) by (auto simp: w)
      note frame = writes_log_frame[OF ws(1), of "seek_write c cs s"]
      have inside: "nat c * BLOCKSIZE + length cs \<le> length (bytes (seek_write c cs s))" "0 \<le> c"
        using ws(2) by (simp_all add: CRSIZE_def)
      then show ?thesis
        using log_frame_length[OF frame] log_frameD[OF frame ws(2,4), of n] ws(3)
        by (auto simp: w bc at_seek_write_same)
    qed
  qed simp
  then show "nat b * BLOCKSIZE + length bs \<le> length (bytes (writes ws s))"
    "n \<le> length bs \<Longrightarrow> at_block b n (writes ws s) = take n bs" by blast+
qed

section \<open>Inodes outside the frame\<close>

lemma agree_by_frame:
  assumes "lfs_inv s" "live s i" "log_frame W s t" "imap t ! i = imap s ! i"
    and "imap s ! i \<notin> W" "\<And>k. used (inode_of s i) k \<Longrightarrow> dpointers (inode_of s i) ! k \<notin> W"
  shows "agree s t i"
proof -
  have node: "inode_of t i = inode_of s i"
    using assms(4) log_frameD[OF assms(3) _ assms(5)] block_inD[OF inv_live(1)[OF assms(1,2)]]
    by (simp add: inode_of_def)
  moreover have "data_of t i k = data_of s i k" if "used (inode_of s i) k" for k
    using node log_frameD[OF assms(3) _ assms(6)[OF that]] block_inD[OF inv_used_block[OF assms(1,2) that]]
    by (simp add: data_of_def)
  ultimately show ?thesis using assms(4) by (simp add: agree_def)
qed

lemma agree_dir_entries: "agree s t i \<Longrightarrow> dir_entries t i = dir_entries s i"
  by (simp add: dir_entries_def agree_def cong: if_cong)

lemma agree_dir_ok: "agree s t i \<Longrightarrow> dir_ok t i = dir_ok s i"
  by (auto simp: dir_ok_def agree_dir_entries) (auto simp: agree_def)

lemma agree_kind:
  assumes "agree s t i"
  shows "live t i = live s i" "is_dir t i = is_dir s i" "is_file t i = is_file s i"
  using assms by (auto simp: agree_def live_def is_dir_def is_file_def)

lemma node_ok_mono:
  assumes "node_ok s i n" "next_block s \<le> next_block t" "length (bytes s) \<le> length (bytes t)"
  shows "node_ok t i n"
proof -
  have "block_in t b m" if "block_in s b m" for b m
    using that assms(2,3) by (auto simp: block_in_def)
  with assms(1) show ?thesis unfolding node_ok_def by blast
qed

section \<open>Establishing the invariant\<close>

lemma slot_bound: "lfs_inv s \<Longrightarrow> p \<in> slots s \<Longrightarrow> CRSIZE \<le> slot_block s p \<and> slot_block s p < next_block s"
  by (auto simp: slots_def slot_block_def
      intro: block_inD(2,3)[OF inv_live(1)] block_inD(2,3)[OF inv_used_block])

lemma inj_on_slots:
  assumes "lfs_inv s"
    and "\<And>p. p \<in> slots t \<Longrightarrow> (p \<in> slots s \<and> slot_block t p = slot_block s p) \<or> (p \<in> F \<and> next_block s \<le> slot_block t p)"
    and "inj_on (slot_block t) F"
  shows "inj_on (slot_block t) (slots t)"
proof (rule inj_onI)
  fix p q assume p: "p \<in> slots t" and q: "q \<in> slots t" and eq: "slot_block t p = slot_block t q"
  have inj: "inj_on (slot_block s) (slots s)" using assms(1) by (simp add: lfs_inv_def)
  from assms(2)[OF p] assms(2)[OF q] eq show "p = q"
    using inj_onD[OF inj] inj_onD[OF assms(3)] slot_bound[OF assms(1)]
    by (metis linorder_not_less)
qed

lemma lfs_invI:
  assumes inv: "lfs_inv s" and len: "length (imap t) = MAXINODES"
    and nb: "next_block s \<le> next_block t" "next_block t \<le> 2 ^ 19"
    and bytes: "length (bytes s) \<le> length (bytes t)" and cr: "cr_ok t"
    and node: "\<And>i. live t i \<Longrightarrow> (live s i \<and> agree s t i) \<or>
       (block_in t (imap t ! i) sizeof_inode \<and> node_ok t i (inode_of t i) \<and>
        (is_dir t i \<longrightarrow> dir_ok t i))"
    and slots: "\<And>p. p \<in> slots t \<Longrightarrow>
       (p \<in> slots s \<and> slot_block t p = slot_block s p) \<or> (p \<in> F \<and> next_block s \<le> slot_block t p)"
    and fresh: "inj_on (slot_block t) F"
  shows "lfs_inv t"
proof -
  have "block_in t (imap t ! i) sizeof_inode \<and> node_ok t i (inode_of t i)" if "live t i" for i
    using node[OF that] inv_live[OF inv, of i] nb(1) bytes
    by (auto simp: agree_def block_in_def intro: node_ok_mono)
  moreover have "dir_ok t i" if "is_dir t i" for i
    using node[OF is_dir_live[OF that]] that inv
    by (auto simp: lfs_inv_def agree_dir_ok agree_kind)
  moreover have "CRSIZE \<le> next_block t" using inv nb(1) by (simp add: lfs_inv_def)
  ultimately show ?thesis
    using len nb(2) cr inj_on_slots[OF inv slots fresh] by (simp add: lfs_inv_def)
qed

lemma slots_of: "(i, None) \<in> slots s \<longleftrightarrow> live s i" "(i, Some k) \<in> slots s \<longleftrightarrow> live s i \<and> used (inode_of s i) k"
  by (auto simp: slots_def)

lemma slot_block_simps [simp]:
  "slot_block s (i, None) = imap s ! i" "slot_block s (i, Some k) = dpointers (inode_of s i) ! k"
  by (simp_all add: slot_block_def)

lemma distinct_slots:
  assumes "lfs_inv s" "p \<in> slots s" "q \<in> slots s" "p \<noteq> q"
  shows "slot_block s p \<noteq> slot_block s q"
  using assms by (auto simp: lfs_inv_def dest: inj_onD)

lemma inode_block_apart:
  assumes "lfs_inv s" "live s i" "live s j" "i \<noteq> j"
  shows "imap s ! i \<noteq> imap s ! j"
  using distinct_slots[OF assms(1), of "(i, None)" "(j, None)"] assms by (simp add: slots_of)

lemma data_block_apart:
  assumes "lfs_inv s" "live s i" "live s j" "used (inode_of s j) k"
  shows "imap s ! i \<noteq> dpointers (inode_of s j) ! k"
  using distinct_slots[OF assms(1), of "(i, None)" "(j, Some k)"] assms by (simp add: slots_of)

lemma data_blocks_apart:
  assumes "lfs_inv s" "live s i" "used (inode_of s i) k" "live s j" "used (inode_of s j) l" "(i, k) \<noteq> (j, l)"
  shows "dpointers (inode_of s i) ! k \<noteq> dpointers (inode_of s j) ! l"
  using distinct_slots[OF assms(1), of "(i, Some k)" "(j, Some l)"] assms by (simp add: slots_of)

end
