(* ===== verification/Lfs_Write.thy ===== *)
theory Lfs_Write
  imports Lfs_Frame
begin

text \<open>
  \<open>write_server\<close>: the block that is written goes to the end of the log, the inode is rewritten in place,
  the checkpoint region follows. Everything else of the file system is unchanged.
\<close>

definition written :: "inode \<Rightarrow> nat \<Rightarrow> int \<Rightarrow> inode" where
  "written n k b = n\<lparr>dpointers := (dpointers n)[k := b], dp_used := (dp_used n)[k := 1],
     i_size := max (i_size n) (int (Suc k) * int BLOCKSIZE)\<rparr>"

lemma used_written [simp]:
  "inode_fits n \<Longrightarrow> k < 14 \<Longrightarrow> used (written n k b) l \<longleftrightarrow> l = k \<or> used n l"
  by (auto simp: written_def used_def nth_list_update)

lemma written_type [simp]: "i_type (written n k b) = i_type n" "i_inum (written n k b) = i_inum n"
  by (simp_all add: written_def)

lemma dpointers_written [simp]:
  "inode_fits n \<Longrightarrow> k < 14 \<Longrightarrow> dpointers (written n k b) ! l = (if l = k then b else dpointers n ! l)"
  by (auto simp: written_def nth_list_update)

lemma size_ok_bounds: "size_ok n \<Longrightarrow> 0 \<le> i_size n \<and> i_size n \<le> 14 * int BLOCKSIZE"
  by (auto simp: size_ok_def used_def BLOCKSIZE_def)

lemma size_ok_extent:
  assumes "size_ok n"
  shows "i_size n = (if \<exists>k. used n k then int (Suc (Max {k. used n k})) * int BLOCKSIZE else 0)"
proof (cases "\<exists>k. used n k")
  case False
  with assms show ?thesis by (auto simp: size_ok_def)
next
  case True
  have fin: "finite {k. used n k}" by (rule finite_subset[of _ "{..<14}"]) (auto simp: used_def)
  obtain l where l: "used n l" using True by blast
  then have "int (Suc l) * int BLOCKSIZE \<le> i_size n" using assms by (simp add: size_ok_def)
  then have "i_size n \<noteq> 0" by (auto simp: BLOCKSIZE_def)
  then obtain k where k: "used n k" "i_size n = int (Suc k) * int BLOCKSIZE" using assms by (auto simp: size_ok_def)
  have "j \<le> k" if "used n j" for j
  proof -
    have "int (Suc j) * int BLOCKSIZE \<le> int (Suc k) * int BLOCKSIZE" using that assms k(2) by (simp add: size_ok_def)
    then show ?thesis by (simp add: BLOCKSIZE_def)
  qed
  then have "Max {k. used n k} = k" using fin k(1) by (intro Max_eqI) auto
  with True k(2) show ?thesis by simp
qed

lemma size_ok_written:
  assumes "inode_fits n" "size_ok n" "k < 14"
  shows "size_ok (written n k b)"
  using assms unfolding size_ok_def
  by (simp only: used_written) (auto simp: written_def max_def BLOCKSIZE_def)

lemma list_all_update: "list_all P xs \<Longrightarrow> P v \<Longrightarrow> list_all P (xs[k := v])"
  by (auto simp: list_all_iff dest: set_update_subset_insert[THEN subsetD])

lemma written_fits:
  assumes "inode_fits n" "size_ok n" "k < 14" "int32 b"
  shows "inode_fits (written n k b)"
proof -
  have "int32 (max (i_size n) (int (Suc k) * int BLOCKSIZE))"
    using size_ok_bounds[OF assms(2)] assms(3) by (simp add: int32_def BLOCKSIZE_def max_def)
  moreover have "list_all int32 ((dpointers n)[k := b])" "list_all int32 ((dp_used n)[k := 1])"
    using assms(1,4) by (auto simp: inode_fits_def int32_def simp del: fits_lengths intro!: list_all_update)
  ultimately show ?thesis
    using assms(1) unfolding inode_fits_def written_def by (simp del: of_nat_Suc fits_lengths)
qed

lemma write_node_eq:
  assumes "dp_used n ! k = 0 \<or> dp_used n ! k = 1" "k < length (dp_used n)"
  shows "write_node n (int k) b = written n k b"
proof (cases "dp_used n ! k = 0")
  case True
  then show ?thesis by (simp add: write_node_def written_def max_def Let_def algebra_simps)
next
  case False
  with assms have "(dp_used n)[k := 1] = dp_used n" by (simp add: list_update_same_conv)
  with False show ?thesis by (simp add: write_node_def written_def max_def Let_def algebra_simps)
qed

text \<open>The state after a successful call, from the state with the same image in which the inode was read.\<close>

definition write_steps :: "nat \<Rightarrow> byte list \<Rightarrow> nat \<Rightarrow> inode \<Rightarrow> lfs \<Rightarrow> lfs" where
  "write_steps i buffer k n s =
     (let s2 = seek_write (next_block s) buffer s;
          s3 = seek_write (imap s ! i) (enc_inode (written n k (next_block s))) s2
      in update_CR (int i) (s3\<lparr>next_block := next_block s + 1\<rparr>))"

lemma write_server_steps:
  assumes "lfs_inv s" "is_file s i" "junk_fits u" "k < 14" "length buffer = BLOCKSIZE"
  obtains t where "same_image s t"
    "write_server u (int i) buffer (int k) s = (0, write_steps i buffer k (inode_of s i) t)"
proof -
  have live: "live s i" and reg: "i_type (inode_of s i) = MFS_REGULAR_FILE"
    using assms(2) by (simp_all add: is_file_def)
  obtain t where t: "find_inode (int i) (junk_node u) s = (0, inode_of s i, t)" "same_image s t"
    using find_inode_live[OF assms(1) live] assms(3) by (auto simp: junk_fits_def)
  have "dp_used (inode_of s i) ! k = 0 \<or> dp_used (inode_of s i) ! k = 1"
    using inv_live(2)[OF assms(1) live] assms(4) by (auto simp: node_ok_def)
  from write_node_eq[OF this, of "next_block t"] assms(4)
  have "write_node (inode_of s i) (int k) (next_block t) = written (inode_of s i) k (next_block t)" by simp
  then have "write_server u (int i) buffer (int k) s = (0, write_steps i buffer k (inode_of s i) t)"
    using t(1) reg assms(4,5) by (simp add: write_server_def write_steps_def Let_def)
  with t(2) show thesis by (rule that)
qed

definition write_pre :: "lfs \<Rightarrow> nat \<Rightarrow> nat \<Rightarrow> byte list \<Rightarrow> bool" where
  "write_pre s i k buffer \<longleftrightarrow> lfs_inv s \<and> is_file s i \<and> k < 14 \<and> length buffer = BLOCKSIZE \<and> next_block s < 2 ^ 19"

lemma write_preD:
  assumes "write_pre s i k buffer"
  shows "lfs_inv s" "is_file s i" "k < 14" "length buffer = BLOCKSIZE" "next_block s < 2 ^ 19" "live s i"
    "node_ok s i (inode_of s i)" "block_in s (imap s ! i) sizeof_inode"
    "CRSIZE \<le> next_block s" "0 \<le> next_block s" "4 * MAXINODES + 4 \<le> length (bytes s)"
    "inode_fits (written (inode_of s i) k (next_block s))"
proof -
  show inv: "lfs_inv s" and "is_file s i" and k: "k < 14" and "length buffer = BLOCKSIZE"
    and room: "next_block s < 2 ^ 19" and live: "live s i"
    using assms by (simp_all add: write_pre_def is_file_live)
  show node: "node_ok s i (inode_of s i)" "block_in s (imap s ! i) sizeof_inode"
    using inv_live[OF inv live] by simp_all
  show nb: "CRSIZE \<le> next_block s" "0 \<le> next_block s" and "4 * MAXINODES + 4 \<le> length (bytes s)"
    using inv by (simp_all add: lfs_inv_def CRSIZE_def cr_ok_def)
  show "inode_fits (written (inode_of s i) k (next_block s))"
    using room k nb node by (intro written_fits) (auto simp: node_ok_def int32_def)
qed

lemma write_mid_frame:
  assumes w: "write_pre s i k buffer"
  defines "m \<equiv> (seek_write (imap s ! i) (enc_inode (written (inode_of s i) k (next_block s)))
                  (seek_write (next_block s) buffer s))\<lparr>next_block := next_block s + 1\<rparr>"
  shows "log_frame {next_block s, imap s ! i} s m" "low_frame s m"
    "length (bytes m) = max (length (bytes s)) (nat (next_block s) * BLOCKSIZE + BLOCKSIZE)"
proof -
  note pre = write_preD[OF w]
  let ?w = "enc_inode (written (inode_of s i) k (next_block s))"
  have b: "CRSIZE \<le> imap s ! i" "0 \<le> imap s ! i" using block_inD[OF pre(8)] by simp_all
  have w: "length ?w = sizeof_inode" using pre(12) by (simp add: length_enc_inode)
  have "log_frame ({next_block s} \<union> {imap s ! i}) s (seek_write (imap s ! i) ?w (seek_write (next_block s) buffer s))"
    using b pre(9,10) w pre(4) by (intro log_frame_trans[OF log_frame_seek_write log_frame_seek_write]) simp_all
  from log_frame_trans[OF this log_frame_updates(2)]
  show "log_frame {next_block s, imap s ! i} s m" by (simp add: m_def insert_commute)
  have "low_frame s (seek_write (imap s ! i) ?w (seek_write (next_block s) buffer s))"
    by (rule low_frame_trans[OF low_frame_seek_write[OF pre(9)] low_frame_seek_write[OF b(1)]])
  then show "low_frame s m" unfolding m_def by (rule low_frame_trans) simp
  have "nat (imap s ! i) * BLOCKSIZE + sizeof_inode \<le> length (bytes s)"
    using pre(8) by (simp add: block_in_def)
  then show "length (bytes m) = max (length (bytes s)) (nat (next_block s) * BLOCKSIZE + BLOCKSIZE)"
    using b pre(9,10) w pre(4) by (simp add: m_def)
qed

lemma write_post:
  assumes w: "write_pre s i k buffer"
  defines "t \<equiv> write_steps i buffer k (inode_of s i) s"
  shows "imap t = imap s" "next_block t = next_block s + 1"
    "length (bytes t) = max (length (bytes s)) (nat (next_block s) * BLOCKSIZE + BLOCKSIZE)"
    "log_frame {next_block s, imap s ! i} s t" "cr_ok t"
    "at_block (next_block s) BLOCKSIZE t = buffer"
    "inode_of t i = written (inode_of s i) k (next_block s)"
proof -
  note pre = write_preD[OF w] and mid = write_mid_frame[OF w]
  let ?n = "written (inode_of s i) k (next_block s)"
  let ?s2 = "seek_write (next_block s) buffer s"
  let ?s3 = "seek_write (imap s ! i) (enc_inode ?n) ?s2"
  let ?m = "?s3\<lparr>next_block := next_block s + 1\<rparr>"
  have t: "t = update_CR (int i) ?m" by (simp add: t_def write_steps_def Let_def)
  have i: "i < MAXINODES" using pre(6) by (rule live_bound)
  have len: "length (imap s) = MAXINODES" and cr: "cr_ok s" using pre(1) by (simp_all add: lfs_inv_def)
  have room_m: "4 * MAXINODES + 4 \<le> length (bytes ?m)" using pre(11) mid(3) by simp
  note b = block_inD[OF pre(8)]
  show imap: "imap t = imap s" and "next_block t = next_block s + 1" by (simp_all add: t)
  show "length (bytes t) = max (length (bytes s)) (nat (next_block s) * BLOCKSIZE + BLOCKSIZE)"
    using mid(3) room_m i by (simp add: t length_update_CR)
  show "log_frame {next_block s, imap s ! i} s t"
    using log_frame_trans[OF mid(1) log_frame_update_CR[OF i room_m]] by (simp add: t)
  show "cr_ok t"
    unfolding t by (rule cr_ok_after[OF cr mid(2) i len]) simp
  have "at_block (next_block s) BLOCKSIZE ?s3 = at_block (next_block s) BLOCKSIZE ?s2"
    using b pre(9,10) pre(12) pre(4) by (intro at_seek_write_other) (auto simp: length_enc_inode)
  then show "at_block (next_block s) BLOCKSIZE t = buffer"
    using at_update_CR[OF i room_m pre(9)] pre(9,10) pre(4) by (simp add: t at_seek_write_same)
  have "at_block (imap s ! i) sizeof_inode t = enc_inode ?n"
    using b pre(12) at_update_CR[OF i room_m b(2)] by (simp add: t at_seek_write_same length_enc_inode)
  moreover have "inode_of t i = dec_inode (at_block (imap s ! i) sizeof_inode t)"
    by (simp add: inode_of_def imap)
  ultimately show "inode_of t i = ?n"
    using pre(12) by (simp add: codec_simps)
qed

lemma write_other_agree:
  assumes w: "write_pre s i k buffer" and j: "live s j" "j \<noteq> i"
  shows "agree s (write_steps i buffer k (inode_of s i) s) j"
proof (rule agree_by_frame[OF write_preD(1)[OF w] j(1) write_post(4)[OF w]])
  note pre = write_preD[OF w]
  show "imap s ! j \<notin> {next_block s, imap s ! i}"
    using inode_block_apart[OF pre(1) j(1) pre(6) j(2)] block_inD(3)[OF inv_live(1)[OF pre(1) j(1)]] by auto
  show "dpointers (inode_of s j) ! l \<notin> {next_block s, imap s ! i}" if "used (inode_of s j) l" for l
    using data_block_apart[OF pre(1) pre(6) j(1) that] block_inD(3)[OF inv_used_block[OF pre(1) j(1) that]] by auto
qed (simp add: write_post(1)[OF w])

lemma write_own_blocks:
  assumes w: "write_pre s i k buffer" and l: "used (inode_of s i) l" "l \<noteq> k"
  shows "data_of (write_steps i buffer k (inode_of s i) s) i l = data_of s i l"
proof -
  note pre = write_preD[OF w] and post = write_post[OF w]
  note b = block_inD[OF inv_used_block[OF pre(1) pre(6) l(1)]]
  have "dpointers (inode_of s i) ! l \<notin> {next_block s, imap s ! i}"
    using b data_block_apart[OF pre(1) pre(6) pre(6) l(1)] by auto
  from log_frameD[OF post(4) _ this, of BLOCKSIZE] b show ?thesis
    using l(2) pre(3) by (simp add: data_of_def post(7))
qed

lemma write_new_block:
  assumes w: "write_pre s i k buffer"
  shows "data_of (write_steps i buffer k (inode_of s i) s) i k = buffer"
  using write_post(6)[OF w] write_preD(3)[OF w]
  by (simp add: data_of_def write_post(7)[OF w])

lemma write_inv_after:
  assumes w: "write_pre s i k buffer"
  shows "lfs_inv (write_steps i buffer k (inode_of s i) s)"
proof (rule lfs_invI[OF write_preD(1)[OF w], where F = "{(i, Some k)}"])
  note pre = write_preD[OF w] and post = write_post[OF w] and others = write_other_agree[OF w]
  let ?t = "write_steps i buffer k (inode_of s i) s"
  let ?n = "written (inode_of s i) k (next_block s)"
  have len: "length (bytes s) \<le> length (bytes ?t)" "next_block s \<le> next_block ?t"
    by (simp_all add: post)
  show "next_block ?t \<le> 2 ^ 19" using pre(5) by (simp add: post)
  show "length (imap ?t) = MAXINODES" using pre(1) by (simp add: post lfs_inv_def)
  show "live s j \<and> agree s ?t j \<or> block_in ?t (imap ?t ! j) sizeof_inode \<and> node_ok ?t j (inode_of ?t j) \<and>
      (is_dir ?t j \<longrightarrow> dir_ok ?t j)" if "live ?t j" for j
  proof (cases "j = i")
    case False
    moreover have "live s j" using that by (simp add: live_def post)
    ultimately show ?thesis using others by blast
  next
    case True
    have "block_in ?t (imap ?t ! i) sizeof_inode"
      using pre(8) len by (auto simp: block_in_def post)
    moreover have "node_ok ?t i ?n"
    proof -
      have "block_in ?t (next_block s) BLOCKSIZE"
        using pre(9,10) by (simp add: block_in_def post)
      then show ?thesis
        using node_ok_mono[OF pre(7) len(2,1)] pre(2,3)
        by (auto simp: node_ok_def size_ok_written is_file_def MFS_DIRECTORY_def MFS_REGULAR_FILE_def)
           (auto simp: written_def nth_list_update)
    qed
    moreover have "\<not> is_dir ?t i"
      using pre(2) by (simp add: is_dir_def is_file_def post MFS_DIRECTORY_def MFS_REGULAR_FILE_def)
    ultimately show ?thesis using True by (simp add: post)
  qed
  show "p \<in> slots s \<and> slot_block ?t p = slot_block s p \<or> p \<in> {(i, Some k)} \<and> next_block s \<le> slot_block ?t p"
    if p: "p \<in> slots ?t" for p
  proof -
    obtain j o' where p_eq: "p = (j, o')" by (cases p)
    have live: "live s j" using p by (auto simp: p_eq slots_def live_def post)
    show ?thesis
    proof (cases "j = i")
      case False
      then show ?thesis using p others[OF live False]
        by (cases o') (auto simp: p_eq slots_of agree_def live)
    next
      case True
      then show ?thesis using p live pre(3)
        by (cases o') (auto simp: p_eq slots_of post)
    qed
  qed
qed (simp_all add: write_post[OF w])

end
