(* ===== verification/Lfs_Dirs.thy ===== *)
theory Lfs_Dirs
  imports Lfs_Frame
begin

text \<open>
  Directory blocks: the block that \<open>build_dir_block\<close> writes, its entries, and what setting one entry of a
  block does to its list of entries.
\<close>

text \<open>Entry \<open>j\<close> holds the number \<open>v\<close> and the terminated name \<open>s\<close>, whatever the other slots hold.\<close>

definition entry_is :: "directory \<Rightarrow> nat \<Rightarrow> int \<Rightarrow> byte list \<Rightarrow> bool" where
  "entry_is d j v s \<longleftrightarrow> d_inums d ! j = v \<and> 0 \<in> set (peek (28 * j) 28 (d_names d)) \<and>
     cstr (peek (28 * j) 28 (d_names d)) = s"

definition put_entry :: "nat \<Rightarrow> int \<Rightarrow> byte list \<Rightarrow> directory \<Rightarrow> directory" where
  "put_entry j v s d = set_dname j s (set_dinum j v d)"

lemma entry_is_dname: "entry_is d j v s \<Longrightarrow> dname d j = s \<and> d_inums d ! j = v"
  by (auto simp: entry_is_def dname_def peek_def cstr_take)

lemma put_entry_fits:
  "directory_fits d \<Longrightarrow> name_ok s \<Longrightarrow> int32 v \<Longrightarrow> j < 128 \<Longrightarrow> directory_fits (put_entry j v s d)"
  by (simp add: put_entry_def set_dname_fits set_dinum_fits)

lemma fits_names: "directory_fits d \<Longrightarrow> length (d_names d) = 3584 \<and> length (d_inums d) = 128"
  by (simp add: directory_fits_def)

lemma put_entry_same:
  assumes "directory_fits d" "name_ok s" "j < 128"
  shows "entry_is (put_entry j v s d) j v s"
  using assms fits_names[OF assms(1)]
  by (simp add: entry_is_def put_entry_def set_dname_def strcpy_at_def slot_poke_same name_ok_def)

lemma put_entry_other:
  assumes "directory_fits d" "name_ok s" "j < 128" "i < 128" "i \<noteq> j"
  shows "entry_is (put_entry j v s d) i w r = entry_is d i w r"
  using assms fits_names[OF assms(1)]
  by (simp add: entry_is_def put_entry_def set_dname_def strcpy_at_def slot_poke_other)

lemma empty_entry_put: "empty_entry j d = put_entry j (-1) str_DNE d"
  by (simp add: empty_entry_def put_entry_def)

lemma empty_entries:
  assumes "directory_fits d" "distinct js" "set js \<subseteq> {0..<128}"
  shows "directory_fits (fold empty_entry js d) \<and>
    (\<forall>j < 128. if j \<in> set js then entry_is (fold empty_entry js d) j (-1) str_DNE
               else \<forall>v s. entry_is d j v s \<longrightarrow> entry_is (fold empty_entry js d) j v s)"
  using assms
proof (induction js arbitrary: d)
  case Nil
  then show ?case by simp
next
  case (Cons x js)
  have x: "x < 128" "int32 (-1)" using Cons.prems by (auto simp: int32_def)
  let ?d = "empty_entry x d"
  have fits: "directory_fits ?d"
    using Cons.prems x by (simp add: empty_entry_put put_entry_fits)
  note IH = Cons.IH[OF fits]
  have "entry_is ?d x (-1) str_DNE"
    using Cons.prems x by (simp add: empty_entry_put put_entry_same)
  moreover have "entry_is ?d j v s" if "j < 128" "j \<noteq> x" "entry_is d j v s" for j v s
    using that Cons.prems x by (simp add: empty_entry_put put_entry_other)
  ultimately show ?case
    using IH Cons.prems x by auto
qed

section \<open>Entry lists of blocks\<close>

lemma block_entries_enc:
  assumes "directory_fits d"
  shows "block_entries (enc_directory d) = map (\<lambda>j. (dname d j, d_inums d ! j)) [0..<128]"
  using assms by (simp add: block_entries_def codec_simps)

lemma length_block_entries [simp]: "length (block_entries bs) = 128"
  by (simp add: block_entries_def)

lemma dir_block_okI:
  assumes fits: "directory_fits d" and es: "\<And>j. j < 128 \<Longrightarrow> \<exists>v s. entry_is d j v s \<and> -1 \<le> v \<and> v < int MAXINODES \<and> (v = -1 \<longrightarrow> s = str_DNE)"
  shows "dir_block_ok (enc_directory d)"
proof -
  have "names_terminated d"
    unfolding names_terminated_def list_all_iff using es by (fastforce simp: entry_is_def)
  then show ?thesis
    using fits es entry_is_dname[of d] unfolding dir_block_ok_def
    by (simp add: codec_simps length_enc_directory) metis
qed

lemma dir_block_ok_entry:
  assumes "dir_block_ok bs" "j < 128"
  shows "entry_is (dec_directory bs) j (d_inums (dec_directory bs) ! j) (dname (dec_directory bs) j)"
  using assms by (auto simp: entry_is_def dir_block_ok_def dname_slot dest: names_terminatedD)

lemma put_entry_block:
  assumes "dir_block_ok bs" "name_ok s" "j < 128" "-1 \<le> v" "v < int MAXINODES" "v = -1 \<longrightarrow> s = str_DNE"
  shows "dir_block_ok (enc_directory (put_entry j v s (dec_directory bs)))"
    and "block_entries (enc_directory (put_entry j v s (dec_directory bs))) = (block_entries bs)[j := (s, v)]"
    and "directory_fits (put_entry j v s (dec_directory bs))"
proof -
  let ?d = "dec_directory bs"
  have fits: "directory_fits ?d" using assms(1) by (simp add: dir_block_ok_def directory_fits_dec)
  have v: "int32 v" using assms(4,5) by (simp add: int32_def MAXINODES_def)
  show fits': "directory_fits (put_entry j v s ?d)"
    using fits assms(2,3) v by (simp add: put_entry_fits)
  have es: "entry_is (put_entry j v s ?d) i (if i = j then v else d_inums ?d ! i) (if i = j then s else dname ?d i)"
    if "i < 128" for i
    using that fits assms(2,3) put_entry_same[OF fits assms(2,3)] dir_block_ok_entry[OF assms(1) that]
    by (simp add: put_entry_other)
  show "dir_block_ok (enc_directory (put_entry j v s ?d))"
  proof (rule dir_block_okI[OF fits'])
    fix i :: nat assume i: "i < 128"
    have "-1 \<le> d_inums ?d ! i \<and> d_inums ?d ! i < int MAXINODES \<and> (d_inums ?d ! i = -1 \<longrightarrow> dname ?d i = str_DNE)"
      using assms(1) i by (simp add: dir_block_ok_def)
    then show "\<exists>v' s'. entry_is (put_entry j v s ?d) i v' s' \<and> -1 \<le> v' \<and> v' < int MAXINODES \<and> (v' = -1 \<longrightarrow> s' = str_DNE)"
      using es[OF i] assms(4-6) by (cases "i = j") auto
  qed
  show "block_entries (enc_directory (put_entry j v s ?d)) = (block_entries bs)[j := (s, v)]"
  proof (rule nth_equalityI)
    fix i assume "i < length (block_entries (enc_directory (put_entry j v s ?d)))"
    then have "i < 128" by simp
    then show "block_entries (enc_directory (put_entry j v s ?d)) ! i = (block_entries bs)[j := (s, v)] ! i"
      using entry_is_dname[OF es] assms(3)
      by (simp add: block_entries_enc[OF fits'] nth_list_update) (simp add: block_entries_def)
  qed simp
qed

section \<open>Fresh directory blocks\<close>

definition fresh_dir :: "junk \<Rightarrow> int \<Rightarrow> int \<Rightarrow> int \<Rightarrow> directory" where
  "fresh_dir u first_block inum pinum =
     (let d0 = fold empty_entry [0..<128] (junk_new u)
      in if first_block \<noteq> 0 then dot_entries inum pinum d0 else d0)"

lemma dot_entries_put: "dot_entries inum pinum d = put_entry 1 pinum str_dotdot (put_entry 0 inum str_dot d)"
  by (simp add: dot_entries_def put_entry_def)

lemma replicate_nthI: "length xs = n \<Longrightarrow> (\<And>j. j < n \<Longrightarrow> xs ! j = x) \<Longrightarrow> xs = replicate n x"
  by (auto intro: nth_equalityI)

lemma fresh_dir_empty:
  assumes "junk_fits u"
  shows "directory_fits (fresh_dir u 0 inum pinum)" "dir_block_ok (enc_directory (fresh_dir u 0 inum pinum))"
    "block_entries (enc_directory (fresh_dir u 0 inum pinum)) = replicate 128 (str_DNE, -1)"
proof -
  let ?d = "fold empty_entry [0..<128] (junk_new u)"
  have eq: "fresh_dir u 0 inum pinum = ?d" by (simp add: fresh_dir_def)
  have fits: "directory_fits ?d" and es: "\<And>j. j < 128 \<Longrightarrow> entry_is ?d j (-1) str_DNE"
    using empty_entries[of "junk_new u" "[0..<128]"] assms by (auto simp: junk_fits_def)
  show "directory_fits (fresh_dir u 0 inum pinum)" using fits by (simp add: eq)
  show "dir_block_ok (enc_directory (fresh_dir u 0 inum pinum))"
    unfolding eq by (rule dir_block_okI[OF fits]) (use es in \<open>fastforce simp: MAXINODES_def\<close>)
  show "block_entries (enc_directory (fresh_dir u 0 inum pinum)) = replicate 128 (str_DNE, -1)"
    unfolding eq block_entries_enc[OF fits]
    by (rule replicate_nthI) (use entry_is_dname[OF es] in auto)
qed

lemma fresh_dir_first:
  assumes "junk_fits u" "0 \<le> inum" "inum < int MAXINODES" "0 \<le> pinum" "pinum < int MAXINODES"
  shows "directory_fits (fresh_dir u 1 inum pinum)" "dir_block_ok (enc_directory (fresh_dir u 1 inum pinum))"
    "block_entries (enc_directory (fresh_dir u 1 inum pinum)) =
       (str_dot, inum) # (str_dotdot, pinum) # replicate 126 (str_DNE, -1)"
proof -
  let ?e = "fresh_dir u 0 inum pinum" and ?f = "put_entry 0 inum str_dot (fresh_dir u 0 inum pinum)"
  note e = fresh_dir_empty[OF assms(1), of inum pinum]
  have dec: "dec_directory (enc_directory ?e) = ?e" using e(1) by (simp add: codec_simps)
  note f = put_entry_block[OF e(2), of str_dot 0 inum, unfolded dec]
  have f': "dir_block_ok (enc_directory ?f)" "directory_fits ?f"
    "block_entries (enc_directory ?f) = (replicate 128 (str_DNE, -1))[0 := (str_dot, inum)]"
    using f assms(2,3) e(3) by auto
  have dec': "dec_directory (enc_directory ?f) = ?f" using f'(2) by (simp add: codec_simps)
  note g = put_entry_block[OF f'(1), of str_dotdot 1 pinum, unfolded dec']
  have eq: "fresh_dir u 1 inum pinum = put_entry 1 pinum str_dotdot ?f"
    by (simp add: fresh_dir_def dot_entries_put)
  show "directory_fits (fresh_dir u 1 inum pinum)" "dir_block_ok (enc_directory (fresh_dir u 1 inum pinum))"
    unfolding eq using g assms(4,5) by auto
  have rep: "replicate 128 (str_DNE, -1 :: int) = (str_DNE, -1) # (str_DNE, -1) # replicate 126 (str_DNE, -1)"
    by (simp only: replicate_Suc[symmetric]) simp
  show "block_entries (enc_directory (fresh_dir u 1 inum pinum)) =
       (str_dot, inum) # (str_dotdot, pinum) # replicate 126 (str_DNE, -1)"
    unfolding eq using g(2) assms(4,5) by (simp add: f'(3) rep del: replicate.simps)
qed

lemma build_dir_block_eq:
  assumes "directory_fits (fresh_dir u first_block inum pinum)"
  shows "build_dir_block u first_block inum pinum s =
    (next_block s, (seek_write (next_block s) (enc_directory (fresh_dir u first_block inum pinum)) s)
                     \<lparr>next_block := next_block s + 1\<rparr>)"
  using length_enc_directory[OF assms]
  by (simp add: build_dir_block_def fresh_dir_def Let_def)

end
