(* ===== verification/Lfs_Start.thy ===== *)
theory Lfs_Start
  imports Lfs_Dirs
begin

text \<open>
  \<open>start_server\<close>: a fresh image satisfies the invariant and holds the root directory; an existing image
  gives back the inode map and the end of the log that the running server had.
\<close>

section \<open>A fresh image\<close>

lemma base_block_put: "base_block u = fold empty_entry [2..<128] (put_entry 1 0 str_dotdot (put_entry 0 0 str_dot (junk_new u)))"
  by (simp add: base_block_def put_entry_def set_dname_def set_dinum_def)

lemma base_block_facts:
  assumes "junk_fits u"
  shows "directory_fits (base_block u)" "dir_block_ok (enc_directory (base_block u))"
    "block_entries (enc_directory (base_block u)) = (str_dot, 0) # (str_dotdot, 0) # replicate 126 (str_DNE, -1)"
proof -
  let ?j = "put_entry 0 0 str_dot (junk_new u)"
  let ?k = "put_entry 1 0 str_dotdot ?j"
  have j: "directory_fits (junk_new u)" "int32 0" using assms by (simp_all add: junk_fits_def int32_def)
  have fj: "directory_fits ?j" and fk: "directory_fits ?k" using j by (simp_all add: put_entry_fits)
  have k: "entry_is ?k 0 0 str_dot" "entry_is ?k 1 0 str_dotdot"
    using put_entry_same[OF j(1)] put_entry_same[OF fj] by (simp_all add: put_entry_other[OF fj])
  have js: "distinct [2..<128]" "set [2..<128] \<subseteq> {0..<128::nat}" by simp_all
  note fold = empty_entries[OF fk js, folded base_block_put]
  show fits: "directory_fits (base_block u)" using fold by blast
  have es: "entry_is (base_block u) j (if j < 2 then 0 else -1)
      (if j = 0 then str_dot else if j = 1 then str_dotdot else str_DNE)" if "j < 128" for j
  proof -
    consider "j = 0" | "j = 1" | "2 \<le> j" by linarith
    then show ?thesis
    proof cases
      case 1
      then show ?thesis using conjunct2[OF fold, rule_format, of 0] k by (simp del: set_upt)
    next
      case 2
      then show ?thesis using conjunct2[OF fold, rule_format, of 1] k by simp
    next
      case 3
      then have "j \<in> set [2..<128]" using that by (simp only: set_upt atLeastLessThan_iff)
      then show ?thesis using conjunct2[OF fold, rule_format, of j] that 3 by (simp only: if_True) simp
    qed
  qed
  show "dir_block_ok (enc_directory (base_block u))"
  proof (rule dir_block_okI[OF fits])
    fix j :: nat assume "j < 128"
    from es[OF this] show "\<exists>v s. entry_is (base_block u) j v s \<and> -1 \<le> v \<and> v < int MAXINODES \<and> (v = -1 \<longrightarrow> s = str_DNE)"
      by (intro exI conjI) (auto simp: MAXINODES_def split: if_splits)
  qed
  have "block_entries (enc_directory (base_block u)) ! j =
      ((str_dot, 0) # (str_dotdot, 0) # replicate 126 (str_DNE, -1)) ! j" if "j < 128" for j
    using entry_is_dname[OF es[OF that]] that
    by (auto simp: block_entries_enc[OF fits] nth_Cons' split: if_splits)
  then show "block_entries (enc_directory (base_block u)) = (str_dot, 0) # (str_dotdot, 0) # replicate 126 (str_DNE, -1)"
    by (intro nth_equalityI) simp_all
qed

lemma root_node_facts: "inode_fits (root_node 6)" "used (root_node 6) k \<longleftrightarrow> k = 0" "dpointers (root_node 6) ! 0 = 6"
  by (auto simp: root_node_def inode_fits_def int32_def BLOCKSIZE_def MFS_DIRECTORY_def used_def nth_Cons'
      list_all_iff simp del: fits_lengths)

definition blank :: lfs where
  "blank = \<lparr>imap = replicate MAXINODES (-1), next_block = CRSIZE,
     fd = \<lparr>content = encs (replicate MAXINODES (-1)) @ enc32 CRSIZE, offset = 4 * MAXINODES + 4\<rparr>\<rparr>"

lemma blank_cr: "cr_ok blank"
proof -
  have "peek (4 * i) 4 (bytes blank) = enc32 (-1)" if "i < MAXINODES" for i
    using that peek_encs[of i "replicate MAXINODES (-1)"] by (simp add: blank_def bytes_def)
  then show ?thesis
    by (simp add: cr_ok_def blank_def bytes_def peek_later) (simp add: peek_def)
qed

definition fresh_image :: "junk \<Rightarrow> lfs" where
  "fresh_image u = update_CR 0 ((writes [(6, enc_directory (base_block u)), (7, enc_inode (root_node 6))] blank)
     \<lparr>imap := (replicate MAXINODES (-1))[0 := 7], next_block := 8\<rparr>)"

lemma start_server_fresh: "start_server u True None = Some (fresh_image u)"
proof -
  have "fd_write (enc32 CRSIZE) (fd_write (encs (replicate MAXINODES (-1))) \<lparr>content = [], offset = 0\<rparr>) = fd blank"
    by (simp add: fd_write_def poke_def blank_def)
  then show ?thesis
    by (simp add: start_server_def fresh_image_def Let_def CRSIZE_def) (simp add: blank_def CRSIZE_def)
qed

lemma fresh_image_views:
  assumes "junk_fits u"
  shows "imap (fresh_image u) = (replicate MAXINODES (-1))[0 := 7]" "next_block (fresh_image u) = 8"
    "cr_ok (fresh_image u)" "inode_of (fresh_image u) 0 = root_node 6"
    "data_of (fresh_image u) 0 0 = enc_directory (base_block u)"
    "block_in (fresh_image u) 7 sizeof_inode" "block_in (fresh_image u) 6 BLOCKSIZE"
proof -
  let ?ws = "[(6, enc_directory (base_block u)), (7, enc_inode (root_node 6))]"
  let ?m = "(writes ?ws blank)\<lparr>imap := (replicate MAXINODES (-1))[0 := 7], next_block := 8\<rparr>"
  have lens: "length (enc_directory (base_block u)) = BLOCKSIZE" "length (enc_inode (root_node 6)) = sizeof_inode"
    using base_block_facts(1)[OF assms] root_node_facts(1) by (simp_all add: length_enc_directory length_enc_inode)
  have ws: "log_writes ?ws" using lens by (simp add: CRSIZE_def)
  have low: "low_frame blank ?m"
    using low_frame_trans[OF low_frame_trans[OF writes_low_frame[OF ws, of blank] low_frame_updates(1)] low_frame_updates(2)]
    by blast
  have room: "4 * MAXINODES + 4 \<le> length (bytes ?m)"
    using low blank_cr by (simp add: low_frame_def cr_ok_def)
  have f: "fresh_image u = update_CR (int 0) ?m" by (simp add: fresh_image_def)
  show imap: "imap (fresh_image u) = (replicate MAXINODES (-1))[0 := 7]" and nb: "next_block (fresh_image u) = 8"
    by (simp_all add: f)
  show "cr_ok (fresh_image u)"
    unfolding f by (rule cr_ok_after[OF blank_cr low]) (simp_all add: blank_def nth_list_update)
  have at: "at_block b n (fresh_image u) = at_block b n (writes ?ws blank)" if "CRSIZE \<le> b" for b n
    unfolding f using at_update_CR[OF const_nums(4) room that] by simp
  have at6: "at_block 6 BLOCKSIZE (fresh_image u) = enc_directory (base_block u)"
    and at7: "at_block 7 sizeof_inode (fresh_image u) = enc_inode (root_node 6)"
    using at[of 6 BLOCKSIZE] at[of 7 sizeof_inode] at_writes(2)[OF ws, where s = blank] lens
    by (auto simp: CRSIZE_def)
  show node: "inode_of (fresh_image u) 0 = root_node 6"
    using at7 root_node_facts(1) by (simp add: inode_of_def imap codec_simps)
  show "data_of (fresh_image u) 0 0 = enc_directory (base_block u)"
    using at6 by (simp add: data_of_def node root_node_facts(3))
  have len: "length (bytes (fresh_image u)) = length (bytes (writes ?ws blank))"
    unfolding f using length_update_CR[OF const_nums(4) room] by simp
  show "block_in (fresh_image u) 7 sizeof_inode" "block_in (fresh_image u) 6 BLOCKSIZE"
    using at_writes(1)[OF ws, where s = blank] lens by (auto simp: block_in_def len nb CRSIZE_def)
qed

lemma fresh_live: "junk_fits u \<Longrightarrow> live (fresh_image u) i \<longleftrightarrow> i = 0"
  by (auto simp: live_def fresh_image_views nth_list_update)

lemma unique_names_dots:
  "unique_names ((str_dot, v) # (str_dotdot, w) # replicate n (str_DNE, -1))"
  by (simp add: unique_names_def filter_replicate)

lemma fresh_entries:
  assumes "junk_fits u"
  shows "dir_entries (fresh_image u) 0 = (str_dot, 0) # (str_dotdot, 0) # replicate 126 (str_DNE, -1)"
proof -
  have "[0..<14] = 0 # [1..<14]" by (simp add: upt_conv_Cons)
  then have "dir_entries (fresh_image u) 0 = block_entries (data_of (fresh_image u) 0 0)"
    by (simp add: dir_entries_def fresh_image_views[OF assms] root_node_facts(2))
  then show ?thesis by (simp add: fresh_image_views[OF assms] base_block_facts[OF assms])
qed

lemma fresh_image_inv:
  assumes "junk_fits u"
  shows "lfs_inv (fresh_image u)"
proof -
  let ?s = "fresh_image u"
  note v = fresh_image_views[OF assms] and live = fresh_live[OF assms]
  have size: "size_ok (root_node 6)"
    by (auto simp: size_ok_def root_node_facts(2)) (simp_all add: root_node_def)
  have others: "dp_used (root_node 6) ! k = 0 \<and> dpointers (root_node 6) ! k = -1" if "0 < k" "k < 14" for k
    using that by (auto simp: root_node_def nth_Cons')
  have "dp_used (root_node 6) ! k = 1 \<and> block_in ?s (dpointers (root_node 6) ! k) BLOCKSIZE \<or>
      dp_used (root_node 6) ! k = 0 \<and> dpointers (root_node 6) ! k = -1" if "k < 14" for k
    using v(7) others[OF _ that] by (cases "k = 0") (auto simp: root_node_def)
  then have "node_ok ?s 0 (root_node 6)"
    unfolding node_ok_def using size by (simp add: root_node_facts(2)) (simp add: root_node_def)
  moreover have "inj_on (slot_block ?s) (slots ?s)"
    by (auto simp: inj_on_def slots_def live v root_node_facts)
  moreover have "dir_ok ?s 0"
    using unique_names_dots[of 0 0 126]
    by (auto simp: dir_ok_def v root_node_facts(2) base_block_facts[OF assms] fresh_entries[OF assms])
  ultimately show ?thesis
    by (auto simp: lfs_inv_def v live CRSIZE_def is_dir_def)
qed

section \<open>Restarting on an existing image\<close>

lemma restart:
  assumes "lfs_inv s"
  obtains t where "start_server u c (Some (bytes s)) = Some t" "same_image s t"
proof -
  have cr: "4 * MAXINODES + 4 \<le> length (bytes s)" "\<And>i. i < MAXINODES \<Longrightarrow> peek (4 * i) 4 (bytes s) = enc32 (imap s ! i)"
    "peek (4 * MAXINODES) 4 (bytes s) = enc32 (next_block s)" and len: "length (imap s) = MAXINODES"
    using assms by (simp_all add: lfs_inv_def cr_ok_def)
  have nb: "int32 (next_block s)" using assms by (simp add: lfs_inv_def CRSIZE_def int32_def)
  have ent: "int32 (imap s ! i)" if "i < MAXINODES" for i
  proof (cases "live s i")
    case True
    then show ?thesis using block_inD(1,3)[OF inv_live(1)[OF assms True]] assms
      by (simp add: int32_def lfs_inv_def)
  qed (use that in \<open>simp add: live_def int32_def\<close>)
  let ?m = "peek 0 (4 * MAXINODES) (bytes s)" and ?n = "peek (4 * MAXINODES) 4 (bytes s)"
  have lens: "length ?m = 4 * MAXINODES" "length ?n = 4" using cr(1) by simp_all
  have "peek (4 * i) 4 ?m = enc32 (imap s ! i)" if "i < MAXINODES" for i
  proof -
    have "4 \<le> 4 * MAXINODES - 4 * i" using that by linarith
    with cr(2)[OF that] show ?thesis by (simp add: peek_peek min_def)
  qed
  then have "decs MAXINODES ?m = imap s"
    using len ent by (intro nth_equalityI) (simp_all add: nth_decs codec_simps)
  then have "start_server u c (Some (bytes s)) =
      Some \<lparr>imap = imap s, next_block = next_block s, fd = \<lparr>content = bytes s, offset = 4 * MAXINODES + 4\<rparr>\<rparr>"
    using lens cr(1,3) nb by (simp add: start_server_def fd_read_def Let_def codec_simps)
  then show thesis by (rule that) (simp add: same_image_def bytes_def)
qed

end
