(* ===== verification/Lfs_Creat.thy ===== *)
theory Lfs_Creat
  imports Lfs_Write Lfs_Start
begin

text \<open>
  \<open>creat_server\<close>. The scan over the parent's blocks ends in one of three ways: at the first free entry of
  a block the directory has, at entry 0 of a block it adds to the directory, or with all 14 blocks full.
  In the first two cases \<open>creat_entry\<close> writes the parent, the block with the new entry, for a directory the
  block with its dot entries, and the new inode, in this order, and then the checkpoint region.
\<close>

section \<open>The scan\<close>

lemma dir_prefix:
  assumes "node_ok s i n" "i_type n = MFS_DIRECTORY" "used n k" "l \<le> k"
  shows "used n l"
  using assms(4,3)
proof (induction rule: inc_induct)
  case (step m)
  then show ?case using assms(1,2) by (auto simp: node_ok_def)
qed simp

lemma dir_size:
  assumes "node_ok s i n" "i_type n = MFS_DIRECTORY" "\<not> used n m" "\<And>k. k < m \<Longrightarrow> used n k"
  shows "i_size n = int m * int BLOCKSIZE"
proof -
  have zero: "used n 0" and size: "size_ok n" using assms(1,2) by (auto simp: node_ok_def)
  then have m: "0 < m" using assms(3) by (metis not_gr_zero)
  have "int m * int BLOCKSIZE \<le> i_size n"
    using size assms(4)[of "m - 1"] m by (auto simp: size_ok_def)
  moreover have "k < m" if "used n k" for k
    using dir_prefix[OF assms(1,2) that, of m] assms(3) by (meson linorder_not_less)
  then have "i_size n \<le> int m * int BLOCKSIZE"
    using size zero unfolding size_ok_def by (auto simp: BLOCKSIZE_def) fastforce
  ultimately show ?thesis by simp
qed

lemma grow_node:
  assumes "node_ok s i n" "i_type n = MFS_DIRECTORY" "\<not> used n m" "\<And>k. k < m \<Longrightarrow> used n k"
  shows "n\<lparr>i_size := i_size n + int BLOCKSIZE, dp_used := (dp_used n)[m := 1], dpointers := (dpointers n)[m := b]\<rparr>
    = written n m b"
  using dir_size[OF assms] by (simp add: written_def max_def algebra_simps)

lemma find_first_free: "find (\<lambda>e. replicate 128 (- 1 :: int) ! e = - 1) [0..<128] = Some 0"
  by (simp add: upt_conv_Cons)

lemma fresh_dir_free: "junk_fits u \<Longrightarrow> e < 128 \<Longrightarrow> d_inums (fresh_dir u 0 inum pinum) ! e = -1"
  using fresh_dir_empty(3)[of u inum pinum] fresh_dir_empty(1)[of u inum pinum]
  by (simp add: block_entries_enc list_eq_iff_nth_eq)

definition grown :: "junk \<Rightarrow> int \<Rightarrow> lfs \<Rightarrow> lfs" where
  "grown u inum s = (seek_write (next_block s) (enc_directory (fresh_dir u 0 inum (-1))) s)\<lparr>next_block := next_block s + 1\<rparr>"

lemma creat_scan_grow:
  assumes "lfs_inv s" "is_dir s p" "junk_fits u" "directory_fits block" "m < 14"
    "\<not> used (inode_of s p) m" "\<And>k. k < m \<Longrightarrow> used (inode_of s p) k"
  obtains t where "same_image (grown u inum s) t"
    "creat_scan u pinum type name inum m (inode_of s p) block s =
     creat_entry u pinum type name inum m 0 (written (inode_of s p) m (next_block s)) (fresh_dir u 0 inum (-1)) t"
proof -
  let ?n = "inode_of s p" and ?d = "fresh_dir u 0 inum (-1)" and ?g = "grown u inum s"
  let ?w = "written ?n m (next_block s)"
  have node: "node_ok s p ?n" and kind: "i_type ?n = MFS_DIRECTORY"
    using assms(1,2) by (auto simp: is_dir_def lfs_inv_def)
  have nb: "0 \<le> next_block s" using assms(1) by (simp add: lfs_inv_def CRSIZE_def)
  note d = fresh_dir_empty(1)[OF assms(3), of inum "-1"]
  have len: "length (enc_directory ?d) = BLOCKSIZE" using d by (rule length_enc_directory)
  have unused: "dp_used ?n ! m = 0" using node assms(5,6) by (auto simp: node_ok_def used_def)
  have step1: "creat_scan u pinum type name inum m ?n block s = creat_scan u pinum type name inum m ?w block ?g"
    using grow_node[OF node kind assms(6,7), of "next_block s"] unused assms(5) build_dir_block_eq[OF d, of s]
    by (subst creat_scan.simps) (simp add: grown_def)
  have "fst (seek_read (next_block s) BLOCKSIZE ?g) = at_block (next_block s) BLOCKSIZE ?g"
    using nb len by (intro seek_read_inside) (simp_all add: grown_def)
  then have got: "fst (seek_read (next_block s) BLOCKSIZE ?g) = enc_directory ?d"
    using nb len by (simp add: grown_def at_seek_write_same)
  have "find (\<lambda>e. d_inums ?d ! e = -1) [0..<128] = Some 0"
    using fresh_dir_free[OF assms(3), of 0 inum "-1"] by (simp add: upt_conv_Cons)
  moreover have "used ?w m" "dpointers ?w ! m = next_block s" using assms(5) by simp_all
  moreover have "overlay (enc_directory ?d) (enc_directory block) = enc_directory ?d"
    using len assms(4) by (simp add: length_enc_directory)
  ultimately have "creat_scan u pinum type name inum m ?w block ?g =
      creat_entry u pinum type name inum m 0 ?w ?d (snd (seek_read (next_block s) BLOCKSIZE ?g))"
    using got assms(5) d
    by (subst creat_scan.simps) (auto simp: used_def split_beta codec_simps written_def)
  with step1 show thesis by (intro that) simp_all
qed

text \<open>No block from \<open>b\<close> on has a free entry.\<close>

definition no_free :: "lfs \<Rightarrow> nat \<Rightarrow> nat \<Rightarrow> bool" where
  "no_free s p b \<longleftrightarrow> (\<forall>k \<ge> b. used (inode_of s p) k \<longrightarrow> (\<forall>e < 128. d_inums (dec_directory (data_of s p k)) ! e \<noteq> -1))"

lemma no_free_same_image: "same_image s t \<Longrightarrow> no_free t p b = no_free s p b"
  by (simp add: no_free_def same_image_views)

lemma no_free_Suc:
  "no_free s p (Suc b) \<Longrightarrow> \<forall>e < 128. d_inums (dec_directory (data_of s p b)) ! e \<noteq> -1 \<Longrightarrow> no_free s p b"
  unfolding no_free_def by (metis le_antisym not_less_eq_eq)

text \<open>The first block from \<open>b\<close> on that has a free entry, or the end of the directory's blocks.\<close>

lemma creat_scan_cases:
  assumes "lfs_inv s" "is_dir s p" "junk_fits u" "directory_fits block" "b \<le> 14" "\<And>k. k < b \<Longrightarrow> used (inode_of s p) k"
  shows "(\<exists>k e t. used (inode_of s p) k \<and> e < 128 \<and> d_inums (dec_directory (data_of s p k)) ! e = -1 \<and> same_image s t \<and>
      creat_scan u pinum type name inum b (inode_of s p) block s =
      creat_entry u pinum type name inum k e (inode_of s p) (dec_directory (data_of s p k)) t) \<or>
    (\<exists>m s' t. m < 14 \<and> \<not> used (inode_of s p) m \<and> (\<forall>k < m. used (inode_of s p) k) \<and> no_free s p b \<and> same_image s s' \<and>
      same_image (grown u inum s') t \<and>
      creat_scan u pinum type name inum b (inode_of s p) block s =
      creat_entry u pinum type name inum m 0 (written (inode_of s p) m (next_block s)) (fresh_dir u 0 inum (-1)) t) \<or>
    (\<exists>t. same_image s t \<and> (\<forall>k < 14. used (inode_of s p) k) \<and> no_free s p b \<and>
      creat_scan u pinum type name inum b (inode_of s p) block s = (-1, t))"
  using assms
proof (induction "14 - b" arbitrary: b block s)
  case 0
  then have b: "b = 14" by simp
  with 0 have "creat_scan u pinum type name inum b (inode_of s p) block s = (-1, s)"
    by (subst creat_scan.simps) simp
  moreover have "no_free s p b" by (auto simp: no_free_def used_def b)
  ultimately show ?case using 0 b by (intro disjI2) auto
next
  case (Suc x)
  then have b: "b < 14" by simp
  have live: "live s p" using Suc.prems(2) by (rule is_dir_live)
  have node: "node_ok s p (inode_of s p)" using inv_live(2)[OF Suc.prems(1) live] .
  show ?case
  proof (cases "used (inode_of s p) b")
    case False
    obtain t where "same_image (grown u inum s) t" "creat_scan u pinum type name inum b (inode_of s p) block s =
       creat_entry u pinum type name inum b 0 (written (inode_of s p) b (next_block s)) (fresh_dir u 0 inum (-1)) t"
      using creat_scan_grow[OF Suc.prems(1-4) b False Suc.prems(6)] .
    moreover have "no_free s p b"
      using False dir_prefix[OF node] Suc.prems(2) by (auto simp: no_free_def is_dir_def)
    ultimately show ?thesis using False b Suc.prems(6) by (intro disjI2 disjI1) (metis same_image_refl)
  next
    case True
    let ?blk = "dec_directory (data_of s p b)"
    obtain t where t: "seek_read (dpointers (inode_of s p) ! b) BLOCKSIZE s = (data_of s p b, t)" "same_image s t"
      and ov: "overlay (data_of s p b) (enc_directory block) = data_of s p b"
      using read_dir_block[OF Suc.prems(1) live True Suc.prems(4)] .
    have scan: "creat_scan u pinum type name inum b (inode_of s p) block s =
        (case find (\<lambda>e. d_inums ?blk ! e = -1) [0..<128] of
           Some e \<Rightarrow> creat_entry u pinum type name inum b e (inode_of s p) ?blk t
         | None \<Rightarrow> creat_scan u pinum type name inum (Suc b) (inode_of s p) ?blk t)"
      using True b t(1) ov by (subst creat_scan.simps) (simp add: used_def Let_def split: option.split)
    show ?thesis
    proof (cases "find (\<lambda>e. d_inums ?blk ! e = -1) [0..<128]")
      case (Some e)
      then have "e < 128" "d_inums ?blk ! e = -1" by (auto simp: find_Some_iff)
      with True t(2) scan Some show ?thesis by (intro disjI1) auto
    next
      case None
      then have here: "\<forall>e < 128. d_inums ?blk ! e \<noteq> -1" by (auto simp: find_None_iff)
      have fits: "directory_fits ?blk"
        by (rule directory_fits_dec) (rule length_data_of[OF Suc.prems(1) live True])
      have used: "used (inode_of t p) k" if "k < Suc b" for k
        using that True Suc.prems(6) t(2) by (auto simp: same_image_views less_Suc_eq)
      have "x = 14 - Suc b" "Suc b \<le> 14" using Suc.hyps(2) b by simp_all
      from Suc.hyps(1)[OF this(1) _ _ Suc.prems(3) fits this(2) used] Suc.prems(1,2) t(2)
      show ?thesis
        unfolding scan None using no_free_Suc[OF _ here]
        by (simp add: same_image_views no_free_same_image[OF t(2)]) (meson same_image_trans)
    qed
  qed
qed

section \<open>The writes\<close>

definition child_node :: "nat \<Rightarrow> int \<Rightarrow> int \<Rightarrow> inode" where
  "child_node q type b = (if type = MFS_DIRECTORY then written (new_inode (int q) type) 0 b else new_inode (int q) type)"

definition child_block :: "int \<Rightarrow> lfs \<Rightarrow> int" where
  "child_block type s = (if type = MFS_DIRECTORY then next_block s + 1 else next_block s)"

definition creat_writes ::
  "junk \<Rightarrow> nat \<Rightarrow> nat \<Rightarrow> int \<Rightarrow> byte list \<Rightarrow> nat \<Rightarrow> nat \<Rightarrow> inode \<Rightarrow> directory \<Rightarrow> lfs \<Rightarrow> (int \<times> byte list) list" where
  "creat_writes u p q type name k e P B s =
     [(imap s ! p, enc_inode P @ junk_tail u),
      (dpointers P ! k, enc_directory (put_entry e (int q) name B))] @
     (if type = MFS_DIRECTORY then [(next_block s, enc_directory (fresh_dir u 1 (int q) (int p)))] else []) @
     [(child_block type s, enc_inode (child_node q type (next_block s)))]"

definition creat_result ::
  "junk \<Rightarrow> nat \<Rightarrow> nat \<Rightarrow> int \<Rightarrow> byte list \<Rightarrow> nat \<Rightarrow> nat \<Rightarrow> inode \<Rightarrow> directory \<Rightarrow> lfs \<Rightarrow> lfs" where
  "creat_result u p q type name k e P B s =
     update_CR (int q) ((writes (creat_writes u p q type name k e P B s) s)
       \<lparr>imap := (imap s)[q := child_block type s], next_block := child_block type s + 1\<rparr>)"

lemma new_inode_fits: "int32 type \<Longrightarrow> q < MAXINODES \<Longrightarrow> inode_fits (new_inode (int q) type)"
  unfolding inode_fits_def new_inode_def by (simp add: int32_def MAXINODES_def list_all_iff)

lemma new_inode_size: "size_ok (new_inode inum type)"
  by (auto simp: size_ok_def new_inode_def used_def)

lemma creat_entry_result:
  assumes "junk_fits u" "inode_fits P" "directory_fits (put_entry e (int q) name B)"
    "type = MFS_DIRECTORY \<or> type = MFS_REGULAR_FILE" "p < MAXINODES" "q < MAXINODES"
  shows "creat_entry u (int p) type name (int q) k e P B s = (0, creat_result u p q type name k e P B s)"
proof -
  have P: "take BLOCKSIZE (enc_inode P @ junk_tail u) = enc_inode P @ junk_tail u"
    using assms(1,2) by (simp add: junk_fits_def length_enc_inode)
  have B: "take BLOCKSIZE (enc_directory (put_entry e (int q) name B)) = enc_directory (put_entry e (int q) name B)"
    using length_enc_directory[OF assms(3)] by simp
  have N: "(new_inode (int q) MFS_DIRECTORY)\<lparr>dp_used := (dp_used (new_inode (int q) MFS_DIRECTORY))[0 := 1],
      dpointers := (dpointers (new_inode (int q) MFS_DIRECTORY))[0 := b], i_size := int BLOCKSIZE\<rparr>
      = written (new_inode (int q) MFS_DIRECTORY) 0 b" for b
    by (simp add: written_def new_inode_def)
  have size: "i_size (new_inode (int q) t) = 0" for t by (simp add: new_inode_def)
  have build: "build_dir_block u 1 (int q) (int p) r =
      (next_block r, (seek_write (next_block r) (enc_directory (fresh_dir u 1 (int q) (int p))) r)
        \<lparr>next_block := next_block r + 1\<rparr>)" for r
    using fresh_dir_first(1)[OF assms(1), of "int q" "int p"] assms(5,6) by (intro build_dir_block_eq) simp
  show ?thesis
  proof (cases "type = MFS_DIRECTORY")
    case True
    then show ?thesis
      by (simp add: creat_entry_def creat_result_def creat_writes_def child_node_def child_block_def Let_def P
          B[unfolded put_entry_def] build size N put_entry_def del: take_append)
  next
    case False
    with assms(4) show ?thesis
      by (simp add: creat_entry_def creat_result_def creat_writes_def child_node_def child_block_def Let_def P
          B[unfolded put_entry_def] size put_entry_def del: take_append)
  qed
qed


text \<open>
  The situation in which the scan calls \<open>creat_entry\<close>: \<open>s\<close> is the state at the start of the call, \<open>s'\<close> the
  state now, \<open>P\<close> the parent's inode in memory, \<open>B\<close> its block \<open>k\<close>, whose entry \<open>e\<close> is free.
\<close>

definition creat_pre ::
  "junk \<Rightarrow> lfs \<Rightarrow> lfs \<Rightarrow> nat \<Rightarrow> nat \<Rightarrow> int \<Rightarrow> byte list \<Rightarrow> nat \<Rightarrow> nat \<Rightarrow> inode \<Rightarrow> directory \<Rightarrow> bool" where
  "creat_pre u s s' p q type name k e P B \<longleftrightarrow>
     lfs_inv s \<and> is_dir s p \<and> junk_fits u \<and> q < MAXINODES \<and> imap s ! q = -1 \<and> name_ok name \<and>
     type \<in> {MFS_DIRECTORY, MFS_REGULAR_FILE} \<and> next_block s + 3 \<le> 2 ^ 19 \<and>
     k < 14 \<and> e < 128 \<and> d_inums B ! e = -1 \<and> directory_fits B \<and> dir_block_ok (enc_directory B) \<and>
     imap s' = imap s \<and> log_frame {next_block s} s s' \<and> low_frame s s' \<and>
     ((P = inode_of s p \<and> used P k \<and> next_block s' = next_block s \<and>
       block_entries (enc_directory B) = block_entries (data_of s p k)) \<or>
      (P = written (inode_of s p) k (next_block s) \<and> \<not> used (inode_of s p) k \<and>
       (\<forall>l < k. used (inode_of s p) l) \<and> no_free s p 0 \<and> next_block s' = next_block s + 1 \<and>
       block_entries (enc_directory B) = replicate 128 (str_DNE, -1)))"

lemma creat_preD:
  assumes "creat_pre u s s' p q type name k e P B"
  shows "lfs_inv s" "is_dir s p" "junk_fits u" "q < MAXINODES" "imap s ! q = -1" "name_ok name"
    "type = MFS_DIRECTORY \<or> type = MFS_REGULAR_FILE" "next_block s + 3 \<le> 2 ^ 19" "k < 14" "e < 128"
    "d_inums B ! e = -1" "directory_fits B" "dir_block_ok (enc_directory B)" "imap s' = imap s"
    "log_frame {next_block s} s s'" "low_frame s s'"
  using assms by (auto simp: creat_pre_def)

lemma creat_pre_more:
  assumes c: "creat_pre u s s' p q type name k e P B"
  shows "live s p" "p < MAXINODES" "node_ok s p (inode_of s p)" "p \<noteq> q" "\<not> live s q"
    "CRSIZE \<le> next_block s" "next_block s \<le> next_block s'" "next_block s' \<le> next_block s + 1"
    "inode_fits P" "used P k" "i_type P = MFS_DIRECTORY" "i_inum P = int p" "size_ok P"
    "CRSIZE \<le> dpointers P ! k" "dpointers P ! k < next_block s'"
    "\<And>l. used P l \<longleftrightarrow> l = k \<or> used (inode_of s p) l"
    "\<And>l. l \<noteq> k \<Longrightarrow> dpointers P ! l = dpointers (inode_of s p) ! l"
    "dpointers P ! k = next_block s \<and> next_block s' = next_block s + 1 \<or>
     dpointers P ! k = dpointers (inode_of s p) ! k \<and> used (inode_of s p) k \<and> next_block s' = next_block s"
    "\<And>l. dp_used P ! l = (if l = k then 1 else dp_used (inode_of s p) ! l)"
proof -
  note pre = creat_preD[OF c]
  show live: "live s p" and p: "p < MAXINODES" and node: "node_ok s p (inode_of s p)" and "p \<noteq> q" and "\<not> live s q"
    using pre(2,5) is_dir_live[OF pre(2)] inv_live(2)[OF pre(1), of p] by (auto simp: live_def)
  show nb: "CRSIZE \<le> next_block s" using pre(1) by (simp add: lfs_inv_def)
  have int: "int32 (next_block s)" using nb pre(8) by (simp add: int32_def CRSIZE_def)
  consider (hit) "P = inode_of s p" "used P k" "next_block s' = next_block s"
    | (grow) "P = written (inode_of s p) k (next_block s)" "next_block s' = next_block s + 1"
    using c by (auto simp: creat_pre_def)
  note cases = this
  have size: "size_ok (inode_of s p)" using node by (simp add: node_ok_def)
  show "next_block s \<le> next_block s'" "next_block s' \<le> next_block s + 1"
    "i_type P = MFS_DIRECTORY" "i_inum P = int p"
    using pre(2) node by (cases rule: cases; simp add: is_dir_def node_ok_def)+
  show "inode_fits P" "size_ok P"
    using size int pre(9) by (cases rule: cases; simp add: written_fits size_ok_written)+
  show "used P k" and us: "used P l \<longleftrightarrow> l = k \<or> used (inode_of s p) l" for l
    using pre(9) by (cases rule: cases; auto)+
  show "dpointers P ! l = dpointers (inode_of s p) ! l" if "l \<noteq> k" for l
    using pre(9) that by (cases rule: cases; simp)
  show "dpointers P ! k = next_block s \<and> next_block s' = next_block s + 1 \<or>
     dpointers P ! k = dpointers (inode_of s p) ! k \<and> used (inode_of s p) k \<and> next_block s' = next_block s"
    using pre(9) by (cases rule: cases; auto)
  then show "CRSIZE \<le> dpointers P ! k" "dpointers P ! k < next_block s'"
    using nb block_inD[OF inv_used_block[OF pre(1) live]] by auto
  show "dp_used P ! l = (if l = k then 1 else dp_used (inode_of s p) ! l)" for l
    using pre(9) by (cases rule: cases; auto simp: used_def written_def nth_list_update)
qed

lemma creat_below:
  assumes c: "creat_pre u s s' p q type name k e P B" and l: "Suc l = k"
  shows "used (inode_of s p) l"
proof (cases "used (inode_of s p) k")
  case True
  then show ?thesis
    using dir_prefix[OF creat_pre_more(3)[OF c] _ True, of l] l creat_preD(2)[OF c] by (simp add: is_dir_def)
next
  case False
  then show ?thesis using c l by (auto simp: creat_pre_def)
qed

section \<open>The state after a successful call\<close>

lemma child_node_facts:
  assumes "type = MFS_DIRECTORY \<or> type = MFS_REGULAR_FILE" "q < MAXINODES" "int32 b"
  shows "inode_fits (child_node q type b)" "i_type (child_node q type b) = type" "i_inum (child_node q type b) = int q"
    "size_ok (child_node q type b)" "used (child_node q type b) l \<longleftrightarrow> l = 0 \<and> type = MFS_DIRECTORY"
    "l < 14 \<Longrightarrow> dp_used (child_node q type b) ! l = (if l = 0 \<and> type = MFS_DIRECTORY then 1 else 0)"
    "l < 14 \<Longrightarrow> dpointers (child_node q type b) ! l = (if l = 0 \<and> type = MFS_DIRECTORY then b else -1)"
proof -
  let ?n = "new_inode (int q) type"
  have t: "int32 type" using assms(1) by (auto simp: MFS_DIRECTORY_def MFS_REGULAR_FILE_def int32_def)
  note fits = new_inode_fits[OF t assms(2)] and size = new_inode_size[of "int q" type]
  show "inode_fits (child_node q type b)" "size_ok (child_node q type b)"
    using fits size assms(3) by (auto simp: child_node_def intro!: written_fits size_ok_written)
  show "i_type (child_node q type b) = type" "i_inum (child_node q type b) = int q"
    by (simp_all add: child_node_def) (simp_all add: new_inode_def)
  have new: "\<not> used ?n l" "l < 14 \<Longrightarrow> dp_used ?n ! l = 0" "l < 14 \<Longrightarrow> dpointers ?n ! l = -1" for l
    by (auto simp: used_def new_inode_def)
  show "used (child_node q type b) l \<longleftrightarrow> l = 0 \<and> type = MFS_DIRECTORY"
    using fits new(1) by (auto simp: child_node_def)
  show "l < 14 \<Longrightarrow> dp_used (child_node q type b) ! l = (if l = 0 \<and> type = MFS_DIRECTORY then 1 else 0)"
    using fits new(2) by (auto simp: child_node_def) (auto simp: written_def nth_list_update)
  show "l < 14 \<Longrightarrow> dpointers (child_node q type b) ! l = (if l = 0 \<and> type = MFS_DIRECTORY then b else -1)"
    using fits new(3) by (auto simp: child_node_def)
qed

lemma creat_log_writes:
  assumes c: "creat_pre u s s' p q type name k e P B"
  shows "log_writes (creat_writes u p q type name k e P B s')"
proof -
  note pre = creat_preD[OF c] and more = creat_pre_more[OF c]
  have apart: "imap s ! p \<noteq> dpointers P ! k" "imap s ! p < next_block s" "CRSIZE \<le> imap s ! p"
    using more(18) data_block_apart[OF pre(1) more(1) more(1), of k] block_inD[OF inv_live(1)[OF pre(1) more(1)]] by auto
  have "length (enc_inode P @ junk_tail u) = BLOCKSIZE"
    using pre(3) more(9) by (simp add: junk_fits_def length_enc_inode)
  moreover have "length (enc_directory (put_entry e (int q) name B)) = BLOCKSIZE"
    using pre by (simp add: length_enc_directory put_entry_fits int32_def MAXINODES_def)
  moreover have "length (enc_directory (fresh_dir u 1 (int q) (int p))) = BLOCKSIZE"
    using fresh_dir_first(1)[OF pre(3)] pre(4) more(2) by (simp add: length_enc_directory)
  moreover have "length (enc_inode (child_node q type (next_block s'))) \<le> BLOCKSIZE"
    using child_node_facts(1)[OF pre(7,4)] more(6-8) pre(8)
    by (simp add: length_enc_inode int32_def CRSIZE_def)
  ultimately show ?thesis
    using apart more(6-8,14,15) pre(14)
    by (auto simp: creat_writes_def child_block_def simp del: length_append)
qed

lemma creat_post:
  assumes c: "creat_pre u s s' p q type name k e P B"
  defines "r \<equiv> creat_result u p q type name k e P B s'"
  shows "imap r = (imap s)[q := child_block type s']" "next_block r = child_block type s' + 1"
    "length (bytes s) \<le> length (bytes r)" "cr_ok r"
    "log_frame {next_block s, imap s ! p, dpointers P ! k, next_block s', child_block type s'} s r"
    "(b, bs) \<in> set (creat_writes u p q type name k e P B s') \<Longrightarrow> nat b * BLOCKSIZE + length bs \<le> length (bytes r)"
    "(b, bs) \<in> set (creat_writes u p q type name k e P B s') \<Longrightarrow> n \<le> length bs \<Longrightarrow> at_block b n r = take n bs"
proof -
  let ?ws = "creat_writes u p q type name k e P B s'"
  note pre = creat_preD[OF c] and ws = creat_log_writes[OF c] and more = creat_pre_more[OF c]
  let ?m = "(writes ?ws s')\<lparr>imap := (imap s')[q := child_block type s'], next_block := child_block type s' + 1\<rparr>"
  have r: "r = update_CR (int q) ?m" by (simp add: r_def creat_result_def)
  have bytes_m: "bytes ?m = bytes (writes ?ws s')" by simp
  have low: "low_frame s ?m"
    using low_frame_trans[OF pre(16) writes_low_frame[OF ws]] by (simp add: low_frame_def)
  have room: "4 * MAXINODES + 4 \<le> length (bytes ?m)"
    using low pre(1) by (simp add: low_frame_def lfs_inv_def cr_ok_def)
  show "imap r = (imap s)[q := child_block type s']" "next_block r = child_block type s' + 1"
    using pre(14) by (simp_all add: r)
  have len: "length (bytes r) = length (bytes (writes ?ws s'))"
    unfolding r by (simp only: length_update_CR[OF pre(4) room] bytes_m)
  then show "length (bytes s) \<le> length (bytes r)" using low by (simp add: low_frame_def)
  show "cr_ok r"
    unfolding r using pre(1,14) by (intro cr_ok_after[OF _ low pre(4)]) (simp_all add: lfs_inv_def)
  have "log_frame ({next_block s} \<union> fst ` set ?ws) s (writes ?ws s')"
    using log_frame_trans[OF pre(15) writes_log_frame[OF ws]] .
  moreover have "log_frame {} (writes ?ws s') ?m" by (simp add: log_frame_def)
  ultimately have "log_frame ({next_block s} \<union> fst ` set ?ws \<union> {} \<union> {}) s r"
    unfolding r using log_frame_update_CR[OF pre(4) room] by (blast intro: log_frame_trans)
  then show "log_frame {next_block s, imap s ! p, dpointers P ! k, next_block s', child_block type s'} s r"
    by (rule log_frame_mono) (auto simp: creat_writes_def pre(14) split: if_splits)
  show "nat b * BLOCKSIZE + length bs \<le> length (bytes r)" if "(b, bs) \<in> set ?ws"
    using at_writes(1)[OF ws that, of s'] len by simp
  show "at_block b n r = take n bs" if "(b, bs) \<in> set ?ws" "n \<le> length bs"
  proof -
    have "CRSIZE \<le> b" using ws that(1) by (auto simp: log_writes_def list_all_iff)
    then show ?thesis
      unfolding r using at_writes(2)[OF ws that, of s'] by (simp add: at_update_CR[OF pre(4) room])
  qed
qed

lemma child_block_bounds:
  assumes c: "creat_pre u s s' p q type name k e P B"
  shows "next_block s \<le> child_block type s'" "next_block s' \<le> child_block type s'" "CRSIZE \<le> child_block type s'"
    "child_block type s' + 1 \<le> 2 ^ 19" "child_block type s' \<noteq> -1" "int32 (next_block s')"
  using creat_pre_more(6-8)[OF c] creat_preD(8)[OF c] by (auto simp: child_block_def CRSIZE_def int32_def)

lemma creat_parent:
  assumes c: "creat_pre u s s' p q type name k e P B"
  defines "r \<equiv> creat_result u p q type name k e P B s'"
  shows "imap r ! p = imap s ! p" "inode_of r p = P"
    "data_of r p k = enc_directory (put_entry e (int q) name B)"
    "\<And>l. used (inode_of s p) l \<Longrightarrow> l \<noteq> k \<Longrightarrow> data_of r p l = data_of s p l"
proof -
  note pre = creat_preD[OF c] and more = creat_pre_more[OF c] and post = creat_post[OF c, folded r_def]
  note cb = child_block_bounds[OF c]
  show map: "imap r ! p = imap s ! p" using more(4) by (simp add: post(1))
  have in1: "(imap s ! p, enc_inode P @ junk_tail u) \<in> set (creat_writes u p q type name k e P B s')"
    and in2: "(dpointers P ! k, enc_directory (put_entry e (int q) name B)) \<in> set (creat_writes u p q type name k e P B s')"
    using pre(14) by (simp_all add: creat_writes_def)
  have "at_block (imap s ! p) sizeof_inode r = enc_inode P"
    using post(7)[OF in1, of sizeof_inode] more(9) by (simp add: length_enc_inode)
  then show P: "inode_of r p = P"
    using more(9) by (simp add: inode_of_def map codec_simps)
  have "length (enc_directory (put_entry e (int q) name B)) = BLOCKSIZE"
    using pre by (simp add: length_enc_directory put_entry_fits int32_def MAXINODES_def)
  then show "data_of r p k = enc_directory (put_entry e (int q) name B)"
    using post(7)[OF in2, of BLOCKSIZE] by (simp add: data_of_def P)
  show "data_of r p l = data_of s p l" if l: "used (inode_of s p) l" "l \<noteq> k" for l
  proof -
    note b = block_inD[OF inv_used_block[OF pre(1) more(1) l(1)]]
    have "dpointers (inode_of s p) ! l \<noteq> dpointers P ! k"
      using more(18) b data_blocks_apart[OF pre(1) more(1) l(1) more(1), of k] l(2) by auto
    moreover have "dpointers (inode_of s p) ! l \<noteq> imap s ! p"
      using data_block_apart[OF pre(1) more(1) more(1) l(1)] by simp
    ultimately have "dpointers (inode_of s p) ! l \<notin>
        {next_block s, imap s ! p, dpointers P ! k, next_block s', child_block type s'}"
      using b cb more(7) by auto
    from log_frameD[OF post(5) b(2) this, of BLOCKSIZE] b(4) l(2) show ?thesis
      by (simp add: data_of_def P more(17))
  qed
qed

lemma creat_child:
  assumes c: "creat_pre u s s' p q type name k e P B"
  defines "r \<equiv> creat_result u p q type name k e P B s'"
  shows "imap r ! q = child_block type s'" "live r q" "inode_of r q = child_node q type (next_block s')"
    "type = MFS_DIRECTORY \<Longrightarrow> data_of r q 0 = enc_directory (fresh_dir u 1 (int q) (int p))"
proof -
  note pre = creat_preD[OF c] and more = creat_pre_more[OF c] and post = creat_post[OF c, folded r_def]
  note cb = child_block_bounds[OF c] and child = child_node_facts[OF pre(7,4) child_block_bounds(6)[OF c]]
  have len: "length (imap s) = MAXINODES" using pre(1) by (simp add: lfs_inv_def)
  show map: "imap r ! q = child_block type s'" using len pre(4) by (simp add: post(1))
  then show "live r q" using cb(5) pre(4) by (simp add: live_def)
  have in1: "(child_block type s', enc_inode (child_node q type (next_block s'))) \<in>
      set (creat_writes u p q type name k e P B s')" by (simp add: creat_writes_def)
  have "at_block (child_block type s') sizeof_inode r = enc_inode (child_node q type (next_block s'))"
    using post(7)[OF in1, of sizeof_inode] child(1) by (simp add: length_enc_inode)
  then show N: "inode_of r q = child_node q type (next_block s')"
    using child(1) by (simp add: inode_of_def map codec_simps)
  show "data_of r q 0 = enc_directory (fresh_dir u 1 (int q) (int p))" if dir: "type = MFS_DIRECTORY"
  proof -
    have in2: "(next_block s', enc_directory (fresh_dir u 1 (int q) (int p))) \<in>
        set (creat_writes u p q type name k e P B s')" using dir by (simp add: creat_writes_def)
    have "length (enc_directory (fresh_dir u 1 (int q) (int p))) = BLOCKSIZE"
      using fresh_dir_first(1)[OF pre(3)] pre(4) more(2) by (simp add: length_enc_directory)
    then show ?thesis
      using post(7)[OF in2, of BLOCKSIZE] child(7)[of 0] dir by (simp add: data_of_def N)
  qed
qed

lemma creat_others:
  assumes c: "creat_pre u s s' p q type name k e P B" and i: "live s i" "i \<noteq> p"
  shows "agree s (creat_result u p q type name k e P B s') i"
proof (rule agree_by_frame[OF creat_preD(1)[OF c] i(1) creat_post(5)[OF c]])
  note pre = creat_preD[OF c] and more = creat_pre_more[OF c] and cb = child_block_bounds[OF c]
  show "imap (creat_result u p q type name k e P B s') ! i = imap s ! i"
    using more(5) i(1) by (cases "i = q") (auto simp: creat_post(1)[OF c])
  show "imap s ! i \<notin> {next_block s, imap s ! p, dpointers P ! k, next_block s', child_block type s'}"
    using more(7,18) cb inode_block_apart[OF pre(1) i(1) more(1) i(2)] block_inD(3)[OF inv_live(1)[OF pre(1) i(1)]]
      data_block_apart[OF pre(1) i(1) more(1), of k] by auto
  show "dpointers (inode_of s i) ! l \<notin> {next_block s, imap s ! p, dpointers P ! k, next_block s', child_block type s'}"
    if "used (inode_of s i) l" for l
    using more(7,18) cb data_block_apart[OF pre(1) more(1) i(1) that] i(2)
      block_inD(3)[OF inv_used_block[OF pre(1) i(1) that]]
      data_blocks_apart[OF pre(1) i(1) that more(1), of k] by auto
qed

section \<open>The entries of the parent\<close>

lemma pad_free: "x \<noteq> str_DNE \<Longrightarrow> map_of (es @ replicate pad (str_DNE, -1)) x = map_of es x"
proof (induction es)
  case Nil
  then show ?case by (induction pad) auto
qed auto

lemma entries_put_map:
  assumes "es @ replicate pad (str_DNE, -1) = xs @ (str_DNE, -1) # ys" "name \<noteq> str_DNE \<Longrightarrow> map_of es name = None"
    "x \<noteq> str_DNE"
  shows "map_of (xs @ (name, v) # ys) x = (if x = name then Some v else map_of es x)"
proof -
  have old: "map_of es z = map_of (xs @ ys) z" if "z \<noteq> str_DNE" for z
    using pad_free[OF that, of es pad] that unfolding assms(1) by (auto simp: map_add_def split: option.splits)
  show ?thesis
  proof (cases "x = name")
    case True
    with assms(2,3) old have "map_of (xs @ ys) x = None" by simp
    then have "map_of xs x = None" by (auto simp: map_add_def split: option.splits)
    with True show ?thesis by (simp add: map_add_def)
  next
    case False
    with old[OF assms(3)] show ?thesis by (auto simp: map_add_def split: option.splits)
  qed
qed

lemma unique_names_pad: "unique_names (es @ replicate pad (str_DNE, -1)) = unique_names es"
  by (simp add: unique_names_def)

lemma entries_put_unique:
  assumes "es @ replicate pad (str_DNE, -1) = xs @ (str_DNE, -1) # ys" "name \<noteq> str_DNE \<Longrightarrow> map_of es name = None"
    "unique_names es"
  shows "unique_names (xs @ (name, v) # ys)"
proof -
  have u: "unique_names (xs @ (str_DNE, -1) # ys)"
    using assms(1,3) unique_names_pad[of es pad] by simp
  show ?thesis
  proof (cases "name = str_DNE")
    case True
    with u show ?thesis by (simp add: unique_names_def)
  next
    case False
    then have "map_of (xs @ (str_DNE, -1) # ys) name = None"
      using assms(2) pad_free[of name es pad] unfolding assms(1) by simp
    then have "name \<notin> fst ` set (xs @ (str_DNE, -1) # ys)" by (simp only: map_of_eq_None_iff) simp
    with u False show ?thesis by (auto simp: unique_names_def)
  qed
qed

lemma creat_entries:
  assumes c: "creat_pre u s s' p q type name k e P B"
  defines "r \<equiv> creat_result u p q type name k e P B s'"
  shows "\<exists>pad xs ys. dir_entries s p @ replicate pad (str_DNE, -1) = xs @ (str_DNE, -1) # ys \<and>
     dir_entries r p = xs @ (name, int q) # ys"
proof -
  note pre = creat_preD[OF c] and more = creat_pre_more[OF c] and par = creat_parent[OF c, folded r_def]
  define f where "f l = (if used (inode_of s p) l then block_entries (data_of s p l) else [])" for l
  define g where "g l = (if used P l then block_entries (data_of r p l) else [])" for l
  define front where "front = concat (map f [0..<k])"
  define rest where "rest = concat (map f [Suc k..<14])"
  have split: "[0..<14] = [0..<k] @ k # [Suc k..<14]"
    using pre(9) upt_add_eq_append[of 0 k "14 - k"] by (simp add: upt_conv_Cons)
  have fg: "g l = f l" if "l \<noteq> k" for l
    using that par(4) more(16) by (simp add: f_def g_def)
  have old: "dir_entries s p = front @ f k @ rest"
    unfolding dir_entries_def split f_def[symmetric] front_def rest_def by simp
  have eqs: "map g [0..<k] = map f [0..<k]" "map g [Suc k..<14] = map f [Suc k..<14]" using fg by simp_all
  have new: "dir_entries r p = front @ g k @ rest"
    unfolding dir_entries_def par(2) split g_def[symmetric] front_def rest_def map_append list.map eqs by simp
  let ?bs = "block_entries (enc_directory B)"
  have bs_e: "?bs ! e = (str_DNE, -1)"
    using pre(10-13) unfolding block_entries_enc[OF pre(12)] by (simp add: dir_block_ok_def codec_simps)
  have len: "e < length ?bs" using pre(10) by simp
  have dec: "dec_directory (enc_directory B) = B" using pre(12) by (simp add: codec_simps)
  have gk: "g k = ?bs[e := (name, int q)]"
    using put_entry_block(2)[OF pre(13,6,10), of "int q", unfolded dec] pre(4) more(10) by (simp add: g_def par(3))
  have bs: "?bs = take e ?bs @ (str_DNE, -1) # drop (Suc e) ?bs"
    using id_take_nth_drop[OF len] by (simp add: bs_e)
  have "\<exists>pad. dir_entries s p @ replicate pad (str_DNE, -1) = front @ ?bs @ rest"
  proof (cases "used (inode_of s p) k")
    case True
    then have "?bs = block_entries (data_of s p k)" using c by (auto simp: creat_pre_def)
    with True show ?thesis by (intro exI[of _ 0]) (simp add: old f_def)
  next
    case False
    then have "?bs = replicate 128 (str_DNE, -1)" using c by (auto simp: creat_pre_def)
    moreover have "f l = []" if "l \<in> set [Suc k..<14]" for l
      using that False dir_prefix[OF more(3), of l k] pre(2) by (auto simp: f_def is_dir_def)
    then have "rest = []" by (simp add: rest_def)
    ultimately show ?thesis using False by (intro exI[of _ 128]) (simp add: old f_def)
  qed
  then obtain pad where "dir_entries s p @ replicate pad (str_DNE, -1) = front @ ?bs @ rest" by blast
  then have "dir_entries s p @ replicate pad (str_DNE, -1) = (front @ take e ?bs) @ (str_DNE, -1) # (drop (Suc e) ?bs @ rest)"
    by (subst (asm) bs) simp
  moreover have "dir_entries r p = (front @ take e ?bs) @ (name, int q) # (drop (Suc e) ?bs @ rest)"
    unfolding new gk using len by (simp add: upd_conv_take_nth_drop)
  ultimately show ?thesis by blast
qed

section \<open>The invariant\<close>

lemma creat_parent_ok:
  assumes c: "creat_pre u s s' p q type name k e P B" and free: "name \<noteq> str_DNE \<Longrightarrow> map_of (dir_entries s p) name = None"
  defines "r \<equiv> creat_result u p q type name k e P B s'"
  shows "block_in r (imap r ! p) sizeof_inode" "node_ok r p (inode_of r p)" "dir_ok r p"
proof -
  note pre = creat_preD[OF c] and more = creat_pre_more[OF c] and par = creat_parent[OF c, folded r_def]
    and post = creat_post[OF c, folded r_def] and cb = child_block_bounds[OF c]
  have nb: "next_block s \<le> next_block r" using cb(1) by (simp add: post(2))
  show "block_in r (imap r ! p) sizeof_inode"
    using inv_live(1)[OF pre(1) more(1)] nb post(3) by (simp add: block_in_def par(1))
  note old = node_ok_mono[OF more(3) nb post(3)]
  have in2: "(dpointers P ! k, enc_directory (put_entry e (int q) name B)) \<in> set (creat_writes u p q type name k e P B s')"
    by (simp add: creat_writes_def)
  have len: "length (enc_directory (put_entry e (int q) name B)) = BLOCKSIZE"
    using pre by (simp add: length_enc_directory put_entry_fits int32_def MAXINODES_def)
  have "block_in r (dpointers P ! k) BLOCKSIZE"
    using post(6)[OF in2] len more(14,15) cb(2) by (simp add: block_in_def post(2))
  moreover have "used (inode_of s p) l" if "used P (Suc l)" for l
    using that creat_below[OF c] dir_prefix[OF more(3) _ _ le_SucI[OF le_refl], of l] pre(2)
    unfolding more(16) is_dir_def by blast
  moreover have "used P 0" using more(3,16) pre(2) by (auto simp: node_ok_def is_dir_def)
  moreover have "dp_used P ! l = 1 \<and> block_in r (dpointers P ! l) BLOCKSIZE \<or> dp_used P ! l = 0 \<and> dpointers P ! l = -1"
    if "l < 14" for l
    using that calculation(1) old more(17,19) by (cases "l = k") (auto simp: node_ok_def)
  ultimately show "node_ok r p (inode_of r p)"
    using more(11-13,16) unfolding par(2) node_ok_def by auto
  have dec: "dec_directory (enc_directory B) = B" using pre(12) by (simp add: codec_simps)
  have blk: "dir_block_ok (enc_directory (put_entry e (int q) name B))"
    using put_entry_block(1)[OF pre(13,6,10), of "int q", unfolded dec] pre(4) by simp
  have "dir_block_ok (data_of r p l)" if "used P l" for l
    using that blk par(3,4) more(16) inv_dir_block[OF pre(1,2)] by metis
  moreover have "unique_names (dir_entries r p)"
  proof -
    obtain pad xs ys where es: "dir_entries s p @ replicate pad (str_DNE, -1) = xs @ (str_DNE, -1) # ys"
      "dir_entries r p = xs @ (name, int q) # ys"
      using creat_entries[OF c] unfolding r_def by blast
    have "unique_names (dir_entries s p)" using pre(1,2) by (simp add: lfs_inv_def dir_ok_def)
    from entries_put_unique[OF es(1) free this] show ?thesis by (simp add: es(2))
  qed
  ultimately show "dir_ok r p" by (simp add: dir_ok_def par(2))
qed

lemma new_dir_entries:
  assumes "inode_fits n" "\<And>l. used n l \<longleftrightarrow> l = 0" "inode_of r q = n"
  shows "dir_entries r q = block_entries (data_of r q 0)"
proof -
  have "[0..<14] = 0 # [Suc 0..<14]" by (simp add: upt_conv_Cons)
  then have "dir_entries r q = concat (map (\<lambda>l. if l = 0 then block_entries (data_of r q l) else []) (0 # [Suc 0..<14]))"
    using assms by (simp add: dir_entries_def)
  moreover have "map (\<lambda>l. if l = 0 then block_entries (data_of r q l) else []) [Suc 0..<14] = map (\<lambda>l. []) [Suc 0..<14]"
    by simp
  ultimately show ?thesis by simp
qed

lemma creat_child_ok:
  assumes c: "creat_pre u s s' p q type name k e P B"
  defines "r \<equiv> creat_result u p q type name k e P B s'"
  shows "block_in r (imap r ! q) sizeof_inode" "node_ok r q (inode_of r q)" "is_dir r q \<Longrightarrow> dir_ok r q"
    "type = MFS_DIRECTORY \<Longrightarrow>
     dir_entries r q = (str_dot, int q) # (str_dotdot, int p) # replicate 126 (str_DNE, -1)"
proof -
  note pre = creat_preD[OF c] and more = creat_pre_more[OF c] and post = creat_post[OF c, folded r_def]
    and cb = child_block_bounds[OF c] and new = creat_child[OF c, folded r_def]
  note child = child_node_facts[OF pre(7,4) cb(6)]
  note first = fresh_dir_first[OF pre(3), of "int q" "int p"]
  have in1: "(child_block type s', enc_inode (child_node q type (next_block s'))) \<in>
      set (creat_writes u p q type name k e P B s')" by (simp add: creat_writes_def)
  show "block_in r (imap r ! q) sizeof_inode"
    using post(6)[OF in1] cb(3) child(1) by (simp add: new(1) block_in_def post(2) length_enc_inode)
  have "block_in r (next_block s') BLOCKSIZE" if dir: "type = MFS_DIRECTORY"
  proof -
    have in2: "(next_block s', enc_directory (fresh_dir u 1 (int q) (int p))) \<in>
        set (creat_writes u p q type name k e P B s')" using dir by (simp add: creat_writes_def)
    show ?thesis
      using post(6)[OF in2] first(1) pre(4) more(2,6,7) cb(2)
      by (simp add: block_in_def post(2) length_enc_directory)
  qed
  then show "node_ok r q (inode_of r q)"
    using child pre(7) unfolding new(3) node_ok_def by (auto simp: MFS_DIRECTORY_def MFS_REGULAR_FILE_def)
  have dir: "type = MFS_DIRECTORY" if "is_dir r q" using that child(2) by (simp add: is_dir_def new(3))
  have es: "dir_entries r q = (str_dot, int q) # (str_dotdot, int p) # replicate 126 (str_DNE, -1)"
    if "type = MFS_DIRECTORY"
    using new_dir_entries[OF child(1) _ new(3)] child(5) that new(4) first(3) pre(4) more(2) by simp
  then show "type = MFS_DIRECTORY \<Longrightarrow>
     dir_entries r q = (str_dot, int q) # (str_dotdot, int p) # replicate 126 (str_DNE, -1)" .
  show "dir_ok r q" if "is_dir r q"
    using es[OF dir[OF that]] dir[OF that] child(5) new(3,4) first(2) pre(4) more(2) unique_names_dots
    by (auto simp: dir_ok_def)
qed

lemma creat_inv:
  assumes c: "creat_pre u s s' p q type name k e P B" and free: "name \<noteq> str_DNE \<Longrightarrow> map_of (dir_entries s p) name = None"
  shows "lfs_inv (creat_result u p q type name k e P B s')"
proof -
  define r where "r = creat_result u p q type name k e P B s'"
  note pre = creat_preD[OF c] and more = creat_pre_more[OF c] and post = creat_post[OF c, folded r_def]
    and cb = child_block_bounds[OF c] and new = creat_child[OF c, folded r_def]
    and par = creat_parent[OF c, folded r_def] and child = child_node_facts[OF pre(7,4) child_block_bounds(6)[OF c]]
    and others = creat_others[OF c, folded r_def]
  define F where "F = {x. x = (q, None) \<or> (x = (q, Some 0) \<and> type = MFS_DIRECTORY) \<or> (x = (p, Some k) \<and> next_block s' \<noteq> next_block s)}"
  have live_r: "live s j" if "live r j" "j \<noteq> q" for j using that by (simp add: live_def post(1))
  have "lfs_inv r"
  proof (rule lfs_invI[OF pre(1), where F = F])
    show "length (imap r) = MAXINODES" using pre(1) by (simp add: post(1) lfs_inv_def)
    show "next_block s \<le> next_block r" "next_block r \<le> 2 ^ 19" using cb by (simp_all add: post(2))
    show "live s j \<and> agree s r j \<or> block_in r (imap r ! j) sizeof_inode \<and> node_ok r j (inode_of r j) \<and>
        (is_dir r j \<longrightarrow> dir_ok r j)" if "live r j" for j
      using that live_r others creat_parent_ok[OF c free, folded r_def] creat_child_ok[OF c, folded r_def] by metis
    show "x \<in> slots s \<and> slot_block r x = slot_block s x \<or> x \<in> F \<and> next_block s \<le> slot_block r x"
      if x: "x \<in> slots r" for x
    proof -
      obtain j o' where x_eq: "x = (j, o')" by (cases x)
      consider "j = q" | "j = p" | "live s j" "j \<noteq> p" "agree s r j"
        using x live_r others by (auto simp: x_eq slots_def)
      then show ?thesis
      proof cases
        case 1
        then show ?thesis using x cb(1) more(7) child(5,7)
          by (cases o') (auto simp: x_eq slots_of new F_def)
      next
        case 2
        then show ?thesis
        proof (cases o')
          case None
          with 2 show ?thesis using more(1) by (simp add: x_eq slots_of par)
        next
          case (Some l)
          with 2 show ?thesis using x more(1,16-18)
            by (cases "l = k") (auto simp: x_eq slots_of par F_def)
        qed
      next
        case 3
        then show ?thesis using x
          by (cases o') (auto simp: x_eq slots_of agree_def)
      qed
    qed
    show "inj_on (slot_block r) F"
      using more(4,18) cb child(7)[of 0] by (auto simp: inj_on_def F_def new par child_block_def)
  qed (simp_all add: post)
  then show ?thesis by (simp add: r_def)
qed

section \<open>The whole function\<close>

lemma creat_scan_pre:
  assumes "lfs_inv s" "is_dir s p" "junk_fits u" "q < MAXINODES" "imap s ! q = -1" "name_ok name"
    "type \<in> {MFS_DIRECTORY, MFS_REGULAR_FILE}" "next_block s + 3 \<le> 2 ^ 19"
  shows "(\<exists>t. same_image s t \<and> (\<forall>k < 14. used (inode_of s p) k) \<and> no_free s p 0 \<and>
      creat_scan u (int p) type name (int q) 0 (inode_of s p) (junk_block u) s = (-1, t)) \<or>
    (\<exists>s' k e P B. creat_pre u s s' p q type name k e P B \<and>
      creat_scan u (int p) type name (int q) 0 (inode_of s p) (junk_block u) s =
      (0, creat_result u p q type name k e P B s'))"
proof -
  have blk: "directory_fits (junk_block u)" using assms(3) by (simp add: junk_fits_def)
  have live: "live s p" using assms(2) by (rule is_dir_live)
  have nb: "CRSIZE \<le> next_block s" "0 \<le> next_block s" using assms(1) by (simp_all add: lfs_inv_def CRSIZE_def)
  have entry: "creat_entry u (int p) type name (int q) k e P B s' = (0, creat_result u p q type name k e P B s')"
    if "creat_pre u s s' p q type name k e P B" for s' k e P B
  proof -
    note pre = creat_preD[OF that] and more = creat_pre_more[OF that]
    show ?thesis
      using pre(4,6,10,12)
      by (intro creat_entry_result[OF pre(3) more(9) _ pre(7) more(2) pre(4)])
        (simp add: put_entry_fits int32_def MAXINODES_def)
  qed
  from creat_scan_cases[OF assms(1-3) blk, of 0 "int p" type name "int q", OF _ less_zeroE, simplified] show ?thesis
  proof (elim disjE exE conjE, goal_cases)
    case (1 k e t)
    have len: "length (data_of s p k) = BLOCKSIZE" using length_data_of[OF assms(1) live 1(1)] .
    have "dir_block_ok (enc_directory (dec_directory (data_of s p k)))"
      using inv_dir_block[OF assms(1,2) 1(1)] directory_fits_dec[OF len]
      by (simp add: dir_block_ok_def codec_simps length_enc_directory)
    then have "creat_pre u s t p q type name k e (inode_of s p) (dec_directory (data_of s p k))"
      using assms 1 directory_fits_dec[OF len] log_frame_mono[OF log_frame_same_image] low_frame_same_image
      unfolding creat_pre_def by (auto simp: same_image_views used_def block_entries_def codec_simps)
    with entry 1(5) show ?thesis by metis
  next
    case (2 m s1 t)
    let ?B = "fresh_dir u 0 (int q) (-1)"
    note B = fresh_dir_empty[OF assms(3), of "int q" "-1"]
    have g: "log_frame {next_block s} s t" "low_frame s t" "imap t = imap s" "next_block t = next_block s + 1"
    proof -
      have "log_frame {next_block s} s1 (grown u (int q) s1)"
        using log_frame_trans[OF log_frame_seek_write log_frame_updates(2)] 2(5) nb(2) length_enc_directory[OF B(1)]
        by (simp add: grown_def same_image_views)
      from log_frame_trans[OF log_frame_trans[OF log_frame_same_image[OF 2(5)] this] log_frame_same_image[OF 2(6)]]
      show "log_frame {next_block s} s t" by simp
      have "low_frame s1 (grown u (int q) s1)"
        unfolding grown_def using nb(1) 2(5)
        by (intro low_frame_trans[OF low_frame_seek_write low_frame_updates(2)]) (simp add: same_image_views)
      from low_frame_trans[OF low_frame_trans[OF low_frame_same_image[OF 2(5)] this] low_frame_same_image[OF 2(6)]]
      show "low_frame s t" .
      show "imap t = imap s" "next_block t = next_block s + 1"
        using 2(5,6) by (simp_all add: same_image_views grown_def)
    qed
    have "creat_pre u s t p q type name m 0 (written (inode_of s p) m (next_block s)) ?B"
      using assms 2 g B fresh_dir_free[OF assms(3), of 0 "int q" "-1"] unfolding creat_pre_def by auto
    with entry 2(7) show ?thesis by metis
  qed auto
qed

lemma creat_server_cases:
  assumes "lfs_inv s" "is_dir s p" "junk_fits u" "name_ok name"
    "type \<in> {MFS_DIRECTORY, MFS_REGULAR_FILE}" "next_block s + 3 \<le> 2 ^ 19"
  obtains (exists) v t where "map_of (dir_entries s p) name = Some v" "v \<noteq> -1" "same_image s t"
      "creat_server u (int p) type name s = (0, t)"
  | (full) t where "map_of (dir_entries s p) name \<in> {None, Some (-1)}" "same_image s t"
      "(\<forall>i < MAXINODES. live s i) \<or> (\<forall>k < 14. used (inode_of s p) k) \<and> no_free s p 0" "creat_server u (int p) type name s = (-1, t)"
  | (created) s1 s' q k e P B where "map_of (dir_entries s p) name \<in> {None, Some (-1)}" "same_image s s1"
      "creat_pre u s1 s' p q type name k e P B"
      "creat_server u (int p) type name s = (0, creat_result u p q type name k e P B s')"
proof -
  have live: "live s p" and kind: "i_type (inode_of s p) = MFS_DIRECTORY"
    using assms(2) by (simp_all add: is_dir_def)
  obtain s1 where s1: "find_inode (int p) (junk_node u) s = (0, inode_of s p, s1)" "same_image s s1"
    using find_inode_live[OF assms(1) live] assms(3) by (auto simp: junk_fits_def)
  obtain s2 where s2: "lookup_server u (int p) name s1 =
      ((case map_of (dir_entries s1 p) name of None \<Rightarrow> -1 | Some v \<Rightarrow> v), s2)" "same_image s1 s2"
    using lookup_server_map[of s1 p u name] assms(1,3) live s1(2) by (auto simp: same_image_views)
  have same: "same_image s s2" using same_image_trans[OF s1(2) s2(2)] .
  show thesis
  proof (cases "map_of (dir_entries s p) name \<in> {None, Some (-1)}")
    case False
    then obtain v where v: "map_of (dir_entries s p) name = Some v" "v \<noteq> -1" by auto
    then have "creat_server u (int p) type name s = (0, s2)"
      using s1 s2(1) kind by (simp add: creat_server_def same_image_views)
    with v same show thesis by (rule exists)
  next
    case True
    then have server: "creat_server u (int p) type name s =
        (case find (\<lambda>i. imap s2 ! i = -1) [0..<MAXINODES] of None \<Rightarrow> (-1, s2)
         | Some i \<Rightarrow> creat_scan u (int p) type name (int i) 0 (inode_of s p) (junk_block u) s2)"
      using s1 s2(1) kind by (auto simp: creat_server_def same_image_views)
    show thesis
    proof (cases "find (\<lambda>i. imap s2 ! i = -1) [0..<MAXINODES]")
      case None
      then have "\<forall>i < MAXINODES. live s i" using same by (auto simp: find_None_iff live_def same_image_views)
      with None server same True show thesis by (intro full) auto
    next
      case (Some q)
      then have q: "q < MAXINODES" "imap s2 ! q = -1" by (auto simp: find_Some_iff)
      have "lfs_inv s2" "is_dir s2 p" "next_block s2 + 3 \<le> 2 ^ 19"
        using assms(1,2,6) same by (simp_all add: same_image_views)
      from creat_scan_pre[OF this(1,2) assms(3) q assms(4,5) this(3)] show thesis
      proof (elim disjE exE conjE)
        fix t assume "same_image s2 t" "\<forall>k < 14. used (inode_of s2 p) k" "no_free s2 p 0"
          "creat_scan u (int p) type name (int q) 0 (inode_of s2 p) (junk_block u) s2 = (-1, t)"
        with server Some True same show thesis
          by (intro full[of t]) (auto simp: same_image_views no_free_same_image intro: same_image_trans)
      next
        fix s' k e P B assume "creat_pre u s2 s' p q type name k e P B"
          "creat_scan u (int p) type name (int q) 0 (inode_of s2 p) (junk_block u) s2 =
            (0, creat_result u p q type name k e P B s')"
        with server Some True same show thesis
          by (intro created[of s2 s' q k e P B]) (simp_all add: same_image_views)
      qed
    qed
  qed
qed

lemma creat_server_refused:
  assumes "lfs_inv s" "live s p" "\<not> is_dir s p" "junk_fits u"
  obtains t where "creat_server u (int p) type name s = (-1, t)" "same_image s t"
proof -
  obtain t where "find_inode (int p) (junk_node u) s = (0, inode_of s p, t)" "same_image s t"
    using find_inode_live[OF assms(1,2)] assms(4) by (auto simp: junk_fits_def)
  then show thesis using assms(2,3) by (intro that) (auto simp: creat_server_def is_dir_def)
qed

end
