(* ===== verification/Lfs_Unlink.thy ===== *)
theory Lfs_Unlink
  imports Lfs_Start
begin

text \<open>
  \<open>unlink_server\<close>. The loop over the parent's first block clears the entry of the name, if it is in that
  block; then the inode leaves the map. An entry in a later block is left behind.
\<close>

section \<open>The loop\<close>

lemma clear_entry_put:
  "clear_entry pinode j d s =
     (put_entry j (-1) str_DNE d, seek_write (dpointers pinode ! 0) (take BLOCKSIZE (enc_directory (put_entry j (-1) str_DNE d))) s)"
  by (cases d) (simp add: clear_entry_def put_entry_def set_dinum_def set_dname_def Let_def)

lemma unlink_no_match:
  "\<forall>j \<in> set js. dname d j \<noteq> name \<Longrightarrow> unlink_entries u name pinode node js d s = (True, s)"
  by (induction js) simp_all

lemma unlink_skip:
  "\<forall>j \<in> set xs. dname d j \<noteq> name \<Longrightarrow>
   unlink_entries u name pinode node (xs @ ys) d s = unlink_entries u name pinode node ys d s"
  by (induction xs) simp_all

lemma dname_put_other:
  assumes "directory_fits d" "name_ok n" "j < 128" "i < 128" "i \<noteq> j" "names_terminated d"
  shows "dname (put_entry j v n d) i = dname d i"
proof -
  have "entry_is d i (d_inums d ! i) (dname d i)"
    using assms(4,6) by (auto simp: entry_is_def dname_slot dest: names_terminatedD)
  then have "entry_is (put_entry j v n d) i (d_inums d ! i) (dname d i)"
    using put_entry_other[OF assms(1,2,3,4,5)] by simp
  then show ?thesis by (simp add: entry_is_dname)
qed

definition unlink_check :: "junk \<Rightarrow> inode \<Rightarrow> lfs \<Rightarrow> bool \<times> lfs" where
  "unlink_check u node s =
     (if i_type node = MFS_REGULAR_FILE then (True, s)
      else let (got, s1) = seek_read (dpointers node ! 0) BLOCKSIZE s;
               t = dec_directory (overlay got (enc_directory (junk_temp u)))
           in (\<not> list_ex (\<lambda>i. d_inums t ! i \<noteq> -1) [2..<128], s1))"

lemma unlink_check_image: "same_image s (snd (unlink_check u node s))"
  by (simp add: unlink_check_def split_beta Let_def del: upt_rec_numeral)

lemma unlink_match:
  assumes d: "directory_fits d" "names_terminated d" and j: "j < 128" "dname d j = name" "name \<noteq> str_DNE"
    and uniq: "\<And>i. i < 128 \<Longrightarrow> dname d i = name \<Longrightarrow> i = j"
  shows "unlink_entries u name pinode node [0..<128] d s =
     (let (c, s1) = unlink_check u node s
      in if c then (True, seek_write (dpointers pinode ! 0) (enc_directory (put_entry j (-1) str_DNE d)) s1) else (False, s1))"
proof -
  let ?d = "put_entry j (-1) str_DNE d"
  have split: "[0..<128] = [0..<j] @ j # [Suc j..<128]"
    using j(1) upt_add_eq_append[of 0 j "128 - j"] by (simp add: upt_conv_Cons)
  have "unlink_entries u name pinode node [0..<128] d s = unlink_entries u name pinode node (j # [Suc j..<128]) d s"
    unfolding split using uniq j(1) by (intro unlink_skip) (metis atLeastLessThan_iff less_trans nat_neq_iff set_upt)
  moreover have "\<forall>i \<in> set [Suc j..<128]. dname ?d i \<noteq> name"
    using uniq j(1) dname_put_other[OF d(1) _ j(1) _ _ d(2), of str_DNE] by fastforce
  from unlink_no_match[OF this]
  have rest: "unlink_entries u name pinode node [Suc j..<128] ?d t = (True, t)" for t .
  moreover have "directory_fits ?d" using d(1) j(1) by (simp add: put_entry_fits int32_def)
  then have "take BLOCKSIZE (enc_directory ?d) = enc_directory ?d" by (simp add: length_enc_directory)
  ultimately show ?thesis
    using j(2) by (simp add: clear_entry_put unlink_check_def split_beta Let_def del: upt_rec_numeral)
qed

section \<open>Entries after an update\<close>

lemma unique_names_clear: "unique_names es \<Longrightarrow> unique_names (es[j := (str_DNE, v)])"
proof (cases "j < length es")
  case True
  assume u: "unique_names es"
  have "es = take j es @ es ! j # drop (Suc j) es" using True by (rule id_take_nth_drop)
  with u have "unique_names (take j es @ es ! j # drop (Suc j) es)" by simp
  then show ?thesis
    using True by (auto simp: unique_names_def upd_conv_take_nth_drop split: if_splits)
qed (simp add: list_update_beyond)

lemma map_of_clear:
  assumes "unique_names es" "j < length es" "es ! j = (name, q)" "name \<noteq> str_DNE" "x \<noteq> str_DNE"
  shows "map_of (es[j := (str_DNE, -1)]) x = (if x = name then None else map_of es x)"
proof -
  let ?a = "take j es" and ?b = "drop (Suc j) es"
  have es: "es = ?a @ (name, q) # ?b" using id_take_nth_drop[OF assms(2)] assms(3) by simp
  have new: "es[j := (str_DNE, -1)] = ?a @ (str_DNE, -1) # ?b" using assms(2) by (rule upd_conv_take_nth_drop)
  have "distinct (filter (\<lambda>n. n \<noteq> str_DNE) (map fst (?a @ (name, q) # ?b)))"
    using assms(1) es unfolding unique_names_def by metis
  then have "name \<notin> fst ` set ?a" "name \<notin> fst ` set ?b"
    using assms(4) by auto
  then have "map_of ?a name = None" "map_of ?b name = None" by (simp_all add: map_of_eq_None_iff)
  moreover have "map_of es x = map_of (?a @ (name, q) # ?b) x" using es by metis
  ultimately show ?thesis
    unfolding new using assms(5) by (auto simp: map_add_def split: option.splits)
qed

section \<open>The state after a successful call\<close>

definition cleared :: "lfs \<Rightarrow> nat \<Rightarrow> nat \<Rightarrow> directory" where
  "cleared s p j = put_entry j (-1) str_DNE (dec_directory (data_of s p 0))"

text \<open>The block writes of a call: entry \<open>j\<close> of the parent's first block, or none.\<close>

definition unlink_writes :: "lfs \<Rightarrow> nat \<Rightarrow> nat option \<Rightarrow> (int \<times> byte list) list" where
  "unlink_writes s p jo = (case jo of None \<Rightarrow> [] | Some j \<Rightarrow> [(dpointers (inode_of s p) ! 0, enc_directory (cleared s p j))])"

definition unlink_result :: "nat \<Rightarrow> (int \<times> byte list) list \<Rightarrow> lfs \<Rightarrow> lfs" where
  "unlink_result q ws s = update_CR (int q) ((writes ws s)\<lparr>imap := (imap s)[q := -1]\<rparr>)"

definition unlink_pre :: "lfs \<Rightarrow> nat \<Rightarrow> nat \<Rightarrow> nat option \<Rightarrow> bool" where
  "unlink_pre s p q jo \<longleftrightarrow> lfs_inv s \<and> is_dir s p \<and> q < MAXINODES \<and> (\<forall>j. jo = Some j \<longrightarrow> j < 128)"

lemma first_used: "lfs_inv s \<Longrightarrow> is_dir s p \<Longrightarrow> used (inode_of s p) 0"
  using inv_live(2)[of s p] by (auto simp: node_ok_def is_dir_def)

lemma unlink_log_writes:
  assumes "unlink_pre s p q jo"
  shows "log_writes (unlink_writes s p jo)" "list_all (\<lambda>(b, bs). length bs = BLOCKSIZE \<and> b = dpointers (inode_of s p) ! 0) (unlink_writes s p jo)"
proof -
  have inv: "lfs_inv s" "is_dir s p" using assms by (simp_all add: unlink_pre_def)
  note b = block_inD[OF inv_used_block[OF inv(1) is_dir_live[OF inv(2)] first_used[OF inv]]]
  have "length (enc_directory (cleared s p j)) = BLOCKSIZE" if "jo = Some j" for j
    using that assms put_entry_block(3)[OF inv_dir_block[OF inv first_used[OF inv]], of str_DNE j "-1"]
    by (simp add: cleared_def unlink_pre_def length_enc_directory)
  with b(2) show "log_writes (unlink_writes s p jo)"
    "list_all (\<lambda>(b, bs). length bs = BLOCKSIZE \<and> b = dpointers (inode_of s p) ! 0) (unlink_writes s p jo)"
    by (auto simp: unlink_writes_def split: option.splits)
qed

lemma unlink_post:
  assumes c: "unlink_pre s p q jo" and img: "same_image s s'"
  defines "r \<equiv> unlink_result q (unlink_writes s p jo) s'"
  shows "imap r = (imap s)[q := -1]" "next_block r = next_block s" "length (bytes s) \<le> length (bytes r)" "cr_ok r"
    "log_frame {dpointers (inode_of s p) ! 0} s r"
    "(b, bs) \<in> set (unlink_writes s p jo) \<Longrightarrow> at_block b BLOCKSIZE r = bs"
    "jo = None \<Longrightarrow> log_frame {} s r"
proof -
  let ?ws = "unlink_writes s p jo"
  let ?m = "(writes ?ws s')\<lparr>imap := (imap s')[q := -1]\<rparr>"
  note ws = unlink_log_writes[OF c]
  have inv: "lfs_inv s" and q: "q < MAXINODES" using c by (simp_all add: unlink_pre_def)
  have r: "r = update_CR (int q) ?m" by (simp add: r_def unlink_result_def)
  have low: "low_frame s ?m"
    using low_frame_trans[OF low_frame_same_image[OF img] writes_low_frame[OF ws(1)]] by (simp add: low_frame_def)
  have room: "4 * MAXINODES + 4 \<le> length (bytes ?m)"
    using low inv by (simp add: low_frame_def lfs_inv_def cr_ok_def)
  show "imap r = (imap s)[q := -1]" "next_block r = next_block s"
    using img by (simp_all add: r same_image_views)
  show "length (bytes s) \<le> length (bytes r)"
    using low by (simp add: r length_update_CR[OF q room] low_frame_def)
  show "cr_ok r"
    unfolding r using inv img
    by (intro cr_ok_after[OF _ low q]) (simp_all add: lfs_inv_def same_image_views)
  have "log_frame {} (writes ?ws s') ?m" by simp
  then have frame: "log_frame ({} \<union> fst ` set ?ws \<union> {} \<union> {}) s r"
    unfolding r using log_frame_update_CR[OF q room] log_frame_same_image[OF img] writes_log_frame[OF ws(1)]
    by (blast intro: log_frame_trans)
  then show "log_frame {dpointers (inode_of s p) ! 0} s r"
    by (rule log_frame_mono) (use ws(2) in \<open>auto simp: list_all_iff\<close>)
  show "jo = None \<Longrightarrow> log_frame {} s r" using frame by (simp add: unlink_writes_def)
  show "at_block b BLOCKSIZE r = bs" if "(b, bs) \<in> set ?ws"
  proof -
    have "CRSIZE \<le> b" "length bs = BLOCKSIZE" using ws that by (auto simp: log_writes_def list_all_iff)
    then show ?thesis
      unfolding r using at_writes(2)[OF ws(1) that, of BLOCKSIZE s'] by (simp add: at_update_CR[OF q room])
  qed
qed

lemma unlink_others:
  assumes c: "unlink_pre s p q jo" and img: "same_image s s'" and i: "live s i" "i \<noteq> p" "i \<noteq> q"
  shows "agree s (unlink_result q (unlink_writes s p jo) s') i"
proof (rule agree_by_frame[OF _ i(1) unlink_post(5)[OF c img]])
  show inv: "lfs_inv s" using c by (simp add: unlink_pre_def)
  have dir: "is_dir s p" and live: "live s p" using c by (simp_all add: unlink_pre_def is_dir_live)
  show "imap (unlink_result q (unlink_writes s p jo) s') ! i = imap s ! i"
    using i(3) by (simp add: unlink_post(1)[OF c img])
  show "imap s ! i \<notin> {dpointers (inode_of s p) ! 0}"
    using data_block_apart[OF inv i(1) live first_used[OF inv dir]] by simp
  show "dpointers (inode_of s i) ! l \<notin> {dpointers (inode_of s p) ! 0}" if "used (inode_of s i) l" for l
    using data_blocks_apart[OF inv i(1) that live first_used[OF inv dir]] i(2) by simp
qed

lemma unlink_untouched:
  assumes c: "unlink_pre s p q None" and img: "same_image s s'" and i: "live s i" "i \<noteq> q"
  shows "agree s (unlink_result q (unlink_writes s p None) s') i"
  using i(2) c
  by (intro agree_by_frame[OF _ i(1) unlink_post(7)[OF c img refl]])
    (simp_all add: unlink_pre_def unlink_post(1)[OF c img])

lemma dir_entries_split:
  assumes "used (inode_of s p) 0"
  shows "dir_entries s p = block_entries (data_of s p 0) @
    concat (map (\<lambda>k. if used (inode_of s p) k then block_entries (data_of s p k) else []) [1..<14])"
proof -
  have "[0..<14] = 0 # [1..<14]" by (simp add: upt_conv_Cons)
  with assms show ?thesis by (simp only: dir_entries_def list.map concat.simps if_True)
qed

lemma unlink_parent:
  assumes c: "unlink_pre s p q (Some j)" and img: "same_image s s'" and pq: "p \<noteq> q"
  defines "r \<equiv> unlink_result q (unlink_writes s p (Some j)) s'"
  shows "imap r ! p = imap s ! p" "inode_of r p = inode_of s p" "data_of r p 0 = enc_directory (cleared s p j)"
    "\<And>l. used (inode_of s p) l \<Longrightarrow> l \<noteq> 0 \<Longrightarrow> data_of r p l = data_of s p l"
    "dir_entries r p = (dir_entries s p)[j := (str_DNE, -1)]"
proof -
  note post = unlink_post[OF c img, folded r_def]
  have inv: "lfs_inv s" "is_dir s p" and live: "live s p" and j: "j < 128"
    using c by (simp_all add: unlink_pre_def is_dir_live)
  note u0 = first_used[OF inv]
  show map: "imap r ! p = imap s ! p" using pq by (simp add: post(1))
  have "imap s ! p \<noteq> dpointers (inode_of s p) ! 0" using data_block_apart[OF inv(1) live live u0] .
  then show node: "inode_of r p = inode_of s p"
    using log_frameD[OF post(5), of "imap s ! p" sizeof_inode] block_inD[OF inv_live(1)[OF inv(1) live]]
    by (simp add: inode_of_def map)
  show d0: "data_of r p 0 = enc_directory (cleared s p j)"
    using post(6)[of "dpointers (inode_of s p) ! 0" "enc_directory (cleared s p j)"]
    by (simp add: data_of_def node unlink_writes_def)
  show dl: "data_of r p l = data_of s p l" if l: "used (inode_of s p) l" "l \<noteq> 0" for l
    using log_frameD[OF post(5), of "dpointers (inode_of s p) ! l" BLOCKSIZE]
      data_blocks_apart[OF inv(1) live l(1) live u0] l(2) block_inD[OF inv_used_block[OF inv(1) live l(1)]]
    by (simp add: data_of_def node)
  have "(\<lambda>k. if used (inode_of s p) k then block_entries (data_of r p k) else []) x =
      (\<lambda>k. if used (inode_of s p) k then block_entries (data_of s p k) else []) x" if "x \<in> set [1..<14]" for x
    using that dl[of x] by (simp only: set_upt atLeastLessThan_iff) auto
  then have rest: "map (\<lambda>k. if used (inode_of s p) k then block_entries (data_of r p k) else []) [1..<14] =
      map (\<lambda>k. if used (inode_of s p) k then block_entries (data_of s p k) else []) [1..<14]"
    by (rule map_cong[OF refl])
  have "block_entries (enc_directory (cleared s p j)) = (block_entries (data_of s p 0))[j := (str_DNE, -1)]"
    unfolding cleared_def using put_entry_block(2)[OF inv_dir_block[OF inv u0], of str_DNE j "-1"] j by simp
  then show "dir_entries r p = (dir_entries s p)[j := (str_DNE, -1)]"
    using dir_entries_split[of r p, unfolded node d0 rest, OF u0] dir_entries_split[OF u0] j
    by (simp add: list_update_append del: upt_rec_numeral)
qed

lemma unlink_inv:
  assumes c: "unlink_pre s p q jo" and img: "same_image s s'"
  shows "lfs_inv (unlink_result q (unlink_writes s p jo) s')"
proof -
  define r where "r = unlink_result q (unlink_writes s p jo) s'"
  note post = unlink_post[OF c img, folded r_def]
  have inv: "lfs_inv s" "is_dir s p" and q: "q < MAXINODES" using c by (simp_all add: unlink_pre_def)
  have len: "length (imap s) = MAXINODES" using inv(1) by (simp add: lfs_inv_def)
  have live_r: "live s i \<and> i \<noteq> q" if "live r i" for i
    using that q len by (cases "i = q") (auto simp: live_def post(1))
  have nodes: "(live s i \<and> agree s r i) \<or>
      (i = p \<and> p \<noteq> q \<and> imap r ! p = imap s ! p \<and> inode_of r p = inode_of s p \<and> dir_ok r p)" if "live r i" for i
  proof (cases "i = p \<and> jo \<noteq> None")
    case False
    then show ?thesis
      using live_r[OF that] unlink_others[OF c img] unlink_untouched[of s p q s' i] c img
      unfolding r_def by (cases jo) auto
  next
    case True
    then obtain j where jo: "jo = Some j" by auto
    have pq: "p \<noteq> q" using live_r[OF that] True by simp
    note par = unlink_parent[OF c[unfolded jo] img pq, folded jo, folded r_def]
    have j: "j < 128" using c jo by (simp add: unlink_pre_def)
    have "dir_block_ok (enc_directory (cleared s p j))"
      unfolding cleared_def using put_entry_block(1)[OF inv_dir_block[OF inv first_used[OF inv]], of str_DNE j "-1"] j by simp
    then have "dir_block_ok (data_of r p l)" if "used (inode_of s p) l" for l
      using that par(3,4) inv_dir_block[OF inv that] by metis
    moreover have "unique_names (dir_entries s p)" using inv by (simp add: lfs_inv_def dir_ok_def)
    ultimately have "dir_ok r p"
      unfolding dir_ok_def par(2,5) by (auto intro: unique_names_clear)
    then show ?thesis using True pq par(1,2) by blast
  qed
  have "lfs_inv r"
  proof (rule lfs_invI[OF inv(1), where F = "{}"])
    show "next_block r \<le> 2 ^ 19" "length (imap r) = MAXINODES" using inv(1) by (simp_all add: post lfs_inv_def)
    show "live s i \<and> agree s r i \<or> block_in r (imap r ! i) sizeof_inode \<and> node_ok r i (inode_of r i) \<and>
        (is_dir r i \<longrightarrow> dir_ok r i)" if "live r i" for i
      using nodes[OF that] live_r[OF that] inv_live[OF inv(1), of i] post(2,3)
      by (auto simp: block_in_def intro: node_ok_mono)
    show "x \<in> slots s \<and> slot_block r x = slot_block s x \<or> x \<in> {} \<and> next_block s \<le> slot_block r x"
      if x: "x \<in> slots r" for x
    proof -
      obtain i o' where x_eq: "x = (i, o')" by (cases x)
      then have "live r i" using x by (auto simp: slots_def)
      from nodes[OF this] live_r[OF this] show ?thesis
        using x by (cases o') (auto simp: x_eq slots_of agree_def)
    qed
  qed (simp_all add: post)
  then show ?thesis by (simp add: r_def)
qed

section \<open>The whole function\<close>

lemma unique_names_later:
  assumes "unique_names es" "i < j" "j < length es" "fst (es ! i) = name" "name \<noteq> str_DNE"
  shows "fst (es ! j) \<noteq> name"
proof -
  have "es = take i es @ es ! i # drop (Suc i) es" using assms(2,3) by (intro id_take_nth_drop) simp
  then have "distinct (filter (\<lambda>n. n \<noteq> str_DNE) (map fst (take i es @ es ! i # drop (Suc i) es)))"
    using assms(1) unfolding unique_names_def by metis
  then have "name \<notin> fst ` set (drop (Suc i) es)" using assms(4,5) by auto
  moreover have "es ! j \<in> set (drop (Suc i) es)"
    using assms(2,3) by (auto simp: in_set_conv_nth intro!: exI[of _ "j - Suc i"])
  ultimately show ?thesis by blast
qed

lemma unique_names_index:
  assumes "unique_names es" "i < length es" "j < length es" "fst (es ! i) = name" "fst (es ! j) = name" "name \<noteq> str_DNE"
  shows "i = j"
  using unique_names_later[OF assms(1) _ assms(3,4,6)] unique_names_later[OF assms(1) _ assms(2,5,6)] assms(4,5)
  by (meson linorder_neqE_nat)

lemma map_of_index:
  assumes "unique_names es" "map_of es name = Some v" "name \<noteq> str_DNE" "j < length es" "fst (es ! j) = name"
  shows "es ! j = (name, v)"
proof -
  obtain i where "i < length es" "es ! i = (name, v)"
    using map_of_SomeD[OF assms(2)] by (auto simp: in_set_conv_nth)
  with unique_names_index[OF assms(1) _ assms(4) _ assms(5,3), of i] show ?thesis by simp
qed

lemma block_entries_nth: "j < 128 \<Longrightarrow> block_entries bs ! j = (dname (dec_directory bs) j, d_inums (dec_directory bs) ! j)"
  by (simp add: block_entries_def)

text \<open>The entry of a name: absent, in the first block, or in a later one.\<close>

lemma unlink_server_cases:
  assumes inv: "lfs_inv s" "is_dir s p" and junk: "junk_fits u" and name: "name \<noteq> str_DNE"
  obtains (absent) t where "map_of (dir_entries s p) name = None" "same_image s t"
      "unlink_server u (int p) name s = (0, t)"
  | (first) q j node t where "map_of (dir_entries s p) name = Some (int q)" "dir_entries s p ! j = (name, int q)" "j < 128"
      "same_image s t" "node = fst (snd (find_inode (int q) (junk_child u) t))"
      "unlink_server u (int p) name s =
        (let (c, t1) = unlink_check u node (snd (snd (find_inode (int q) (junk_child u) t)))
         in if c then (0, unlink_result q (unlink_writes s p (Some j)) t1) else (-1, t1))" "unlink_pre s p q (Some j)"
  | (later) q t where "map_of (dir_entries s p) name = Some (int q)" "name \<notin> fst ` set (block_entries (data_of s p 0))"
      "same_image s t" "unlink_server u (int p) name s = (0, unlink_result q [] t)" "unlink_pre s p q None"
proof -
  have live: "live s p" and kind: "i_type (inode_of s p) = MFS_DIRECTORY" using inv(2) by (simp_all add: is_dir_def)
  note u0 = first_used[OF inv]
  obtain s1 where s1: "find_inode (int p) (junk_node u) s = (0, inode_of s p, s1)" "same_image s s1"
    using find_inode_live[OF inv(1) live] junk by (auto simp: junk_fits_def)
  have inv1: "lfs_inv s1" "live s1 p" "used (inode_of s1 p) 0" and fits: "directory_fits (junk_block u)"
    using inv(1) live u0 s1(2) junk by (simp_all add: same_image_views junk_fits_def)
  obtain s2 where s2: "seek_read (dpointers (inode_of s p) ! 0) BLOCKSIZE s1 = (data_of s p 0, s2)" "same_image s1 s2"
    and ov: "overlay (data_of s p 0) (enc_directory (junk_block u)) = data_of s p 0"
    using read_dir_block[OF inv1 fits] s1(2) by (auto simp: same_image_views)
  have same2: "same_image s s2" using same_image_trans[OF s1(2) s2(2)] .
  obtain s3 where s3: "lookup_server u (int p) name s2 =
      ((case map_of (dir_entries s p) name of None \<Rightarrow> -1 | Some v \<Rightarrow> v), s3)" "same_image s2 s3"
    using lookup_server_map[of s2 p u name] inv(1) live junk same2 by (auto simp: same_image_views)
  have same3: "same_image s s3" using same_image_trans[OF same2 s3(2)] .
  show thesis
  proof (cases "map_of (dir_entries s p) name")
    case None
    then have "unlink_server u (int p) name s = (0, s3)"
      using s1(1) kind s2(1) s3(1) by (simp add: unlink_server_def)
    with None same3 show thesis by (rule absent)
  next
    case (Some v)
    let ?d = "dec_directory (data_of s p 0)"
    note blk = inv_dir_block[OF inv u0]
    have v: "0 \<le> v" "v < int MAXINODES"
    proof -
      obtain k where k: "used (inode_of s p) k" "(name, v) \<in> set (block_entries (data_of s p k))"
        using map_of_SomeD[OF Some] by (auto simp: dir_entries_def split: if_splits)
      then have "-1 \<le> v \<and> v < int MAXINODES \<and> (v = -1 \<longrightarrow> name = str_DNE)"
        using inv_dir_block[OF inv k(1)] by (auto simp: block_entries_def dir_block_ok_def)
      with name show "0 \<le> v" "v < int MAXINODES" by auto
    qed
    define q where "q = nat v"
    have q: "v = int q" "q < MAXINODES" using v by (simp_all add: q_def)
    define node t4 where "node = fst (snd (find_inode (int q) (junk_child u) s3))"
      and "t4 = snd (snd (find_inode (int q) (junk_child u) s3))"
    have same4: "same_image s t4"
      using same_image_trans[OF same3, of t4] by (simp add: t4_def find_inode_def split_beta)
    have server: "unlink_server u (int p) name s =
        (let (fin, s5) = unlink_entries u name (inode_of s p) node [0..<128] ?d t4
         in if \<not> fin then (-1, s5) else (0, update_CR (int q) (s5\<lparr>imap := (imap s5)[q := -1]\<rparr>)))"
      using s1(1) kind s2(1) s3(1) Some ov
      by (simp add: unlink_server_def q(1) node_def t4_def split_beta Let_def del: upt_rec_numeral)
    have uniq: "unique_names (dir_entries s p)" using inv by (simp add: lfs_inv_def dir_ok_def)
    have at: "dir_entries s p ! j = (dname ?d j, d_inums ?d ! j)" "j < length (dir_entries s p)" if "j < 128" for j
      using that dir_entries_split[OF u0] by (simp_all add: nth_append block_entries_nth del: upt_rec_numeral)
    show thesis
    proof (cases "\<exists>j < 128. dname ?d j = name")
      case True
      then obtain j where j: "j < 128" "dname ?d j = name" by blast
      have only: "i = j" if "i < 128" "dname ?d i = name" for i
        using unique_names_index[OF uniq at(2)[OF that(1)] at(2)[OF j(1)] _ _ name] that j at(1) by simp
      have entries: "unlink_entries u name (inode_of s p) node [0..<128] ?d t4 =
          (let (c, s1) = unlink_check u node t4
           in if c then (True, seek_write (dpointers (inode_of s p) ! 0) (enc_directory (put_entry j (-1) str_DNE ?d)) s1) else (False, s1))"
        using unlink_match[OF _ _ j name only] blk by (simp add: dir_block_ok_def directory_fits_dec)
      show thesis
      proof (rule first[of q j s3])
        show "dir_entries s p ! j = (name, int q)"
          using map_of_index[OF uniq Some name at(2)[OF j(1)]] at(1)[OF j(1)] j(2) q(1) by simp
        show "unlink_server u (int p) name s =
            (let (c, t1) = unlink_check u node (snd (snd (find_inode (int q) (junk_child u) s3)))
             in if c then (0, unlink_result q (unlink_writes s p (Some j)) t1) else (-1, t1))"
          unfolding server entries t4_def[symmetric]
          by (simp add: split_beta Let_def unlink_result_def unlink_writes_def cleared_def)
      qed (use Some q inv j same3 in \<open>simp_all add: node_def unlink_pre_def\<close>)
    next
      case False
      then have "unlink_entries u name (inode_of s p) node [0..<128] ?d t4 = (True, t4)"
        by (intro unlink_no_match ballI) (metis atLeastLessThan_iff set_upt)
      then have "unlink_server u (int p) name s = (0, unlink_result q [] t4)"
        by (simp add: server unlink_result_def)
      moreover have "name \<notin> fst ` set (block_entries (data_of s p 0))"
        using False by (auto simp: block_entries_def)
      ultimately show thesis
        using later[of q t4] Some q inv same4 by (simp add: unlink_pre_def)
    qed
  qed
qed

end
