(* ===== verification/File_Service.thy ===== *)
theory File_Service
  imports Lfs_Layout
begin

text \<open>
  The contract of the file server. A file system is a map from inode numbers to files (blocks by number)
  and directories (inode numbers by name). The locale \<open>file_service\<close> is what a client relies on: each call
  relates a state to a return value and a next state, and its laws say what the call does to the map. What
  sequences of calls achieve is proved from the laws alone; \<open>Lfs_Ops\<close> interprets the locale with the
  functions of \<open>lfs.c\<close>.
\<close>

section \<open>The abstract file system\<close>

datatype anode = AFile "nat \<rightharpoonup> byte list" | ADir "byte list \<rightharpoonup> int"

type_synonym afs = "nat \<rightharpoonup> anode"

definition a_write :: "nat \<Rightarrow> nat \<Rightarrow> byte list \<Rightarrow> afs \<Rightarrow> afs" where
  "a_write i k buffer fs = (case fs i of Some (AFile f) \<Rightarrow> fs(i \<mapsto> AFile (f(k \<mapsto> buffer))) | _ \<Rightarrow> fs)"

definition a_new :: "int \<Rightarrow> nat \<Rightarrow> nat \<Rightarrow> anode" where
  "a_new type p q = (if type = MFS_DIRECTORY then ADir [str_dot \<mapsto> int q, str_dotdot \<mapsto> int p] else AFile Map.empty)"

definition a_creat :: "nat \<Rightarrow> int \<Rightarrow> byte list \<Rightarrow> nat \<Rightarrow> afs \<Rightarrow> afs" where
  "a_creat p type name q fs =
     (case fs p of Some (ADir d) \<Rightarrow> fs(p \<mapsto> ADir (d(name \<mapsto> int q)), q \<mapsto> a_new type p q) | _ \<Rightarrow> fs)"

definition a_unlink :: "nat \<Rightarrow> byte list \<Rightarrow> nat \<Rightarrow> afs \<Rightarrow> afs" where
  "a_unlink p name q fs =
     (case fs p of Some (ADir d) \<Rightarrow> fs(p \<mapsto> ADir (d(name := None)), q := None) | _ \<Rightarrow> fs)"

definition a_lookup :: "nat \<Rightarrow> byte list \<Rightarrow> afs \<Rightarrow> int option" where
  "a_lookup p name fs = (case fs p of Some (ADir d) \<Rightarrow> d name | _ \<Rightarrow> None)"

lemma a_lookup_creat:
  assumes "fs p = Some (ADir d)" "p \<noteq> q"
  shows "a_lookup p x (a_creat p type name q fs) = (if x = name then Some (int q) else a_lookup p x fs)"
  using assms by (simp add: a_lookup_def a_creat_def)

lemma a_creat_child: "fs p = Some (ADir d) \<Longrightarrow> a_creat p type name q fs q = Some (a_new type p q)"
  by (simp add: a_creat_def)

lemma a_creat_other: "i \<noteq> p \<Longrightarrow> i \<noteq> q \<Longrightarrow> a_creat p type name q fs i = fs i"
  by (simp add: a_creat_def split: option.splits anode.splits)

lemma a_write_same: "fs i = Some (AFile f) \<Longrightarrow> a_write i k b fs i = Some (AFile (f(k \<mapsto> b)))"
  by (simp add: a_write_def)

lemma a_write_other: "j \<noteq> i \<Longrightarrow> a_write i k b fs j = fs j"
  by (simp add: a_write_def split: option.splits anode.splits)

lemma a_write_idem: "a_write i k b (a_write i k b fs) = a_write i k b fs"
  by (auto simp: a_write_def split: option.splits anode.splits)

lemma a_lookup_unlink:
  assumes "fs p = Some (ADir d)" "p \<noteq> q"
  shows "a_lookup p x (a_unlink p name q fs) = (if x = name then None else a_lookup p x fs)"
  using assms by (simp add: a_lookup_def a_unlink_def)

section \<open>The interface\<close>

locale file_service =
  fixes inv :: "'s \<Rightarrow> bool" and view :: "'s \<Rightarrow> afs" and room :: "'s \<Rightarrow> int"
    and lookup :: "'s \<Rightarrow> nat \<Rightarrow> byte list \<Rightarrow> int \<Rightarrow> 's \<Rightarrow> bool"
    and creat :: "'s \<Rightarrow> nat \<Rightarrow> int \<Rightarrow> byte list \<Rightarrow> int \<Rightarrow> 's \<Rightarrow> bool"
    and writeb :: "'s \<Rightarrow> nat \<Rightarrow> byte list \<Rightarrow> nat \<Rightarrow> int \<Rightarrow> 's \<Rightarrow> bool"
    and readb :: "'s \<Rightarrow> nat \<Rightarrow> nat \<Rightarrow> int \<Rightarrow> byte list \<Rightarrow> 's \<Rightarrow> bool"
  assumes lookup_law: "inv s \<Longrightarrow> view s p = Some (ADir d) \<Longrightarrow> name \<noteq> str_DNE \<Longrightarrow> lookup s p name rc t \<Longrightarrow>
      inv t \<and> view t = view s \<and> room t = room s \<and> rc = (case d name of None \<Rightarrow> -1 | Some v \<Rightarrow> v)"
    and creat_law: "inv s \<Longrightarrow> view s p = Some (ADir d) \<Longrightarrow> name_ok name \<Longrightarrow> name \<noteq> str_DNE \<Longrightarrow>
      type \<in> {MFS_DIRECTORY, MFS_REGULAR_FILE} \<Longrightarrow> 3 \<le> room s \<Longrightarrow> creat s p type name rc t \<Longrightarrow>
      inv t \<and> room s - 3 \<le> room t \<and>
      (if d name \<noteq> None then rc = 0 \<and> view t = view s
       else (rc = -1 \<and> view t = view s) \<or>
            (rc = 0 \<and> (\<exists>q. view s q = None \<and> view t = a_creat p type name q (view s))))"
    and write_law: "inv s \<Longrightarrow> view s i = Some (AFile f) \<Longrightarrow> k < 14 \<Longrightarrow> length b = BLOCKSIZE \<Longrightarrow> 1 \<le> room s \<Longrightarrow>
      writeb s i b k rc t \<Longrightarrow> inv t \<and> room s - 1 \<le> room t \<and> rc = 0 \<and> view t = a_write i k b (view s)"
    and read_law: "inv s \<Longrightarrow> view s i = Some (AFile f) \<Longrightarrow> f k = Some b \<Longrightarrow> readb s i k rc got t \<Longrightarrow>
      inv t \<and> view t = view s \<and> room t = room s \<and> rc = 0 \<and> got = b"
begin

lemma write_read:
  assumes "inv s" "view s i = Some (AFile f)" "k < 14" "length b = BLOCKSIZE" "1 \<le> room s"
    "writeb s i b k rc t" "readb t i k rc' got r"
  shows "rc = 0 \<and> rc' = 0 \<and> got = b \<and> view r = a_write i k b (view s)"
proof -
  have t: "inv t" "rc = 0" "view t = a_write i k b (view s)" using write_law[OF assms(1-6)] by simp_all
  have "view t i = Some (AFile (f(k \<mapsto> b)))" by (simp add: t(3) a_write_same assms(2))
  from read_law[OF t(1) this _ assms(7), of b] show ?thesis by (simp add: t)
qed

lemma write_read_other:
  assumes "inv s" "view s i = Some (AFile f)" "k < 14" "length b = BLOCKSIZE" "1 \<le> room s"
    "writeb s i b k rc t" "view s j = Some (AFile g)" "g l = Some c" "(j, l) \<noteq> (i, k)" "readb t j l rc' got r"
  shows "rc' = 0 \<and> got = c"
proof -
  have t: "inv t" "view t = a_write i k b (view s)" using write_law[OF assms(1-6)] by simp_all
  obtain h where "view t j = Some (AFile h)" "h l = Some c"
    using assms(2,7-9) by (cases "j = i") (auto simp: t(2) a_write_same a_write_other)
  from read_law[OF t(1) this assms(10)] show ?thesis by simp
qed

lemma creat_dir:
  assumes "inv s" "view s p = Some (ADir d)" "name_ok name" "name \<noteq> str_DNE"
    "type \<in> {MFS_DIRECTORY, MFS_REGULAR_FILE}" "3 \<le> room s" "creat s p type name 0 t"
  obtains d1 where "view t p = Some (ADir d1)" "d1 name \<noteq> None"
proof (cases "d name = None")
  case True
  then obtain q where "view s q = None" "view t = a_creat p type name q (view s)"
    using creat_law[OF assms] by auto
  with assms(2) show ?thesis by (cases "p = q") (auto simp: a_creat_def intro: that)
next
  case False
  then show ?thesis using creat_law[OF assms] assms(2) that by auto
qed

lemma creat_lookup:
  assumes "inv s" "view s p = Some (ADir d)" "name_ok name" "name \<noteq> str_DNE" "d name = None"
    "type \<in> {MFS_DIRECTORY, MFS_REGULAR_FILE}" "3 \<le> room s" "creat s p type name 0 t" "lookup t p name rc r"
  shows "\<exists>q. rc = int q \<and> view s q = None \<and> view r = a_creat p type name q (view s)"
proof -
  obtain q where t: "inv t" "view s q = None" "view t = a_creat p type name q (view s)"
    using creat_law[OF assms(1-4,6-8)] assms(5) by auto
  have "p \<noteq> q" using assms(2) t(2) by auto
  then have "view t p = Some (ADir (d(name \<mapsto> int q)))" by (simp add: t(3) a_creat_def assms(2))
  from lookup_law[OF t(1) this assms(4,9)] t show ?thesis by auto
qed

lemma creat_write_read:
  assumes "inv s" "view s p = Some (ADir d)" "name_ok name" "name \<noteq> str_DNE" "d name = None" "4 \<le> room s"
    and "creat s p MFS_REGULAR_FILE name 0 t1" "lookup t1 p name (int i) t2"
    and "k < 14" "length b = BLOCKSIZE" "writeb t2 i b k rc t3" "readb t3 i k rc' got t4"
  shows "rc = 0 \<and> rc' = 0 \<and> got = b"
proof -
  have t1: "inv t1" "1 \<le> room t1"
    using creat_law[OF assms(1-4) _ _ assms(7)] assms(6) by simp_all
  obtain q where q: "int i = int q" "view s q = None" "view t2 = a_creat p MFS_REGULAR_FILE name q (view s)"
    using creat_lookup[OF assms(1-5) _ _ assms(7,8)] assms(6) by auto
  obtain d1 where d1: "view t1 p = Some (ADir d1)"
    using creat_dir[OF assms(1-4) _ _ assms(7)] assms(6) by auto
  have t2: "inv t2" "1 \<le> room t2" using lookup_law[OF t1(1) d1 assms(4,8)] t1(2) by simp_all
  have "view t2 i = Some (AFile Map.empty)"
    using q assms(2) by (simp add: a_creat_child a_new_def MFS_DIRECTORY_def MFS_REGULAR_FILE_def)
  from write_read[OF t2(1) this assms(9,10) t2(2) assms(11,12)] show ?thesis by simp
qed

text \<open>A call that is repeated, as a client repeats it when the answer is lost, has the effect of one.\<close>

lemma write_again:
  assumes "inv s" "view s i = Some (AFile f)" "k < 14" "length b = BLOCKSIZE" "2 \<le> room s"
    "writeb s i b k rc t" "writeb t i b k rc' r"
  shows "rc' = 0 \<and> view r = view t"
proof -
  have t: "inv t" "view t = a_write i k b (view s)" "1 \<le> room t" using write_law[OF assms(1-4) _ assms(6)] assms(5) by simp_all
  have "view t i = Some (AFile (f(k \<mapsto> b)))" by (simp add: t(2) a_write_same assms(2))
  from write_law[OF t(1) this assms(3,4) t(3) assms(7)] show ?thesis by (simp add: t(2) a_write_idem)
qed

lemma creat_again:
  assumes "inv s" "view s p = Some (ADir d)" "name_ok name" "name \<noteq> str_DNE"
    "type \<in> {MFS_DIRECTORY, MFS_REGULAR_FILE}" "6 \<le> room s" "creat s p type name 0 t" "creat t p type name rc r"
  shows "rc = 0 \<and> view r = view t"
proof -
  have t: "inv t" "3 \<le> room t" using creat_law[OF assms(1-5) _ assms(7)] assms(6) by simp_all
  obtain d1 where d1: "view t p = Some (ADir d1)" "d1 name \<noteq> None"
    using creat_dir[OF assms(1-5) _ assms(7)] assms(6) by auto
  from creat_law[OF t(1) d1(1) assms(3-5) t(2) assms(8)] d1(2) show ?thesis by simp
qed

end

end
