(* ===== verification/Lfs_Spec.thy ===== *)
theory Lfs_Spec
  imports Lfs_Creat Lfs_Unlink File_Service
begin

text \<open>
  The image refines the abstract file system of \<open>File_Service\<close>: \<open>fs_of\<close> reads files and directories off an image,
  and the state after each operation of \<open>lfs.c\<close> abstracts to the result of the operation on the map, with
  all other inodes unchanged.
\<close>

definition blocks_of :: "lfs \<Rightarrow> nat \<Rightarrow> nat \<rightharpoonup> byte list" where
  "blocks_of s i = (\<lambda>k. if used (inode_of s i) k then Some (data_of s i k) else None)"

text \<open>\<open>"DNE"\<close> is the name of free entries.\<close>

definition names_of :: "lfs \<Rightarrow> nat \<Rightarrow> byte list \<rightharpoonup> int" where
  "names_of s i = (map_of (dir_entries s i))(str_DNE := None)"

definition abs_node :: "lfs \<Rightarrow> nat \<Rightarrow> anode" where
  "abs_node s i = (if i_type (inode_of s i) = MFS_DIRECTORY then ADir (names_of s i) else AFile (blocks_of s i))"

definition fs_of :: "lfs \<Rightarrow> afs" where
  "fs_of s = (\<lambda>i. if live s i then Some (abs_node s i) else None)"

section \<open>Views through the abstraction\<close>

lemma abs_same_image: "same_image s t \<Longrightarrow> fs_of t = fs_of s"
  by (simp add: fs_of_def abs_node_def names_of_def blocks_of_def same_image_views fun_eq_iff)

lemma abs_agree: "agree s t i \<Longrightarrow> fs_of t i = fs_of s i"
  by (auto simp: fs_of_def agree_kind(1) abs_node_def names_of_def agree_dir_entries) (auto simp: agree_def blocks_of_def)

lemma abs_dir: "is_dir s i \<Longrightarrow> fs_of s i = Some (ADir (names_of s i))"
  by (simp add: fs_of_def is_dir_def abs_node_def)

lemma abs_file: "is_file s i \<Longrightarrow> fs_of s i = Some (AFile (blocks_of s i))"
  by (simp add: fs_of_def is_file_def abs_node_def MFS_DIRECTORY_def MFS_REGULAR_FILE_def)

lemma abs_dead: "\<not> live s i \<Longrightarrow> fs_of s i = None"
  by (simp add: fs_of_def)

lemma abs_file_iff:
  assumes "lfs_inv s"
  shows "(\<exists>f. fs_of s i = Some (AFile f)) \<longleftrightarrow> is_file s i"
  using inv_live(2)[OF assms, of i]
  by (auto simp: fs_of_def abs_node_def is_file_def node_ok_def MFS_DIRECTORY_def MFS_REGULAR_FILE_def)

lemma abs_dir_iff: "(\<exists>d. fs_of s i = Some (ADir d)) \<longleftrightarrow> is_dir s i"
  by (auto simp: fs_of_def abs_node_def is_dir_def)

lemma abs_eqI:
  assumes "\<And>i. i \<notin> X \<Longrightarrow> live s i \<Longrightarrow> agree s t i" "\<And>i. i \<notin> X \<Longrightarrow> live t i \<Longrightarrow> live s i"
    "\<And>i. i \<notin> X \<Longrightarrow> fs i = fs_of s i" "\<And>i. i \<in> X \<Longrightarrow> fs_of t i = fs i"
  shows "fs_of t = fs"
proof
  fix i show "fs_of t i = fs i"
    using assms[of i] abs_agree[of s t i] by (cases "i \<in> X"; cases "live s i") (auto simp: fs_of_def)
qed

section \<open>Refinement\<close>

lemma names_of_new_dir:
  assumes "dir_entries r q = (str_dot, v) # (str_dotdot, w) # replicate n (str_DNE, -1)"
  shows "names_of r q = [str_dot \<mapsto> v, str_dotdot \<mapsto> w]"
  using pad_free[of _ "[]" n] by (auto simp: names_of_def assms fun_eq_iff)

lemma abs_fresh: "junk_fits u \<Longrightarrow> fs_of (fresh_image u) = [0 \<mapsto> ADir [str_dot \<mapsto> 0, str_dotdot \<mapsto> 0]]"
proof -
  assume u: "junk_fits u"
  have "is_dir (fresh_image u) 0"
    by (simp add: is_dir_def fresh_live[OF u] fresh_image_views[OF u] root_node_def)
  moreover have "names_of (fresh_image u) 0 = [str_dot \<mapsto> 0, str_dotdot \<mapsto> 0]"
    by (rule names_of_new_dir[OF fresh_entries[OF u]])
  ultimately show ?thesis
    by (auto simp: fun_eq_iff abs_dir abs_dead fresh_live[OF u])
qed

lemma abs_write:
  assumes w: "write_pre s i k buffer"
  shows "fs_of (write_steps i buffer k (inode_of s i) s) = a_write i k buffer (fs_of s)"
proof (rule abs_eqI[where X = "{i}"])
  let ?t = "write_steps i buffer k (inode_of s i) s"
  note pre = write_preD[OF w] and post = write_post[OF w]
  show "agree s ?t j" if "j \<notin> {i}" "live s j" for j using write_other_agree[OF w] that by simp
  show "live s j" if "live ?t j" for j using that by (simp add: live_def post(1))
  show "a_write i k buffer (fs_of s) j = fs_of s j" if "j \<notin> {i}" for j
    using that by (simp add: a_write_def split: option.splits anode.splits)
  have "is_file ?t i" using pre(2) by (simp add: is_file_def live_def post)
  moreover have "blocks_of ?t i = (blocks_of s i)(k \<mapsto> buffer)"
    using pre(3) write_new_block[OF w] write_own_blocks[OF w] by (auto simp: blocks_of_def post(7))
  ultimately show "fs_of ?t j = a_write i k buffer (fs_of s) j" if "j \<in> {i}" for j
    using that by (simp add: abs_file pre(2) a_write_def)
qed

lemma abs_creat:
  assumes c: "creat_pre u s s' p q type name k e P B" and free: "map_of (dir_entries s p) name = None" "name \<noteq> str_DNE"
  shows "fs_of (creat_result u p q type name k e P B s') = a_creat p type name q (fs_of s)"
proof (rule abs_eqI[where X = "{p, q}"])
  let ?r = "creat_result u p q type name k e P B s'"
  note pre = creat_preD[OF c] and more = creat_pre_more[OF c] and post = creat_post[OF c]
    and par = creat_parent[OF c] and new = creat_child[OF c]
  note child = child_node_facts[OF pre(7,4) child_block_bounds(6)[OF c]]
  have fs: "a_creat p type name q (fs_of s) = (fs_of s)(p \<mapsto> ADir ((names_of s p)(name \<mapsto> int q)), q \<mapsto> a_new type p q)"
    by (simp add: a_creat_def abs_dir[OF pre(2)])
  show "agree s ?r j" if "j \<notin> {p, q}" "live s j" for j using creat_others[OF c] that by simp
  show "live s j" if "j \<notin> {p, q}" "live ?r j" for j using that by (simp add: live_def post(1))
  show "a_creat p type name q (fs_of s) j = fs_of s j" if "j \<notin> {p, q}" for j using that by (simp add: fs)
  have dir: "is_dir ?r p" using more(1,4,11) by (simp add: is_dir_def live_def par(1,2))
  obtain pad xs ys where es: "dir_entries s p @ replicate pad (str_DNE, -1) = xs @ (str_DNE, -1) # ys"
    "dir_entries ?r p = xs @ (name, int q) # ys" using creat_entries[OF c] by blast
  have "names_of ?r p = (names_of s p)(name \<mapsto> int q)"
    using entries_put_map[OF es(1) free(1), of _ "int q"] free(2) by (auto simp: names_of_def es(2) fun_eq_iff)
  moreover have "fs_of ?r q = Some (a_new type p q)"
  proof (cases "type = MFS_DIRECTORY")
    case True
    with new(2,3) child(2) have "is_dir ?r q" by (simp add: is_dir_def)
    with True show ?thesis
      using names_of_new_dir[OF creat_child_ok(4)[OF c True]] by (simp add: abs_dir a_new_def)
  next
    case False
    then have "blocks_of ?r q = Map.empty" using child(5) by (simp add: blocks_of_def new(3))
    with False new(2,3) child(2) show ?thesis by (simp add: fs_of_def abs_node_def a_new_def)
  qed
  ultimately show "fs_of ?r j = a_creat p type name q (fs_of s) j" if "j \<in> {p, q}" for j
    using that more(4) by (auto simp: fs abs_dir[OF dir])
qed

lemma abs_unlink:
  assumes c: "unlink_pre s p q (Some j)" and img: "same_image s s'" and pq: "p \<noteq> q"
    and entry: "dir_entries s p ! j = (name, int q)" "name \<noteq> str_DNE"
  shows "fs_of (unlink_result q (unlink_writes s p (Some j)) s') = a_unlink p name q (fs_of s)"
proof (rule abs_eqI[where X = "{p, q}"])
  let ?r = "unlink_result q (unlink_writes s p (Some j)) s'"
  note post = unlink_post[OF c img] and par = unlink_parent[OF c img pq]
  have inv: "lfs_inv s" "is_dir s p" and q: "q < MAXINODES" and j: "j < 128" using c by (simp_all add: unlink_pre_def)
  have fs: "a_unlink p name q (fs_of s) = (fs_of s)(p \<mapsto> ADir ((names_of s p)(name := None)), q := None)"
    by (simp add: a_unlink_def abs_dir[OF inv(2)])
  show "agree s ?r i" if "i \<notin> {p, q}" "live s i" for i using unlink_others[OF c img] that by simp
  show "live s i" if "i \<notin> {p, q}" "live ?r i" for i using that by (simp add: live_def post(1))
  show "a_unlink p name q (fs_of s) i = fs_of s i" if "i \<notin> {p, q}" for i using that by (simp add: fs)
  have dir: "is_dir ?r p" using inv(2) pq by (simp add: is_dir_def live_def par(1,2))
  have uniq: "unique_names (dir_entries s p)" using inv by (simp add: lfs_inv_def dir_ok_def)
  have len: "j < length (dir_entries s p)"
    using j dir_entries_split[OF first_used[OF inv]] by (simp del: upt_rec_numeral)
  have "names_of ?r p = (names_of s p)(name := None)"
    using map_of_clear[OF uniq len entry] by (auto simp: names_of_def par(5) fun_eq_iff)
  moreover have "\<not> live ?r q" using q inv(1) by (simp add: live_def post(1) lfs_inv_def)
  ultimately show "fs_of ?r i = a_unlink p name q (fs_of s) i" if "i \<in> {p, q}" for i
    using that pq by (auto simp: fs abs_dir[OF dir] abs_dead)
qed

end
