(* ===== verification/Lfs_Ops.thy ===== *)
theory Lfs_Ops
  imports Lfs_Spec
begin

text \<open>
  The functions of \<open>lfs.c\<close> refine the operations of \<open>File_Service\<close>: one lemma per function, over the whole
  function with its error returns, and the interpretation of the locale \<open>file_service\<close> by the relations
  between a state, a return value and a next state that the functions define (for any contents of their
  uninitialised variables).
\<close>

definition free_blocks :: "lfs \<Rightarrow> int" where
  "free_blocks s = 2 ^ 19 - next_block s"

lemma free_blocks_same: "same_image s t \<Longrightarrow> free_blocks t = free_blocks s"
  by (simp add: free_blocks_def same_image_views)

section \<open>Refinement of each function\<close>

lemma abs_dir_name:
  assumes "fs_of s p = Some (ADir d)" "name \<noteq> str_DNE"
  shows "d name = map_of (dir_entries s p) name"
proof -
  have "is_dir s p" using assms(1) abs_dir_iff by blast
  then have "d = names_of s p" using assms(1) abs_dir by simp
  with assms(2) show ?thesis by (simp add: names_of_def)
qed

lemma lookup_server_refines:
  assumes "lfs_inv s" "fs_of s p = Some (ADir d)" "name \<noteq> str_DNE" "junk_fits u" "lookup_server u (int p) name s = (rc, t)"
  shows "same_image s t" "rc = (case d name of None \<Rightarrow> -1 | Some v \<Rightarrow> v)"
proof -
  have dir: "is_dir s p" using assms(2) abs_dir_iff by blast
  obtain r where "lookup_server u (int p) name s =
      ((case map_of (dir_entries s p) name of None \<Rightarrow> -1 | Some v \<Rightarrow> v), r)" "same_image s r"
    using lookup_server_map[OF assms(1) is_dir_live[OF dir] assms(4)] .
  moreover have "d name = map_of (dir_entries s p) name"
    using abs_dir_name[OF assms(2,3)] .
  ultimately show "same_image s t" "rc = (case d name of None \<Rightarrow> -1 | Some v \<Rightarrow> v)"
    using assms(5) by simp_all
qed

lemma write_same_image:
  assumes "same_image s t" "lfs_inv s"
  shows "write_pre t i k b = write_pre s i k b"
  using assms by (simp add: write_pre_def same_image_views)

lemma write_server_refines:
  assumes "lfs_inv s" "fs_of s i = Some (AFile f)" "k < 14" "length b = BLOCKSIZE" "1 \<le> free_blocks s" "junk_fits u"
    "write_server u (int i) b (int k) s = (rc, t)"
  shows "lfs_inv t" "rc = 0" "fs_of t = a_write i k b (fs_of s)" "free_blocks t = free_blocks s - 1"
proof -
  have reg: "is_file s i" using assms(1,2) abs_file_iff by blast
  obtain r where r: "same_image s r" "write_server u (int i) b (int k) s = (0, write_steps i b k (inode_of s i) r)"
    using write_server_steps[OF assms(1) reg assms(6,3,4)] .
  have w: "write_pre r i k b"
    using assms(1,3-5) reg r(1) by (simp add: write_pre_def free_blocks_def same_image_views)
  have t: "rc = 0" "t = write_steps i b k (inode_of r i) r" using r assms(7) by (simp_all add: same_image_views)
  show "rc = 0" "lfs_inv t" "fs_of t = a_write i k b (fs_of s)" "free_blocks t = free_blocks s - 1"
    using t write_inv_after[OF w] abs_write[OF w] write_post(2)[OF w] r(1)
    by (simp_all add: abs_same_image free_blocks_def same_image_views)
qed

lemma read_server_refines:
  assumes "lfs_inv s" "fs_of s i = Some (AFile f)" "f k = Some b" "length buffer \<le> BLOCKSIZE" "junk_fits u"
    "read_server u (int i) buffer (int k) s = (rc, got, t)"
  shows "same_image s t" "rc = 0" "got = b"
proof -
  have reg: "is_file s i" using assms(1,2) abs_file_iff by blast
  then have "used (inode_of s i) k" "b = data_of s i k"
    using assms(2,3) abs_file[OF reg] by (auto simp: blocks_of_def split: if_splits)
  with read_server_file[OF assms(1) reg assms(5) this(1) assms(4)] assms(6)
  show "same_image s t" "rc = 0" "got = b" by auto
qed

lemma names_entry:
  assumes "lfs_inv s" "is_dir s p" "name \<noteq> str_DNE" "map_of (dir_entries s p) name = Some v"
  shows "0 \<le> v" "v < int MAXINODES"
proof -
  obtain k where k: "used (inode_of s p) k" "(name, v) \<in> set (block_entries (data_of s p k))"
    using map_of_SomeD[OF assms(4)] by (auto simp: dir_entries_def split: if_splits)
  then have "-1 \<le> v \<and> v < int MAXINODES \<and> (v = -1 \<longrightarrow> name = str_DNE)"
    using inv_dir_block[OF assms(1,2) k(1)] by (auto simp: block_entries_def dir_block_ok_def)
  with assms(3) show "0 \<le> v" "v < int MAXINODES" by auto
qed

text \<open>An invalid type is noticed only after the entry has been written; the call fails then, unless the name exists already.\<close>

lemma creat_scan_bad_type:
  "type \<notin> {MFS_DIRECTORY, MFS_REGULAR_FILE} \<Longrightarrow> fst (creat_scan u pinum type name inum b parent block s) = -1"
proof (induction u pinum type name inum b parent block s rule: creat_scan.induct)
  case (1 u pinum type name inum b parent block s)
  then show ?case
    by (subst creat_scan.simps) (auto simp: creat_entry_def Let_def split_beta split: option.split)
qed

lemma creat_server_bad_type:
  assumes "lfs_inv s" "fs_of s p = Some (ADir d)" "name \<noteq> str_DNE" "type \<notin> {MFS_DIRECTORY, MFS_REGULAR_FILE}" "junk_fits u"
    "creat_server u (int p) type name s = (rc, t)"
  shows "if d name \<noteq> None then rc = 0 \<and> same_image s t else rc = -1"
proof -
  have dir: "is_dir s p" using assms(2) abs_dir_iff by blast
  then have live: "live s p" and kind: "i_type (inode_of s p) = MFS_DIRECTORY" by (simp_all add: is_dir_def)
  have d: "d name = map_of (dir_entries s p) name" using abs_dir_name[OF assms(2,3)] .
  have none: "d name \<noteq> Some (-1)" using names_entry[OF assms(1) dir assms(3), of "-1"] d by auto
  obtain s1 where s1: "find_inode (int p) (junk_node u) s = (0, inode_of s p, s1)" "same_image s s1"
    using find_inode_live[OF assms(1) live] assms(5) by (auto simp: junk_fits_def)
  obtain s2 where s2: "lookup_server u (int p) name s1 =
      ((case map_of (dir_entries s1 p) name of None \<Rightarrow> -1 | Some v \<Rightarrow> v), s2)" "same_image s1 s2"
    using lookup_server_map[of s1 p u name] assms(1,5) live s1(2) by (auto simp: same_image_views)
  have same: "same_image s s2" "dir_entries s1 p = dir_entries s p" using same_image_trans[OF s1(2) s2(2)] s1(2) by (simp_all add: same_image_views)
  show ?thesis
  proof (cases "d name")
    case None
    then have "creat_server u (int p) type name s =
        (case find (\<lambda>i. imap s2 ! i = -1) [0..<MAXINODES] of None \<Rightarrow> (-1, s2)
         | Some i \<Rightarrow> creat_scan u (int p) type name (int i) 0 (inode_of s p) (junk_block u) s2)"
      using s1(1) s2(1) kind d same(2) by (simp add: creat_server_def)
    then show ?thesis
      using None assms(6) creat_scan_bad_type[OF assms(4), of u "int p" name _ 0 "inode_of s p" "junk_block u" s2]
      by (auto split: option.splits) (metis fst_conv)
  next
    case (Some v)
    then show ?thesis using s1(1) s2(1) kind d none same assms(6) by (simp add: creat_server_def)
  qed
qed

lemma creat_server_refines:
  assumes "lfs_inv s" "fs_of s p = Some (ADir d)" "name_ok name" "name \<noteq> str_DNE"
    "type \<in> {MFS_DIRECTORY, MFS_REGULAR_FILE}" "3 \<le> free_blocks s" "junk_fits u"
    "creat_server u (int p) type name s = (rc, t)"
  shows "lfs_inv t" "free_blocks s - 3 \<le> free_blocks t"
    "d name \<noteq> None \<Longrightarrow> rc = 0 \<and> same_image s t"
    "d name = None \<Longrightarrow>
       (rc = -1 \<and> same_image s t \<and> ((\<forall>i < MAXINODES. live s i) \<or> (\<forall>k < 14. used (inode_of s p) k) \<and> no_free s p 0)) \<or>
       (rc = 0 \<and> (\<exists>q. fs_of s q = None \<and> fs_of t = a_creat p type name q (fs_of s)))"
proof -
  have dir: "is_dir s p" using assms(2) abs_dir_iff by blast
  have d: "d name = map_of (dir_entries s p) name"
    using abs_dir_name[OF assms(2,4)] .
  have room: "next_block s + 3 \<le> 2 ^ 19" using assms(6) by (simp add: free_blocks_def)
  have none: "d name \<noteq> Some (-1)" using names_entry[OF assms(1) dir assms(4), of "-1"] d by auto
  have "lfs_inv t \<and> free_blocks s - 3 \<le> free_blocks t \<and> (d name \<noteq> None \<longrightarrow> rc = 0 \<and> same_image s t) \<and>
    (d name = None \<longrightarrow>
       (rc = -1 \<and> same_image s t \<and> ((\<forall>i < MAXINODES. live s i) \<or> (\<forall>k < 14. used (inode_of s p) k) \<and> no_free s p 0)) \<or>
       (rc = 0 \<and> (\<exists>q. fs_of s q = None \<and> fs_of t = a_creat p type name q (fs_of s))))"
  proof (cases rule: creat_server_cases[OF assms(1) dir assms(7,3,5) room])
    case (1 v r)
    then show ?thesis using assms(1,8) d free_blocks_same[OF 1(3)] by (simp add: same_image_views)
  next
    case (2 r)
    then show ?thesis using assms(1,8) d none free_blocks_same[OF 2(2)] by (auto simp: same_image_views)
  next
    case (3 s1 s' q k e P B)
    have unnamed: "map_of (dir_entries s1 p) name = None"
      using 3(1,2) d none by (auto simp: same_image_views)
    have "free_blocks s - 3 \<le> free_blocks t"
      using assms(8) 3(2,4) creat_post(2)[OF 3(3)] creat_pre_more(8)[OF 3(3)]
      by (auto simp: free_blocks_def same_image_views child_block_def)
    moreover have "fs_of s q = None"
      using creat_pre_more(5)[OF 3(3)] 3(2) by (simp add: abs_dead same_image_views)
    ultimately show ?thesis
      using 3 assms(8) creat_inv[OF 3(3) unnamed] abs_creat[OF 3(3) unnamed assms(4)] unnamed d
      by (auto simp: abs_same_image same_image_views)
  qed
  then show "lfs_inv t" "free_blocks s - 3 \<le> free_blocks t" "d name \<noteq> None \<Longrightarrow> rc = 0 \<and> same_image s t"
    "d name = None \<Longrightarrow>
       (rc = -1 \<and> same_image s t \<and> ((\<forall>i < MAXINODES. live s i) \<or> (\<forall>k < 14. used (inode_of s p) k) \<and> no_free s p 0)) \<or>
       (rc = 0 \<and> (\<exists>q. fs_of s q = None \<and> fs_of t = a_creat p type name q (fs_of s)))"
    by blast+
qed

text \<open>The directory test of \<open>unlink_server\<close> on a live child.\<close>

definition first_block_empty :: "lfs \<Rightarrow> nat \<Rightarrow> bool" where
  "first_block_empty s q \<longleftrightarrow> (\<forall>i. 2 \<le> i \<longrightarrow> i < 128 \<longrightarrow> snd (block_entries (data_of s q 0) ! i) = -1)"

lemma unlink_check_live:
  assumes "lfs_inv s" "live s q" "junk_fits u"
  shows "fst (unlink_check u (inode_of s q) s) \<longleftrightarrow> is_file s q \<or> first_block_empty s q"
proof (cases "is_file s q")
  case True
  then show ?thesis by (simp add: unlink_check_def is_file_def)
next
  case False
  have type: "i_type (inode_of s q) \<noteq> MFS_REGULAR_FILE" using False assms(2) by (simp add: is_file_def)
  then have "is_dir s q" using inv_live(2)[OF assms(1,2)] assms(2) by (auto simp: node_ok_def is_dir_def)
  note u0 = first_used[OF assms(1) this]
  obtain t where t: "seek_read (dpointers (inode_of s q) ! 0) BLOCKSIZE s = (data_of s q 0, t)"
    "overlay (data_of s q 0) (enc_directory (junk_temp u)) = data_of s q 0"
    using read_dir_block[OF assms(1,2) u0, of "junk_temp u"] assms(3) by (auto simp: junk_fits_def)
  have "fst (unlink_check u (inode_of s q) s) \<longleftrightarrow> \<not> list_ex (\<lambda>i. d_inums (dec_directory (data_of s q 0)) ! i \<noteq> -1) [2..<128]"
    using type t by (simp add: unlink_check_def Let_def del: upt_rec_numeral)
  also have "\<dots> \<longleftrightarrow> first_block_empty s q"
    unfolding first_block_empty_def list_ex_iff set_upt by (auto simp: block_entries_nth)
  finally show ?thesis using False by simp
qed

lemma unlink_server_refines:
  assumes "lfs_inv s" "fs_of s p = Some (ADir d)" "name \<noteq> str_DNE" "junk_fits u"
    "unlink_server u (int p) name s = (rc, t)"
  shows "d name = None \<Longrightarrow> rc = 0 \<and> same_image s t"
    "\<lbrakk>d name = Some (int q); name \<in> fst ` set (block_entries (data_of s p 0)); live s q; p \<noteq> q\<rbrakk> \<Longrightarrow>
       (if is_file s q \<or> first_block_empty s q then rc = 0 \<and> lfs_inv t \<and> fs_of t = a_unlink p name q (fs_of s)
        else rc = -1 \<and> same_image s t)"
    "\<lbrakk>d name = Some (int q); name \<notin> fst ` set (block_entries (data_of s p 0))\<rbrakk> \<Longrightarrow>
       rc = 0 \<and> lfs_inv t \<and> fs_of t = (fs_of s)(q := None)"
proof -
  have dir: "is_dir s p" using assms(2) abs_dir_iff by blast
  have d: "d name = map_of (dir_entries s p) name"
    using abs_dir_name[OF assms(2,3)] .
  note cases = unlink_server_cases[OF assms(1) dir assms(4,3)]
  show "rc = 0 \<and> same_image s t" if "d name = None"
    using that assms(5) d by (cases rule: cases) auto
  have block: "name \<in> fst ` set (block_entries (data_of s p 0))" if "dir_entries s p ! j = (name, v)" "j < 128" for j v
  proof -
    have "block_entries (data_of s p 0) ! j = (name, v)"
      using that dir_entries_split[OF first_used[OF assms(1) dir]] by (simp add: nth_append del: upt_rec_numeral)
    then show ?thesis using that(2) by (metis fst_conv imageI length_block_entries nth_mem)
  qed
  show "if is_file s q \<or> first_block_empty s q then rc = 0 \<and> lfs_inv t \<and> fs_of t = a_unlink p name q (fs_of s)
        else rc = -1 \<and> same_image s t"
    if q: "d name = Some (int q)" "name \<in> fst ` set (block_entries (data_of s p 0))" "live s q" "p \<noteq> q"
  proof (cases rule: cases)
    case (2 q' j node r)
    have q': "q' = q" using 2(1) q(1) d by simp
    have img: "lfs_inv r" "live r q" "inode_of r q = inode_of s q" using assms(1) q(3) 2(4) by (simp_all add: same_image_views)
    obtain r1 where r1: "find_inode (int q) (junk_child u) r = (0, inode_of s q, r1)" "same_image r r1"
      using find_inode_live[OF img(1,2), of "junk_child u"] assms(4) img(3) by (auto simp: junk_fits_def)
    have img1: "same_image s r1" using same_image_trans[OF 2(4) r1(2)] .
    have chk: "fst (unlink_check u node r1) \<longleftrightarrow> is_file s q \<or> first_block_empty s q"
      using unlink_check_live[of r1 q u] assms(1,4) q(3) img1 2(5) r1(1)
      by (simp add: q' same_image_views first_block_empty_def)
    have img2: "same_image s (snd (unlink_check u node r1))"
      using same_image_trans[OF img1 unlink_check_image] .
    have res: "unlink_server u (int p) name s =
        (if fst (unlink_check u node r1) then (0, unlink_result q (unlink_writes s p (Some j)) (snd (unlink_check u node r1)))
         else (-1, snd (unlink_check u node r1)))"
      using 2(6) r1(1) by (simp add: q' split_beta Let_def)
    show ?thesis
      using res assms(5) chk img2 unlink_inv[OF 2(7)[unfolded q'] img2] abs_unlink[OF 2(7)[unfolded q'] img2 q(4) 2(2)[unfolded q'] assms(3)]
      by (auto split: if_splits)
  qed (use q d in auto)
  show "rc = 0 \<and> lfs_inv t \<and> fs_of t = (fs_of s)(q := None)"
    if q: "d name = Some (int q)" "name \<notin> fst ` set (block_entries (data_of s p 0))"
  proof (cases rule: cases)
    case (3 q' r)
    have q': "q' = q" using 3(1) q(1) d by simp
    have t: "rc = 0" "t = unlink_result q (unlink_writes s p None) r"
      using 3(4) assms(5) by (simp_all add: q' unlink_writes_def)
    note c = 3(5)[unfolded q']
    have "fs_of t = (fs_of s)(q := None)"
    proof (rule abs_eqI[where X = "{q}"])
      show "agree s t i" if "i \<notin> {q}" "live s i" for i using unlink_untouched[OF c 3(3)] that by (simp add: t)
      show "live s i" if "i \<notin> {q}" "live t i" for i using that by (simp add: t live_def unlink_post(1)[OF c 3(3)])
      have "\<not> live t q"
        using c by (simp add: t live_def unlink_post(1)[OF c 3(3)] unlink_pre_def lfs_inv_def)
      then show "fs_of t i = ((fs_of s)(q := None)) i" if "i \<in> {q}" for i using that by (simp add: abs_dead)
    qed simp
    with t unlink_inv[OF c 3(3)] show ?thesis by simp
  qed (use q d block in auto)
qed

section \<open>The interface\<close>

definition lookup_call :: "lfs \<Rightarrow> nat \<Rightarrow> byte list \<Rightarrow> int \<Rightarrow> lfs \<Rightarrow> bool" where
  "lookup_call s p name rc t \<longleftrightarrow> (\<exists>u. junk_fits u \<and> lookup_server u (int p) name s = (rc, t))"

definition creat_call :: "lfs \<Rightarrow> nat \<Rightarrow> int \<Rightarrow> byte list \<Rightarrow> int \<Rightarrow> lfs \<Rightarrow> bool" where
  "creat_call s p type name rc t \<longleftrightarrow> (\<exists>u. junk_fits u \<and> creat_server u (int p) type name s = (rc, t))"

definition write_call :: "lfs \<Rightarrow> nat \<Rightarrow> byte list \<Rightarrow> nat \<Rightarrow> int \<Rightarrow> lfs \<Rightarrow> bool" where
  "write_call s i b k rc t \<longleftrightarrow> (\<exists>u. junk_fits u \<and> write_server u (int i) b (int k) s = (rc, t))"

definition read_call :: "lfs \<Rightarrow> nat \<Rightarrow> nat \<Rightarrow> int \<Rightarrow> byte list \<Rightarrow> lfs \<Rightarrow> bool" where
  "read_call s i k rc got t \<longleftrightarrow>
     (\<exists>u buffer. junk_fits u \<and> length buffer = BLOCKSIZE \<and> read_server u (int i) buffer (int k) s = (rc, got, t))"

interpretation lfs_service: file_service lfs_inv fs_of free_blocks lookup_call creat_call write_call read_call
proof
  show "lfs_inv t \<and> fs_of t = fs_of s \<and> free_blocks t = free_blocks s \<and> rc = (case d name of None \<Rightarrow> -1 | Some v \<Rightarrow> v)"
    if "lfs_inv s" "fs_of s p = Some (ADir d)" "name \<noteq> str_DNE" "lookup_call s p name rc t" for s p d name rc t
    using that lookup_server_refines[OF that(1-3)] abs_same_image[of s t] free_blocks_same[of s t] same_image_lfs_inv[of s t]
    by (auto simp: lookup_call_def)
  show "lfs_inv t \<and> free_blocks s - 3 \<le> free_blocks t \<and>
      (if d name \<noteq> None then rc = 0 \<and> fs_of t = fs_of s
       else (rc = -1 \<and> fs_of t = fs_of s) \<or> (rc = 0 \<and> (\<exists>q. fs_of s q = None \<and> fs_of t = a_creat p type name q (fs_of s))))"
    if "lfs_inv s" "fs_of s p = Some (ADir d)" "name_ok name" "name \<noteq> str_DNE"
      "type \<in> {MFS_DIRECTORY, MFS_REGULAR_FILE}" "3 \<le> free_blocks s" "creat_call s p type name rc t" for s p d name type rc t
  proof -
    from that(7) have "\<exists>u. junk_fits u \<and> creat_server u (int p) type name s = (rc, t)" by (simp only: creat_call_def)
    with creat_server_refines[OF that(1-6)] have r: "lfs_inv t" "free_blocks s - 3 \<le> free_blocks t"
      "d name \<noteq> None \<Longrightarrow> rc = 0 \<and> same_image s t"
      "d name = None \<Longrightarrow> (rc = -1 \<and> same_image s t) \<or>
        (rc = 0 \<and> (\<exists>q. fs_of s q = None \<and> fs_of t = a_creat p type name q (fs_of s)))" by blast+
    show ?thesis
      using r abs_same_image[of s t] by (cases "d name = None") (simp_all, blast)
  qed
  show "lfs_inv t \<and> free_blocks s - 1 \<le> free_blocks t \<and> rc = 0 \<and> fs_of t = a_write i k b (fs_of s)"
    if "lfs_inv s" "fs_of s i = Some (AFile f)" "k < 14" "length b = BLOCKSIZE" "1 \<le> free_blocks s" "write_call s i b k rc t"
    for s i f k b rc t
    using that(6) write_server_refines[OF that(1-5)] by (fastforce simp: write_call_def)
  show "lfs_inv t \<and> fs_of t = fs_of s \<and> free_blocks t = free_blocks s \<and> rc = 0 \<and> got = b"
    if "lfs_inv s" "fs_of s i = Some (AFile f)" "f k = Some b" "read_call s i k rc got t" for s i f k b rc got t
  proof -
    from that(4) have "\<exists>u buffer. junk_fits u \<and> length buffer \<le> BLOCKSIZE \<and> read_server u (int i) buffer (int k) s = (rc, got, t)"
      unfolding read_call_def by (metis order_refl)
    with read_server_refines[OF that(1-3)] have "same_image s t" "rc = 0" "got = b" by blast+
    with that(1) show ?thesis by (simp add: abs_same_image free_blocks_same same_image_views)
  qed
qed

end
