(* ===== verification/Mfs_Protocol.thy ===== *)
theory Mfs_Protocol
  imports Lfs_Ops
begin

text \<open>
  The message layer: packets (\<open>mfs.h\<close>), the dispatcher of the server (\<open>listenServer.c\<close>), the
  retransmission loop of the client (\<open>sendPacket.c\<close>) and the client library (\<open>mfs.c\<close>).

  The socket calls (\<open>udp.c\<close>, \<open>select\<close>) are the operating system's; what they do is a parameter: whether the
  socket can be opened and the host be found, and for each round of the loop of \<open>sendPacket\<close> whether the
  request reaches the server and whether the answer arrives before the timeout. A client whose rounds are
  used up without an answer is still waiting (\<open>None\<close>). A message arrives in its own round or is lost: answers that come after the
  timeout, requests that are delayed past a later one, and an error of \<open>select\<close> are not covered.
\<close>

section \<open>Packets\<close>

datatype mfs_method = INIT | LOOKUP | STAT | WRITE | READ | CREAT | UNLINK | SHUTDOWN | RESPONSE

record packet =
  pk_method :: mfs_method
  pk_stat :: mfs_stat
  pk_inum :: int
  pk_type :: int
  pk_block :: int
  pk_name :: "byte list"
  pk_buffer :: "byte list"

text \<open>The C string at \<open>sentPacket.name\<close>; without a terminator in the 28 bytes it runs on into the buffer.\<close>

definition packet_name :: "packet \<Rightarrow> byte list" where
  "packet_name p = cstr (pk_name p @ pk_buffer p)"

section \<open>The server\<close>

text \<open>One message: \<open>response\<close> is the uninitialised packet of the loop body.\<close>

definition serve :: "junk \<Rightarrow> packet \<Rightarrow> packet \<Rightarrow> lfs \<Rightarrow> packet \<times> lfs" where
  "serve u response p s =
     (let (r, s1) =
        (case pk_method p of
           LOOKUP \<Rightarrow> (let (rc, s1) = lookup_server u (pk_inum p) (packet_name p) s in (response\<lparr>pk_inum := rc\<rparr>, s1))
         | STAT \<Rightarrow> (let (rc, m, s1) = stat_server u (pk_inum p) (pk_stat response) s
                    in (response\<lparr>pk_stat := m, pk_inum := rc\<rparr>, s1))
         | WRITE \<Rightarrow> (let (rc, s1) = write_server u (pk_inum p) (pk_buffer p) (pk_block p) s
                     in (response\<lparr>pk_inum := rc\<rparr>, s1))
         | READ \<Rightarrow> (let (rc, b, s1) = read_server u (pk_inum p) (pk_buffer response) (pk_block p) s
                    in (response\<lparr>pk_buffer := b, pk_inum := rc\<rparr>, s1))
         | CREAT \<Rightarrow> (let (rc, s1) = creat_server u (pk_inum p) (pk_type p) (packet_name p) s
                     in (response\<lparr>pk_inum := rc\<rparr>, s1))
         | UNLINK \<Rightarrow> (let (rc, s1) = unlink_server u (pk_inum p) (packet_name p) s in (response\<lparr>pk_inum := rc\<rparr>, s1))
         | _ \<Rightarrow> (response, s))
      in (r\<lparr>pk_method := RESPONSE\<rparr>, s1))"

text \<open>The process: \<open>shutdown_server\<close> syncs the image and exits.\<close>

datatype server = Up lfs | Down "byte list"

definition shutdown_server :: "lfs \<Rightarrow> server" where
  "shutdown_server s = Down (bytes s)"

text \<open>The body of the loop of \<open>listenOnServer\<close>, from a message that was read to the answer that is sent.\<close>

fun handle :: "junk \<Rightarrow> packet \<Rightarrow> packet \<Rightarrow> server \<Rightarrow> packet option \<times> server" where
  "handle u response p (Up s) =
     (let (r, s1) = serve u response p s
      in (Some r, if pk_method p = SHUTDOWN then shutdown_server s1 else Up s1))"
| "handle u response p (Down b) = (None, Down b)"

text \<open>
  The loop itself, over the results of \<open>UDP_Read\<close>: a failed read (\<open>rc \<le> 0\<close>) is skipped. The list of
  answers is in the order they are sent; whether \<open>UDP_Write\<close> succeeds does not matter to the loop.
\<close>

fun listenOnServer :: "(junk \<times> packet \<times> packet option) list \<Rightarrow> server \<Rightarrow> packet list \<times> server" where
  "listenOnServer [] w = ([], w)"
| "listenOnServer ((u, response, None) # es) w = listenOnServer es w"
| "listenOnServer ((u, response, Some p) # es) w =
     (let (r, w1) = handle u response p w;
          (rs, w2) = listenOnServer es w1
      in (case r of None \<Rightarrow> rs | Some x \<Rightarrow> x # rs, w2))"

section \<open>The client\<close>

record round =
  delivered :: bool
  answered :: bool
  rnd_junk :: junk
  rnd_response :: packet

primrec send_rounds :: "round list \<Rightarrow> packet \<Rightarrow> server \<Rightarrow> (int \<times> packet \<times> server) option" where
  "send_rounds [] sent w = None"
| "send_rounds (r # rs) sent w =
     (let (reply, w1) = (if delivered r then handle (rnd_junk r) (rnd_response r) sent w else (None, w))
      in (case reply of
            Some p \<Rightarrow> if answered r then Some (0, p, w1) else send_rounds rs sent w1
          | None \<Rightarrow> send_rounds rs sent w1))"

record network =
  opened :: int       \<comment> \<open>\<open>UDP_Open(0)\<close>\<close>
  filled :: int       \<comment> \<open>\<open>UDP_FillSockAddr\<close>\<close>
  rounds :: "round list"

definition sendPacket :: "network \<Rightarrow> packet \<Rightarrow> packet \<Rightarrow> server \<Rightarrow> (int \<times> packet \<times> server) option" where
  "sendPacket net sent response w =
     (if opened net < 0 then Some (-1, response, w)
      else if filled net < 0 then Some (-1, response, w)
      else send_rounds (rounds net) sent w)"

record client =
  init_done :: bool
  server_name :: "byte list"
  server_port :: int

definition length_check :: "byte list \<Rightarrow> int" where
  "length_check name = (if length name > 27 then -1 else 0)"

definition MFS_Init :: "byte list option \<Rightarrow> int \<Rightarrow> client \<Rightarrow> int \<times> client" where
  "MFS_Init hostname port c =
     (case hostname of
        None \<Rightarrow> (-1, c)
      | Some h \<Rightarrow> if port < 0 then (-1, c)
                  else (0, c\<lparr>server_name := h, server_port := port, init_done := True\<rparr>))"

text \<open>\<open>send\<close> is the uninitialised packet on the client's stack, \<open>receive\<close> the one for the answer.\<close>

definition MFS_Lookup :: "client \<Rightarrow> network \<Rightarrow> packet \<Rightarrow> packet \<Rightarrow> int \<Rightarrow> byte list \<Rightarrow> server \<Rightarrow> (int \<times> server) option" where
  "MFS_Lookup c net send receive pinum name w =
     (if \<not> init_done c then Some (-1, w)
      else if length_check name < 0 then Some (-1, w)
      else let p = send\<lparr>pk_inum := pinum, pk_name := strcpy_at 0 name (pk_name send), pk_method := LOOKUP\<rparr>
           in map_option (\<lambda>(rc, r, w1). (if rc < 0 then -1 else pk_inum r, w1)) (sendPacket net p receive w))"

definition MFS_Stat :: "client \<Rightarrow> network \<Rightarrow> packet \<Rightarrow> packet \<Rightarrow> int \<Rightarrow> mfs_stat \<Rightarrow> server \<Rightarrow> (int \<times> mfs_stat \<times> server) option" where
  "MFS_Stat c net send receive inum m w =
     (if \<not> init_done c then Some (-1, m, w)
      else let p = send\<lparr>pk_inum := inum, pk_method := STAT\<rparr>
           in map_option (\<lambda>(rc, r, w1).
                if rc < 0 then (-1, m, w1) else if pk_inum r < 0 then (-1, m, w1) else (pk_inum r, pk_stat r, w1))
              (sendPacket net p receive w))"

definition MFS_Write :: "client \<Rightarrow> network \<Rightarrow> packet \<Rightarrow> packet \<Rightarrow> int \<Rightarrow> byte list \<Rightarrow> int \<Rightarrow> server \<Rightarrow> (int \<times> server) option" where
  "MFS_Write c net send receive inum buffer block w =
     (if \<not> init_done c then Some (-1, w)
      else let p = send\<lparr>pk_method := WRITE, pk_inum := inum, pk_buffer := take 4096 buffer, pk_block := block\<rparr>
           in map_option (\<lambda>(rc, r, w1). (if rc < 0 then -1 else pk_inum r, w1)) (sendPacket net p receive w))"

definition MFS_Read :: "client \<Rightarrow> network \<Rightarrow> packet \<Rightarrow> packet \<Rightarrow> int \<Rightarrow> byte list \<Rightarrow> int \<Rightarrow> server \<Rightarrow> (int \<times> byte list \<times> server) option" where
  "MFS_Read c net send receive inum buffer block w =
     (if \<not> init_done c then Some (-1, buffer, w)
      else let p = send\<lparr>pk_method := READ, pk_inum := inum, pk_block := block\<rparr>
           in map_option (\<lambda>(rc, r, w1).
                if rc < 0 then (-1, buffer, w1)
                else (pk_inum r, if pk_inum r > -1 then overlay (take 4096 (pk_buffer r)) buffer else buffer, w1))
              (sendPacket net p receive w))"

definition MFS_Creat :: "client \<Rightarrow> network \<Rightarrow> packet \<Rightarrow> packet \<Rightarrow> int \<Rightarrow> int \<Rightarrow> byte list \<Rightarrow> server \<Rightarrow> (int \<times> server) option" where
  "MFS_Creat c net send receive pinum type name w =
     (if \<not> init_done c then Some (-1, w)
      else if length_check name < 0 then Some (-1, w)
      else let p = send\<lparr>pk_inum := pinum, pk_type := type, pk_method := CREAT,
                        pk_name := strcpy_at 0 name (pk_name send)\<rparr>
           in map_option (\<lambda>(rc, r, w1). (if rc < 0 then -1 else pk_inum r, w1)) (sendPacket net p receive w))"

definition MFS_Unlink :: "client \<Rightarrow> network \<Rightarrow> packet \<Rightarrow> packet \<Rightarrow> int \<Rightarrow> byte list \<Rightarrow> server \<Rightarrow> (int \<times> server) option" where
  "MFS_Unlink c net send receive pinum name w =
     (if \<not> init_done c then Some (-1, w)
      else if length_check name < 0 then Some (-1, w)
      else let p = send\<lparr>pk_method := UNLINK, pk_inum := pinum, pk_name := strcpy_at 0 name (pk_name send)\<rparr>
           in map_option (\<lambda>(rc, r, w1). (if rc < 0 then -1 else pk_inum r, w1)) (sendPacket net p receive w))"

definition MFS_Shutdown :: "client \<Rightarrow> network \<Rightarrow> packet \<Rightarrow> packet \<Rightarrow> server \<Rightarrow> (int \<times> server) option" where
  "MFS_Shutdown c net send receive w =
     (if \<not> init_done c then Some (-1, w)
      else map_option (\<lambda>(rc, r, w1). (if rc < 0 then -1 else 0, w1)) (sendPacket net (send\<lparr>pk_method := SHUTDOWN\<rparr>) receive w))"

end
