(* ===== verification/Mfs_Client.thy ===== *)
theory Mfs_Client
  imports Mfs_Protocol
begin

text \<open>
  What the client library promises over a network that loses requests and answers. The loop of
  \<open>sendPacket\<close> sends the request again until an answer arrives, so the server may execute it several times;
  each operation is shown to have the effect of a single execution, whatever is lost.
\<close>

section \<open>The retransmission loop\<close>

lemma send_rounds_answered:
  assumes step: "\<And>r n w. r \<in> set rs \<Longrightarrow> pre (Suc n) w \<Longrightarrow>
      \<exists>p w1. handle (rnd_junk r) (rnd_response r) sent w = (Some p, w1) \<and> post n p w1"
    and again: "\<And>n p w. post n p w \<Longrightarrow> pre n w" and weaken: "\<And>n w. pre (Suc n) w \<Longrightarrow> pre n w"
    and "pre (length rs) w"
  shows "(\<exists>r \<in> set rs. delivered r \<and> answered r) \<Longrightarrow> send_rounds rs sent w \<noteq> None"
    and "send_rounds rs sent w = Some (rc, p, w1) \<Longrightarrow> rc = 0 \<and> (\<exists>n. post n p w1)"
proof -
  have "((\<exists>r \<in> set rs. delivered r \<and> answered r) \<longrightarrow> send_rounds rs sent w \<noteq> None) \<and>
      (send_rounds rs sent w = Some (rc, p, w1) \<longrightarrow> rc = 0 \<and> (\<exists>n. post n p w1))"
    using step assms(4)
  proof (induction rs arbitrary: w)
    case (Cons r rs)
    show ?case
    proof (cases "delivered r")
      case True
      obtain p1 w2 where h: "handle (rnd_junk r) (rnd_response r) sent w = (Some p1, w2)" "post (length rs) p1 w2"
        using Cons.prems(1)[of r "length rs" w] Cons.prems(2) by auto
      have "((\<exists>r \<in> set rs. delivered r \<and> answered r) \<longrightarrow> send_rounds rs sent w2 \<noteq> None) \<and>
        (send_rounds rs sent w2 = Some (rc, p, w1) \<longrightarrow> rc = 0 \<and> (\<exists>n. post n p w1))"
        by (rule Cons.IH) (use Cons.prems(1) again[OF h(2)] in auto)
      with True h show ?thesis by auto
    next
      case False
      have "((\<exists>r \<in> set rs. delivered r \<and> answered r) \<longrightarrow> send_rounds rs sent w \<noteq> None) \<and>
        (send_rounds rs sent w = Some (rc, p, w1) \<longrightarrow> rc = 0 \<and> (\<exists>n. post n p w1))"
        by (rule Cons.IH) (use Cons.prems weaken in auto)
      with False show ?thesis by auto
    qed
  qed simp
  then show "(\<exists>r \<in> set rs. delivered r \<and> answered r) \<Longrightarrow> send_rounds rs sent w \<noteq> None"
    "send_rounds rs sent w = Some (rc, p, w1) \<Longrightarrow> rc = 0 \<and> (\<exists>n. post n p w1)" by blast+
qed

text \<open>What the C types say of the packets on the stacks.\<close>

definition packet_fits :: "packet \<Rightarrow> bool" where
  "packet_fits p \<longleftrightarrow> length (pk_name p) = 28 \<and> length (pk_buffer p) = BLOCKSIZE"

definition network_ok :: "network \<Rightarrow> bool" where
  "network_ok net \<longleftrightarrow> 0 \<le> opened net \<and> 0 \<le> filled net \<and>
     (\<forall>r \<in> set (rounds net). junk_fits (rnd_junk r) \<and> packet_fits (rnd_response r))"

definition reachable_server :: "network \<Rightarrow> bool" where
  "reachable_server net \<longleftrightarrow> (\<exists>r \<in> set (rounds net). delivered r \<and> answered r)"

lemma network_okD:
  assumes "network_ok net"
  shows "sendPacket net sent receive w = send_rounds (rounds net) sent w"
    "r \<in> set (rounds net) \<Longrightarrow> junk_fits (rnd_junk r)" "r \<in> set (rounds net) \<Longrightarrow> packet_fits (rnd_response r)"
  using assms by (auto simp: network_ok_def sendPacket_def)

lemma packet_name_sent:
  assumes "packet_fits p" "name_ok name"
  shows "cstr (strcpy_at 0 name (pk_name p) @ bs) = name"
  using assms by (simp add: strcpy_at_def poke_def name_ok_def packet_fits_def)

lemma length_check_ok: "name_ok name \<Longrightarrow> length_check name = 0"
  by (simp add: length_check_def name_ok_def)

section \<open>Each request, executed at least once\<close>

lemma network_rounds:
  assumes net: "network_ok net" and init: "pre (length (rounds net)) w"
    and step: "\<And>u response n w. junk_fits u \<Longrightarrow> packet_fits response \<Longrightarrow> pre (Suc n) w \<Longrightarrow>
      \<exists>p w1. handle u response sent w = (Some p, w1) \<and> post n p w1"
    and again: "\<And>n p w. post n p w \<Longrightarrow> pre n w" and weaken: "\<And>n w. pre (Suc n) w \<Longrightarrow> pre n w"
  shows "reachable_server net \<Longrightarrow> \<exists>p w1. sendPacket net sent receive w = Some (0, p, w1)"
    and "sendPacket net sent receive w = Some (rc, p, w1) \<Longrightarrow> rc = 0 \<and> (\<exists>n. post n p w1)"
proof -
  have st: "\<exists>p w1. handle (rnd_junk r) (rnd_response r) sent w = (Some p, w1) \<and> post n p w1"
    if "r \<in> set (rounds net)" "pre (Suc n) w" for r n w
    using step[OF network_okD(2,3)[OF net that(1)] that(2)] .
  have result: "rc = 0 \<and> (\<exists>n. post n p w1)" if "send_rounds (rounds net) sent w = Some (rc, p, w1)" for rc p w1
    by (rule send_rounds_answered(2)[where pre = pre and post = post, OF _ _ _ _ that])
      (use st again weaken init in blast)+
  then show "sendPacket net sent receive w = Some (rc, p, w1) \<Longrightarrow> rc = 0 \<and> (\<exists>n. post n p w1)"
    by (simp add: network_okD(1)[OF net])
  have "send_rounds (rounds net) sent w \<noteq> None" if "reachable_server net"
    by (rule send_rounds_answered(1)[where pre = pre and post = post])
      (use st again weaken init that[unfolded reachable_server_def] in blast)+
  with result show "reachable_server net \<Longrightarrow> \<exists>p w1. sendPacket net sent receive w = Some (0, p, w1)"
    by (fastforce simp: network_okD(1)[OF net])
qed

text \<open>A request that leaves the image alone.\<close>

lemma reading_rounds:
  assumes net: "network_ok net" and s: "lfs_inv s"
    and one: "\<And>u response t. junk_fits u \<Longrightarrow> packet_fits response \<Longrightarrow> same_image s t \<Longrightarrow> lfs_inv t \<Longrightarrow>
      \<exists>p t1. handle u response sent (Up t) = (Some p, Up t1) \<and> same_image t t1 \<and> R p"
  shows "reachable_server net \<Longrightarrow> \<exists>p w1. sendPacket net sent receive (Up s) = Some (0, p, w1)"
    and "sendPacket net sent receive (Up s) = Some (rc, p, w) \<Longrightarrow> rc = 0 \<and> R p \<and> (\<exists>t. w = Up t \<and> same_image s t)"
proof -
  define pre where "pre = (\<lambda>(n::nat) w. \<exists>t. w = Up t \<and> same_image s t)"
  define post where "post = (\<lambda>(n::nat) p w. R p \<and> (\<exists>t. w = Up t \<and> same_image s t))"
  have init: "pre (length (rounds net)) (Up s)" by (simp add: pre_def)
  have step: "\<exists>p w1. handle u response sent w = (Some p, w1) \<and> post n p w1"
    if "junk_fits u" "packet_fits response" "pre (Suc n) w" for u response n w
  proof -
    from that(3) obtain t where t: "w = Up t" "same_image s t" by (auto simp: pre_def)
    then have "lfs_inv t" using s by (simp add: same_image_views)
    from one[OF that(1,2) t(2) this] t show ?thesis by (auto simp: post_def intro: same_image_trans)
  qed
  have again: "post n r w \<Longrightarrow> pre n w" "pre (Suc n) w \<Longrightarrow> pre n w" for n r w
    by (auto simp: pre_def post_def)
  show "reachable_server net \<Longrightarrow> \<exists>p w1. sendPacket net sent receive (Up s) = Some (0, p, w1)"
    by (rule network_rounds(1)[where pre = pre and post = post, OF net init]) (use step again in blast)+
  have "rc = 0 \<and> (\<exists>n. post n p w)" if "sendPacket net sent receive (Up s) = Some (rc, p, w)"
    by (rule network_rounds(2)[where pre = pre and post = post, OF net init]) (use step again that in blast)+
  then show "sendPacket net sent receive (Up s) = Some (rc, p, w) \<Longrightarrow> rc = 0 \<and> R p \<and> (\<exists>t. w = Up t \<and> same_image s t)"
    by (auto simp: post_def)
qed

lemma lookup_once:
  assumes s: "lfs_inv t" "fs_of t p = Some (ADir d)" "name \<noteq> str_DNE" and u: "junk_fits u"
    and req: "pk_method sent = LOOKUP" "pk_inum sent = int p" "packet_name sent = name"
  shows "\<exists>r t1. handle u response sent (Up t) = (Some r, Up t1) \<and> same_image t t1 \<and>
     pk_inum r = (case d name of None \<Rightarrow> -1 | Some v \<Rightarrow> v)"
proof -
  obtain rc t1 where call: "lookup_server u (int p) name t = (rc, t1)" by fastforce
  note ref = lookup_server_refines[OF s u call]
  show ?thesis using call req ref by (simp add: serve_def)
qed

lemma read_once:
  assumes s: "lfs_inv t" "fs_of t i = Some (AFile f)" "f k = Some b" and u: "junk_fits u" "packet_fits response"
    and req: "pk_method sent = READ" "pk_inum sent = int i" "pk_block sent = int k"
  shows "\<exists>r t1. handle u response sent (Up t) = (Some r, Up t1) \<and> same_image t t1 \<and> pk_inum r = 0 \<and> pk_buffer r = b"
proof -
  obtain rc got t1 where call: "read_server u (int i) (pk_buffer response) (int k) t = (rc, got, t1)"
    using prod_cases3 by blast
  have "length (pk_buffer response) \<le> BLOCKSIZE" using u(2) by (simp add: packet_fits_def)
  note ref = read_server_refines[OF s this u(1) call]
  show ?thesis using call req ref by (simp add: serve_def)
qed

lemma write_once:
  assumes s: "lfs_inv t" "fs_of t i = Some (AFile f)" "k < 14" "1 \<le> free_blocks t" and u: "junk_fits u"
    and req: "pk_method sent = WRITE" "pk_inum sent = int i" "pk_block sent = int k" "pk_buffer sent = b" "length b = BLOCKSIZE"
  shows "\<exists>r t1. handle u response sent (Up t) = (Some r, Up t1) \<and> lfs_inv t1 \<and> pk_inum r = 0 \<and>
     fs_of t1 = a_write i k b (fs_of t) \<and> free_blocks t1 = free_blocks t - 1"
proof -
  obtain rc t1 where call: "write_server u (int i) b (int k) t = (rc, t1)" by fastforce
  note ref = write_server_refines[OF s(1-3) req(5) s(4) u call]
  show ?thesis using call req ref by (simp add: serve_def)
qed

lemma creat_once:
  assumes s: "lfs_inv t" "fs_of t p = Some (ADir d)" "name_ok name" "name \<noteq> str_DNE"
      "type \<in> {MFS_DIRECTORY, MFS_REGULAR_FILE}" "3 \<le> free_blocks t" and u: "junk_fits u"
    and req: "pk_method sent = CREAT" "pk_inum sent = int p" "pk_type sent = type" "packet_name sent = name"
    and space: "d name \<noteq> None \<or> (\<not> (\<forall>i < MAXINODES. live t i) \<and> \<not> (\<forall>k < 14. used (inode_of t p) k))"
  shows "\<exists>r t1. handle u response sent (Up t) = (Some r, Up t1) \<and> lfs_inv t1 \<and> pk_inum r = 0 \<and>
     free_blocks t - 3 \<le> free_blocks t1 \<and>
     (if d name \<noteq> None then fs_of t1 = fs_of t else \<exists>q. fs_of t q = None \<and> fs_of t1 = a_creat p type name q (fs_of t))"
proof -
  obtain rc t1 where call: "creat_server u (int p) type name t = (rc, t1)" by fastforce
  note ref = creat_server_refines[OF s u call]
  have "rc = 0 \<and> (if d name \<noteq> None then fs_of t1 = fs_of t
      else \<exists>q. fs_of t q = None \<and> fs_of t1 = a_creat p type name q (fs_of t))"
    using ref(3,4) space abs_same_image[of t t1] by (cases "d name = None") (simp_all, blast)
  with ref(1,2) call req show ?thesis by (simp add: serve_def)
qed

lemma unlink_once:
  assumes s: "lfs_inv t" "fs_of t p = Some (ADir d)" "name \<noteq> str_DNE" and u: "junk_fits u"
    and req: "pk_method sent = UNLINK" "pk_inum sent = int p" "packet_name sent = name"
    and what: "d name = None \<or> (d name = Some (int q) \<and> name \<in> fst ` set (block_entries (data_of t p 0)) \<and>
       live t q \<and> p \<noteq> q \<and> (is_file t q \<or> first_block_empty t q))"
  shows "\<exists>r t1. handle u response sent (Up t) = (Some r, Up t1) \<and> lfs_inv t1 \<and> pk_inum r = 0 \<and>
     (if d name = None then fs_of t1 = fs_of t else fs_of t1 = a_unlink p name q (fs_of t))"
proof -
  obtain rc t1 where call: "unlink_server u (int p) name t = (rc, t1)" by fastforce
  note ref = unlink_server_refines[OF s u call]
  have "rc = 0 \<and> lfs_inv t1 \<and> (if d name = None then fs_of t1 = fs_of t else fs_of t1 = a_unlink p name q (fs_of t))"
  proof (cases "d name = None")
    case True
    with ref(1) s(1) show ?thesis by (auto simp: abs_same_image same_image_lfs_inv)
  next
    case False
    with what ref(2)[of q] show ?thesis by (auto split: if_splits)
  qed
  with call req show ?thesis by (simp add: serve_def)
qed

section \<open>The client library\<close>

lemma MFS_Lookup_sound:
  assumes "init_done c" "network_ok net" "packet_fits send" "lfs_inv s" "fs_of s p = Some (ADir d)"
    "name_ok name" "name \<noteq> str_DNE"
  shows "reachable_server net \<Longrightarrow> MFS_Lookup c net send receive (int p) name (Up s) \<noteq> None"
    and "MFS_Lookup c net send receive (int p) name (Up s) = Some (rc, w) \<Longrightarrow>
      rc = (case d name of None \<Rightarrow> -1 | Some v \<Rightarrow> v) \<and> (\<exists>t. w = Up t \<and> same_image s t)"
proof -
  let ?p = "send\<lparr>pk_inum := int p, pk_name := strcpy_at 0 name (pk_name send), pk_method := LOOKUP\<rparr>"
  have name: "packet_name ?p = name" using packet_name_sent[OF assms(3,6)] by (simp add: packet_name_def)
  have call: "MFS_Lookup c net send receive (int p) name w =
      map_option (\<lambda>(rc, r, w1). (if rc < 0 then -1 else pk_inum r, w1)) (sendPacket net ?p receive w)" for w
    using assms(1,6) by (simp add: MFS_Lookup_def length_check_ok Let_def)
  have one: "\<exists>r t1. handle u response ?p (Up t) = (Some r, Up t1) \<and> same_image t t1 \<and>
      pk_inum r = (case d name of None \<Rightarrow> -1 | Some v \<Rightarrow> v)"
    if "junk_fits u" "packet_fits response" "same_image s t" "lfs_inv t" for u response t
    using that name assms(5,7) by (intro lookup_once) (simp_all add: abs_same_image)
  note loop = reading_rounds[OF assms(2,4) one, of receive]
  show "reachable_server net \<Longrightarrow> MFS_Lookup c net send receive (int p) name (Up s) \<noteq> None"
    using loop(1) by (auto simp: call)
  show "MFS_Lookup c net send receive (int p) name (Up s) = Some (rc, w) \<Longrightarrow>
      rc = (case d name of None \<Rightarrow> -1 | Some v \<Rightarrow> v) \<and> (\<exists>t. w = Up t \<and> same_image s t)"
    using loop(2) by (auto simp: call)
qed

lemma MFS_Read_sound:
  assumes "init_done c" "network_ok net" "lfs_inv s" "fs_of s i = Some (AFile f)" "f k = Some b" "length b = BLOCKSIZE"
    "length buffer = BLOCKSIZE"
  shows "reachable_server net \<Longrightarrow> MFS_Read c net send receive (int i) buffer (int k) (Up s) \<noteq> None"
    and "MFS_Read c net send receive (int i) buffer (int k) (Up s) = Some (rc, got, w) \<Longrightarrow>
      rc = 0 \<and> got = b \<and> (\<exists>t. w = Up t \<and> same_image s t)"
proof -
  let ?p = "send\<lparr>pk_method := READ, pk_inum := int i, pk_block := int k\<rparr>"
  have one: "\<exists>r t1. handle u response ?p (Up t) = (Some r, Up t1) \<and> same_image t t1 \<and> (pk_inum r = 0 \<and> pk_buffer r = b)"
    if "junk_fits u" "packet_fits response" "same_image s t" "lfs_inv t" for u response t
    using that assms(4,5) read_once[of t i f k b u response ?p] by (simp add: abs_same_image)
  note loop = reading_rounds[OF assms(2,3) one, of receive]
  have b: "overlay (take 4096 b) buffer = b" using assms(6,7) by (simp add: BLOCKSIZE_def)
  have call: "MFS_Read c net send receive (int i) buffer (int k) (Up s) =
      map_option (\<lambda>(rc, r, w1).
                if rc < 0 then (-1, buffer, w1)
                else (pk_inum r, if pk_inum r > -1 then overlay (take 4096 (pk_buffer r)) buffer else buffer, w1))
              (sendPacket net ?p receive (Up s))"
    using assms(1) by (simp add: MFS_Read_def Let_def)
  show "reachable_server net \<Longrightarrow> MFS_Read c net send receive (int i) buffer (int k) (Up s) \<noteq> None"
    using loop(1) by (auto simp: call)
  show "MFS_Read c net send receive (int i) buffer (int k) (Up s) = Some (rc, got, w) \<Longrightarrow>
      rc = 0 \<and> got = b \<and> (\<exists>t. w = Up t \<and> same_image s t)"
    using loop(2) b by (auto simp: call)
qed

lemma MFS_Write_sound:
  assumes "init_done c" "network_ok net" "lfs_inv s" "fs_of s i = Some (AFile f)" "k < 14" "length b = BLOCKSIZE"
    "int (length (rounds net)) \<le> free_blocks s"
  shows "reachable_server net \<Longrightarrow> MFS_Write c net send receive (int i) b (int k) (Up s) \<noteq> None"
    and "MFS_Write c net send receive (int i) b (int k) (Up s) = Some (rc, w) \<Longrightarrow>
      rc = 0 \<and> (\<exists>t. w = Up t \<and> lfs_inv t \<and> fs_of t = a_write i k b (fs_of s))"
proof -
  let ?p = "send\<lparr>pk_method := WRITE, pk_inum := int i, pk_buffer := take 4096 b, pk_block := int k\<rparr>"
  let ?F = "fs_of s"
  define pre where "pre = (\<lambda>n w. \<exists>t. w = Up t \<and> lfs_inv t \<and> fs_of t \<in> {?F, a_write i k b ?F} \<and> int n \<le> free_blocks t)"
  define post where "post = (\<lambda>n (r::packet) w. pk_inum r = 0 \<and> (\<exists>t. w = Up t \<and> lfs_inv t \<and> fs_of t = a_write i k b ?F \<and> int n \<le> free_blocks t))"
  have init: "pre (length (rounds net)) (Up s)" using assms by (simp add: pre_def)
  have step: "\<exists>r w1. handle u response ?p w = (Some r, w1) \<and> post n r w1"
    if "junk_fits u" "packet_fits response" "pre (Suc n) w" for u response n w
  proof -
    from that(3) obtain t where t: "w = Up t" "lfs_inv t" "fs_of t \<in> {?F, a_write i k b ?F}" "int (Suc n) \<le> free_blocks t"
      by (auto simp: pre_def)
    then obtain g where "fs_of t i = Some (AFile g)" using assms(4) by (auto simp: a_write_same)
    from write_once[OF t(2) this assms(5) _ that(1), of ?p b response] t assms(6)
    show ?thesis by (auto simp: post_def a_write_idem BLOCKSIZE_def)
  qed
  have again: "post n r w \<Longrightarrow> pre n w" "pre (Suc n) w \<Longrightarrow> pre n w" for n r w
    by (auto simp: pre_def post_def)
  have call: "MFS_Write c net send receive (int i) b (int k) (Up s) =
      map_option (\<lambda>(rc, r, w1). (if rc < 0 then -1 else pk_inum r, w1)) (sendPacket net ?p receive (Up s))"
    using assms(1) by (simp add: MFS_Write_def Let_def)
  have answer: "\<exists>r w1. sendPacket net ?p receive (Up s) = Some (0, r, w1)" if "reachable_server net"
    by (rule network_rounds(1)[where pre = pre and post = post, OF assms(2) init]) (use step again that in blast)+
  have result: "rc = 0 \<and> (\<exists>n. post n r w)" if "sendPacket net ?p receive (Up s) = Some (rc, r, w)" for rc r w
    by (rule network_rounds(2)[where pre = pre and post = post, OF assms(2) init]) (use step again that in blast)+
  show "reachable_server net \<Longrightarrow> MFS_Write c net send receive (int i) b (int k) (Up s) \<noteq> None"
    using answer by (auto simp: call)
  show "MFS_Write c net send receive (int i) b (int k) (Up s) = Some (rc, w) \<Longrightarrow>
      rc = 0 \<and> (\<exists>t. w = Up t \<and> lfs_inv t \<and> fs_of t = a_write i k b (fs_of s))"
    using result by (auto simp: call post_def)
qed

lemma MFS_Creat_sound:
  assumes "init_done c" "network_ok net" "packet_fits send" "lfs_inv s" "fs_of s p = Some (ADir d)"
    "name_ok name" "name \<noteq> str_DNE" "d name = None" "type \<in> {MFS_DIRECTORY, MFS_REGULAR_FILE}"
    "3 * int (length (rounds net)) \<le> free_blocks s"
    and space: "\<not> (\<forall>i < MAXINODES. live s i)" "\<not> (\<forall>k < 14. used (inode_of s p) k)"
  shows "reachable_server net \<Longrightarrow> MFS_Creat c net send receive (int p) type name (Up s) \<noteq> None"
    and "MFS_Creat c net send receive (int p) type name (Up s) = Some (rc, w) \<Longrightarrow>
      rc = 0 \<and> (\<exists>q t. w = Up t \<and> lfs_inv t \<and> fs_of s q = None \<and> fs_of t = a_creat p type name q (fs_of s))"
proof -
  let ?p = "send\<lparr>pk_inum := int p, pk_type := type, pk_method := CREAT, pk_name := strcpy_at 0 name (pk_name send)\<rparr>"
  define made where "made = (\<lambda>t. \<exists>q. fs_of s q = None \<and> fs_of t = a_creat p type name q (fs_of s))"
  define pre where "pre = (\<lambda>n w. \<exists>t. w = Up t \<and> lfs_inv t \<and> 3 * int n \<le> free_blocks t \<and> (same_image s t \<or> made t))"
  define post where "post = (\<lambda>n (r::packet) w. pk_inum r = 0 \<and> (\<exists>t. w = Up t \<and> lfs_inv t \<and> 3 * int n \<le> free_blocks t \<and> made t))"
  have name: "packet_name ?p = name" using packet_name_sent[OF assms(3,6)] by (simp add: packet_name_def)
  have init: "pre (length (rounds net)) (Up s)" using assms by (simp add: pre_def)
  have step: "\<exists>r w1. handle u response ?p w = (Some r, w1) \<and> post n r w1"
    if u: "junk_fits u" and "packet_fits response" "pre (Suc n) w" for u response n w
  proof -
    from that(3) obtain t where t: "w = Up t" "lfs_inv t" "3 * int (Suc n) \<le> free_blocks t" "same_image s t \<or> made t"
      by (auto simp: pre_def)
    obtain e where e: "fs_of t p = Some (ADir e)"
      "if e name = None then same_image s t else made t"
    proof (cases "same_image s t")
      case True
      with assms(5,8) show thesis by (intro that[of d]) (simp_all add: abs_same_image)
    next
      case False
      with t(4) obtain q where q: "fs_of s q = None" "fs_of t = a_creat p type name q (fs_of s)" by (auto simp: made_def)
      have "p \<noteq> q" using q(1) assms(5) by auto
      with q False t(4) show thesis by (intro that[of "d(name \<mapsto> int q)"]) (simp_all add: a_creat_def assms(5))
    qed
    have "\<exists>r t1. handle u response ?p (Up t) = (Some r, Up t1) \<and> lfs_inv t1 \<and> pk_inum r = 0 \<and>
       free_blocks t - 3 \<le> free_blocks t1 \<and>
       (if e name \<noteq> None then fs_of t1 = fs_of t else \<exists>q. fs_of t q = None \<and> fs_of t1 = a_creat p type name q (fs_of t))"
      using t(3) e(2) space name
      by (intro creat_once[OF t(2) e(1) assms(6,7,9) _ u]) (auto simp: same_image_views split: if_splits)
    with t(1,3) e(2) show ?thesis
      by (auto simp: post_def made_def abs_same_image split: if_splits)
  qed
  have again: "post n r w \<Longrightarrow> pre n w" "pre (Suc n) w \<Longrightarrow> pre n w" for n r w
    by (auto simp: pre_def post_def)
  have call: "MFS_Creat c net send receive (int p) type name (Up s) =
      map_option (\<lambda>(rc, r, w1). (if rc < 0 then -1 else pk_inum r, w1)) (sendPacket net ?p receive (Up s))"
    using assms(1,6) by (simp add: MFS_Creat_def length_check_ok Let_def)
  have answer: "\<exists>r w1. sendPacket net ?p receive (Up s) = Some (0, r, w1)" if "reachable_server net"
    by (rule network_rounds(1)[where pre = pre and post = post, OF assms(2) init]) (use step again that in blast)+
  have result: "rc = 0 \<and> (\<exists>n. post n r w)" if "sendPacket net ?p receive (Up s) = Some (rc, r, w)" for rc r w
    by (rule network_rounds(2)[where pre = pre and post = post, OF assms(2) init]) (use step again that in blast)+
  show "reachable_server net \<Longrightarrow> MFS_Creat c net send receive (int p) type name (Up s) \<noteq> None"
    using answer by (auto simp: call)
  show "MFS_Creat c net send receive (int p) type name (Up s) = Some (rc, w) \<Longrightarrow>
      rc = 0 \<and> (\<exists>q t. w = Up t \<and> lfs_inv t \<and> fs_of s q = None \<and> fs_of t = a_creat p type name q (fs_of s))"
    using result by (auto simp: call post_def made_def) blast
qed

lemma MFS_Unlink_sound:
  assumes "init_done c" "network_ok net" "packet_fits send" "lfs_inv s" "fs_of s p = Some (ADir d)"
    "name_ok name" "name \<noteq> str_DNE" "d name = Some (int q)" "name \<in> fst ` set (block_entries (data_of s p 0))"
    "live s q" "p \<noteq> q" "is_file s q \<or> first_block_empty s q"
  shows "reachable_server net \<Longrightarrow> MFS_Unlink c net send receive (int p) name (Up s) \<noteq> None"
    and "MFS_Unlink c net send receive (int p) name (Up s) = Some (rc, w) \<Longrightarrow>
      rc = 0 \<and> (\<exists>t. w = Up t \<and> lfs_inv t \<and> fs_of t = a_unlink p name q (fs_of s))"
proof -
  let ?p = "send\<lparr>pk_method := UNLINK, pk_inum := int p, pk_name := strcpy_at 0 name (pk_name send)\<rparr>"
  let ?F = "a_unlink p name q (fs_of s)"
  define pre where "pre = (\<lambda>(n::nat) w. \<exists>t. w = Up t \<and> lfs_inv t \<and> (same_image s t \<or> fs_of t = ?F))"
  define post where "post = (\<lambda>(n::nat) (r::packet) w. pk_inum r = 0 \<and> (\<exists>t. w = Up t \<and> lfs_inv t \<and> fs_of t = ?F))"
  have name: "packet_name ?p = name" using packet_name_sent[OF assms(3,6)] by (simp add: packet_name_def)
  have init: "pre (length (rounds net)) (Up s)" using assms by (simp add: pre_def)
  have step: "\<exists>r w1. handle u response ?p w = (Some r, w1) \<and> post n r w1"
    if u: "junk_fits u" and "packet_fits response" "pre (Suc n) w" for u response n w
  proof -
    from that(3) obtain t where t: "w = Up t" "lfs_inv t" "same_image s t \<or> fs_of t = ?F" by (auto simp: pre_def)
    define e where "e = (if same_image s t then d else d(name := None))"
    have e: "fs_of t p = Some (ADir e)"
      using t(3) assms(5,11) by (auto simp: e_def abs_same_image a_unlink_def)
    have "\<exists>r t1. handle u response ?p (Up t) = (Some r, Up t1) \<and> lfs_inv t1 \<and> pk_inum r = 0 \<and>
       (if e name = None then fs_of t1 = fs_of t else fs_of t1 = a_unlink p name q (fs_of t))"
      using name t(3) assms(8-12)
      by (intro unlink_once[OF t(2) e assms(7) u]) (auto simp: e_def same_image_views first_block_empty_def)
    with t(1,3) assms(8) show ?thesis
      by (auto simp: post_def e_def abs_same_image split: if_splits)
  qed
  have again: "post n r w \<Longrightarrow> pre n w" "pre (Suc n) w \<Longrightarrow> pre n w" for n r w
    by (auto simp: pre_def post_def)
  have call: "MFS_Unlink c net send receive (int p) name (Up s) =
      map_option (\<lambda>(rc, r, w1). (if rc < 0 then -1 else pk_inum r, w1)) (sendPacket net ?p receive (Up s))"
    using assms(1,6) by (simp add: MFS_Unlink_def length_check_ok Let_def)
  have answer: "\<exists>r w1. sendPacket net ?p receive (Up s) = Some (0, r, w1)" if "reachable_server net"
    by (rule network_rounds(1)[where pre = pre and post = post, OF assms(2) init]) (use step again that in blast)+
  have result: "rc = 0 \<and> (\<exists>n. post n r w)" if "sendPacket net ?p receive (Up s) = Some (rc, r, w)" for rc r w
    by (rule network_rounds(2)[where pre = pre and post = post, OF assms(2) init]) (use step again that in blast)+
  show "reachable_server net \<Longrightarrow> MFS_Unlink c net send receive (int p) name (Up s) \<noteq> None"
    using answer by (auto simp: call)
  show "MFS_Unlink c net send receive (int p) name (Up s) = Some (rc, w) \<Longrightarrow>
      rc = 0 \<and> (\<exists>t. w = Up t \<and> lfs_inv t \<and> fs_of t = a_unlink p name q (fs_of s))"
    using result by (auto simp: call post_def)
qed

section \<open>Shutdown\<close>

lemma send_rounds_down: "send_rounds rs sent (Down b) = None"
  by (induction rs) auto

lemma shutdown_rounds:
  assumes "pk_method sent = SHUTDOWN"
  shows "send_rounds rs sent (Up s) = (case dropWhile (\<lambda>r. \<not> delivered r) rs of
     [] \<Rightarrow> None
   | r # _ \<Rightarrow> if answered r then Some (0, (rnd_response r)\<lparr>pk_method := RESPONSE\<rparr>, Down (bytes s)) else None)"
  using assms by (induction rs) (simp_all add: serve_def shutdown_server_def send_rounds_down)

end
