(* ===== verification/Lfs_Runs.thy ===== *)
theory Lfs_Runs
  imports Mfs_Client
begin

text \<open>
  Runs of the server: the states it reaches from a fresh image by serving requests and by being restarted on
  its image. Every one of them satisfies the invariant, so the refinement lemmas apply to all of them.
\<close>

section \<open>The reading calls leave the image alone, whatever they are asked\<close>

lemma find_inode_image: "same_image s (snd (snd (find_inode i node s)))"
  by (simp add: find_inode_def split_beta Let_def)

lemma lookup_blocks_image: "same_image s (snd (lookup_blocks name n ks d s))"
proof (induction ks arbitrary: d s)
  case (Cons k ks)
  show ?case
    using same_image_trans[OF same_image_seek_read Cons.IH] Cons.IH[of s d]
    by (auto simp: split_beta Let_def split: option.splits)
qed simp

lemma read_dir_blocks_image: "same_image s (snd (read_dir_blocks i n ks d e s))"
proof (induction ks arbitrary: d e s)
  case (Cons k ks)
  show ?case
    using same_image_trans[OF same_image_seek_read Cons.IH] Cons.IH[of s d e] by (simp add: split_beta Let_def)
qed simp

lemma lookup_server_image:
  assumes "lookup_server u i name s = (rc, t)"
  shows "same_image s t"
proof -
  obtain r n s1 where f: "find_inode i (junk_heap u) s = (r, n, s1)" using prod_cases3 by blast
  have s1: "same_image s s1" using find_inode_image[of s i "junk_heap u"] f by simp
  then show ?thesis
    using assms f same_image_trans[OF s1 lookup_blocks_image] by (auto simp: lookup_server_def split: if_splits) (metis snd_conv)
qed

lemma stat_server_image: "stat_server u i m s = (rc, m1, t) \<Longrightarrow> same_image s t"
  using find_inode_image[of s i "junk_node u"]
  by (auto simp: stat_server_def split_beta Let_def split: if_splits)

lemma read_server_image: "read_server u i buffer b s = (rc, got, t) \<Longrightarrow> same_image s t"
  using find_inode_image[of s i "junk_node u"]
    same_image_trans[OF find_inode_image[of s i "junk_node u"] same_image_seek_read]
    same_image_trans[OF same_image_trans[OF find_inode_image[of s i "junk_node u"] find_inode_image] read_dir_blocks_image]
  by (auto simp: read_server_def split_beta Let_def split: if_splits)

section \<open>Requests\<close>

text \<open>
  The requests for which the invariant is shown: an inode number is out of range or in the map (the server
  does not check the latter), a name to be written fits an entry and is not the marker of free entries, a
  new inode has one of the two types, and the log has room. The dispatcher passes other requests on as well; for them the invariant
  need not hold afterwards.
\<close>

definition known :: "lfs \<Rightarrow> int \<Rightarrow> bool" where
  "known s i \<longleftrightarrow> i < 0 \<or> int MAXINODES \<le> i \<or> live s (nat i)"

definition request_ok :: "lfs \<Rightarrow> packet \<Rightarrow> bool" where
  "request_ok s p \<longleftrightarrow>
     (case pk_method p of
        WRITE \<Rightarrow> known s (pk_inum p) \<and> length (pk_buffer p) = BLOCKSIZE \<and> 1 \<le> free_blocks s
      | CREAT \<Rightarrow> known s (pk_inum p) \<and> name_ok (packet_name p) \<and> packet_name p \<noteq> str_DNE \<and>
          pk_type p \<in> {MFS_DIRECTORY, MFS_REGULAR_FILE} \<and> 3 \<le> free_blocks s
      | UNLINK \<Rightarrow> known s (pk_inum p) \<and> packet_name p \<noteq> str_DNE
      | _ \<Rightarrow> True)"

lemma known_cases:
  assumes "known s i"
  obtains "i < 0 \<or> int MAXINODES \<le> i" | n where "i = int n" "live s n"
  using assms unfolding known_def by (metis int_nat_eq not_less)

lemma live_kinds:
  assumes "lfs_inv s" "live s i"
  obtains "is_dir s i" "\<not> is_file s i" | "is_file s i" "\<not> is_dir s i"
  using inv_live(2)[OF assms] assms(2)
  by (auto simp: node_ok_def is_dir_def is_file_def MFS_DIRECTORY_def MFS_REGULAR_FILE_def)

lemma write_server_inv:
  assumes "lfs_inv s" "known s i" "length b = BLOCKSIZE" "1 \<le> free_blocks s" "junk_fits u"
    "write_server u i b k s = (rc, t)"
  shows "lfs_inv t"
  using assms(2)
proof (cases rule: known_cases)
  case 1
  then show ?thesis using assms(1,6) by (simp add: write_server_def find_inode_invalid)
next
  case (2 n)
  obtain t1 where t1: "find_inode i (junk_node u) s = (0, inode_of s n, t1)" "same_image s t1"
    using find_inode_live[OF assms(1) 2(2)] assms(5) 2(1) by (auto simp: junk_fits_def)
  then have inv1: "lfs_inv t1" using assms(1) by (simp add: same_image_views)
  show ?thesis
  proof (cases "is_file s n \<and> 0 \<le> k \<and> k < 14")
    case True
    then obtain m where m: "k = int m" "m < 14" by (metis int_nat_eq nat_less_iff of_nat_numeral)
    from True have "fs_of s n = Some (AFile (blocks_of s n))" by (simp add: abs_file)
    from write_server_refines(1)[OF assms(1) this m(2) assms(3-5)] assms(6) 2(1) m(1) show ?thesis by simp
  next
    case False
    with 2 t1(1) assms(6) have "t = t1" by (auto simp: write_server_def is_file_def split: if_splits)
    with inv1 show ?thesis by simp
  qed
qed

lemma creat_server_inv:
  assumes "lfs_inv s" "known s i" "name_ok name" "name \<noteq> str_DNE" "type \<in> {MFS_DIRECTORY, MFS_REGULAR_FILE}"
    "3 \<le> free_blocks s" "junk_fits u" "creat_server u i type name s = (rc, t)"
  shows "lfs_inv t"
  using assms(2)
proof (cases rule: known_cases)
  case 1
  then show ?thesis using assms(1,8) by (simp add: creat_server_def find_inode_invalid)
next
  case (2 n)
  from assms(1) 2(2) show ?thesis
  proof (cases rule: live_kinds)
    case 1
    from creat_server_refines(1)[OF assms(1) abs_dir[OF 1(1)] assms(3-7)] assms(8) 2(1) show ?thesis by simp
  next
    case b: 2
    obtain r where "creat_server u (int n) type name s = (-1, r)" "same_image s r"
      using creat_server_refused[OF assms(1) 2(2) b(2) assms(7)] .
    with assms(1,8) 2(1) show ?thesis by (simp add: same_image_views)
  qed
qed

lemma unlink_server_inv:
  assumes "lfs_inv s" "known s i" "name \<noteq> str_DNE" "junk_fits u" "unlink_server u i name s = (rc, t)"
  shows "lfs_inv t"
  using assms(2)
proof (cases rule: known_cases)
  case 1
  then show ?thesis using assms(1,5) by (simp add: unlink_server_def find_inode_invalid)
next
  case (2 n)
  from assms(1) 2(2) show ?thesis
  proof (cases rule: live_kinds)
    case a: 1
    show ?thesis
    proof (cases rule: unlink_server_cases[OF assms(1) a(1) assms(4,3)])
      case (1 r)
      with assms(1,5) 2(1) show ?thesis by (simp add: same_image_views)
    next
      case b: (2 q j node r)
      let ?r = "snd (snd (find_inode (int q) (junk_child u) r))"
      have img: "same_image s (snd (unlink_check u node ?r))"
        using same_image_trans[OF same_image_trans[OF b(4) find_inode_image] unlink_check_image] .
      have "t = unlink_result q (unlink_writes s n (Some j)) (snd (unlink_check u node ?r)) \<or> t = snd (unlink_check u node ?r)"
        using b(6) assms(5) 2(1) by (auto simp: split_beta Let_def split: if_splits)
      with unlink_inv[OF b(7) img] img assms(1) show ?thesis by (auto simp: same_image_views)
    next
      case b: (3 q r)
      with unlink_inv[OF b(5,3)] assms(5) 2(1) show ?thesis by (simp add: unlink_writes_def)
    qed
  next
    case b: 2
    obtain t1 where t1: "find_inode i (junk_node u) s = (0, inode_of s n, t1)" "same_image s t1"
      using find_inode_live[OF assms(1) 2(2)] assms(4) 2(1) by (auto simp: junk_fits_def)
    then have "t = t1" using assms(5) b(2) 2(2) by (simp add: unlink_server_def is_dir_def)
    with t1(2) assms(1) show ?thesis by (simp add: same_image_views)
  qed
qed

lemma serve_inv:
  assumes "lfs_inv s" "request_ok s p" "junk_fits u" "serve u response p s = (r, t)"
  shows "lfs_inv t"
proof -
  note image = lookup_server_image stat_server_image read_server_image
  note keeps = image[THEN same_image_lfs_inv, THEN iffD2, OF _ assms(1)]
  show ?thesis
    using assms
    by (cases "pk_method p")
      (auto simp: serve_def request_ok_def split: prod.splits
        intro: keeps write_server_inv creat_server_inv unlink_server_inv)
qed

section \<open>Reachable states\<close>

inductive lfs_run :: "lfs \<Rightarrow> bool" where
  fresh: "junk_fits u \<Longrightarrow> start_server u True None = Some s \<Longrightarrow> lfs_run s"
| request: "lfs_run s \<Longrightarrow> request_ok s p \<Longrightarrow> junk_fits u \<Longrightarrow> serve u response p s = (r, t) \<Longrightarrow> lfs_run t"
| restarted: "lfs_run s \<Longrightarrow> start_server u c (Some (bytes s)) = Some t \<Longrightarrow> lfs_run t"

lemma lfs_run_inv: "lfs_run s \<Longrightarrow> lfs_inv s"
proof (induction rule: lfs_run.induct)
  case (fresh u s)
  then show ?case using fresh_image_inv by (auto simp: start_server_fresh)
next
  case (request s p u response r t)
  then show ?case by (blast intro: serve_inv)
next
  case (restarted s u c t)
  obtain r where "start_server u c (Some (bytes s)) = Some r" "same_image s r" using restart[OF restarted.IH] .
  with restarted show ?case by (simp add: same_image_views)
qed

end
