(* ===== verification/Lfs_Example.thy ===== *)
theory Lfs_Example
  imports Lfs_Runs
begin

text \<open>
  A concrete server, used where a theorem is applied to an actual state: the image that \<open>start_server\<close> makes
  when all uninitialised memory is zero, and the same image after a file \<open>"f"\<close> has been created in the root
  directory; a client, and networks that lose some of the messages.
\<close>

definition zero_inode :: inode where
  "zero_inode = \<lparr>i_size = 0, i_type = 0, i_inum = 0, dpointers = replicate 14 0, dp_used = replicate 14 0\<rparr>"

definition zero_directory :: directory where
  "zero_directory = \<lparr>d_inums = replicate 128 0, d_names = replicate 3584 0\<rparr>"

definition zero_junk :: junk where
  "zero_junk = \<lparr>junk_node = zero_inode, junk_child = zero_inode, junk_heap = zero_inode,
     junk_direct = zero_directory, junk_block = zero_directory, junk_temp = zero_directory, junk_new = zero_directory,
     junk_dirent = replicate 32 0, junk_tail = replicate (BLOCKSIZE - sizeof_inode) 0\<rparr>"

lemma zero_junk_fits [simp]: "junk_fits zero_junk"
proof -
  have "inode_fits zero_inode" unfolding inode_fits_def zero_inode_def by (simp add: int32_def list_all_iff)
  moreover have "directory_fits zero_directory"
    unfolding directory_fits_def zero_directory_def by (simp add: int32_def list_all_iff)
  ultimately show ?thesis by (simp add: junk_fits_def zero_junk_def)
qed

definition name_f :: "byte list" where
  "name_f = [102]"

lemma name_f_ok [simp]: "name_ok name_f" "name_f \<noteq> str_DNE" "name_f \<noteq> str_dot" "name_f \<noteq> str_dotdot"
  by (simp_all add: name_f_def name_ok_def str_DNE_def str_dot_def str_dotdot_def)

definition demo0 :: lfs where
  "demo0 = fresh_image zero_junk"

definition demo1 :: lfs where
  "demo1 = snd (creat_server zero_junk 0 MFS_REGULAR_FILE name_f demo0)"

lemma demo0_facts [simp]:
  "lfs_inv demo0" "fs_of demo0 = [0 \<mapsto> ADir [str_dot \<mapsto> 0, str_dotdot \<mapsto> 0]]" "free_blocks demo0 = 2 ^ 19 - 8"
  by (simp_all add: demo0_def fresh_image_inv abs_fresh free_blocks_def fresh_image_views)

lemma demo0_run: "lfs_run demo0"
  unfolding demo0_def using zero_junk_fits start_server_fresh by (rule lfs_run.fresh)

lemma demo0_space: "\<not> (\<forall>i < MAXINODES. live demo0 i)" "\<not> (\<forall>k < 14. used (inode_of demo0 0) k)"
proof -
  have "\<not> live demo0 1" by (simp add: demo0_def fresh_live)
  moreover have "1 < MAXINODES" by (simp add: MAXINODES_def)
  ultimately show "\<not> (\<forall>i < MAXINODES. live demo0 i)" by blast
  have "\<not> used (inode_of demo0 0) 1" by (simp add: demo0_def fresh_image_views root_node_facts)
  moreover have "(1::nat) < 14" by simp
  ultimately show "\<not> (\<forall>k < 14. used (inode_of demo0 0) k)" by blast
qed

lemma demo0_creat: "creat_server zero_junk 0 MFS_REGULAR_FILE name_f demo0 = (0, demo1)"
  "lfs_inv demo1" "free_blocks demo0 - 3 \<le> free_blocks demo1"
  "\<exists>q. 0 < q \<and> fs_of demo1 = a_creat 0 MFS_REGULAR_FILE name_f q (fs_of demo0)"
proof -
  obtain rc where call: "creat_server zero_junk (int 0) MFS_REGULAR_FILE name_f demo0 = (rc, demo1)"
    by (simp add: demo1_def prod_eq_iff)
  have dir: "fs_of demo0 0 = Some (ADir [str_dot \<mapsto> 0, str_dotdot \<mapsto> 0])" by simp
  note r = creat_server_refines[OF demo0_facts(1) dir name_f_ok(1,2) _ _ zero_junk_fits call]
  show "lfs_inv demo1" "free_blocks demo0 - 3 \<le> free_blocks demo1" using r(1,2) by simp_all
  have q: "rc = 0 \<and> (\<exists>q. fs_of demo0 q = None \<and> fs_of demo1 = a_creat 0 MFS_REGULAR_FILE name_f q (fs_of demo0))"
    using r(4) demo0_space by simp
  then show "creat_server zero_junk 0 MFS_REGULAR_FILE name_f demo0 = (0, demo1)" using call by simp
  show "\<exists>q. 0 < q \<and> fs_of demo1 = a_creat 0 MFS_REGULAR_FILE name_f q (fs_of demo0)"
    using q dir by (metis gr0I option.distinct(1))
qed

lemma demo1_file:
  obtains q d where "fs_of demo1 q = Some (AFile Map.empty)" "0 < q" "fs_of demo1 0 = Some (ADir d)" "d name_f = Some (int q)"
proof -
  obtain q where q: "0 < q" "fs_of demo1 = a_creat 0 MFS_REGULAR_FILE name_f q (fs_of demo0)" using demo0_creat(4) by blast
  then have "fs_of demo1 q = Some (AFile Map.empty)"
    by (simp add: a_creat_def a_new_def MFS_DIRECTORY_def MFS_REGULAR_FILE_def)
  moreover have "fs_of demo1 0 = Some (ADir ([str_dot \<mapsto> 0, str_dotdot \<mapsto> 0, name_f \<mapsto> int q]))"
    using q by (simp add: a_creat_def)
  ultimately show thesis using q(1) by (intro that[of q "[str_dot \<mapsto> 0, str_dotdot \<mapsto> 0, name_f \<mapsto> int q]"]) simp_all
qed

lemma demo0_free: "\<not> no_free demo0 0 0"
proof -
  have "block_entries (data_of demo0 0 0) ! 2 = (str_DNE, -1)"
    by (simp add: demo0_def fresh_image_views base_block_facts nth_Cons')
  then have "d_inums (dec_directory (data_of demo0 0 0)) ! 2 = -1" by (simp add: block_entries_nth)
  moreover have "used (inode_of demo0 0) 0" by (simp add: demo0_def fresh_image_views root_node_facts)
  moreover have "(2::nat) < 128" by simp
  ultimately show ?thesis unfolding no_free_def by blast
qed

lemma demo1_first_block: "name_f \<in> fst ` set (block_entries (data_of demo1 0 0))"
proof -
  have dir: "is_dir demo0 0" using abs_dir_iff[of demo0 0] by simp
  have room: "next_block demo0 + 3 \<le> 2 ^ 19" by (simp add: demo0_def fresh_image_views)
  have call: "creat_server zero_junk (int 0) MFS_REGULAR_FILE name_f demo0 = (0, demo1)" using demo0_creat(1) by simp
  have absent: "map_of (dir_entries demo0 0) name_f = None"
    using abs_dir_name[of demo0 0 "[str_dot \<mapsto> 0, str_dotdot \<mapsto> 0]" name_f] by simp
  show ?thesis
  proof (cases rule: creat_server_cases[OF demo0_facts(1) dir zero_junk_fits name_f_ok(1), of MFS_REGULAR_FILE])
    case (5 s1 s' q k e P B)
    note pre = creat_preD[OF 5(3)]
    have "used (inode_of s1 0) l \<longleftrightarrow> l = 0" for l
      using 5(2) by (simp add: same_image_views demo0_def fresh_image_views root_node_facts)
    then have k: "k = 0" using 5(2,3) demo0_free by (auto simp: creat_pre_def no_free_same_image)
    have d: "data_of demo1 0 0 = enc_directory (put_entry e (int q) name_f B)"
      using creat_parent(3)[OF 5(3)] 5(4) call k by simp
    have dec: "dec_directory (enc_directory B) = B" using pre(12) by (simp add: codec_simps)
    have "block_entries (data_of demo1 0 0) = (block_entries (enc_directory B))[e := (name_f, int q)]"
      using put_entry_block(2)[OF pre(13,6,10), of "int q", unfolded dec] pre(4) by (simp add: d)
    then have "(name_f, int q) \<in> set (block_entries (data_of demo1 0 0))"
      using pre(10) by (simp add: set_update_memI)
    then show ?thesis by force
  qed (use call absent room in auto)
qed

definition zero_block :: "byte list" where
  "zero_block = replicate BLOCKSIZE 0"

definition ones_block :: "byte list" where
  "ones_block = replicate BLOCKSIZE 1"

lemma block_lengths [simp]: "length zero_block = BLOCKSIZE" "length ones_block = BLOCKSIZE"
  by (simp_all add: zero_block_def ones_block_def)

definition zero_packet :: packet where
  "zero_packet = \<lparr>pk_method = RESPONSE, pk_stat = \<lparr>st_type = 0, st_size = 0\<rparr>, pk_inum = 0, pk_type = 0, pk_block = 0,
     pk_name = replicate 28 0, pk_buffer = zero_block\<rparr>"

lemma zero_packet_fits [simp]: "packet_fits zero_packet"
  by (simp add: packet_fits_def zero_packet_def)

definition ready :: client where
  "ready = \<lparr>init_done = True, server_name = [104], server_port = 3000\<rparr>"

text \<open>The first request is lost, the answer to the second is lost, the third round succeeds.\<close>

definition lossy :: network where
  "lossy = \<lparr>opened = 3, filled = 0, rounds =
     [\<lparr>delivered = False, answered = False, rnd_junk = zero_junk, rnd_response = zero_packet\<rparr>,
      \<lparr>delivered = True, answered = False, rnd_junk = zero_junk, rnd_response = zero_packet\<rparr>,
      \<lparr>delivered = True, answered = True, rnd_junk = zero_junk, rnd_response = zero_packet\<rparr>]\<rparr>"

lemma lossy_ok [simp]: "network_ok lossy" "reachable_server lossy" "length (rounds lossy) = 3"
  by (simp_all add: network_ok_def reachable_server_def lossy_def)

lemma ready_init [simp]: "init_done ready"
  by (simp add: ready_def)

lemma demo0_live: "live demo0 i \<longleftrightarrow> i = 0"
  by (simp add: demo0_def fresh_live)

lemma demo1_run: "lfs_run demo1"
proof -
  let ?p = "zero_packet\<lparr>pk_method := CREAT, pk_name := name_f @ [0], pk_type := MFS_REGULAR_FILE\<rparr>"
  have name: "packet_name ?p = name_f" by (simp add: packet_name_def name_f_def cstr_def)
  have "serve zero_junk zero_packet ?p demo0 = (zero_packet, demo1)"
    using demo0_creat(1) name by (simp add: serve_def) (simp add: zero_packet_def)
  then show ?thesis
    using name by (intro lfs_run.request[OF demo0_run _ zero_junk_fits])
      (auto simp: request_ok_def known_def demo0_live zero_packet_def)
qed

lemma demo_written:
  obtains q s where "lfs_run s" "fs_of s q = Some (AFile [0 \<mapsto> ones_block])" "1 \<le> free_blocks s"
proof -
  obtain q d where q: "fs_of demo1 q = Some (AFile Map.empty)" by (rule demo1_file)
  obtain rc t where w: "write_server zero_junk (int q) ones_block (int 0) demo1 = (rc, t)" by fastforce
  have free: "2 ^ 19 - 11 \<le> free_blocks demo1" using demo0_creat(3) by simp
  note ref = write_server_refines[OF demo0_creat(2) q _ _ _ zero_junk_fits w]
  have s1: "serve zero_junk zero_packet (zero_packet\<lparr>pk_method := WRITE, pk_inum := int q, pk_buffer := ones_block\<rparr>) demo1 =
      (zero_packet\<lparr>pk_inum := rc\<rparr>, t)"
    using w by (simp add: serve_def zero_packet_def)
  have "lfs_run t"
    by (rule lfs_run.request[OF demo1_run _ zero_junk_fits s1])
      (use free q in \<open>auto simp: request_ok_def known_def zero_packet_def fs_of_def split: if_splits\<close>)
  moreover have "fs_of t q = Some (AFile [0 \<mapsto> ones_block])" using ref(3) free by (simp add: a_write_same q)
  moreover have "1 \<le> free_blocks t" using ref(4) free by simp
  ultimately show thesis by (intro that)
qed

end
