(* ===== verification/Xv6_Base.thy ===== *)
theory Xv6_Base
  imports Prelude
begin

text \<open>
  The frame for the kernel's C code: a computation takes the state and returns a value with the next state,
  stops the machine (\<open>panic\<close>), or would wait for another process (\<open>sleep\<close>) and so does not return in this state.
\<close>

datatype 'a res = Ok 'a | Panic string | Sleep

type_synonym ('s, 'a) comp = "'s \<Rightarrow> ('a \<times> 's) res"

definition ret :: "'a \<Rightarrow> ('s, 'a) comp" where
  "ret x = (\<lambda>s. Ok (x, s))"

definition andthen :: "('s, 'a) comp \<Rightarrow> ('a \<Rightarrow> ('s, 'b) comp) \<Rightarrow> ('s, 'b) comp" where
  "andthen c f = (\<lambda>s. case c s of Ok (x, t) \<Rightarrow> f x t | Panic m \<Rightarrow> Panic m | Sleep \<Rightarrow> Sleep)"

definition panic :: "string \<Rightarrow> ('s, 'a) comp" where
  "panic m = (\<lambda>s. Panic m)"

definition gets :: "('s \<Rightarrow> 'a) \<Rightarrow> ('s, 'a) comp" where
  "gets f = (\<lambda>s. Ok (f s, s))"

definition modify :: "('s \<Rightarrow> 's) \<Rightarrow> ('s, unit) comp" where
  "modify f = (\<lambda>s. Ok ((), f s))"

definition check :: "bool \<Rightarrow> string \<Rightarrow> ('s, unit) comp" where
  "check b m = (\<lambda>s. if b then Ok ((), s) else Panic m)"

lemma comp_simps [simp]:
  "ret x s = Ok (x, s)" "gets f s = Ok (f s, s)" "modify g s = Ok ((), g s)" "panic m s = Panic m"
  "check True m s = Ok ((), s)" "check False m s = Panic m"
  by (simp_all add: ret_def gets_def modify_def panic_def check_def)

lemma andthen_Ok: "c s = Ok (x, t) \<Longrightarrow> andthen c f s = f x t"
  by (simp add: andthen_def)

lemma andthen_simps [simp]:
  "andthen (ret x) f s = f x s" "andthen (gets g) e s = e (g s) s" "andthen (modify h) k s = k () (h s)"
  "andthen (panic m) l s = Panic m"
  by (simp_all add: andthen_def)

lemma andthen_check [simp]: "andthen (check b m) f s = (if b then f () s else Panic m)"
  by (simp add: andthen_def check_def)

lemma andthen_Ok_iff: "andthen c f s = Ok r \<longleftrightarrow> (\<exists>x t. c s = Ok (x, t) \<and> f x t = Ok r)"
  by (auto simp: andthen_def split: res.splits)

lemma andthenE:
  assumes "andthen c f s = Ok r"
  obtains x t where "c s = Ok (x, t)" "f x t = Ok r"
  using assms by (auto simp: andthen_Ok_iff)

lemma andthen_assoc: "andthen (andthen c f) g = andthen c (\<lambda>x. andthen (f x) g)"
  by (auto simp: andthen_def fun_eq_iff split: res.splits)

end
