(* ===== verification/Xv6_Bio.thy ===== *)
theory Xv6_Bio
  imports Xv6_Base
begin

text \<open>
  The buffer cache, \<open>xv6/kernel/bio.c\<close>, on the IDE driver, \<open>xv6/kernel/ide.c\<close>.

  The flags of a buffer are the three bits of \<open>flags\<close>. The doubly linked list through \<open>prev\<close> and \<open>next\<close> is the
  list \<open>lru\<close> of the indices of the buffers, from \<open>head.next\<close> (most recently used) to \<open>head.prev\<close>. The disk is a
  map from a drive and a sector address to 512 bytes; the driver sends the low bit of the device and the low 28
  bits of the sector. A process that waits for the disk waits for interrupts, each of which finishes the request
  at the head of \<open>idequeue\<close>; the locks of the two modules are held within one call and released before it
  returns, so a call is one step of the model.
\<close>

section \<open>State\<close>

record buf =
  b_busy :: bool
  b_valid :: bool
  b_dirty :: bool
  b_dev :: "32 word"
  b_sector :: "32 word"
  b_data :: "byte list"

record kern =
  bufs :: "buf list"
  lru :: "nat list"
  idequeue :: "nat list"
  havedisk1 :: bool
  disk :: "32 word \<Rightarrow> 32 word \<Rightarrow> byte list"
  badsector :: "32 word \<Rightarrow> 32 word \<Rightarrow> bool"  \<comment> \<open>sectors on which a read raises the error bit\<close>

definition NBUF :: nat where "NBUF = 10"
definition BSIZE :: nat where "BSIZE = 512"

definition upd_buf :: "nat \<Rightarrow> (buf \<Rightarrow> buf) \<Rightarrow> 'z kern_scheme \<Rightarrow> 'z kern_scheme" where
  "upd_buf i f s = s\<lparr>bufs := (bufs s)[i := f (bufs s ! i)]\<rparr>"

section \<open>ide.c\<close>

text \<open>What the controller is told: \<open>b->dev&1\<close> and the four pieces of the sector number.\<close>

definition ide_dev :: "buf \<Rightarrow> 32 word" where
  "ide_dev b = b_dev b AND 1"

definition ide_lba :: "buf \<Rightarrow> 32 word" where
  "ide_lba b =
     (b_sector b AND 0xff) OR push_bit 8 (drop_bit 8 (b_sector b) AND 0xff) OR
     push_bit 16 (drop_bit 16 (b_sector b) AND 0xff) OR push_bit 24 (drop_bit 24 (b_sector b) AND 0x0f)"

definition idestart :: "nat \<Rightarrow> 'z kern_scheme \<Rightarrow> 'z kern_scheme" where
  "idestart i s =
     (let b = bufs s ! i
      in if b_dirty b then s\<lparr>disk := (disk s)(ide_dev b := (disk s (ide_dev b))(ide_lba b := b_data b))\<rparr> else s)"

definition ideintr :: "'z kern_scheme \<Rightarrow> 'z kern_scheme" where
  "ideintr s =
     (case idequeue s of
        [] \<Rightarrow> s
      | i # q \<Rightarrow>
          let s1 = s\<lparr>idequeue := q\<rparr>;
              b = bufs s1 ! i;
              s2 = (if \<not> b_dirty b \<and> \<not> badsector s1 (ide_dev b) (ide_lba b)
                    then upd_buf i (\<lambda>b. b\<lparr>b_data := disk s1 (ide_dev b) (ide_lba b)\<rparr>) s1 else s1);
              s3 = upd_buf i (\<lambda>b. b\<lparr>b_valid := True, b_dirty := False\<rparr>) s2
          in (case q of [] \<Rightarrow> s3 | j # _ \<Rightarrow> idestart j s3))"

text \<open>The wait at the end of \<open>iderw\<close>: each time the process sleeps an interrupt comes in.\<close>

lemma ideintr_queue: "idequeue s \<noteq> [] \<Longrightarrow> length (idequeue (ideintr s)) < length (idequeue s)"
  by (auto simp: ideintr_def Let_def idestart_def upd_buf_def split: list.splits)

function ide_wait :: "nat \<Rightarrow> ('z kern_scheme, unit) comp" where
  "ide_wait i s =
     (if b_valid (bufs s ! i) \<and> \<not> b_dirty (bufs s ! i) then Ok ((), s)
      else if idequeue s = [] then Sleep
      else ide_wait i (ideintr s))"
  by pat_completeness auto
termination
  by (relation "measure (\<lambda>(i, s). length (idequeue s))") (auto simp: ideintr_queue)

declare ide_wait.simps [simp del]

definition iderw :: "nat \<Rightarrow> ('z kern_scheme, unit) comp" where
  "iderw i =
     andthen (gets (\<lambda>s. bufs s ! i)) (\<lambda>b.
     andthen (check (b_busy b) ''iderw: buf not busy'') (\<lambda>_.
     andthen (check (\<not> (b_valid b \<and> \<not> b_dirty b)) ''iderw: nothing to do'') (\<lambda>_.
     andthen (gets havedisk1) (\<lambda>h.
     andthen (check (b_dev b = 0 \<or> h) ''iderw: ide disk 1 not present'') (\<lambda>_.
     andthen (modify (\<lambda>s. s\<lparr>idequeue := idequeue s @ [i]\<rparr>)) (\<lambda>_.
     andthen (modify (\<lambda>s. if idequeue s = [i] then idestart i s else s)) (\<lambda>_.
     ide_wait i)))))))"

section \<open>bio.c\<close>

definition binit :: "'z kern_scheme \<Rightarrow> 'z kern_scheme" where
  "binit s = fold (\<lambda>i s. upd_buf i (\<lambda>b. b\<lparr>b_dev := -1\<rparr>) (s\<lparr>lru := i # lru s\<rparr>)) [0..<NBUF] (s\<lparr>lru := []\<rparr>)"

definition bget :: "32 word \<Rightarrow> 32 word \<Rightarrow> ('z kern_scheme, nat) comp" where
  "bget dev sector s =
     (case find (\<lambda>i. b_dev (bufs s ! i) = dev \<and> b_sector (bufs s ! i) = sector) (lru s) of
        Some i \<Rightarrow>
          if \<not> b_busy (bufs s ! i) then Ok (i, upd_buf i (\<lambda>b. b\<lparr>b_busy := True\<rparr>) s) else Sleep
      | None \<Rightarrow>
          (case find (\<lambda>i. \<not> b_busy (bufs s ! i)) (rev (lru s)) of
             Some i \<Rightarrow>
               Ok (i, upd_buf i (\<lambda>b. b\<lparr>b_dev := dev, b_sector := sector, b_busy := True,
                                      b_valid := False, b_dirty := False\<rparr>) s)
           | None \<Rightarrow> Panic ''bget: no buffers''))"

definition bread :: "32 word \<Rightarrow> 32 word \<Rightarrow> ('z kern_scheme, nat) comp" where
  "bread dev sector =
     andthen (bget dev sector) (\<lambda>i.
     andthen (gets (\<lambda>s. b_valid (bufs s ! i))) (\<lambda>v.
     if v then ret i else andthen (iderw i) (\<lambda>_. ret i)))"

definition bwrite :: "nat \<Rightarrow> ('z kern_scheme, unit) comp" where
  "bwrite i =
     andthen (gets (\<lambda>s. b_busy (bufs s ! i))) (\<lambda>busy.
     andthen (check busy ''bwrite'') (\<lambda>_.
     andthen (modify (upd_buf i (\<lambda>b. b\<lparr>b_dirty := True\<rparr>))) (\<lambda>_.
     iderw i)))"

definition brelse :: "nat \<Rightarrow> ('z kern_scheme, unit) comp" where
  "brelse i =
     andthen (gets (\<lambda>s. b_busy (bufs s ! i))) (\<lambda>busy.
     andthen (check busy ''brelse'') (\<lambda>_.
     modify (\<lambda>s. upd_buf i (\<lambda>b. b\<lparr>b_busy := False\<rparr>) (s\<lparr>lru := i # remove1 i (lru s)\<rparr>))))"

text \<open>The buffer as the callers in \<open>fs.c\<close> use it between \<open>bread\<close> and \<open>brelse\<close>.\<close>

definition bdata :: "nat \<Rightarrow> ('z kern_scheme, byte list) comp" where
  "bdata i = gets (\<lambda>s. b_data (bufs s ! i))"

definition set_bdata :: "nat \<Rightarrow> byte list \<Rightarrow> ('z kern_scheme, unit) comp" where
  "set_bdata i d = modify (upd_buf i (\<lambda>b. b\<lparr>b_data := d\<rparr>))"

end
