(* ===== verification/Xv6_String.thy ===== *)
theory Xv6_String
  imports Prelude
begin

text \<open>
  The kernel's memory and string routines, \<open>xv6/kernel/string.c\<close>. Memory is a list of bytes and a pointer an index
  into it; a string argument that is only read is the list of bytes from its first one on. Each loop is a recursion
  on its counter.
\<close>

section \<open>memset, memcmp, memmove\<close>

primrec memset :: "nat \<Rightarrow> byte \<Rightarrow> nat \<Rightarrow> byte list \<Rightarrow> byte list" where
  "memset dst c 0 m = m"
| "memset dst c (Suc n) m = memset (Suc dst) c n (m[dst := c])"

primrec memcmp :: "byte list \<Rightarrow> byte list \<Rightarrow> nat \<Rightarrow> int" where
  "memcmp s1 s2 0 = 0"
| "memcmp s1 s2 (Suc n) = (if hd s1 \<noteq> hd s2 then uint (hd s1) - uint (hd s2) else memcmp (tl s1) (tl s2) n)"

primrec copy_up :: "nat \<Rightarrow> nat \<Rightarrow> nat \<Rightarrow> byte list \<Rightarrow> byte list" where
  "copy_up d s 0 m = m"
| "copy_up d s (Suc n) m = copy_up (Suc d) (Suc s) n (m[d := m ! s])"

text \<open>\<open>d\<close> and \<open>s\<close> point past the end: \<open>*--d = *--s\<close>.\<close>

primrec copy_down :: "nat \<Rightarrow> nat \<Rightarrow> nat \<Rightarrow> byte list \<Rightarrow> byte list" where
  "copy_down d s 0 m = m"
| "copy_down d s (Suc n) m = copy_down (d - 1) (s - 1) n (m[d - 1 := m ! (s - 1)])"

definition memmove :: "nat \<Rightarrow> nat \<Rightarrow> nat \<Rightarrow> byte list \<Rightarrow> byte list" where
  "memmove dst src n m =
     (if src < dst \<and> src + n > dst then copy_down (dst + n) (src + n) n m else copy_up dst src n m)"

definition memcpy :: "nat \<Rightarrow> nat \<Rightarrow> nat \<Rightarrow> byte list \<Rightarrow> byte list" where
  "memcpy dst src n m = memmove dst src n m"

section \<open>Strings\<close>

primrec strncmp :: "byte list \<Rightarrow> byte list \<Rightarrow> nat \<Rightarrow> int" where
  "strncmp p q 0 = 0"
| "strncmp p q (Suc n) =
     (if hd p \<noteq> 0 \<and> hd p = hd q then strncmp (tl p) (tl q) n else uint (hd p) - uint (hd q))"

text \<open>The first loop of \<open>strncpy\<close>: the count that is left, the position and the memory; then the second loop.\<close>

primrec strncpy_copy :: "nat \<Rightarrow> nat \<Rightarrow> byte list \<Rightarrow> byte list \<Rightarrow> nat \<times> nat \<times> byte list" where
  "strncpy_copy 0 s t m = (0, s, m)"
| "strncpy_copy (Suc n) s t m =
     (if hd t \<noteq> 0 then strncpy_copy n (Suc s) (tl t) (m[s := hd t]) else (n, Suc s, m[s := hd t]))"

definition strncpy :: "nat \<Rightarrow> byte list \<Rightarrow> nat \<Rightarrow> byte list \<Rightarrow> byte list" where
  "strncpy s t n m = (let (n', s', m') = strncpy_copy n s t m in memset s' 0 n' m')"

primrec safestrcpy_copy :: "nat \<Rightarrow> nat \<Rightarrow> byte list \<Rightarrow> byte list \<Rightarrow> nat \<times> byte list" where
  "safestrcpy_copy 0 s t m = (s, m)"
| "safestrcpy_copy (Suc n) s t m =
     (if hd t \<noteq> 0 then safestrcpy_copy n (Suc s) (tl t) (m[s := hd t]) else (Suc s, m[s := hd t]))"

definition safestrcpy :: "nat \<Rightarrow> byte list \<Rightarrow> int \<Rightarrow> byte list \<Rightarrow> byte list" where
  "safestrcpy s t n m =
     (if n \<le> 0 then m else let (s', m') = safestrcpy_copy (nat (n - 1)) s t m in m'[s' := 0])"

fun strlen :: "byte list \<Rightarrow> nat" where
  "strlen [] = 0"
| "strlen (c # s) = (if c = 0 then 0 else Suc (strlen s))"

section \<open>Correctness\<close>

lemma poke_Cons: "off < length m \<Longrightarrow> poke off (b # bs) m = poke (Suc off) bs (m[off := b])"
  by (simp add: poke_def take_Suc_conv_app_nth take_update_swap drop_update_cancel list_update_append)

lemma poke_nil [simp]: "poke off [] m = m"
  by (simp add: poke_def)

lemma poke_snoc: "off + length bs < length m \<Longrightarrow> poke off (bs @ [b]) m = poke off bs (m[off + length bs := b])"
proof (induction bs arbitrary: off m)
  case Nil
  then show ?case by (simp add: poke_Cons)
next
  case (Cons c bs)
  then show ?case by (simp add: poke_Cons list_update_swap)
qed

lemma memset_poke: "dst + n \<le> length m \<Longrightarrow> memset dst c n m = poke dst (replicate n c) m"
  by (induction n arbitrary: dst m) (simp_all add: poke_Cons)

lemma byte_eq_simps: "uint (a :: byte) = uint b \<longleftrightarrow> a = b" "uint (a :: byte) = 0 \<longleftrightarrow> a = 0" "0 = uint (a :: byte) \<longleftrightarrow> a = 0"
  by (auto simp: word_uint_eq_iff)

lemma memcmp_zero_iff: "n \<le> length s1 \<Longrightarrow> n \<le> length s2 \<Longrightarrow> memcmp s1 s2 n = 0 \<longleftrightarrow> take n s1 = take n s2"
proof (induction n arbitrary: s1 s2)
  case (Suc n)
  then show ?case by (cases s1; cases s2) (auto simp: byte_eq_simps)
qed simp

lemma peek_Suc: "src < length m \<Longrightarrow> peek src (Suc n) m = m ! src # peek (Suc src) n m"
  by (simp add: peek_def flip: Cons_nth_drop_Suc)

lemma copy_up_poke:
  assumes "d + n \<le> length m" "s + n \<le> length m" "d \<le> s \<or> s + n \<le> d"
  shows "copy_up d s n m = poke d (peek s n m) m"
  using assms
proof (induction n arbitrary: d s m)
  case 0
  then show ?case by (simp add: peek_def)
next
  case (Suc n)
  have "peek (Suc s) n (m[d := m ! s]) = peek (Suc s) n m"
    using Suc.prems by (intro peek_eqI) (auto simp: nth_list_update)
  moreover have "copy_up (Suc d) (Suc s) n (m[d := m ! s]) = poke (Suc d) (peek (Suc s) n (m[d := m ! s])) (m[d := m ! s])"
    using Suc.prems by (intro Suc.IH) auto
  ultimately show ?case using Suc.prems by (simp add: peek_Suc poke_Cons)
qed

lemma peek_snoc: "src + n < length m \<Longrightarrow> peek src (Suc n) m = peek src n m @ [m ! (src + n)]"
  by (simp add: peek_def take_Suc_conv_app_nth)

lemma copy_down_poke:
  assumes "d + n \<le> length m" "s + n \<le> length m" "s \<le> d"
  shows "copy_down (d + n) (s + n) n m = poke d (peek s n m) m"
  using assms
proof (induction n arbitrary: m)
  case 0
  then show ?case by (simp add: peek_def)
next
  case (Suc n)
  have "peek s n (m[d + n := m ! (s + n)]) = peek s n m"
    using Suc.prems by (intro peek_eqI) (auto simp: nth_list_update)
  with Suc show ?case by (simp add: peek_snoc poke_snoc)
qed

lemma memmove_poke:
  assumes "dst + n \<le> length m" "src + n \<le> length m"
  shows "memmove dst src n m = poke dst (peek src n m) m"
  using assms copy_up_poke[of dst n m src] copy_down_poke[of dst n m src]
  by (auto simp: memmove_def not_less)

lemma strncmp_zero_iff:
  assumes "0 \<in> set p \<or> n \<le> length p" "0 \<in> set q \<or> n \<le> length q"
  shows "strncmp p q n = 0 \<longleftrightarrow> take n (cstr p) = take n (cstr q)"
  using assms
proof (induction n arbitrary: p q)
  case (Suc n)
  then obtain a p' b q' where "p = a # p'" "q = b # q'" by (cases p; cases q) auto
  with Suc show ?case by (auto simp: cstr_def byte_eq_simps)
qed simp

lemma strncpy_copy_result:
  assumes "s + n \<le> length m" "0 \<in> set t \<or> n \<le> length t"
  shows "strncpy_copy n s t m = (n - Suc (length (cstr t)), s + min n (Suc (length (cstr t))),
     poke s (take n (cstr t @ [0])) m)"
  using assms
proof (induction n arbitrary: s t m)
  case (Suc n)
  then obtain c t' where "t = c # t'" by (cases t) auto
  with Suc show ?case by (auto simp: cstr_def poke_Cons)
qed simp

lemma poke_append:
  "off + length as + length bs \<le> length m \<Longrightarrow> poke (off + length as) bs (poke off as m) = poke off (as @ bs) m"
  by (simp add: poke_def add.commute add.left_commute)

lemma strncpy_poke:
  assumes "s + n \<le> length m" "0 \<in> set t \<or> n \<le> length t"
  shows "strncpy s t n m = poke s (take n (cstr t @ replicate n 0)) m"
proof -
  let ?c = "cstr t"
  have len: "length (take n (?c @ [0])) = min n (Suc (length ?c))" by simp
  have "length (poke s (take n (?c @ [0])) m) = length m" using assms(1) len by (intro length_poke) linarith
  then have "memset (s + min n (Suc (length ?c))) 0 (n - Suc (length ?c)) (poke s (take n (?c @ [0])) m) =
      poke (s + length (take n (?c @ [0]))) (replicate (n - Suc (length ?c)) 0) (poke s (take n (?c @ [0])) m)"
    using assms(1) len by (subst memset_poke) (linarith, metis)
  also have "\<dots> = poke s (take n (?c @ [0]) @ replicate (n - Suc (length ?c)) 0) m"
    using assms(1) by (intro poke_append) (auto simp: min_def)
  also have "take n (?c @ [0]) @ replicate (n - Suc (length ?c)) 0 = take n (?c @ replicate n 0)"
  proof (cases "length ?c < n")
    case True
    then have "replicate (n - length ?c) (0::byte) = 0 # replicate (n - Suc (length ?c)) 0"
      by (metis Suc_diff_Suc replicate_Suc)
    with True show ?thesis by (simp add: take_replicate min_def)
  qed simp
  finally show ?thesis unfolding strncpy_def strncpy_copy_result[OF assms] by simp
qed

lemma safestrcpy_copy_result:
  assumes "s + n \<le> length m" "0 \<in> set t \<or> n \<le> length t"
  shows "safestrcpy_copy n s t m = (s + min n (Suc (length (cstr t))), poke s (take n (cstr t @ [0])) m)"
  using assms
proof (induction n arbitrary: s t m)
  case (Suc n)
  then obtain c t' where "t = c # t'" by (cases t) auto
  with Suc show ?case by (auto simp: cstr_def poke_Cons)
qed simp

lemma strlen_cstr: "strlen s = length (cstr s)"
  by (induction s) (simp_all add: cstr_def)

section \<open>Properties\<close>

text \<open>
  C23. \<open>memmove\<close> copies regions that overlap, in either direction, as if through a separate buffer: the target gets the bytes
  that the source had before the call, and no other byte changes.
\<close>

theorem memmove_overlap:
  assumes "dst + n \<le> length m" "src + n \<le> length m"
  shows "length (memmove dst src n m) = length m \<and>
    (\<forall>k < length m. memmove dst src n m ! k = (if dst \<le> k \<and> k < dst + n then m ! (src + (k - dst)) else m ! k))"
proof -
  have len: "length (peek src n m) = n" using assms(2) by (simp add: peek_def)
  show ?thesis
    unfolding memmove_poke[OF assms] poke_def using assms len
    by (auto simp: nth_append peek_def not_less)
qed

theorem memmove_overlap_witness: "memmove 1 0 3 [1, 2, 3, 4, 5] = [1, 1, 2, 3, 5]"
proof (rule nth_equalityI)
  note m = memmove_overlap[of 1 3 "[1, 2, 3, 4, 5]" 0]
  then show "length (memmove 1 0 3 [1, 2, 3, 4, 5]) = length [1, 1, 2, 3, 5 :: byte]" by simp
  fix k assume "k < length (memmove 1 0 3 [1, 2, 3, 4, 5])"
  then have k: "k < 5" using m by simp
  then consider "k = 0" | "k = 1" | "k = 2" | "k = 3" | "k = 4" by linarith
  then show "memmove 1 0 3 [1, 2, 3, 4, 5] ! k = [1, 1, 2, 3, 5] ! k" using m k by cases simp_all
qed

end
