(* ===== verification/Xv6_Layout.thy ===== *)
theory Xv6_Layout
  imports Xv6_Bio Xv6_String
begin

text \<open>
  The on-disk format of the kernel's file system, \<open>xv6/include/fs.h\<close>: 16- and 32-bit little-endian words in byte
  regions, the superblock, inodes (64 bytes, eight to a block) and directory entries (16 bytes).
\<close>

section \<open>Words in byte regions\<close>

definition le32 :: "32 word \<Rightarrow> byte list" where
  "le32 w = [ucast w, ucast (drop_bit 8 w), ucast (drop_bit 16 w), ucast (drop_bit 24 w)]"

definition rd32 :: "byte list \<Rightarrow> 32 word" where
  "rd32 bs = ucast (bs ! 0) OR push_bit 8 (ucast (bs ! 1)) OR push_bit 16 (ucast (bs ! 2)) OR push_bit 24 (ucast (bs ! 3))"

definition le16 :: "16 word \<Rightarrow> byte list" where
  "le16 w = [ucast w, ucast (drop_bit 8 w)]"

definition rd16 :: "byte list \<Rightarrow> 16 word" where
  "rd16 bs = ucast (bs ! 0) OR push_bit 8 (ucast (bs ! 1))"

text \<open>Element \<open>k\<close> of a block seen as \<open>uint*\<close>.\<close>

definition get32 :: "nat \<Rightarrow> byte list \<Rightarrow> 32 word" where
  "get32 k bs = rd32 (peek (4 * k) 4 bs)"

definition put32 :: "nat \<Rightarrow> 32 word \<Rightarrow> byte list \<Rightarrow> byte list" where
  "put32 k w bs = poke (4 * k) (le32 w) bs"

lemma length_le [simp]: "length (le32 w) = 4" "length (le16 v) = 2"
  by (simp_all add: le32_def le16_def)

lemma rd32_le32 [codec_simps]: "rd32 (le32 w) = w"
proof (rule bit_word_eqI)
  fix n assume n: "n < LENGTH(32)"
  consider "n < 8" | "8 \<le> n" "n < 16" | "16 \<le> n" "n < 24" | "24 \<le> n" by linarith
  then show "bit (rd32 (le32 w)) n = bit w n"
    using n by cases (auto simp: rd32_def le32_def bit_simps)
qed

lemma rd16_le16 [codec_simps]: "rd16 (le16 w) = w"
proof (rule bit_word_eqI)
  fix n assume n: "n < LENGTH(16)"
  consider "n < 8" | "8 \<le> n" by linarith
  then show "bit (rd16 (le16 w)) n = bit w n"
    using n by cases (auto simp: rd16_def le16_def bit_simps)
qed

lemma length_put32 [simp]: "4 * k + 4 \<le> length bs \<Longrightarrow> length (put32 k w bs) = length bs"
  by (simp add: put32_def)

lemma get32_put32:
  assumes "4 * k + 4 \<le> length bs"
  shows "get32 j (put32 k w bs) = (if j = k then w else get32 j bs)"
proof (cases "j = k")
  case True
  with assms show ?thesis by (simp add: get32_def put32_def region_simps codec_simps)
next
  case False
  then have "4 * j + 4 \<le> 4 * k \<or> 4 * k + 4 \<le> 4 * j" by linarith
  with False assms show ?thesis by (auto simp: get32_def put32_def region_simps)
qed

section \<open>Constants and structures of fs.h\<close>

definition NDIRECT :: nat where "NDIRECT = 12"
definition NINDIRECT :: nat where "NINDIRECT = BSIZE div 4"
definition MAXFILE :: nat where "MAXFILE = NDIRECT + NINDIRECT"
definition IPB :: nat where "IPB = BSIZE div 64"
definition BPB :: nat where "BPB = BSIZE * 8"
definition DIRSIZ :: nat where "DIRSIZ = 14"
definition ROOTINO :: "32 word" where "ROOTINO = 1"
definition ROOTDEV :: "32 word" where "ROOTDEV = 1"
definition NDEV :: int where "NDEV = 10"
definition NINODE :: nat where "NINODE = 50"

definition IBLOCK :: "32 word \<Rightarrow> 32 word" where
  "IBLOCK i = i div of_nat IPB + 2"

definition BBLOCK :: "32 word \<Rightarrow> 32 word \<Rightarrow> 32 word" where
  "BBLOCK b ninodes = b div of_nat BPB + ninodes div of_nat IPB + 3"

definition T_DIR :: "16 word" where "T_DIR = 1"
definition T_FILE :: "16 word" where "T_FILE = 2"
definition T_DEV :: "16 word" where "T_DEV = 3"
definition T_CHECKED :: "16 word" where "T_CHECKED = 4"

record superblock =
  sb_size :: "32 word"
  sb_nblocks :: "32 word"
  sb_ninodes :: "32 word"

definition dec_sb :: "byte list \<Rightarrow> superblock" where
  "dec_sb bs = \<lparr>sb_size = get32 0 bs, sb_nblocks = get32 1 bs, sb_ninodes = get32 2 bs\<rparr>"

record dinode =
  di_type :: "16 word"
  di_major :: "16 word"
  di_minor :: "16 word"
  di_nlink :: "16 word"
  di_size :: "32 word"
  di_addrs :: "32 word list"

definition enc_dinode :: "dinode \<Rightarrow> byte list" where
  "enc_dinode d = le16 (di_type d) @ le16 (di_major d) @ le16 (di_minor d) @ le16 (di_nlink d) @ le32 (di_size d) @
     concat (map le32 (di_addrs d))"

definition dec_dinode :: "byte list \<Rightarrow> dinode" where
  "dec_dinode bs = \<lparr>di_type = rd16 (peek 0 2 bs), di_major = rd16 (peek 2 2 bs), di_minor = rd16 (peek 4 2 bs),
     di_nlink = rd16 (peek 6 2 bs), di_size = rd32 (peek 8 4 bs), di_addrs = map (\<lambda>k. rd32 (peek (12 + 4 * k) 4 bs)) [0..<13]\<rparr>"

text \<open>\<open>(struct dinode*)bp->data + inum%IPB\<close>.\<close>

definition dinode_at :: "32 word \<Rightarrow> byte list \<Rightarrow> dinode" where
  "dinode_at inum bs = dec_dinode (peek (64 * (unat inum mod IPB)) 64 bs)"

definition put_dinode :: "32 word \<Rightarrow> dinode \<Rightarrow> byte list \<Rightarrow> byte list" where
  "put_dinode inum d bs = poke (64 * (unat inum mod IPB)) (enc_dinode d) bs"

record dirent =
  de_inum :: "16 word"
  de_name :: "byte list"

definition dec_dirent :: "byte list \<Rightarrow> dirent" where
  "dec_dirent bs = \<lparr>de_inum = rd16 (peek 0 2 bs), de_name = peek 2 14 bs\<rparr>"

definition enc_dirent :: "dirent \<Rightarrow> byte list" where
  "enc_dirent e = le16 (de_inum e) @ de_name e"

lemma concat_le32: "length (concat (map le32 xs)) = 4 * length xs"
  by (induction xs) simp_all

lemma peek_concat_le32: "k < length xs \<Longrightarrow> peek (4 * k) 4 (concat (map le32 xs)) = le32 (xs ! k)"
proof (induction xs arbitrary: k)
  case (Cons x xs)
  then show ?case by (cases k) (simp_all add: peek_def)
qed simp

lemma peek_skip: "length as \<le> off \<Longrightarrow> peek off n (as @ bs) = peek (off - length as) n bs"
  by (simp add: peek_def)

lemma peek_front: "peek 0 n (as @ bs) = as" if "length as = n"
  using that by (simp add: peek_def)

lemma dec_enc_dinode [codec_simps]:
  assumes "length (di_addrs d) = 13"
  shows "dec_dinode (enc_dinode d) = d"
proof (rule dinode.equality)
  have "map (\<lambda>k. rd32 (peek (12 + 4 * k) 4 (enc_dinode d))) [0..<13] = di_addrs d"
  proof (rule nth_equalityI)
    fix k assume "k < length (map (\<lambda>k. rd32 (peek (12 + 4 * k) 4 (enc_dinode d))) [0..<13])"
    then have k: "k < 13" by simp
    have "peek (12 + 4 * k) 4 (enc_dinode d) = le32 (di_addrs d ! k)"
      using k assms by (simp add: enc_dinode_def peek_skip peek_concat_le32)
    with k show "map (\<lambda>k. rd32 (peek (12 + 4 * k) 4 (enc_dinode d))) [0..<13] ! k = di_addrs d ! k"
      by (simp add: codec_simps del: upt_rec_numeral)
  qed (use assms in simp)
  then show "di_addrs (dec_dinode (enc_dinode d)) = di_addrs d" by (simp add: dec_dinode_def del: upt_rec_numeral)
qed (simp_all add: dec_dinode_def enc_dinode_def peek_skip peek_front codec_simps)

lemma length_enc_dinode: "length (di_addrs d) = 13 \<Longrightarrow> length (enc_dinode d) = 64"
  by (simp add: enc_dinode_def concat_le32)

lemma dec_enc_dirent [codec_simps]: "length (de_name e) = 14 \<Longrightarrow> dec_dirent (enc_dirent e) = e"
  by (simp add: dec_dirent_def enc_dirent_def peek_front peek_skip codec_simps peek_def)

end
