(* ===== verification/Xv6_Fs.thy ===== *)
theory Xv6_Fs
  imports Xv6_Layout
begin

text \<open>
  The kernel's file system, \<open>xv6/kernel/fs.c\<close>, one definition per function in the order of the source, on the
  buffer cache of \<open>Xv6_Bio\<close>. A pointer to an in-core inode is its index in \<open>icache\<close>. Counters of loops are natural
  numbers where the source's 32-bit arithmetic cannot wrap; offsets and sizes that the code compares for
  wrap-around stay words until it has done so. The device switch \<open>devsw\<close> is a parameter of the state: the
  functions in it belong to other modules.
\<close>

section \<open>State\<close>

record incore =
  ip_dev :: "32 word"
  ip_inum :: "32 word"
  ip_ref :: int
  ip_busy :: bool
  ip_valid :: bool
  ip_type :: "16 word"
  ip_major :: "16 word"
  ip_minor :: "16 word"
  ip_nlink :: "16 word"
  ip_size :: "32 word"
  ip_addrs :: "32 word list"

record fsk = kern +
  icache :: "incore list"
  devsw_read :: "int \<Rightarrow> (nat \<Rightarrow> 32 word \<Rightarrow> int \<times> byte list) option"
  devsw_write :: "int \<Rightarrow> (nat \<Rightarrow> byte list \<Rightarrow> int) option"

definition inode_at :: "nat \<Rightarrow> ('z fsk_scheme, incore) comp" where
  "inode_at i = gets (\<lambda>s. icache s ! i)"

definition upd_inode :: "nat \<Rightarrow> (incore \<Rightarrow> incore) \<Rightarrow> ('z fsk_scheme, unit) comp" where
  "upd_inode i f = modify (\<lambda>s. s\<lparr>icache := (icache s)[i := f (icache s ! i)]\<rparr>)"

section \<open>Blocks\<close>

definition readsb :: "32 word \<Rightarrow> ('z fsk_scheme, superblock) comp" where
  "readsb dev =
     andthen (bread dev 1) (\<lambda>bp.
     andthen (bdata bp) (\<lambda>d.
     andthen (brelse bp) (\<lambda>_. ret (dec_sb d))))"

definition bzero :: "32 word \<Rightarrow> 32 word \<Rightarrow> ('z fsk_scheme, unit) comp" where
  "bzero dev bno =
     andthen (bread dev bno) (\<lambda>bp.
     andthen (bdata bp) (\<lambda>d.
     andthen (set_bdata bp (memset 0 0 BSIZE d)) (\<lambda>_.
     andthen (bwrite bp) (\<lambda>_.
     andthen (brelse bp) (\<lambda>_. ret ())))))"

definition bit_free :: "byte list \<Rightarrow> nat \<Rightarrow> bool" where
  "bit_free d bi \<longleftrightarrow> d ! (bi div 8) AND push_bit (bi mod 8) 1 = 0"

definition set_bit_in :: "byte list \<Rightarrow> nat \<Rightarrow> byte list" where
  "set_bit_in d bi = d[bi div 8 := d ! (bi div 8) OR push_bit (bi mod 8) 1]"

definition clear_bit_in :: "byte list \<Rightarrow> nat \<Rightarrow> byte list" where
  "clear_bit_in d bi = d[bi div 8 := d ! (bi div 8) AND NOT (push_bit (bi mod 8) 1)]"

function balloc_from :: "32 word \<Rightarrow> superblock \<Rightarrow> nat \<Rightarrow> ('z fsk_scheme, 32 word) comp" where
  "balloc_from dev sb b =
     (if b < unat (sb_size sb) then
        andthen (bread dev (BBLOCK (of_nat b) (sb_ninodes sb))) (\<lambda>bp.
        andthen (bdata bp) (\<lambda>d.
        case find (bit_free d) [0..<BPB] of
          Some bi \<Rightarrow>
            andthen (set_bdata bp (set_bit_in d bi)) (\<lambda>_.
            andthen (bwrite bp) (\<lambda>_.
            andthen (brelse bp) (\<lambda>_. ret (of_nat (b + bi)))))
        | None \<Rightarrow> andthen (brelse bp) (\<lambda>_. balloc_from dev sb (b + BPB))))
      else panic ''balloc: out of blocks'')"
  by pat_completeness auto
termination
  by (relation "measure (\<lambda>(dev, sb, b). unat (sb_size sb) - b)") (auto simp: BPB_def BSIZE_def)

declare balloc_from.simps [simp del]

definition balloc :: "32 word \<Rightarrow> ('z fsk_scheme, 32 word) comp" where
  "balloc dev = andthen (readsb dev) (\<lambda>sb. balloc_from dev sb 0)"

definition bfree :: "32 word \<Rightarrow> 32 word \<Rightarrow> ('z fsk_scheme, unit) comp" where
  "bfree dev b =
     andthen (bzero dev b) (\<lambda>_.
     andthen (readsb dev) (\<lambda>sb.
     andthen (bread dev (BBLOCK b (sb_ninodes sb))) (\<lambda>bp.
     andthen (bdata bp) (\<lambda>d.
     andthen (check (\<not> bit_free d (unat b mod BPB)) ''freeing free block'') (\<lambda>_.
     andthen (set_bdata bp (clear_bit_in d (unat b mod BPB))) (\<lambda>_.
     andthen (bwrite bp) (\<lambda>_.
     brelse bp)))))))"

section \<open>Inodes\<close>

definition iget :: "32 word \<Rightarrow> 32 word \<Rightarrow> ('z fsk_scheme, nat) comp" where
  "iget dev inum s =
     (case find (\<lambda>i. ip_ref (icache s ! i) > 0 \<and> ip_dev (icache s ! i) = dev \<and> ip_inum (icache s ! i) = inum) [0..<NINODE] of
        Some i \<Rightarrow> Ok (i, s\<lparr>icache := (icache s)[i := (icache s ! i)\<lparr>ip_ref := ip_ref (icache s ! i) + 1\<rparr>]\<rparr>)
      | None \<Rightarrow>
          (case find (\<lambda>i. ip_ref (icache s ! i) = 0) [0..<NINODE] of
             None \<Rightarrow> Panic ''iget: no inodes''
           | Some i \<Rightarrow>
               Ok (i, s\<lparr>icache := (icache s)[i := (icache s ! i)
                 \<lparr>ip_dev := dev, ip_inum := inum, ip_ref := 1, ip_busy := False, ip_valid := False\<rparr>]\<rparr>)))"

function ialloc_from :: "32 word \<Rightarrow> 16 word \<Rightarrow> superblock \<Rightarrow> nat \<Rightarrow> ('z fsk_scheme, nat) comp" where
  "ialloc_from dev type sb inum =
     (if inum < unat (sb_ninodes sb) then
        andthen (bread dev (IBLOCK (of_nat inum))) (\<lambda>bp.
        andthen (bdata bp) (\<lambda>d.
        if di_type (dinode_at (of_nat inum) d) = 0 then
          andthen (set_bdata bp (put_dinode (of_nat inum)
            \<lparr>di_type = type, di_major = 0, di_minor = 0, di_nlink = 0, di_size = 0, di_addrs = replicate 13 0\<rparr> d)) (\<lambda>_.
          andthen (bwrite bp) (\<lambda>_.
          andthen (brelse bp) (\<lambda>_.
          iget dev (of_nat inum))))
        else andthen (brelse bp) (\<lambda>_. ialloc_from dev type sb (Suc inum))))
      else panic ''ialloc: no inodes'')"
  by pat_completeness auto
termination
  by (relation "measure (\<lambda>(dev, type, sb, inum). unat (sb_ninodes sb) - inum)") auto

declare ialloc_from.simps [simp del]

definition ialloc :: "32 word \<Rightarrow> 16 word \<Rightarrow> ('z fsk_scheme, nat) comp" where
  "ialloc dev type = andthen (readsb dev) (\<lambda>sb. ialloc_from dev type sb 1)"

definition to_dinode :: "incore \<Rightarrow> dinode" where
  "to_dinode ip = \<lparr>di_type = ip_type ip, di_major = ip_major ip, di_minor = ip_minor ip, di_nlink = ip_nlink ip,
     di_size = ip_size ip, di_addrs = ip_addrs ip\<rparr>"

definition from_dinode :: "dinode \<Rightarrow> incore \<Rightarrow> incore" where
  "from_dinode d ip = ip\<lparr>ip_type := di_type d, ip_major := di_major d, ip_minor := di_minor d, ip_nlink := di_nlink d,
     ip_size := di_size d, ip_addrs := di_addrs d\<rparr>"

definition iupdate :: "nat \<Rightarrow> ('z fsk_scheme, unit) comp" where
  "iupdate i =
     andthen (inode_at i) (\<lambda>ip.
     andthen (bread (ip_dev ip) (IBLOCK (ip_inum ip))) (\<lambda>bp.
     andthen (bdata bp) (\<lambda>d.
     andthen (set_bdata bp (put_dinode (ip_inum ip) (to_dinode ip) d)) (\<lambda>_.
     andthen (bwrite bp) (\<lambda>_.
     andthen (brelse bp) (\<lambda>_. ret ()))))))"

definition idup :: "nat \<Rightarrow> ('z fsk_scheme, nat) comp" where
  "idup i = andthen (upd_inode i (\<lambda>ip. ip\<lparr>ip_ref := ip_ref ip + 1\<rparr>)) (\<lambda>_. ret i)"

definition ilock :: "nat \<Rightarrow> ('z fsk_scheme, unit) comp" where
  "ilock i =
     andthen (inode_at i) (\<lambda>ip.
     andthen (check (ip_ref ip \<ge> 1) ''ilock'') (\<lambda>_.
     if ip_busy ip then (\<lambda>s. Sleep)
     else
       andthen (upd_inode i (\<lambda>ip. ip\<lparr>ip_busy := True\<rparr>)) (\<lambda>_.
       if \<not> ip_valid ip then
         andthen (bread (ip_dev ip) (IBLOCK (ip_inum ip))) (\<lambda>bp.
         andthen (bdata bp) (\<lambda>d.
         andthen (upd_inode i (from_dinode (dinode_at (ip_inum ip) d))) (\<lambda>_.
         andthen (brelse bp) (\<lambda>_.
         andthen (upd_inode i (\<lambda>ip. ip\<lparr>ip_valid := True\<rparr>)) (\<lambda>_.
         check (di_type (dinode_at (ip_inum ip) d) \<noteq> 0) ''ilock: no type'')))))
       else ret ())))"

definition iunlock :: "nat \<Rightarrow> ('z fsk_scheme, unit) comp" where
  "iunlock i =
     andthen (inode_at i) (\<lambda>ip.
     andthen (check (ip_busy ip \<and> ip_ref ip \<ge> 1) ''iunlock'') (\<lambda>_.
     upd_inode i (\<lambda>ip. ip\<lparr>ip_busy := False\<rparr>)))"

text \<open>\<open>itrunc\<close>: the loop over the direct blocks, the loop over the indirect block, the indirect block itself.\<close>

primrec itrunc_direct :: "nat \<Rightarrow> nat list \<Rightarrow> ('z fsk_scheme, unit) comp" where
  "itrunc_direct i [] = ret ()"
| "itrunc_direct i (k # ks) =
     andthen (inode_at i) (\<lambda>ip.
     andthen (if ip_addrs ip ! k \<noteq> 0 then
                andthen (bfree (ip_dev ip) (ip_addrs ip ! k)) (\<lambda>_.
                upd_inode i (\<lambda>ip. ip\<lparr>ip_addrs := (ip_addrs ip)[k := 0]\<rparr>))
              else ret ()) (\<lambda>_.
     itrunc_direct i ks))"

text \<open>\<open>a\<close> points into the buffer, which is read again in each round.\<close>

primrec itrunc_indirect :: "32 word \<Rightarrow> nat \<Rightarrow> nat list \<Rightarrow> ('z fsk_scheme, unit) comp" where
  "itrunc_indirect dev bp [] = ret ()"
| "itrunc_indirect dev bp (j # js) =
     andthen (bdata bp) (\<lambda>d.
     andthen (if get32 j d \<noteq> 0 then bfree dev (get32 j d) else ret ()) (\<lambda>_.
     itrunc_indirect dev bp js))"

definition itrunc :: "nat \<Rightarrow> ('z fsk_scheme, unit) comp" where
  "itrunc i =
     andthen (itrunc_direct i [0..<NDIRECT]) (\<lambda>_.
     andthen (inode_at i) (\<lambda>ip.
     andthen (if ip_addrs ip ! NDIRECT \<noteq> 0 then
                andthen (bread (ip_dev ip) (ip_addrs ip ! NDIRECT)) (\<lambda>bp.
                andthen (itrunc_indirect (ip_dev ip) bp [0..<NINDIRECT]) (\<lambda>_.
                andthen (brelse bp) (\<lambda>_.
                andthen (bfree (ip_dev ip) (ip_addrs ip ! NDIRECT)) (\<lambda>_.
                upd_inode i (\<lambda>ip. ip\<lparr>ip_addrs := (ip_addrs ip)[NDIRECT := 0]\<rparr>)))))
              else ret ()) (\<lambda>_.
     andthen (upd_inode i (\<lambda>ip. ip\<lparr>ip_size := 0\<rparr>)) (\<lambda>_.
     iupdate i))))"

definition iput :: "nat \<Rightarrow> ('z fsk_scheme, unit) comp" where
  "iput i =
     andthen (inode_at i) (\<lambda>ip.
     andthen (if ip_ref ip = 1 \<and> ip_valid ip \<and> ip_nlink ip = 0 then
                andthen (check (\<not> ip_busy ip) ''iput busy'') (\<lambda>_.
                andthen (upd_inode i (\<lambda>ip. ip\<lparr>ip_busy := True\<rparr>)) (\<lambda>_.
                andthen (itrunc i) (\<lambda>_.
                andthen (upd_inode i (\<lambda>ip. ip\<lparr>ip_type := 0\<rparr>)) (\<lambda>_.
                andthen (iupdate i) (\<lambda>_.
                upd_inode i (\<lambda>ip. ip\<lparr>ip_busy := False, ip_valid := False\<rparr>))))))
              else ret ()) (\<lambda>_.
     upd_inode i (\<lambda>ip. ip\<lparr>ip_ref := ip_ref ip - 1\<rparr>)))"

definition iunlockput :: "nat \<Rightarrow> ('z fsk_scheme, unit) comp" where
  "iunlockput i = andthen (iunlock i) (\<lambda>_. iput i)"

section \<open>Inode contents\<close>

definition low24 :: "32 word \<Rightarrow> 32 word" where
  "low24 w = w AND 0x00ffffff"

definition tag_of :: "32 word \<Rightarrow> byte" where
  "tag_of w = ucast (drop_bit 24 (w AND 0xff000000))"

definition set_addr :: "nat \<Rightarrow> nat \<Rightarrow> 32 word \<Rightarrow> ('z fsk_scheme, unit) comp" where
  "set_addr i k a = upd_inode i (\<lambda>ip. ip\<lparr>ip_addrs := (ip_addrs ip)[k := a]\<rparr>)"

text \<open>The two halves of \<open>bmap\<close> differ in the mask, which is the identity for files without checksums.\<close>

definition bmap :: "nat \<Rightarrow> nat \<Rightarrow> ('z fsk_scheme, 32 word) comp" where
  "bmap i bn =
     andthen (inode_at i) (\<lambda>ip.
     let msk = (if ip_type ip = T_CHECKED then low24 else id)
     in if bn < NDIRECT then
          (if msk (ip_addrs ip ! bn) = 0 then
             andthen (balloc (ip_dev ip)) (\<lambda>a.
             andthen (set_addr i bn (msk a)) (\<lambda>_. ret (msk a)))
           else ret (msk (ip_addrs ip ! bn)))
        else if bn - NDIRECT < NINDIRECT then
          andthen (if msk (ip_addrs ip ! NDIRECT) = 0 then
                     andthen (balloc (ip_dev ip)) (\<lambda>a.
                     andthen (set_addr i NDIRECT (msk a)) (\<lambda>_. ret (msk a)))
                   else ret (msk (ip_addrs ip ! NDIRECT))) (\<lambda>ind.
          andthen (bread (ip_dev ip) ind) (\<lambda>bp.
          andthen (bdata bp) (\<lambda>d.
          andthen (if msk (get32 (bn - NDIRECT) d) = 0 then
                     andthen (balloc (ip_dev ip)) (\<lambda>a.
                     andthen (bdata bp) (\<lambda>d.
                     andthen (set_bdata bp (put32 (bn - NDIRECT) (msk a) d)) (\<lambda>_.
                     andthen (bwrite bp) (\<lambda>_. ret (msk a)))))
                   else ret (msk (get32 (bn - NDIRECT) d))) (\<lambda>addr.
          andthen (brelse bp) (\<lambda>_. ret addr)))))
        else panic ''bmap: out of range'')"

record kstat =
  kst_dev :: "32 word"
  kst_ino :: "32 word"
  kst_type :: "16 word"
  kst_nlink :: "16 word"
  kst_size :: "32 word"
  kst_checksum :: byte

definition xor_all :: "byte list \<Rightarrow> byte" where
  "xor_all bs = fold (\<lambda>b c. c XOR b) bs 0"

text \<open>\<open>stati\<close>: the buffer of the indirect block is not released, and 64 of its 128 entries are read.\<close>

definition stati :: "nat \<Rightarrow> ('z fsk_scheme, kstat) comp" where
  "stati i =
     andthen (inode_at i) (\<lambda>ip.
     andthen (bread (ip_dev ip) (low24 (ip_addrs ip ! NDIRECT))) (\<lambda>bp.
     andthen (bdata bp) (\<lambda>d.
     ret \<lparr>kst_dev = ip_dev ip, kst_ino = ip_inum ip, kst_type = ip_type ip, kst_nlink = ip_nlink ip, kst_size = ip_size ip,
          kst_checksum = fold (\<lambda>k c. c XOR tag_of (get32 k d)) [0..<64]
            (fold (\<lambda>k c. c XOR tag_of (ip_addrs ip ! k)) [0..<NDIRECT] 0)\<rparr>)))"

text \<open>The checksum of a block: \<open>data[0]\<close>, then each further byte.\<close>

definition checksum :: "byte list \<Rightarrow> byte" where
  "checksum d = fold (\<lambda>k c. c XOR d ! k) [1..<BSIZE] (d ! 0)"

text \<open>The test of \<open>readi\<close> on a block of a file with checksums.\<close>

definition check_block :: "nat \<Rightarrow> nat \<Rightarrow> ('z fsk_scheme, bool) comp" where
  "check_block i bn =
     andthen (inode_at i) (\<lambda>ip.
     andthen (bmap i bn) (\<lambda>a.
     andthen (bread (ip_dev ip) a) (\<lambda>bp.
     andthen (bdata bp) (\<lambda>d.
     andthen (brelse bp) (\<lambda>_.
     andthen (inode_at i) (\<lambda>ip.
     if bn < NDIRECT then ret (tag_of (ip_addrs ip ! bn) = checksum d)
     else
       andthen (bread (ip_dev ip) (low24 (ip_addrs ip ! NDIRECT))) (\<lambda>bp.
       andthen (brelse bp) (\<lambda>_.
       andthen (bdata bp) (\<lambda>e.
       ret (checksum d = tag_of (get32 (bn - NDIRECT) e))))))))))) "

function readi_loop :: "nat \<Rightarrow> nat \<Rightarrow> nat \<Rightarrow> byte list \<Rightarrow> ('z fsk_scheme, bool \<times> byte list) comp" where
  "readi_loop i off left dst =
     (if left = 0 then ret (True, dst)
      else
        let m = min left (BSIZE - off mod BSIZE)
        in andthen (inode_at i) (\<lambda>ip.
           andthen (bmap i (off div BSIZE)) (\<lambda>a.
           andthen (bread (ip_dev ip) a) (\<lambda>bp.
           andthen (bdata bp) (\<lambda>d.
           andthen (brelse bp) (\<lambda>_.
           andthen (if ip_type ip = T_CHECKED then check_block i (off div BSIZE) else ret True) (\<lambda>good.
           if good then readi_loop i (off + m) (left - m) (dst @ peek (off mod BSIZE) m d)
           else ret (False, dst @ peek (off mod BSIZE) m d))))))))"
  by pat_completeness auto
termination
  by (relation "measure (\<lambda>(i, off, left, dst). left)") (auto simp: BSIZE_def)

declare readi_loop.simps [simp del]

text \<open>The result is the return value and the bytes that have been copied to \<open>dst\<close>.\<close>

definition readi :: "nat \<Rightarrow> 32 word \<Rightarrow> 32 word \<Rightarrow> ('z fsk_scheme, int \<times> byte list) comp" where
  "readi i off n =
     andthen (inode_at i) (\<lambda>ip.
     if ip_type ip = T_DEV then
       (if sint (ip_major ip) < 0 \<or> sint (ip_major ip) \<ge> NDEV then ret (-1, [])
        else
          andthen (gets (\<lambda>s. devsw_read s (sint (ip_major ip)))) (\<lambda>f.
          case f of None \<Rightarrow> ret (-1, []) | Some g \<Rightarrow> ret (g i n)))
     else if off > ip_size ip \<or> off + n < off then ret (-1, [])
     else
       let n' = (if off + n > ip_size ip then ip_size ip - off else n)
       in andthen (readi_loop i (unat off) (unat n') []) (\<lambda>(good, dst).
          ret (if good then uint n' else -1, dst)))"

text \<open>The update of the stored checksum in \<open>writei\<close>.\<close>

definition tagged :: "32 word \<Rightarrow> byte \<Rightarrow> 32 word" where
  "tagged a c = low24 a OR push_bit 24 (ucast c)"

definition tag_block :: "nat \<Rightarrow> nat \<Rightarrow> ('z fsk_scheme, unit) comp" where
  "tag_block i bn =
     andthen (inode_at i) (\<lambda>ip.
     andthen (bmap i bn) (\<lambda>a.
     andthen (bread (ip_dev ip) a) (\<lambda>bp.
     andthen (bdata bp) (\<lambda>d.
     if bn < NDIRECT then
       andthen (upd_inode i (\<lambda>ip. ip\<lparr>ip_addrs := (ip_addrs ip)[bn := tagged (ip_addrs ip ! bn) (checksum d)]\<rparr>)) (\<lambda>_.
       brelse bp)
     else
       andthen (brelse bp) (\<lambda>_.
       andthen (inode_at i) (\<lambda>ip.
       andthen (bread (ip_dev ip) (low24 (ip_addrs ip ! NDIRECT))) (\<lambda>bp.
       andthen (bdata bp) (\<lambda>e.
       andthen (set_bdata bp (put32 (bn - NDIRECT) (tagged (get32 (bn - NDIRECT) e) (checksum d)) e)) (\<lambda>_.
       andthen (bwrite bp) (\<lambda>_.
       andthen (brelse bp) (\<lambda>_. ret ())))))))))))"

function writei_loop :: "nat \<Rightarrow> nat \<Rightarrow> byte list \<Rightarrow> ('z fsk_scheme, nat) comp" where
  "writei_loop i off src =
     (if src = [] then ret off
      else
        let m = min (length src) (BSIZE - off mod BSIZE)
        in andthen (inode_at i) (\<lambda>ip.
           andthen (bmap i (off div BSIZE)) (\<lambda>a.
           andthen (bread (ip_dev ip) a) (\<lambda>bp.
           andthen (bdata bp) (\<lambda>d.
           andthen (set_bdata bp (poke (off mod BSIZE) (take m src) d)) (\<lambda>_.
           andthen (bwrite bp) (\<lambda>_.
           andthen (brelse bp) (\<lambda>_.
           andthen (if ip_type ip = T_CHECKED then tag_block i (off div BSIZE) else ret ()) (\<lambda>_.
           writei_loop i (off + m) (drop m src))))))))))"
  by pat_completeness auto
termination
  by (relation "measure (\<lambda>(i, off, src). length src)") (auto simp: BSIZE_def)

declare writei_loop.simps [simp del]

text \<open>\<open>src\<close> is the buffer; \<open>n\<close> of its bytes are written.\<close>

definition writei :: "nat \<Rightarrow> byte list \<Rightarrow> 32 word \<Rightarrow> 32 word \<Rightarrow> ('z fsk_scheme, int) comp" where
  "writei i src off n =
     andthen (inode_at i) (\<lambda>ip.
     if ip_type ip = T_DEV then
       (if sint (ip_major ip) < 0 \<or> sint (ip_major ip) \<ge> NDEV then ret (-1)
        else
          andthen (gets (\<lambda>s. devsw_write s (sint (ip_major ip)))) (\<lambda>f.
          case f of None \<Rightarrow> ret (-1) | Some g \<Rightarrow> ret (g i (take (unat n) src))))
     else if off > ip_size ip \<or> off + n < off then ret (-1)
     else
       let n' = (if off + n > of_nat (MAXFILE * BSIZE) then of_nat (MAXFILE * BSIZE) - off else n)
       in andthen (writei_loop i (unat off) (take (unat n') src)) (\<lambda>off'.
          andthen (if n' > 0 \<and> of_nat off' > ip_size ip
                   then upd_inode i (\<lambda>ip. ip\<lparr>ip_size := of_nat off'\<rparr>) else ret ()) (\<lambda>_.
          andthen (iupdate i) (\<lambda>_. ret (uint n')))))"

end
