(* ===== verification/Block_Store.thy ===== *)
theory Block_Store
  imports Xv6_Base
begin

text \<open>
  What \<open>fs.c\<close> relies on of the buffer cache: a store of blocks by device and number, of which the caller holds some
  through handles. \<open>owner\<close> says which block a handle that is held stands for, \<open>hdata\<close> what bytes its buffer has,
  \<open>content\<close> what the disk has, \<open>other\<close> stands for the rest of the state. The laws are the promises of \<open>bread\<close>,
  \<open>bwrite\<close> and \<open>brelse\<close>; the two idioms of \<open>fs.c\<close>, reading a block and changing a block, are derived from them.
\<close>

type_synonym key = "32 word \<times> 32 word"

locale block_store =
  fixes ok :: "'s \<Rightarrow> bool" and content :: "'s \<Rightarrow> key \<Rightarrow> byte list" and owner :: "'s \<Rightarrow> nat \<rightharpoonup> key"
    and hdata :: "'s \<Rightarrow> nat \<Rightarrow> byte list" and other :: "'s \<Rightarrow> 'o"
    and valid_key :: "key \<Rightarrow> bool" and capacity :: nat and size :: nat
    and bread :: "32 word \<Rightarrow> 32 word \<Rightarrow> ('s, nat) comp" and bdata :: "nat \<Rightarrow> ('s, byte list) comp"
    and set_bdata :: "nat \<Rightarrow> byte list \<Rightarrow> ('s, unit) comp"
    and bwrite :: "nat \<Rightarrow> ('s, unit) comp" and brelse :: "nat \<Rightarrow> ('s, unit) comp"
  assumes length_law: "ok s \<Longrightarrow> valid_key k \<Longrightarrow> length (content s k) = size"
    and bread_law: "ok s \<Longrightarrow> valid_key (d, x) \<Longrightarrow> (d, x) \<notin> ran (owner s) \<Longrightarrow> card (dom (owner s)) < capacity \<Longrightarrow>
      \<exists>i t. bread d x s = Ok (i, t) \<and> ok t \<and> content t = content s \<and> owner s i = None \<and>
        owner t = (owner s)(i \<mapsto> (d, x)) \<and> hdata t i = content s (d, x) \<and>
        (\<forall>j \<in> dom (owner s). hdata t j = hdata s j) \<and> other t = other s"
    and held_law: "ok s \<Longrightarrow> (d, x) \<in> ran (owner s) \<Longrightarrow> bread d x s = Sleep"
    and bdata_law: "bdata i s = Ok (hdata s i, s)"
    and set_law: "ok s \<Longrightarrow> owner s i = Some k \<Longrightarrow> length b = size \<Longrightarrow>
      \<exists>t. set_bdata i b s = Ok ((), t) \<and> ok t \<and> content t = content s \<and> owner t = owner s \<and> hdata t i = b \<and>
        (\<forall>j \<in> dom (owner s) - {i}. hdata t j = hdata s j) \<and> other t = other s"
    and bwrite_law: "ok s \<Longrightarrow> owner s i = Some k \<Longrightarrow>
      \<exists>t. bwrite i s = Ok ((), t) \<and> ok t \<and> content t = (content s)(k := hdata s i) \<and> owner t = owner s \<and>
        (\<forall>j \<in> dom (owner s). hdata t j = hdata s j) \<and> other t = other s"
    and brelse_law: "ok s \<Longrightarrow> owner s i = Some k \<Longrightarrow> hdata s i = content s k \<Longrightarrow>
      \<exists>t. brelse i s = Ok ((), t) \<and> ok t \<and> content t = content s \<and> owner t = (owner s)(i := None) \<and>
        (\<forall>j \<in> dom (owner s). hdata t j = hdata s j) \<and> other t = other s"
begin

text \<open>
  A step that ends with the handles of \<open>s\<close>, the disk as \<open>C\<close> and the rest of the state as \<open>O\<close>; a state in which handle
  \<open>i\<close> is held for block \<open>k\<close> in addition, with bytes \<open>h\<close>; a block that can be read now.
\<close>

definition becomes :: "(key \<Rightarrow> byte list) \<Rightarrow> 'o \<Rightarrow> 's \<Rightarrow> 's \<Rightarrow> bool" where
  "becomes C R s t \<longleftrightarrow> ok t \<and> content t = C \<and> owner t = owner s \<and>
     (\<forall>j \<in> dom (owner s). hdata t j = hdata s j) \<and> other t = R"

definition taken :: "nat \<Rightarrow> key \<Rightarrow> byte list \<Rightarrow> (key \<Rightarrow> byte list) \<Rightarrow> 'o \<Rightarrow> 's \<Rightarrow> 's \<Rightarrow> bool" where
  "taken i k h C R s t \<longleftrightarrow> ok t \<and> content t = C \<and> owner s i = None \<and> owner t = (owner s)(i \<mapsto> k) \<and> hdata t i = h \<and>
     (\<forall>j \<in> dom (owner s). hdata t j = hdata s j) \<and> other t = R"

definition ready :: "key \<Rightarrow> 's \<Rightarrow> bool" where
  "ready k s \<longleftrightarrow> ok s \<and> valid_key k \<and> k \<notin> ran (owner s) \<and> finite (dom (owner s)) \<and> card (dom (owner s)) < capacity"

lemma becomes_refl: "ok s \<Longrightarrow> becomes (content s) (other s) s s"
  by (simp add: becomes_def)

lemma becomes_trans: "becomes C R s t \<Longrightarrow> becomes D Q t r \<Longrightarrow> becomes D Q s r"
  by (simp add: becomes_def)

lemma becomesD: "becomes C R s t \<Longrightarrow> ok t \<and> content t = C \<and> other t = R"
  by (simp add: becomes_def)

lemma ready_after: "becomes C R s t \<Longrightarrow> ready k s \<Longrightarrow> ready k t"
  by (simp add: becomes_def ready_def)

lemma taken_becomes: "taken i k h C R s t \<Longrightarrow> becomes D Q t r \<Longrightarrow> taken i k h D Q s r"
  by (auto simp: taken_def becomes_def)

lemma ready_taken:
  assumes "taken i k h C R s t" "ready k' s" "k' \<noteq> k" "Suc (card (dom (owner s))) < capacity"
  shows "ready k' t"
proof -
  have "owner t = (owner s)(i \<mapsto> k)" "i \<notin> dom (owner s)" "ok t" using assms(1) by (auto simp: taken_def)
  with assms(2-4) show ?thesis by (auto simp: ready_def ran_def)
qed

lemma take_block:
  assumes "ready (d, x) s"
  obtains i t where "bread d x s = Ok (i, t)" "taken i (d, x) (content s (d, x)) (content s) (other s) s t"
  using bread_law[of s d x] assms unfolding ready_def taken_def by blast

lemma taken_data: "taken i k h C R s t \<Longrightarrow> bdata i t = Ok (h, t)"
  by (simp add: bdata_law taken_def)

lemma set_block:
  assumes "taken i k h C R s t" "length b = size"
  obtains r where "set_bdata i b t = Ok ((), r)" "taken i k b C R s r"
proof -
  have t: "ok t" "content t = C" "owner s i = None" "owner t = (owner s)(i \<mapsto> k)"
    "\<forall>j \<in> dom (owner s). hdata t j = hdata s j" "other t = R"
    using assms(1) by (simp_all add: taken_def)
  obtain r where r: "set_bdata i b t = Ok ((), r)" "ok r" "content r = content t" "owner r = owner t" "hdata r i = b"
    "\<forall>j \<in> dom (owner t) - {i}. hdata r j = hdata t j" "other r = other t"
    using set_law[OF t(1) _ assms(2), of i k] t(4) by auto
  have "\<forall>j \<in> dom (owner s). hdata r j = hdata s j"
  proof
    fix j assume j: "j \<in> dom (owner s)"
    then have "j \<noteq> i" using t(3) by auto
    then show "hdata r j = hdata s j" using j r(6) t(4,5) by auto
  qed
  with r t show thesis by (intro that) (auto simp: taken_def)
qed

lemma write_block:
  assumes "taken i k h C R s t"
  obtains r where "bwrite i t = Ok ((), r)" "taken i k h (C(k := h)) R s r"
proof -
  have t: "ok t" "content t = C" "owner s i = None" "owner t = (owner s)(i \<mapsto> k)" "hdata t i = h"
    "\<forall>j \<in> dom (owner s). hdata t j = hdata s j" "other t = R"
    using assms(1) by (simp_all add: taken_def)
  obtain r where r: "bwrite i t = Ok ((), r)" "ok r" "content r = (content t)(k := hdata t i)" "owner r = owner t"
    "\<forall>j \<in> dom (owner t). hdata r j = hdata t j" "other r = other t"
    using bwrite_law[OF t(1), of i k] t(4) by auto
  with t show thesis by (intro that) (auto simp: taken_def)
qed

lemma release_block:
  assumes "taken i k h C R s t" "h = C k"
  obtains r where "brelse i t = Ok ((), r)" "becomes C R s r" "hdata r i = h"
proof -
  have t: "ok t" "content t = C" "owner s i = None" "owner t = (owner s)(i \<mapsto> k)" "hdata t i = h"
    "\<forall>j \<in> dom (owner s). hdata t j = hdata s j" "other t = R"
    using assms(1) by (simp_all add: taken_def)
  obtain r where r: "brelse i t = Ok ((), r)" "ok r" "content r = content t" "owner r = (owner t)(i := None)"
    "\<forall>j \<in> dom (owner t). hdata r j = hdata t j" "other r = other t"
    using brelse_law[OF t(1), of i k] t assms(2) by auto
  have "owner r = owner s" using r(4) t(3,4) by (simp add: fun_upd_idem)
  moreover have "\<forall>j \<in> dom (owner s). hdata r j = hdata s j"
  proof
    fix j assume j: "j \<in> dom (owner s)"
    then have "j \<noteq> i" using t(3) by auto
    then show "hdata r j = hdata s j" using j r(5) t(4,6) by auto
  qed
  moreover have "hdata r i = h" using r(5) t(4,5) by simp
  ultimately show thesis using r t by (intro that[OF r(1)]) (auto simp: becomes_def)
qed

text \<open>The two idioms.\<close>

lemma read_block:
  assumes "ready (d, x) s"
  obtains t where "andthen (bread d x) (\<lambda>i. andthen (bdata i) (\<lambda>b. andthen (brelse i) (\<lambda>_. f b))) s = f (content s (d, x)) t"
    "becomes (content s) (other s) s t"
proof -
  obtain i t where t: "bread d x s = Ok (i, t)" "taken i (d, x) (content s (d, x)) (content s) (other s) s t"
    using take_block[OF assms] .
  obtain r where "brelse i t = Ok ((), r)" "becomes (content s) (other s) s r" using release_block[OF t(2)] by auto
  with t taken_data[OF t(2)] show thesis by (intro that) (auto simp: andthen_Ok)
qed

lemma change_held:
  assumes "taken i k h C R s t" "length b = size"
  obtains r where "andthen (set_bdata i b) (\<lambda>_. andthen (bwrite i) (\<lambda>_. andthen (brelse i) f)) t = f () r"
    "becomes (C(k := b)) R s r"
proof -
  obtain t1 where t1: "set_bdata i b t = Ok ((), t1)" "taken i k b C R s t1" using set_block[OF assms] .
  obtain t2 where t2: "bwrite i t1 = Ok ((), t2)" "taken i k b (C(k := b)) R s t2" using write_block[OF t1(2)] .
  obtain t3 where "brelse i t2 = Ok ((), t3)" "becomes (C(k := b)) R s t3" using release_block[OF t2(2)] by auto
  with t1 t2 show thesis by (intro that) (auto simp: andthen_Ok)
qed

lemma change_block:
  assumes "ready (d, x) s" "length (g (content s (d, x))) = size"
  obtains t where "andthen (bread d x) (\<lambda>i. andthen (bdata i) (\<lambda>b. andthen (set_bdata i (g b)) (\<lambda>_. andthen (bwrite i) (\<lambda>_.
      andthen (brelse i) (\<lambda>_. f b))))) s = f (content s (d, x)) t"
    "becomes ((content s)((d, x) := g (content s (d, x)))) (other s) s t"
proof -
  obtain i t where t: "bread d x s = Ok (i, t)" "taken i (d, x) (content s (d, x)) (content s) (other s) s t"
    using take_block[OF assms(1)] .
  obtain r where "andthen (set_bdata i (g (content s (d, x)))) (\<lambda>_. andthen (bwrite i) (\<lambda>_.
      andthen (brelse i) (\<lambda>_. f (content s (d, x))))) t = f (content s (d, x)) r"
    "becomes ((content s)((d, x) := g (content s (d, x)))) (other s) s r"
    using change_held[OF t(2) assms(2), of "\<lambda>_. f (content s (d, x))"] .
  with t taken_data[OF t(2)] show thesis by (intro that) (auto simp: andthen_Ok)
qed

end

end
