(* ===== verification/Xv6_Bcache.thy ===== *)
theory Xv6_Bcache
  imports Xv6_Bio Block_Store
begin

text \<open>
  The buffer cache is a block store: between two calls every valid buffer that no process holds has the bytes of
  its sector, no sector has two buffers, and \<open>bwrite\<close> is synchronous. The interface \<open>block_store\<close> is interpreted
  with \<open>bread\<close>, \<open>bwrite\<close>, \<open>brelse\<close>, so what \<open>fs.c\<close> relies on is proved for the code of \<open>bio.c\<close> and \<open>ide.c\<close>.
\<close>

section \<open>The driver\<close>

definition key_ok :: "32 word \<Rightarrow> 32 word \<Rightarrow> bool" where
  "key_ok d x \<longleftrightarrow> (d = 0 \<or> d = 1) \<and> x < 2 ^ 28"

lemma low28: "x < 2 ^ 28 \<Longrightarrow> (x :: 32 word) AND mask 28 = x"
  by (rule less_mask_eq)

lemma lba_mask: "ide_lba b = b_sector b AND mask 28"
proof -
  have m: "(0xff :: 32 word) = mask 8" "(0x0f :: 32 word) = mask 4" by (simp_all add: mask_eq_exp_minus_1)
  show ?thesis
    unfolding ide_lba_def m
  proof (rule bit_word_eqI)
    fix n assume "n < LENGTH(32)"
    consider "n < 8" | "8 \<le> n" "n < 16" | "16 \<le> n" "n < 24" | "24 \<le> n" by linarith
    then show "bit (b_sector b AND mask 8 OR push_bit 8 (drop_bit 8 (b_sector b) AND mask 8) OR
        push_bit 16 (drop_bit 16 (b_sector b) AND mask 8) OR push_bit 24 (drop_bit 24 (b_sector b) AND mask 4)) n =
      bit (b_sector b AND mask 28) n"
      using \<open>n < LENGTH(32)\<close> by cases (auto simp: bit_simps)
  qed
qed

lemma ide_key:
  assumes "key_ok (b_dev b) (b_sector b)"
  shows "ide_dev b = b_dev b" "ide_lba b = b_sector b"
  using assms low28 by (auto simp: key_ok_def ide_dev_def lba_mask)

text \<open>The two uses of \<open>iderw\<close>, from an idle driver.\<close>

lemma iderw_read:
  assumes "i < length (bufs s)" "idequeue s = []" "havedisk1 s" "\<forall>d x. \<not> badsector s d x"
    "b_busy (bufs s ! i)" "\<not> b_valid (bufs s ! i)" "\<not> b_dirty (bufs s ! i)"
  shows "iderw i s = Ok ((), s\<lparr>bufs := (bufs s)[i := (bufs s ! i)
     \<lparr>b_data := disk s (ide_dev (bufs s ! i)) (ide_lba (bufs s ! i)), b_valid := True\<rparr>]\<rparr>)"
proof -
  let ?b = "bufs s ! i"
  let ?s = "s\<lparr>idequeue := [i]\<rparr>"
  have "iderw i s = ide_wait i ?s"
    using assms by (simp add: iderw_def idestart_def Let_def)
  also have "\<dots> = ide_wait i (ideintr ?s)"
    using assms by (subst ide_wait.simps) simp
  also have "ideintr ?s = s\<lparr>bufs := (bufs s)[i := ?b\<lparr>b_data := disk s (ide_dev ?b) (ide_lba ?b), b_valid := True\<rparr>]\<rparr>"
  proof (rule kern.equality)
    have eq: "?b\<lparr>b_data := d, b_valid := True, b_dirty := False\<rparr> = ?b\<lparr>b_data := d, b_valid := True\<rparr>" for d
      using assms(7) by (intro buf.equality) simp_all
    show "bufs (ideintr ?s) = bufs (s\<lparr>bufs := (bufs s)[i := ?b\<lparr>b_data := disk s (ide_dev ?b) (ide_lba ?b), b_valid := True\<rparr>]\<rparr>)"
      using assms by (simp add: ideintr_def upd_buf_def Let_def eq)
  qed (use assms in \<open>simp_all add: ideintr_def upd_buf_def Let_def\<close>)
  finally show ?thesis using assms(1,7) by (simp add: ide_wait.simps)
qed

lemma iderw_write:
  assumes "i < length (bufs s)" "idequeue s = []" "havedisk1 s" "b_busy (bufs s ! i)" "b_dirty (bufs s ! i)"
  shows "iderw i s = Ok ((), s
     \<lparr>disk := (disk s)(ide_dev (bufs s ! i) := (disk s (ide_dev (bufs s ! i)))(ide_lba (bufs s ! i) := b_data (bufs s ! i))),
      bufs := (bufs s)[i := (bufs s ! i)\<lparr>b_valid := True, b_dirty := False\<rparr>]\<rparr>)"
proof -
  let ?b = "bufs s ! i"
  let ?s = "s\<lparr>idequeue := [i], disk := (disk s)(ide_dev ?b := (disk s (ide_dev ?b))(ide_lba ?b := b_data ?b))\<rparr>"
  have "iderw i s = ide_wait i ?s"
    using assms by (simp add: iderw_def idestart_def Let_def)
  also have "\<dots> = ide_wait i (ideintr ?s)"
    using assms by (subst ide_wait.simps) simp
  also have "ideintr ?s = s\<lparr>disk := (disk s)(ide_dev ?b := (disk s (ide_dev ?b))(ide_lba ?b := b_data ?b)),
      bufs := (bufs s)[i := ?b\<lparr>b_valid := True, b_dirty := False\<rparr>]\<rparr>"
    using assms by (intro kern.equality) (simp_all add: ideintr_def upd_buf_def Let_def)
  finally show ?thesis using assms(1) by (simp add: ide_wait.simps)
qed

section \<open>The invariant of the cache\<close>

definition buf_ok :: "'z kern_scheme \<Rightarrow> buf \<Rightarrow> bool" where
  "buf_ok s b \<longleftrightarrow> \<not> b_dirty b \<and> length (b_data b) = BSIZE \<and> (b_busy b \<or> b_valid b \<longrightarrow> key_ok (b_dev b) (b_sector b)) \<and>
     (b_busy b \<longrightarrow> b_valid b) \<and> (b_valid b \<and> \<not> b_busy b \<longrightarrow> b_data b = disk s (b_dev b) (b_sector b))"

definition drive_ok :: "'z kern_scheme \<Rightarrow> bool" where
  "drive_ok s \<longleftrightarrow> idequeue s = [] \<and> havedisk1 s \<and> (\<forall>d x. \<not> badsector s d x) \<and> (\<forall>d x. length (disk s d x) = BSIZE)"

definition cache_ok :: "'z kern_scheme \<Rightarrow> bool" where
  "cache_ok s \<longleftrightarrow> length (bufs s) = NBUF \<and> distinct (lru s) \<and> set (lru s) = {..<NBUF} \<and> drive_ok s \<and>
     (\<forall>i < NBUF. buf_ok s (bufs s ! i)) \<and>
     (\<forall>i < NBUF. \<forall>j < NBUF. b_dev (bufs s ! i) \<noteq> -1 \<longrightarrow> b_dev (bufs s ! i) = b_dev (bufs s ! j) \<longrightarrow>
        b_sector (bufs s ! i) = b_sector (bufs s ! j) \<longrightarrow> i = j)"

definition holder :: "'z kern_scheme \<Rightarrow> nat \<rightharpoonup> key" where
  "holder s i = (if i < NBUF \<and> b_busy (bufs s ! i) then Some (b_dev (bufs s ! i), b_sector (bufs s ! i)) else None)"

definition sector :: "'z kern_scheme \<Rightarrow> key \<Rightarrow> byte list" where
  "sector s k = disk s (fst k) (snd k)"

definition held_data :: "'z kern_scheme \<Rightarrow> nat \<Rightarrow> byte list" where
  "held_data s i = b_data (bufs s ! i)"

definition key_valid :: "key \<Rightarrow> bool" where
  "key_valid k \<longleftrightarrow> key_ok (fst k) (snd k)"

lemma key_not_unused: "key_ok d x \<Longrightarrow> d \<noteq> -1"
  by (auto simp: key_ok_def)

lemma holder_busy: "i < NBUF \<Longrightarrow> b_busy (bufs s ! i) \<Longrightarrow> (b_dev (bufs s ! i), b_sector (bufs s ! i)) \<in> ran (holder s)"
  by (rule ranI[of _ i]) (simp add: holder_def)

lemma cache_okD:
  assumes "cache_ok s"
  shows "length (bufs s) = NBUF" "distinct (lru s)" "set (lru s) = {..<NBUF}" "drive_ok s" "idequeue s = []" "havedisk1 s"
    "\<forall>d x. \<not> badsector s d x" "\<And>i. i < NBUF \<Longrightarrow> buf_ok s (bufs s ! i)"
    "\<And>i j. \<lbrakk>i < NBUF; j < NBUF; b_dev (bufs s ! i) \<noteq> -1; b_dev (bufs s ! i) = b_dev (bufs s ! j);
      b_sector (bufs s ! i) = b_sector (bufs s ! j)\<rbrakk> \<Longrightarrow> i = j"
  using assms by (simp_all add: cache_ok_def drive_ok_def)

lemma free_buffer:
  assumes "cache_ok s" "card (dom (holder s)) < NBUF"
  shows "\<exists>i \<in> set (lru s). \<not> b_busy (bufs s ! i)"
proof (rule ccontr)
  assume "\<not> ?thesis"
  then have "dom (holder s) = {..<NBUF}" using cache_okD(3)[OF assms(1)] by (auto simp: holder_def split: if_splits)
  with assms(2) show False by simp
qed

text \<open>What \<open>bread\<close> returns: some buffer that was free and is now the only one for the sector.\<close>

definition held_buf :: "'z kern_scheme \<Rightarrow> 32 word \<Rightarrow> 32 word \<Rightarrow> buf" where
  "held_buf s d x = \<lparr>b_busy = True, b_valid = True, b_dirty = False, b_dev = d, b_sector = x, b_data = disk s d x\<rparr>"

lemma bget_result:
  assumes "cache_ok s" "key_ok d x" "(d, x) \<notin> ran (holder s)" "card (dom (holder s)) < NBUF"
  obtains i b where "i < NBUF" "\<not> b_busy (bufs s ! i)"
    "\<forall>j < NBUF. j \<noteq> i \<longrightarrow> (b_dev (bufs s ! j), b_sector (bufs s ! j)) \<noteq> (d, x)"
    "bget d x s = Ok (i, s\<lparr>bufs := (bufs s)[i := b]\<rparr>)"
    "b_busy b" "b_dev b = d" "b_sector b = x" "\<not> b_dirty b" "b_valid b \<longrightarrow> b_data b = disk s d x"
proof -
  note c = cache_okD[OF assms(1)]
  let ?match = "\<lambda>i. b_dev (bufs s ! i) = d \<and> b_sector (bufs s ! i) = x"
  show thesis
  proof (cases "find ?match (lru s)")
    case (Some i)
    then have i: "i < NBUF" "?match i"
      using find_SomeD[OF Some] c(3) by auto
    have free: "\<not> b_busy (bufs s ! i)" using i assms(3) holder_busy[OF i(1)] by auto
    have "bget d x s = Ok (i, s\<lparr>bufs := (bufs s)[i := (bufs s ! i)\<lparr>b_busy := True\<rparr>]\<rparr>)"
      using Some free by (simp add: bget_def upd_buf_def)
    moreover have "\<forall>j < NBUF. j \<noteq> i \<longrightarrow> (b_dev (bufs s ! j), b_sector (bufs s ! j)) \<noteq> (d, x)"
      using c(9) i key_not_unused[OF assms(2)] by force
    ultimately show thesis
      using c(8)[OF i(1)] i free by (intro that) (auto simp: buf_ok_def)
  next
    case None
    obtain l where "l \<in> set (lru s)" "\<not> b_busy (bufs s ! l)" using free_buffer[OF assms(1,4)] by blast
    then obtain i where found: "find (\<lambda>i. \<not> b_busy (bufs s ! i)) (rev (lru s)) = Some i"
      by (cases "find (\<lambda>i. \<not> b_busy (bufs s ! i)) (rev (lru s))") (auto simp: find_None_iff)
    then have i: "i < NBUF" "\<not> b_busy (bufs s ! i)"
      using find_SomeD[OF found] c(3) by auto
    have "\<forall>j < NBUF. (b_dev (bufs s ! j), b_sector (bufs s ! j)) \<noteq> (d, x)"
      using None c(3) by (auto simp: find_None_iff)
    moreover define b where "b = (bufs s ! i)\<lparr>b_dev := d, b_sector := x, b_busy := True, b_valid := False, b_dirty := False\<rparr>"
    moreover have "bget d x s = Ok (i, s\<lparr>bufs := (bufs s)[i := b]\<rparr>)"
      using None found by (simp add: bget_def upd_buf_def b_def)
    moreover have "b_busy b" "b_dev b = d" "b_sector b = x" "\<not> b_dirty b" "\<not> b_valid b" by (simp_all add: b_def)
    ultimately show thesis using i by (intro that[of i b]) blast+
  qed
qed

lemma bread_result:
  assumes "cache_ok s" "key_ok d x" "(d, x) \<notin> ran (holder s)" "card (dom (holder s)) < NBUF"
  obtains i where "i < NBUF" "\<not> b_busy (bufs s ! i)"
    "\<forall>j < NBUF. j \<noteq> i \<longrightarrow> (b_dev (bufs s ! j), b_sector (bufs s ! j)) \<noteq> (d, x)"
    "bread d x s = Ok (i, s\<lparr>bufs := (bufs s)[i := held_buf s d x]\<rparr>)"
proof -
  note c = cache_okD[OF assms(1)]
  obtain i b where b: "i < NBUF" "\<not> b_busy (bufs s ! i)"
    "\<forall>j < NBUF. j \<noteq> i \<longrightarrow> (b_dev (bufs s ! j), b_sector (bufs s ! j)) \<noteq> (d, x)"
    "bget d x s = Ok (i, s\<lparr>bufs := (bufs s)[i := b]\<rparr>)"
    "b_busy b" "b_dev b = d" "b_sector b = x" "\<not> b_dirty b" "b_valid b \<longrightarrow> b_data b = disk s d x"
    using bget_result[OF assms] .
  let ?s = "s\<lparr>bufs := (bufs s)[i := b]\<rparr>"
  have at: "bufs ?s ! i = b" "i < length (bufs ?s)" using b(1) c(1) by simp_all
  have "bread d x s = Ok (i, s\<lparr>bufs := (bufs s)[i := held_buf s d x]\<rparr>)"
  proof (cases "b_valid b")
    case True
    then have "b = held_buf s d x" using b(5-9) by (cases b) (simp add: held_buf_def)
    with True b(4) at(1) show ?thesis by (simp add: bread_def andthen_Ok)
  next
    case False
    have key: "ide_dev b = d" "ide_lba b = x" using ide_key[of b] b(6,7) assms(2) by simp_all
    have "iderw i ?s = Ok ((), ?s\<lparr>bufs := (bufs ?s)[i := (bufs ?s ! i)
        \<lparr>b_data := disk ?s (ide_dev (bufs ?s ! i)) (ide_lba (bufs ?s ! i)), b_valid := True\<rparr>]\<rparr>)"
      using at c(5-7) b(5,8) False by (intro iderw_read) simp_all
    also have "\<dots> = Ok ((), s\<lparr>bufs := (bufs s)[i := held_buf s d x]\<rparr>)"
      unfolding at using key b(5-8) by (cases b) (simp add: held_buf_def)
    finally show ?thesis using False b(4) at(1) by (simp add: bread_def andthen_Ok)
  qed
  with b(1-3) show thesis by (rule that)
qed

section \<open>The interface\<close>

lemma cache_ok_upd:
  assumes "cache_ok s" "i < NBUF" "buf_ok s b"
    "\<forall>j < NBUF. j \<noteq> i \<longrightarrow> b_dev b \<noteq> -1 \<longrightarrow> (b_dev (bufs s ! j), b_sector (bufs s ! j)) \<noteq> (b_dev b, b_sector b)"
  shows "cache_ok (s\<lparr>bufs := (bufs s)[i := b]\<rparr>)"
proof -
  note c = cache_okD[OF assms(1)]
  let ?s = "s\<lparr>bufs := (bufs s)[i := b]\<rparr>"
  have at: "bufs ?s ! j = (if j = i then b else bufs s ! j)" if "j < NBUF" for j
    using that c(1) by (simp add: nth_list_update)
  have "buf_ok ?s (bufs ?s ! j)" if "j < NBUF" for j
  proof -
    have "buf_ok ?s c = buf_ok s c" for c by (simp add: buf_ok_def)
    then show ?thesis using that c(8)[OF that] assms(3) unfolding at[OF that] by simp
  qed
  moreover have "j = l" if "j < NBUF" "l < NBUF" "b_dev (bufs ?s ! j) \<noteq> -1" "b_dev (bufs ?s ! j) = b_dev (bufs ?s ! l)"
      "b_sector (bufs ?s ! j) = b_sector (bufs ?s ! l)" for j l
    using that assms(4) c(9)[of j l] unfolding at[OF that(1)] at[OF that(2)] by (auto split: if_splits)
  moreover have "drive_ok ?s" using c(4) by (simp add: drive_ok_def)
  ultimately show ?thesis using c(1-3) unfolding cache_ok_def by simp
qed

lemma holder_upd:
  "length (bufs s) = NBUF \<Longrightarrow> i < NBUF \<Longrightarrow>
   holder (s\<lparr>bufs := (bufs s)[i := b]\<rparr>) = (holder s)(i := if b_busy b then Some (b_dev b, b_sector b) else None)"
  by (auto simp: holder_def fun_eq_iff nth_list_update)

lemma holder_fields:
  assumes "holder s i = Some k"
  shows "i < NBUF" "b_busy (bufs s ! i)" "b_dev (bufs s ! i) = fst k" "b_sector (bufs s ! i) = snd k"
  using assms by (auto simp: holder_def split: if_splits)

lemma holder_inj:
  assumes "cache_ok s" "holder s i = Some k" "j < NBUF" "j \<noteq> i"
  shows "(b_dev (bufs s ! j), b_sector (bufs s ! j)) \<noteq> k"
proof
  note h = holder_fields[OF assms(2)]
  assume "(b_dev (bufs s ! j), b_sector (bufs s ! j)) = k"
  moreover have "b_dev (bufs s ! i) \<noteq> -1"
    using cache_okD(8)[OF assms(1) h(1)] h(2) key_not_unused by (auto simp: buf_ok_def)
  ultimately show False using cache_okD(9)[OF assms(1) h(1) assms(3)] h(3,4) assms(4) by auto
qed

lemma bwrite_result:
  assumes "cache_ok s" "holder s i = Some k"
  defines "b \<equiv> bufs s ! i"
  shows "bwrite i s = Ok ((), s\<lparr>disk := (disk s)(fst k := (disk s (fst k))(snd k := b_data b)), bufs := (bufs s)[i := b]\<rparr>)"
proof -
  note c = cache_okD[OF assms(1)] and h = holder_fields[OF assms(2)]
  let ?s = "upd_buf i (\<lambda>b. b\<lparr>b_dirty := True\<rparr>) s"
  have bok: "buf_ok s b" using c(8)[OF h(1)] by (simp add: b_def)
  have at: "bufs ?s ! i = b\<lparr>b_dirty := True\<rparr>" "length (bufs ?s) = NBUF"
    using h(1) c(1) by (simp_all add: upd_buf_def b_def)
  have key: "ide_dev (b\<lparr>b_dirty := True\<rparr>) = fst k" "ide_lba (b\<lparr>b_dirty := True\<rparr>) = snd k"
    using ide_key[of "b\<lparr>b_dirty := True\<rparr>"] bok h(2-4) by (auto simp: buf_ok_def b_def)
  have eq: "b\<lparr>b_dirty := True, b_valid := True, b_dirty := False\<rparr> = b"
    using bok h(2) by (intro buf.equality) (simp_all add: buf_ok_def b_def)
  have "bwrite i s = iderw i ?s" using h(2) by (simp add: bwrite_def)
  also have "\<dots> = Ok ((), ?s\<lparr>disk := (disk ?s)(ide_dev (bufs ?s ! i) := (disk ?s (ide_dev (bufs ?s ! i)))(ide_lba (bufs ?s ! i) := b_data (bufs ?s ! i))),
      bufs := (bufs ?s)[i := (bufs ?s ! i)\<lparr>b_valid := True, b_dirty := False\<rparr>]\<rparr>)"
    using at h(1,2) c(5,6) by (intro iderw_write) (simp_all add: upd_buf_def b_def)
  also have "\<dots> = Ok ((), s\<lparr>disk := (disk s)(fst k := (disk s (fst k))(snd k := b_data b)), bufs := (bufs s)[i := b]\<rparr>)"
    unfolding at(1) key using eq by (simp add: upd_buf_def)
  finally show ?thesis .
qed

text \<open>The laws of the interface, one lemma each, and the interpretation.\<close>

lemma cache_bread:
  fixes s :: "'a kern_scheme"
  assumes s: "cache_ok s" "key_valid (d, x)" "(d, x) \<notin> ran (holder s)" "card (dom (holder s)) < NBUF"
  shows "\<exists>i t. bread d x s = Ok (i, t) \<and> cache_ok t \<and> sector t = sector s \<and> holder s i = None \<and>
      holder t = (holder s)(i \<mapsto> (d, x)) \<and> held_data t i = sector s (d, x) \<and>
      (\<forall>j \<in> dom (holder s). held_data t j = held_data s j) \<and> kern.more t = kern.more s"
proof -
  have key: "key_ok d x" using s(2) by (simp add: key_valid_def)
  note c = cache_okD[OF s(1)]
  obtain i where i: "i < NBUF" "\<not> b_busy (bufs s ! i)"
    "\<forall>j < NBUF. j \<noteq> i \<longrightarrow> (b_dev (bufs s ! j), b_sector (bufs s ! j)) \<noteq> (d, x)"
    "bread d x s = Ok (i, s\<lparr>bufs := (bufs s)[i := held_buf s d x]\<rparr>)"
    using bread_result[OF s(1) key s(3,4)] .
  let ?t = "s\<lparr>bufs := (bufs s)[i := held_buf s d x]\<rparr>"
  have "buf_ok s (held_buf s d x)" using key c(4) by (simp add: buf_ok_def held_buf_def drive_ok_def)
  then have "cache_ok ?t" using cache_ok_upd[OF s(1) i(1)] i(3) by (simp add: held_buf_def)
  moreover have "holder ?t = (holder s)(i \<mapsto> (d, x))" using holder_upd[OF c(1) i(1)] by (simp add: held_buf_def)
  moreover have "holder s i = None" using i(2) by (simp add: holder_def)
  moreover have "\<forall>j \<in> dom (holder s). held_data ?t j = held_data s j"
  proof
    fix j assume "j \<in> dom (holder s)"
    then have "j \<noteq> i" using \<open>holder s i = None\<close> by auto
    then show "held_data ?t j = held_data s j" by (simp add: held_data_def)
  qed
  ultimately show ?thesis
    using i c(1) by (intro exI[of _ i] exI[of _ ?t]) (auto simp: sector_def held_data_def held_buf_def fun_eq_iff)
qed

lemma cache_held:
  fixes s :: "'a kern_scheme"
  assumes s: "cache_ok s" "(d, x) \<in> ran (holder s)"
  shows "bread d x s = Sleep"
proof -
  from s obtain i where i: "holder s i = Some (d, x)" by (auto simp: ran_def)
  note h = holder_fields[OF i] and c = cache_okD[OF s(1)]
  have "find (\<lambda>j. b_dev (bufs s ! j) = d \<and> b_sector (bufs s ! j) = x) (lru s) = Some i"
  proof -
    obtain j where j: "find (\<lambda>j. b_dev (bufs s ! j) = d \<and> b_sector (bufs s ! j) = x) (lru s) = Some j"
      using h c(3) by (cases "find (\<lambda>j. b_dev (bufs s ! j) = d \<and> b_sector (bufs s ! j) = x) (lru s)") (auto simp: find_None_iff)
    then have "j < NBUF" "(b_dev (bufs s ! j), b_sector (bufs s ! j)) = (d, x)"
      using find_SomeD[OF j] c(3) by auto
    with holder_inj[OF s(1) i] j show ?thesis by (cases "j = i") auto
  qed
  then show ?thesis using h(2) by (simp add: bread_def bget_def andthen_def)
qed

lemma cache_set:
  fixes s :: "'a kern_scheme" and b :: "byte list"
  assumes s: "cache_ok s" "holder s i = Some k" "length b = BSIZE"
  shows "\<exists>t. set_bdata i b s = Ok ((), t) \<and> cache_ok t \<and> sector t = sector s \<and> holder t = holder s \<and> held_data t i = b \<and>
      (\<forall>j \<in> dom (holder s) - {i}. held_data t j = held_data s j) \<and> kern.more t = kern.more s"
proof -
  note h = holder_fields[OF s(2)] and c = cache_okD[OF s(1)]
  let ?t = "s\<lparr>bufs := (bufs s)[i := (bufs s ! i)\<lparr>b_data := b\<rparr>]\<rparr>"
  have "buf_ok s ((bufs s ! i)\<lparr>b_data := b\<rparr>)" using c(8)[OF h(1)] s(3) h(2) by (simp add: buf_ok_def)
  then have "cache_ok ?t"
    by (rule cache_ok_upd[OF s(1) h(1)]) (use holder_inj[OF s(1,2)] h(3,4) in force)
  moreover have "holder ?t = holder s" using holder_upd[OF c(1) h(1)] h(2-4) s(2) by auto
  ultimately show ?thesis
    using h(1) c(1) by (intro exI[of _ ?t]) (auto simp: set_bdata_def upd_buf_def sector_def held_data_def nth_list_update fun_eq_iff)
qed

lemma cache_write:
  fixes s :: "'a kern_scheme"
  assumes s: "cache_ok s" "holder s i = Some k"
  shows "\<exists>t. bwrite i s = Ok ((), t) \<and> cache_ok t \<and> sector t = (sector s)(k := held_data s i) \<and> holder t = holder s \<and>
      (\<forall>j \<in> dom (holder s). held_data t j = held_data s j) \<and> kern.more t = kern.more s"
proof -
  note h = holder_fields[OF s(2)] and c = cache_okD[OF s(1)]
  let ?D = "(disk s)(fst k := (disk s (fst k))(snd k := b_data (bufs s ! i)))"
  let ?t = "s\<lparr>disk := ?D, bufs := (bufs s)[i := bufs s ! i]\<rparr>"
  have bufs: "bufs ?t = bufs s" by simp
  have other: "?D (b_dev (bufs s ! j)) (b_sector (bufs s ! j)) = disk s (b_dev (bufs s ! j)) (b_sector (bufs s ! j))"
    if "j < NBUF" "j \<noteq> i" for j using holder_inj[OF s that] by auto
  have "buf_ok ?t (bufs s ! j)" if "j < NBUF" for j
    using c(8)[OF that] other[OF that] h(2) by (cases "j = i") (auto simp: buf_ok_def)
  moreover have "drive_ok ?t" using c(4) c(8)[OF h(1)] by (auto simp: drive_ok_def buf_ok_def)
  ultimately have "cache_ok ?t" using s(1) unfolding cache_ok_def bufs by simp
  moreover have "holder ?t = holder s" by (simp add: holder_def fun_eq_iff)
  moreover have "sector ?t = (sector s)(k := held_data s i)"
    by (cases k) (auto simp: sector_def held_data_def fun_eq_iff)
  ultimately show ?thesis
    using bwrite_result[OF s] by (intro exI[of _ ?t]) (simp add: held_data_def)
qed

lemma cache_release:
  fixes s :: "'a kern_scheme"
  assumes s: "cache_ok s" "holder s i = Some k" "held_data s i = sector s k"
  shows "\<exists>t. brelse i s = Ok ((), t) \<and> cache_ok t \<and> sector t = sector s \<and> holder t = (holder s)(i := None) \<and>
      (\<forall>j \<in> dom (holder s). held_data t j = held_data s j) \<and> kern.more t = kern.more s"
proof -
  note h = holder_fields[OF s(2)] and c = cache_okD[OF s(1)]
  let ?s = "s\<lparr>lru := i # remove1 i (lru s)\<rparr>"
  let ?b = "(bufs s ! i)\<lparr>b_busy := False\<rparr>"
  let ?t = "?s\<lparr>bufs := (bufs ?s)[i := ?b]\<rparr>"
  have "set (i # remove1 i (lru s)) = {..<NBUF}" "distinct (i # remove1 i (lru s))"
    using c(2,3) h(1) by (auto simp: set_remove1_eq)
  then have "cache_ok ?s" using s(1) unfolding cache_ok_def by (simp add: buf_ok_def drive_ok_def)
  moreover have "buf_ok ?s ?b"
    using c(8)[OF h(1)] h s(3) by (auto simp: buf_ok_def held_data_def sector_def)
  ultimately have "cache_ok ?t"
    by (rule cache_ok_upd[OF _ h(1)]) (use holder_inj[OF s(1,2)] h(3,4) in force)
  moreover have "holder ?t = (holder s)(i := None)"
    using holder_upd[of ?s i ?b] c(1) h(1) by (auto simp: holder_def fun_eq_iff)
  moreover have "brelse i s = Ok ((), ?t)" using h(2) by (simp add: brelse_def upd_buf_def)
  ultimately show ?thesis
    using h(1) c(1) by (intro exI[of _ ?t]) (auto simp: sector_def held_data_def nth_list_update fun_eq_iff)
qed

interpretation bio: block_store cache_ok sector holder held_data kern.more key_valid NBUF BSIZE bread bdata set_bdata bwrite brelse
proof
  show "length (sector s k) = BSIZE" if "cache_ok s" for s :: "'a kern_scheme" and k
    using cache_okD(4)[OF that] by (simp add: sector_def drive_ok_def)
  show "bdata i s = Ok (held_data s i, s)" for i and s :: "'a kern_scheme" by (simp add: bdata_def held_data_def)
qed (fact cache_bread cache_held cache_set cache_write cache_release)+

text \<open>A block that \<open>bread\<close> returns without waiting: the same as \<open>bio.ready\<close>, written out.\<close>

definition readable :: "key \<Rightarrow> 'z kern_scheme \<Rightarrow> bool" where
  "readable k s \<longleftrightarrow> cache_ok s \<and> key_valid k \<and> k \<notin> ran (holder s) \<and> card (dom (holder s)) < NBUF"

lemma finite_holder: "finite (dom (holder s))"
  by (rule finite_subset[of _ "{..<NBUF}"]) (auto simp: holder_def split: if_splits)

lemma readable_ready: "readable k s \<longleftrightarrow> bio.ready k s"
  unfolding readable_def bio.ready_def using finite_holder[of s] by simp

lemma write_through:
  assumes "readable (d, x) s" "length b = BSIZE"
  obtains t where "andthen (bread d x) (\<lambda>i. andthen (set_bdata i b) (\<lambda>_. andthen (bwrite i) (\<lambda>_. brelse i))) s = Ok ((), t)"
    "bio.becomes ((sector s)((d, x) := b)) (kern.more s) s t"
proof -
  obtain i t where t: "bread d x s = Ok (i, t)" "bio.taken i (d, x) (sector s (d, x)) (sector s) (kern.more s) s t"
    using bio.take_block assms(1) unfolding readable_ready by blast
  obtain t1 where t1: "set_bdata i b t = Ok ((), t1)" "bio.taken i (d, x) b (sector s) (kern.more s) s t1" using bio.set_block[OF t(2) assms(2)] .
  obtain t2 where t2: "bwrite i t1 = Ok ((), t2)" "bio.taken i (d, x) b ((sector s)((d, x) := b)) (kern.more s) s t2" using bio.write_block[OF t1(2)] .
  obtain t3 where t3: "brelse i t2 = Ok ((), t3)" "bio.becomes ((sector s)((d, x) := b)) (kern.more s) s t3" using bio.release_block[OF t2(2)] by auto
  show thesis using t(1) t1(1) t2(1) t3 by (intro that[of t3]) (simp_all add: andthen_Ok)
qed

lemma no_buffers:
  assumes "cache_ok s" "dom (holder s) = {..<NBUF}" "(d, x) \<notin> ran (holder s)"
  shows "bread d x s = Panic ''bget: no buffers''"
proof -
  note c = cache_okD[OF assms(1)]
  have busy: "b_busy (bufs s ! i)" if "i < NBUF" for i
  proof -
    have "i \<in> dom (holder s)" using that assms(2) by simp
    then show ?thesis by (auto simp: holder_def split: if_splits)
  qed
  have "find (\<lambda>i. b_dev (bufs s ! i) = d \<and> b_sector (bufs s ! i) = x) (lru s) = None"
    using holder_busy[of _ s] busy assms(3) c(3) by (auto simp: find_None_iff)
  moreover have "find (\<lambda>i. \<not> b_busy (bufs s ! i)) (rev (lru s)) = None" using busy c(3) by (auto simp: find_None_iff)
  ultimately show ?thesis by (simp add: bread_def bget_def andthen_def)
qed

end
