(* ===== verification/Xv6_Example.thy ===== *)
theory Xv6_Example
  imports Xv6_Fs Xv6_Bcache
begin

text \<open>
  A concrete machine for the witnesses: two drives with the superblock that \<open>mkfs\<close> writes (1024 blocks, 200 inodes), a
  bitmap with the first 32 blocks in use, everything else zero, and the caches as \<open>binit\<close> leaves them.
\<close>

definition empty_buf :: buf where
  "empty_buf = \<lparr>b_busy = False, b_valid = False, b_dirty = False, b_dev = 0, b_sector = 0, b_data = replicate BSIZE 0\<rparr>"

definition empty_inode :: incore where
  "empty_inode = \<lparr>ip_dev = 0, ip_inum = 0, ip_ref = 0, ip_busy = False, ip_valid = False, ip_type = 0, ip_major = 0, ip_minor = 0,
     ip_nlink = 0, ip_size = 0, ip_addrs = replicate 13 0\<rparr>"

definition demo_sector :: "32 word \<Rightarrow> byte list" where
  "demo_sector x = (if x = 1 then put32 0 1024 (put32 1 995 (put32 2 200 (replicate BSIZE 0)))
     else if x = 28 then poke 0 [255, 255, 255, 255] (replicate BSIZE 0) else replicate BSIZE 0)"

definition demo_machine :: fsk where
  "demo_machine = binit \<lparr>bufs = replicate NBUF empty_buf, lru = [], idequeue = [], havedisk1 = True, disk = (\<lambda>d. demo_sector),
     badsector = (\<lambda>d x. False), icache = replicate NINODE empty_inode, devsw_read = (\<lambda>n. None), devsw_write = (\<lambda>n. None)\<rparr>"

lemma demo_fields:
  "bufs demo_machine = replicate NBUF (empty_buf\<lparr>b_dev := -1\<rparr>)" "lru demo_machine = rev [0..<NBUF]" "idequeue demo_machine = []"
  "havedisk1 demo_machine" "disk demo_machine = (\<lambda>d. demo_sector)" "badsector demo_machine = (\<lambda>d x. False)"
  "icache demo_machine = replicate NINODE empty_inode"
  by (simp_all add: demo_machine_def binit_def upd_buf_def NBUF_def upt_rec numeral_nat)

lemma demo_length: "length (demo_sector x) = BSIZE"
  by (simp add: demo_sector_def BSIZE_def)

lemma demo_cache: "cache_ok demo_machine"
  unfolding cache_ok_def drive_ok_def buf_ok_def demo_fields using demo_fields(4) by (auto simp: demo_length empty_buf_def)

lemma demo_holder: "holder demo_machine = Map.empty"
  by (auto simp: holder_def demo_fields empty_buf_def)

text \<open>With no buffer in use every block of the two drives can be read.\<close>

lemma demo_ready: "key_valid k \<Longrightarrow> bio.ready k demo_machine"
  unfolding bio.ready_def by (simp add: demo_cache demo_holder NBUF_def)

lemma demo_readable: "key_valid k \<Longrightarrow> readable k demo_machine"
  by (simp add: readable_ready demo_ready)

text \<open>The machine with all buffers held, for sectors 0 to 9 of drive 0.\<close>

definition demo_full :: fsk where
  "demo_full = demo_machine\<lparr>bufs := map (\<lambda>i. \<lparr>b_busy = True, b_valid = True, b_dirty = False, b_dev = 0, b_sector = of_nat i,
     b_data = replicate BSIZE 0\<rparr>) [0..<NBUF]\<rparr>"

lemma demo_full_nth:
  "i < NBUF \<Longrightarrow> bufs demo_full ! i = \<lparr>b_busy = True, b_valid = True, b_dirty = False, b_dev = 0, b_sector = of_nat i,
     b_data = replicate BSIZE 0\<rparr>"
  by (simp add: demo_full_def)

lemma small_sector: "i < NBUF \<Longrightarrow> unat (of_nat i :: 32 word) = i"
  by (simp add: NBUF_def unat_of_nat take_bit_nat_eq_self)

lemma demo_full_cache: "cache_ok demo_full"
proof -
  have key: "key_ok 0 (of_nat i)" if "i < NBUF" for i
    using that small_sector[OF that] by (simp add: key_ok_def NBUF_def word_less_nat_alt)
  have inj: "i = j" if "i < NBUF" "j < NBUF" "(of_nat i :: 32 word) = of_nat j" for i j
    using that small_sector by metis
  have "drive_ok demo_full" using demo_cache by (simp add: cache_ok_def drive_ok_def demo_full_def)
  then show ?thesis
    unfolding cache_ok_def using key inj by (auto simp: demo_full_nth buf_ok_def) (auto simp: demo_full_def demo_fields)
qed

lemma demo_full_holder: "dom (holder demo_full) = {..<NBUF}" "(1, 1) \<notin> ran (holder demo_full)"
  by (auto simp: holder_def demo_full_nth ran_def split: if_splits)

section \<open>The buffer cache\<close>

text \<open>
  C13. Read after write through the cache: the sequence \<open>bread\<close>, fill the buffer, \<open>bwrite\<close>, \<open>brelse\<close> on a block that no
  process holds puts the bytes on the disk, changes no other sector and neither the owner nor the bytes of a buffer that is held, and the next \<open>bread\<close>
  returns them, whichever buffer it gets.
\<close>

theorem bcache_read_after_write:
  assumes "readable (d, x) s" "length b = BSIZE"
  shows "\<exists>t. andthen (bread d x) (\<lambda>i. andthen (set_bdata i b) (\<lambda>_. andthen (bwrite i) (\<lambda>_. brelse i))) s = Ok ((), t) \<and>
    cache_ok t \<and> holder t = holder s \<and> (\<forall>j \<in> dom (holder s). held_data t j = held_data s j) \<and> sector t = (sector s)((d, x) := b) \<and>
    (\<exists>j u. bread d x t = Ok (j, u) \<and> bdata j u = Ok (b, u))"
proof -
  obtain t where t: "andthen (bread d x) (\<lambda>i. andthen (set_bdata i b) (\<lambda>_. andthen (bwrite i) (\<lambda>_. brelse i))) s = Ok ((), t)"
    "bio.becomes ((sector s)((d, x) := b)) (kern.more s) s t" using write_through[OF assms] .
  have after: "cache_ok t" "sector t = (sector s)((d, x) := b)" "holder t = holder s" "\<forall>j \<in> dom (holder s). held_data t j = held_data s j"
    using t(2) by (simp_all add: bio.becomes_def)
  have "bio.ready (d, x) t" using bio.ready_after[OF t(2)] assms(1) by (simp add: readable_ready)
  from bio.take_block[OF this] obtain j u where "bread d x t = Ok (j, u)" "bdata j u = Ok (sector t (d, x), u)"
    using bio.taken_data by metis
  with t(1) after show ?thesis by simp
qed

theorem bcache_read_after_write_witness:
  "\<exists>h s t. bread 1 1 demo_machine = Ok (h, s) \<and> holder s h = Some (1, 1) \<and>
    andthen (bread 1 40) (\<lambda>i. andthen (set_bdata i (replicate BSIZE 7)) (\<lambda>_. andthen (bwrite i) (\<lambda>_. brelse i))) s = Ok ((), t) \<and>
    held_data t h = sector demo_machine (1, 1) \<and> sector t (1, 40) = replicate BSIZE 7"
proof -
  obtain h s where s: "bread 1 1 demo_machine = Ok (h, s)" "bio.taken h (1, 1) (sector demo_machine (1, 1)) (sector demo_machine) (kern.more demo_machine) demo_machine s"
    using bio.take_block[of 1 1 demo_machine] demo_readable[of "(1, 1)"] unfolding readable_ready by (auto simp: key_valid_def key_ok_def)
  have h: "holder s h = Some (1, 1)" "held_data s h = sector demo_machine (1, 1)" using s(2) by (simp_all add: bio.taken_def)
  have "bio.ready (1, 40) demo_machine" using demo_readable[of "(1, 40)"] unfolding readable_ready by (simp add: key_valid_def key_ok_def)
  moreover have "Suc (card (dom (holder demo_machine))) < NBUF" by (simp add: NBUF_def demo_holder)
  ultimately have "readable (1, 40) s" unfolding readable_ready by (intro bio.ready_taken[OF s(2)]) simp_all
  from bcache_read_after_write[OF this, of "replicate BSIZE 7"] obtain t where
    "andthen (bread 1 40) (\<lambda>i. andthen (set_bdata i (replicate BSIZE 7)) (\<lambda>_. andthen (bwrite i) (\<lambda>_. brelse i))) s = Ok ((), t)"
    "\<forall>j \<in> dom (holder s). held_data t j = held_data s j" "sector t = (sector s)((1, 40) := replicate BSIZE 7)" by auto
  moreover from this(2) h have "held_data t h = sector demo_machine (1, 1)" by (metis domI)
  ultimately show ?thesis using s(1) h(1) by auto
qed

text \<open>
  C14. Exclusive use: \<open>bread\<close> of a block that no process holds returns a buffer that was free, with the bytes of the
  sector, without disturbing the buffers that are held; until it is released a second \<open>bread\<close> of the block sleeps.
\<close>

theorem bread_exclusive:
  assumes "readable (d, x) s"
  shows "\<exists>i t. bread d x s = Ok (i, t) \<and> i \<notin> dom (holder s) \<and> holder t = (holder s)(i \<mapsto> (d, x)) \<and> bdata i t = Ok (sector s (d, x), t) \<and>
    (\<forall>j \<in> dom (holder s). held_data t j = held_data s j) \<and> sector t = sector s \<and> cache_ok t \<and> bread d x t = Sleep"
proof -
  obtain i t where t: "bread d x s = Ok (i, t)" "bio.taken i (d, x) (sector s (d, x)) (sector s) (kern.more s) s t"
    using bio.take_block assms unfolding readable_ready by blast
  note tk = t(2)[unfolded bio.taken_def]
  have "bread d x t = Sleep" using tk by (intro bio.held_law) (auto simp: ran_def)
  with t(1) tk bio.taken_data[OF t(2)] show ?thesis by (auto simp: dom_def)
qed

theorem bread_exclusive_witness: "\<exists>i t. bread 1 1 demo_machine = Ok (i, t) \<and> bread 1 1 t = Sleep"
  using bread_exclusive[OF demo_readable[of "(1, 1)"]] by (auto simp: key_valid_def key_ok_def)

text \<open>
  When all ten buffers are held and none of them is the block's, \<open>bread\<close> panics: there is no buffer to recycle.
\<close>

theorem bread_out_of_buffers:
  assumes "cache_ok s" "dom (holder s) = {..<NBUF}" "(d, x) \<notin> ran (holder s)"
  shows "bread d x s = Panic ''bget: no buffers''"
  using assms by (rule no_buffers)

theorem bread_out_of_buffers_witness: "bread 1 1 demo_full = Panic ''bget: no buffers''"
  by (rule bread_out_of_buffers[OF demo_full_cache demo_full_holder])

end
