(* ===== verification/Xv6_Blocks.thy ===== *)
theory Xv6_Blocks
  imports Xv6_Example
begin

text \<open>
  The block allocator of \<open>fs.c\<close>: \<open>readsb\<close>, \<open>bzero\<close>, \<open>balloc\<close>, \<open>bfree\<close> as updates of the disk, and what they do to the
  set of free blocks. The proofs use the buffer cache through the interface \<open>bio\<close> only.
\<close>

section \<open>Geometry\<close>

definition sb_at :: "(key \<Rightarrow> byte list) \<Rightarrow> 32 word \<Rightarrow> superblock" where
  "sb_at C d = dec_sb (C (d, 1))"

definition geom_ok :: "32 word \<Rightarrow> superblock \<Rightarrow> bool" where
  "geom_ok d sb \<longleftrightarrow> (d = 0 \<or> d = 1) \<and> unat (sb_size sb) \<le> 2 ^ 24 \<and> unat (sb_ninodes sb) \<le> 2 ^ 24"

definition map_key :: "32 word \<Rightarrow> superblock \<Rightarrow> nat \<Rightarrow> key" where
  "map_key d sb b = (d, BBLOCK (of_nat b) (sb_ninodes sb))"

lemma unat_small: "n < 2 ^ 32 \<Longrightarrow> unat (of_nat n :: 32 word) = n"
  by (simp add: unat_of_nat take_bit_nat_eq_self)

lemma unat_BBLOCK:
  assumes "b < 2 ^ 25" "unat nin \<le> 2 ^ 24"
  shows "unat (BBLOCK (of_nat b) nin) = b div BPB + unat nin div IPB + 3"
proof -
  have b: "unat (of_nat b div of_nat BPB :: 32 word) = b div BPB"
    using assms(1) by (simp add: unat_div unat_small BPB_def BSIZE_def)
  have n: "unat (nin div of_nat IPB) = unat nin div IPB"
    by (simp add: unat_div IPB_def BSIZE_def)
  have bound: "b div BPB + unat nin div IPB + 3 < 2 ^ 32"
    using assms by (simp add: BPB_def IPB_def BSIZE_def)
  have "unat (of_nat b div of_nat BPB + nin div of_nat IPB :: 32 word) = b div BPB + unat nin div IPB"
    using b n bound by (simp add: unat_add_lem[THEN iffD1])
  then show ?thesis
    unfolding BBLOCK_def using bound by (subst unat_add_lem[THEN iffD1]) simp_all
qed

lemma map_key_valid:
  assumes "geom_ok d sb" "b < 2 ^ 25"
  shows "key_valid (map_key d sb b)" "map_key d sb b \<noteq> (d, 1)"
proof -
  have u: "unat (BBLOCK (of_nat b) (sb_ninodes sb)) = b div BPB + unat (sb_ninodes sb) div IPB + 3"
    using assms by (intro unat_BBLOCK) (simp_all add: geom_ok_def)
  have "unat (BBLOCK (of_nat b) (sb_ninodes sb)) < 2 ^ 28"
  proof -
    have "unat (sb_ninodes sb) \<le> 2 ^ 24" using assms(1) by (simp add: geom_ok_def)
    then show ?thesis unfolding u using assms(2) by (simp add: BPB_def IPB_def BSIZE_def)
  qed
  then show "key_valid (map_key d sb b)"
    using assms(1) by (simp add: key_valid_def key_ok_def map_key_def geom_ok_def word_less_nat_alt)
  show "map_key d sb b \<noteq> (d, 1)"
    using u by (auto simp: map_key_def)
qed

section \<open>Reading the superblock and clearing a block\<close>

lemma readsb_result:
  assumes "bio.ready (d, 1) s"
  obtains t where "readsb d s = Ok (sb_at (sector s) d, t)" "bio.becomes (sector s) (kern.more s) s t"
  using bio.read_block[OF assms, of "\<lambda>b. ret (dec_sb b)"] by (auto simp: readsb_def sb_at_def)

lemma sector_length: "cache_ok s \<Longrightarrow> length (sector s k) = BSIZE"
  by (simp add: cache_ok_def drive_ok_def sector_def)

lemma bzero_result:
  assumes "bio.ready (d, x) s"
  obtains t where "bzero d x s = Ok ((), t)" "bio.becomes ((sector s)((d, x) := replicate BSIZE 0)) (kern.more s) s t"
proof -
  have len: "length (sector s (d, x)) = BSIZE" using assms by (simp add: bio.ready_def sector_length)
  then have z: "memset 0 0 BSIZE (sector s (d, x)) = replicate BSIZE 0" by (simp add: memset_poke poke_def)
  obtain t where "bzero d x s = Ok ((), t)"
    "bio.becomes ((sector s)((d, x) := memset 0 0 BSIZE (sector s (d, x)))) (kern.more s) s t"
    using bio.change_block[OF assms, of "memset 0 0 BSIZE" "\<lambda>_. ret ()"] z by (auto simp: bzero_def)
  with z show thesis by (intro that) simp_all
qed

section \<open>Bits of the bitmap\<close>

lemma length_set_bit_in [simp]: "length (set_bit_in d i) = length d" "length (clear_bit_in d i) = length d"
  by (simp_all add: set_bit_in_def clear_bit_in_def)

lemma single_bit: "(w :: byte) AND push_bit k 1 = 0 \<longleftrightarrow> \<not> bit w k" if "k < 8"
proof
  assume "w AND push_bit k 1 = 0"
  then have "\<not> bit (w AND push_bit k 1) k" by simp
  with that show "\<not> bit w k" by (simp add: bit_simps)
next
  assume "\<not> bit w k"
  then show "w AND push_bit k 1 = 0" by (intro bit_word_eqI) (auto simp: bit_simps)
qed

lemma bit_free_iff: "bit_free d i \<longleftrightarrow> \<not> bit (d ! (i div 8)) (i mod 8)"
  unfolding bit_free_def by (rule single_bit) simp

lemma split8: "i div 8 = j div 8 \<Longrightarrow> i mod 8 = j mod 8 \<Longrightarrow> (i :: nat) = j"
  by (metis div_mult_mod_eq)

lemma bit_free_set:
  assumes "i div 8 < length d"
  shows "bit_free (set_bit_in d i) j \<longleftrightarrow> j \<noteq> i \<and> bit_free d j"
proof (cases "j div 8 = i div 8")
  case True
  with split8[of j i] assms show ?thesis
    by (auto simp: bit_free_iff set_bit_in_def bit_simps)
next
  case False
  then show ?thesis by (auto simp: bit_free_def set_bit_in_def)
qed

lemma bit_free_clear:
  assumes "i div 8 < length d"
  shows "bit_free (clear_bit_in d i) j \<longleftrightarrow> j = i \<or> bit_free d j"
proof (cases "j div 8 = i div 8")
  case True
  with split8[of j i] assms show ?thesis
    by (auto simp: bit_free_iff clear_bit_in_def bit_simps)
next
  case False
  then show ?thesis by (auto simp: bit_free_def clear_bit_in_def)
qed

text \<open>Block \<open>b\<close> is marked free in the bitmap of \<open>C\<close>.\<close>

definition block_free :: "(key \<Rightarrow> byte list) \<Rightarrow> 32 word \<Rightarrow> nat \<Rightarrow> bool" where
  "block_free C d b \<longleftrightarrow> bit_free (C (map_key d (sb_at C d) b)) (b mod BPB)"

section \<open>balloc\<close>

definition map_ready :: "32 word \<Rightarrow> superblock \<Rightarrow> 'z fsk_scheme \<Rightarrow> bool" where
  "map_ready d sb s \<longleftrightarrow> (\<forall>b < unat (sb_size sb). bio.ready (map_key d sb b) s)"

text \<open>No bit is free between the bitmap block of \<open>b\<close> and block \<open>n\<close>.\<close>

definition none_before :: "32 word \<Rightarrow> superblock \<Rightarrow> (key \<Rightarrow> byte list) \<Rightarrow> nat \<Rightarrow> nat \<Rightarrow> bool" where
  "none_before d sb C b n \<longleftrightarrow>
     (\<forall>c bi. b \<le> c \<longrightarrow> (c - b) mod BPB = 0 \<longrightarrow> bi < BPB \<longrightarrow> c + bi < n \<longrightarrow> \<not> bit_free (C (map_key d sb c)) bi)"

lemma find_upt_first: "find P [0..<n] = Some i \<Longrightarrow> j < i \<Longrightarrow> \<not> P j"
  by (auto simp: find_Some_iff)

lemma chunk_split:
  assumes "b \<le> c" "(c - b) mod BPB = 0"
  shows "c = b \<or> (b + BPB \<le> c \<and> (c - (b + BPB)) mod BPB = 0)"
proof (cases "c - b < BPB")
  case True
  with assms show ?thesis by auto
next
  case False
  with assms le_mod_geq[of BPB "c - b"] show ?thesis by auto
qed

lemma none_before_here:
  assumes "find (bit_free (C (map_key d sb b))) [0..<BPB] = Some bi" "bi < BPB"
  shows "none_before d sb C b (b + bi)"
  unfolding none_before_def
proof (intro allI impI)
  fix c j assume "b \<le> c" "(c - b) mod BPB = 0" and j: "j < BPB" "c + j < b + bi"
  then have "c = b" using chunk_split[of b c] assms(2) by auto
  with j find_upt_first[OF assms(1)] show "\<not> bit_free (C (map_key d sb c)) j" by simp
qed

lemma none_before_next:
  assumes "none_before d sb C (b + BPB) n" "\<And>bi. bi < BPB \<Longrightarrow> \<not> bit_free (C (map_key d sb b)) bi"
  shows "none_before d sb C b n"
  unfolding none_before_def
proof (intro allI impI)
  fix c j assume c: "b \<le> c" "(c - b) mod BPB = 0" "j < BPB" "c + j < n"
  from chunk_split[OF c(1,2)] show "\<not> bit_free (C (map_key d sb c)) j"
    using assms(2)[of j] assms(1)[unfolded none_before_def, rule_format, of c j] c(3,4) by auto
qed

lemma balloc_from_result:
  assumes "map_ready d sb s" "cache_ok s"
  shows "(\<exists>c bi t. b \<le> c \<and> (c - b) mod BPB = 0 \<and> c < unat (sb_size sb) \<and> bi < BPB \<and> bit_free (sector s (map_key d sb c)) bi \<and>
      none_before d sb (sector s) b (c + bi) \<and> balloc_from d sb b s = Ok (of_nat (c + bi), t) \<and>
      bio.becomes ((sector s)(map_key d sb c := set_bit_in (sector s (map_key d sb c)) bi)) (kern.more s) s t) \<or>
    ((\<forall>c bi. b \<le> c \<longrightarrow> (c - b) mod BPB = 0 \<longrightarrow> c < unat (sb_size sb) \<longrightarrow> bi < BPB \<longrightarrow> \<not> bit_free (sector s (map_key d sb c)) bi) \<and>
      balloc_from d sb b s = Panic ''balloc: out of blocks'')"
  using assms
proof (induction "unat (sb_size sb) - b" arbitrary: b s rule: less_induct)
  case less
  show ?case
  proof (cases "b < unat (sb_size sb)")
    case False
    then have "balloc_from d sb b s = Panic ''balloc: out of blocks''" by (subst balloc_from.simps) simp
    with False show ?thesis by (intro disjI2) auto
  next
    case True
    let ?k = "map_key d sb b"
    let ?D = "sector s ?k"
    have rdy: "bio.ready (d, BBLOCK (of_nat b) (sb_ninodes sb)) s"
      using less.prems(1) True by (simp add: map_ready_def map_key_def)
    obtain i t where t: "bread d (BBLOCK (of_nat b) (sb_ninodes sb)) s = Ok (i, t)" "bio.taken i ?k ?D (sector s) (kern.more s) s t"
      using bio.take_block[OF rdy] by (auto simp: map_key_def)
    have dat: "bdata i t = Ok (?D, t)" using bio.taken_data[OF t(2)] .
    have head: "balloc_from d sb b s = (case find (bit_free ?D) [0..<BPB] of
          Some bi \<Rightarrow> andthen (set_bdata i (set_bit_in ?D bi)) (\<lambda>_. andthen (bwrite i) (\<lambda>_. andthen (brelse i) (\<lambda>_. ret (of_nat (b + bi)))))
        | None \<Rightarrow> andthen (brelse i) (\<lambda>_. balloc_from d sb (b + BPB))) t"
      using True t(1) dat by (subst balloc_from.simps) (simp add: andthen_Ok)
    show ?thesis
    proof (cases "find (bit_free ?D) [0..<BPB]")
      case (Some bi)
      then have bi: "bi < BPB" "bit_free ?D bi" using find_SomeD[OF Some] by auto
      have "length (set_bit_in ?D bi) = BSIZE" using less.prems(2) by (simp add: sector_length)
      from bio.change_held[OF t(2) this, of "\<lambda>_. ret (of_nat (b + bi))"]
      obtain r where "balloc_from d sb b s = Ok (of_nat (b + bi), r)"
        "bio.becomes ((sector s)(?k := set_bit_in ?D bi)) (kern.more s) s r"
        unfolding head Some by auto
      with bi True none_before_here[where C = "sector s", OF Some bi(1)] show ?thesis by (intro disjI1 exI[of _ b] exI[of _ bi] exI[of _ r]) simp
    next
      case None
      then have full: "\<not> bit_free ?D bi" if "bi < BPB" for bi using that by (auto simp: find_None_iff)
      obtain r where r: "brelse i t = Ok ((), r)" "bio.becomes (sector s) (kern.more s) s r"
        using bio.release_block[OF t(2)] by auto
      then have step: "balloc_from d sb b s = balloc_from d sb (b + BPB) r" unfolding head None by (simp add: andthen_Ok)
      have same: "cache_ok r" "sector r = sector s" "kern.more r = kern.more s" using bio.becomesD[OF r(2)] by simp_all
      have rdy': "map_ready d sb r" using less.prems(1) bio.ready_after[OF r(2)] by (simp add: map_ready_def)
      have next_chunk: "(c - b) mod BPB = 0" if "b + BPB \<le> c" "(c - (b + BPB)) mod BPB = 0" for c
      proof -
        have "c - b = (c - (b + BPB)) + BPB" using that(1) by simp
        then show ?thesis using that(2) by simp
      qed
      have dec: "unat (sb_size sb) - (b + BPB) < unat (sb_size sb) - b" using True by (simp add: BPB_def BSIZE_def)
      from less.hyps[OF dec rdy' same(1)] show ?thesis
      proof (elim disjE exE conjE)
        fix c bi u assume "b + BPB \<le> c" "(c - (b + BPB)) mod BPB = 0" "c < unat (sb_size sb)" "bi < BPB"
          "bit_free (sector r (map_key d sb c)) bi" "none_before d sb (sector r) (b + BPB) (c + bi)" "balloc_from d sb (b + BPB) r = Ok (of_nat (c + bi), u)"
          "bio.becomes ((sector r)(map_key d sb c := set_bit_in (sector r (map_key d sb c)) bi)) (kern.more r) r u"
        then show ?thesis
          using bio.becomes_trans[OF r(2)] next_chunk none_before_next[where C = "sector s", OF _ full] unfolding step same by (intro disjI1 exI[of _ c] exI[of _ bi] exI[of _ u]) auto
      next
        assume none: "\<forall>c bi. b + BPB \<le> c \<longrightarrow> (c - (b + BPB)) mod BPB = 0 \<longrightarrow> c < unat (sb_size sb) \<longrightarrow> bi < BPB \<longrightarrow>
            \<not> bit_free (sector r (map_key d sb c)) bi"
          and panic: "balloc_from d sb (b + BPB) r = Panic ''balloc: out of blocks''"
        have "\<not> bit_free (sector s (map_key d sb c)) bi"
          if "b \<le> c" "(c - b) mod BPB = 0" "c < unat (sb_size sb)" "bi < BPB" for c bi
          using chunk_split[OF that(1,2)]
        proof
          assume "c = b"
          then show ?thesis using full[OF that(4)] by simp
        next
          assume "b + BPB \<le> c \<and> (c - (b + BPB)) mod BPB = 0"
          then show ?thesis using none[unfolded same] that(3,4) by simp
        qed
        with panic show ?thesis unfolding step by (intro disjI2) simp
      qed
    qed
  qed
qed

lemma unat_same: "unat x = unat y \<longleftrightarrow> x = (y :: 32 word)"
  by (simp add: word_unat_eq_iff)

lemma map_key_unat: "map_key d sb a = map_key d sb b \<longleftrightarrow>
    unat (BBLOCK (of_nat a) (sb_ninodes sb)) = unat (BBLOCK (of_nat b) (sb_ninodes sb))"
  unfolding unat_same by (simp only: map_key_def prod.inject simp_thms)

lemma map_key_chunk:
  assumes "geom_ok d sb" "c mod BPB = 0" "bi < BPB" "c + bi < 2 ^ 25"
  shows "map_key d sb (c + bi) = map_key d sb c" "(c + bi) mod BPB = bi"
proof -
  show m: "(c + bi) mod BPB = bi" using assms(2,3) by (metis add.left_neutral mod_add_left_eq mod_less)
  have "(c + bi) div BPB = c div BPB" using assms(2,3) by (metis add.right_neutral div_add1_eq div_less add.left_neutral mod_less)
  moreover have "unat (sb_ninodes sb) \<le> 2 ^ 24" "c < 2 ^ 25" using assms by (simp_all add: geom_ok_def)
  ultimately show "map_key d sb (c + bi) = map_key d sb c"
    unfolding map_key_unat using unat_BBLOCK[of "c + bi" "sb_ninodes sb"] unat_BBLOCK[of c "sb_ninodes sb"] assms(4) by presburger
qed

lemma map_key_same:
  assumes "geom_ok d sb" "a < 2 ^ 25" "b < 2 ^ 25"
  shows "map_key d sb a = map_key d sb b \<longleftrightarrow> a div BPB = b div BPB"
proof -
  have n: "unat (sb_ninodes sb) \<le> 2 ^ 24" using assms(1) by (simp add: geom_ok_def)
  show ?thesis unfolding map_key_unat unat_BBLOCK[OF assms(2) n] unat_BBLOCK[OF assms(3) n] by simp
qed

text \<open>The disk after block \<open>a\<close> has been marked as used.\<close>

definition mark_used :: "(key \<Rightarrow> byte list) \<Rightarrow> 32 word \<Rightarrow> nat \<Rightarrow> key \<Rightarrow> byte list" where
  "mark_used C d a = C(map_key d (sb_at C d) a := set_bit_in (C (map_key d (sb_at C d) a)) (a mod BPB))"

definition mark_free :: "(key \<Rightarrow> byte list) \<Rightarrow> 32 word \<Rightarrow> nat \<Rightarrow> key \<Rightarrow> byte list" where
  "mark_free C d a = C(map_key d (sb_at C d) a := clear_bit_in (C (map_key d (sb_at C d) a)) (a mod BPB))"

lemma sb_at_mark:
  assumes "geom_ok d (sb_at C d)" "a < 2 ^ 25"
  shows "sb_at (mark_used C d a) d = sb_at C d" "sb_at (mark_free C d a) d = sb_at C d"
  using map_key_valid(2)[OF assms] by (auto simp: sb_at_def mark_used_def mark_free_def)

lemma byte_of_bit: "b mod BPB div 8 < BSIZE"
proof -
  have "b mod BPB < BSIZE * 8" by (simp add: BPB_def BSIZE_def)
  then show ?thesis by simp
qed

lemma same_bit: "a div BPB = b div BPB \<Longrightarrow> a mod BPB = b mod BPB \<Longrightarrow> a = b"
  by (metis div_mult_mod_eq)

lemma free_after_mark:
  assumes "geom_ok d (sb_at C d)" "a < 2 ^ 25" "b < 2 ^ 25" "length (C (map_key d (sb_at C d) a)) = BSIZE"
  shows "block_free (mark_used C d a) d b \<longleftrightarrow> b \<noteq> a \<and> block_free C d b"
    and "block_free (mark_free C d a) d b \<longleftrightarrow> b = a \<or> block_free C d b"
proof -
  let ?sb = "sb_at C d"
  have bits: "a mod BPB div 8 < length (C (map_key d ?sb a))" using assms(4) byte_of_bit by simp
  have same: "b mod BPB = a mod BPB \<longleftrightarrow> b = a" if "map_key d ?sb b = map_key d ?sb a"
    using that map_key_same[OF assms(1) assms(3,2)] same_bit[of b a] by blast
  have diff: "b \<noteq> a" if "map_key d ?sb b \<noteq> map_key d ?sb a" using that by blast
  show "block_free (mark_used C d a) d b \<longleftrightarrow> b \<noteq> a \<and> block_free C d b"
  proof (cases "map_key d ?sb b = map_key d ?sb a")
    case True
    then have "mark_used C d a (map_key d ?sb b) = set_bit_in (C (map_key d ?sb a)) (a mod BPB)" by (simp add: mark_used_def)
    then show ?thesis
      unfolding block_free_def sb_at_mark[OF assms(1,2)] using True same[OF True] by (simp only: bit_free_set[OF bits]) 
  next
    case False
    then have "mark_used C d a (map_key d ?sb b) = C (map_key d ?sb b)" by (simp add: mark_used_def)
    then show ?thesis unfolding block_free_def sb_at_mark[OF assms(1,2)] using diff[OF False] by simp
  qed
  show "block_free (mark_free C d a) d b \<longleftrightarrow> b = a \<or> block_free C d b"
  proof (cases "map_key d ?sb b = map_key d ?sb a")
    case True
    then have "mark_free C d a (map_key d ?sb b) = clear_bit_in (C (map_key d ?sb a)) (a mod BPB)" by (simp add: mark_free_def)
    then show ?thesis
      unfolding block_free_def sb_at_mark[OF assms(1,2)] using True same[OF True] by (simp only: bit_free_clear[OF bits])
  next
    case False
    then have "mark_free C d a (map_key d ?sb b) = C (map_key d ?sb b)" by (simp add: mark_free_def)
    then show ?thesis unfolding block_free_def sb_at_mark[OF assms(1,2)] using diff[OF False] by simp
  qed
qed

lemma balloc_result:
  assumes rdy: "bio.ready (d, 1) s" "map_ready d (sb_at (sector s) d) s" and geom: "geom_ok d (sb_at (sector s) d)"
  obtains (got) a t where "a < unat (sb_size (sb_at (sector s) d)) + BPB" "block_free (sector s) d a" "balloc d s = Ok (of_nat a, t)"
      "\<forall>b < a. \<not> block_free (sector s) d b" "bio.becomes (mark_used (sector s) d a) (kern.more s) s t"
  | (full) "\<forall>b < unat (sb_size (sb_at (sector s) d)). \<not> block_free (sector s) d b" "balloc d s = Panic ''balloc: out of blocks''"
proof -
  let ?sb = "sb_at (sector s) d"
  obtain t where t: "readsb d s = Ok (?sb, t)" "bio.becomes (sector s) (kern.more s) s t" using readsb_result[OF rdy(1)] .
  note same = bio.becomesD[OF t(2)]
  have rdy': "map_ready d ?sb t" using rdy(2) bio.ready_after[OF t(2)] by (simp add: map_ready_def)
  have head: "balloc d s = balloc_from d ?sb 0 t" using t(1) by (simp add: balloc_def andthen_Ok)
  have size: "unat (sb_size ?sb) \<le> 2 ^ 24" using geom by (simp add: geom_ok_def)
  have chunk: "block_free (sector s) d b \<longleftrightarrow> bit_free (sector s (map_key d ?sb (b - b mod BPB))) (b mod BPB)"
    "(b - b mod BPB) mod BPB = 0" "b mod BPB < BPB" "b - b mod BPB + b mod BPB = b" if "b < 2 ^ 25" for b
  proof -
    show b: "(b - b mod BPB) mod BPB = 0" "b mod BPB < BPB" "b - b mod BPB + b mod BPB = b"
      by (simp_all add: BPB_def BSIZE_def minus_mod_eq_mult_div)
    then show "block_free (sector s) d b \<longleftrightarrow> bit_free (sector s (map_key d ?sb (b - b mod BPB))) (b mod BPB)"
      using map_key_chunk[OF geom b(1,2)] that by (simp add: block_free_def)
  qed
  have "cache_ok t" "sector t = sector s" "kern.more t = kern.more s" using same by simp_all
  from balloc_from_result[OF rdy' this(1), of 0, unfolded this(2,3)] show thesis
  proof (elim disjE exE conjE)
    fix c bi r assume c: "(c - 0) mod BPB = 0" "c < unat (sb_size ?sb)" "bi < BPB" "bit_free (sector s (map_key d ?sb c)) bi"
      "balloc_from d ?sb 0 t = Ok (of_nat (c + bi), r)"
      "bio.becomes ((sector s)(map_key d ?sb c := set_bit_in (sector s (map_key d ?sb c)) bi)) (kern.more s) t r"
      and first: "none_before d ?sb (sector s) 0 (c + bi)"
    have small: "c + bi < 2 ^ 25" using c(2,3) size by (simp add: BPB_def BSIZE_def)
    note key = map_key_chunk[OF geom _ c(3) small]
    have "\<forall>b < c + bi. \<not> block_free (sector s) d b"
    proof (intro allI impI)
      fix b assume b: "b < c + bi"
      then have "b < 2 ^ 25" using small by simp
      note b' = chunk[OF this]
      show "\<not> block_free (sector s) d b"
        unfolding b'(1) using first[unfolded none_before_def, rule_format, of "b - b mod BPB" "b mod BPB"] b b'(2-4) by simp
    qed
    then show thesis
      using c key head bio.becomes_trans[OF t(2) c(6)]
      by (intro got[of "c + bi" r]) (simp_all add: block_free_def mark_used_def)
  next
    assume none: "\<forall>c bi. 0 \<le> c \<longrightarrow> (c - 0) mod BPB = 0 \<longrightarrow> c < unat (sb_size ?sb) \<longrightarrow> bi < BPB \<longrightarrow> \<not> bit_free (sector s (map_key d ?sb c)) bi"
      and "balloc_from d ?sb 0 t = Panic ''balloc: out of blocks''"
    moreover have "\<not> block_free (sector s) d b" if b: "b < unat (sb_size ?sb)" for b
    proof -
      have "b < 2 ^ 25" "b - b mod BPB < unat (sb_size ?sb)" using b size by simp_all
      with none chunk[of b] show ?thesis by simp
    qed
    ultimately show thesis using head by (intro full) simp_all
  qed
qed

section \<open>bfree\<close>

lemma bfree_result:
  assumes rdy: "bio.ready (d, of_nat a) s" "bio.ready (d, 1) s" "bio.ready (map_key d (sb_at (sector s) d) a) s"
    and geom: "geom_ok d (sb_at (sector s) d)" "a < 2 ^ 25"
    and data: "of_nat a \<noteq> (1 :: 32 word)" "(d, of_nat a) \<noteq> map_key d (sb_at (sector s) d) a"
  obtains (freed) t where "\<not> block_free (sector s) d a" "bfree d (of_nat a) s = Ok ((), t)"
      "bio.becomes (mark_free ((sector s)((d, of_nat a) := replicate BSIZE 0)) d a) (kern.more s) s t"
  | (already) "block_free (sector s) d a" "bfree d (of_nat a) s = Panic ''freeing free block''"
proof -
  let ?sb = "sb_at (sector s) d"
  let ?C = "(sector s)((d, of_nat a) := replicate BSIZE 0)"
  let ?k = "map_key d ?sb a"
  obtain t1 where t1: "bzero d (of_nat a) s = Ok ((), t1)" "bio.becomes ?C (kern.more s) s t1" using bzero_result[OF rdy(1)] .
  have s1: "sector t1 = ?C" "kern.more t1 = kern.more s" using bio.becomesD[OF t1(2)] by simp_all
  have sb: "sb_at ?C d = ?sb" using data(1) by (simp add: sb_at_def)
  obtain t2 where t2: "readsb d t1 = Ok (?sb, t2)" "bio.becomes ?C (kern.more s) t1 t2"
    using readsb_result[OF bio.ready_after[OF t1(2) rdy(2)]] unfolding s1 sb .
  have s2: "sector t2 = ?C" "kern.more t2 = kern.more s" "cache_ok t2" using bio.becomesD[OF t2(2)] by simp_all
  have "bio.ready ?k t2" using bio.ready_after[OF t2(2) bio.ready_after[OF t1(2) rdy(3)]] .
  then have "bio.ready (d, BBLOCK (of_nat a) (sb_ninodes ?sb)) t2" by (simp add: map_key_def)
  from bio.take_block[OF this] obtain i t3 where t3: "bread d (BBLOCK (of_nat a) (sb_ninodes ?sb)) t2 = Ok (i, t3)"
    "bio.taken i ?k (?C ?k) ?C (kern.more s) t2 t3" unfolding s2 by (auto simp: map_key_def)
  have bits: "?C ?k = sector s ?k" using data(2) by simp
  have ua: "unat (of_nat a :: 32 word) = a" using geom(2) by (simp add: unat_small)
  have head: "bfree d (of_nat a) s =
      andthen (check (\<not> bit_free (?C ?k) (a mod BPB)) ''freeing free block'') (\<lambda>_.
      andthen (set_bdata i (clear_bit_in (?C ?k) (a mod BPB))) (\<lambda>_. andthen (bwrite i) (\<lambda>_. brelse i))) t3"
    using t1(1) t2(1) t3(1) bio.taken_data[OF t3(2)] by (simp only: bfree_def ua andthen_Ok)
  have len: "length (clear_bit_in (?C ?k) (a mod BPB)) = BSIZE" using s2(3) unfolding s2(1)[symmetric] by (simp add: sector_length)
  from bio.change_held[OF t3(2) len, of "\<lambda>_. ret ()"]
  obtain r where r: "andthen (set_bdata i (clear_bit_in (?C ?k) (a mod BPB))) (\<lambda>_. andthen (bwrite i) (\<lambda>_. andthen (brelse i) (\<lambda>_. ret ()))) t3 = Ok ((), r)"
    "bio.becomes (?C(?k := clear_bit_in (?C ?k) (a mod BPB))) (kern.more s) t2 r" by auto
  have unit: "andthen (brelse i) (\<lambda>_. ret ()) = brelse i"
    by (auto simp: andthen_def fun_eq_iff split: res.splits)
  have "bio.becomes (mark_free ?C d a) (kern.more s) s r"
    unfolding mark_free_def sb using bio.becomes_trans[OF t1(2) bio.becomes_trans[OF t2(2) r(2)]] .
  then show thesis
    using freed[of r] already head r(1) bits unfolding unit block_free_def by (cases "bit_free (sector s ?k) (a mod BPB)") simp_all
qed

section \<open>The allocator on the set of free blocks\<close>

lemma mark_other: "k \<noteq> map_key d (sb_at C d) a \<Longrightarrow> mark_used C d a k = C k \<and> mark_free C d a k = C k"
  by (simp add: mark_used_def mark_free_def)

lemma dec_sb_put:
  "length z = BSIZE \<Longrightarrow> dec_sb (put32 0 a (put32 1 b (put32 2 c z))) = \<lparr>sb_size = a, sb_nblocks = b, sb_ninodes = c\<rparr>"
  by (simp add: dec_sb_def get32_put32 BSIZE_def)

lemma demo_sb: "sb_at (sector demo_machine) 1 = \<lparr>sb_size = 1024, sb_nblocks = 995, sb_ninodes = 200\<rparr>"
proof -
  have "sector demo_machine (1, 1) = put32 0 1024 (put32 1 995 (put32 2 200 (replicate BSIZE 0)))"
    by (simp add: sector_def demo_fields demo_sector_def)
  then show ?thesis unfolding sb_at_def by (simp only: dec_sb_put length_replicate)
qed

lemma demo_geom: "geom_ok 1 (sb_at (sector demo_machine) 1)"
  by (simp add: demo_sb geom_ok_def)

lemma demo_map: "b < 1024 \<Longrightarrow> bio.ready (map_key 1 (sb_at (sector demo_machine) 1) b) demo_machine"
  by (rule demo_ready[OF map_key_valid(1)[OF demo_geom]]) simp

lemma demo_map_key: "b < BPB \<Longrightarrow> map_key 1 (sb_at (sector demo_machine) 1) b = (1, 28)"
proof -
  assume b: "b < BPB"
  have "unat (BBLOCK (of_nat b) 200) = unat (28 :: 32 word)"
    using unat_BBLOCK[of b 200] b by (simp add: BPB_def IPB_def BSIZE_def)
  then show ?thesis unfolding map_key_def demo_sb unat_same by simp
qed

lemma demo_free: "block_free (sector demo_machine) 1 40" "\<not> block_free (sector demo_machine) 1 20"
proof -
  have "sector demo_machine (1, 28) = poke 0 [255, 255, 255, 255] (replicate BSIZE 0)" by (simp add: sector_def demo_fields demo_sector_def)
  then show "block_free (sector demo_machine) 1 40" "\<not> block_free (sector demo_machine) 1 20"
    unfolding block_free_def demo_map_key[of 40, unfolded BPB_def BSIZE_def, simplified] demo_map_key[of 20, unfolded BPB_def BSIZE_def, simplified]
    by (simp_all add: BPB_def BSIZE_def bit_free_def poke_def)
qed

text \<open>
  C16. \<open>balloc\<close> returns the first block that is free in the bitmap and marks exactly that block as used: no other bit of the bitmap and
  no other disk block changes, and no buffer stays held. The block lies on the disk just if some block of the disk is free; if none is,
  \<open>balloc\<close> panics or, since it does not compare with the size of the disk, returns a number past its end.
\<close>

theorem balloc_takes_free_block:
  assumes "readable (d, 1) s" "\<forall>b < unat (sb_size (sb_at (sector s) d)). readable (map_key d (sb_at (sector s) d) b) s"
    "geom_ok d (sb_at (sector s) d)"
  shows "(\<exists>a t. balloc d s = Ok (of_nat a, t) \<and> block_free (sector s) d a \<and> (\<forall>b < a. \<not> block_free (sector s) d b) \<and>
      (a < unat (sb_size (sb_at (sector s) d)) \<longleftrightarrow> (\<exists>b < unat (sb_size (sb_at (sector s) d)). block_free (sector s) d b)) \<and> cache_ok t \<and> holder t = holder s \<and>
      (\<forall>b < 2 ^ 25. block_free (sector t) d b \<longleftrightarrow> b \<noteq> a \<and> block_free (sector s) d b) \<and>
      (\<forall>k. k \<noteq> map_key d (sb_at (sector s) d) a \<longrightarrow> sector t k = sector s k)) \<or>
    ((\<forall>b < unat (sb_size (sb_at (sector s) d)). \<not> block_free (sector s) d b) \<and> balloc d s = Panic ''balloc: out of blocks'')"
proof -
  have rdy: "bio.ready (d, 1) s" "map_ready d (sb_at (sector s) d) s" using assms(1,2) by (simp_all add: readable_ready map_ready_def)
  have ok: "cache_ok s" using rdy(1) unfolding bio.ready_def by simp
  from rdy assms(3) show ?thesis
  proof (cases rule: balloc_result)
    case (got a t)
    have a: "a < 2 ^ 25" using got(1) assms(3) by (simp add: geom_ok_def BPB_def BSIZE_def)
    have t: "cache_ok t" "holder t = holder s" "sector t = mark_used (sector s) d a" using got(5) by (simp_all add: bio.becomes_def)
    have "block_free (sector t) d b \<longleftrightarrow> b \<noteq> a \<and> block_free (sector s) d b" if "b < 2 ^ 25" for b
      unfolding t(3) by (rule free_after_mark(1)[OF assms(3) a that sector_length[OF ok]])
    moreover have "a < unat (sb_size (sb_at (sector s) d)) \<longleftrightarrow> (\<exists>b < unat (sb_size (sb_at (sector s) d)). block_free (sector s) d b)"
      (is "?l \<longleftrightarrow> ?r")
    proof
      assume ?r
      then obtain b where "b < unat (sb_size (sb_at (sector s) d))" "block_free (sector s) d b" by blast
      moreover have "\<not> b < a" using got(4) \<open>block_free (sector s) d b\<close> by blast
      ultimately show ?l by simp
    qed (use got(2) in blast)
    ultimately show ?thesis using got(2,3,4) t mark_other[of _ d "sector s" a] by (intro disjI1 exI[of _ a] exI[of _ t]) simp
  next
    case full
    then show ?thesis by blast
  qed
qed

theorem balloc_takes_free_block_witness:
  "\<exists>a t. balloc 1 demo_machine = Ok (of_nat a, t) \<and> block_free (sector demo_machine) 1 a \<and> a \<le> 40 \<and> \<not> block_free (sector t) 1 a"
proof -
  have free: "block_free (sector demo_machine) 1 40" "40 < unat (sb_size (sb_at (sector demo_machine) 1))"
    using demo_free(1) by (simp_all add: demo_sb)
  note b = balloc_takes_free_block[of 1 demo_machine, OF demo_readable[of "(1, 1)"] _ demo_geom]
  have "\<forall>b < unat (sb_size (sb_at (sector demo_machine) 1)). readable (map_key 1 (sb_at (sector demo_machine) 1) b) demo_machine"
    using demo_map unfolding readable_ready by (simp add: demo_sb)
  from b[OF _ this] free obtain a t where a: "balloc 1 demo_machine = Ok (of_nat a, t)" "block_free (sector demo_machine) 1 a"
    "\<forall>b < a. \<not> block_free (sector demo_machine) 1 b" "\<forall>b < 2 ^ 25. block_free (sector t) 1 b \<longleftrightarrow> b \<noteq> a \<and> block_free (sector demo_machine) 1 b"
    by (auto simp: key_valid_def key_ok_def)
  have "a \<le> 40" using a(3) free(1) by (meson not_less)
  then show ?thesis using a by (intro exI[of _ a] exI[of _ t]) simp
qed

text \<open>
  C17. \<open>bfree\<close> of a data block that is in use clears its bytes, marks exactly that block as free and changes nothing else;
  of a block that is free already it panics.
\<close>

theorem bfree_returns_block:
  assumes "readable (d, of_nat a) s" "readable (d, 1) s" "readable (map_key d (sb_at (sector s) d) a) s"
    "geom_ok d (sb_at (sector s) d)" "a < unat (sb_size (sb_at (sector s) d))" "a \<noteq> 1"
    "\<forall>b < unat (sb_size (sb_at (sector s) d)). map_key d (sb_at (sector s) d) b \<noteq> (d, of_nat a)"
  shows "if block_free (sector s) d a then bfree d (of_nat a) s = Panic ''freeing free block''
    else \<exists>t. bfree d (of_nat a) s = Ok ((), t) \<and> cache_ok t \<and> holder t = holder s \<and> sector t (d, of_nat a) = replicate BSIZE 0 \<and>
      (\<forall>b < unat (sb_size (sb_at (sector s) d)). block_free (sector t) d b \<longleftrightarrow> b = a \<or> block_free (sector s) d b) \<and>
      (\<forall>k. k \<noteq> map_key d (sb_at (sector s) d) a \<and> k \<noteq> (d, of_nat a) \<longrightarrow> sector t k = sector s k)"
proof -
  let ?n = "unat (sb_size (sb_at (sector s) d))"
  have small: "b < 2 ^ 25" if "b < ?n" for b using that assms(4) by (simp add: geom_ok_def)
  have a: "a < 2 ^ 25" using small[OF assms(5)] .
  have ne: "of_nat a \<noteq> (1 :: 32 word)" using a assms(6) unat_small[of a] by auto
  let ?C = "(sector s)((d, of_nat a) := replicate BSIZE 0)"
  have sb: "sb_at ?C d = sb_at (sector s) d" using ne by (simp add: sb_at_def)
  have ok: "cache_ok s" using assms(1) by (simp add: readable_def)
  have own: "(d, of_nat a) \<noteq> map_key d (sb_at (sector s) d) a" using assms(5,7) by metis
  from assms(1-3)[unfolded readable_ready] assms(4) a ne own show ?thesis
  proof (cases rule: bfree_result)
    case (freed t)
    have t: "cache_ok t" "holder t = holder s" "sector t = mark_free ?C d a" using freed(3) by (simp_all add: bio.becomes_def)
    have len: "length (?C (map_key d (sb_at ?C d) a)) = BSIZE" using sector_length[OF ok] by simp
    have same: "block_free ?C d b \<longleftrightarrow> block_free (sector s) d b" if "b < ?n" for b
      using assms(7) that unfolding block_free_def sb by simp
    have "block_free (sector t) d b \<longleftrightarrow> b = a \<or> block_free (sector s) d b" if "b < ?n" for b
      unfolding t(3) free_after_mark(2)[OF assms(4)[folded sb] a small[OF that] len] same[OF that] ..
    moreover have "sector t k = sector s k" if "k \<noteq> map_key d (sb_at (sector s) d) a" "k \<noteq> (d, of_nat a)" for k
      using that mark_other[of k d ?C a] unfolding t(3) sb by simp
    moreover have "sector t (d, of_nat a) = replicate BSIZE 0"
      using own mark_other[of "(d, of_nat a)" d ?C a] unfolding t(3) sb by simp
    ultimately show ?thesis using freed(1,2) t(1,2) by auto
  next
    case already
    then show ?thesis by simp
  qed
qed

theorem bfree_returns_block_witness:
  "bfree 1 40 demo_machine = Panic ''freeing free block''"
proof -
  have key: "map_key 1 (sb_at (sector demo_machine) 1) b = (1, 28)" if "b < 1024" for b
    using that by (intro demo_map_key) (simp add: BPB_def BSIZE_def)
  have "bfree 1 (of_nat 40) demo_machine = Panic ''freeing free block''"
    using bfree_returns_block[of 1 40 demo_machine] demo_geom key demo_free(1)
    by (simp add: demo_readable key_valid_def key_ok_def demo_sb)
  then show ?thesis by simp
qed

section \<open>The end of the disk\<close>

text \<open>A machine whose 1024 blocks are all in use; the rest of the bitmap block, past the end of the disk, is zero.\<close>

definition demo_exhausted :: fsk where
  "demo_exhausted = demo_machine\<lparr>disk := (\<lambda>d x. if x = 28 then replicate 128 255 @ replicate 384 0 else demo_sector x)\<rparr>"

lemma exhausted_cache: "cache_ok demo_exhausted" "holder demo_exhausted = Map.empty"
  unfolding cache_ok_def drive_ok_def buf_ok_def demo_exhausted_def using demo_fields demo_holder
  by (auto simp: demo_length empty_buf_def holder_def fun_eq_iff BSIZE_def)

lemma exhausted_ready: "key_valid k \<Longrightarrow> bio.ready k demo_exhausted"
  unfolding bio.ready_def by (simp add: exhausted_cache NBUF_def)

lemma exhausted_sector: "sector demo_exhausted (1, 28) = replicate 128 255 @ replicate 384 0" "sector demo_exhausted (1, 1) = sector demo_machine (1, 1)"
  by (simp_all add: sector_def demo_exhausted_def demo_fields)

lemma exhausted_sb: "sb_at (sector demo_exhausted) 1 = sb_at (sector demo_machine) 1"
  by (simp add: sb_at_def exhausted_sector)

lemma all_ones: "k < 8 \<Longrightarrow> bit (255 :: byte) k"
proof -
  assume "k < 8"
  then have "bit (mask 8 :: byte) k" by (simp add: bit_simps)
  moreover have "(mask 8 :: byte) = 255" by (simp add: mask_eq_exp_minus_1)
  ultimately show ?thesis by metis
qed

lemma exhausted_bits: "bi < BPB \<Longrightarrow> bit_free (sector demo_exhausted (1, 28)) bi \<longleftrightarrow> 1024 \<le> bi"
proof -
  assume "bi < BPB"
  then have bi: "bi div 8 < 512" by (simp add: BPB_def BSIZE_def less_mult_imp_div_less)
  show ?thesis
  proof (cases "bi div 8 < 128")
    case True
    then have "(replicate 128 255 @ replicate 384 (0 :: byte)) ! (bi div 8) = 255" by (simp add: nth_append)
    with True show ?thesis unfolding bit_free_iff exhausted_sector using all_ones[of "bi mod 8"] by simp
  next
    case False
    then have "(replicate 128 255 @ replicate 384 (0 :: byte)) ! (bi div 8) = 0" using bi by (simp add: nth_append)
    with False show ?thesis unfolding bit_free_iff exhausted_sector by simp
  qed
qed

text \<open>
  The inner loop of \<open>balloc\<close> runs over all 4096 bits of a bitmap block without looking at the size of the disk: on a
  disk whose 1024 blocks are all in use it does not panic but returns a block past the end of the disk.
\<close>

theorem balloc_past_the_end:
  "filter (block_free (sector demo_exhausted) 1) [0..<1024] = [] \<and> unat (sb_size (sb_at (sector demo_exhausted) 1)) = 1024 \<and>
   (\<exists>a t. balloc 1 demo_exhausted = Ok (of_nat a, t) \<and> 1024 \<le> a \<and> a < 4096)"
proof -
  let ?s = demo_exhausted
  let ?sb = "sb_at (sector ?s) 1"
  have key: "map_key 1 ?sb b = (1, 28)" if "b < BPB" for b using demo_map_key[OF that] by (simp add: exhausted_sb)
  have size: "unat (sb_size ?sb) = 1024" by (simp add: exhausted_sb demo_sb)
  have geom: "geom_ok 1 ?sb" using demo_geom by (simp add: exhausted_sb)
  have none: "\<not> block_free (sector ?s) 1 b" if "b < 1024" for b
    using that exhausted_bits[of b] key[of b] unfolding block_free_def by (simp add: BPB_def BSIZE_def)
  have rdy: "bio.ready (1, 1) ?s" "map_ready 1 ?sb ?s"
    unfolding map_ready_def using exhausted_ready map_key_valid(1)[OF geom] by (simp_all add: size key_valid_def key_ok_def)
  obtain t where t: "readsb 1 ?s = Ok (?sb, t)" "bio.becomes (sector ?s) (kern.more ?s) ?s t" using readsb_result[OF rdy(1)] .
  have same: "cache_ok t" "sector t = sector ?s" using bio.becomesD[OF t(2)] by simp_all
  have "map_ready 1 ?sb t" using rdy(2) bio.ready_after[OF t(2)] by (simp add: map_ready_def)
  from balloc_from_result[OF this same(1), of 0] have "\<exists>a u. balloc_from 1 ?sb 0 t = Ok (of_nat a, u) \<and> 1024 \<le> a \<and> a < 4096"
  proof (elim disjE exE conjE)
    fix c bi u assume c: "(c - 0) mod BPB = 0" "c < unat (sb_size ?sb)" "bi < BPB" "bit_free (sector t (map_key 1 ?sb c)) bi"
      "balloc_from 1 ?sb 0 t = Ok (of_nat (c + bi), u)"
    have "c = 0" using c(1,2) by (simp add: size BPB_def BSIZE_def)
    with c(3-5) exhausted_bits[OF c(3)] key[of 0] same(2) show ?thesis
      by (intro exI[of _ bi] exI[of _ u]) (simp add: BPB_def BSIZE_def)
  next
    assume "\<forall>c bi. 0 \<le> c \<longrightarrow> (c - 0) mod BPB = 0 \<longrightarrow> c < unat (sb_size ?sb) \<longrightarrow> bi < BPB \<longrightarrow> \<not> bit_free (sector t (map_key 1 ?sb c)) bi"
    then have "\<not> bit_free (sector t (map_key 1 ?sb 0)) 1024" by (simp add: size BPB_def BSIZE_def)
    then show ?thesis using exhausted_bits[of 1024] key[of 0] same(2) by (simp add: BPB_def BSIZE_def)
  qed
  then show ?thesis using none size t(1) by (simp add: balloc_def andthen_Ok filter_empty_conv)
qed

end
