(* ===== verification/Xv6_Inode.thy ===== *)
theory Xv6_Inode
  imports Xv6_Blocks
begin

text \<open>
  The inode layer of \<open>fs.c\<close>: \<open>iupdate\<close> and \<open>ilock\<close> move an inode between the cache and its disk block, \<open>bmap\<close> finds a
  block of a file, \<open>readi\<close> copies the bytes of the file and tests the checksums of a file of type \<open>T_CHECKED\<close>.
\<close>

section \<open>Steps of the file system\<close>

text \<open>The disk becomes \<open>C\<close>, the inode cache \<open>ic\<close>, and the buffers that are held stay held.\<close>

definition fs_to :: "(key \<Rightarrow> byte list) \<Rightarrow> incore list \<Rightarrow> 'z fsk_scheme \<Rightarrow> 'z fsk_scheme \<Rightarrow> bool" where
  "fs_to C ic s t \<longleftrightarrow> bio.becomes C (kern.more (s\<lparr>icache := ic\<rparr>)) s t"

lemma more_icache: "kern.more t = kern.more (s\<lparr>icache := ic\<rparr>) \<Longrightarrow> icache t = ic"
  by (cases t, cases s) simp

lemma more_upd: "kern.more t = kern.more (s\<lparr>icache := ic\<rparr>) \<Longrightarrow> kern.more (t\<lparr>icache := jc\<rparr>) = kern.more (s\<lparr>icache := jc\<rparr>)"
  by (cases t, cases s) simp

lemma bio_icache [simp]:
  "sector (s\<lparr>icache := ic\<rparr>) = sector s" "holder (s\<lparr>icache := ic\<rparr>) = holder s" "held_data (s\<lparr>icache := ic\<rparr>) = held_data s"
  "cache_ok (s\<lparr>icache := ic\<rparr>) = cache_ok s"
  by (simp_all add: sector_def holder_def held_data_def cache_ok_def drive_ok_def buf_ok_def fun_eq_iff)

lemma fs_toD:
  assumes "fs_to C ic s t"
  shows "cache_ok t" "sector t = C" "icache t = ic" "holder t = holder s" "bio.ready k t = bio.ready k s \<or> \<not> cache_ok s"
  using assms more_icache by (auto simp: fs_to_def bio.becomes_def bio.ready_def)

lemma fs_to_ready: "fs_to C ic s t \<Longrightarrow> bio.ready k s \<Longrightarrow> bio.ready k t"
  by (auto simp: fs_to_def intro: bio.ready_after)

lemma fs_to_trans: "fs_to C ic s t \<Longrightarrow> fs_to D jc t r \<Longrightarrow> fs_to D jc s r"
proof -
  assume a: "fs_to C ic s t" "fs_to D jc t r"
  have "kern.more t = kern.more (s\<lparr>icache := ic\<rparr>)" using bio.becomesD[OF a(1)[unfolded fs_to_def]] by simp
  from more_upd[OF this] show ?thesis using bio.becomes_trans[OF a(1)[unfolded fs_to_def]] a(2) by (simp add: fs_to_def)
qed

lemma fs_to_bio: "bio.becomes C (kern.more s) s t \<Longrightarrow> fs_to C (icache s) s t"
  by (simp add: fs_to_def)

lemma fs_to_upd: "cache_ok s \<Longrightarrow> fs_to (sector s) ic s (s\<lparr>icache := ic\<rparr>)"
  by (simp add: fs_to_def bio.becomes_def)

lemma fs_to_refl: "cache_ok s \<Longrightarrow> fs_to (sector s) (icache s) s s"
  using fs_to_upd[of s "icache s"] by simp

lemma inode_step [simp]:
  "andthen (inode_at i) f s = f (icache s ! i) s"
  "andthen (upd_inode i g) h s = h () (s\<lparr>icache := (icache s)[i := g (icache s ! i)]\<rparr>)"
  by (simp_all add: inode_at_def upd_inode_def)

section \<open>iupdate and ilock\<close>

definition dinode_key :: "incore \<Rightarrow> key" where
  "dinode_key ip = (ip_dev ip, IBLOCK (ip_inum ip))"

lemma dinode_slot_bound: "64 * (n mod IPB) + 64 \<le> BSIZE"
proof -
  have "n mod IPB < 8" by (simp add: IPB_def BSIZE_def)
  then show ?thesis by (simp add: BSIZE_def)
qed

lemma length_put_dinode [simp]:
  "length bs = BSIZE \<Longrightarrow> length (di_addrs d) = 13 \<Longrightarrow> length (put_dinode n d bs) = BSIZE"
  using dinode_slot_bound[of "unat n"] by (simp add: put_dinode_def length_enc_dinode)

lemma dinode_at_put:
  assumes "length bs = BSIZE" "length (di_addrs d) = 13"
  shows "dinode_at n (put_dinode n d bs) = d"
  using assms dinode_slot_bound[of "unat n"] by (simp add: dinode_at_def put_dinode_def region_simps codec_simps length_enc_dinode)

lemma dinode_at_other:
  assumes "length bs = BSIZE" "length (di_addrs d) = 13" "unat m mod IPB \<noteq> unat n mod IPB"
  shows "dinode_at m (put_dinode n d bs) = dinode_at m bs"
proof -
  have "64 * (unat m mod IPB) + 64 \<le> 64 * (unat n mod IPB) \<or> 64 * (unat n mod IPB) + 64 \<le> 64 * (unat m mod IPB)"
    using assms(3) by linarith
  with assms dinode_slot_bound[of "unat n"] dinode_slot_bound[of "unat m"] show ?thesis
    by (auto simp: dinode_at_def put_dinode_def region_simps length_enc_dinode)
qed

lemma iupdate_result:
  assumes "bio.ready (dinode_key (icache s ! i)) s" "length (ip_addrs (icache s ! i)) = 13"
  obtains t where "iupdate i s = Ok ((), t)"
    "fs_to ((sector s)(dinode_key (icache s ! i) :=
       put_dinode (ip_inum (icache s ! i)) (to_dinode (icache s ! i)) (sector s (dinode_key (icache s ! i))))) (icache s) s t"
proof -
  let ?ip = "icache s ! i"
  have rdy: "bio.ready (ip_dev ?ip, IBLOCK (ip_inum ?ip)) s" using assms(1) by (simp add: dinode_key_def)
  have "length (put_dinode (ip_inum ?ip) (to_dinode ?ip) (sector s (dinode_key ?ip))) = BSIZE"
    using assms by (simp add: bio.ready_def sector_length to_dinode_def)
  then have len: "length (put_dinode (ip_inum ?ip) (to_dinode ?ip) (sector s (ip_dev ?ip, IBLOCK (ip_inum ?ip)))) = BSIZE"
    by (simp only: dinode_key_def)
  obtain t where t: "iupdate i s = ret () t"
    "bio.becomes ((sector s)((ip_dev ?ip, IBLOCK (ip_inum ?ip)) :=
       put_dinode (ip_inum ?ip) (to_dinode ?ip) (sector s (ip_dev ?ip, IBLOCK (ip_inum ?ip))))) (kern.more s) s t"
    using bio.change_block[where f = "\<lambda>_. ret ()" and g = "put_dinode (ip_inum ?ip) (to_dinode ?ip)", OF rdy len]
    unfolding iupdate_def inode_step .
  show thesis using t(1) fs_to_bio[OF t(2)] unfolding dinode_key_def[symmetric] by (intro that) simp_all
qed

lemma ilock_result:
  assumes "ip_ref (icache s ! i) \<ge> 1" "\<not> ip_busy (icache s ! i)" "\<not> ip_valid (icache s ! i)" "i < length (icache s)"
    "bio.ready (dinode_key (icache s ! i)) s"
    "di_type (dinode_at (ip_inum (icache s ! i)) (sector s (dinode_key (icache s ! i)))) \<noteq> 0"
  obtains t where "ilock i s = Ok ((), t)"
    "fs_to (sector s) ((icache s)[i := (from_dinode (dinode_at (ip_inum (icache s ! i)) (sector s (dinode_key (icache s ! i)))) (icache s ! i))
       \<lparr>ip_busy := True, ip_valid := True\<rparr>]) s t"
proof -
  let ?ip = "icache s ! i"
  let ?s1 = "s\<lparr>icache := (icache s)[i := ?ip\<lparr>ip_busy := True\<rparr>]\<rparr>"
  let ?d = "dinode_at (ip_inum ?ip) (sector s (dinode_key ?ip))"
  have ok: "cache_ok s" using assms(5) by (simp add: bio.ready_def)
  have s1: "fs_to (sector s) ((icache s)[i := ?ip\<lparr>ip_busy := True\<rparr>]) s ?s1" using fs_to_upd[OF ok] .
  have "bio.ready (ip_dev ?ip, IBLOCK (ip_inum ?ip)) ?s1" using fs_to_ready[OF s1 assms(5)] by (simp add: dinode_key_def)
  from bio.take_block[OF this] obtain b t where t: "bread (ip_dev ?ip) (IBLOCK (ip_inum ?ip)) ?s1 = Ok (b, t)"
    "bio.taken b (dinode_key ?ip) (sector s (dinode_key ?ip)) (sector s) (kern.more ?s1) ?s1 t"
    by (auto simp: dinode_key_def)
  have ict: "icache t = icache ?s1" using t(2) more_icache[of t "icache ?s1" ?s1] by (simp add: bio.taken_def)
  let ?t1 = "t\<lparr>icache := (icache t)[i := from_dinode ?d (icache t ! i)]\<rparr>"
  have taken: "bio.taken b (dinode_key ?ip) (sector s (dinode_key ?ip)) (sector s) (kern.more ?t1) ?s1 ?t1"
    using t(2) by (auto simp: bio.taken_def)
  obtain r where r: "brelse b ?t1 = Ok ((), r)" "bio.becomes (sector s) (kern.more ?t1) ?s1 r"
    using bio.release_block[OF taken] by auto
  have icr: "icache r = icache ?t1"
    using r(2) more_icache[of r "icache ?t1" ?t1] by (simp add: bio.becomes_def)
  let ?r1 = "r\<lparr>icache := (icache r)[i := (icache r ! i)\<lparr>ip_valid := True\<rparr>]\<rparr>"
  have val: "ilock i s = Ok ((), ?r1)"
    using assms(1-3,6) t(1) bio.taken_data[OF t(2)] r(1) by (simp add: ilock_def andthen_Ok)
  have loaded: "(from_dinode ?d (?ip\<lparr>ip_busy := True\<rparr>))\<lparr>ip_valid := True\<rparr> = (from_dinode ?d ?ip)\<lparr>ip_busy := True, ip_valid := True\<rparr>"
    by (intro incore.equality) (simp_all add: from_dinode_def)
  have fin: "icache ?r1 = (icache s)[i := (from_dinode ?d ?ip)\<lparr>ip_busy := True, ip_valid := True\<rparr>]"
    using assms(4) loaded by (simp add: icr ict)
  have "kern.more t = kern.more (s\<lparr>icache := icache ?s1\<rparr>)" using t(2) by (simp add: bio.taken_def)
  from more_upd[OF this] have m1: "kern.more ?t1 = kern.more (s\<lparr>icache := icache ?t1\<rparr>)" by simp
  have "kern.more r = kern.more (s\<lparr>icache := icache ?t1\<rparr>)" using r(2) m1 by (simp add: bio.becomes_def)
  from more_upd[OF this] have "kern.more ?r1 = kern.more (s\<lparr>icache := icache ?r1\<rparr>)" by simp
  then have "fs_to (sector s) (icache ?r1) s ?r1" using r(2) by (simp add: fs_to_def bio.becomes_def)
  with val show thesis unfolding fin by (intro that) simp_all
qed

section \<open>The blocks of a file\<close>

definition amask :: "incore \<Rightarrow> 32 word \<Rightarrow> 32 word" where
  "amask ip = (if ip_type ip = T_CHECKED then low24 else id)"

definition ind_key :: "incore \<Rightarrow> key" where
  "ind_key ip = (ip_dev ip, amask ip (ip_addrs ip ! NDIRECT))"

text \<open>The word that holds the address, and the checksum, of block \<open>bn\<close>; the block itself.\<close>

definition addr_word :: "(key \<Rightarrow> byte list) \<Rightarrow> incore \<Rightarrow> nat \<Rightarrow> 32 word" where
  "addr_word C ip bn = (if bn < NDIRECT then ip_addrs ip ! bn else get32 (bn - NDIRECT) (C (ind_key ip)))"

definition blk :: "(key \<Rightarrow> byte list) \<Rightarrow> incore \<Rightarrow> nat \<Rightarrow> key" where
  "blk C ip bn = (ip_dev ip, amask ip (addr_word C ip bn))"

definition mapped :: "(key \<Rightarrow> byte list) \<Rightarrow> incore \<Rightarrow> nat \<Rightarrow> bool" where
  "mapped C ip bn \<longleftrightarrow> bn < MAXFILE \<and> amask ip (addr_word C ip bn) \<noteq> 0 \<and> (NDIRECT \<le> bn \<longrightarrow> amask ip (ip_addrs ip ! NDIRECT) \<noteq> 0)"

text \<open>Block \<open>bn\<close> is there and can be read now.\<close>

definition reachable :: "incore \<Rightarrow> nat \<Rightarrow> 'z fsk_scheme \<Rightarrow> bool" where
  "reachable ip bn s \<longleftrightarrow> mapped (sector s) ip bn \<and> bio.ready (blk (sector s) ip bn) s \<and>
     (NDIRECT \<le> bn \<longrightarrow> bio.ready (ind_key ip) s)"

lemma reachable_after: "fs_to (sector s) ic s t \<Longrightarrow> reachable ip bn s \<Longrightarrow> reachable ip bn t"
  using fs_toD(2)[of "sector s" ic s t] fs_to_ready[of "sector s" ic s t] by (auto simp: reachable_def)

lemma bmap_mapped:
  assumes "reachable (icache s ! i) bn s"
  obtains t where "bmap i bn s = Ok (snd (blk (sector s) (icache s ! i) bn), t)" "fs_to (sector s) (icache s) s t"
proof (cases "bn < NDIRECT")
  case True
  then have "bmap i bn s = Ok (snd (blk (sector s) (icache s ! i) bn), s)"
    using assms by (auto simp: bmap_def reachable_def mapped_def blk_def addr_word_def amask_def Let_def)
  moreover have "cache_ok s" using assms by (simp add: reachable_def bio.ready_def)
  ultimately show thesis using fs_to_refl[of s] by (intro that) simp_all
next
  case False
  let ?ip = "icache s ! i"
  have ind: "bio.ready (ip_dev ?ip, amask ?ip (ip_addrs ?ip ! NDIRECT)) s" "amask ?ip (ip_addrs ?ip ! NDIRECT) \<noteq> 0"
    "bn - NDIRECT < NINDIRECT" "amask ?ip (addr_word (sector s) ?ip bn) \<noteq> 0"
    using assms False by (auto simp: reachable_def mapped_def ind_key_def MAXFILE_def)
  obtain b t where t: "bread (ip_dev ?ip) (amask ?ip (ip_addrs ?ip ! NDIRECT)) s = Ok (b, t)"
    "bio.taken b (ind_key ?ip) (sector s (ind_key ?ip)) (sector s) (kern.more s) s t"
    using bio.take_block[OF ind(1)] unfolding ind_key_def .
  obtain r where r: "brelse b t = Ok ((), r)" "bio.becomes (sector s) (kern.more s) s r"
    using bio.release_block[OF t(2)] by auto
  have word: "addr_word (sector s) ?ip bn = get32 (bn - NDIRECT) (sector s (ind_key ?ip))"
    using False by (simp add: addr_word_def)
  have "bmap i bn s = Ok (amask ?ip (addr_word (sector s) ?ip bn), r)"
    using False ind(2-4) t(1) bio.taken_data[OF t(2)] r(1) unfolding word
    by (simp add: bmap_def amask_def[symmetric] Let_def andthen_Ok)
  then show thesis using fs_to_bio[OF r(2)] by (intro that) (simp_all add: blk_def)
qed

section \<open>stati\<close>

text \<open>The first call takes the buffer of the indirect block and keeps it: a second call waits for it.\<close>

lemma stati_keeps_buffer:
  assumes "ip = icache s ! i" "bio.ready (ip_dev ip, low24 (ip_addrs ip ! NDIRECT)) s"
  obtains st b t where "stati i s = Ok (st, t)" "kst_size st = ip_size ip" "kst_ino st = ip_inum ip"
    "holder t = (holder s)(b \<mapsto> (ip_dev ip, low24 (ip_addrs ip ! NDIRECT)))" "b \<notin> dom (holder s)" "icache t = icache s" "stati i t = Sleep"
proof -
  let ?k = "(ip_dev ip, low24 (ip_addrs ip ! NDIRECT))"
  obtain b t where t: "bread (ip_dev ip) (low24 (ip_addrs ip ! NDIRECT)) s = Ok (b, t)"
    "bio.taken b ?k (sector s ?k) (sector s) (kern.more s) s t"
    using bio.take_block[OF assms(2)] .
  have h: "holder t = (holder s)(b \<mapsto> ?k)" "holder s b = None" "cache_ok t" using t(2) by (simp_all add: bio.taken_def)
  have ic: "icache t = icache s" using t(2) more_icache[of t "icache s" s] by (simp add: bio.taken_def)
  have "bread (ip_dev ip) (low24 (ip_addrs ip ! NDIRECT)) t = Sleep"
    using h(1) by (intro bio.held_law[OF h(3)]) (auto simp: ran_def)
  then have again: "stati i t = Sleep" using assms(1) ic by (simp add: stati_def andthen_def[of "bread x y" for x y])
  have "stati i s = Ok (\<lparr>kst_dev = ip_dev ip, kst_ino = ip_inum ip, kst_type = ip_type ip, kst_nlink = ip_nlink ip, kst_size = ip_size ip,
          kst_checksum = fold (\<lambda>k c. c XOR tag_of (get32 k (sector s ?k))) [0..<64]
            (fold (\<lambda>k c. c XOR tag_of (ip_addrs ip ! k)) [0..<NDIRECT] 0)\<rparr>, t)"
    using t(1) bio.taken_data[OF t(2)] assms(1) by (simp only: stati_def inode_step andthen_Ok comp_simps)
  then show thesis using h ic again by (intro that) (auto simp: dom_def)
qed

end
