(* ===== verification/Xv6_Read.thy ===== *)
theory Xv6_Read
  imports Xv6_Inode
begin

text \<open>
  \<open>readi\<close>: the bytes of the file, clipped at its size, and for a file of type \<open>T_CHECKED\<close> the test of the checksum of every
  block that is touched.
\<close>

definition file_byte :: "(key \<Rightarrow> byte list) \<Rightarrow> incore \<Rightarrow> nat \<Rightarrow> byte" where
  "file_byte C ip k = C (blk C ip (k div BSIZE)) ! (k mod BSIZE)"

definition file_slice :: "(key \<Rightarrow> byte list) \<Rightarrow> incore \<Rightarrow> nat \<Rightarrow> nat \<Rightarrow> byte list" where
  "file_slice C ip off n = map (file_byte C ip) [off..<off + n]"

text \<open>The stored checksum of the block is the one of its bytes; the blocks that bytes \<open>off\<close> to \<open>off + n\<close> touch.\<close>

definition good :: "(key \<Rightarrow> byte list) \<Rightarrow> incore \<Rightarrow> nat \<Rightarrow> bool" where
  "good C ip bn \<longleftrightarrow> (ip_type ip = T_CHECKED \<longrightarrow> tag_of (addr_word C ip bn) = checksum (C (blk C ip bn)))"

definition span :: "nat \<Rightarrow> nat \<Rightarrow> nat set" where
  "span off n = {bn. \<exists>k. off \<le> k \<and> k < off + n \<and> bn = k div BSIZE}"

lemma block_step:
  assumes "0 < n" "m = min n (BSIZE - off mod BSIZE)"
  shows "0 < m" "m \<le> n" "off mod BSIZE + m \<le> BSIZE" "\<And>k. off \<le> k \<Longrightarrow> k < off + m \<Longrightarrow> k div BSIZE = off div BSIZE"
    "\<And>k. off \<le> k \<Longrightarrow> k < off + m \<Longrightarrow> k mod BSIZE = off mod BSIZE + (k - off)"
    "span off n = insert (off div BSIZE) (span (off + m) (n - m))"
proof -
  have lt: "off mod BSIZE < BSIZE" by (simp add: BSIZE_def)
  with assms show m: "0 < m" "m \<le> n" "off mod BSIZE + m \<le> BSIZE" by auto
  have k: "k = off div BSIZE * BSIZE + (off mod BSIZE + (k - off))" "off mod BSIZE + (k - off) < BSIZE" if "off \<le> k" "k < off + m" for k
    using that m(3) div_mult_mod_eq[of off BSIZE] by linarith+
  show dv: "k div BSIZE = off div BSIZE" if "off \<le> k" "k < off + m" for k
    using k[OF that] by (metis div_mult_self3 div_less add_0_right mult.commute lt less_nat_zero_code)
  show "k mod BSIZE = off mod BSIZE + (k - off)" if "off \<le> k" "k < off + m" for k
    using k[OF that] by (metis mod_less mod_mult_self3)
  show "span off n = insert (off div BSIZE) (span (off + m) (n - m))"
  proof (intro set_eqI iffI)
    fix bn assume "bn \<in> span off n"
    then obtain k where "off \<le> k" "k < off + n" "bn = k div BSIZE" by (auto simp: span_def)
    then show "bn \<in> insert (off div BSIZE) (span (off + m) (n - m))"
      using dv[of k] m(2) by (cases "k < off + m") (auto simp: span_def intro!: exI[of _ k])
  next
    fix bn assume "bn \<in> insert (off div BSIZE) (span (off + m) (n - m))"
    then show "bn \<in> span off n"
    proof
      assume "bn = off div BSIZE"
      then show ?thesis using assms(1) by (auto simp: span_def)
    next
      assume "bn \<in> span (off + m) (n - m)"
      then obtain k where "off + m \<le> k" "k < off + m + (n - m)" "bn = k div BSIZE" by (auto simp: span_def)
      with m(2) show ?thesis by (auto simp: span_def intro!: exI[of _ k])
    qed
  qed
qed

lemma slice_step:
  assumes "0 < n" "m = min n (BSIZE - off mod BSIZE)" "length (C (blk C ip (off div BSIZE))) = BSIZE"
  shows "file_slice C ip off n = peek (off mod BSIZE) m (C (blk C ip (off div BSIZE))) @ file_slice C ip (off + m) (n - m)"
proof -
  note st = block_step[OF assms(1,2)]
  have "[off..<off + n] = [off..<off + m] @ [off + m..<off + n]"
    using upt_add_eq_append[of off "off + m" "n - m"] st(2) by simp
  moreover have "map (file_byte C ip) [off..<off + m] = peek (off mod BSIZE) m (C (blk C ip (off div BSIZE)))"
  proof (rule nth_equalityI)
    show "length (map (file_byte C ip) [off..<off + m]) = length (peek (off mod BSIZE) m (C (blk C ip (off div BSIZE))))"
      using st(3) assms(3) by (simp add: peek_def)
    fix j assume "j < length (map (file_byte C ip) [off..<off + m])"
    then have j: "j < m" by simp
    have "(off + j) div BSIZE = off div BSIZE" "(off + j) mod BSIZE = off mod BSIZE + j" using st(4,5)[of "off + j"] j by simp_all
    with j st(3) assms(3) show "map (file_byte C ip) [off..<off + m] ! j = peek (off mod BSIZE) m (C (blk C ip (off div BSIZE))) ! j"
      by (simp add: peek_def file_byte_def)
  qed
  ultimately show ?thesis using st(2) by (simp add: file_slice_def)
qed

lemma read_reachable:
  assumes "reachable (icache s ! i) bn s" "ip = icache s ! i"
  obtains b t1 t2 t3 where "bmap i bn s = Ok (snd (blk (sector s) ip bn), t1)" "bread (ip_dev ip) (snd (blk (sector s) ip bn)) t1 = Ok (b, t2)"
    "bdata b t2 = Ok (sector s (blk (sector s) ip bn), t2)" "brelse b t2 = Ok ((), t3)" "fs_to (sector s) (icache s) s t3" "icache t1 = icache s"
proof -
  obtain t1 where t1: "bmap i bn s = Ok (snd (blk (sector s) ip bn), t1)" "fs_to (sector s) (icache s) s t1"
    using bmap_mapped[OF assms(1)] unfolding assms(2) .
  have same: "sector t1 = sector s" "icache t1 = icache s" using fs_toD[OF t1(2)] by simp_all
  have "bio.ready (blk (sector s) ip bn) t1" using assms fs_to_ready[OF t1(2)] by (simp add: reachable_def)
  then have "bio.ready (ip_dev ip, snd (blk (sector s) ip bn)) t1" by (simp add: blk_def)
  from bio.take_block[OF this] obtain b t2 where t2: "bread (ip_dev ip) (snd (blk (sector s) ip bn)) t1 = Ok (b, t2)"
    "bio.taken b (blk (sector s) ip bn) (sector s (blk (sector s) ip bn)) (sector s) (kern.more t1) t1 t2"
    unfolding same by (auto simp: blk_def)
  obtain t3 where t3: "brelse b t2 = Ok ((), t3)" "bio.becomes (sector s) (kern.more t1) t1 t3" using bio.release_block[OF t2(2)] by auto
  have "fs_to (sector s) (icache s) s t3" using fs_to_trans[OF t1(2)] fs_to_bio[OF t3(2)] same by simp
  then show thesis using same(2) by (rule that[OF t1(1) t2(1) bio.taken_data[OF t2(2)] t3(1)])
qed

lemma check_block_result:
  assumes "reachable (icache s ! i) bn s" "ip = icache s ! i" "ip_type ip = T_CHECKED"
  obtains t where "check_block i bn s = Ok (good (sector s) ip bn, t)" "fs_to (sector s) (icache s) s t"
proof -
  obtain b t1 t2 t3 where t: "bmap i bn s = Ok (snd (blk (sector s) ip bn), t1)" "bread (ip_dev ip) (snd (blk (sector s) ip bn)) t1 = Ok (b, t2)"
    "bdata b t2 = Ok (sector s (blk (sector s) ip bn), t2)" "brelse b t2 = Ok ((), t3)" and to3: "fs_to (sector s) (icache s) s t3"
    using read_reachable[OF assms(1,2)] .
  have same: "sector t3 = sector s" "icache t3 = icache s" using fs_toD[OF to3] by simp_all
  show thesis
  proof (cases "bn < NDIRECT")
    case True
    then have "check_block i bn s = Ok (good (sector s) ip bn, t3)"
      using t same assms(2,3) by (simp add: check_block_def andthen_Ok good_def addr_word_def)
    with to3 show thesis by (intro that)
  next
    case False
    have "bio.ready (ind_key ip) t3" using assms(1,2) False fs_to_ready[OF to3] by (simp add: reachable_def)
    then have "bio.ready (ip_dev ip, low24 (ip_addrs ip ! NDIRECT)) t3" using assms(3) by (simp add: ind_key_def amask_def)
    from bio.take_block[OF this] obtain b' u where u: "bread (ip_dev ip) (low24 (ip_addrs ip ! NDIRECT)) t3 = Ok (b', u)"
      "bio.taken b' (ind_key ip) (sector s (ind_key ip)) (sector s) (kern.more t3) t3 u"
      unfolding same using assms(3) by (auto simp: ind_key_def amask_def)
    obtain r where r: "brelse b' u = Ok ((), r)" "bio.becomes (sector s) (kern.more t3) t3 r" "held_data r b' = sector s (ind_key ip)"
      using bio.release_block[OF u(2)] by auto
    have "bdata b' r = Ok (sector s (ind_key ip), r)" using r(3) by (simp add: bio.bdata_law)
    then have "check_block i bn s = Ok (good (sector s) ip bn, r)"
      using False t u(1) r(1) same assms(2,3) by (auto simp: check_block_def andthen_Ok good_def addr_word_def)
    moreover have "fs_to (sector s) (icache s) s r" using fs_to_trans[OF to3] fs_to_bio[OF r(2)] same by simp
    ultimately show thesis by (intro that)
  qed
qed

section \<open>The loop of readi\<close>

text \<open>The loop ends with \<open>True\<close> just if every block is good, and has then copied the bytes of the file.\<close>

lemma readi_loop_result:
  assumes "ip = icache s ! i" "\<forall>bn \<in> span off n. reachable ip bn s"
  shows "\<exists>bytes t. readi_loop i off n dst s = Ok ((\<forall>bn \<in> span off n. good (sector s) ip bn, dst @ bytes), t) \<and>
    ((\<forall>bn \<in> span off n. good (sector s) ip bn) \<longrightarrow> bytes = file_slice (sector s) ip off n) \<and>
    (n = 0 \<or> fs_to (sector s) (icache s) s t) \<and> (n = 0 \<longrightarrow> t = s)"
  using assms
proof (induction n arbitrary: off dst s rule: less_induct)
  case (less n)
  show ?case
  proof (cases "n = 0")
    case True
    then show ?thesis by (auto simp: readi_loop.simps span_def file_slice_def)
  next
    case False
    define m where "m = min n (BSIZE - off mod BSIZE)"
    define bn where "bn = off div BSIZE"
    define d where "d = peek (off mod BSIZE) m (sector s (blk (sector s) ip bn))"
    have pos: "0 < n" using False by simp
    have st: "0 < m" "m \<le> n" "span off n = insert bn (span (off + m) (n - m))"
      unfolding bn_def by (fact block_step(1,2,6)[OF pos m_def])+
    have reach: "reachable (icache s ! i) bn s" using less.prems st(3) by simp
    obtain b t1 t2 t3 where t: "bmap i bn s = Ok (snd (blk (sector s) ip bn), t1)" "bread (ip_dev ip) (snd (blk (sector s) ip bn)) t1 = Ok (b, t2)"
      "bdata b t2 = Ok (sector s (blk (sector s) ip bn), t2)" "brelse b t2 = Ok ((), t3)" and to3: "fs_to (sector s) (icache s) s t3"
      using read_reachable[OF reach less.prems(1)] .
    have s3: "sector t3 = sector s" "icache t3 = icache s" using fs_toD[OF to3] by simp_all
    obtain t4 where t4: "(if ip_type ip = T_CHECKED then check_block i bn else ret True) t3 = Ok (good (sector s) ip bn, t4)"
      and to4: "fs_to (sector s) (icache s) s t4"
    proof (cases "ip_type ip = T_CHECKED")
      case True
      have "reachable (icache t3 ! i) bn t3" using reachable_after[OF to3] reach s3(2) by simp
      from check_block_result[OF this] True obtain t4 where "check_block i bn t3 = Ok (good (sector s) ip bn, t4)" "fs_to (sector s) (icache s) t3 t4"
        using less.prems(1) unfolding s3 by metis
      with True show thesis using fs_to_trans[OF to3] by (intro that) simp_all
    next
      case False
      with to3 show thesis by (intro that[of t3]) (simp_all add: good_def)
    qed
    have step: "readi_loop i off n dst s =
        (if good (sector s) ip bn then readi_loop i (off + m) (n - m) (dst @ d) t4 else Ok ((False, dst @ d), t4))"
      using False t t4
      by (subst readi_loop.simps)
        (simp only: if_False inode_step Let_def m_def[symmetric] bn_def[symmetric] less.prems(1)[symmetric] andthen_Ok d_def[symmetric] if_distribR comp_simps)
    have s4: "sector t4 = sector s" "icache t4 = icache s" using fs_toD[OF to4] by simp_all
    show ?thesis
    proof (cases "good (sector s) ip bn")
      case False
      then show ?thesis using to4 st(3) pos unfolding step by (intro exI[of _ d] exI[of _ t4]) simp
    next
      case True
      have "\<forall>bn \<in> span (off + m) (n - m). reachable ip bn t4" using less.prems(2) st(3) reachable_after[OF to4] by simp
      with less.IH[of "n - m" t4 "off + m" "dst @ d"] st(1,2) s4 less.prems(1)
      obtain bytes t where r: "readi_loop i (off + m) (n - m) (dst @ d) t4 =
          Ok ((\<forall>bn \<in> span (off + m) (n - m). good (sector s) ip bn, (dst @ d) @ bytes), t)"
        "(\<forall>bn \<in> span (off + m) (n - m). good (sector s) ip bn) \<longrightarrow> bytes = file_slice (sector s) ip (off + m) (n - m)"
        "n - m = 0 \<or> fs_to (sector s) (icache s) t4 t" "n - m = 0 \<longrightarrow> t = t4"
        using False by auto
      have len: "length (sector s (blk (sector s) ip bn)) = BSIZE"
        using reach less.prems(1) by (simp add: reachable_def bio.ready_def sector_length)
      have slice: "file_slice (sector s) ip off n = d @ file_slice (sector s) ip (off + m) (n - m)"
        unfolding d_def bn_def by (rule slice_step[OF pos m_def]) (use len in \<open>simp add: bn_def\<close>)
      have "fs_to (sector s) (icache s) s t" using r(3,4) fs_to_trans[OF to4] to4 by auto
      with r True st(3) slice pos show ?thesis unfolding step by (intro exI[of _ "d @ bytes"] exI[of _ t]) simp
    qed
  qed
qed

lemma readi_result:
  assumes "ip = icache s ! i" "ip_type ip \<noteq> T_DEV" "off \<le> ip_size ip" "off \<le> off + n"
    and "k = min (unat n) (unat (ip_size ip) - unat off)" "\<forall>bn \<in> span (unat off) k. reachable ip bn s" "cache_ok s"
  obtains (clean) t where "\<forall>bn \<in> span (unat off) k. good (sector s) ip bn"
      "readi i off n s = Ok ((int k, file_slice (sector s) ip (unat off) k), t)" "fs_to (sector s) (icache s) s t"
  | (corrupt) bytes t where "\<not> (\<forall>bn \<in> span (unat off) k. good (sector s) ip bn)" "readi i off n s = Ok ((-1, bytes), t)"
      "fs_to (sector s) (icache s) s t"
proof -
  have le: "unat off \<le> unat (ip_size ip)" "unat (off + n) = unat off + unat n"
    using assms(3,4) by (simp_all add: word_le_nat_alt no_olen_add_nat[symmetric] unat_plus_simple[THEN iffD1])
  let ?n = "if off + n > ip_size ip then ip_size ip - off else n"
  have k: "unat ?n = k"
    using le assms(3,5) by (auto simp: word_less_nat_alt unat_sub)
  have notlt: "\<not> off > ip_size ip" "\<not> off + n < off" using assms(3,4) by (simp_all add: not_less)
  obtain bytes t where r: "readi_loop i (unat off) k [] s = Ok ((\<forall>bn \<in> span (unat off) k. good (sector s) ip bn, bytes), t)"
    "(\<forall>bn \<in> span (unat off) k. good (sector s) ip bn) \<longrightarrow> bytes = file_slice (sector s) ip (unat off) k"
    "k = 0 \<or> fs_to (sector s) (icache s) s t" "k = 0 \<longrightarrow> t = s"
    using readi_loop_result[OF assms(1,6), of "[]"] by auto
  have to: "fs_to (sector s) (icache s) s t" using r(3,4) fs_to_refl[OF assms(7)] by auto
  have u: "uint ?n = int k" using k by (metis uint_nat)
  have val: "readi i off n s = andthen (readi_loop i (unat off) k []) (\<lambda>(g, dst). ret (if g then int k else -1, dst)) s"
    unfolding readi_def inode_step assms(1)[symmetric] using assms(2) notlt by (simp only: Let_def k u if_False simp_thms)
  show thesis
    using r(1,2) to val clean[of t] corrupt[of bytes t]
    by (cases "\<forall>bn \<in> span (unat off) k. good (sector s) ip bn") (simp_all add: andthen_Ok)
qed

section \<open>Inodes on disk\<close>

lemma iblock_slot: "IBLOCK m = IBLOCK n \<Longrightarrow> unat m mod IPB = unat n mod IPB \<Longrightarrow> m = n"
proof -
  assume a: "IBLOCK m = IBLOCK n" "unat m mod IPB = unat n mod IPB"
  then have "unat (m div of_nat IPB) = unat (n div of_nat IPB)" by (simp add: IBLOCK_def)
  then have "unat m div IPB = unat n div IPB" by (simp add: unat_div IPB_def BSIZE_def)
  with a(2) have "unat m = unat n" by (metis div_mult_mod_eq)
  then show "m = n" by (simp add: unat_same)
qed

definition disk_inode :: "(key \<Rightarrow> byte list) \<Rightarrow> 32 word \<Rightarrow> 32 word \<Rightarrow> dinode" where
  "disk_inode C dev inum = dinode_at inum (C (dev, IBLOCK inum))"

lemma disk_inode_put:
  assumes "length (C (dev, IBLOCK n)) = BSIZE" "length (di_addrs d) = 13"
  shows "disk_inode (C((dev, IBLOCK n) := put_dinode n d (C (dev, IBLOCK n)))) dev' m =
    (if (dev', m) = (dev, n) then d else disk_inode C dev' m)"
proof (cases "(dev', IBLOCK m) = (dev, IBLOCK n) \<and> m \<noteq> n")
  case True
  then have "unat m mod IPB \<noteq> unat n mod IPB" using iblock_slot by blast
  with True assms show ?thesis by (simp add: disk_inode_def dinode_at_other)
next
  case False
  then show ?thesis using assms by (auto simp: disk_inode_def dinode_at_put)
qed

lemma to_from_dinode: "to_dinode ((from_dinode d ip)\<lparr>ip_busy := b, ip_valid := v\<rparr>) = d"
  by (simp add: to_dinode_def from_dinode_def)

text \<open>The demonstration machine with a file in slot 0 of the inode cache and a fresh entry for the same inode in slot 1.\<close>

definition demo_file :: "16 word \<Rightarrow> 32 word \<Rightarrow> incore" where
  "demo_file tp a = \<lparr>ip_dev = 1, ip_inum = 5, ip_ref = 1, ip_busy = True, ip_valid = True, ip_type = tp, ip_major = 0, ip_minor = 0,
     ip_nlink = 1, ip_size = 300, ip_addrs = a # replicate 12 0\<rparr>"

definition demo_with :: "16 word \<Rightarrow> 32 word \<Rightarrow> fsk" where
  "demo_with tp a = demo_machine\<lparr>icache := demo_file tp a # empty_inode\<lparr>ip_dev := 1, ip_inum := 5, ip_ref := 1\<rparr> # replicate 48 empty_inode\<rparr>"

lemma demo_with_simps [simp]:
  "icache (demo_with tp a) ! 0 = demo_file tp a" "sector (demo_with tp a) = sector demo_machine" "cache_ok (demo_with tp a)"
  "icache (demo_with tp a) ! 1 = empty_inode\<lparr>ip_dev := 1, ip_inum := 5, ip_ref := 1\<rparr>" "length (icache (demo_with tp a)) = 50"
  by (simp_all add: demo_with_def demo_cache)

lemma demo_with_ready: "key_valid k \<Longrightarrow> bio.ready k (demo_with tp a)"
  unfolding bio.ready_def by (simp add: demo_with_def demo_cache demo_holder NBUF_def)

section \<open>Properties\<close>

text \<open>
  C19. \<open>iupdate\<close> writes the inode so that \<open>ilock\<close> of an entry of the inode cache that has to load it gets the same
  type, device numbers, link count, size and addresses; no other inode on disk changes.
\<close>

theorem iupdate_ilock_roundtrip:
  assumes "ip = icache s ! i" "readable (dinode_key ip) s" "length (ip_addrs ip) = 13" "ip_type ip \<noteq> 0"
    and "jp = icache s ! j" "j < length (icache s)" "ip_ref jp \<ge> 1" "\<not> ip_busy jp" "\<not> ip_valid jp" "ip_dev jp = ip_dev ip" "ip_inum jp = ip_inum ip"
  shows "\<exists>t u. iupdate i s = Ok ((), t) \<and> ilock j t = Ok ((), u) \<and> to_dinode (icache u ! j) = to_dinode ip \<and>
    ip_busy (icache u ! j) \<and> ip_valid (icache u ! j) \<and> holder u = holder s \<and>
    (\<forall>dev m. (dev, m) \<noteq> (ip_dev ip, ip_inum ip) \<longrightarrow> disk_inode (sector u) dev m = disk_inode (sector s) dev m)"
proof -
  let ?C = "(sector s)(dinode_key ip := put_dinode (ip_inum ip) (to_dinode ip) (sector s (dinode_key ip)))"
  have rdy: "bio.ready (dinode_key ip) s" using assms(2) by (simp add: readable_ready)
  have len: "length (sector s (dinode_key ip)) = BSIZE" "length (di_addrs (to_dinode ip)) = 13"
    using assms(2,3) by (simp_all add: readable_def sector_length to_dinode_def)
  obtain t where t: "iupdate i s = Ok ((), t)" "fs_to ?C (icache s) s t" using iupdate_result[of s i] rdy assms(1,3) by metis
  have same: "sector t = ?C" "icache t = icache s" using fs_toD[OF t(2)] by simp_all
  have key: "dinode_key jp = dinode_key ip" using assms(10,11) by (simp add: dinode_key_def)
  have loaded: "dinode_at (ip_inum jp) (sector t (dinode_key jp)) = to_dinode ip"
    unfolding key same assms(11) by (simp add: dinode_at_put[OF len])
  have "bio.ready (dinode_key jp) t" unfolding key using fs_to_ready[OF t(2) rdy] .
  from ilock_result[of t j, unfolded same(2) assms(5)[symmetric], OF assms(7-9,6) this] loaded assms(4)
  obtain u where u: "ilock j t = Ok ((), u)"
    "fs_to (sector t) ((icache s)[j := (from_dinode (to_dinode ip) jp)\<lparr>ip_busy := True, ip_valid := True\<rparr>]) t u"
    unfolding loaded by (auto simp: to_dinode_def)
  have fin: "sector u = ?C" "icache u ! j = (from_dinode (to_dinode ip) jp)\<lparr>ip_busy := True, ip_valid := True\<rparr>" "holder u = holder s"
    using fs_toD[OF u(2)] fs_toD[OF t(2)] same assms(6) by simp_all
  have "disk_inode (sector u) dev m = disk_inode (sector s) dev m" if "(dev, m) \<noteq> (ip_dev ip, ip_inum ip)" for dev m
    using that disk_inode_put[of "sector s" "ip_dev ip" "ip_inum ip" "to_dinode ip" dev m] len unfolding fin(1) dinode_key_def by auto
  with t(1) u(1) fin show ?thesis using to_from_dinode by (intro exI[of _ t] exI[of _ u]) simp
qed

theorem iupdate_ilock_roundtrip_witness:
  "\<exists>t u. iupdate 0 (demo_with T_FILE 40) = Ok ((), t) \<and> ilock 1 t = Ok ((), u) \<and> to_dinode (icache u ! 1) = to_dinode (demo_file T_FILE 40)"
proof -
  have "readable (dinode_key (demo_file T_FILE 40)) (demo_with T_FILE 40)"
    unfolding readable_ready by (rule demo_with_ready)
      (simp add: dinode_key_def demo_file_def key_valid_def key_ok_def IBLOCK_def IPB_def BSIZE_def)
  note rt = iupdate_ilock_roundtrip[OF demo_with_simps(1)[symmetric] this _ _ demo_with_simps(4)[symmetric]]
  have "ip_type (demo_file T_FILE 40) \<noteq> 0" "length (ip_addrs (demo_file T_FILE 40)) = 13" by (simp_all add: demo_file_def T_FILE_def)
  from rt[OF this(2,1)] show ?thesis by (simp add: empty_inode_def demo_file_def) blast
qed

text \<open>
  C20. \<open>readi\<close> of a file whose blocks are allocated: it returns the number of bytes up to the end of the file and copies
  exactly the bytes of the file, through the direct and the indirect addresses; for a \<open>T_CHECKED\<close> file it returns \<open>-1\<close> just
  if the checksum of some block that it touches is not the stored one. It changes neither the disk nor the inode and
  leaves no buffer held.
\<close>

theorem readi_reads_file:
  assumes "ip = icache s ! i" "ip_type ip \<noteq> T_DEV" "off \<le> ip_size ip" "off \<le> off + n"
    and "k = min (unat n) (unat (ip_size ip) - unat off)" "\<forall>bn \<in> span (unat off) k. reachable ip bn s" "cache_ok s"
  shows "\<exists>bytes t. readi i off n s = Ok ((if \<forall>bn \<in> span (unat off) k. good (sector s) ip bn then int k else -1, bytes), t) \<and>
    ((\<forall>bn \<in> span (unat off) k. good (sector s) ip bn) \<longrightarrow> bytes = file_slice (sector s) ip (unat off) k) \<and>
    sector t = sector s \<and> icache t = icache s \<and> holder t = holder s \<and> cache_ok t"
  using assms
proof (cases rule: readi_result)
  case (clean t)
  then show ?thesis using fs_toD[OF clean(3)] by (intro exI[of _ "file_slice (sector s) ip (unat off) k"] exI[of _ t]) simp
next
  case (corrupt bytes t)
  then show ?thesis using fs_toD[OF corrupt(3)] by (intro exI[of _ bytes] exI[of _ t]) auto
qed

lemma demo_reachable:
  assumes "amask (demo_file tp a) a = 40"
  shows "\<forall>bn \<in> span 0 200. reachable (demo_file tp a) bn (demo_with tp a)"
proof
  fix bn assume "bn \<in> span 0 200"
  then have bn: "bn = 0" by (auto simp: span_def BSIZE_def)
  have "blk (sector (demo_with tp a)) (demo_file tp a) 0 = (1, 40)"
    using assms by (simp add: blk_def addr_word_def NDIRECT_def) (simp add: demo_file_def)
  moreover have "mapped (sector (demo_with tp a)) (demo_file tp a) 0"
    using assms by (simp add: mapped_def addr_word_def NDIRECT_def MAXFILE_def) (simp add: demo_file_def)
  ultimately show "reachable (demo_file tp a) bn (demo_with tp a)"
    unfolding reachable_def bn using demo_with_ready[of "(1, 40)" tp a] by (simp add: key_valid_def key_ok_def NDIRECT_def)
qed

theorem readi_reads_file_witness:
  "\<exists>bytes t. readi 0 0 200 (demo_with T_FILE 40) = Ok ((200, bytes), t) \<and> bytes = file_slice (sector demo_machine) (demo_file T_FILE 40) 0 200"
proof -
  have "amask (demo_file T_FILE 40) 40 = 40" by (simp add: amask_def demo_file_def T_FILE_def T_CHECKED_def)
  from demo_reachable[OF this] have "\<forall>bn \<in> span (unat (0 :: 32 word)) 200. reachable (demo_file T_FILE 40) bn (demo_with T_FILE 40)" by simp
  from readi_reads_file[OF _ _ _ _ _ this, of 0 200] show ?thesis
    by (auto simp: demo_file_def T_FILE_def T_DEV_def T_CHECKED_def good_def)
qed

section \<open>Corruption\<close>

lemma fold_xor: "fold (\<lambda>k c. c XOR d ! k) ks (a :: byte) = a XOR fold (\<lambda>k c. c XOR d ! k) ks 0"
proof (induction ks arbitrary: a)
  case (Cons k ks)
  show ?case using Cons.IH[of "a XOR d ! k"] Cons.IH[of "d ! k"] by (simp add: xor.assoc)
qed simp

lemma fold_xor_same: "j \<notin> set ks \<Longrightarrow> fold (\<lambda>k c. c XOR d[j := b] ! k) ks a = fold (\<lambda>k c. c XOR d ! k) ks (a :: byte)"
  by (induction ks arbitrary: a) auto

lemma fold_xor_change:
  assumes "distinct ks" "j \<in> set ks" "j < length d"
  shows "fold (\<lambda>k c. c XOR d[j := b] ! k) ks 0 = fold (\<lambda>k c. c XOR d ! k) ks 0 XOR (d ! j XOR (b :: byte))"
proof -
  obtain xs ys where ks: "ks = xs @ j # ys" using assms(2) by (meson split_list)
  with assms(1) have "j \<notin> set xs" "j \<notin> set ys" by auto
  let ?f = "\<lambda>k c. c XOR d ! k"
  have "fold (\<lambda>k c. c XOR d[j := b] ! k) ks 0 = fold ?f ys (fold ?f xs 0 XOR b)"
    using assms(3) \<open>j \<notin> set xs\<close> \<open>j \<notin> set ys\<close> by (simp add: ks fold_xor_same)
  also have "\<dots> = fold ?f xs 0 XOR b XOR fold ?f ys 0"
    using fold_xor[of d ys "fold ?f xs 0 XOR b"] by (simp add: xor.assoc)
  finally have l: "fold (\<lambda>k c. c XOR d[j := b] ! k) ks 0 = fold ?f xs 0 XOR b XOR fold ?f ys 0" .
  have r: "fold ?f ks 0 = fold ?f xs 0 XOR d ! j XOR fold ?f ys 0"
    using fold_xor[of d ys "fold ?f xs 0 XOR d ! j"] by (simp add: ks xor.assoc)
  show ?thesis unfolding l r by (simp add: bit_eq_iff bit_simps) auto
qed

lemma checksum_fold: "length d = BSIZE \<Longrightarrow> checksum d = fold (\<lambda>k c. c XOR d ! k) [0..<BSIZE] 0"
  using upt_conv_Cons[of 0 BSIZE] by (simp only: checksum_def) (simp add: BSIZE_def del: upt_rec_numeral)

lemma checksum_change:
  assumes "length d = BSIZE" "j < BSIZE" "b \<noteq> d ! j"
  shows "checksum (d[j := b]) \<noteq> checksum d"
proof
  assume "checksum (d[j := b]) = checksum d"
  then have "checksum d XOR (d ! j XOR b) = checksum d"
    using fold_xor_change[of "[0..<BSIZE]" j d b] assms(1,2) by (simp add: checksum_fold)
  moreover have "b = d ! j" if "c XOR (d ! j XOR b) = c" for c
    using that by (simp add: bit_eq_iff[of b] bit_eq_iff[of _ c] bit_simps) blast
  ultimately show False using assms(3) by blast
qed

text \<open>
  C21. A single byte of a \<open>T_CHECKED\<close> file that changed on the disk behind the file system's back is detected: if the
  stored checksum of a block is that of bytes \<open>d\<close> and the disk has \<open>d\<close> with one byte different, every \<open>readi\<close> that touches the
  block returns \<open>-1\<close>.
\<close>

theorem readi_detects_corruption:
  assumes "ip = icache s ! i" "ip_type ip = T_CHECKED" "off \<le> ip_size ip" "off \<le> off + n"
    and "k = min (unat n) (unat (ip_size ip) - unat off)" "\<forall>bn \<in> span (unat off) k. reachable ip bn s" "cache_ok s"
    and "bn \<in> span (unat off) k" "length d = BSIZE" "tag_of (addr_word (sector s) ip bn) = checksum d"
    and "j < BSIZE" "b \<noteq> d ! j" "sector s (blk (sector s) ip bn) = d[j := b]"
  shows "\<exists>bytes t. readi i off n s = Ok ((-1, bytes), t)"
proof -
  have "\<not> good (sector s) ip bn" using checksum_change[OF assms(9,11,12)] assms(2,10,13) by (simp add: good_def)
  then have bad: "\<not> (\<forall>bn \<in> span (unat off) k. good (sector s) ip bn)" using assms(8) by blast
  have "ip_type ip \<noteq> T_DEV" using assms(2) by (simp add: T_CHECKED_def T_DEV_def)
  from assms(1) this assms(3-7) show ?thesis by (cases rule: readi_result) (use bad in blast)+
qed

lemma tag_demo: "tag_of 0x05000028 = 5" "low24 0x05000028 = 40"
  by (simp_all add: tag_of_def low24_def)

lemma checksum_first: "checksum ((replicate BSIZE 0)[0 := b]) = b"
proof -
  have "fold (\<lambda>k c. c XOR (replicate BSIZE 0)[0 := b] ! k) ks a = a" if "0 \<notin> set ks" "set ks \<subseteq> {..<BSIZE}" for ks and a :: byte
    using that by (induction ks arbitrary: a) auto
  moreover have "0 \<notin> set [1..<BSIZE]" "set [1..<BSIZE] \<subseteq> {..<BSIZE}" by auto
  ultimately have "fold (\<lambda>k c. c XOR (replicate BSIZE 0)[0 := b] ! k) [1..<BSIZE] b = b" by blast
  moreover have "(replicate BSIZE 0)[0 := b] ! 0 = b" by (simp add: BSIZE_def)
  ultimately show ?thesis unfolding checksum_def by metis
qed

theorem readi_detects_corruption_witness:
  "\<exists>bytes t. readi 0 0 200 (demo_with T_CHECKED 0x05000028) = Ok ((-1, bytes), t)"
proof -
  let ?s = "demo_with T_CHECKED 0x05000028" and ?ip = "demo_file T_CHECKED 0x05000028"
  have "amask ?ip 0x05000028 = 40" by (simp add: amask_def demo_file_def tag_demo)
  from demo_reachable[OF this] have reach: "\<forall>bn \<in> span (unat (0 :: 32 word)) 200. reachable ?ip bn ?s" by simp
  have blk0: "blk (sector ?s) ?ip 0 = (1, 40)" "addr_word (sector ?s) ?ip 0 = 0x05000028"
    by (simp_all add: blk_def addr_word_def NDIRECT_def amask_def demo_file_def tag_demo)
  have sec: "sector ?s (1, 40) = ((replicate BSIZE 0)[0 := 5])[0 := 0]"
    using list_update_id[of "replicate BSIZE (0 :: byte)" 0] by (simp add: sector_def demo_fields demo_sector_def BSIZE_def)
  have in0: "0 \<in> span (unat (0 :: 32 word)) 200" by (auto simp: span_def intro!: exI[of _ 0])
  show ?thesis
    using sec blk0 in0 reach
    by (intro readi_detects_corruption[of ?ip ?s 0 0 200 200 0 "(replicate BSIZE 0)[0 := 5]" 0 0])
      (simp_all add: demo_file_def tag_demo checksum_first, simp_all add: BSIZE_def)
qed

text \<open>
  \<open>stati\<close> does not release the buffer of the indirect block: it returns with one more buffer held than before, and
  the next \<open>stati\<close> of the same file sleeps for a buffer that nobody will release.
\<close>

theorem stati_leaks_buffer:
  assumes "ip = icache s ! i" "readable (ip_dev ip, low24 (ip_addrs ip ! NDIRECT)) s"
  shows "\<exists>st b t. stati i s = Ok (st, t) \<and> kst_size st = ip_size ip \<and> kst_ino st = ip_inum ip \<and> b \<notin> dom (holder s) \<and>
    holder t = (holder s)(b \<mapsto> (ip_dev ip, low24 (ip_addrs ip ! NDIRECT))) \<and> stati i t = Sleep"
proof -
  have "bio.ready (ip_dev ip, low24 (ip_addrs ip ! NDIRECT)) s" using assms(2) by (simp add: readable_ready)
  from stati_keeps_buffer[OF assms(1) this] show ?thesis by metis
qed

theorem stati_leaks_buffer_witness: "\<exists>st t. stati 0 (demo_with T_FILE 40) = Ok (st, t) \<and> stati 0 t = Sleep"
proof -
  have "readable (ip_dev (demo_file T_FILE 40), low24 (ip_addrs (demo_file T_FILE 40) ! NDIRECT)) (demo_with T_FILE 40)"
    unfolding readable_ready by (rule demo_with_ready) (simp add: demo_file_def key_valid_def key_ok_def low24_def NDIRECT_def)
  from stati_leaks_buffer[OF demo_with_simps(1)[symmetric] this] show ?thesis by blast
qed

end
