(* ===== verification/Xv6_Write.thy ===== *)
theory Xv6_Write
  imports Xv6_Read
begin

text \<open>
  \<open>writei\<close> on blocks that the file already has: it changes the bytes of the range and no others, stores the checksums of the
  blocks it touches if the file has them, and writes the inode. The loop is described by \<open>wrote\<close>, a relation between the disk
  and the inode before and after that composes along the loop.
\<close>

lemma low_mask: "(0x00ffffff :: 32 word) = mask 24" "(0xff000000 :: 32 word) = push_bit 24 (mask 8)"
  by (simp_all add: mask_eq_exp_minus_1)

lemma low24_tagged [simp]: "low24 (tagged a c) = low24 a"
  unfolding low24_def tagged_def low_mask by (rule bit_word_eqI) (auto simp: bit_simps)

lemma tag_of_tagged [simp]: "tag_of (tagged a c) = c"
  unfolding low24_def tagged_def tag_of_def low_mask by (rule bit_word_eqI) (auto simp: bit_simps)

text \<open>
  The blocks \<open>S\<close> of the file are allocated and can be read, no two of them are the same block, and none of them is the indirect block
  of the file.
\<close>

definition laid_out :: "nat set \<Rightarrow> incore \<Rightarrow> 'z fsk_scheme \<Rightarrow> bool" where
  "laid_out S ip s \<longleftrightarrow> (\<forall>bn \<in> S. reachable ip bn s) \<and> inj_on (blk (sector s) ip) S \<and> ind_key ip \<notin> blk (sector s) ip ` S"

text \<open>What writing \<open>src\<close> at \<open>off\<close> makes of disk \<open>C\<close> and inode \<open>ip\<close>.\<close>

definition wrote :: "nat set \<Rightarrow> nat \<Rightarrow> byte list \<Rightarrow> (key \<Rightarrow> byte list) \<Rightarrow> incore \<Rightarrow> (key \<Rightarrow> byte list) \<Rightarrow> incore \<Rightarrow> bool" where
  "wrote S off src C ip D jp \<longleftrightarrow>
     (\<exists>as. jp = ip\<lparr>ip_addrs := as\<rparr> \<and> length as = length (ip_addrs ip)) \<and> ind_key jp = ind_key ip \<and>
     (\<forall>bn \<in> S. blk D jp bn = blk C ip bn) \<and>
     (\<forall>k. k div BSIZE \<in> S \<longrightarrow> file_byte D jp k = (if off \<le> k \<and> k < off + length src then src ! (k - off) else file_byte C ip k)) \<and>
     (\<forall>bn \<in> S. bn \<in> span off (length src) \<or> good C ip bn \<longrightarrow> good D jp bn) \<and>
     (\<forall>key. key \<notin> insert (ind_key ip) (blk C ip ` S) \<longrightarrow> D key = C key)"

lemma wroteD:
  assumes "wrote S off src C ip D jp"
  shows "\<exists>as. jp = ip\<lparr>ip_addrs := as\<rparr> \<and> length as = length (ip_addrs ip)" "ind_key jp = ind_key ip"
    "bn \<in> S \<Longrightarrow> blk D jp bn = blk C ip bn"
    "k div BSIZE \<in> S \<Longrightarrow> file_byte D jp k = (if off \<le> k \<and> k < off + length src then src ! (k - off) else file_byte C ip k)"
    "bn \<in> S \<Longrightarrow> bn \<in> span off (length src) \<or> good C ip bn \<Longrightarrow> good D jp bn"
    "key \<notin> insert (ind_key ip) (blk C ip ` S) \<Longrightarrow> D key = C key"
  using assms unfolding wrote_def by blast+

lemma span_append: "bn \<in> span off (m + n) \<longleftrightarrow> bn \<in> span off m \<or> bn \<in> span (off + m) n"
proof
  assume "bn \<in> span off (m + n)"
  then obtain k where "off \<le> k" "k < off + (m + n)" "bn = k div BSIZE" by (auto simp: span_def)
  then show "bn \<in> span off m \<or> bn \<in> span (off + m) n" by (cases "k < off + m") (auto simp: span_def intro!: exI[of _ k])
next
  assume "bn \<in> span off m \<or> bn \<in> span (off + m) n"
  then obtain k where "off \<le> k" "k < off + m \<or> k < off + m + n" "bn = k div BSIZE" by (auto simp: span_def dest: add_leD1)
  then show "bn \<in> span off (m + n)" by (auto simp: span_def intro!: exI[of _ k])
qed

lemma wrote_refl: "wrote S off [] C ip C ip"
  unfolding wrote_def span_def by (auto intro: exI[of _ "ip_addrs ip"])

lemma wrote_trans:
  assumes "wrote S off a C ip D jp" "wrote S (off + length a) b D jp E kp"
  shows "wrote S off (a @ b) C ip E kp"
proof -
  note 1 = wroteD[OF assms(1)] and 2 = wroteD[OF assms(2)]
  have as: "\<exists>as. kp = ip\<lparr>ip_addrs := as\<rparr> \<and> length as = length (ip_addrs ip)" using 1(1) 2(1) by auto
  have img: "blk D jp ` S = blk C ip ` S" using 1(3) by (simp cong: image_cong)
  have bytes: "file_byte E kp k = (if off \<le> k \<and> k < off + length (a @ b) then (a @ b) ! (k - off) else file_byte C ip k)"
    if "k div BSIZE \<in> S" for k
    using 1(4)[OF that] 2(4)[OF that] by (auto simp: nth_append)
  have tags: "good E kp bn" if "bn \<in> S" "bn \<in> span off (length (a @ b)) \<or> good C ip bn" for bn
    using that 1(5)[of bn] 2(5)[of bn] by (auto simp: span_append)
  have "E key = C key" if "key \<notin> insert (ind_key ip) (blk C ip ` S)" for key
    using that 1(6)[of key] 2(6)[of key] 1(2) img by auto
  with as bytes tags show ?thesis using 1(2,3) 2(2,3) unfolding wrote_def by simp
qed

text \<open>The layout of the file survives.\<close>

lemma amask_addrs [simp]: "amask (ip\<lparr>ip_addrs := as\<rparr>) = amask ip"
  by (simp add: amask_def)

lemma wrote_mapped:
  assumes "wrote S off src C ip D jp" "bn \<in> S" "mapped C ip bn"
  shows "mapped D jp bn"
proof -
  note w = wroteD[OF assms(1)]
  obtain as where jp: "jp = ip\<lparr>ip_addrs := as\<rparr>" using w(1) by auto
  have "amask ip (addr_word D jp bn) = amask ip (addr_word C ip bn)" using w(3)[OF assms(2)] by (simp add: blk_def jp)
  moreover have "amask ip (as ! NDIRECT) = amask ip (ip_addrs ip ! NDIRECT)" using w(2) by (simp add: ind_key_def jp)
  ultimately show ?thesis using assms(3) by (simp add: mapped_def jp)
qed

lemma wrote_laid_out:
  assumes "wrote S off src (sector s) ip (sector t) jp" "laid_out S ip s" "fs_to (sector t) ic s t"
  shows "laid_out S jp t"
proof -
  note w = wroteD[OF assms(1)]
  have img: "blk (sector t) jp ` S = blk (sector s) ip ` S" using w(3) by (simp cong: image_cong)
  have "inj_on (blk (sector t) jp) S" using assms(2) w(3) by (simp add: laid_out_def cong: inj_on_cong)
  moreover have "reachable jp bn t" if "bn \<in> S" for bn
    using that assms(2) wrote_mapped[OF assms(1) that] w(2,3) fs_to_ready[OF assms(3)] by (simp add: laid_out_def reachable_def)
  ultimately show ?thesis using assms(2) img w(2) by (simp add: laid_out_def)
qed

section \<open>One block\<close>

text \<open>New data in block \<open>bn\<close>: addresses and checksums stay.\<close>

lemma write_data:
  assumes "inj_on (blk C ip) S" "ind_key ip \<notin> blk C ip ` S" "bn \<in> S" "off div BSIZE = bn" "off mod BSIZE + length src \<le> BSIZE"
    "length (C (blk C ip bn)) = BSIZE"
    and D: "D = C(blk C ip bn := poke (off mod BSIZE) src (C (blk C ip bn)))"
  shows "ind_key ip \<notin> blk C ip ` S" "b \<in> S \<Longrightarrow> addr_word D ip b = addr_word C ip b" "b \<in> S \<Longrightarrow> blk D ip b = blk C ip b"
    "k div BSIZE \<in> S \<Longrightarrow> file_byte D ip k = (if off \<le> k \<and> k < off + length src then src ! (k - off) else file_byte C ip k)"
proof -
  show "ind_key ip \<notin> blk C ip ` S" by fact
  have ind: "D (ind_key ip) = C (ind_key ip)" using assms(2,3) by (auto simp: D)
  show aw: "b \<in> S \<Longrightarrow> addr_word D ip b = addr_word C ip b" for b by (simp add: addr_word_def ind)
  then show bl: "b \<in> S \<Longrightarrow> blk D ip b = blk C ip b" for b by (simp add: blk_def)
  assume k: "k div BSIZE \<in> S"
  have pos: "0 < BSIZE" by (simp add: BSIZE_def)
  have inside: "k div BSIZE = bn \<and> off mod BSIZE \<le> k mod BSIZE \<and> k mod BSIZE < off mod BSIZE + length src" "k mod BSIZE - off mod BSIZE = k - off"
    if "off \<le> k" "k < off + length src"
  proof -
    have "length src > 0" using that by linarith
    note st = block_step(4,5)[of "length src" "length src" off]
    have m: "length src = min (length src) (BSIZE - off mod BSIZE)" using assms(5) by simp
    have "k div BSIZE = off div BSIZE" "k mod BSIZE = off mod BSIZE + (k - off)"
      using block_step(4,5)[OF \<open>length src > 0\<close> m] that by blast+
    then show "k div BSIZE = bn \<and> off mod BSIZE \<le> k mod BSIZE \<and> k mod BSIZE < off mod BSIZE + length src" "k mod BSIZE - off mod BSIZE = k - off"
      using assms(4) that by auto
  qed
  have outside: "off \<le> k \<and> k < off + length src" if "k div BSIZE = bn" "off mod BSIZE \<le> k mod BSIZE" "k mod BSIZE < off mod BSIZE + length src"
  proof -
    have "k = bn * BSIZE + k mod BSIZE" "off = bn * BSIZE + off mod BSIZE"
      using that(1) assms(4) div_mult_mod_eq[of k BSIZE] div_mult_mod_eq[of off BSIZE] by simp_all
    with that(2,3) show ?thesis by linarith
  qed
  have "k mod BSIZE < BSIZE" using pos by simp
  show "file_byte D ip k = (if off \<le> k \<and> k < off + length src then src ! (k - off) else file_byte C ip k)"
  proof (cases "k div BSIZE = bn")
    case True
    then have "file_byte D ip k = poke (off mod BSIZE) src (C (blk C ip bn)) ! (k mod BSIZE)"
      using bl[OF assms(3)] by (simp add: file_byte_def D)
    also have "\<dots> = (if off mod BSIZE \<le> k mod BSIZE \<and> k mod BSIZE < off mod BSIZE + length src
        then src ! (k mod BSIZE - off mod BSIZE) else C (blk C ip bn) ! (k mod BSIZE))"
      using assms(5,6) \<open>k mod BSIZE < BSIZE\<close> by (intro nth_poke) auto
    finally show ?thesis using inside outside True by (auto simp: file_byte_def)
  next
    case False
    then have "blk D ip (k div BSIZE) \<noteq> blk C ip bn" using assms(1,3) k bl[OF k] by (auto dest: inj_onD)
    then have "file_byte D ip k = file_byte C ip k" using bl[OF k] by (simp add: file_byte_def D)
    then show ?thesis using inside False by auto
  qed
qed

text \<open>The word of block \<open>bn\<close> gets the new checksum, in the inode or in the indirect block.\<close>

lemma wrote_tagged:
  assumes C: "inj_on (blk C ip) S" "ind_key ip \<notin> blk C ip ` S" "bn \<in> S" "off div BSIZE = bn" "off mod BSIZE + length src \<le> BSIZE"
    "length (C (blk C ip bn)) = BSIZE" and D: "D = C(blk C ip bn := poke (off mod BSIZE) src (C (blk C ip bn)))"
    and E: "jp = ip\<lparr>ip_addrs := as\<rparr>" "length as = length (ip_addrs ip)" "ind_key jp = ind_key ip" "\<And>key. key \<noteq> ind_key ip \<Longrightarrow> E key = D key"
    "\<And>b. b \<in> S \<Longrightarrow> amask ip (addr_word E jp b) = amask ip (addr_word D ip b)"
    and tag: "ip_type ip = T_CHECKED \<Longrightarrow> tag_of (addr_word E jp bn) = checksum (D (blk C ip bn))"
    "\<And>b. b \<in> S \<Longrightarrow> b \<noteq> bn \<Longrightarrow> addr_word E jp b = addr_word D ip b"
  shows "wrote S off src C ip E jp"
proof -
  note d = write_data[OF C D]
  have bl: "blk E jp b = blk C ip b" if "b \<in> S" for b using d(3)[OF that] E(1) E(5)[OF that] by (simp add: blk_def)
  have at: "E (blk C ip b) = D (blk C ip b)" if "b \<in> S" for b by (rule E(4)) (use that C(2) in \<open>metis imageI\<close>)
  have bytes: "file_byte E jp k = file_byte D ip k" if "k div BSIZE \<in> S" for k
    using at[OF that] bl[OF that] d(3)[OF that] by (simp add: file_byte_def)
  have touched: "b = bn" if b: "b \<in> span off (length src)" for b
  proof -
    obtain k where k: "off \<le> k" "k < off + length src" "b = k div BSIZE" using b by (auto simp: span_def)
    then have "0 < length src" "length src = min (length src) (BSIZE - off mod BSIZE)" using C(5) by auto
    from block_step(4)[OF this k(1,2)] k(3) C(4) show ?thesis by simp
  qed
  have "good E jp b" if b: "b \<in> S" "b \<in> span off (length src) \<or> good C ip b" for b
  proof (cases "b = bn")
    case True
    then show ?thesis using tag(1) bl[OF C(3)] at[OF C(3)] E(1) by (simp add: good_def)
  next
    case False
    then have "blk C ip b \<noteq> blk C ip bn" using C(1,3) b(1) by (auto dest: inj_onD)
    then have "E (blk C ip b) = C (blk C ip b)" using at[OF b(1)] D by simp
    moreover have "good C ip b" using b(2) touched False by blast
    ultimately show ?thesis using bl[OF b(1)] tag(2)[OF b(1) False] d(2)[OF b(1)] E(1) by (simp add: good_def)
  qed
  moreover have "E key = C key" if "key \<notin> insert (ind_key ip) (blk C ip ` S)" for key
    using that E(4)[of key] C(3) by (auto simp: D)
  ultimately show ?thesis using bl bytes d(4) E(1-3) unfolding wrote_def by auto
qed

lemma tag_block_direct:
  assumes "reachable (icache s ! i) bn s" "ip = icache s ! i" "bn < NDIRECT"
  obtains t where "tag_block i bn s = Ok ((), t)"
    "fs_to (sector s) ((icache s)[i := ip\<lparr>ip_addrs := (ip_addrs ip)[bn := tagged (ip_addrs ip ! bn) (checksum (sector s (blk (sector s) ip bn)))]\<rparr>]) s t"
proof -
  let ?k = "blk (sector s) ip bn"
  obtain t1 where t1: "bmap i bn s = Ok (snd ?k, t1)" "fs_to (sector s) (icache s) s t1"
    using bmap_mapped[OF assms(1)] unfolding assms(2) .
  have same: "sector t1 = sector s" "icache t1 = icache s" using fs_toD[OF t1(2)] by simp_all
  have "bio.ready ?k t1" using assms(1,2) fs_to_ready[OF t1(2)] by (simp add: reachable_def)
  then have "bio.ready (ip_dev ip, snd ?k) t1" by (simp add: blk_def)
  from bio.take_block[OF this] obtain b t2 where t2: "bread (ip_dev ip) (snd ?k) t1 = Ok (b, t2)"
    "bio.taken b ?k (sector s ?k) (sector s) (kern.more t1) t1 t2"
    unfolding same by (auto simp: blk_def)
  have ic2: "icache t2 = icache s" using t2(2) more_icache[of t2 "icache t1" t1] same(2)[symmetric] by (simp add: bio.taken_def)
  define t3 where "t3 = t2\<lparr>icache := (icache s)[i := ip\<lparr>ip_addrs := (ip_addrs ip)[bn := tagged (ip_addrs ip ! bn) (checksum (sector s ?k))]\<rparr>]\<rparr>"
  have "bio.taken b ?k (sector s ?k) (sector s) (kern.more t3) t1 t3" using t2(2) by (auto simp: bio.taken_def t3_def)
  from bio.release_block[OF this] obtain t4 where t4: "brelse b t3 = Ok ((), t4)" "bio.becomes (sector s) (kern.more t3) t1 t4" by auto
  have "tag_block i bn s = Ok ((), t4)"
    using t1(1) t2(1) bio.taken_data[OF t2(2)] t4(1) assms(2,3) ic2 by (simp add: tag_block_def andthen_Ok t3_def)
  moreover have "kern.more t3 = kern.more (t1\<lparr>icache := icache t3\<rparr>)"
    using t2(2) more_upd[of t2 "icache t1" t1 "icache t3"] by (simp add: bio.taken_def t3_def)
  then have "fs_to (sector s) (icache t3) t1 t4" using t4(2) by (simp add: fs_to_def)
  then have "fs_to (sector s) (icache t3) s t4" using fs_to_trans[OF t1(2)] by blast
  ultimately show thesis by (intro that) (simp_all add: t3_def)
qed

lemma tag_block_indirect:
  assumes "reachable (icache s ! i) bn s" "ip = icache s ! i" "\<not> bn < NDIRECT" "ip_type ip = T_CHECKED"
  obtains t where "tag_block i bn s = Ok ((), t)"
    "fs_to ((sector s)(ind_key ip := put32 (bn - NDIRECT) (tagged (addr_word (sector s) ip bn) (checksum (sector s (blk (sector s) ip bn))))
       (sector s (ind_key ip)))) (icache s) s t"
proof -
  let ?k = "blk (sector s) ip bn"
  let ?g = "\<lambda>e. put32 (bn - NDIRECT) (tagged (get32 (bn - NDIRECT) e) (checksum (sector s ?k))) e"
  obtain b t1 t2 t3 where t: "bmap i bn s = Ok (snd ?k, t1)" "bread (ip_dev ip) (snd ?k) t1 = Ok (b, t2)"
    "bdata b t2 = Ok (sector s ?k, t2)" "brelse b t2 = Ok ((), t3)" and to3: "fs_to (sector s) (icache s) s t3"
    using read_reachable[OF assms(1,2)] .
  have same: "sector t3 = sector s" "icache t3 = icache s" using fs_toD[OF to3] by simp_all
  have key: "ind_key ip = (ip_dev ip, low24 (ip_addrs ip ! NDIRECT))" using assms(4) by (simp add: ind_key_def amask_def)
  have rdy: "bio.ready (ip_dev ip, low24 (ip_addrs ip ! NDIRECT)) t3"
    unfolding key[symmetric] by (rule fs_to_ready[OF to3]) (use assms(1-3) in \<open>simp add: reachable_def\<close>)
  have "bn - NDIRECT < BSIZE div 4" using assms(1,3) by (auto simp: reachable_def mapped_def MAXFILE_def NINDIRECT_def)
  then have bd: "4 * (bn - NDIRECT) + 4 \<le> BSIZE" by linarith
  have len: "length (?g (sector t3 (ip_dev ip, low24 (ip_addrs ip ! NDIRECT)))) = BSIZE"
    using rdy bd by (simp add: bio.ready_def sector_length)
  obtain t4 where t4: "andthen (bread (ip_dev ip) (low24 (ip_addrs ip ! NDIRECT))) (\<lambda>i. andthen (bdata i) (\<lambda>b. andthen (set_bdata i (?g b)) (\<lambda>_.
      andthen (bwrite i) (\<lambda>_. andthen (brelse i) (\<lambda>_. ret ()))))) t3 = ret () t4"
    "bio.becomes ((sector t3)((ip_dev ip, low24 (ip_addrs ip ! NDIRECT)) := ?g (sector t3 (ip_dev ip, low24 (ip_addrs ip ! NDIRECT))))) (kern.more t3) t3 t4"
    using bio.change_block[where f = "\<lambda>_. ret ()" and g = ?g, OF rdy len] .
  have "tag_block i bn s = Ok ((), t4)"
    using t t4(1) assms(2,3) same by (simp add: tag_block_def andthen_Ok)
  moreover have "get32 (bn - NDIRECT) (sector s (ind_key ip)) = addr_word (sector s) ip bn" using assms(3) by (simp add: addr_word_def)
  then have "fs_to ((sector s)(ind_key ip := put32 (bn - NDIRECT) (tagged (addr_word (sector s) ip bn) (checksum (sector s ?k))) (sector s (ind_key ip))))
      (icache s) s t4"
    using fs_to_trans[OF to3 fs_to_bio[OF t4(2)]] unfolding same key[symmetric] by simp
  ultimately show thesis by (intro that)
qed

section \<open>The loop of writei\<close>

lemma laid_outD:
  assumes "laid_out S ip s" "bn \<in> S"
  shows "reachable ip bn s" "inj_on (blk (sector s) ip) S" "ind_key ip \<notin> blk (sector s) ip ` S" "cache_ok s"
    "length (sector s (blk (sector s) ip bn)) = BSIZE" "length (sector s (ind_key ip)) = BSIZE"
proof -
  show r: "reachable ip bn s" "inj_on (blk (sector s) ip) S" "ind_key ip \<notin> blk (sector s) ip ` S"
    using assms by (simp_all add: laid_out_def)
  then show "cache_ok s" by (simp add: reachable_def bio.ready_def)
  then show "length (sector s (blk (sector s) ip bn)) = BSIZE" "length (sector s (ind_key ip)) = BSIZE" by (simp_all add: sector_length)
qed

text \<open>The checksum step, with its effect on the addresses, in both cases.\<close>

lemma tag_block_result:
  assumes "laid_out S ip s" "bn \<in> S" "ip = icache s ! i" "i < length (icache s)" "length (ip_addrs ip) = 13" "ip_type ip = T_CHECKED"
  obtains as t where "tag_block i bn s = Ok ((), t)" "fs_to (sector t) ((icache s)[i := ip\<lparr>ip_addrs := as\<rparr>]) s t" "length as = 13"
    "ind_key (ip\<lparr>ip_addrs := as\<rparr>) = ind_key ip" "\<And>key. key \<noteq> ind_key ip \<Longrightarrow> sector t key = sector s key"
    "\<And>b. b \<in> S \<Longrightarrow> addr_word (sector t) (ip\<lparr>ip_addrs := as\<rparr>) b =
      (if b = bn then tagged (addr_word (sector s) ip b) (checksum (sector s (blk (sector s) ip bn))) else addr_word (sector s) ip b)"
proof (cases "bn < NDIRECT")
  case True
  define as where "as = (ip_addrs ip)[bn := tagged (ip_addrs ip ! bn) (checksum (sector s (blk (sector s) ip bn)))]"
  obtain t where t: "tag_block i bn s = Ok ((), t)" "fs_to (sector s) ((icache s)[i := ip\<lparr>ip_addrs := as\<rparr>]) s t"
    using tag_block_direct[OF _ assms(3) True] laid_outD(1)[OF assms(1,2)] unfolding as_def assms(3)[symmetric] by blast
  have sec: "sector t = sector s" using fs_toD[OF t(2)] by simp
  have ind: "ind_key (ip\<lparr>ip_addrs := as\<rparr>) = ind_key ip" using True by (simp add: ind_key_def as_def)
  have "addr_word (sector t) (ip\<lparr>ip_addrs := as\<rparr>) b =
      (if b = bn then tagged (addr_word (sector s) ip b) (checksum (sector s (blk (sector s) ip bn))) else addr_word (sector s) ip b)" for b
    using True assms(5) unfolding addr_word_def ind sec by (simp add: as_def NDIRECT_def)
  with t ind sec assms(5) show thesis by (intro that[of t as]) (simp_all add: as_def)
next
  case False
  let ?c = "checksum (sector s (blk (sector s) ip bn))"
  let ?C = "(sector s)(ind_key ip := put32 (bn - NDIRECT) (tagged (addr_word (sector s) ip bn) ?c) (sector s (ind_key ip)))"
  obtain t where t: "tag_block i bn s = Ok ((), t)" "fs_to ?C (icache s) s t"
    using tag_block_indirect[OF _ assms(3) False assms(6)] laid_outD(1)[OF assms(1,2)] unfolding assms(3)[symmetric] by blast
  have sec: "sector t = ?C" using fs_toD[OF t(2)] by simp
  have self: "ip\<lparr>ip_addrs := ip_addrs ip\<rparr> = ip" "(icache s)[i := ip] = icache s" using assms(3) by simp_all
  have lt: "\<And>b. b \<in> S \<Longrightarrow> b < MAXFILE" using assms(1) by (auto simp: laid_out_def reachable_def mapped_def)
  have "addr_word (sector t) ip b =
      (if b = bn then tagged (addr_word (sector s) ip b) ?c else addr_word (sector s) ip b)" if "b \<in> S" for b
  proof (cases "b < NDIRECT")
    case True
    with False show ?thesis by (auto simp: addr_word_def)
  next
    case nb: False
    have len: "length (sector s (ind_key ip)) = BSIZE" using laid_outD(6)[OF assms(1,2)] .
    have bd: "4 * (b - NDIRECT) + 4 \<le> BSIZE" "4 * (bn - NDIRECT) + 4 \<le> BSIZE"
      using lt[OF that] lt[OF assms(2)] nb False by (auto simp: MAXFILE_def NINDIRECT_def)
    then have "get32 (b - NDIRECT) (sector t (ind_key ip)) =
        (if b - NDIRECT = bn - NDIRECT then tagged (addr_word (sector s) ip bn) ?c else get32 (b - NDIRECT) (sector s (ind_key ip)))"
      unfolding sec using len by (simp add: get32_put32)
    with nb False show ?thesis by (auto simp: addr_word_def)
  qed
  with t sec self assms(5) show thesis by (intro that[of t "ip_addrs ip"]) simp_all
qed

lemma block_write_step:
  assumes "laid_out S ip s" "bn \<in> S" "ip = icache s ! i" "i < length (icache s)" "length (ip_addrs ip) = 13"
    and "off div BSIZE = bn" "off mod BSIZE + length a \<le> BSIZE"
  obtains t as where
    "andthen (bmap i bn) (\<lambda>a'. andthen (bread (ip_dev ip) a') (\<lambda>bp. andthen (bdata bp) (\<lambda>d.
       andthen (set_bdata bp (poke (off mod BSIZE) a d)) (\<lambda>_. andthen (bwrite bp) (\<lambda>_. andthen (brelse bp) (\<lambda>_.
       andthen (if ip_type ip = T_CHECKED then tag_block i bn else ret ()) f)))))) s = f () t"
    "fs_to (sector t) ((icache s)[i := ip\<lparr>ip_addrs := as\<rparr>]) s t" "wrote S off a (sector s) ip (sector t) (ip\<lparr>ip_addrs := as\<rparr>)" "length as = 13"
proof -
  let ?k = "blk (sector s) ip bn"
  note lo = laid_outD[OF assms(1,2)]
  define g where "g = poke (off mod BSIZE) a"
  define h where "h = andthen (if ip_type ip = T_CHECKED then tag_block i bn else ret ()) f"
  define D where "D = (sector s)(?k := g (sector s ?k))"
  have r: "reachable (icache s ! i) bn s" using lo(1) assms(3) by simp
  obtain t1 where t1: "bmap i bn s = Ok (snd ?k, t1)" "fs_to (sector s) (icache s) s t1"
    using bmap_mapped[OF r] unfolding assms(3) .
  have s1: "sector t1 = sector s" "icache t1 = icache s" using fs_toD[OF t1(2)] by simp_all
  have k: "(ip_dev ip, snd ?k) = ?k" by (simp add: blk_def)
  have rdy: "bio.ready (ip_dev ip, snd ?k) t1" unfolding k using lo(1) fs_to_ready[OF t1(2)] by (simp add: reachable_def)
  have len: "length (g (sector t1 (ip_dev ip, snd ?k))) = BSIZE" unfolding k s1 using lo(5) assms(7) by (simp add: g_def)
  obtain t2 where t2: "andthen (bread (ip_dev ip) (snd ?k)) (\<lambda>i. andthen (bdata i) (\<lambda>b. andthen (set_bdata i (g b)) (\<lambda>_. andthen (bwrite i) (\<lambda>_.
      andthen (brelse i) (\<lambda>_. h))))) t1 = h t2" "bio.becomes D (kern.more t1) t1 t2"
    using bio.change_block[where f = "\<lambda>_. h" and g = g, OF rdy len] unfolding k s1 D_def .
  have to2: "fs_to D (icache s) s t2" using fs_to_trans[OF t1(2) fs_to_bio[OF t2(2)]] s1 by simp
  have s2: "sector t2 = D" "icache t2 = icache s" using fs_toD[OF to2] by simp_all
  note data = write_data[OF lo(2,3) assms(2,6,7) lo(5) D_def[unfolded g_def]]
  have upto: "andthen (bmap i bn) (\<lambda>a'. andthen (bread (ip_dev ip) a') (\<lambda>bp. andthen (bdata bp) (\<lambda>d.
       andthen (set_bdata bp (g d)) (\<lambda>_. andthen (bwrite bp) (\<lambda>_. andthen (brelse bp) (\<lambda>_. h)))))) s = h t2"
    using t1(1) t2(1) by (simp only: andthen_Ok)
  have plain: "wrote S off a (sector s) ip (sector t) (ip\<lparr>ip_addrs := as\<rparr>)"
    if "length as = 13" "ind_key (ip\<lparr>ip_addrs := as\<rparr>) = ind_key ip" "\<And>key. key \<noteq> ind_key ip \<Longrightarrow> sector t key = D key"
      "\<And>b. b \<in> S \<Longrightarrow> amask ip (addr_word (sector t) (ip\<lparr>ip_addrs := as\<rparr>) b) = amask ip (addr_word D ip b)"
      "ip_type ip = T_CHECKED \<Longrightarrow> tag_of (addr_word (sector t) (ip\<lparr>ip_addrs := as\<rparr>) bn) = checksum (D ?k)"
      "\<And>b. b \<in> S \<Longrightarrow> b \<noteq> bn \<Longrightarrow> addr_word (sector t) (ip\<lparr>ip_addrs := as\<rparr>) b = addr_word D ip b" for t as
    using wrote_tagged[OF lo(2,3) assms(2,6,7) lo(5) D_def[unfolded g_def] refl] that assms(5) by metis
  have laid: "laid_out S ip t2"
  proof -
    have "inj_on (blk D ip) S" "blk D ip ` S = blk (sector s) ip ` S"
      using data(3) lo(2) by (simp_all cong: inj_on_cong image_cong)
    moreover have "reachable ip b t2" if "b \<in> S" for b
      using that laid_outD(1)[OF assms(1) that] data(2,3) fs_to_ready[OF to2] s2 by (auto simp: reachable_def mapped_def)
    ultimately show ?thesis using lo(3) s2 by (simp add: laid_out_def)
  qed
  show thesis
  proof (cases "ip_type ip = T_CHECKED")
    case True
    obtain as t where t: "tag_block i bn t2 = Ok ((), t)" "fs_to (sector t) ((icache s)[i := ip\<lparr>ip_addrs := as\<rparr>]) t2 t" "length as = 13"
      "ind_key (ip\<lparr>ip_addrs := as\<rparr>) = ind_key ip" "\<And>key. key \<noteq> ind_key ip \<Longrightarrow> sector t key = D key"
      "\<And>b. b \<in> S \<Longrightarrow> addr_word (sector t) (ip\<lparr>ip_addrs := as\<rparr>) b =
        (if b = bn then tagged (addr_word D ip b) (checksum (D (blk D ip bn))) else addr_word D ip b)"
      using tag_block_result[OF laid assms(2) _ _ assms(5) True, of i] assms(3,4) unfolding s2 by metis
    have "wrote S off a (sector s) ip (sector t) (ip\<lparr>ip_addrs := as\<rparr>)"
      by (rule plain) (use t True data(3)[OF assms(2)] assms(2) in \<open>simp_all add: amask_def\<close>)
    moreover have "h t2 = f () t" using True t(1) by (simp add: h_def andthen_Ok)
    ultimately show thesis using upto fs_to_trans[OF to2 t(2)] t(3) unfolding h_def g_def by (intro that[of t as]) simp_all
  next
    case False
    have "wrote S off a (sector s) ip (sector t2) (ip\<lparr>ip_addrs := ip_addrs ip\<rparr>)"
      by (rule plain) (use False assms(5) s2 in simp_all)
    moreover have "h t2 = f () t2" using False by (simp add: h_def)
    moreover have "(icache s)[i := ip\<lparr>ip_addrs := ip_addrs ip\<rparr>] = icache s" using assms(3) by simp
    ultimately show thesis using upto to2 s2 assms(5) unfolding h_def g_def by (intro that[of t2 "ip_addrs ip"]) simp_all
  qed
qed

lemma writei_loop_result:
  assumes "laid_out S ip s" "span off (length src) \<subseteq> S" "ip = icache s ! i" "i < length (icache s)" "length (ip_addrs ip) = 13" "cache_ok s"
  shows "\<exists>t as. writei_loop i off src s = Ok (off + length src, t) \<and> fs_to (sector t) ((icache s)[i := ip\<lparr>ip_addrs := as\<rparr>]) s t \<and>
    wrote S off src (sector s) ip (sector t) (ip\<lparr>ip_addrs := as\<rparr>) \<and> length as = 13"
  using assms
proof (induction "length src" arbitrary: off src s ip rule: less_induct)
  case less
  show ?case
  proof (cases "src = []")
    case True
    moreover have "fs_to (sector s) ((icache s)[i := ip]) s s" using fs_to_refl less.prems(3,6) by simp
    ultimately show ?thesis using wrote_refl[of S off "sector s" ip] less.prems(5)
      by (intro exI[of _ s] exI[of _ "ip_addrs ip"]) (simp add: writei_loop.simps)
  next
    case False
    define m where "m = min (length src) (BSIZE - off mod BSIZE)"
    define bn where "bn = off div BSIZE"
    have pos: "0 < length src" using False by simp
    have st: "0 < m" "m \<le> length src" "off mod BSIZE + m \<le> BSIZE" "span off (length src) = insert bn (span (off + m) (length src - m))"
      unfolding bn_def by (fact block_step(1,2,3,6)[OF pos m_def])+
    have bn: "bn \<in> S" "span (off + m) (length (drop m src)) \<subseteq> S" using less.prems(2) st(4) by auto
    have len: "length (take m src) = m" using st(2) by simp
    obtain t1 as1 where t1: "andthen (bmap i bn) (\<lambda>a'. andthen (bread (ip_dev ip) a') (\<lambda>bp. andthen (bdata bp) (\<lambda>d.
       andthen (set_bdata bp (poke (off mod BSIZE) (take m src) d)) (\<lambda>_. andthen (bwrite bp) (\<lambda>_. andthen (brelse bp) (\<lambda>_.
       andthen (if ip_type ip = T_CHECKED then tag_block i bn else ret ()) (\<lambda>_. writei_loop i (off + m) (drop m src)))))))) s
         = writei_loop i (off + m) (drop m src) t1"
      "fs_to (sector t1) ((icache s)[i := ip\<lparr>ip_addrs := as1\<rparr>]) s t1"
      "wrote S off (take m src) (sector s) ip (sector t1) (ip\<lparr>ip_addrs := as1\<rparr>)" "length as1 = 13"
      using block_write_step[OF less.prems(1) bn(1) less.prems(3-5) bn_def[symmetric], of "take m src" "\<lambda>_. writei_loop i (off + m) (drop m src)"]
        st(3) unfolding len by blast
    have step: "writei_loop i off src s = writei_loop i (off + m) (drop m src) t1"
      using False t1(1) by (subst writei_loop.simps)
        (simp only: if_False inode_step Let_def m_def[symmetric] bn_def[symmetric] less.prems(3)[symmetric])
    define jp where "jp = ip\<lparr>ip_addrs := as1\<rparr>"
    have s1: "icache t1 = (icache s)[i := jp]" "cache_ok t1" using fs_toD[OF t1(2)] by (simp_all add: jp_def)
    have "laid_out S jp t1" using wrote_laid_out[OF t1(3) less.prems(1) t1(2)] by (simp add: jp_def)
    moreover have "length (drop m src) < length src" using st(1,2) by simp
    moreover have "jp = icache t1 ! i" "i < length (icache t1)" "length (ip_addrs jp) = 13" using s1(1) less.prems(4) t1(4) by (simp_all add: jp_def)
    ultimately obtain t as where t: "writei_loop i (off + m) (drop m src) t1 = Ok (off + m + length (drop m src), t)"
      "fs_to (sector t) ((icache t1)[i := jp\<lparr>ip_addrs := as\<rparr>]) t1 t"
      "wrote S (off + m) (drop m src) (sector t1) jp (sector t) (jp\<lparr>ip_addrs := as\<rparr>)" "length as = 13"
      using less.hyps[of "drop m src" jp t1 "off + m"] bn(2) s1(2) by blast
    have "fs_to (sector t) ((icache s)[i := ip\<lparr>ip_addrs := as\<rparr>]) s t"
      using fs_to_trans[OF t1(2) t(2)] s1(1) by (simp add: jp_def)
    moreover have "wrote S off src (sector s) ip (sector t) (ip\<lparr>ip_addrs := as\<rparr>)"
      using wrote_trans[OF t1(3)[folded jp_def], of "drop m src" "sector t" "jp\<lparr>ip_addrs := as\<rparr>"] t(3) len by (simp add: jp_def)
    ultimately show ?thesis using step t(1,4) st(2) by (intro exI[of _ t] exI[of _ as]) simp
  qed
qed

section \<open>The end of writei\<close>

lemma size_irrelevant [simp]:
  "ind_key (ip\<lparr>ip_size := z\<rparr>) = ind_key ip" "blk C (ip\<lparr>ip_size := z\<rparr>) = blk C ip" "file_byte C (ip\<lparr>ip_size := z\<rparr>) = file_byte C ip"
  "good C (ip\<lparr>ip_size := z\<rparr>) = good C ip" "mapped C (ip\<lparr>ip_size := z\<rparr>) = mapped C ip" "dinode_key (ip\<lparr>ip_size := z\<rparr>) = dinode_key ip"
proof -
  have a: "amask (ip\<lparr>ip_size := z\<rparr>) = amask ip" by (simp add: amask_def)
  then show i: "ind_key (ip\<lparr>ip_size := z\<rparr>) = ind_key ip" by (simp add: ind_key_def)
  then have w: "addr_word C (ip\<lparr>ip_size := z\<rparr>) = addr_word C ip" by (simp add: addr_word_def fun_eq_iff)
  then show b: "blk C (ip\<lparr>ip_size := z\<rparr>) = blk C ip" by (simp add: blk_def a fun_eq_iff)
  show "file_byte C (ip\<lparr>ip_size := z\<rparr>) = file_byte C ip" by (simp add: file_byte_def b fun_eq_iff)
  show "good C (ip\<lparr>ip_size := z\<rparr>) = good C ip" by (simp add: good_def b w fun_eq_iff)
  show "mapped C (ip\<lparr>ip_size := z\<rparr>) = mapped C ip" by (simp add: mapped_def a w fun_eq_iff)
qed (simp add: dinode_key_def)

text \<open>A block that is not one of the file's does not matter to the file.\<close>

lemma other_block:
  assumes "key \<notin> insert (ind_key ip) (blk C ip ` S)" "D = C(key := x)" "bn \<in> S"
  shows "addr_word D ip bn = addr_word C ip bn" "blk D ip bn = blk C ip bn" "good D ip bn = good C ip bn" "mapped D ip bn = mapped C ip bn"
    "k div BSIZE = bn \<Longrightarrow> file_byte D ip k = file_byte C ip k"
proof -
  show w: "addr_word D ip bn = addr_word C ip bn" using assms(1,2) by (auto simp: addr_word_def)
  then show b: "blk D ip bn = blk C ip bn" by (simp add: blk_def)
  have "D (blk C ip bn) = C (blk C ip bn)" using assms by auto
  with w b show "good D ip bn = good C ip bn" "k div BSIZE = bn \<Longrightarrow> file_byte D ip k = file_byte C ip k"
    by (simp_all add: good_def file_byte_def)
  from w show "mapped D ip bn = mapped C ip bn" by (simp add: mapped_def)
qed

lemma writei_result:
  assumes "laid_out S ip s" "span (unat off) k \<subseteq> S" "ip = icache s ! i" "i < length (icache s)" "length (ip_addrs ip) = 13"
    and "bio.ready (dinode_key ip) s" "dinode_key ip \<notin> insert (ind_key ip) (blk (sector s) ip ` S)"
    and "ip_type ip \<noteq> T_DEV" "off \<le> ip_size ip" "off \<le> off + n" "k = min (unat n) (MAXFILE * BSIZE - unat off)" "unat off \<le> MAXFILE * BSIZE"
    "k \<le> length src"
  obtains t as u where "writei i src off n s = Ok (int k, t)"
    "icache t = (icache s)[i := ip\<lparr>ip_addrs := as, ip_size := max (ip_size ip) (off + of_nat k)\<rparr>]" "length as = 13" "fs_to (sector t) (icache t) s t"
    "wrote S (unat off) (take k src) (sector s) ip u (ip\<lparr>ip_addrs := as\<rparr>)"
    "sector t = u(dinode_key ip := put_dinode (ip_inum ip) (to_dinode (icache t ! i)) (u (dinode_key ip)))"
proof -
  define n' where "n' = (if off + n > of_nat (MAXFILE * BSIZE) then of_nat (MAXFILE * BSIZE) - off else n)"
  define M where "M = MAXFILE * BSIZE"
  have M: "M < 2 ^ 32" by (simp add: M_def MAXFILE_def NINDIRECT_def NDIRECT_def BSIZE_def)
  then have uM: "unat (of_nat M :: 32 word) = M" by (simp add: unat_of_nat)
  have sum: "unat (off + n) = unat off + unat n" using assms(10) by (simp add: unat_plus_simple)
  have offM: "off \<le> of_nat M" using assms(12) uM by (simp add: word_le_nat_alt M_def)
  have n': "unat n' = k"
    using sum assms(11,12) uM offM unfolding n'_def M_def[symmetric] by (auto simp: word_less_nat_alt unat_sub)
  then have nk: "n' = of_nat k" "uint n' = int k" by (auto simp: uint_nat)
  have len: "length (take k src) = k" using assms(13) by simp
  have ok: "cache_ok s" using assms(6) by (simp add: bio.ready_def)
  obtain t1 as where t1: "writei_loop i (unat off) (take k src) s = Ok (unat off + k, t1)"
    "fs_to (sector t1) ((icache s)[i := ip\<lparr>ip_addrs := as\<rparr>]) s t1"
    "wrote S (unat off) (take k src) (sector s) ip (sector t1) (ip\<lparr>ip_addrs := as\<rparr>)" "length as = 13"
    using writei_loop_result[OF assms(1) _ assms(3-5) ok, of "unat off" "take k src"] assms(2) unfolding len by auto
  define z where "z = off + of_nat k"
  have z: "of_nat (unat off + k) = z" by (simp add: z_def)
  define kp where "kp = ip\<lparr>ip_addrs := as, ip_size := max (ip_size ip) z\<rparr>"
  define t2 where "t2 = t1\<lparr>icache := (icache s)[i := kp]\<rparr>"
  have ic1: "icache t1 = (icache s)[i := ip\<lparr>ip_addrs := as\<rparr>]" using fs_toD[OF t1(2)] by simp
  have keep: "max (ip_size ip) z = ip_size ip" if "\<not> (n' > 0 \<and> z > ip_size ip)"
  proof -
    have "z = off \<or> z \<le> ip_size ip" using that nk(1) by (cases "n' = 0") (auto simp: z_def word_neq_0_conv[symmetric] not_less)
    then have "z \<le> ip_size ip" using assms(9) by auto
    then show ?thesis by (simp add: max_def)
  qed
  have upd: "andthen (if n' > 0 \<and> z > ip_size ip then upd_inode i (\<lambda>ip. ip\<lparr>ip_size := z\<rparr>) else ret ()) f t1 = f () t2" for f :: "unit \<Rightarrow> ('a fsk_scheme, int) comp"
  proof (cases "n' > 0 \<and> z > ip_size ip")
    case True
    then have "max (ip_size ip) z = z" by (auto intro: max_absorb2)
    with True show ?thesis using ic1 assms(4) by (simp add: t2_def kp_def)
  next
    case False
    then have "kp = ip\<lparr>ip_addrs := as\<rparr>" using keep by (simp add: kp_def)
    then have "t2 = t1" using ic1 by (simp add: t2_def)
    with False show ?thesis by auto
  qed
  have to2: "fs_to (sector t1) ((icache s)[i := kp]) s t2" using fs_to_trans[OF t1(2) fs_to_upd] fs_toD(1)[OF t1(2)] by (simp add: t2_def)
  have at2: "icache t2 ! i = kp" "icache t2 = (icache s)[i := kp]" "sector t2 = sector t1" using assms(4) by (simp_all add: t2_def)
  have key: "dinode_key kp = dinode_key ip" "ip_inum kp = ip_inum ip" by (simp_all add: kp_def dinode_key_def)
  have len13: "length (ip_addrs kp) = 13" using t1(4) by (simp add: kp_def)
  obtain t where t: "iupdate i t2 = Ok ((), t)"
    "fs_to ((sector t1)(dinode_key ip := put_dinode (ip_inum ip) (to_dinode kp) (sector t1 (dinode_key ip)))) (icache t2) t2 t"
    using iupdate_result[of t2 i, unfolded at2(1,3) key] fs_to_ready[OF to2 assms(6)] t1(4) len13 by blast
  have fin: "icache t = (icache s)[i := kp]" "icache t ! i = kp"
    "sector t = (sector t1)(dinode_key ip := put_dinode (ip_inum ip) (to_dinode kp) (sector t1 (dinode_key ip)))"
    using fs_toD[OF t(2)] assms(4) at2(2) by simp_all
  have notbad: "\<not> (off > ip_size ip \<or> off + n < off)" using assms(9,10) by auto
  have "writei i src off n s = Ok (int k, t)"
    unfolding writei_def inode_step assms(3)[symmetric] if_not_P[OF assms(8)] if_not_P[OF notbad] Let_def n'_def[symmetric] n' nk(2)
    using t1(1) t(1) by (simp only: andthen_Ok z upd comp_simps)
  moreover have "fs_to (sector t) (icache t) s t" using fs_to_trans[OF to2 t(2)] unfolding at2(2) fin .
  ultimately show thesis using that[of t as "sector t1"] fin t1(3,4) unfolding kp_def z_def by simp
qed

section \<open>Property\<close>

text \<open>
  C18. \<open>writei\<close> on blocks that the file has, for files with and without checksums: it writes as many of the bytes as fit below
  the largest file, extends the size where they end behind it, and stores the inode on disk. \<open>readi\<close> then returns exactly these
  bytes and finds no corruption; the other bytes of the file, the checksums that were right, and all blocks of the disk that are neither
  the file's nor the one of its inode are as before, and no buffer stays held.
\<close>

theorem writei_then_readi:
  assumes "laid_out S ip s" "span (unat off) k \<subseteq> S" "ip = icache s ! i" "i < length (icache s)" "length (ip_addrs ip) = 13"
    and "readable (dinode_key ip) s" "dinode_key ip \<notin> insert (ind_key ip) (blk (sector s) ip ` S)"
    and "ip_type ip \<noteq> T_DEV" "off \<le> ip_size ip" "off \<le> off + n" "k = min (unat n) (MAXFILE * BSIZE - unat off)" "unat off \<le> MAXFILE * BSIZE"
    "k \<le> length src"
  shows "\<exists>t u jp. writei i src off n s = Ok (int k, t) \<and> readi i off (of_nat k) t = Ok ((int k, take k src), u) \<and>
    icache t = (icache s)[i := jp] \<and> ip_size jp = max (ip_size ip) (off + of_nat k) \<and>
    disk_inode (sector t) (ip_dev ip) (ip_inum ip) = to_dinode jp \<and>
    (\<forall>j. j div BSIZE \<in> S \<and> \<not> (unat off \<le> j \<and> j < unat off + k) \<longrightarrow> file_byte (sector t) jp j = file_byte (sector s) ip j) \<and>
    (\<forall>bn \<in> S. good (sector s) ip bn \<longrightarrow> good (sector t) jp bn) \<and>
    (\<forall>key. key \<notin> insert (dinode_key ip) (insert (ind_key ip) (blk (sector s) ip ` S)) \<longrightarrow> sector t key = sector s key) \<and>
    holder t = holder s \<and> holder u = holder s"
proof -
  have rdy: "bio.ready (dinode_key ip) s" using assms(6) by (simp add: readable_ready)
  obtain t as C where t: "writei i src off n s = Ok (int k, t)"
    "icache t = (icache s)[i := ip\<lparr>ip_addrs := as, ip_size := max (ip_size ip) (off + of_nat k)\<rparr>]" "length as = 13"
    "fs_to (sector t) (icache t) s t" and w: "wrote S (unat off) (take k src) (sector s) ip C (ip\<lparr>ip_addrs := as\<rparr>)"
    and sec: "sector t = C(dinode_key ip := put_dinode (ip_inum ip) (to_dinode (icache t ! i)) (C (dinode_key ip)))"
    using writei_result[OF assms(1-5) rdy assms(7-13)] .
  define jp where "jp = ip\<lparr>ip_addrs := as, ip_size := max (ip_size ip) (off + of_nat k)\<rparr>"
  have at: "icache t ! i = jp" using t(2) assms(4) by (simp add: jp_def)
  note W = wroteD[OF w]
  have key: "dinode_key ip \<notin> insert (ind_key (ip\<lparr>ip_addrs := as\<rparr>)) (blk C (ip\<lparr>ip_addrs := as\<rparr>) ` S)"
    using assms(7) W(2) W(3) by (simp cong: image_cong)
  note O = other_block[OF key sec]
  have same: "blk (sector t) jp bn = blk (sector s) ip bn" "good (sector t) jp bn = good C (ip\<lparr>ip_addrs := as\<rparr>) bn"
    "mapped (sector t) jp bn" if "bn \<in> S" for bn
    using O(2-4)[OF that] W(3)[OF that] wrote_mapped[OF w that] laid_outD(1)[OF assms(1) that] by (simp_all add: jp_def reachable_def)
  have bytes: "file_byte (sector t) jp j = (if unat off \<le> j \<and> j < unat off + k then src ! (j - unat off) else file_byte (sector s) ip j)"
    if "j div BSIZE \<in> S" for j
    using O(5)[OF that, of j] W(4)[OF that] assms(13) by (auto simp: jp_def)
  have ind: "ind_key jp = ind_key ip" using W(2) by (simp add: jp_def)
  have reach: "reachable jp bn t" if "bn \<in> S" for bn
    using same[OF that] laid_outD(1)[OF assms(1) that] fs_to_ready[OF t(4)] ind by (auto simp: reachable_def)
  have fine: "good (sector t) jp bn" if "bn \<in> span (unat off) k \<or> good (sector s) ip bn" "bn \<in> S" for bn
    using same(2)[OF that(2)] W(5)[OF that(2)] that(1) assms(13) by simp
  have ok: "cache_ok t" "holder t = holder s" using fs_toD[OF t(4)] by simp_all
  have M: "MAXFILE * BSIZE < 2 ^ 32" by (simp add: MAXFILE_def NINDIRECT_def NDIRECT_def BSIZE_def)
  have k: "unat (of_nat k :: 32 word) = k" using assms(11,12) M by (simp add: unat_of_nat)
  have sum: "unat (off + of_nat k) = unat off + k" "off \<le> off + of_nat k"
    using k assms(11,12) M by (simp_all add: unat_word_ariths word_le_nat_alt)
  have sz: "ip_size jp = max (ip_size ip) (off + of_nat k)" "off \<le> ip_size jp" "ip_type jp \<noteq> T_DEV"
    using assms(8,9) sum(2) by (simp_all add: jp_def max_def)
  have "unat (off + of_nat k) \<le> unat (ip_size jp)" unfolding sz(1) by (simp add: word_le_nat_alt[symmetric])
  then have kk: "k = min (unat (of_nat k :: 32 word)) (unat (ip_size jp) - unat off)" using k sum by simp
  have slice: "file_slice (sector t) jp (unat off) k = take k src"
  proof (rule nth_equalityI)
    fix j assume "j < length (file_slice (sector t) jp (unat off) k)"
    then have j: "j < k" by (simp add: file_slice_def)
    then have "(unat off + j) div BSIZE \<in> span (unat off) k" unfolding span_def by (intro CollectI exI[of _ "unat off + j"]) simp
    then have "(unat off + j) div BSIZE \<in> S" using assms(2) by blast
    from bytes[OF this] j show "file_slice (sector t) jp (unat off) k ! j = take k src ! j" by (simp add: file_slice_def)
  qed (use assms(13) in \<open>simp add: file_slice_def\<close>)
  have all: "\<forall>bn \<in> span (unat off) k. good (sector t) jp bn" "\<forall>bn \<in> span (unat off) k. reachable jp bn t" using fine reach assms(2) by blast+
  obtain u where u: "readi i off (of_nat k) t = Ok ((int k, take k src), u)" "holder u = holder s"
    using at[symmetric] sz(3,2) sum(2) kk all(2) ok(1)
  proof (cases rule: readi_result)
    case (clean u)
    with slice fs_toD(4)[OF clean(3)] ok(2) show ?thesis by (intro that[of u]) simp_all
  next
    case (corrupt bs u)
    with all show ?thesis by blast
  qed
  have "length (C (dinode_key ip)) = BSIZE"
    using W(6)[OF assms(7)] assms(6) by (simp add: readable_def sector_length)
  then have "disk_inode (sector t) (ip_dev ip) (ip_inum ip) = to_dinode jp"
    using t(3) unfolding sec at by (simp add: disk_inode_def dinode_key_def[symmetric] dinode_at_put to_dinode_def jp_def)
  moreover have "sector t key = sector s key" if "key \<notin> insert (dinode_key ip) (insert (ind_key ip) (blk (sector s) ip ` S))" for key
    using that W(6)[of key] by (simp add: sec)
  ultimately show ?thesis using t(1,2) u sz(1) bytes fine ok(2) unfolding jp_def[symmetric]
    by (intro exI[of _ t] exI[of _ u] exI[of _ jp]) auto
qed

theorem writei_then_readi_witness:
  "\<exists>t u. writei 0 (replicate 200 7) 100 200 (demo_with T_CHECKED 0x05000028) = Ok (200, t) \<and> readi 0 100 200 t = Ok ((200, replicate 200 7), u)"
proof -
  let ?s = "demo_with T_CHECKED 0x05000028" and ?ip = "demo_file T_CHECKED 0x05000028"
  have "amask ?ip 0x05000028 = 40" by (simp add: amask_def demo_file_def tag_demo)
  from demo_reachable[OF this] have "reachable ?ip 0 ?s" by (rule bspec) (auto simp: span_def intro!: exI[of _ 0])
  moreover have keys: "blk (sector ?s) ?ip 0 = (1, 40)" "ind_key ?ip = (1, 0)" "dinode_key ?ip = (1, 2)"
    by (simp_all add: blk_def addr_word_def NDIRECT_def amask_def demo_file_def tag_demo ind_key_def low24_def dinode_key_def IBLOCK_def IPB_def BSIZE_def)
  ultimately have laid: "laid_out {0} ?ip ?s" by (simp add: laid_out_def)
  have rdy: "readable (dinode_key ?ip) ?s" unfolding readable_ready keys by (rule demo_with_ready) (simp add: key_valid_def key_ok_def)
  have sp: "span (unat (100 :: 32 word)) 200 \<subseteq> {0}" by (auto simp: span_def BSIZE_def)
  have "\<exists>t u jp. writei 0 (replicate 200 7) 100 200 ?s = Ok (int 200, t) \<and> readi 0 100 (of_nat 200) t = Ok ((int 200, take 200 (replicate 200 7)), u) \<and> True"
    using writei_then_readi[OF laid sp demo_with_simps(1)[symmetric] _ _ rdy, of 200 "replicate 200 7"] keys
    by (simp add: demo_file_def T_CHECKED_def T_DEV_def MAXFILE_def NINDIRECT_def NDIRECT_def BSIZE_def) blast
  then show ?thesis by auto
qed

end
