(* ===== verification/Xv6_Spinlock.thy ===== *)
theory Xv6_Spinlock
  imports Prelude
begin

text \<open>
  Spin locks, \<open>xv6/kernel/spinlock.c\<close>, on several processors. Every access of the code to a lock, which other processors see, is one
  step; what a processor keeps for itself (\<open>ncli\<close>, \<open>intena\<close>, the interrupt flag) changes together with the step before or after it.
  A run interleaves the steps of all processors; the callers may take and release any lock at any time, and mask interrupts
  in matched pairs. The field \<open>own\<close> records which calls of \<open>acquire\<close> have returned and have not been undone; no step reads it.
\<close>

record spinlock =
  lk_locked :: "32 word"
  lk_name :: string
  lk_cpu :: "nat option"
  lk_pcs :: "32 word list"

record cpu_state =
  ncli :: int
  intena :: bool
  iflag :: bool   \<comment> \<open>\<open>FL_IF\<close> of the register \<open>eflags\<close>\<close>

definition initlock :: "string \<Rightarrow> spinlock \<Rightarrow> spinlock" where
  "initlock name lk = lk\<lparr>lk_name := name, lk_locked := 0, lk_cpu := None\<rparr>"

definition holding :: "nat \<Rightarrow> spinlock \<Rightarrow> bool" where
  "holding c lk \<longleftrightarrow> lk_locked lk \<noteq> 0 \<and> lk_cpu lk = Some c"

definition pushcli :: "cpu_state \<Rightarrow> cpu_state" where
  "pushcli p =
     (let q = p\<lparr>iflag := False\<rparr>; r = q\<lparr>ncli := ncli q + 1\<rparr>
      in if ncli q = 0 then r\<lparr>intena := iflag p\<rparr> else r)"

text \<open>\<open>Inl\<close>: the message of \<open>panic\<close>.\<close>

definition popcli :: "cpu_state \<Rightarrow> string + cpu_state" where
  "popcli p =
     (if iflag p then Inl ''popcli - interruptible''
      else
        let q = p\<lparr>ncli := ncli p - 1\<rparr>
        in if ncli q < 0 then Inl ''popcli''
           else Inr (if ncli q = 0 \<and> intena q then q\<lparr>iflag := True\<rparr> else q))"

text \<open>The chain of frames from \<open>v\<close>; \<open>mem\<close> is the word at an address.\<close>

primrec callerpcs_from :: "(32 word \<Rightarrow> 32 word) \<Rightarrow> nat \<Rightarrow> 32 word \<Rightarrow> 32 word list" where
  "callerpcs_from mem 0 ebp = []"
| "callerpcs_from mem (Suc n) ebp =
     (if ebp = 0 \<or> ebp < 0x100000 \<or> ebp = 0xffffffff then replicate (Suc n) 0
      else mem (ebp + 4) # callerpcs_from mem n (mem ebp))"

definition getcallerpcs :: "(32 word \<Rightarrow> 32 word) \<Rightarrow> 32 word \<Rightarrow> 32 word list" where
  "getcallerpcs mem v = callerpcs_from mem 10 (v - 8)"

section \<open>Processors\<close>

text \<open>
  Where a processor is: outside, in \<open>acquire\<close> (the two reads of \<open>holding\<close>, the loop, the two writes after it), in \<open>release\<close> (the two
  reads of \<open>holding\<close>, the three writes), or stopped by \<open>panic\<close>.
\<close>

datatype where_at =
    Outside
  | Acq_locked nat | Acq_cpu nat | Acq_spin nat | Acq_set_cpu nat | Acq_set_pcs nat
  | Rel_locked nat | Rel_cpu nat | Rel_pcs nat | Rel_clear nat | Rel_xchg nat
  | Stopped string nat

record smp =
  lks :: "nat \<Rightarrow> spinlock"
  cpus :: "nat \<Rightarrow> cpu_state"
  at :: "nat \<Rightarrow> where_at"
  own :: "nat \<Rightarrow> nat set"
  pushed :: "nat \<Rightarrow> nat"

definition goto :: "nat \<Rightarrow> where_at \<Rightarrow> smp \<Rightarrow> smp" where
  "goto c w s = s\<lparr>at := (at s)(c := w)\<rparr>"

definition upd_lock :: "nat \<Rightarrow> (spinlock \<Rightarrow> spinlock) \<Rightarrow> smp \<Rightarrow> smp" where
  "upd_lock l f s = s\<lparr>lks := (lks s)(l := f (lks s l))\<rparr>"

definition upd_cpu :: "nat \<Rightarrow> (cpu_state \<Rightarrow> cpu_state) \<Rightarrow> smp \<Rightarrow> smp" where
  "upd_cpu c f s = s\<lparr>cpus := (cpus s)(c := f (cpus s c))\<rparr>"

definition leave :: "nat \<Rightarrow> nat \<Rightarrow> smp \<Rightarrow> smp" where
  "leave c l s = (case popcli (cpus s c) of Inl m \<Rightarrow> goto c (Stopped m l) s | Inr p \<Rightarrow> goto c Outside (upd_cpu c (\<lambda>_. p) s))"

text \<open>The next step of processor \<open>c\<close> inside \<open>acquire\<close>; \<open>pcs\<close> is what \<open>getcallerpcs\<close> finds on its stack.\<close>

definition acquire :: "nat \<Rightarrow> nat \<Rightarrow> smp \<Rightarrow> smp" where
  "acquire c l s = goto c (Acq_locked l) (upd_cpu c pushcli s)"

definition acquire_step :: "32 word list \<Rightarrow> nat \<Rightarrow> smp \<Rightarrow> smp" where
  "acquire_step pcs c s =
     (case at s c of
        Acq_locked l \<Rightarrow> goto c (if lk_locked (lks s l) = 0 then Acq_spin l else Acq_cpu l) s
      | Acq_cpu l \<Rightarrow> goto c (if lk_cpu (lks s l) = Some c then Stopped ''acquire'' l else Acq_spin l) s
      | Acq_spin l \<Rightarrow>
          (let old = lk_locked (lks s l); t = upd_lock l (\<lambda>k. k\<lparr>lk_locked := 1\<rparr>) s
           in if old \<noteq> 0 then t else goto c (Acq_set_cpu l) t)
      | Acq_set_cpu l \<Rightarrow> goto c (Acq_set_pcs l) (upd_lock l (\<lambda>k. k\<lparr>lk_cpu := Some c\<rparr>) s)
      | Acq_set_pcs l \<Rightarrow>
          (let t = upd_lock l (\<lambda>k. k\<lparr>lk_pcs := pcs\<rparr>) s in goto c Outside (t\<lparr>own := (own t)(c := insert l (own t c))\<rparr>))
      | _ \<Rightarrow> s)"

definition release :: "nat \<Rightarrow> nat \<Rightarrow> smp \<Rightarrow> smp" where
  "release c l s = goto c (Rel_locked l) s"

definition release_step :: "nat \<Rightarrow> smp \<Rightarrow> smp" where
  "release_step c s =
     (case at s c of
        Rel_locked l \<Rightarrow> goto c (if lk_locked (lks s l) = 0 then Stopped ''release'' l else Rel_cpu l) s
      | Rel_cpu l \<Rightarrow>
          (if lk_cpu (lks s l) \<noteq> Some c then goto c (Stopped ''release'' l) s
           else goto c (Rel_pcs l) (s\<lparr>own := (own s)(c := own s c - {l})\<rparr>))
      | Rel_pcs l \<Rightarrow> goto c (Rel_clear l) (upd_lock l (\<lambda>k. k\<lparr>lk_pcs := (lk_pcs k)[0 := 0]\<rparr>) s)
      | Rel_clear l \<Rightarrow> goto c (Rel_xchg l) (upd_lock l (\<lambda>k. k\<lparr>lk_cpu := None\<rparr>) s)
      | Rel_xchg l \<Rightarrow> leave c l (upd_lock l (\<lambda>k. k\<lparr>lk_locked := 0\<rparr>) s)
      | _ \<Rightarrow> s)"

inductive smp_step :: "smp \<Rightarrow> smp \<Rightarrow> bool" where
  call_acquire: "at s c = Outside \<Longrightarrow> smp_step s (acquire c l s)"
| call_release: "at s c = Outside \<Longrightarrow> smp_step s (release c l s)"
| in_acquire: "smp_step s (acquire_step pcs c s)"
| in_release: "smp_step s (release_step c s)"
| push: "at s c = Outside \<Longrightarrow> smp_step s (upd_cpu c pushcli (s\<lparr>pushed := (pushed s)(c := Suc (pushed s c))\<rparr>))"
| pop: "at s c = Outside \<Longrightarrow> pushed s c = Suc n \<Longrightarrow> popcli (cpus s c) = Inr p \<Longrightarrow>
    smp_step s (upd_cpu c (\<lambda>_. p) (s\<lparr>pushed := (pushed s)(c := n)\<rparr>))"
| flag: "at s c = Outside \<Longrightarrow> ncli (cpus s c) = 0 \<Longrightarrow> smp_step s (upd_cpu c (\<lambda>p. p\<lparr>iflag := b\<rparr>) s)"

text \<open>The state when the processors start: locks after \<open>initlock\<close>, no processor in a lock's code.\<close>

definition smp_start :: "(nat \<Rightarrow> spinlock) \<Rightarrow> (nat \<Rightarrow> bool) \<Rightarrow> smp" where
  "smp_start k f = \<lparr>lks = (\<lambda>l. initlock (lk_name (k l)) (k l)), cpus = (\<lambda>c. \<lparr>ncli = 0, intena = False, iflag = f c\<rparr>), at = (\<lambda>c. Outside),
     own = (\<lambda>c. {}), pushed = (\<lambda>c. 0)\<rparr>"

inductive smp_run :: "smp \<Rightarrow> bool" where
  start: "smp_run (smp_start k f)"
| step: "smp_run s \<Longrightarrow> smp_step s t \<Longrightarrow> smp_run t"

section \<open>The invariant\<close>

text \<open>
  The locks whose word a processor has set (\<open>in_lock\<close>), and those that name it (\<open>claims\<close>), by the place in the code; the calls of
  \<open>pushcli\<close> that are open there.
\<close>

fun in_lock :: "where_at \<Rightarrow> nat \<Rightarrow> bool" where
  "in_lock (Acq_set_cpu l) k = (k = l)" | "in_lock (Acq_set_pcs l) k = (k = l)"
| "in_lock (Rel_pcs l) k = (k = l)" | "in_lock (Rel_clear l) k = (k = l)" | "in_lock (Rel_xchg l) k = (k = l)"
| "in_lock _ k = False"

fun claims :: "where_at \<Rightarrow> nat \<Rightarrow> bool" where
  "claims (Acq_set_pcs l) k = (k = l)" | "claims (Rel_pcs l) k = (k = l)" | "claims (Rel_clear l) k = (k = l)"
| "claims _ k = False"

fun open_cli :: "where_at \<Rightarrow> nat" where
  "open_cli Outside = 0" | "open_cli (Rel_locked l) = 0" | "open_cli (Rel_cpu l) = 0" | "open_cli (Stopped m l) = (if m = ''acquire'' then 1 else 0)"
| "open_cli _ = 1"

definition users :: "smp \<Rightarrow> nat \<Rightarrow> nat set" where
  "users s l = {c. l \<in> own s c \<or> in_lock (at s c) l}"

definition named :: "smp \<Rightarrow> nat \<Rightarrow> nat set" where
  "named s l = {c. l \<in> own s c \<or> claims (at s c) l}"

definition lock_inv :: "smp \<Rightarrow> nat \<Rightarrow> bool" where
  "lock_inv s l \<longleftrightarrow> (if lk_locked (lks s l) = 0 then users s l = {} else \<exists>c. users s l = {c}) \<and>
     named s l = set_option (lk_cpu (lks s l))"

definition place_inv :: "nat set \<Rightarrow> where_at \<Rightarrow> bool" where
  "place_inv L w \<longleftrightarrow> (\<forall>l. in_lock w l \<or> w = Acq_spin l \<or> w = Stopped ''release'' l \<longrightarrow> l \<notin> L) \<and>
     (\<forall>m l. w = Stopped m l \<longrightarrow> m = ''release'' \<or> m = ''acquire'' \<and> l \<in> L)"

definition cpu_inv :: "smp \<Rightarrow> nat \<Rightarrow> bool" where
  "cpu_inv s c \<longleftrightarrow> finite (own s c) \<and> place_inv (own s c) (at s c) \<and>
     ncli (cpus s c) = int (card (own s c) + pushed s c + open_cli (at s c)) \<and> (iflag (cpus s c) \<longrightarrow> ncli (cpus s c) = 0)"

definition smp_inv :: "smp \<Rightarrow> bool" where
  "smp_inv s \<longleftrightarrow> (\<forall>l. lock_inv s l) \<and> (\<forall>c. cpu_inv s c)"

lemmas smp_steps = goto_def upd_lock_def upd_cpu_def

lemma push_pop [simp]:
  "ncli (pushcli p) = ncli p + 1" "iflag (pushcli p) = False"
  by (simp_all add: pushcli_def Let_def)

lemma popcli_ok:
  assumes "\<not> iflag p" "1 \<le> ncli p"
  obtains q where "popcli p = Inr q" "ncli q = ncli p - 1" "iflag q \<longrightarrow> ncli q = 0"
proof -
  have ge: "\<not> ncli p - 1 < 0" using assms(2) by simp
  show thesis
  proof (cases "ncli p - 1 = 0 \<and> intena p")
    case True
    then have "popcli p = Inr (p\<lparr>ncli := ncli p - 1, iflag := True\<rparr>)" using assms(1) ge unfolding popcli_def Let_def by simp
    then show thesis by (rule that) (use True in simp_all)
  next
    case False
    then have "popcli p = Inr (p\<lparr>ncli := ncli p - 1\<rparr>)" using assms(1) ge unfolding popcli_def Let_def by auto
    then show thesis by (rule that) (use assms(1) in simp_all)
  qed
qed

text \<open>A step of processor \<open>c\<close> at lock \<open>l\<close> leaves the other processors and the other locks alone.\<close>

lemma inv_frame:
  assumes "smp_inv s"
    and "\<And>d. d \<noteq> c \<Longrightarrow> at t d = at s d \<and> own t d = own s d \<and> cpus t d = cpus s d \<and> pushed t d = pushed s d"
    and "\<And>k. k \<noteq> l \<Longrightarrow> lks t k = lks s k \<and> (k \<in> own t c \<or> in_lock (at t c) k \<longleftrightarrow> k \<in> own s c \<or> in_lock (at s c) k) \<and>
      (k \<in> own t c \<or> claims (at t c) k \<longleftrightarrow> k \<in> own s c \<or> claims (at s c) k)"
    and "lock_inv t l" "cpu_inv t c"
  shows "smp_inv t"
proof -
  have "cpu_inv t d" for d using assms(1,2,5) by (cases "d = c") (auto simp: smp_inv_def cpu_inv_def)
  moreover have "lock_inv t k" for k
  proof (cases "k = l")
    case False
    have "d \<in> users t k \<longleftrightarrow> d \<in> users s k" "d \<in> named t k \<longleftrightarrow> d \<in> named s k" for d
      using assms(2)[of d] assms(3)[OF False] by (cases "d = c"; simp add: users_def named_def)+
    then have "users t k = users s k" "named t k = named s k" by blast+
    then show ?thesis using assms(1) assms(3)[OF False] by (simp add: smp_inv_def lock_inv_def)
  qed (use assms(4) in simp)
  ultimately show ?thesis by (simp add: smp_inv_def)
qed

text \<open>The sets of a lock after processor \<open>c\<close> has moved.\<close>

lemma users_move:
  assumes "\<And>d. d \<noteq> c \<Longrightarrow> at t d = at s d \<and> own t d = own s d"
  shows "users t l = (users s l - {c}) \<union> (if l \<in> own t c \<or> in_lock (at t c) l then {c} else {})"
    "named t l = (named s l - {c}) \<union> (if l \<in> own t c \<or> claims (at t c) l then {c} else {})"
proof -
  have "d \<in> users t l \<longleftrightarrow> d \<in> (users s l - {c}) \<union> (if l \<in> own t c \<or> in_lock (at t c) l then {c} else {})"
    "d \<in> named t l \<longleftrightarrow> d \<in> (named s l - {c}) \<union> (if l \<in> own t c \<or> claims (at t c) l then {c} else {})" for d
    using assms[of d] by (cases "d = c"; simp add: users_def named_def)+
  then show "users t l = (users s l - {c}) \<union> (if l \<in> own t c \<or> in_lock (at t c) l then {c} else {})"
    "named t l = (named s l - {c}) \<union> (if l \<in> own t c \<or> claims (at t c) l then {c} else {})" by blast+
qed

lemma claims_in: "claims w l \<Longrightarrow> in_lock w l"
  by (cases w) simp_all

lemma named_users: "named s l \<subseteq> users s l"
  by (auto simp: named_def users_def dest: claims_in)

text \<open>
  One processor moves at one lock: it starts to use the lock where the word was 0 and is set, stops where it becomes 0, else the word
  stays zero or nonzero; the same for the name in the lock.
\<close>

lemma smp_move:
  assumes inv: "smp_inv s"
    and t: "t = \<lparr>lks = (lks s)(l := k), cpus = (cpus s)(c := p), at = (at s)(c := w), own = (own s)(c := L), pushed = (pushed s)(c := n)\<rparr>"
    and other: "\<And>j. j \<noteq> l \<Longrightarrow> (j \<in> L \<longleftrightarrow> j \<in> own s c) \<and> (in_lock w j \<longleftrightarrow> in_lock (at s c) j) \<and> (claims w j \<longleftrightarrow> claims (at s c) j)"
    and word: "if l \<in> L \<or> in_lock w l then lk_locked k \<noteq> 0 \<and> (lk_locked (lks s l) = 0 \<or> c \<in> users s l)
      else lk_locked k = 0 \<and> c \<in> users s l \<or> (lk_locked k = 0 \<longleftrightarrow> lk_locked (lks s l) = 0) \<and> c \<notin> users s l"
    and name: "if l \<in> L \<or> claims w l then lk_cpu k = Some c \<and> c \<in> users s l
      else lk_cpu k = None \<and> c \<in> users s l \<or> lk_cpu k = lk_cpu (lks s l) \<and> c \<notin> named s l"
    and cpu: "finite L" "place_inv L w" "ncli p = int (card L + n + open_cli w)" "iflag p \<longrightarrow> ncli p = 0"
  shows "smp_inv t"
proof (rule inv_frame[OF inv, of c _ l])
  have li: "lock_inv s l" using inv by (simp add: smp_inv_def)
  have mv: "users t l = (users s l - {c}) \<union> (if l \<in> L \<or> in_lock w l then {c} else {})"
    "named t l = (named s l - {c}) \<union> (if l \<in> L \<or> claims w l then {c} else {})"
    using users_move[of c t s l] by (simp_all add: t)
  have one: "users s l = {c}" if "c \<in> users s l" using li that by (auto simp: lock_inv_def split: if_splits)
  have nm: "named s l - {c} = {}" if "c \<in> users s l" using one[OF that] named_users[of s l] by auto
  have "if lk_locked k = 0 then users t l = {} else \<exists>d. users t l = {d}"
    using word li one unfolding mv(1) by (auto simp: lock_inv_def split: if_splits)
  moreover have "named t l = set_option (lk_cpu k)"
    using name li nm unfolding mv(2) by (auto simp: lock_inv_def split: if_splits)
  moreover have "lks t l = k" by (simp add: t)
  ultimately show "lock_inv t l" by (simp add: lock_inv_def)
  show "cpu_inv t c" using cpu by (simp add: cpu_inv_def t)
qed (use other in \<open>auto simp: t\<close>)

lemma cpuD:
  assumes "smp_inv s"
  shows "finite (own s c)" "place_inv (own s c) (at s c)" "ncli (cpus s c) = int (card (own s c) + pushed s c + open_cli (at s c))"
    "iflag (cpus s c) \<longrightarrow> ncli (cpus s c) = 0"
proof -
  have "cpu_inv s c" using assms by (simp add: smp_inv_def)
  then show "finite (own s c)" "place_inv (own s c) (at s c)" "ncli (cpus s c) = int (card (own s c) + pushed s c + open_cli (at s c))"
    "iflag (cpus s c) \<longrightarrow> ncli (cpus s c) = 0" unfolding cpu_inv_def by blast+
qed

lemma lockD:
  assumes "smp_inv s"
  shows "l \<in> own s c \<or> in_lock (at s c) l \<Longrightarrow> lk_locked (lks s l) \<noteq> 0" "lk_cpu (lks s l) = Some c \<longleftrightarrow> l \<in> own s c \<or> claims (at s c) l"
proof -
  have l: "lock_inv s l" using assms by (simp add: smp_inv_def)
  show "lk_locked (lks s l) \<noteq> 0" if "l \<in> own s c \<or> in_lock (at s c) l"
    using l that unfolding lock_inv_def users_def by (auto split: if_splits)
  have "lk_cpu (lks s l) = Some c \<longleftrightarrow> c \<in> named s l" using l by (auto simp: lock_inv_def)
  then show "lk_cpu (lks s l) = Some c \<longleftrightarrow> l \<in> own s c \<or> claims (at s c) l" by (simp add: named_def)
qed

text \<open>The processor is at a place, in terms of the sets.\<close>

lemma user_iff: "c \<in> users s l \<longleftrightarrow> l \<in> own s c \<or> in_lock (at s c) l" "c \<in> named s l \<longleftrightarrow> l \<in> own s c \<or> claims (at s c) l"
  by (simp_all add: users_def named_def)

lemma place_inv_simps:
  "place_inv L (Acq_set_cpu l) \<longleftrightarrow> l \<notin> L" "place_inv L (Acq_set_pcs l) \<longleftrightarrow> l \<notin> L" "place_inv L (Rel_pcs l) \<longleftrightarrow> l \<notin> L"
  "place_inv L (Rel_clear l) \<longleftrightarrow> l \<notin> L" "place_inv L (Rel_xchg l) \<longleftrightarrow> l \<notin> L" "place_inv L (Acq_spin l) \<longleftrightarrow> l \<notin> L"
  "place_inv L Outside" "place_inv L (Acq_locked l)" "place_inv L (Acq_cpu l)" "place_inv L (Rel_locked l)" "place_inv L (Rel_cpu l)"
  "place_inv L (Stopped m l) \<longleftrightarrow> m = ''release'' \<and> l \<notin> L \<or> m = ''acquire'' \<and> l \<in> L"
  by (auto simp: place_inv_def)

lemmas smp_facts = smp_steps place_inv_simps user_iff

text \<open>A processor that only goes on to the next place.\<close>

lemma goto_inv:
  assumes "smp_inv s" "in_lock w = in_lock (at s c)" "claims w = claims (at s c)" "open_cli w = open_cli (at s c)" "place_inv (own s c) w"
  shows "smp_inv (goto c w s)"
proof (rule smp_move[OF assms(1), where l = 0])
  show "goto c w s = \<lparr>lks = (lks s)(0 := lks s 0), cpus = (cpus s)(c := cpus s c), at = (at s)(c := w),
      own = (own s)(c := own s c), pushed = (pushed s)(c := pushed s c)\<rparr>"
    by (simp add: smp_steps)
qed (use assms(2-5) cpuD[OF assms(1), of c] lockD[OF assms(1), of 0 c] in \<open>auto simp add: smp_facts dest: claims_in\<close>)

text \<open>A processor that changes one lock and goes on.\<close>

lemma lock_goto_inv:
  assumes "smp_inv s" "t = goto c w (upd_lock l f s)"
    and "\<And>j. j \<noteq> l \<Longrightarrow> (in_lock w j \<longleftrightarrow> in_lock (at s c) j) \<and> (claims w j \<longleftrightarrow> claims (at s c) j)"
    and "if l \<in> own s c \<or> in_lock w l then lk_locked (f (lks s l)) \<noteq> 0 \<and> (lk_locked (lks s l) = 0 \<or> c \<in> users s l)
      else lk_locked (f (lks s l)) = 0 \<and> c \<in> users s l \<or> (lk_locked (f (lks s l)) = 0 \<longleftrightarrow> lk_locked (lks s l) = 0) \<and> c \<notin> users s l"
    and "if l \<in> own s c \<or> claims w l then lk_cpu (f (lks s l)) = Some c \<and> c \<in> users s l
      else lk_cpu (f (lks s l)) = None \<and> c \<in> users s l \<or> lk_cpu (f (lks s l)) = lk_cpu (lks s l) \<and> c \<notin> named s l"
    and "open_cli w = open_cli (at s c)" "place_inv (own s c) w"
  shows "smp_inv t"
proof (rule smp_move[OF assms(1)])
  show "t = \<lparr>lks = (lks s)(l := f (lks s l)), cpus = (cpus s)(c := cpus s c), at = (at s)(c := w),
      own = (own s)(c := own s c), pushed = (pushed s)(c := pushed s c)\<rparr>"
    by (simp add: assms(2) smp_steps)
  show "iflag (cpus s c) \<longrightarrow> ncli (cpus s c) = 0" using cpuD(4)[OF assms(1)] by blast
qed (use assms(3-7) cpuD(1-3)[OF assms(1), of c] in simp_all)

section \<open>Every step keeps the invariant\<close>

lemma acquire_inv:
  assumes "smp_inv s" "at s c = Outside"
  shows "smp_inv (acquire c l s)"
proof (rule smp_move[OF assms(1)])
  show "acquire c l s = \<lparr>lks = (lks s)(l := lks s l), cpus = (cpus s)(c := pushcli (cpus s c)), at = (at s)(c := Acq_locked l),
      own = (own s)(c := own s c), pushed = (pushed s)(c := pushed s c)\<rparr>"
    by (simp add: acquire_def smp_steps)
qed (use assms(2) cpuD[OF assms(1), of c] lockD[OF assms(1), of l c] in \<open>simp_all add: smp_facts\<close>)

lemma push_inv:
  assumes "smp_inv s" "at s c = Outside"
  shows "smp_inv (upd_cpu c pushcli (s\<lparr>pushed := (pushed s)(c := Suc (pushed s c))\<rparr>))"
proof (rule smp_move[OF assms(1), where l = 0])
  show "upd_cpu c pushcli (s\<lparr>pushed := (pushed s)(c := Suc (pushed s c))\<rparr>) =
      \<lparr>lks = (lks s)(0 := lks s 0), cpus = (cpus s)(c := pushcli (cpus s c)), at = (at s)(c := Outside),
      own = (own s)(c := own s c), pushed = (pushed s)(c := Suc (pushed s c))\<rparr>"
    using assms(2) by (simp add: smp_steps fun_upd_idem)
qed (use assms(2) cpuD[OF assms(1), of c] lockD[OF assms(1), of 0 c] in \<open>simp_all add: smp_facts\<close>)

lemma pop_inv:
  assumes "smp_inv s" "at s c = Outside" "pushed s c = Suc n" "popcli (cpus s c) = Inr p"
  shows "smp_inv (upd_cpu c (\<lambda>_. p) (s\<lparr>pushed := (pushed s)(c := n)\<rparr>))"
proof (rule smp_move[OF assms(1), where l = 0])
  note c = cpuD[OF assms(1), of c]
  have "1 \<le> ncli (cpus s c)" "\<not> iflag (cpus s c)" using c(3,4) assms(3) by auto
  then show "ncli p = int (card (own s c) + n + open_cli Outside)" "iflag p \<longrightarrow> ncli p = 0"
    using popcli_ok[of "cpus s c"] assms(2-4) c(3) by force+
  show "upd_cpu c (\<lambda>_. p) (s\<lparr>pushed := (pushed s)(c := n)\<rparr>) =
      \<lparr>lks = (lks s)(0 := lks s 0), cpus = (cpus s)(c := p), at = (at s)(c := Outside), own = (own s)(c := own s c), pushed = (pushed s)(c := n)\<rparr>"
    using assms(2) by (simp add: smp_steps fun_upd_idem)
qed (use assms(2) cpuD(1)[OF assms(1), of c] lockD[OF assms(1), of 0 c] in \<open>simp_all add: smp_facts\<close>)

lemma flag_inv:
  assumes "smp_inv s" "at s c = Outside" "ncli (cpus s c) = 0"
  shows "smp_inv (upd_cpu c (\<lambda>p. p\<lparr>iflag := b\<rparr>) s)"
proof (rule smp_move[OF assms(1), where l = 0])
  show "upd_cpu c (\<lambda>p. p\<lparr>iflag := b\<rparr>) s = \<lparr>lks = (lks s)(0 := lks s 0), cpus = (cpus s)(c := (cpus s c)\<lparr>iflag := b\<rparr>), at = (at s)(c := Outside),
      own = (own s)(c := own s c), pushed = (pushed s)(c := pushed s c)\<rparr>"
    using assms(2) by (simp add: smp_steps fun_upd_idem)
qed (use assms(2,3) cpuD(1,3)[OF assms(1), of c] lockD[OF assms(1), of 0 c] in \<open>simp_all add: smp_facts\<close>)

lemma acquire_step_inv:
  assumes "smp_inv s"
  shows "smp_inv (acquire_step pcs c s)"
proof (cases "at s c")
  case (Acq_locked l)
  then show ?thesis using lockD(1)[OF assms, of l c]
    by (auto simp: acquire_step_def place_inv_simps fun_eq_iff intro!: goto_inv[OF assms])
next
  case (Acq_cpu l)
  then show ?thesis using lockD(2)[OF assms, of l c]
    by (auto simp: acquire_step_def place_inv_simps fun_eq_iff intro!: goto_inv[OF assms])
next
  case (Acq_spin l)
  then have "l \<notin> own s c" using cpuD(2)[OF assms, of c] by (simp add: place_inv_simps)
  show ?thesis
  proof (cases "lk_locked (lks s l) = 0")
    case True
    then show ?thesis using Acq_spin \<open>l \<notin> own s c\<close>
      by (intro lock_goto_inv[OF assms, of _ c "Acq_set_cpu l" l "\<lambda>k. k\<lparr>lk_locked := 1\<rparr>"]) (simp_all add: acquire_step_def smp_facts)
  next
    case False
    then show ?thesis using Acq_spin \<open>l \<notin> own s c\<close>
      by (intro lock_goto_inv[OF assms, of _ c "Acq_spin l" l "\<lambda>k. k\<lparr>lk_locked := 1\<rparr>"]) (simp_all add: acquire_step_def smp_facts fun_upd_idem)
  qed
next
  case (Acq_set_cpu l)
  then have "l \<notin> own s c" using cpuD(2)[OF assms, of c] by (simp add: place_inv_simps)
  with Acq_set_cpu lockD(1)[OF assms, of l c] show ?thesis
    by (intro lock_goto_inv[OF assms, of _ c "Acq_set_pcs l" l "\<lambda>k. k\<lparr>lk_cpu := Some c\<rparr>"]) (simp_all add: acquire_step_def smp_facts)
next
  case (Acq_set_pcs l)
  then have own: "l \<notin> own s c" using cpuD(2)[OF assms, of c] by (simp add: place_inv_simps)
  show ?thesis
  proof (rule smp_move[OF assms])
    show "acquire_step pcs c s = \<lparr>lks = (lks s)(l := (lks s l)\<lparr>lk_pcs := pcs\<rparr>), cpus = (cpus s)(c := cpus s c), at = (at s)(c := Outside),
      own = (own s)(c := insert l (own s c)), pushed = (pushed s)(c := pushed s c)\<rparr>"
      using Acq_set_pcs by (simp add: acquire_step_def smp_steps)
  qed (use own Acq_set_pcs cpuD[OF assms, of c] lockD[OF assms, of l c] in \<open>simp_all add: smp_facts\<close>)
qed (use assms in \<open>simp_all add: acquire_step_def\<close>)

lemma release_step_inv:
  assumes "smp_inv s"
  shows "smp_inv (release_step c s)"
proof (cases "at s c")
  case (Rel_locked l)
  then show ?thesis using lockD(1)[OF assms, of l c]
    by (auto simp: release_step_def place_inv_simps fun_eq_iff intro!: goto_inv[OF assms])
next
  case (Rel_cpu l)
  show ?thesis
  proof (cases "lk_cpu (lks s l) = Some c")
    case True
    then have own: "l \<in> own s c" using Rel_cpu lockD(2)[OF assms, of l c] by simp
    then have card: "card (own s c) = Suc (card (own s c - {l}))" by (rule card.remove[OF cpuD(1)[OF assms]])
    show ?thesis
    proof (rule smp_move[OF assms])
      show "release_step c s = \<lparr>lks = (lks s)(l := lks s l), cpus = (cpus s)(c := cpus s c), at = (at s)(c := Rel_pcs l),
        own = (own s)(c := own s c - {l}), pushed = (pushed s)(c := pushed s c)\<rparr>"
        using Rel_cpu True by (simp add: release_step_def smp_steps)
    qed (use own card Rel_cpu cpuD[OF assms, of c] lockD[OF assms, of l c] in \<open>simp_all add: smp_facts\<close>)
  next
    case False
    then show ?thesis using Rel_cpu lockD(2)[OF assms, of l c]
      by (auto simp: release_step_def place_inv_simps fun_eq_iff intro!: goto_inv[OF assms])
  qed
next
  case (Rel_pcs l)
  then have "l \<notin> own s c" using cpuD(2)[OF assms, of c] by (simp add: place_inv_simps)
  with Rel_pcs lockD[OF assms, of l c] show ?thesis
    by (intro lock_goto_inv[OF assms, of _ c "Rel_clear l" l "\<lambda>k. k\<lparr>lk_pcs := (lk_pcs k)[0 := 0]\<rparr>"]) (simp_all add: release_step_def smp_facts)
next
  case (Rel_clear l)
  then have "l \<notin> own s c" using cpuD(2)[OF assms, of c] by (simp add: place_inv_simps)
  with Rel_clear lockD[OF assms, of l c] show ?thesis
    by (intro lock_goto_inv[OF assms, of _ c "Rel_xchg l" l "\<lambda>k. k\<lparr>lk_cpu := None\<rparr>"]) (simp_all add: release_step_def smp_facts)
next
  case (Rel_xchg l)
  note c = cpuD[OF assms, of c]
  have own: "l \<notin> own s c" using c(2) Rel_xchg by (simp add: place_inv_simps)
  have "1 \<le> ncli (cpus s c)" "\<not> iflag (cpus s c)" using c(3,4) Rel_xchg by auto
  then obtain p where p: "popcli (cpus s c) = Inr p" "ncli p = ncli (cpus s c) - 1" "iflag p \<longrightarrow> ncli p = 0" using popcli_ok by metis
  show ?thesis
  proof (rule smp_move[OF assms])
    show "release_step c s = \<lparr>lks = (lks s)(l := (lks s l)\<lparr>lk_locked := 0\<rparr>), cpus = (cpus s)(c := p), at = (at s)(c := Outside),
      own = (own s)(c := own s c), pushed = (pushed s)(c := pushed s c)\<rparr>"
      using Rel_xchg p(1) by (simp add: release_step_def leave_def smp_steps)
  qed (use own p Rel_xchg c lockD[OF assms, of l c] in \<open>simp_all add: smp_facts\<close>)
qed (use assms in \<open>simp_all add: release_step_def\<close>)

lemma smp_step_inv: "smp_step s t \<Longrightarrow> smp_inv s \<Longrightarrow> smp_inv t"
proof (induction rule: smp_step.induct)
  case (call_release s c l)
  then show ?case unfolding release_def by (intro goto_inv) (simp_all add: place_inv_simps fun_eq_iff)
qed (simp_all add: acquire_inv acquire_step_inv release_step_inv push_inv pop_inv flag_inv)

lemma smp_run_inv: "smp_run s \<Longrightarrow> smp_inv s"
proof (induction rule: smp_run.induct)
  case (start k f)
  show ?case
    by (simp add: smp_inv_def lock_inv_def cpu_inv_def users_def named_def smp_start_def initlock_def place_inv_simps)
qed (rule smp_step_inv)

section \<open>Property\<close>

text \<open>
  C15. Spin locks on any number of processors, in every interleaving of their memory accesses. No two processors own the same lock; the
  owner has interrupts off, its depth of \<open>pushcli\<close> counts its locks, and \<open>holding\<close> answers whether it owns the lock. A lock whose word
  is set has a processor that owns it or is inside \<open>acquire\<close> or \<open>release\<close> of it (which may have stopped or wait for another lock), and a
  processor that spins for a lock does not own it. The only ways to stop are to take a lock that one owns and to release a lock that one does not own.
\<close>

theorem spinlock_exclusion:
  assumes "smp_run s"
  shows "(l \<in> own s c \<longrightarrow> l \<in> own s d \<longrightarrow> c = d) \<and>
    (l \<in> own s c \<longrightarrow> \<not> iflag (cpus s c) \<and> int (card (own s c)) \<le> ncli (cpus s c)) \<and>
    (at s c = Outside \<longrightarrow> holding c (lks s l) = (l \<in> own s c)) \<and>
    (lk_locked (lks s l) \<noteq> 0 \<longrightarrow> (\<exists>e. l \<in> own s e \<or> in_lock (at s e) l)) \<and>
    (at s c = Acq_spin l \<longrightarrow> l \<notin> own s c) \<and>
    (at s c = Stopped m l \<longrightarrow> m = ''acquire'' \<and> l \<in> own s c \<or> m = ''release'' \<and> l \<notin> own s c)"
proof (intro conjI impI)
  note inv = smp_run_inv[OF assms]
  note c = cpuD[OF inv, of c] and lc = lockD[OF inv, of l c]
  have li: "lock_inv s l" using inv by (simp add: smp_inv_def)
  show "c = d" if "l \<in> own s c" "l \<in> own s d"
    using that lc(2) lockD(2)[OF inv, of l d] by simp
  show "int (card (own s c)) \<le> ncli (cpus s c)" if "l \<in> own s c" using c(3) by simp
  have "0 < card (own s c)" if "l \<in> own s c" using c(1) that by (auto simp: card_gt_0_iff)
  then show "\<not> iflag (cpus s c)" if "l \<in> own s c" using c(3,4) that by force
  show "holding c (lks s l) = (l \<in> own s c)" if "at s c = Outside" using lc that by (auto simp: holding_def)
  show "\<exists>e. l \<in> own s e \<or> in_lock (at s e) l" if "lk_locked (lks s l) \<noteq> 0" using li that by (auto simp: lock_inv_def users_def)
  show "l \<notin> own s c" if "at s c = Acq_spin l" using c(2) that by (simp add: place_inv_simps)
  show "m = ''acquire'' \<and> l \<in> own s c \<or> m = ''release'' \<and> l \<notin> own s c" if "at s c = Stopped m l"
    using c(2) that by (auto simp: place_inv_simps)
qed

text \<open>Two processors: the first has taken lock 0, the second spins.\<close>

definition demo_lock :: spinlock where
  "demo_lock = \<lparr>lk_locked = 1, lk_name = ''tickslock'', lk_cpu = None, lk_pcs = replicate 10 0\<rparr>"

definition demo_smp :: smp where
  "demo_smp = ((acquire_step [] 1 ^^ 3) \<circ> acquire 1 0 \<circ> (acquire_step [] 0 ^^ 4) \<circ> acquire 0 0) (smp_start (\<lambda>l. demo_lock) (\<lambda>c. True))"

lemma acquire_steps_run: "smp_run s \<Longrightarrow> smp_run ((acquire_step pcs c ^^ n) s)"
  by (induction n) (auto intro: smp_run.step smp_step.in_acquire)

lemma demo_smp_places: "own demo_smp 0 = {0}" "at demo_smp 1 = Acq_spin 0" "at demo_smp 0 = Outside"
  by (simp_all add: demo_smp_def numeral_eq_Suc acquire_def acquire_step_def smp_steps smp_start_def initlock_def Let_def)

lemma demo_smp_run: "smp_run demo_smp"
proof -
  have a: "smp_run ((acquire_step [] 0 ^^ 4) (acquire 0 0 (smp_start (\<lambda>l. demo_lock) (\<lambda>c. True))))"
    by (rule acquire_steps_run, rule smp_run.step[OF smp_run.start], rule smp_step.call_acquire) (simp add: smp_start_def)
  have "at ((acquire_step [] 0 ^^ 4) (acquire 0 0 (smp_start (\<lambda>l. demo_lock) (\<lambda>c. True)))) 1 = Outside"
    by (simp add: numeral_eq_Suc acquire_def acquire_step_def smp_steps smp_start_def initlock_def Let_def)
  from acquire_steps_run[OF smp_run.step[OF a smp_step.call_acquire[OF this]], where n = 3 and pcs = "[]" and c = 1] show ?thesis by (simp add: demo_smp_def)
qed

theorem spinlock_exclusion_witness:
  "smp_run demo_smp \<and> at demo_smp 1 = Acq_spin 0 \<and> 0 \<in> own demo_smp 0 \<and> 0 \<notin> own demo_smp 1 \<and> \<not> iflag (cpus demo_smp 0)"
  using spinlock_exclusion[OF demo_smp_run, of 0 1 1 "[]"] spinlock_exclusion[OF demo_smp_run, of 0 0 0 "[]"] demo_smp_run demo_smp_places by simp

end
