(* ===== verification/Xv6_Names.thy ===== *)
theory Xv6_Names
  imports Xv6_Fs
begin

text \<open>
  Directories and path names, the last two layers of \<open>xv6/kernel/fs.c\<close>. A path is the bytes of the C string without
  its terminator; the name buffer of \<open>DIRSIZ\<close> bytes is passed along, since a name that fills it has no terminator.
\<close>

section \<open>Directories\<close>

definition namecmp :: "byte list \<Rightarrow> byte list \<Rightarrow> int" where
  "namecmp s t = strncmp s t DIRSIZ"

definition dirent_at :: "nat \<Rightarrow> byte list \<Rightarrow> dirent" where
  "dirent_at k d = dec_dirent (peek (16 * k) 16 d)"

definition dir_match :: "byte list \<Rightarrow> byte list \<Rightarrow> nat \<Rightarrow> bool" where
  "dir_match name d k \<longleftrightarrow> de_inum (dirent_at k d) \<noteq> 0 \<and> namecmp name (de_name (dirent_at k d)) = 0"

text \<open>The loop over the blocks; \<open>sz\<close> is \<open>dp->size\<close>, which no step of the loop changes.\<close>

function dirlookup_from :: "nat \<Rightarrow> byte list \<Rightarrow> nat \<Rightarrow> nat \<Rightarrow> ('z fsk_scheme, (nat \<times> 32 word) option) comp" where
  "dirlookup_from i name sz off =
     (if off < sz then
        andthen (inode_at i) (\<lambda>dp.
        andthen (bmap i (off div BSIZE)) (\<lambda>a.
        andthen (bread (ip_dev dp) a) (\<lambda>bp.
        andthen (bdata bp) (\<lambda>d.
        andthen (brelse bp) (\<lambda>_.
        case find (dir_match name d) [0..<BSIZE div 16] of
          Some k \<Rightarrow>
            andthen (iget (ip_dev dp) (ucast (de_inum (dirent_at k d)))) (\<lambda>n.
            ret (Some (n, of_nat (off + 16 * k))))
        | None \<Rightarrow> dirlookup_from i name sz (off + BSIZE))))))
      else ret None)"
  by pat_completeness auto
termination
  by (relation "measure (\<lambda>(i, name, sz, off). sz - off)") (auto simp: BSIZE_def)

declare dirlookup_from.simps [simp del]

definition dirlookup :: "nat \<Rightarrow> byte list \<Rightarrow> ('z fsk_scheme, (nat \<times> 32 word) option) comp" where
  "dirlookup i name =
     andthen (inode_at i) (\<lambda>dp.
     andthen (check (ip_type dp = T_DIR) ''dirlookup not DIR'') (\<lambda>_.
     dirlookup_from i name (unat (ip_size dp)) 0))"

text \<open>The search of \<open>dirlink\<close> for an entry that is not in use; \<open>off\<close> is at the end of the directory if there is none.\<close>

function dirlink_slot :: "nat \<Rightarrow> nat \<Rightarrow> nat \<Rightarrow> ('z fsk_scheme, nat) comp" where
  "dirlink_slot i sz off =
     (if off < sz then
        andthen (readi i (of_nat off) 16) (\<lambda>(rc, bytes).
        andthen (check (rc = 16) ''dirlink read'') (\<lambda>_.
        if de_inum (dec_dirent bytes) = 0 then ret off else dirlink_slot i sz (off + 16)))
      else ret off)"
  by pat_completeness auto
termination
  by (relation "measure (\<lambda>(i, sz, off). sz - off)") auto

declare dirlink_slot.simps [simp del]

definition dirlink :: "nat \<Rightarrow> byte list \<Rightarrow> 32 word \<Rightarrow> ('z fsk_scheme, int) comp" where
  "dirlink i name inum =
     andthen (dirlookup i name) (\<lambda>r.
     case r of
       Some (ip, _) \<Rightarrow> andthen (iput ip) (\<lambda>_. ret (-1))
     | None \<Rightarrow>
         andthen (inode_at i) (\<lambda>dp.
         andthen (dirlink_slot i (unat (ip_size dp)) 0) (\<lambda>off.
         andthen (writei i (enc_dirent \<lparr>de_inum = ucast inum, de_name = strncpy 0 name DIRSIZ (replicate DIRSIZ 0)\<rparr>)
                    (of_nat off) 16) (\<lambda>rc.
         andthen (check (rc = 16) ''dirlink'') (\<lambda>_. ret 0)))))"

section \<open>Paths\<close>

definition slash :: byte where "slash = 47"

definition skipelem :: "byte list \<Rightarrow> byte list \<Rightarrow> (byte list \<times> byte list) option" where
  "skipelem path name =
     (let p1 = dropWhile (\<lambda>c. c = slash) path
      in if p1 = [] then None
         else
           let elem = takeWhile (\<lambda>c. c \<noteq> slash) p1;
               p2 = dropWhile (\<lambda>c. c \<noteq> slash) p1;
               name' = (if length elem \<ge> DIRSIZ then poke 0 (take DIRSIZ elem) name else poke 0 (elem @ [0]) name)
           in Some (dropWhile (\<lambda>c. c = slash) p2, name'))"

lemma skipelem_shorter: "skipelem path name = Some (rest, name') \<Longrightarrow> length rest < length path"
proof -
  assume a: "skipelem path name = Some (rest, name')"
  let ?p = "dropWhile (\<lambda>c. c = slash) path"
  have ne: "?p \<noteq> []" and rest: "rest = dropWhile (\<lambda>c. c = slash) (dropWhile (\<lambda>c. c \<noteq> slash) ?p)"
    using a by (auto simp: skipelem_def Let_def split: if_splits)
  then obtain c p' where p: "?p = c # p'" by (cases ?p) auto
  then have "c \<noteq> slash" using hd_dropWhile[of "\<lambda>c. c = slash" path] ne by simp
  then have "length (dropWhile (\<lambda>c. c \<noteq> slash) ?p) < length ?p"
    using length_dropWhile_le[of "\<lambda>c. c \<noteq> slash" p'] by (simp add: p less_Suc_eq_le)
  then show ?thesis
    unfolding rest using length_dropWhile_le[of "\<lambda>c. c = slash" "dropWhile (\<lambda>c. c \<noteq> slash) ?p"]
      length_dropWhile_le[of "\<lambda>c. c = slash" path] by linarith
qed

text \<open>The loop of \<open>namex\<close>; the result is the inode and the name buffer, or \<open>None\<close> for a null pointer.\<close>

function namex_from :: "nat \<Rightarrow> byte list \<Rightarrow> bool \<Rightarrow> byte list \<Rightarrow> ('z fsk_scheme, (nat \<times> byte list) option) comp" where
  "namex_from ip path parent name =
     (case skipelem path name of
        None \<Rightarrow> if parent then andthen (iput ip) (\<lambda>_. ret None) else ret (Some (ip, name))
      | Some (path', name') \<Rightarrow>
          andthen (ilock ip) (\<lambda>_.
          andthen (inode_at ip) (\<lambda>d.
          if ip_type d \<noteq> T_DIR then andthen (iunlockput ip) (\<lambda>_. ret None)
          else if parent \<and> path' = [] then andthen (iunlock ip) (\<lambda>_. ret (Some (ip, name')))
          else
            andthen (dirlookup ip name') (\<lambda>r.
            case r of
              None \<Rightarrow> andthen (iunlockput ip) (\<lambda>_. ret None)
            | Some (n, _) \<Rightarrow> andthen (iunlockput ip) (\<lambda>_. namex_from n path' parent name')))))"
  by pat_completeness auto
termination
  by (relation "measure (\<lambda>(ip, path, parent, name). length path)") (auto dest: skipelem_shorter)

declare namex_from.simps [simp del]

text \<open>\<open>cwd\<close> is the inode \<open>proc->cwd\<close>.\<close>

definition namex :: "nat \<Rightarrow> byte list \<Rightarrow> bool \<Rightarrow> byte list \<Rightarrow> ('z fsk_scheme, (nat \<times> byte list) option) comp" where
  "namex cwd path parent name =
     andthen (if path \<noteq> [] \<and> hd path = slash then iget ROOTDEV ROOTINO else idup cwd) (\<lambda>ip.
     namex_from ip path parent name)"

definition namei :: "nat \<Rightarrow> byte list \<Rightarrow> byte list \<Rightarrow> ('z fsk_scheme, nat option) comp" where
  "namei cwd path name = andthen (namex cwd path False name) (\<lambda>r. ret (map_option fst r))"

definition nameiparent :: "nat \<Rightarrow> byte list \<Rightarrow> byte list \<Rightarrow> ('z fsk_scheme, (nat \<times> byte list) option) comp" where
  "nameiparent cwd path name = namex cwd path True name"

section \<open>Names\<close>

lemma cstr_take_pad:
  assumes "0 \<notin> set c"
  shows "take n (cstr (take n (c @ replicate n 0))) = take n c"
proof (cases "n \<le> length c")
  case True
  then have "take n (c @ replicate n 0) = take n c" by simp
  moreover have "cstr (take n c) = take n c"
    using assms unfolding cstr_def by (intro takeWhile_eq_all_conv[THEN iffD2]) (auto dest: in_set_takeD)
  ultimately show ?thesis by simp
next
  case False
  then have "take n (c @ replicate n 0) = c @ 0 # replicate (n - Suc (length c)) 0"
    by (simp add: take_replicate min_def Cons_replicate_eq not_le) (metis Suc_diff_Suc replicate_Suc)
  moreover have "cstr (c @ 0 # x) = c" for x
    using assms unfolding cstr_def by (subst takeWhile_append2) auto
  ultimately show ?thesis by simp
qed

lemma cstr_no_zero: "0 \<notin> set (cstr s)"
  by (auto simp: cstr_def dest: set_takeWhileD)

text \<open>
  A directory entry whose name \<open>dirlink\<close> has stored with \<open>strncpy\<close> is found by \<open>namecmp\<close> under a name \<open>p\<close> just if the
  first 14 characters of the two names are the same, also when the stored name fills the field and has no terminator.
\<close>

theorem stored_name_matches:
  assumes "0 \<in> set p \<or> DIRSIZ \<le> length p" "0 \<in> set q \<or> DIRSIZ \<le> length q"
  shows "namecmp p (strncpy 0 q DIRSIZ (replicate DIRSIZ 0)) = 0 \<longleftrightarrow> take DIRSIZ (cstr p) = take DIRSIZ (cstr q)"
proof -
  let ?f = "strncpy 0 q DIRSIZ (replicate DIRSIZ 0)"
  have f: "?f = take DIRSIZ (cstr q @ replicate DIRSIZ 0)"
    using strncpy_poke[of 0 DIRSIZ "replicate DIRSIZ 0" q] assms(2) by (simp add: poke_def)
  then have "length ?f = DIRSIZ" by simp
  then show ?thesis
    unfolding namecmp_def using strncmp_zero_iff[of p DIRSIZ ?f] assms(1) cstr_take_pad[OF cstr_no_zero, of DIRSIZ q] f by simp
qed

theorem stored_name_matches_witness:
  "namecmp [97, 98, 0] (strncpy 0 [97, 98, 0, 99] DIRSIZ (replicate DIRSIZ 0)) = 0"
  using stored_name_matches[of "[97, 98, 0]" "[97, 98, 0, 99]"] by (simp add: cstr_def)

text \<open>The elements of a path: what is between slashes, leaving out empty pieces.\<close>

function path_elems :: "byte list \<Rightarrow> byte list list" where
  "path_elems [] = []"
| "path_elems (c # cs) =
     (if c = slash then path_elems cs
      else (c # takeWhile (\<lambda>x. x \<noteq> slash) cs) # path_elems (dropWhile (\<lambda>x. x \<noteq> slash) cs))"
  by pat_completeness auto
termination
  by (relation "measure length") (auto simp: le_imp_less_Suc length_dropWhile_le)

lemma path_elems_slashes: "path_elems (dropWhile (\<lambda>c. c = slash) p) = path_elems p"
  by (induction p) auto

lemma path_elems_start: "path_elems p = [] \<longleftrightarrow> dropWhile (\<lambda>c. c = slash) p = []"
  by (induction p) auto

text \<open>
  C25. \<open>skipelem\<close> splits a path as its specification says: it returns nothing just if the path has no element; otherwise the name
  buffer holds the first element, cut at 14 characters, the rest has exactly the remaining elements, is shorter than the
  path, and is empty if the element was the last one.
\<close>

theorem skipelem_next_element:
  assumes "length name = DIRSIZ" "0 \<notin> set path"
  shows "case path_elems path of
      [] \<Rightarrow> skipelem path name = None
    | e # es \<Rightarrow> \<exists>rest name'. skipelem path name = Some (rest, name') \<and> path_elems rest = es \<and> length name' = DIRSIZ \<and>
        take DIRSIZ (cstr name') = take DIRSIZ e \<and> length rest < length path \<and> (rest = [] \<longleftrightarrow> es = [])"
proof (cases "dropWhile (\<lambda>c. c = slash) path")
  case Nil
  then have "path_elems path = []" by (simp add: path_elems_start)
  then show ?thesis using Nil by (simp add: skipelem_def)
next
  case (Cons c cs)
  let ?e = "c # takeWhile (\<lambda>x. x \<noteq> slash) cs" and ?rest = "dropWhile (\<lambda>c. c = slash) (dropWhile (\<lambda>x. x \<noteq> slash) cs)"
  let ?name = "if length ?e \<ge> DIRSIZ then poke 0 (take DIRSIZ ?e) name else poke 0 (?e @ [0]) name"
  have c: "c \<noteq> slash" using hd_dropWhile[of "\<lambda>c. c = slash" path] Cons by simp
  have elems: "path_elems path = ?e # path_elems (dropWhile (\<lambda>x. x \<noteq> slash) cs)"
    using path_elems_slashes[of path] c unfolding Cons by simp
  have skip: "skipelem path name = Some (?rest, ?name)" using c by (simp add: skipelem_def Cons)
  have "set ?e \<subseteq> set path"
  proof -
    have "set (c # cs) \<subseteq> set path" using Cons by (metis set_dropWhileD subsetI)
    then show ?thesis by (auto dest: set_takeWhileD)
  qed
  then have nz: "0 \<notin> set ?e" using assms(2) by blast
  have len: "length ?name = DIRSIZ" using assms(1) by auto
  have "take DIRSIZ (cstr ?name) = take DIRSIZ ?e"
  proof (cases "length ?e \<ge> DIRSIZ")
    case True
    have "cstr (take DIRSIZ ?e) = take DIRSIZ ?e"
      using nz unfolding cstr_def by (intro takeWhile_eq_all_conv[THEN iffD2]) (auto dest: in_set_takeD simp del: take_Suc_Cons)
    with True assms(1) show ?thesis by (simp add: poke_def)
  next
    case False
    have "cstr (?e @ 0 # x) = ?e" for x using nz unfolding cstr_def by (subst takeWhile_append2) auto
    with False assms(1) show ?thesis by (simp add: poke_def)
  qed
  moreover have "path_elems ?rest = path_elems (dropWhile (\<lambda>x. x \<noteq> slash) cs)" by (rule path_elems_slashes)
  moreover have "?rest = [] \<longleftrightarrow> path_elems (dropWhile (\<lambda>x. x \<noteq> slash) cs) = []" by (simp add: path_elems_start)
  ultimately show ?thesis
    unfolding elems list.case using skip skipelem_shorter[OF skip] len by (intro exI[of _ ?rest] exI[of _ ?name]) simp
qed

theorem skipelem_next_element_witness:
  "\<exists>name'. skipelem [47, 97, 47, 47, 98, 98] (replicate 14 1) = Some ([98, 98], name') \<and> take DIRSIZ (cstr name') = [97]"
  using skipelem_next_element[of "replicate 14 1" "[47, 97, 47, 47, 98, 98]"] by (auto simp: DIRSIZ_def slash_def skipelem_def)

end
