(* ===== verification/Mkfs.thy ===== *)
theory Mkfs
  imports Posix_File Xv6_Names
begin

text \<open>
  The program that builds the disk image, \<open>xv6/tools/mkfs.c\<close>, with the globals of the source as its state. The host is little-endian. A
  call of \<open>exit(1)\<close> and a failed \<open>assert\<close> are outcomes \<open>Panic\<close>. The image is a host file of \<open>Posix_File\<close>; reading less than a sector,
  past its end, is the error that the code tests for. A directory tree of the host is the datatype \<open>hnode\<close>, in the order in which
  \<open>readdir_r\<close> delivers it; files that cannot be opened or stated and directories without a stream are constructors of their own. The
  host is otherwise taken to work: a seek or write on the image, \<open>readdir_r\<close>, \<open>dirfd\<close> and \<open>fchdir\<close> do not fail, so the calls of \<open>exit(1)\<close> behind
  those tests are left out.
\<close>

record mkfs_state =
  mk_fd :: open_file
  freeblock :: "32 word"
  usedblocks :: "32 word"
  bitblocks :: "32 word"
  freeinode :: "32 word"

definition xshort :: "16 word \<Rightarrow> 16 word" where
  "xshort x = rd16 [ucast x, ucast (drop_bit 8 x)]"

definition xint :: "32 word \<Rightarrow> 32 word" where
  "xint x = rd32 [ucast x, ucast (drop_bit 8 x), ucast (drop_bit 16 x), ucast (drop_bit 24 x)]"

definition wsect :: "32 word \<Rightarrow> byte list \<Rightarrow> (mkfs_state, unit) comp" where
  "wsect sec buf = modify (\<lambda>s. s\<lparr>mk_fd := fd_write buf (lseek (uint sec * 512) (mk_fd s))\<rparr>)"

definition rsect :: "32 word \<Rightarrow> (mkfs_state, byte list) comp" where
  "rsect sec = (\<lambda>s. let (got, f) = fd_read 512 (lseek (uint sec * 512) (mk_fd s))
                   in if length got \<noteq> 512 then Panic ''read'' else Ok (got, s\<lparr>mk_fd := f\<rparr>))"

definition i2b :: "32 word \<Rightarrow> 32 word" where
  "i2b inum = inum div of_nat IPB + 2"

definition winode :: "32 word \<Rightarrow> dinode \<Rightarrow> (mkfs_state, unit) comp" where
  "winode inum ip = andthen (rsect (i2b inum)) (\<lambda>buf. wsect (i2b inum) (put_dinode inum ip buf))"

definition rinode :: "32 word \<Rightarrow> (mkfs_state, dinode) comp" where
  "rinode inum = andthen (rsect (i2b inum)) (\<lambda>buf. ret (dinode_at inum buf))"

definition mk_ialloc :: "16 word \<Rightarrow> (mkfs_state, 32 word) comp" where
  "mk_ialloc type =
     andthen (gets freeinode) (\<lambda>inum.
     andthen (modify (\<lambda>s. s\<lparr>freeinode := freeinode s + 1\<rparr>)) (\<lambda>_.
     andthen (winode inum \<lparr>di_type = xshort type, di_major = 0, di_minor = 0, di_nlink = xshort 1, di_size = xint 0,
                           di_addrs = replicate 13 0\<rparr>) (\<lambda>_.
     ret inum)))"

definition mk_bitmap :: "nat \<Rightarrow> byte list" where
  "mk_bitmap n = fold (\<lambda>i buf. buf[i div 8 := buf ! (i div 8) OR push_bit (i mod 8) 1]) [0..<n] (replicate 512 0)"

definition mk_ninodes :: nat where "mk_ninodes = 200"

definition mk_balloc :: "int \<Rightarrow> (mkfs_state, unit) comp" where
  "mk_balloc n =
     andthen (check (n < 512 * 8) ''assert'') (\<lambda>_.
     wsect (of_nat (mk_ninodes div IPB + 3)) (mk_bitmap (nat n)))"

text \<open>\<open>freeblock++\<close> with the count of used blocks.\<close>

definition take_block :: "(mkfs_state, 32 word) comp" where
  "take_block =
     andthen (gets freeblock) (\<lambda>b.
     andthen (modify (\<lambda>s. s\<lparr>freeblock := freeblock s + 1, usedblocks := usedblocks s + 1\<rparr>)) (\<lambda>_. ret (xint b)))"

text \<open>The sector for block \<open>fbn\<close> of the file, and the inode after that.\<close>

definition iappend_block :: "nat \<Rightarrow> dinode \<Rightarrow> (mkfs_state, 32 word \<times> dinode) comp" where
  "iappend_block fbn din =
     (if fbn < NDIRECT then
        andthen (if xint (di_addrs din ! fbn) = 0
                 then andthen take_block (\<lambda>b. ret (din\<lparr>di_addrs := (di_addrs din)[fbn := b]\<rparr>)) else ret din) (\<lambda>din.
        ret (xint (di_addrs din ! fbn), din))
      else
        andthen (if xint (di_addrs din ! NDIRECT) = 0
                 then andthen take_block (\<lambda>b. ret (din\<lparr>di_addrs := (di_addrs din)[NDIRECT := b]\<rparr>)) else ret din) (\<lambda>din.
        andthen (rsect (xint (di_addrs din ! NDIRECT))) (\<lambda>ind.
        andthen (if get32 (fbn - NDIRECT) ind = 0 then
                   andthen take_block (\<lambda>b.
                   let ind' = put32 (fbn - NDIRECT) b ind
                   in andthen (wsect (xint (di_addrs din ! NDIRECT)) ind') (\<lambda>_. ret ind'))
                 else ret ind) (\<lambda>ind.
        ret (xint (get32 (fbn - NDIRECT) ind), din)))))"

function iappend_loop :: "32 word \<Rightarrow> byte list \<Rightarrow> dinode \<Rightarrow> (mkfs_state, 32 word \<times> dinode) comp" where
  "iappend_loop off p din =
     (if p = [] then ret (off, din)
      else
        let fbn = unat off div 512; n1 = min (length p) ((fbn + 1) * 512 - unat off)
        in andthen (check (fbn < MAXFILE) ''assert'') (\<lambda>_.
           andthen (iappend_block fbn din) (\<lambda>(x, din).
           andthen (rsect x) (\<lambda>buf.
           andthen (wsect x (poke (unat off - fbn * 512) (take n1 p) buf)) (\<lambda>_.
           iappend_loop (off + of_nat n1) (drop n1 p) din)))))"
  by pat_completeness auto
termination
proof (relation "measure (\<lambda>(off, p, din). length p)", goal_cases)
  case (2 off p din fbn n1)
  have "x < (x div 512 + 1) * 512" for x :: nat
    using dividend_less_div_times[of 512 x] zero_less_numeral by (simp only: distrib_right mult_1 add.commute)
  from this[of "unat off"] have "0 < (fbn + 1) * 512 - unat off" unfolding 2(2) by (rule zero_less_diff[THEN iffD2])
  moreover have "0 < length p" using 2(1) by simp
  ultimately have "0 < n1" unfolding 2(3) by (rule min_less_iff_conj[THEN iffD2, OF conjI, rotated])
  then show ?case using 2(1) by (simp only: in_measure split_conv length_drop) simp
qed simp

declare iappend_loop.simps [simp del]

definition iappend :: "32 word \<Rightarrow> byte list \<Rightarrow> (mkfs_state, unit) comp" where
  "iappend inum p =
     andthen (rinode inum) (\<lambda>din.
     andthen (iappend_loop (xint (di_size din)) p din) (\<lambda>(off, din).
     winode inum (din\<lparr>di_size := xint off\<rparr>)))"

section \<open>The initial image\<close>

definition enc_sb :: "superblock \<Rightarrow> byte list" where
  "enc_sb sb = le32 (sb_size sb) @ le32 (sb_nblocks sb) @ le32 (sb_ninodes sb)"

primrec zero_sectors :: "nat \<Rightarrow> nat \<Rightarrow> (mkfs_state, unit) comp" where
  "zero_sectors i 0 = ret ()"
| "zero_sectors i (Suc n) = andthen (wsect (of_nat i) (replicate 512 0)) (\<lambda>_. zero_sectors (Suc i) n)"

definition mkfs :: "nat \<Rightarrow> nat \<Rightarrow> nat \<Rightarrow> (mkfs_state, int) comp" where
  "mkfs nblocks ninodes sz =
     (let sb = \<lparr>sb_size = xint (of_nat sz), sb_nblocks = xint (of_nat nblocks), sb_ninodes = xint (of_nat ninodes)\<rparr>;
          bits = sz div (512 * 8) + 1; used = ninodes div IPB + 3 + bits
      in andthen (modify (\<lambda>s. s\<lparr>bitblocks := of_nat bits, usedblocks := of_nat used, freeblock := of_nat used\<rparr>)) (\<lambda>_.
         andthen (check (nblocks + used = sz) ''assert'') (\<lambda>_.
         andthen (zero_sectors 0 (nblocks + used)) (\<lambda>_.
         andthen (wsect 1 (poke 0 (enc_sb sb) (replicate 512 0))) (\<lambda>_. ret 0)))))"

section \<open>Directories of the host\<close>

datatype hnode = Unopened | Unstated | HFile "byte list" | HDir hdir | HNoStream
  and hdir = HEnd | HEntry "byte list" hnode hdir

text \<open>\<open>strncpy\<close> of the host into a field of \<open>n\<close> bytes; the entry that \<open>bzero\<close> and \<open>strcpy\<close> make.\<close>

definition host_strncpy :: "nat \<Rightarrow> byte list \<Rightarrow> byte list" where
  "host_strncpy n s = take n (s @ replicate n 0)"

definition mk_dirent :: "32 word \<Rightarrow> byte list \<Rightarrow> byte list" where
  "mk_dirent inum name = enc_dirent \<lparr>de_inum = xshort (ucast inum), de_name = host_strncpy DIRSIZ name\<rparr>"

definition dot_name :: "byte list" where "dot_name = [46]"
definition dotdot_name :: "byte list" where "dotdot_name = [46, 46]"

function append_chunks :: "32 word \<Rightarrow> byte list \<Rightarrow> (mkfs_state, unit) comp" where
  "append_chunks inum bs =
     (if bs = [] then ret () else andthen (iappend inum (take 512 bs)) (\<lambda>_. append_chunks inum (drop 512 bs)))"
  by pat_completeness auto
termination by (relation "measure (\<lambda>(inum, bs). length bs)") auto

declare append_chunks.simps [simp del]

text \<open>The two entries at the start of \<open>add_dir\<close>, and the size that it sets at its end.\<close>

definition add_dots :: "32 word \<Rightarrow> 32 word \<Rightarrow> (mkfs_state, unit) comp" where
  "add_dots cur parent =
     andthen (iappend cur (mk_dirent cur dot_name)) (\<lambda>_. iappend cur (mk_dirent parent dotdot_name))"

definition fix_size :: "32 word \<Rightarrow> (mkfs_state, unit) comp" where
  "fix_size cur =
     andthen (rinode cur) (\<lambda>din.
     winode cur (din\<lparr>di_size := xint ((xint (di_size din) div of_nat BSIZE + 1) * of_nat BSIZE)\<rparr>))"

text \<open>
  \<open>add_dir\<close>; its loop is \<open>add_entries\<close>, whose result is -1 where the source returns from inside the loop. A directory without a stream
  (the result of \<open>fdopendir\<close> is a null pointer) gets its two entries only.
\<close>

primrec add_node :: "hnode \<Rightarrow> 32 word \<Rightarrow> (mkfs_state, int \<times> 32 word) comp"
  and add_entries :: "hdir \<Rightarrow> 32 word \<Rightarrow> (mkfs_state, int) comp" where
  "add_node Unopened cur = ret (-1, 0)"
| "add_node Unstated cur = ret (-1, 0)"
| "add_node (HFile bs) cur =
     andthen (mk_ialloc T_FILE) (\<lambda>child. andthen (append_chunks child bs) (\<lambda>_. ret (0, child)))"
| "add_node HNoStream cur =
     andthen (mk_ialloc T_DIR) (\<lambda>child. andthen (add_dots child cur) (\<lambda>_. ret (0, child)))"
| "add_node (HDir d) cur =
     andthen (mk_ialloc T_DIR) (\<lambda>child.
     andthen (add_dots child cur) (\<lambda>_.
     andthen (add_entries d child) (\<lambda>r.
     if r \<noteq> 0 then ret (r, child) else andthen (fix_size child) (\<lambda>_. ret (0, child)))))"
| "add_entries HEnd cur = ret 0"
| "add_entries (HEntry name h d) cur =
     (if name = dot_name \<or> name = dotdot_name then add_entries d cur
      else
        andthen (add_node h cur) (\<lambda>(r, child).
        if r \<noteq> 0 then ret r
        else andthen (iappend cur (mk_dirent child name)) (\<lambda>_. add_entries d cur)))"

definition add_dir :: "hdir option \<Rightarrow> 32 word \<Rightarrow> 32 word \<Rightarrow> (mkfs_state, int) comp" where
  "add_dir dir cur parent =
     andthen (add_dots cur parent) (\<lambda>_.
     case dir of
       None \<Rightarrow> ret 0
     | Some d \<Rightarrow> andthen (add_entries d cur) (\<lambda>r. if r \<noteq> 0 then ret r else andthen (fix_size cur) (\<lambda>_. ret 0)))"

text \<open>\<open>main\<close> after the image file has been opened and truncated.\<close>

definition mkfs_start :: mkfs_state where
  "mkfs_start = \<lparr>mk_fd = \<lparr>content = [], offset = 0\<rparr>, freeblock = 0, usedblocks = 0, bitblocks = 0, freeinode = 1\<rparr>"

definition mkfs_main :: "hdir option \<Rightarrow> (mkfs_state, unit) comp" where
  "mkfs_main root =
     andthen (mkfs 995 200 1024) (\<lambda>_.
     andthen (mk_ialloc T_DIR) (\<lambda>root_inode.
     andthen (check (root_inode = ROOTINO) ''assert'') (\<lambda>_.
     andthen (add_dir root root_inode root_inode) (\<lambda>r.
     andthen (check (r = 0) ''exit'') (\<lambda>_.
     andthen (gets usedblocks) (\<lambda>n. mk_balloc (sint n)))))))"

end
