(* ===== verification/Mkfs_Image.thy ===== *)
theory Mkfs_Image
  imports Mkfs Xv6_Read
begin

text \<open>
  What \<open>iappend\<close> of \<open>mkfs.c\<close> does to the image, in the kernel's terms. A state is described by its sectors; a file by its inode and its
  length, with the blocks that it owns. One round of the loop allocates what is missing and writes one piece of a block.
\<close>

section \<open>Sectors\<close>

definition sect :: "mkfs_state \<Rightarrow> 32 word \<Rightarrow> byte list" where
  "sect s b = peek (512 * unat b) 512 (content (mk_fd s))"

definition nsect :: "mkfs_state \<Rightarrow> nat" where
  "nsect s = length (content (mk_fd s)) div 512"

text \<open>The sectors become \<open>D\<close> and the first free block \<open>f\<close>; the image keeps its size.\<close>

definition img_to :: "(32 word \<Rightarrow> byte list) \<Rightarrow> 32 word \<Rightarrow> mkfs_state \<Rightarrow> mkfs_state \<Rightarrow> bool" where
  "img_to D f s t \<longleftrightarrow> sect t = D \<and> freeblock t = f \<and> usedblocks t = usedblocks s + (f - freeblock s) \<and> freeinode t = freeinode s \<and>
     nsect t = nsect s"

lemma img_to_trans: "img_to D f s t \<Longrightarrow> img_to E g t r \<Longrightarrow> img_to E g s r"
  by (simp add: img_to_def)

lemma img_to_refl: "img_to (sect s) (freeblock s) s s"
  by (simp add: img_to_def)

lemma img_toD: "img_to D f s t \<Longrightarrow> sect t = D" "img_to D f s t \<Longrightarrow> freeblock t = f" "img_to D f s t \<Longrightarrow> nsect t = nsect s"
  by (simp_all add: img_to_def)

lemma sector_room: "unat b < nsect s \<Longrightarrow> 512 * unat b + 512 \<le> length (content (mk_fd s))"
proof -
  assume "unat b < nsect s"
  then have "512 * Suc (unat b) \<le> 512 * (length (content (mk_fd s)) div 512)" unfolding nsect_def by (intro mult_le_mono2) simp
  also have "\<dots> \<le> length (content (mk_fd s))" by (metis div_times_less_eq_dividend mult.commute)
  finally show ?thesis by simp
qed

lemma length_sect: "unat b < nsect s \<Longrightarrow> length (sect s b) = 512"
  using sector_room[of b s] by (simp add: sect_def)

lemma seek_pos: "nat (uint b * 512) = 512 * unat b" "0 \<le> uint b * 512"
  by (simp_all add: nat_mult_distrib)

lemma rsect_inside:
  assumes "unat b < nsect s"
  obtains t where "rsect b s = Ok (sect s b, t)" "img_to (sect s) (freeblock s) s t"
proof -
  let ?t = "s\<lparr>mk_fd := snd (fd_read 512 (lseek (uint b * 512) (mk_fd s)))\<rparr>"
  have "rsect b s = Ok (sect s b, ?t)"
    using length_sect[OF assms] seek_pos[of b] by (simp add: rsect_def fd_read_def sect_def Let_def)
  moreover have "img_to (sect s) (freeblock s) s ?t" by (auto simp: img_to_def sect_def nsect_def fun_eq_iff fd_read_def Let_def)
  ultimately show thesis by (rule that)
qed

lemma wsect_inside:
  assumes "unat b < nsect s" "length buf = 512"
  obtains t where "wsect b buf s = Ok ((), t)" "img_to ((sect s)(b := buf)) (freeblock s) s t"
proof -
  let ?f = "lseek (uint b * 512) (mk_fd s)"
  have off: "offset ?f = 512 * unat b" "content ?f = content (mk_fd s)" using seek_pos[of b] by simp_all
  have room: "512 * unat b + 512 \<le> length (content (mk_fd s))" using sector_room[OF assms(1)] .
  have "peek (512 * unat a) 512 (content (fd_write buf ?f)) = (if a = b then buf else peek (512 * unat a) 512 (content (mk_fd s)))" for a
  proof (cases "a = b")
    case True
    then show ?thesis using peek_fd_write_same[of 512 buf ?f] assms(2) off by simp
  next
    case False
    then have "unat a \<noteq> unat b" by (simp add: unat_same)
    then have "512 * unat a + 512 \<le> 512 * unat b \<or> 512 * unat b + 512 \<le> 512 * unat a" by linarith
    then show ?thesis using False off assms(2) room by (auto simp: fd_write_def peek_poke_before peek_poke_after)
  qed
  then have "sect (s\<lparr>mk_fd := fd_write buf ?f\<rparr>) = (sect s)(b := buf)" by (simp add: sect_def fun_eq_iff)
  moreover have "length (content (fd_write buf ?f)) = length (content (mk_fd s))" using off room assms(2) by simp
  ultimately have "img_to ((sect s)(b := buf)) (freeblock s) s (s\<lparr>mk_fd := fd_write buf ?f\<rparr>)" by (simp add: img_to_def nsect_def)
  then show thesis by (intro that) (simp_all add: wsect_def)
qed

lemma xint_id [simp]: "xint x = x" "xshort y = y"
  using rd32_le32[of x] rd16_le16[of y] by (simp_all add: xint_def xshort_def le32_def le16_def)

lemma take_block_val [simp]:
  "take_block s = Ok (freeblock s, s\<lparr>freeblock := freeblock s + 1, usedblocks := usedblocks s + 1\<rparr>)"
  by (simp add: take_block_def)

lemma andthen_take_block [simp]:
  "andthen take_block f s = f (freeblock s) (s\<lparr>freeblock := freeblock s + 1, usedblocks := usedblocks s + 1\<rparr>)"
  by (simp add: andthen_Ok)

lemma take_block_img: "img_to (sect s) (freeblock s + 1) s (s\<lparr>freeblock := freeblock s + 1, usedblocks := usedblocks s + 1\<rparr>)"
  by (simp add: img_to_def sect_def nsect_def fun_eq_iff)

section \<open>Files\<close>

text \<open>The address of block \<open>k\<close>; the number of blocks and of sectors of a file of \<open>n\<close> bytes.\<close>

definition waddr :: "(32 word \<Rightarrow> byte list) \<Rightarrow> dinode \<Rightarrow> nat \<Rightarrow> 32 word" where
  "waddr D d k = (if k < NDIRECT then di_addrs d ! k else get32 (k - NDIRECT) (D (di_addrs d ! NDIRECT)))"

definition nblk :: "nat \<Rightarrow> nat" where
  "nblk n = (n + 511) div 512"

definition cost :: "nat \<Rightarrow> nat" where
  "cost n = nblk n + (if NDIRECT < nblk n then 1 else 0)"

definition owned :: "(32 word \<Rightarrow> byte list) \<Rightarrow> dinode \<Rightarrow> nat \<Rightarrow> 32 word set" where
  "owned D d m = waddr D d ` {..<m} \<union> (if NDIRECT < m then {di_addrs d ! NDIRECT} else {})"

text \<open>The inode \<open>d\<close> has exactly its first \<open>m\<close> blocks, all different.\<close>

definition has_blocks :: "(32 word \<Rightarrow> byte list) \<Rightarrow> dinode \<Rightarrow> nat \<Rightarrow> bool" where
  "has_blocks D d m \<longleftrightarrow> length (di_addrs d) = 13 \<and> m \<le> MAXFILE \<and> (\<forall>k < MAXFILE. waddr D d k = 0 \<longleftrightarrow> m \<le> k) \<and>
     (di_addrs d ! NDIRECT = 0 \<longleftrightarrow> m \<le> NDIRECT) \<and> inj_on (waddr D d) {..<m} \<and> (NDIRECT < m \<longrightarrow> di_addrs d ! NDIRECT \<notin> waddr D d ` {..<m})"

text \<open>Sector 0 and the sectors from \<open>f\<close> on are empty; the file's blocks lie before \<open>f\<close>.\<close>

definition fresh_from :: "(32 word \<Rightarrow> byte list) \<Rightarrow> 32 word \<Rightarrow> nat \<Rightarrow> bool" where
  "fresh_from D f n \<longleftrightarrow> D 0 = replicate 512 0 \<and> 0 < f \<and> n < 2 ^ 31 \<and> (\<forall>b. f \<le> b \<and> unat b < n \<longrightarrow> D b = replicate 512 0) \<and>
     (\<forall>b. unat b < n \<longrightarrow> length (D b) = 512)"

lemma get32_zeros: "4 * k + 4 \<le> n \<Longrightarrow> get32 k (replicate n 0) = 0"
  by (simp add: get32_def peek_def rd32_def)

lemma has_blocksD:
  assumes "has_blocks D d m"
  shows "length (di_addrs d) = 13" "m \<le> MAXFILE" "k < MAXFILE \<Longrightarrow> waddr D d k = 0 \<longleftrightarrow> m \<le> k" "di_addrs d ! NDIRECT = 0 \<longleftrightarrow> m \<le> NDIRECT"
    "inj_on (waddr D d) {..<m}" "NDIRECT < m \<Longrightarrow> di_addrs d ! NDIRECT \<notin> waddr D d ` {..<m}"
  using assms unfolding has_blocks_def by blast+

lemma ind_bound: "k < MAXFILE \<Longrightarrow> \<not> k < NDIRECT \<Longrightarrow> 4 * (k - NDIRECT) + 4 \<le> 512"
  by (simp add: MAXFILE_def NINDIRECT_def BSIZE_def NDIRECT_def)

text \<open>
  One more block at address \<open>x\<close>: any change of sectors and addresses that gives block \<open>m\<close> the address \<open>x\<close> and keeps the others.
\<close>

lemma has_blocks_Suc:
  assumes "has_blocks D d m" "m < MAXFILE" "x \<noteq> 0" "x \<notin> owned D d m"
    and "\<And>k. k < MAXFILE \<Longrightarrow> waddr E e k = (if k = m then x else waddr D d k)" "length (di_addrs e) = 13"
    and "di_addrs e ! NDIRECT = 0 \<longleftrightarrow> m < NDIRECT"
    and "NDIRECT \<le> m \<Longrightarrow> di_addrs e ! NDIRECT \<noteq> x" "NDIRECT = m \<Longrightarrow> di_addrs e ! NDIRECT \<notin> owned D d m"
      "NDIRECT < m \<Longrightarrow> di_addrs e ! NDIRECT = di_addrs d ! NDIRECT"
  shows "has_blocks E e (Suc m)" "owned E e (Suc m) = owned D d m \<union> insert x (if m = NDIRECT then {di_addrs e ! NDIRECT} else {})"
proof -
  note h = has_blocksD[OF assms(1)]
  have old: "waddr E e k = waddr D d k" if "k < m" for k using assms(5)[of k] that assms(2) by simp
  then have same: "waddr E e ` {..<m} = waddr D d ` {..<m}" by auto
  have img: "waddr E e ` {..<Suc m} = insert x (waddr D d ` {..<m})"
    using assms(5)[OF assms(2)] same by (simp add: lessThan_Suc)
  have notin: "x \<notin> waddr D d ` {..<m}" using assms(4) by (simp add: owned_def)
  have "inj_on (waddr E e) {..<Suc m}"
  proof -
    have "inj_on (waddr E e) {..<m} = inj_on (waddr D d) {..<m}" by (rule inj_on_cong) (simp add: old)
    moreover have "waddr E e m \<notin> waddr E e ` ({..<m} - {m})" using notin assms(5)[OF assms(2)] same by simp
    ultimately show ?thesis using h(5) by (simp add: lessThan_Suc)
  qed
  moreover have "\<forall>k < MAXFILE. waddr E e k = 0 \<longleftrightarrow> Suc m \<le> k" using assms(3,5) h(3) by auto
  moreover have "NDIRECT < Suc m \<longrightarrow> di_addrs e ! NDIRECT \<notin> waddr E e ` {..<Suc m}"
    using assms(8-10) h(6) unfolding img owned_def by (cases "NDIRECT = m") auto
  ultimately show "has_blocks E e (Suc m)" unfolding has_blocks_def using assms(2,6,7) by auto
  show "owned E e (Suc m) = owned D d m \<union> insert x (if m = NDIRECT then {di_addrs e ! NDIRECT} else {})"
    unfolding owned_def img using assms(10) by auto
qed

text \<open>Sectors that keep the addresses: changes outside the indirect block.\<close>

lemma has_blocks_keep:
  assumes "has_blocks D d m" "D (di_addrs d ! NDIRECT) = E (di_addrs d ! NDIRECT)"
  shows "has_blocks E d m" "owned E d m = owned D d m" "waddr E d = waddr D d"
proof -
  show w: "waddr E d = waddr D d" using assms(2) by (simp add: waddr_def fun_eq_iff)
  show "has_blocks E d m" "owned E d m = owned D d m" using assms(1) unfolding has_blocks_def owned_def w by blast+
qed

section \<open>The sector for the next piece\<close>

lemma less_Suc_word: "unat f < n \<Longrightarrow> n < 2 ^ 31 \<Longrightarrow> unat (f + 1 :: 32 word) = unat f + 1"
  by (simp add: unat_word_ariths)

lemma owned_mem: "k < m \<Longrightarrow> waddr D d k \<in> owned D d m" "NDIRECT < m \<Longrightarrow> di_addrs d ! NDIRECT \<in> owned D d m"
  by (auto simp: owned_def)

text \<open>A block that is there already.\<close>

lemma iappend_block_old:
  assumes "has_blocks (sect s) d m" "k < m" "\<And>b. b \<in> owned (sect s) d m \<Longrightarrow> unat b < nsect s"
  obtains t where "iappend_block k d s = Ok ((waddr (sect s) d k, d), t)" "img_to (sect s) (freeblock s) s t"
proof -
  note h = has_blocksD[OF assms(1)]
  have k: "k < MAXFILE" "waddr (sect s) d k \<noteq> 0" using h(2) h(3)[of k] assms(2) by auto
  show thesis
  proof (cases "k < NDIRECT")
    case True
    then have "iappend_block k d s = Ok ((waddr (sect s) d k, d), s)" using k by (simp add: iappend_block_def waddr_def)
    then show thesis using img_to_refl by (rule that)
  next
    case False
    then have nz: "di_addrs d ! NDIRECT \<noteq> 0" "unat (di_addrs d ! NDIRECT) < nsect s" using h(4) assms(2) assms(3)[OF owned_mem(2)] by auto
    obtain t where t: "rsect (di_addrs d ! NDIRECT) s = Ok (sect s (di_addrs d ! NDIRECT), t)" "img_to (sect s) (freeblock s) s t"
      using rsect_inside[OF nz(2)] .
    have "iappend_block k d s = Ok ((waddr (sect s) d k, d), t)"
      using False nz(1) t(1) k by (simp add: iappend_block_def waddr_def andthen_Ok)
    then show thesis using t(2) by (rule that)
  qed
qed

text \<open>The next block: at the first free sector, after the indirect block if that is new too.\<close>

lemma iappend_block_new:
  assumes "has_blocks (sect s) d m" "m < MAXFILE" "\<And>b. b \<in> owned (sect s) d m \<Longrightarrow> b < freeblock s"
    "fresh_from (sect s) (freeblock s) (nsect s)" "unat (freeblock s) + (if m = NDIRECT then 2 else 1) \<le> nsect s"
  obtains x e t E where "iappend_block m d s = Ok ((x, e), t)" "img_to E (freeblock s + (if m = NDIRECT then 2 else 1)) s t"
    "has_blocks E e (Suc m)" "x = waddr E e m" "\<And>k. k < m \<Longrightarrow> waddr E e k = waddr (sect s) d k"
    "owned E e (Suc m) = owned (sect s) d m \<union> {b. freeblock s \<le> b \<and> b < freeblock s + (if m = NDIRECT then 2 else 1)}"
    "\<And>b. b \<noteq> di_addrs e ! NDIRECT \<Longrightarrow> E b = sect s b" "freeblock s \<le> x" "NDIRECT < Suc m \<Longrightarrow> di_addrs e ! NDIRECT \<in> owned E e (Suc m)"
    "\<exists>as. e = d\<lparr>di_addrs := as\<rparr>" "\<And>b. unat b < nsect s \<Longrightarrow> length (E b) = 512" "m < NDIRECT \<Longrightarrow> E = sect s"
proof -
  let ?f = "freeblock s" and ?D = "sect s"
  note h = has_blocksD[OF assms(1)]
  have fr: "?D 0 = replicate 512 0" "0 < ?f" "nsect s < 2 ^ 31" "\<And>b. ?f \<le> b \<Longrightarrow> unat b < nsect s \<Longrightarrow> ?D b = replicate 512 0"
    "\<And>b. unat b < nsect s \<Longrightarrow> length (?D b) = 512"
    using assms(4) unfolding fresh_from_def by blast+
  have f1: "unat ?f < nsect s" using assms(5) by (auto split: if_splits)
  have fx: "?f \<noteq> 0" "?f \<notin> owned ?D d m" using fr(2) assms(3) by auto
  have m0: "waddr ?D d m = 0" using h(3)[OF assms(2)] by simp
  have one: "{b. ?f \<le> b \<and> b < ?f + 1} = {?f}"
    using less_Suc_word[OF f1 fr(3)] by (auto simp: word_le_nat_alt word_less_nat_alt unat_same[symmetric])
  consider (direct) "m < NDIRECT" | (first) "m = NDIRECT" | (later) "NDIRECT < m" by linarith
  then show thesis
  proof cases
    case direct
    define e where "e = d\<lparr>di_addrs := (di_addrs d)[m := ?f]\<rparr>"
    have w: "waddr ?D e k = (if k = m then ?f else waddr ?D d k)" if "k < MAXFILE" for k
      using direct h(1) by (auto simp: waddr_def e_def NDIRECT_def)
    have ind: "di_addrs e ! NDIRECT = di_addrs d ! NDIRECT" using direct by (simp add: e_def)
    note hs = has_blocks_Suc[OF assms(1,2) fx w]
    have "has_blocks ?D e (Suc m)" by (rule hs(1)) (use direct h(1,4) ind in \<open>simp_all add: e_def\<close>)
    moreover have "owned ?D e (Suc m) = owned ?D d m \<union> insert ?f (if m = NDIRECT then {di_addrs e ! NDIRECT} else {})"
      by (rule hs(2)) (use direct h(1,4) ind in \<open>simp_all add: e_def\<close>)
    moreover have "iappend_block m d s = Ok ((?f, e), s\<lparr>freeblock := ?f + 1, usedblocks := usedblocks s + 1\<rparr>)"
      using direct m0 h(1) by (simp add: iappend_block_def waddr_def e_def andthen_Ok NDIRECT_def)
    ultimately show thesis using direct one w assms(2) take_block_img[of s] fr(5)
      by (intro that[of ?f e _ ?D]) (auto simp: e_def)
  next
    case first
    define g where "g = ?f + 1"
    define e where "e = d\<lparr>di_addrs := (di_addrs d)[NDIRECT := ?f]\<rparr>"
    define E where "E = ?D(?f := put32 0 g (?D ?f))"
    have ind: "di_addrs e ! NDIRECT = ?f" using h(1) by (simp add: e_def NDIRECT_def)
    have g: "unat g = unat ?f + 1" using less_Suc_word[OF f1 fr(3)] by (simp add: g_def)
    then have g1: "unat g < nsect s" "?f < g" "g \<noteq> ?f" using assms(5) first by (auto simp: word_less_nat_alt)
    have gx: "g \<noteq> 0" "g \<notin> owned ?D d m" using g1(2) assms(3) by (auto dest: less_trans)
    have z: "?D ?f = replicate 512 0" using fr(4)[OF _ f1] by simp
    have w: "waddr E e k = (if k = m then g else waddr ?D d k)" if "k < MAXFILE" for k
    proof (cases "k < NDIRECT")
      case False
      then have "get32 (k - NDIRECT) (E ?f) = (if k - NDIRECT = 0 then g else 0)"
        using ind_bound[OF that False] by (simp add: E_def z get32_put32 get32_zeros)
      moreover have "waddr ?D d k = 0" using h(3)[OF that] first False by simp
      ultimately show ?thesis using False first ind by (auto simp: waddr_def)
    qed (use first in \<open>auto simp: waddr_def e_def\<close>)
    note hs = has_blocks_Suc[OF assms(1,2) gx w]
    have "has_blocks E e (Suc m)" by (rule hs(1)) (use first h(1) ind fx g1(3) in \<open>simp_all add: e_def\<close>)
    moreover have "owned E e (Suc m) = owned ?D d m \<union> insert g (if m = NDIRECT then {di_addrs e ! NDIRECT} else {})"
      by (rule hs(2)) (use first h(1) ind fx g1(3) in \<open>simp_all add: e_def\<close>)
    moreover have two: "{b. ?f \<le> b \<and> b < ?f + 2} = {g, ?f}"
    proof -
      have "unat (?f + 2) = unat ?f + 2" using less_Suc_word[of g "nsect s"] g g1(1) fr(3) by (simp add: g_def add.assoc)
      then show ?thesis using g by (auto simp: word_le_nat_alt word_less_nat_alt unat_same[symmetric])
    qed
    moreover obtain t where t: "iappend_block m d s = Ok ((g, e), t)" "img_to E (?f + 2) s t"
    proof -
      define s1 where "s1 = s\<lparr>freeblock := ?f + 1, usedblocks := usedblocks s + 1\<rparr>"
      have s1: "img_to ?D g s s1" using take_block_img[of s] by (simp add: s1_def g_def)
      obtain t1 where t1: "rsect ?f s1 = Ok (?D ?f, t1)" "img_to ?D g s1 t1"
        using rsect_inside[of ?f s1] f1 img_toD[OF s1] by auto
      define t2 where "t2 = t1\<lparr>freeblock := freeblock t1 + 1, usedblocks := usedblocks t1 + 1\<rparr>"
      have t2e: "t1\<lparr>freeblock := g + 1, usedblocks := usedblocks t1 + 1\<rparr> = t2" using img_toD(2)[OF t1(2)] by (simp add: t2_def)
      have t2: "img_to ?D (g + 1) t1 t2" using take_block_img[of t1] img_toD[OF t1(2)] by (simp add: t2_def)
      have len: "length (put32 0 g (?D ?f)) = 512" by (simp add: z)
      obtain t where t: "wsect ?f (put32 0 g (?D ?f)) t2 = Ok ((), t)" "img_to E (g + 1) t2 t"
        using wsect_inside[of ?f t2, OF _ len] f1 img_toD[OF s1] img_toD[OF t1(2)] img_toD[OF t2] unfolding E_def by auto
      have "iappend_block m d s = Ok ((g, e), t)"
        using first t1(1) t(1) h(1,4) ind z img_toD(2)[OF t1(2)]
        by (simp add: iappend_block_def andthen_Ok e_def[symmetric] s1_def[symmetric] t2e get32_zeros get32_put32 andthen_assoc Let_def)
      moreover have "img_to E (?f + 2) s t"
        using img_to_trans[OF s1 img_to_trans[OF t1(2) img_to_trans[OF t2 t(2)]]] by (simp add: g_def add.assoc)
      ultimately show thesis by (rule that)
    qed
    ultimately show thesis using first w assms(2) fr(5) g1 ind
      by (intro that[of g e t E]) (auto simp: E_def e_def)
  next
    case later
    define a where "a = di_addrs d ! NDIRECT"
    define E where "E = ?D(a := put32 (m - NDIRECT) ?f (?D a))"
    have a: "a \<noteq> 0" "unat a < nsect s" "a \<noteq> ?f"
      using later h(4) assms(3)[OF owned_mem(2)] f1 by (auto simp: a_def word_less_nat_alt)
    have w: "waddr E d k = (if k = m then ?f else waddr ?D d k)" if "k < MAXFILE" for k
    proof (cases "k < NDIRECT")
      case False
      then show ?thesis using ind_bound[OF that False] ind_bound[OF assms(2)] later fr(5)[OF a(2)]
        by (auto simp: waddr_def a_def[symmetric] E_def get32_put32)
    qed (use later in \<open>auto simp: waddr_def\<close>)
    note hs = has_blocks_Suc[OF assms(1,2) fx w]
    have "has_blocks E d (Suc m)" by (rule hs(1)) (use later h(1) a in \<open>simp_all add: a_def\<close>)
    moreover have "owned E d (Suc m) = owned ?D d m \<union> insert ?f (if m = NDIRECT then {di_addrs d ! NDIRECT} else {})"
      by (rule hs(2)) (use later h(1) a in \<open>simp_all add: a_def\<close>)
    moreover obtain t where t: "iappend_block m d s = Ok ((?f, d), t)" "img_to E (?f + 1) s t"
    proof -
      obtain t1 where t1: "rsect a s = Ok (?D a, t1)" "img_to ?D ?f s t1" using rsect_inside[OF a(2)] .
      define t2 where "t2 = t1\<lparr>freeblock := freeblock t1 + 1, usedblocks := usedblocks t1 + 1\<rparr>"
      have t2e: "t1\<lparr>freeblock := ?f + 1, usedblocks := usedblocks t1 + 1\<rparr> = t2" using img_toD(2)[OF t1(2)] by (simp add: t2_def)
      have t2: "img_to ?D (?f + 1) t1 t2" using take_block_img[of t1] img_toD[OF t1(2)] by (simp add: t2_def)
      have bd: "4 * (m - NDIRECT) + 4 \<le> length (?D a)" using ind_bound[OF assms(2)] later fr(5)[OF a(2)] by simp
      then have len: "length (put32 (m - NDIRECT) ?f (?D a)) = 512" using fr(5)[OF a(2)] by simp
      obtain t where t: "wsect a (put32 (m - NDIRECT) ?f (?D a)) t2 = Ok ((), t)" "img_to E (?f + 1) t2 t"
        using wsect_inside[of a t2, OF _ len] a(2) img_toD[OF t1(2)] img_toD[OF t2] unfolding E_def by auto
      have "get32 (m - NDIRECT) (?D a) = 0" using m0 later by (simp add: waddr_def a_def)
      then have "iappend_block m d s = Ok ((?f, d), t)"
        using later t1(1) t(1) a(1) bd img_toD(2)[OF t1(2)]
        by (simp add: iappend_block_def andthen_Ok a_def[symmetric] t2e get32_put32 andthen_assoc Let_def)
      moreover have "img_to E (?f + 1) s t" using img_to_trans[OF t1(2) img_to_trans[OF t2 t(2)]] .
      ultimately show thesis by (rule that)
    qed
    moreover have "\<exists>as. d = d\<lparr>di_addrs := as\<rparr>" by (rule exI[of _ "di_addrs d"]) simp
    ultimately show thesis using later w assms(2) fr(5) one owned_mem(2)[of m d ?D] ind_bound[OF assms(2)] a(2)
      by (intro that[of ?f d t E]) (auto simp: E_def a_def)
  qed
qed

section \<open>Appending\<close>

definition fbytes :: "(32 word \<Rightarrow> byte list) \<Rightarrow> dinode \<Rightarrow> nat \<Rightarrow> byte list" where
  "fbytes D d n = map (\<lambda>j. D (waddr D d (j div 512)) ! (j mod 512)) [0..<n]"

text \<open>
  The file of \<open>n\<close> bytes with inode \<open>d\<close> on sectors \<open>D\<close> has become one of \<open>n + length p\<close> bytes with inode \<open>e\<close> on sectors \<open>E\<close>, and the
  first free block has moved from \<open>f\<close> to \<open>g\<close>.
\<close>

definition appended :: "(32 word \<Rightarrow> byte list) \<Rightarrow> 32 word \<Rightarrow> dinode \<Rightarrow> nat \<Rightarrow> byte list \<Rightarrow> (32 word \<Rightarrow> byte list) \<Rightarrow> 32 word \<Rightarrow> dinode \<Rightarrow> bool" where
  "appended D f d n p E g e \<longleftrightarrow> has_blocks E e (nblk (n + length p)) \<and> fbytes E e (n + length p) = fbytes D d n @ p \<and>
     owned E e (nblk (n + length p)) = owned D d (nblk n) \<union> {b. f \<le> b \<and> b < g} \<and>
     (\<forall>b. b \<notin> owned E e (nblk (n + length p)) \<longrightarrow> E b = D b) \<and> unat g + cost n = unat f + cost (n + length p) \<and>
     (\<exists>as. e = d\<lparr>di_addrs := as\<rparr>)"

lemma nblk_split: "r < 512 \<Longrightarrow> nblk (q * 512 + r) = q + (if r = 0 then 0 else 1)"
proof -
  assume r: "r < 512"
  have "(r + 511) div 512 = (if r = 0 then 0 else 1)" using r by (auto intro: div_nat_eqI)
  moreover have "(q * 512 + (r + 511)) div 512 = q + (r + 511) div 512" by (rule div_mult_self3) simp
  ultimately show ?thesis by (simp add: nblk_def add.assoc)
qed

lemma nblk_mod: "nblk n = n div 512 + (if n mod 512 = 0 then 0 else 1)"
  using nblk_split[of "n mod 512" "n div 512"] by simp

lemma nblk_mono: "m \<le> n \<Longrightarrow> nblk m \<le> nblk n"
  by (simp add: nblk_def div_le_mono)

lemma cost_mono: "m \<le> n \<Longrightarrow> cost m \<le> cost n"
  using nblk_mono[of m n] by (auto simp: cost_def)

lemma nblk_piece:
  assumes "0 < k" "n mod 512 + k \<le> 512"
  shows "nblk (n + k) = Suc (n div 512)"
proof (cases "n mod 512 + k = 512")
  case True
  then have "n + k = Suc (n div 512) * 512 + 0" using div_mult_mod_eq[of n 512] by (simp only: mult_Suc)
  then show ?thesis using nblk_split[of 0 "Suc (n div 512)"] by simp
next
  case False
  have "n + k = n div 512 * 512 + (n mod 512 + k)" by (simp only: add.assoc[symmetric] div_mult_mod_eq)
  then show ?thesis using nblk_split[of "n mod 512 + k" "n div 512"] False assms by simp
qed

lemma appendedD:
  assumes "appended D f d n p E g e"
  shows "has_blocks E e (nblk (n + length p))" "fbytes E e (n + length p) = fbytes D d n @ p"
    "owned E e (nblk (n + length p)) = owned D d (nblk n) \<union> {b. f \<le> b \<and> b < g}" "b \<notin> owned E e (nblk (n + length p)) \<Longrightarrow> E b = D b"
    "unat g + cost n = unat f + cost (n + length p)" "\<exists>as. e = d\<lparr>di_addrs := as\<rparr>" "f \<le> g"
proof -
  show "has_blocks E e (nblk (n + length p))" "fbytes E e (n + length p) = fbytes D d n @ p"
    "owned E e (nblk (n + length p)) = owned D d (nblk n) \<union> {b. f \<le> b \<and> b < g}" "b \<notin> owned E e (nblk (n + length p)) \<Longrightarrow> E b = D b"
    "\<exists>as. e = d\<lparr>di_addrs := as\<rparr>"
    using assms unfolding appended_def by blast+
  show c: "unat g + cost n = unat f + cost (n + length p)" using assms unfolding appended_def by blast
  then show "f \<le> g" using cost_mono[of n "n + length p"] by (simp add: word_le_nat_alt)
qed

lemma appended_refl: "has_blocks D d (nblk n) \<Longrightarrow> appended D f d n [] D f d"
  by (auto simp: appended_def intro: exI[of _ "di_addrs d"])

lemma appended_trans:
  assumes "appended D f d n p E g e" "appended E g e (n + length p) q H h k"
  shows "appended D f d n (p @ q) H h k"
proof -
  note 1 = appendedD[OF assms(1)] and 2 = appendedD[OF assms(2)]
  have "{b. f \<le> b \<and> b < g} \<union> {b. g \<le> b \<and> b < h} = {b. f \<le> b \<and> b < h}"
    using 1(7) 2(7) by (auto dest: order_trans less_le_trans)
  then have own: "owned H k (nblk (n + length p + length q)) = owned D d (nblk n) \<union> {b. f \<le> b \<and> b < h}" using 1(3) 2(3) by blast
  have "H b = D b" if "b \<notin> owned H k (nblk (n + length p + length q))" for b
    using that 1(4)[of b] 2(3) 2(4)[of b] by auto
  moreover have "\<exists>as. k = d\<lparr>di_addrs := as\<rparr>" using 1(6) 2(6) by auto
  ultimately show ?thesis using 1(2,5) 2(1,2,5) own unfolding appended_def by (simp add: add.assoc)
qed

lemma div_within:
  fixes j n k :: nat
  assumes "n \<le> j" "j < n + k" "n mod 512 + k \<le> 512"
  shows "j div 512 = n div 512" "j mod 512 = n mod 512 + (j - n)"
proof -
  have "0 < k" "k = min k (512 - n mod 512)" using assms by simp_all
  from block_step(4,5)[unfolded BSIZE_def, OF this assms(1,2)] show "j div 512 = n div 512" "j mod 512 = n mod 512 + (j - n)" .
qed

lemma div_before:
  fixes j n :: nat
  assumes "j < n" "j div 512 = n div 512"
  shows "j mod 512 < n mod 512"
proof -
  have "j = n div 512 * 512 + j mod 512" "n = n div 512 * 512 + n mod 512" using div_mult_mod_eq[of j 512] div_mult_mod_eq[of n 512] unfolding assms(2) by simp_all
  with assms(1) show ?thesis by linarith
qed

text \<open>Writing a piece into the last block, whose sector is \<open>x\<close>.\<close>

lemma piece_bytes:
  assumes "has_blocks E e (Suc (n div 512))" "x = waddr E e (n div 512)" "length (E x) = 512" "n mod 512 + length a \<le> 512"
    and E': "E' = E(x := poke (n mod 512) a (E x))"
    and old: "\<And>k. k < nblk n \<Longrightarrow> waddr E e k = waddr D d k \<and> E (waddr D d k) = D (waddr D d k)"
  shows "has_blocks E' e (Suc (n div 512))" "owned E' e (Suc (n div 512)) = owned E e (Suc (n div 512))"
    "fbytes E' e (n + length a) = fbytes D d n @ a"
proof -
  let ?k = "n div 512"
  note h = has_blocksD[OF assms(1)]
  have "di_addrs e ! NDIRECT \<noteq> x"
  proof (cases "NDIRECT < Suc ?k")
    case True
    then show ?thesis using h(6) assms(2) by auto
  next
    case False
    then have "di_addrs e ! NDIRECT = 0" "x \<noteq> 0" using h(3)[of ?k] h(2,4) assms(2) by auto
    then show ?thesis by simp
  qed
  then have "E (di_addrs e ! NDIRECT) = E' (di_addrs e ! NDIRECT)" by (simp add: E')
  note keep = has_blocks_keep[where E = E', OF assms(1) this]
  show "has_blocks E' e (Suc ?k)" "owned E' e (Suc ?k) = owned E e (Suc ?k)" using keep by simp_all
  have byte: "E' (waddr E' e (j div 512)) ! (j mod 512) = (if j < n then D (waddr D d (j div 512)) ! (j mod 512) else a ! (j - n))"
    if j: "j < n + length a" for j
  proof (cases "j div 512 = ?k")
    case True
    have "E' (waddr E' e (j div 512)) ! (j mod 512) =
        (if n mod 512 \<le> j mod 512 \<and> j mod 512 < n mod 512 + length a then a ! (j mod 512 - n mod 512) else E x ! (j mod 512))"
      using assms(2,3,4) keep(3) True nth_poke[of "n mod 512" "E x" "j mod 512" a] by (simp add: E')
    moreover have "E x = D (waddr D d ?k)" if "j < n"
      using old[of ?k] assms(2) div_before[OF that True] by (simp add: nblk_mod)
    moreover have "j mod 512 < n mod 512" if "j < n" using div_before[OF that True] .
    moreover have "j mod 512 = n mod 512 + (j - n)" if "\<not> j < n" using div_within(2)[of n j "length a"] that j assms(4) by simp
    ultimately show ?thesis using True j by auto
  next
    case False
    then have jn: "j < n" using div_within(1)[of n j "length a"] j assms(4) by (meson not_less)
    then have lt: "j div 512 < ?k" using False div_le_mono[of j n 512] by simp
    then have "waddr E e (j div 512) \<noteq> x" using h(5) assms(2) by (auto dest: inj_onD)
    moreover have "j div 512 < nblk n" using lt by (simp add: nblk_mod)
    ultimately show ?thesis using jn old keep(3) by (simp add: E')
  qed
  have "fbytes E' e (n + length a) = map (\<lambda>j. if j < n then D (waddr D d (j div 512)) ! (j mod 512) else a ! (j - n)) [0..<n + length a]"
    unfolding fbytes_def by (rule map_cong) (use byte in simp_all)
  also have "\<dots> = fbytes D d n @ a"
    by (rule nth_equalityI) (simp_all add: fbytes_def nth_append)
  finally show "fbytes E' e (n + length a) = fbytes D d n @ a" .
qed

text \<open>The file of \<open>n\<close> bytes is on the image, and the sectors behind the first free one are empty.\<close>

definition file_in :: "mkfs_state \<Rightarrow> dinode \<Rightarrow> nat \<Rightarrow> bool" where
  "file_in s d n \<longleftrightarrow> has_blocks (sect s) d (nblk n) \<and> (\<forall>b \<in> owned (sect s) d (nblk n). b < freeblock s) \<and>
     fresh_from (sect s) (freeblock s) (nsect s) \<and> unat (freeblock s) \<le> nsect s"

lemma next_sector:
  assumes "file_in s d n" "0 < k" "n mod 512 + k \<le> 512" "n div 512 < MAXFILE" "unat (freeblock s) + cost (n + k) \<le> nsect s + cost n"
  obtains x e t E g where "iappend_block (n div 512) d s = Ok ((x, e), t)" "img_to E g s t" "has_blocks E e (Suc (n div 512))" "x = waddr E e (n div 512)"
    "\<And>j. j < nblk n \<Longrightarrow> waddr E e j = waddr (sect s) d j \<and> E (waddr (sect s) d j) = sect s (waddr (sect s) d j)"
    "owned E e (Suc (n div 512)) = owned (sect s) d (nblk n) \<union> {b. freeblock s \<le> b \<and> b < g}"
    "\<And>b. b \<notin> owned E e (Suc (n div 512)) \<Longrightarrow> E b = sect s b" "unat g + cost n = unat (freeblock s) + cost (n + k)" "\<exists>as. e = d\<lparr>di_addrs := as\<rparr>"
proof -
  let ?m = "n div 512" and ?D = "sect s" and ?f = "freeblock s"
  have fi: "has_blocks ?D d (nblk n)" "\<And>b. b \<in> owned ?D d (nblk n) \<Longrightarrow> b < ?f" "fresh_from ?D ?f (nsect s)" "unat ?f \<le> nsect s"
    using assms(1) unfolding file_in_def by blast+
  have nk: "nblk (n + k) = Suc ?m" by (rule nblk_piece[OF assms(2,3)])
  show thesis
  proof (cases "n mod 512 = 0")
    case True
    then have m: "nblk n = ?m" by (simp add: nblk_mod)
    have c: "cost (n + k) = cost n + (if ?m = NDIRECT then 2 else 1)" unfolding cost_def nk m by auto
    have room: "unat ?f + (if ?m = NDIRECT then 2 else 1) \<le> nsect s" using assms(5) c by simp
    define g where "g = ?f + (if ?m = NDIRECT then 2 else 1)"
    have "nsect s < 2 ^ 31" using fi(3) by (simp add: fresh_from_def)
    then have g: "unat g = unat ?f + (if ?m = NDIRECT then 2 else 1)" using room by (auto simp: g_def unat_word_ariths split: if_splits)
    obtain x e t E where e: "iappend_block ?m d s = Ok ((x, e), t)" "img_to E g s t" "has_blocks E e (Suc ?m)" "x = waddr E e ?m"
      "\<And>j. j < ?m \<Longrightarrow> waddr E e j = waddr ?D d j" "owned E e (Suc ?m) = owned ?D d ?m \<union> {b. ?f \<le> b \<and> b < g}"
      "\<And>b. b \<noteq> di_addrs e ! NDIRECT \<Longrightarrow> E b = ?D b" "?f \<le> x" "NDIRECT < Suc ?m \<Longrightarrow> di_addrs e ! NDIRECT \<in> owned E e (Suc ?m)"
      "\<exists>as. e = d\<lparr>di_addrs := as\<rparr>" "\<And>b. unat b < nsect s \<Longrightarrow> length (E b) = 512" "?m < NDIRECT \<Longrightarrow> E = ?D"
    proof (rule iappend_block_new[OF fi(1)[unfolded m] assms(4) fi(2)[unfolded m] fi(3) room, folded g_def], goal_cases)
      case (2 x e t E)
      show ?case by (rule 2(1)[OF 2(2-)])
    qed
    have "E (waddr ?D d j) = ?D (waddr ?D d j)" if "j < ?m" for j
    proof (cases "?m < NDIRECT")
      case False
      then have "di_addrs e ! NDIRECT \<notin> waddr E e ` {..<Suc ?m}" using has_blocksD(6)[OF e(3)] by simp
      moreover have "waddr E e j \<in> waddr E e ` {..<Suc ?m}" using that by simp
      ultimately have "waddr E e j \<noteq> di_addrs e ! NDIRECT" by metis
      then show ?thesis using e(5)[OF that] e(7) by simp
    qed (simp add: e(12))
    moreover have "E b = ?D b" if "b \<notin> owned E e (Suc ?m)" for b
      using that e(7)[of b] e(9,12) by (cases "?m < NDIRECT") auto
    ultimately show thesis using e g c m by (intro that[of x e t E g]) simp_all
  next
    case False
    then have m: "nblk n = Suc ?m" by (simp add: nblk_mod)
    have c: "cost (n + k) = cost n" unfolding cost_def nk m ..
    have own: "unat b < nsect s" if "b \<in> owned ?D d (Suc ?m)" for b using fi(2)[of b] that m fi(4) by (simp add: word_less_nat_alt)
    obtain t where t: "iappend_block ?m d s = Ok ((waddr ?D d ?m, d), t)" "img_to ?D ?f s t"
      using iappend_block_old[OF fi(1)[unfolded m] lessI own] by auto
    have emp: "owned ?D d (Suc ?m) = owned ?D d (nblk n) \<union> {b. ?f \<le> b \<and> b < ?f}" using m by auto
    have self: "\<exists>as. d = d\<lparr>di_addrs := as\<rparr>" by (rule exI[of _ "di_addrs d"]) simp
    show thesis
    proof (rule that[OF t])
      show "has_blocks ?D d (Suc ?m)" using fi(1) m by simp
      show "owned ?D d (Suc ?m) = owned ?D d (nblk n) \<union> {b. ?f \<le> b \<and> b < ?f}" by (rule emp)
      show "unat ?f + cost n = unat ?f + cost (n + k)" using c by simp
      show "\<exists>as. d = d\<lparr>di_addrs := as\<rparr>" by (rule self)
    qed simp_all
  qed
qed

lemma iappend_round:
  assumes "file_in s d n" "a \<noteq> []" "n mod 512 + length a \<le> 512" "n div 512 < MAXFILE"
    "unat (freeblock s) + cost (n + length a) \<le> nsect s + cost n"
  obtains e t where
    "andthen (iappend_block (n div 512) d) (\<lambda>(x, din). andthen (rsect x) (\<lambda>buf. andthen (wsect x (poke (n mod 512) a buf)) (\<lambda>_. F din))) s = F e t"
    "img_to (sect t) (freeblock t) s t" "appended (sect s) (freeblock s) d n a (sect t) (freeblock t) e" "file_in t e (n + length a)"
proof -
  let ?m = "n div 512" and ?D = "sect s" and ?f = "freeblock s"
  have fi: "\<And>b. b \<in> owned ?D d (nblk n) \<Longrightarrow> b < ?f" "fresh_from ?D ?f (nsect s)"
    using assms(1) unfolding file_in_def by blast+
  have pos: "0 < length a" using assms(2) by simp
  obtain x e t1 E g where e: "iappend_block ?m d s = Ok ((x, e), t1)" "img_to E g s t1" "has_blocks E e (Suc ?m)" "x = waddr E e ?m"
    "\<And>j. j < nblk n \<Longrightarrow> waddr E e j = waddr ?D d j \<and> E (waddr ?D d j) = ?D (waddr ?D d j)"
    "owned E e (Suc ?m) = owned ?D d (nblk n) \<union> {b. ?f \<le> b \<and> b < g}"
    "\<And>b. b \<notin> owned E e (Suc ?m) \<Longrightarrow> E b = ?D b" "unat g + cost n = unat ?f + cost (n + length a)" "\<exists>as. e = d\<lparr>di_addrs := as\<rparr>"
  proof (rule next_sector[OF assms(1) pos assms(3-5)], goal_cases)
    case (1 x e t E g)
    show ?case by (rule 1(1)[OF 1(2-)])
  qed
  have nk: "nblk (n + length a) = Suc ?m" by (rule nblk_piece[OF pos assms(3)])
  have fg: "unat ?f \<le> unat g" "unat g \<le> nsect s" using e(8) cost_mono[of n "n + length a"] assms(5) by simp_all
  have below: "b < g" if "b \<in> owned E e (Suc ?m)" for b
    using that fi(1)[of b] fg(1) unfolding e(6) by (auto simp: word_less_nat_alt)
  have x: "unat x < nsect s" using below[of x] owned_mem(1)[of ?m "Suc ?m" E e] e(4) fg(2) by (simp add: word_less_nat_alt)
  have n1: "nsect t1 = nsect s" "sect t1 = E" "freeblock t1 = g" using img_toD[OF e(2)] by simp_all
  have len: "length (E x) = 512" using length_sect[of x t1] x n1 by simp
  obtain t2 where t2: "rsect x t1 = Ok (E x, t2)" "img_to E g t1 t2" using rsect_inside[of x t1] x n1 by auto
  have n2: "nsect t2 = nsect s" "sect t2 = E" "freeblock t2 = g" using img_toD[OF t2(2)] n1 by simp_all
  define H where "H = E(x := poke (n mod 512) a (E x))"
  have "length (poke (n mod 512) a (E x)) = 512" using len assms(3) by simp
  then obtain t where t: "wsect x (poke (n mod 512) a (E x)) t2 = Ok ((), t)" "img_to H g t2 t"
    using wsect_inside[of x t2] x n2 unfolding H_def by auto
  have to: "img_to H g s t" using img_to_trans[OF e(2) img_to_trans[OF t2(2) t(2)]] .
  have nt: "sect t = H" "freeblock t = g" "nsect t = nsect s" using img_toD[OF to] by simp_all
  note pb = piece_bytes[OF e(3,4) len assms(3) H_def e(5)]
  have frame: "H b = ?D b" if "b \<notin> owned H e (Suc ?m)" for b
  proof -
    have b: "b \<notin> owned E e (Suc ?m)" using that pb(2) by simp
    then have "b \<noteq> x" using owned_mem(1)[of ?m "Suc ?m" E e] e(4) by auto
    then show ?thesis using e(7)[OF b] by (simp add: H_def)
  qed
  have app: "appended ?D ?f d n a H g e"
    unfolding appended_def nk using pb e(6,8,9) frame by simp
  have "fresh_from H g (nsect s)"
    unfolding fresh_from_def
  proof (intro conjI allI impI)
    have z: "0 \<notin> owned H e (Suc ?m)"
    proof
      assume "0 \<in> owned H e (Suc ?m)"
      with has_blocksD(2,3,4)[OF pb(1)] show False by (auto simp: owned_def split: if_splits)
    qed
    then show "H 0 = replicate 512 0" using frame fi(2) by (simp add: fresh_from_def)
    show "0 < g" using fi(2) fg(1) by (simp add: fresh_from_def word_less_nat_alt)
    show "nsect s < 2 ^ 31" using fi(2) by (simp add: fresh_from_def)
    fix b assume "g \<le> b \<and> unat b < nsect s"
    moreover from this have "b \<notin> owned H e (Suc ?m)" using below[of b] pb(2) by auto
    ultimately show "H b = replicate 512 0" using frame[of b] fi(2) fg(1) by (auto simp: fresh_from_def word_le_nat_alt)
  next
    fix b :: "32 word" assume "unat b < nsect s"
    then show "length (H b) = 512" using length_sect[of b t] nt by simp
  qed
  then have "file_in t e (n + length a)" using pb(1,2) below fg(2) by (simp add: file_in_def nt nk)
  moreover have "andthen (iappend_block ?m d) (\<lambda>(x, din). andthen (rsect x) (\<lambda>buf. andthen (wsect x (poke (n mod 512) a buf)) (\<lambda>_. F din))) s = F e t"
    using e(1) t2(1) t(1) by (simp add: andthen_Ok)
  ultimately show thesis using that[of e t] app to nt by simp
qed

lemma iappend_loop_result:
  assumes "file_in s d n" "n + length p \<le> MAXFILE * 512" "unat (freeblock s) + cost (n + length p) \<le> nsect s + cost n"
  shows "\<exists>e t. iappend_loop (of_nat n) p d s = Ok ((of_nat (n + length p), e), t) \<and> img_to (sect t) (freeblock t) s t \<and>
    appended (sect s) (freeblock s) d n p (sect t) (freeblock t) e \<and> file_in t e (n + length p)"
  using assms
proof (induction "length p" arbitrary: n p d s rule: less_induct)
  case less
  have hb: "has_blocks (sect s) d (nblk n)" using less.prems(1) by (simp add: file_in_def)
  show ?case
  proof (cases "p = []")
    case True
    then show ?thesis using appended_refl[OF hb, of "freeblock s"] less.prems(1) img_to_refl[of s]
      by (intro exI[of _ d] exI[of _ s]) (simp add: iappend_loop.simps)
  next
    case False
    define k where "k = min (length p) (512 - n mod 512)"
    have M: "MAXFILE * 512 < 2 ^ 31" by (simp add: MAXFILE_def NINDIRECT_def NDIRECT_def BSIZE_def)
    have lt: "n < MAXFILE * 512" using less.prems(2) False by (cases p) auto
    have un: "unat (of_nat n :: 32 word) = n" using lt M by (simp add: unat_of_nat)
    have fbn: "n div 512 < MAXFILE" using lt by (simp add: less_mult_imp_div_less)
    have mod: "n mod 512 < 512" by simp
    have k: "0 < k" "k \<le> length p" "n mod 512 + k \<le> 512" using False mod by (auto simp: k_def)
    have le: "length (take k p) = k" using k(2) by simp
    have room: "unat (freeblock s) + cost (n + length (take k p)) \<le> nsect s + cost n"
      using less.prems(3) cost_mono[of "n + k" "n + length p"] k(2) le by simp
    have ne: "take k p \<noteq> []" "n mod 512 + length (take k p) \<le> 512" using k le False by auto
    obtain e t where et: "andthen (iappend_block (n div 512) d) (\<lambda>(x, din). andthen (rsect x) (\<lambda>buf. andthen (wsect x (poke (n mod 512) (take k p) buf))
        (\<lambda>_. iappend_loop (of_nat (n + k)) (drop k p) din))) s = iappend_loop (of_nat (n + k)) (drop k p) e t"
      "img_to (sect t) (freeblock t) s t" "appended (sect s) (freeblock s) d n (take k p) (sect t) (freeblock t) e" "file_in t e (n + k)"
      using iappend_round[OF less.prems(1) ne fbn room] unfolding le .
    have sub: "n - n div 512 * 512 = n mod 512" by (simp add: minus_div_mult_eq_mod)
    have k': "min (length p) ((n div 512 + 1) * 512 - n) = k"
      using div_mult_mod_eq[of n 512] by (simp only: k_def distrib_right mult_1)
    then have k'': "min (length p) (512 + n div 512 * 512 - n) = k" by (simp only: distrib_right mult_1 add.commute[of _ 512])
    have step: "iappend_loop (of_nat n) p d s = iappend_loop (of_nat (n + k)) (drop k p) e t"
      using False et(1) fbn by (subst iappend_loop.simps) (simp add: un Let_def k'' sub)
    have lens: "length (drop k p) < length p" "n + k + length (drop k p) = n + length p" using k(1,2) False by simp_all
    have room2: "unat (freeblock t) + cost (n + k + length (drop k p)) \<le> nsect t + cost (n + k)"
      using appendedD(5)[OF et(3)] less.prems(3) le lens(2) img_toD(3)[OF et(2)] by simp
    from less.hyps[OF lens(1) et(4) _ room2] less.prems(2) lens(2)
    obtain e' t' where t': "iappend_loop (of_nat (n + k)) (drop k p) e t = Ok ((of_nat (n + length p), e'), t')" "img_to (sect t') (freeblock t') t t'"
      "appended (sect t) (freeblock t) e (n + k) (drop k p) (sect t') (freeblock t') e'" "file_in t' e' (n + length p)" by auto
    have "appended (sect s) (freeblock s) d n p (sect t') (freeblock t') e'"
      using appended_trans[OF et(3), of "drop k p" "sect t'" "freeblock t'" e'] t'(3) le by simp
    then show ?thesis using step t'(1,4) img_to_trans[OF et(2) t'(2)] by auto
  qed
qed

end
