(* ===== verification/Mkfs_Files.thy ===== *)
theory Mkfs_Files
  imports Mkfs_Image
begin

text \<open>
  The files on the image that \<open>mkfs.c\<close> builds: \<open>mkfs\<close>, \<open>ialloc\<close> and \<open>iappend\<close> keep the image in good order, each file in blocks of its
  own, and what the kernel reads back is what was appended.
\<close>

section \<open>The whole image\<close>

lemma i2b_IBLOCK: "i2b = IBLOCK"
  by (simp add: i2b_def IBLOCK_def fun_eq_iff)

lemma inode_sector: "unat i < 208 \<Longrightarrow> unat (i2b i) = unat i div 8 + 2"
proof -
  assume "unat i < 208"
  then have "unat i div 8 < 26" by (simp add: less_mult_imp_div_less)
  moreover have "unat (i div 8) = unat i div 8" by (simp add: unat_div)
  ultimately show ?thesis by (simp add: i2b_def IPB_def BSIZE_def unat_word_ariths)
qed

lemma inode_sector_bound: "unat i < 208 \<Longrightarrow> unat (i2b i) < 28"
  using inode_sector[of i] less_mult_imp_div_less[of "unat i" 26 8] by simp

definition inode_of_img :: "mkfs_state \<Rightarrow> 32 word \<Rightarrow> dinode" where
  "inode_of_img s i = dinode_at i (sect s (i2b i))"

text \<open>
  The image in good order: inodes 1 to \<open>freeinode\<close> with files of lengths \<open>L\<close>, on blocks behind the bitmap (sector 28) that no two of
  them share, and nothing behind the first free block.
\<close>

definition img_ok :: "mkfs_state \<Rightarrow> (32 word \<Rightarrow> nat) \<Rightarrow> bool" where
  "img_ok s L \<longleftrightarrow> fresh_from (sect s) (freeblock s) (nsect s) \<and> 28 < freeblock s \<and> unat (freeblock s) \<le> nsect s \<and> 0 < freeinode s \<and> unat (freeinode s) \<le> 208 \<and>
     (\<forall>i. 0 < i \<and> i < freeinode s \<longrightarrow> has_blocks (sect s) (inode_of_img s i) (nblk (L i)) \<and>
       (\<forall>b \<in> owned (sect s) (inode_of_img s i) (nblk (L i)). 28 < b \<and> b < freeblock s) \<and> di_type (inode_of_img s i) \<in> {T_DIR, T_FILE}) \<and>
     (\<forall>i j. 0 < i \<and> i < freeinode s \<and> 0 < j \<and> j < freeinode s \<and> i \<noteq> j \<longrightarrow>
       owned (sect s) (inode_of_img s i) (nblk (L i)) \<inter> owned (sect s) (inode_of_img s j) (nblk (L j)) = {})"

lemma img_okD:
  assumes "img_ok s L"
  shows "fresh_from (sect s) (freeblock s) (nsect s)" "28 < freeblock s" "unat (freeblock s) \<le> nsect s" "0 < freeinode s" "unat (freeinode s) \<le> 208"
    "0 < i \<Longrightarrow> i < freeinode s \<Longrightarrow> has_blocks (sect s) (inode_of_img s i) (nblk (L i))"
    "0 < i \<Longrightarrow> i < freeinode s \<Longrightarrow> b \<in> owned (sect s) (inode_of_img s i) (nblk (L i)) \<Longrightarrow> 28 < b \<and> b < freeblock s"
    "0 < i \<Longrightarrow> i < freeinode s \<Longrightarrow> di_type (inode_of_img s i) \<in> {T_DIR, T_FILE}"
    "0 < i \<Longrightarrow> i < freeinode s \<Longrightarrow> 0 < j \<Longrightarrow> j < freeinode s \<Longrightarrow> i \<noteq> j \<Longrightarrow>
      owned (sect s) (inode_of_img s i) (nblk (L i)) \<inter> owned (sect s) (inode_of_img s j) (nblk (L j)) = {}"
  using assms unfolding img_ok_def by blast+

text \<open>A file whose sectors are kept.\<close>

lemma file_keep:
  assumes "has_blocks D d (nblk n)" "E 0 = D 0" "\<And>b. b \<in> owned D d (nblk n) \<Longrightarrow> E b = D b"
  shows "has_blocks E d (nblk n)" "owned E d (nblk n) = owned D d (nblk n)" "fbytes E d n = fbytes D d n"
proof -
  have "D (di_addrs d ! NDIRECT) = E (di_addrs d ! NDIRECT)"
    using has_blocksD(4)[OF assms(1)] assms(2) assms(3)[OF owned_mem(2)] by (cases "nblk n \<le> NDIRECT") auto
  note k = has_blocks_keep[where E = E, OF assms(1) this]
  show "has_blocks E d (nblk n)" "owned E d (nblk n) = owned D d (nblk n)" using k by simp_all
  have "j div 512 < nblk n" if "j < n" for j
  proof -
    have "j div 512 \<le> n div 512" using that by (simp add: div_le_mono)
    moreover have "j div 512 < n div 512" if "n mod 512 = 0"
    proof (rule ccontr)
      assume "\<not> j div 512 < n div 512"
      then have "j div 512 = n div 512" using calculation by simp
      from div_before[OF \<open>j < n\<close> this] that show False by simp
    qed
    ultimately show ?thesis by (auto simp: nblk_mod)
  qed
  then show "fbytes E d n = fbytes D d n" unfolding fbytes_def k(3) by (intro map_cong) (use assms(3) owned_mem(1) in auto)
qed

section \<open>iappend\<close>

lemma inode_put:
  assumes "unat i < 208" "unat j < 208" "length (D (i2b i)) = 512" "length (di_addrs d) = 13"
  shows "dinode_at j ((D(i2b i := put_dinode i d (D (i2b i)))) (i2b j)) = (if i = j then d else dinode_at j (D (i2b j)))"
proof -
  have len: "length (D (i2b i)) = BSIZE" using assms(3) by (simp add: BSIZE_def)
  consider "i = j" | "i \<noteq> j" "i2b i = i2b j" | "i2b i \<noteq> i2b j" "i \<noteq> j" by blast
  then show ?thesis
  proof cases
    case 2
    then have "unat j mod IPB \<noteq> unat i mod IPB" using iblock_slot[of i j] by (metis i2b_IBLOCK)
    with 2 len assms(4) show ?thesis by (simp add: dinode_at_other)
  qed (use len assms(4) in \<open>simp_all add: dinode_at_put\<close>)
qed

lemma winode_result:
  assumes "unat i < 208" "28 \<le> nsect s" "length (di_addrs d) = 13"
  obtains t where "winode i d s = Ok ((), t)" "img_to ((sect s)(i2b i := put_dinode i d (sect s (i2b i)))) (freeblock s) s t"
proof -
  have b: "unat (i2b i) < nsect s" using inode_sector_bound[OF assms(1)] assms(2) by simp
  obtain t1 where t1: "rsect (i2b i) s = Ok (sect s (i2b i), t1)" "img_to (sect s) (freeblock s) s t1" using rsect_inside[OF b] .
  have "length (put_dinode i d (sect s (i2b i))) = 512"
    using length_put_dinode[of "sect s (i2b i)" d i] length_sect[OF b] assms(3) by (simp add: BSIZE_def)
  then obtain t where t: "wsect (i2b i) (put_dinode i d (sect s (i2b i))) t1 = Ok ((), t)"
    "img_to ((sect s)(i2b i := put_dinode i d (sect s (i2b i)))) (freeblock s) t1 t"
    using wsect_inside[of "i2b i" t1] b img_toD[OF t1(2)] by auto
  have "winode i d s = Ok ((), t)" using t1(1) t(1) by (simp add: winode_def andthen_Ok)
  then show thesis using img_to_trans[OF t1(2) t(2)] by (rule that)
qed

lemma rinode_result:
  assumes "unat i < 208" "28 \<le> nsect s"
  obtains t where "rinode i s = Ok (inode_of_img s i, t)" "img_to (sect s) (freeblock s) s t"
proof -
  have b: "unat (i2b i) < nsect s" using inode_sector_bound[OF assms(1)] assms(2) by simp
  obtain t1 where "rsect (i2b i) s = Ok (sect s (i2b i), t1)" "img_to (sect s) (freeblock s) s t1" using rsect_inside[OF b] .
  then show thesis by (intro that) (simp_all add: rinode_def andthen_Ok inode_of_img_def)
qed

lemma low_sector: "unat j < 208 \<Longrightarrow> \<not> 28 < i2b j"
  using inode_sector_bound[of j] by (simp add: word_less_nat_alt)

lemma zero_not_inode: "unat i < 208 \<Longrightarrow> i2b i \<noteq> 0"
  using inode_sector[of i] by (metis add_2_eq_Suc' nat.distinct(1) unat_0)

lemma size_unread [simp]:
  "waddr D (d\<lparr>di_size := z\<rparr>) = waddr D d" "has_blocks D (d\<lparr>di_size := z\<rparr>) = has_blocks D d" "owned D (d\<lparr>di_size := z\<rparr>) = owned D d"
  "fbytes D (d\<lparr>di_size := z\<rparr>) = fbytes D d"
proof -
  show w: "waddr D (d\<lparr>di_size := z\<rparr>) = waddr D d" by (simp add: waddr_def fun_eq_iff)
  show "has_blocks D (d\<lparr>di_size := z\<rparr>) = has_blocks D d" "owned D (d\<lparr>di_size := z\<rparr>) = owned D d" "fbytes D (d\<lparr>di_size := z\<rparr>) = fbytes D d"
    by (simp_all add: has_blocks_def owned_def fbytes_def w fun_eq_iff)
qed

lemma iappend_result:
  assumes "img_ok s L" "0 < i" "i < freeinode s" "di_size (inode_of_img s i) = of_nat (L i)" "L i + length p \<le> MAXFILE * 512"
    "unat (freeblock s) + cost (L i + length p) \<le> nsect s + cost (L i)" "n = nblk (L i + length p)"
  obtains t as where "iappend i p s = Ok ((), t)" "img_to (sect t) (freeblock t) s t"
    "inode_of_img t i = (inode_of_img s i)\<lparr>di_addrs := as, di_size := of_nat (L i + length p)\<rparr>"
    "has_blocks (sect t) (inode_of_img t i) n"
    "fbytes (sect t) (inode_of_img t i) (L i + length p) = fbytes (sect s) (inode_of_img s i) (L i) @ p"
    "owned (sect t) (inode_of_img t i) n = owned (sect s) (inode_of_img s i) (nblk (L i)) \<union> {b. freeblock s \<le> b \<and> b < freeblock t}"
    "\<forall>b. b \<notin> insert (i2b i) (owned (sect t) (inode_of_img t i) n) \<longrightarrow> sect t b = sect s b"
    "unat (freeblock t) + cost (L i) = unat (freeblock s) + cost (L i + length p)" "fresh_from (sect t) (freeblock t) (nsect t)"
    "\<forall>j. unat j < 208 \<and> j \<noteq> i \<longrightarrow> inode_of_img t j = inode_of_img s j"
proof -
  note ok = img_okD[OF assms(1)]
  let ?d = "inode_of_img s i"
  have i: "unat i < 208" using assms(3) ok(5) by (simp add: word_less_nat_alt)
  have n28: "28 \<le> nsect s" using ok(2,3) by (simp add: word_less_nat_alt)
  obtain s1 where s1: "rinode i s = Ok (?d, s1)" "img_to (sect s) (freeblock s) s s1" using rinode_result[OF i n28] .
  note e1 = img_toD[OF s1(2)]
  have fi: "file_in s1 ?d (L i)" using ok(1,3) ok(6)[OF assms(2,3)] ok(7)[OF assms(2,3)] by (simp add: file_in_def e1)
  obtain e s2 where s2: "iappend_loop (of_nat (L i)) p ?d s1 = Ok ((of_nat (L i + length p), e), s2)" "img_to (sect s2) (freeblock s2) s1 s2"
    "appended (sect s) (freeblock s) ?d (L i) p (sect s2) (freeblock s2) e" "file_in s2 e (L i + length p)"
    using iappend_loop_result[OF fi assms(5)] assms(6) unfolding e1 by blast
  note ap = appendedD[OF s2(3)]
  let ?e = "e\<lparr>di_size := of_nat (L i + length p)\<rparr>"
  have n2: "nsect s2 = nsect s" using img_toD(3)[OF s2(2)] e1(3) by simp
  have len: "length (di_addrs ?e) = 13" using has_blocksD(1)[OF ap(1)] by simp
  obtain t where t: "winode i ?e s2 = Ok ((), t)" "img_to ((sect s2)(i2b i := put_dinode i ?e (sect s2 (i2b i)))) (freeblock s2) s2 t"
    using winode_result[OF i _ len] n28 n2 by metis
  have val: "iappend i p s = Ok ((), t)"
    using s1(1) s2(1) t(1) assms(4) by (simp add: iappend_def andthen_Ok)
  have to: "img_to (sect t) (freeblock t) s t"
    using img_to_trans[OF s1(2) img_to_trans[OF s2(2) t(2)]] img_toD[OF t(2)] by simp
  have st: "sect t = (sect s2)(i2b i := put_dinode i ?e (sect s2 (i2b i)))" "freeblock t = freeblock s2" "nsect t = nsect s"
    using img_toD[OF t(2)] n2 by simp_all
  have low: "i2b j \<notin> owned (sect s2) e (nblk (L i + length p))" if "unat j < 208" for j
  proof
    assume "i2b j \<in> owned (sect s2) e (nblk (L i + length p))"
    then have "28 < i2b j" using ok(7)[OF assms(2,3), of "i2b j"] ok(2) unfolding ap(3) by auto
    then show False using low_sector[OF that] by simp
  qed
  have same: "sect s2 (i2b j) = sect s (i2b j)" if "unat j < 208" for j using ap(4)[OF low[OF that]] .
  have l512: "length (sect s2 (i2b i)) = 512" using length_sect[of "i2b i" s2] inode_sector_bound[OF i] n28 n2 by simp
  have ino: "inode_of_img t j = (if i = j then ?e else inode_of_img s j)" if "unat j < 208" for j
    unfolding inode_of_img_def[of t] inode_of_img_def[of s j] st(1) same[OF that, symmetric]
    by (rule inode_put[where D = "sect s2", OF i that l512 len])
  have keep: "has_blocks (sect t) e (nblk (L i + length p))" "owned (sect t) e (nblk (L i + length p)) = owned (sect s2) e (nblk (L i + length p))"
    "fbytes (sect t) e (L i + length p) = fbytes (sect s2) e (L i + length p)"
    by (rule file_keep[OF ap(1)]; use low[OF i] zero_not_inode[OF i] in \<open>auto simp: st(1)\<close>)+
  obtain as where as: "e = ?d\<lparr>di_addrs := as\<rparr>" using ap(6) by auto
  have ti: "inode_of_img t i = ?e" using ino[OF i] by simp
  have frame: "\<forall>b. b \<notin> insert (i2b i) (owned (sect t) ?e n) \<longrightarrow> sect t b = sect s b"
    using keep(2) ap(4) assms(7) by (simp add: st(1))
  have fresh: "fresh_from (sect t) (freeblock t) (nsect t)"
  proof -
    have "fresh_from (sect s2) (freeblock s2) (nsect s)" using s2(4) n2 by (simp add: file_in_def)
    moreover have "\<not> freeblock s2 \<le> i2b i"
      using low_sector[OF i] ok(2) ap(7) by (auto simp: word_less_nat_alt word_le_nat_alt)
    moreover have "length (sect t b) = 512" if "unat b < nsect s" for b using length_sect[of b t] that st(3) by simp
    ultimately show ?thesis using zero_not_inode[OF i] unfolding fresh_from_def st by (metis fun_upd_other st(1))
  qed
  have "\<forall>j. unat j < 208 \<and> j \<noteq> i \<longrightarrow> inode_of_img t j = inode_of_img s j" using ino by simp
  then show thesis
    using that[OF val to, of as] ti as keep ap(2,3,5) frame fresh assms(7) st(2) by simp
qed

lemma zero_not_owned: "has_blocks D d m \<Longrightarrow> 0 \<notin> owned D d m"
  using has_blocksD(2,3,4)[of D d m] by (auto simp: owned_def split: if_splits)

text \<open>\<open>iappend\<close> keeps the image in good order, appends to one file and leaves the others.\<close>

lemma iappend_img_ok:
  assumes "img_ok s L" "0 < i" "i < freeinode s" "di_size (inode_of_img s i) = of_nat (L i)" "L i + length p \<le> MAXFILE * 512"
    "unat (freeblock s) + cost (L i + length p) \<le> nsect s + cost (L i)"
  obtains t where "iappend i p s = Ok ((), t)" "img_to (sect t) (freeblock t) s t" "img_ok t (L(i := L i + length p))"
    "fbytes (sect t) (inode_of_img t i) (L i + length p) = fbytes (sect s) (inode_of_img s i) (L i) @ p"
    "di_size (inode_of_img t i) = of_nat (L i + length p)" "di_type (inode_of_img t i) = di_type (inode_of_img s i)"
    "\<forall>j. 0 < j \<and> j < freeinode s \<and> j \<noteq> i \<longrightarrow> inode_of_img t j = inode_of_img s j \<and> fbytes (sect t) (inode_of_img t j) (L j) = fbytes (sect s) (inode_of_img s j) (L j)"
    "unat (freeblock t) + cost (L i) = unat (freeblock s) + cost (L i + length p)"
    "\<forall>b. unat b < 2 \<or> b = 28 \<longrightarrow> sect t b = sect s b"
proof -
  note ok = img_okD[OF assms(1)]
  define n where "n = nblk (L i + length p)"
  obtain t as where t: "iappend i p s = Ok ((), t)" "img_to (sect t) (freeblock t) s t"
    "inode_of_img t i = (inode_of_img s i)\<lparr>di_addrs := as, di_size := of_nat (L i + length p)\<rparr>"
    "has_blocks (sect t) (inode_of_img t i) n"
    "fbytes (sect t) (inode_of_img t i) (L i + length p) = fbytes (sect s) (inode_of_img s i) (L i) @ p"
    "owned (sect t) (inode_of_img t i) n = owned (sect s) (inode_of_img s i) (nblk (L i)) \<union> {b. freeblock s \<le> b \<and> b < freeblock t}"
    "\<forall>b. b \<notin> insert (i2b i) (owned (sect t) (inode_of_img t i) n) \<longrightarrow> sect t b = sect s b"
    "unat (freeblock t) + cost (L i) = unat (freeblock s) + cost (L i + length p)" "fresh_from (sect t) (freeblock t) (nsect t)"
    "\<forall>j. unat j < 208 \<and> j \<noteq> i \<longrightarrow> inode_of_img t j = inode_of_img s j"
    using iappend_result[OF assms n_def] .
  have i: "unat i < 208" using assms(3) ok(5) by (simp add: word_less_nat_alt)
  have fi: "freeinode t = freeinode s" "nsect t = nsect s" using t(2) by (simp_all add: img_to_def)
  have grow: "freeblock s \<le> freeblock t" using t(8) cost_mono[of "L i" "L i + length p"] by (simp add: word_le_nat_alt)
  have room: "unat (freeblock t) \<le> nsect t" using t(8) assms(6) fi(2) by simp
  have new: "28 < b \<and> b < freeblock t" if "b \<in> owned (sect t) (inode_of_img t i) n" for b
    using that ok(7)[OF assms(2,3), of b] ok(2) grow unfolding t(6) by (auto dest: less_le_trans)
  have z: "sect t 0 = sect s 0" using t(7) zero_not_owned[OF t(4)] zero_not_inode[OF i] by (metis insertE)
  have other: "inode_of_img t j = inode_of_img s j" "has_blocks (sect t) (inode_of_img s j) (nblk (L j))"
      "owned (sect t) (inode_of_img s j) (nblk (L j)) = owned (sect s) (inode_of_img s j) (nblk (L j))"
      "fbytes (sect t) (inode_of_img s j) (L j) = fbytes (sect s) (inode_of_img s j) (L j)"
      "owned (sect s) (inode_of_img s j) (nblk (L j)) \<inter> owned (sect t) (inode_of_img t i) n = {}"
    if j: "0 < j" "j < freeinode s" "j \<noteq> i" for j
  proof -
    have "unat j < 208" using j(2) ok(5) by (simp add: word_less_nat_alt)
    then show "inode_of_img t j = inode_of_img s j" using t(10) j(3) by blast
    note lo = ok(7)[OF j(1,2)]
    show dis: "owned (sect s) (inode_of_img s j) (nblk (L j)) \<inter> owned (sect t) (inode_of_img t i) n = {}"
      using ok(9)[OF j(1,2) assms(2,3) j(3)] lo unfolding t(6) by (auto simp: not_less[symmetric])
    have eq: "sect t b = sect s b" if b: "b \<in> owned (sect s) (inode_of_img s j) (nblk (L j))" for b
    proof -
      have "b \<noteq> i2b i" using lo[OF b] low_sector[OF i] by auto
      moreover have "b \<notin> owned (sect t) (inode_of_img t i) n" using dis b by blast
      ultimately show ?thesis using t(7) by blast
    qed
    show "has_blocks (sect t) (inode_of_img s j) (nblk (L j))" "owned (sect t) (inode_of_img s j) (nblk (L j)) = owned (sect s) (inode_of_img s j) (nblk (L j))"
      "fbytes (sect t) (inode_of_img s j) (L j) = fbytes (sect s) (inode_of_img s j) (L j)" 
      by (rule file_keep[where E = "sect t", OF ok(6)[OF j(1,2)] z], erule eq)+
  qed
  have ty: "di_type (inode_of_img t i) = di_type (inode_of_img s i)" by (simp add: t(3))
  let ?L = "L(i := L i + length p)"
  have each: "has_blocks (sect t) (inode_of_img t j) (nblk (?L j)) \<and>
       (\<forall>b \<in> owned (sect t) (inode_of_img t j) (nblk (?L j)). 28 < b \<and> b < freeblock t) \<and> di_type (inode_of_img t j) \<in> {T_DIR, T_FILE}"
    if j: "0 < j" "j < freeinode s" for j
  proof (cases "j = i")
    case True
    then show ?thesis using t(4) new ty ok(8)[OF assms(2,3)] by (simp add: n_def)
  next
    case False
    have "28 < b \<and> b < freeblock t" if "b \<in> owned (sect s) (inode_of_img s j) (nblk (L j))" for b
      using ok(7)[OF j that] grow by (meson less_le_trans)
    then show ?thesis using False other[OF j False] ok(8)[OF j] by simp
  qed
  have pairs: "owned (sect t) (inode_of_img t j) (nblk (?L j)) \<inter> owned (sect t) (inode_of_img t k) (nblk (?L k)) = {}"
    if j: "0 < j" "j < freeinode s" "0 < k" "k < freeinode s" "j \<noteq> k" for j k
  proof -
    have "owned (sect t) (inode_of_img t a) (nblk (?L a)) = (if a = i then owned (sect t) (inode_of_img t i) n else owned (sect s) (inode_of_img s a) (nblk (L a)))"
      if "0 < a" "a < freeinode s" for a
      using that other(1,3)[of a] by (simp add: n_def)
    then show ?thesis using j other(5)[of j] other(5)[of k] ok(9)[OF j] by (auto split: if_splits)
  qed
  have "img_ok t ?L"
    unfolding img_ok_def fi
    using t(9) ok(2,4,5) grow room each pairs by (auto simp: fi dest: less_le_trans)
  moreover have "sect t b = sect s b" if "unat b < 2 \<or> b = 28" for b
  proof -
    have "b \<notin> owned (sect t) (inode_of_img t i) n" using new[of b] that by (auto simp: word_less_nat_alt)
    moreover have "b \<noteq> i2b i" using that inode_sector[OF i] inode_sector_bound[OF i] by auto
    ultimately show ?thesis using t(7) by blast
  qed
  ultimately show thesis using t(1,2,3,5,8) ty other by (intro that[of t]) simp_all
qed

section \<open>ialloc\<close>

lemma nblk_0 [simp]: "nblk 0 = 0" "owned D d 0 = {}"
  by (simp_all add: nblk_def owned_def)

lemma mk_ialloc_img_ok:
  assumes "img_ok s L" "unat (freeinode s) < 208" "type \<in> {T_DIR, T_FILE}" "L (freeinode s) = 0"
  obtains t where "mk_ialloc type s = Ok (freeinode s, t)" "img_ok t L" "freeinode t = freeinode s + 1" "freeblock t = freeblock s" "nsect t = nsect s"
    "usedblocks t = usedblocks s" "inode_of_img t (freeinode s) = \<lparr>di_type = type, di_major = 0, di_minor = 0, di_nlink = 1, di_size = 0, di_addrs = replicate 13 0\<rparr>"
    "\<forall>j. 0 < j \<and> j < freeinode s \<longrightarrow> inode_of_img t j = inode_of_img s j \<and> fbytes (sect t) (inode_of_img t j) (L j) = fbytes (sect s) (inode_of_img s j) (L j)"
    "\<forall>b. unat b < 2 \<or> b = 28 \<longrightarrow> sect t b = sect s b"
proof -
  note ok = img_okD[OF assms(1)]
  let ?i = "freeinode s"
  define d where "d = \<lparr>di_type = type, di_major = 0, di_minor = 0, di_nlink = 1, di_size = 0, di_addrs = replicate 13 0\<rparr>"
  define s1 where "s1 = s\<lparr>freeinode := ?i + 1\<rparr>"
  have s1: "sect s1 = sect s" "nsect s1 = nsect s" "freeblock s1 = freeblock s" "freeinode s1 = ?i + 1" "usedblocks s1 = usedblocks s"
    by (simp_all add: s1_def sect_def nsect_def fun_eq_iff)
  have n28: "28 \<le> nsect s" using ok(2,3) by (simp add: word_less_nat_alt)
  obtain t where t: "winode ?i d s1 = Ok ((), t)" "img_to ((sect s)(i2b ?i := put_dinode ?i d (sect s (i2b ?i)))) (freeblock s) s1 t"
    using winode_result[OF assms(2), of s1 d] n28 unfolding s1 by (auto simp: d_def)
  have st: "sect t = (sect s)(i2b ?i := put_dinode ?i d (sect s (i2b ?i)))" "freeblock t = freeblock s" "nsect t = nsect s" "freeinode t = ?i + 1" "usedblocks t = usedblocks s"
    using t(2) s1 by (simp_all add: img_to_def)
  have l512: "length (sect s (i2b ?i)) = 512" using length_sect[of "i2b ?i" s] inode_sector_bound[OF assms(2)] n28 by simp
  have len: "length (di_addrs d) = 13" by (simp add: d_def)
  have ino: "inode_of_img t j = (if ?i = j then d else inode_of_img s j)" if "unat j < 208" for j
    unfolding inode_of_img_def[of t] inode_of_img_def[of s j] st(1) by (rule inode_put[where D = "sect s", OF assms(2) that l512 len])
  have ui: "unat (?i + 1) = unat ?i + 1" using less_Suc_word[of ?i 208] assms(2) by simp
  have z: "sect t 0 = sect s 0" using zero_not_inode[OF assms(2)] by (simp add: st(1))
  have new: "has_blocks (sect t) d 0"
  proof -
    have "sect s 0 = replicate 512 0" using ok(1) by (simp add: fresh_from_def)
    moreover have "di_addrs d ! k = 0" if "k < 13" for k using that by (simp only: d_def dinode.simps nth_replicate)
    then have "di_addrs d ! NDIRECT = 0" "\<And>k. k < NDIRECT \<Longrightarrow> di_addrs d ! k = 0" by (simp_all add: NDIRECT_def)
    ultimately have "waddr (sect t) d k = 0" if "k < MAXFILE" for k
      using that z ind_bound[of k] by (auto simp: waddr_def get32_zeros)
    then show ?thesis using len by (simp add: has_blocks_def d_def NDIRECT_def)
  qed
  have old: "unat j < 208" "j \<noteq> ?i" "inode_of_img t j = inode_of_img s j" "has_blocks (sect t) (inode_of_img s j) (nblk (L j))"
      "owned (sect t) (inode_of_img s j) (nblk (L j)) = owned (sect s) (inode_of_img s j) (nblk (L j))"
      "fbytes (sect t) (inode_of_img s j) (L j) = fbytes (sect s) (inode_of_img s j) (L j)"
    if j: "0 < j" "j < ?i" for j
  proof -
    show j2: "unat j < 208" "j \<noteq> ?i" using j(2) assms(2) by (auto simp: word_less_nat_alt)
    show "inode_of_img t j = inode_of_img s j" using ino[OF j2(1)] j2(2) by simp
    have eq: "sect t b = sect s b" if "b \<in> owned (sect s) (inode_of_img s j) (nblk (L j))" for b
      using ok(7)[OF j that] low_sector[OF assms(2)] by (auto simp: st(1))
    show "has_blocks (sect t) (inode_of_img s j) (nblk (L j))" "owned (sect t) (inode_of_img s j) (nblk (L j)) = owned (sect s) (inode_of_img s j) (nblk (L j))"
      "fbytes (sect t) (inode_of_img s j) (L j) = fbytes (sect s) (inode_of_img s j) (L j)"
      by (rule file_keep[where E = "sect t", OF ok(6)[OF j] z], erule eq)+
  qed
  have di: "inode_of_img t ?i = d" using ino[OF assms(2)] by simp
  have split: "j = ?i \<or> j < ?i" if "j < ?i + 1" for j using that ui by (auto simp: word_less_nat_alt unat_same[symmetric])
  have fresh: "fresh_from (sect t) (freeblock s) (nsect s)"
  proof -
    have "\<not> freeblock s \<le> i2b ?i" using low_sector[OF assms(2)] ok(2) by (auto simp: word_less_nat_alt word_le_nat_alt)
    moreover have "length (sect t b) = 512" if "unat b < nsect s" for b using length_sect[of b t] that st(3) by simp
    ultimately show ?thesis using ok(1) z unfolding fresh_from_def by (metis fun_upd_other st(1))
  qed
  have "img_ok t L"
    unfolding img_ok_def st(2-4)
  proof (intro conjI allI impI)
    fix j assume j: "0 < j \<and> j < ?i + 1"
    have c: "j = ?i \<or> 0 < j \<and> j < ?i" using split j by blast
    then show "has_blocks (sect t) (inode_of_img t j) (nblk (L j))" "di_type (inode_of_img t j) \<in> {T_DIR, T_FILE}"
      using new di old[of j] assms(3,4) ok(8)[of j] by (auto simp: d_def)
    show "\<forall>b \<in> owned (sect t) (inode_of_img t j) (nblk (L j)). 28 < b \<and> b < freeblock s"
      using c di old[of j] assms(4) ok(7)[of j] by auto
  next
    fix j k assume "0 < j \<and> j < ?i + 1 \<and> 0 < k \<and> k < ?i + 1 \<and> j \<noteq> k"
    then show "owned (sect t) (inode_of_img t j) (nblk (L j)) \<inter> owned (sect t) (inode_of_img t k) (nblk (L k)) = {}"
      using split[of j] split[of k] old[of j] old[of k] ok(9)[of j k] assms(4) di by auto
  qed (use fresh ok(2,3) assms(2) ui in \<open>simp_all add: word_less_nat_alt\<close>)
  moreover have "mk_ialloc type s = Ok (?i, t)" using t(1) by (simp add: mk_ialloc_def d_def s1_def andthen_Ok)
  moreover have "sect t b = sect s b" if "unat b < 2 \<or> b = 28" for b
  proof -
    have "b \<noteq> i2b ?i" using that inode_sector[OF assms(2)] inode_sector_bound[OF assms(2)] by auto
    then show ?thesis by (simp add: st(1))
  qed
  ultimately show thesis using st(2-5) di old by (intro that[of t]) (simp_all add: d_def)
qed

section \<open>mkfs\<close>

lemma zero_sectors_result:
  assumes "content (mk_fd s) = replicate (512 * i) 0" "i + n < 2 ^ 31"
  shows "\<exists>f. zero_sectors i n s = Ok ((), s\<lparr>mk_fd := f\<rparr>) \<and> content f = replicate (512 * (i + n)) 0"
  using assms
proof (induction n arbitrary: i s)
  case 0
  then show ?case by (intro exI[of _ "mk_fd s"]) simp
next
  case (Suc n)
  define f where "f = fd_write (replicate 512 0) (lseek (uint (of_nat i :: 32 word) * 512) (mk_fd s))"
  have ui: "unat (of_nat i :: 32 word) = i" using Suc.prems(2) by (simp add: unat_of_nat)
  have "content f = poke (512 * i) (replicate 512 0) (replicate (512 * i) 0)"
    using seek_pos[of "of_nat i :: 32 word"] Suc.prems(1) by (simp add: f_def fd_write_def ui)
  also have "\<dots> = replicate (512 * i) 0 @ replicate 512 0" by (simp add: poke_def)
  also have "\<dots> = replicate (512 * Suc i) 0" by (simp only: replicate_add[symmetric] mult_Suc_right add.commute)
  finally have c: "content (mk_fd (s\<lparr>mk_fd := f\<rparr>)) = replicate (512 * Suc i) 0" by simp
  have "Suc i + n < 2 ^ 31" using Suc.prems(2) by simp
  from Suc.IH[OF c this] obtain g where "zero_sectors (Suc i) n (s\<lparr>mk_fd := f\<rparr>) = Ok ((), s\<lparr>mk_fd := g\<rparr>)" "content g = replicate (512 * (Suc i + n)) 0"
    by auto
  moreover have "wsect (of_nat i) (replicate 512 0) s = Ok ((), s\<lparr>mk_fd := f\<rparr>)" by (simp only: wsect_def f_def comp_simps)
  ultimately show ?case by (intro exI[of _ g]) (simp add: andthen_Ok)
qed

lemma length_enc_sb [simp]: "length (enc_sb sb) = 12"
  by (simp add: enc_sb_def)

lemma mkfs_result:
  obtains t where "mkfs 995 200 1024 mkfs_start = Ok (0, t)" "img_ok t (\<lambda>_. 0)" "freeinode t = 1" "freeblock t = 29" "usedblocks t = 29" "nsect t = 1024"
    "dec_sb (sect t 1) = \<lparr>sb_size = 1024, sb_nblocks = 995, sb_ninodes = 200\<rparr>"
proof -
  define s0 where "s0 = mkfs_start\<lparr>bitblocks := 1, usedblocks := 29, freeblock := 29\<rparr>"
  define sb where "sb = \<lparr>sb_size = 1024 :: 32 word, sb_nblocks = 995, sb_ninodes = 200\<rparr>"
  have "content (mk_fd s0) = replicate (512 * 0) 0" by (simp add: s0_def mkfs_start_def)
  from zero_sectors_result[OF this, of 1024] obtain f where f: "zero_sectors 0 1024 s0 = Ok ((), s0\<lparr>mk_fd := f\<rparr>)" "content f = replicate (512 * 1024) 0"
    by auto
  define s1 where "s1 = s0\<lparr>mk_fd := f\<rparr>"
  have n1: "nsect s1 = 1024" by (simp add: nsect_def s1_def f(2))
  have z: "sect s1 b = replicate 512 0" if "unat b < 1024" for b
  proof -
    have "512 * unat b + 512 \<le> 512 * 1024" using that by simp
    then show ?thesis by (simp add: sect_def s1_def f(2) peek_def min_def)
  qed
  have len: "length (poke 0 (enc_sb sb) (replicate 512 0)) = 512" by (simp add: poke_def)
  obtain t where t: "wsect 1 (poke 0 (enc_sb sb) (replicate 512 0)) s1 = Ok ((), t)"
    "img_to ((sect s1)(1 := poke 0 (enc_sb sb) (replicate 512 0))) (freeblock s1) s1 t"
    using wsect_inside[OF _ len, of 1 s1] n1 by auto
  have st: "sect t = (sect s1)(1 := poke 0 (enc_sb sb) (replicate 512 0))" "freeblock t = 29" "usedblocks t = 29" "freeinode t = 1" "nsect t = 1024"
    using t(2) n1 by (simp_all add: img_to_def s1_def s0_def mkfs_start_def)
  have "mkfs 995 200 1024 mkfs_start = Ok (0, t)"
    using f(1) t(1) by (simp add: mkfs_def Let_def IPB_def BSIZE_def s0_def[symmetric] s1_def[symmetric] sb_def[symmetric] andthen_Ok)
  moreover have "fresh_from (sect t) 29 1024"
    unfolding fresh_from_def st(1) using z len by (auto simp: word_le_nat_alt)
  then have "img_ok t (\<lambda>_. 0)"
    unfolding img_ok_def st(2-5) by (auto simp: word_less_nat_alt)
  moreover have "dec_sb (sect t 1) = sb"
    unfolding st(1) by (simp add: dec_sb_def enc_sb_def get32_def peek_def poke_def sb_def) (simp add: rd32_def le32_def)
  ultimately show thesis using st that by (simp add: sb_def)
qed

section \<open>The kernel's view\<close>

definition disk_of :: "mkfs_state \<Rightarrow> key \<Rightarrow> byte list" where
  "disk_of s = (\<lambda>(dev, b). sect s b)"

text \<open>The inode as \<open>ilock\<close> loads it.\<close>

definition loaded :: "mkfs_state \<Rightarrow> 32 word \<Rightarrow> incore" where
  "loaded s i = from_dinode (disk_inode (disk_of s) ROOTDEV i) (empty_inode\<lparr>ip_dev := ROOTDEV, ip_inum := i\<rparr>)"

lemma disk_inode_image: "disk_inode (disk_of s) dev i = inode_of_img s i"
  by (simp add: disk_inode_def disk_of_def inode_of_img_def i2b_IBLOCK)

lemma kernel_view:
  assumes "di_type (inode_of_img s i) \<in> {T_DIR, T_FILE}"
  shows "file_slice (disk_of s) (loaded s i) 0 n = fbytes (sect s) (inode_of_img s i) n"
proof -
  let ?ip = "loaded s i"
  have "amask ?ip = id" using assms by (auto simp: amask_def loaded_def from_dinode_def disk_inode_image T_CHECKED_def T_DIR_def T_FILE_def)
  moreover have "ip_addrs ?ip = di_addrs (inode_of_img s i)" "ip_dev ?ip = ROOTDEV" by (simp_all add: loaded_def from_dinode_def disk_inode_image)
  ultimately have "blk (disk_of s) ?ip k = (ROOTDEV, waddr (sect s) (inode_of_img s i) k)" for k
    by (simp add: blk_def addr_word_def ind_key_def waddr_def disk_of_def)
  then show ?thesis by (simp add: file_slice_def fbytes_def file_byte_def BSIZE_def) (simp add: disk_of_def)
qed

text \<open>
  \<open>iappend\<close> of the program that builds the image, in the kernel's terms: from an image in good order, while the file stays below the
  largest size and free sectors are left, it returns with an image in good order on which the file that the kernel reads is the
  old one followed by the new bytes, and its inode has the new size; every other inode and file is as before, and it has taken as many
  sectors as the new blocks and, where it starts, the indirect block need.
\<close>

theorem iappend_appends:
  assumes "img_ok s L" "0 < i" "i < freeinode s" "di_size (disk_inode (disk_of s) ROOTDEV i) = of_nat (L i)" "L i + length p \<le> MAXFILE * 512"
    "unat (freeblock s) + cost (L i + length p) \<le> nsect s + cost (L i)"
  shows "\<exists>t. iappend i p s = Ok ((), t) \<and> img_ok t (L(i := L i + length p)) \<and> ip_size (loaded t i) = of_nat (L i + length p) \<and>
    file_slice (disk_of t) (loaded t i) 0 (L i + length p) = file_slice (disk_of s) (loaded s i) 0 (L i) @ p \<and>
    (\<forall>j. 0 < j \<and> j < freeinode s \<and> j \<noteq> i \<longrightarrow> loaded t j = loaded s j \<and>
      file_slice (disk_of t) (loaded t j) 0 (L j) = file_slice (disk_of s) (loaded s j) 0 (L j)) \<and>
    unat (freeblock t) + cost (L i) = unat (freeblock s) + cost (L i + length p)"
proof -
  note ok = img_okD[OF assms(1)]
  obtain t where t: "iappend i p s = Ok ((), t)" "img_to (sect t) (freeblock t) s t" "img_ok t (L(i := L i + length p))"
    "fbytes (sect t) (inode_of_img t i) (L i + length p) = fbytes (sect s) (inode_of_img s i) (L i) @ p"
    "di_size (inode_of_img t i) = of_nat (L i + length p)" "di_type (inode_of_img t i) = di_type (inode_of_img s i)"
    "\<forall>j. 0 < j \<and> j < freeinode s \<and> j \<noteq> i \<longrightarrow> inode_of_img t j = inode_of_img s j \<and> fbytes (sect t) (inode_of_img t j) (L j) = fbytes (sect s) (inode_of_img s j) (L j)"
    "unat (freeblock t) + cost (L i) = unat (freeblock s) + cost (L i + length p)" "\<forall>b. unat b < 2 \<or> b = 28 \<longrightarrow> sect t b = sect s b"
    using iappend_img_ok[OF assms(1-3) _ assms(5,6)] assms(4) unfolding disk_inode_image .
  have "ip_size (loaded t i) = of_nat (L i + length p)" using t(5) by (simp add: loaded_def from_dinode_def disk_inode_image)
  moreover have "file_slice (disk_of t) (loaded t i) 0 (L i + length p) = file_slice (disk_of s) (loaded s i) 0 (L i) @ p"
    using kernel_view[of s i] kernel_view[of t i] ok(8)[OF assms(2,3)] t(4,6) by simp
  moreover have "loaded t j = loaded s j \<and> file_slice (disk_of t) (loaded t j) 0 (L j) = file_slice (disk_of s) (loaded s j) 0 (L j)"
    if j: "0 < j" "j < freeinode s" "j \<noteq> i" for j
  proof -
    have tj: "inode_of_img t j = inode_of_img s j" "fbytes (sect t) (inode_of_img t j) (L j) = fbytes (sect s) (inode_of_img s j) (L j)"
      using t(7) j by blast+
    moreover have "loaded t j = loaded s j" using tj(1) by (simp add: loaded_def disk_inode_image)
    ultimately show ?thesis using kernel_view[of s j "L j"] kernel_view[of t j "L j"] ok(8)[OF j(1,2)] by metis
  qed
  ultimately show ?thesis using t(1,3,8) by blast
qed

theorem iappend_appends_witness:
  "\<exists>s t. freeinode s = 2 \<and> iappend 1 (replicate 7000 5) s = Ok ((), t) \<and> file_slice (disk_of t) (loaded t 1) 0 7000 = replicate 7000 5 \<and> freeblock t = 44"
proof -
  obtain s0 where s0: "mkfs 995 200 1024 mkfs_start = Ok (0, s0)" "img_ok s0 (\<lambda>_. 0)" "freeinode s0 = 1" "freeblock s0 = 29" "usedblocks s0 = 29" "nsect s0 = 1024"
    "dec_sb (sect s0 1) = \<lparr>sb_size = 1024, sb_nblocks = 995, sb_ninodes = 200\<rparr>" using mkfs_result .
  have "unat (freeinode s0) < 208" "T_FILE \<in> {T_DIR, T_FILE}" using s0(3) by simp_all
  from mk_ialloc_img_ok[OF s0(2) this refl] obtain s where "img_ok s (\<lambda>_. 0)" "freeinode s = freeinode s0 + 1" "freeblock s = freeblock s0" "nsect s = nsect s0"
    "inode_of_img s (freeinode s0) = \<lparr>di_type = T_FILE, di_major = 0, di_minor = 0, di_nlink = 1, di_size = 0, di_addrs = replicate 13 0\<rparr>" by metis
  then have s: "img_ok s (\<lambda>_. 0)" "freeinode s = 2" "freeblock s = 29" "nsect s = 1024" "di_size (inode_of_img s 1) = 0"
    using s0(3,4,6) by simp_all
  have c: "cost 7000 = 15" "cost 0 = 0" by (simp_all add: cost_def nblk_def NDIRECT_def)
  define p :: "byte list" where "p = replicate 7000 5"
  have p: "length p = 7000" by (simp add: p_def)
  have "\<exists>t. iappend 1 p s = Ok ((), t) \<and> img_ok t ((\<lambda>_. 0)(1 := 0 + length p)) \<and> ip_size (loaded t 1) = of_nat (0 + length p) \<and>
    file_slice (disk_of t) (loaded t 1) 0 (0 + length p) = file_slice (disk_of s) (loaded s 1) 0 0 @ p \<and>
    (\<forall>j. 0 < j \<and> j < freeinode s \<and> j \<noteq> 1 \<longrightarrow> loaded t j = loaded s j \<and> file_slice (disk_of t) (loaded t j) 0 0 = file_slice (disk_of s) (loaded s j) 0 0) \<and>
    unat (freeblock t) + cost 0 = unat (freeblock s) + cost (0 + length p)"
    by (rule iappend_appends[OF s(1)]) (use c s p in \<open>simp_all add: disk_inode_image MAXFILE_def NINDIRECT_def NDIRECT_def BSIZE_def\<close>)
  then obtain t where t: "iappend 1 p s = Ok ((), t)" "file_slice (disk_of t) (loaded t 1) 0 7000 = p" "unat (freeblock t) = 44"
    using c s(3) p by (auto simp: file_slice_def)
  have "freeblock t = 44" using t(3) by (simp add: unat_same[symmetric])
  with s(2) t(1,2) show ?thesis unfolding p_def by blast
qed

end
