(* ===== verification/Mkfs_Tree.thy ===== *)
theory Mkfs_Tree
  imports Mkfs_Files
begin

text \<open>
  The image that \<open>main\<close> of \<open>mkfs.c\<close> leaves: superblock, bitmap, and the directory tree of the host as inodes and directory entries.
  \<open>stored\<close> relates a tree to inode numbers through a predicate that says what an inode holds; \<open>add_entries\<close> is shown by induction over the
  tree, with the files that exist before left alone.
\<close>

section \<open>Trees on an image\<close>

type_synonym holds = "32 word \<Rightarrow> 16 word \<Rightarrow> 32 word \<Rightarrow> byte list \<Rightarrow> bool"

text \<open>The 16 bytes of a directory entry: the inode number, low byte first, and the name, cut at 14 bytes or padded with zeros.\<close>

definition entry_bytes :: "32 word \<Rightarrow> byte list \<Rightarrow> byte list" where
  "entry_bytes i n = [ucast i, ucast (drop_bit 8 i)] @ take 14 n @ replicate (14 - length n) 0"

definition dots :: "32 word \<Rightarrow> 32 word \<Rightarrow> byte list" where
  "dots cur parent = entry_bytes cur [46] @ entry_bytes parent [46, 46]"

definition dirents :: "(byte list \<times> 32 word) list \<Rightarrow> byte list" where
  "dirents es = concat (map (\<lambda>(n, i). entry_bytes i n) es)"

definition dot_entry :: "byte list \<Rightarrow> bool" where
  "dot_entry n \<longleftrightarrow> n = dot_name \<or> n = dotdot_name"

text \<open>The size that \<open>add_dir\<close> gives a directory of \<open>n\<close> bytes.\<close>

definition dir_size :: "nat \<Rightarrow> 32 word" where
  "dir_size n = (of_nat n div of_nat BSIZE + 1) * of_nat BSIZE"

text \<open>
  \<open>stored P R h p c\<close>: inode \<open>c\<close> holds the tree \<open>h\<close>, whose parent is inode \<open>p\<close>, in inodes of the set \<open>R\<close>; \<open>listed P R d c es\<close>: \<open>es\<close> are the
  names and inode numbers of the entries of \<open>d\<close>. \<open>P c\<close> says which type, size and first bytes inode \<open>c\<close> has.
\<close>

primrec stored :: "holds \<Rightarrow> 32 word set \<Rightarrow> hnode \<Rightarrow> 32 word \<Rightarrow> 32 word \<Rightarrow> bool"
  and listed :: "holds \<Rightarrow> 32 word set \<Rightarrow> hdir \<Rightarrow> 32 word \<Rightarrow> (byte list \<times> 32 word) list \<Rightarrow> bool" where
  "stored P R Unopened p c = False"
| "stored P R Unstated p c = False"
| "stored P R (HFile bs) p c = (c \<in> R \<and> P c T_FILE (of_nat (length bs)) bs)"
| "stored P R HNoStream p c = (c \<in> R \<and> P c T_DIR 32 (dots c p))"
| "stored P R (HDir d) p c =
     (c \<in> R \<and> (\<exists>es. listed P R d c es \<and> P c T_DIR (dir_size (32 + 16 * length es)) (dots c p @ dirents es)))"
| "listed P R HEnd c es = (es = [])"
| "listed P R (HEntry n h d) c es =
     (if dot_entry n then listed P R d c es
      else \<exists>i fs. es = (n, i) # fs \<and> stored P R h c i \<and> listed P R d c fs)"

lemma stored_mono:
  shows "stored P R h p c \<Longrightarrow> R \<subseteq> S \<Longrightarrow> (\<And>i t z b. i \<in> R \<Longrightarrow> P i t z b \<Longrightarrow> Q i t z b) \<Longrightarrow> stored Q S h p c"
    and "listed P R d c es \<Longrightarrow> R \<subseteq> S \<Longrightarrow> (\<And>i t z b. i \<in> R \<Longrightarrow> P i t z b \<Longrightarrow> Q i t z b) \<Longrightarrow> listed Q S d c es"
proof (induction h and d arbitrary: p c and c es)
  case (HDir d)
  then show ?case by auto blast
next
  case (HEntry n h d)
  then show ?case by (auto split: if_splits)
qed auto

text \<open>What a tree needs: inodes, sectors, and sizes below the largest file.\<close>

primrec inodes :: "hnode \<Rightarrow> nat" and inodes_in :: "hdir \<Rightarrow> nat" where
  "inodes Unopened = 0" | "inodes Unstated = 0" | "inodes (HFile bs) = 1" | "inodes HNoStream = 1" | "inodes (HDir d) = Suc (inodes_in d)"
| "inodes_in HEnd = 0" | "inodes_in (HEntry n h d) = (if dot_entry n then 0 else inodes h) + inodes_in d"

primrec entries :: "hdir \<Rightarrow> nat" where
  "entries HEnd = 0" | "entries (HEntry n h d) = (if dot_entry n then 0 else 1) + entries d"

primrec sectors :: "hnode \<Rightarrow> nat" and sectors_in :: "hdir \<Rightarrow> nat" where
  "sectors Unopened = 0" | "sectors Unstated = 0" | "sectors (HFile bs) = cost (length bs)" | "sectors HNoStream = cost 32"
| "sectors (HDir d) = cost (32 + 16 * entries d) + sectors_in d"
| "sectors_in HEnd = 0" | "sectors_in (HEntry n h d) = (if dot_entry n then 0 else sectors h) + sectors_in d"

primrec fits :: "hnode \<Rightarrow> bool" and fits_in :: "hdir \<Rightarrow> bool" where
  "fits Unopened = False" | "fits Unstated = False" | "fits (HFile bs) = (length bs \<le> MAXFILE * 512)" | "fits HNoStream = True"
| "fits (HDir d) = (32 + 16 * entries d \<le> MAXFILE * 512 \<and> fits_in d)"
| "fits_in HEnd = True" | "fits_in (HEntry n h d) = ((dot_entry n \<or> fits h) \<and> fits_in d)"

section \<open>Steps that leave files alone\<close>

definition holds_in :: "mkfs_state \<Rightarrow> (32 word \<Rightarrow> nat) \<Rightarrow> holds" where
  "holds_in s L c ty z bs \<longleftrightarrow> di_type (inode_of_img s c) = ty \<and> di_size (inode_of_img s c) = z \<and> L c = length bs \<and>
     fbytes (sect s) (inode_of_img s c) (L c) = bs"

definition cont :: "mkfs_state \<Rightarrow> (32 word \<Rightarrow> nat) \<Rightarrow> 32 word \<Rightarrow> dinode \<times> nat \<times> byte list" where
  "cont s L i = (inode_of_img s i, L i, fbytes (sect s) (inode_of_img s i) (L i))"

text \<open>
  From \<open>s\<close> to \<open>t\<close> the inodes of \<open>s\<close> outside \<open>W\<close> and their contents stay, \<open>a\<close> inodes and \<open>n\<close> sectors are taken.
\<close>

definition grows :: "32 word set \<Rightarrow> nat \<Rightarrow> nat \<Rightarrow> mkfs_state \<Rightarrow> (32 word \<Rightarrow> nat) \<Rightarrow> mkfs_state \<Rightarrow> (32 word \<Rightarrow> nat) \<Rightarrow> bool" where
  "grows W a n s L t M \<longleftrightarrow> img_ok t M \<and> nsect t = nsect s \<and> unat (freeinode t) = unat (freeinode s) + a \<and>
     unat (freeblock t) = unat (freeblock s) + n \<and> usedblocks t - freeblock t = usedblocks s - freeblock s \<and>
     (\<forall>i. 0 < i \<and> i < freeinode s \<and> i \<notin> W \<longrightarrow> cont t M i = cont s L i) \<and>
     (\<forall>i. freeinode t \<le> i \<longrightarrow> M i = 0) \<and> (\<forall>b. unat b < 2 \<or> b = 28 \<longrightarrow> sect t b = sect s b)"

lemma growsD:
  assumes "grows W a n s L t M"
  shows "img_ok t M" "nsect t = nsect s" "unat (freeinode t) = unat (freeinode s) + a" "unat (freeblock t) = unat (freeblock s) + n"
    "usedblocks t - freeblock t = usedblocks s - freeblock s"
    "0 < i \<Longrightarrow> i < freeinode s \<Longrightarrow> i \<notin> W \<Longrightarrow> cont t M i = cont s L i"
    "freeinode t \<le> i \<Longrightarrow> M i = 0" "unat b < 2 \<or> b = 28 \<Longrightarrow> sect t b = sect s b" "freeinode s \<le> freeinode t"
  using assms unfolding grows_def by (blast, blast, blast, blast, blast, blast, blast, blast, simp add: word_le_nat_alt)

lemma grows_refl: "img_ok s L \<Longrightarrow> (\<And>i. freeinode s \<le> i \<Longrightarrow> L i = 0) \<Longrightarrow> grows W 0 0 s L s L"
  by (simp add: grows_def)

lemma grows_trans:
  assumes "grows W a n s L t M" "grows X b m t M u N" "X \<inter> {i. i < freeinode s} \<subseteq> W"
  shows "grows W (a + b) (n + m) s L u N"
proof -
  note 1 = growsD[OF assms(1)] and 2 = growsD[OF assms(2)]
  have "cont u N i = cont s L i"
    if i: "0 < i" "i < freeinode s" "i \<notin> W" for i
  proof -
    have "i < freeinode t" "i \<notin> X" using i 1(9) assms(3) by (auto dest: less_le_trans)
    then show ?thesis using 1(6)[OF i] 2(6)[OF i(1)] by simp
  qed
  moreover have "sect u b = sect s b" if "unat b < 2 \<or> b = 28" for b using 1(8)[OF that] 2(8)[OF that] by simp
  ultimately show ?thesis using 1(2-5) 2(1-5,7) unfolding grows_def by auto
qed

lemma holds_keep:
  assumes "grows W a n s L t M" "0 < i" "i < freeinode s" "i \<notin> W"
  shows "holds_in t M i = holds_in s L i"
  using growsD(6)[OF assms] by (auto simp: holds_in_def cont_def fun_eq_iff)

lemma iappend_grows:
  assumes "img_ok s L" "\<And>j. freeinode s \<le> j \<Longrightarrow> L j = 0" "0 < i" "i < freeinode s" "holds_in s L i ty (of_nat (length bs)) bs"
    "length bs + length p \<le> MAXFILE * 512" "unat (freeblock s) + cost (length bs + length p) \<le> nsect s + cost (length bs)"
  obtains t where "iappend i p s = Ok ((), t)" "grows {i} 0 (cost (length bs + length p) - cost (length bs)) s L t (L(i := length bs + length p))"
    "holds_in t (L(i := length bs + length p)) i ty (of_nat (length (bs @ p))) (bs @ p)"
proof -
  have h: "di_type (inode_of_img s i) = ty" "di_size (inode_of_img s i) = of_nat (L i)" "L i = length bs" "fbytes (sect s) (inode_of_img s i) (L i) = bs"
    using assms(5) by (auto simp: holds_in_def)
  obtain t where t: "iappend i p s = Ok ((), t)" "img_to (sect t) (freeblock t) s t" "img_ok t (L(i := L i + length p))"
    "fbytes (sect t) (inode_of_img t i) (L i + length p) = fbytes (sect s) (inode_of_img s i) (L i) @ p"
    "di_size (inode_of_img t i) = of_nat (L i + length p)" "di_type (inode_of_img t i) = di_type (inode_of_img s i)"
    "\<forall>j. 0 < j \<and> j < freeinode s \<and> j \<noteq> i \<longrightarrow> inode_of_img t j = inode_of_img s j \<and> fbytes (sect t) (inode_of_img t j) (L j) = fbytes (sect s) (inode_of_img s j) (L j)"
    "unat (freeblock t) + cost (L i) = unat (freeblock s) + cost (L i + length p)" "\<forall>b. unat b < 2 \<or> b = 28 \<longrightarrow> sect t b = sect s b"
    using iappend_img_ok[OF assms(1,3,4) h(2)] assms(6,7) unfolding h(3) .
  have fi: "freeinode t = freeinode s" "nsect t = nsect s" "usedblocks t - freeblock t = usedblocks s - freeblock s"
    using t(2) by (simp_all add: img_to_def)
  have fb: "unat (freeblock t) = unat (freeblock s) + (cost (length bs + length p) - cost (length bs))"
    using t(8) h(3) cost_mono[of "length bs" "length bs + length p"] by simp
  have "cont t (L(i := L i + length p)) j = cont s L j" if "0 < j" "j < freeinode s" "j \<noteq> i" for j
    using t(7) that by (auto simp: cont_def)
  moreover have "(L(i := L i + length p)) j = 0" if "freeinode s \<le> j" for j using assms(2)[OF that] assms(4) that by (auto simp: not_less[symmetric])
  ultimately have "grows {i} 0 (cost (length bs + length p) - cost (length bs)) s L t (L(i := L i + length p))"
    unfolding grows_def using t(3,9) fi fb by auto
  moreover have "holds_in t (L(i := L i + length p)) i ty (of_nat (length (bs @ p))) (bs @ p)"
    using t(4-6) h by (simp add: holds_in_def)
  ultimately show thesis using t(1) unfolding h(3) by (intro that)
qed

lemma ialloc_grows:
  assumes "img_ok s L" "\<And>j. freeinode s \<le> j \<Longrightarrow> L j = 0" "unat (freeinode s) < 208" "ty \<in> {T_DIR, T_FILE}"
  obtains t where "mk_ialloc ty s = Ok (freeinode s, t)" "grows {} 1 0 s L t L" "holds_in t L (freeinode s) ty 0 []"
proof -
  have l0: "L (freeinode s) = 0" using assms(2) by simp
  obtain t where t: "mk_ialloc ty s = Ok (freeinode s, t)" "img_ok t L" "freeinode t = freeinode s + 1" "freeblock t = freeblock s" "nsect t = nsect s"
    "usedblocks t = usedblocks s" "inode_of_img t (freeinode s) = \<lparr>di_type = ty, di_major = 0, di_minor = 0, di_nlink = 1, di_size = 0, di_addrs = replicate 13 0\<rparr>"
    "\<forall>j. 0 < j \<and> j < freeinode s \<longrightarrow> inode_of_img t j = inode_of_img s j \<and> fbytes (sect t) (inode_of_img t j) (L j) = fbytes (sect s) (inode_of_img s j) (L j)"
    "\<forall>b. unat b < 2 \<or> b = 28 \<longrightarrow> sect t b = sect s b"
    using mk_ialloc_img_ok[OF assms(1,3,4) l0] .
  have u: "unat (freeinode t) = unat (freeinode s) + 1" using less_Suc_word[of "freeinode s" 208] assms(3) t(3) by simp
  have "cont t L j = cont s L j" if "0 < j" "j < freeinode s" for j using t(8) that by (auto simp: cont_def)
  moreover have "L j = 0" if "freeinode t \<le> j" for j using that u by (intro assms(2)) (simp add: word_le_nat_alt)
  ultimately have "grows {} 1 0 s L t L" unfolding grows_def using t(2,4-6,9) u by auto
  moreover have "holds_in t L (freeinode s) ty 0 []" using t(7) l0 by (simp add: holds_in_def fbytes_def)
  ultimately show thesis using t(1) by (intro that)
qed

lemma fix_size_grows:
  assumes "img_ok s L" "\<And>j. freeinode s \<le> j \<Longrightarrow> L j = 0" "0 < i" "i < freeinode s" "holds_in s L i ty (of_nat (length bs)) bs"
  obtains t where "fix_size i s = Ok ((), t)" "grows {i} 0 0 s L t L" "holds_in t L i ty (dir_size (length bs)) bs"
proof -
  note ok = img_okD[OF assms(1)]
  let ?d = "inode_of_img s i"
  have h: "di_type ?d = ty" "di_size ?d = of_nat (length bs)" "L i = length bs" "fbytes (sect s) ?d (L i) = bs"
    using assms(5) by (auto simp: holds_in_def)
  have i: "unat i < 208" using assms(4) ok(5) by (simp add: word_less_nat_alt)
  have n28: "28 \<le> nsect s" using ok(2,3) by (simp add: word_less_nat_alt)
  obtain s1 where s1: "rinode i s = Ok (?d, s1)" "img_to (sect s) (freeblock s) s s1" using rinode_result[OF i n28] .
  note e1 = img_toD[OF s1(2)]
  define e where "e = ?d\<lparr>di_size := dir_size (length bs)\<rparr>"
  have len: "length (di_addrs e) = 13" using has_blocksD(1)[OF ok(6)[OF assms(3,4)]] by (simp add: e_def)
  obtain t where t: "winode i e s1 = Ok ((), t)" "img_to ((sect s)(i2b i := put_dinode i e (sect s (i2b i)))) (freeblock s) s1 t"
    using winode_result[OF i _ len, of s1] n28 unfolding e1 by auto
  have to: "img_to ((sect s)(i2b i := put_dinode i e (sect s (i2b i)))) (freeblock s) s t" using img_to_trans[OF s1(2) t(2)] .
  have st: "sect t = (sect s)(i2b i := put_dinode i e (sect s (i2b i)))" "freeblock t = freeblock s" "nsect t = nsect s" "freeinode t = freeinode s" "usedblocks t = usedblocks s"
    using to by (simp_all add: img_to_def)
  have l512: "length (sect s (i2b i)) = 512" using length_sect[of "i2b i" s] inode_sector_bound[OF i] n28 by simp
  have ino: "inode_of_img t j = (if i = j then e else inode_of_img s j)" if "unat j < 208" for j
    unfolding inode_of_img_def[of t] inode_of_img_def[of s j] st(1) by (rule inode_put[where D = "sect s", OF i that l512 len])
  have z: "sect t 0 = sect s 0" using zero_not_inode[OF i] by (simp add: st(1))
  have keep: "has_blocks (sect t) (inode_of_img t j) (nblk (L j))" "di_type (inode_of_img t j) = di_type (inode_of_img s j)"
      "owned (sect t) (inode_of_img t j) (nblk (L j)) = owned (sect s) (inode_of_img s j) (nblk (L j))"
      "fbytes (sect t) (inode_of_img t j) (L j) = fbytes (sect s) (inode_of_img s j) (L j)" "j \<noteq> i \<Longrightarrow> cont t L j = cont s L j"
    if j: "0 < j" "j < freeinode s" for j
  proof -
    have j2: "unat j < 208" using j(2) ok(5) by (simp add: word_less_nat_alt)
    have eq: "sect t b = sect s b" if "b \<in> owned (sect s) (inode_of_img s j) (nblk (L j))" for b
      using ok(7)[OF j that] low_sector[OF i] by (auto simp: st(1))
    have fk: "has_blocks (sect t) (inode_of_img s j) (nblk (L j))" "owned (sect t) (inode_of_img s j) (nblk (L j)) = owned (sect s) (inode_of_img s j) (nblk (L j))"
      "fbytes (sect t) (inode_of_img s j) (L j) = fbytes (sect s) (inode_of_img s j) (L j)"
      by (rule file_keep[where E = "sect t", OF ok(6)[OF j] z], erule eq)+
    have "\<exists>y. inode_of_img t j = (inode_of_img s j)\<lparr>di_size := y\<rparr>"
      using ino[OF j2] by (cases "i = j") (auto simp: e_def intro: exI[of _ "di_size (inode_of_img s j)"])
    then obtain y where y: "inode_of_img t j = (inode_of_img s j)\<lparr>di_size := y\<rparr>" ..
    show "has_blocks (sect t) (inode_of_img t j) (nblk (L j))" "di_type (inode_of_img t j) = di_type (inode_of_img s j)"
      "owned (sect t) (inode_of_img t j) (nblk (L j)) = owned (sect s) (inode_of_img s j) (nblk (L j))"
      "fbytes (sect t) (inode_of_img t j) (L j) = fbytes (sect s) (inode_of_img s j) (L j)" unfolding y using fk by simp_all
    show "j \<noteq> i \<Longrightarrow> cont t L j = cont s L j" using ino[OF j2] fk(3) by (simp add: cont_def)
  qed
  have fresh: "fresh_from (sect t) (freeblock s) (nsect s)"
  proof -
    have "\<not> freeblock s \<le> i2b i" using low_sector[OF i] ok(2) by (auto simp: word_less_nat_alt word_le_nat_alt)
    moreover have "length (sect t b) = 512" if "unat b < nsect s" for b using length_sect[of b t] that st(3) by simp
    ultimately show ?thesis using ok(1) z unfolding fresh_from_def by (metis fun_upd_other st(1))
  qed
  have "img_ok t L"
    unfolding img_ok_def st(2-4) using fresh ok(2-5) ok(7-9) keep by simp blast
  moreover have "sect t b = sect s b" if "unat b < 2 \<or> b = 28" for b
  proof -
    have "b \<noteq> i2b i" using that inode_sector[OF i] inode_sector_bound[OF i] by auto
    then show ?thesis by (simp add: st(1))
  qed
  ultimately have "grows {i} 0 0 s L t L" unfolding grows_def using st keep(5) assms(2) by simp
  moreover have "holds_in t L i ty (dir_size (length bs)) bs"
    using keep(2,4)[OF assms(3,4)] ino[OF i] h by (simp add: holds_in_def e_def)
  moreover have "fix_size i s = Ok ((), t)"
    using s1(1) t(1) h(2) by (simp add: fix_size_def andthen_Ok e_def dir_size_def)
  ultimately show thesis by (intro that)
qed

section \<open>Files and the two first entries\<close>

lemma append_chunks_grows:
  assumes "img_ok s L" "\<And>j. freeinode s \<le> j \<Longrightarrow> L j = 0" "0 < i" "i < freeinode s" "holds_in s L i ty (of_nat (length bs)) bs"
    "length bs + length p \<le> MAXFILE * 512" "unat (freeblock s) + cost (length bs + length p) \<le> nsect s + cost (length bs)"
  shows "\<exists>t M. append_chunks i p s = Ok ((), t) \<and> grows {i} 0 (cost (length bs + length p) - cost (length bs)) s L t M \<and>
    holds_in t M i ty (of_nat (length (bs @ p))) (bs @ p)"
  using assms
proof (induction "length p" arbitrary: p bs s L rule: less_induct)
  case less
  show ?case
  proof (cases "p = []")
    case True
    then show ?thesis using grows_refl[OF less.prems(1,2), of "{i}"] less.prems(5)
      by (intro exI[of _ s] exI[of _ L]) (simp add: append_chunks.simps)
  next
    case False
    let ?a = "take 512 p" and ?b = "drop 512 p"
    have len: "length ?a + length ?b = length p" "length ?b < length p" using False by simp_all
    have le: "cost (length bs + length ?a) \<le> cost (length bs + length p)" "cost (length bs) \<le> cost (length bs + length ?a)" by (simp_all add: cost_mono)
    obtain t where t: "iappend i ?a s = Ok ((), t)" "grows {i} 0 (cost (length bs + length ?a) - cost (length bs)) s L t (L(i := length bs + length ?a))"
      "holds_in t (L(i := length bs + length ?a)) i ty (of_nat (length (bs @ ?a))) (bs @ ?a)"
      using iappend_grows[OF less.prems(1-5), of ?a] less.prems(6,7) le(1) len(1) by auto
    note g = growsD[OF t(2)]
    have fi: "freeinode t = freeinode s" using g(3) by (simp add: unat_same[symmetric])
    have e: "length (bs @ ?a) + length ?b = length bs + length p" using len(1) by simp
    have room: "unat (freeblock t) + cost (length (bs @ ?a) + length ?b) \<le> nsect t + cost (length (bs @ ?a))"
      unfolding e using g(2,4) less.prems(7) le by simp
    obtain u M where u: "append_chunks i ?b t = Ok ((), u)"
      "grows {i} 0 (cost (length bs + length p) - cost (length (bs @ ?a))) t (L(i := length bs + length ?a)) u M"
      "holds_in u M i ty (of_nat (length ((bs @ ?a) @ ?b))) ((bs @ ?a) @ ?b)"
      using less.hyps[OF len(2) g(1) g(7) less.prems(3) _ t(3) _ room] less.prems(4,6) fi unfolding e by auto
    have "grows {i} 0 (cost (length bs + length p) - cost (length bs)) s L u M"
      using grows_trans[OF t(2) u(2)] le by simp
    moreover have "append_chunks i p s = Ok ((), u)" using False t(1) u(1) by (subst append_chunks.simps) (simp add: andthen_Ok)
    ultimately show ?thesis using u(3) by (intro exI[of _ u] exI[of _ M]) simp
  qed
qed

lemma mk_dirent_bytes: "mk_dirent i n = entry_bytes i n"
proof -
  have "ucast (ucast i :: 16 word) = (ucast i :: byte)" by (auto intro!: bit_word_eqI simp: bit_simps)
  moreover have "ucast (drop_bit 8 (ucast i :: 16 word)) = (ucast (drop_bit 8 i) :: byte)" by (auto intro!: bit_word_eqI simp: bit_simps)
  ultimately show ?thesis by (simp add: mk_dirent_def enc_dirent_def host_strncpy_def DIRSIZ_def entry_bytes_def le16_def)
qed

lemma length_mk_dirent [simp]: "length (entry_bytes i n) = 16" "length (mk_dirent i n) = 16"
  by (simp_all add: mk_dirent_bytes) (simp_all add: entry_bytes_def)

lemma dots_eq: "dots cur parent = mk_dirent cur dot_name @ mk_dirent parent dotdot_name"
  by (simp add: dots_def mk_dirent_bytes dot_name_def dotdot_name_def)

lemma length_dots [simp]: "length (dots c p) = 32"
  by (simp add: dots_def)

lemma length_dirents [simp]: "length (dirents es) = 16 * length es"
  by (induction es) (auto simp: dirents_def)

lemma add_dots_grows:
  assumes "img_ok s L" "\<And>j. freeinode s \<le> j \<Longrightarrow> L j = 0" "0 < i" "i < freeinode s" "holds_in s L i T_DIR 0 []"
    "unat (freeblock s) + cost 32 \<le> nsect s"
  obtains t M where "add_dots i p s = Ok ((), t)" "grows {i} 0 (cost 32) s L t M" "holds_in t M i T_DIR 32 (dots i p)"
proof -
  have c: "cost 32 = 1" "cost 16 = 1" "cost 0 = 0" by (simp_all add: cost_def nblk_def NDIRECT_def)
  have M: "32 \<le> MAXFILE * 512" by (simp add: MAXFILE_def NINDIRECT_def NDIRECT_def BSIZE_def)
  let ?a = "mk_dirent i dot_name" and ?b = "mk_dirent p dotdot_name"
  have h0: "holds_in s L i T_DIR (of_nat (length ([] :: byte list))) []" using assms(5) by simp
  obtain t1 where t1: "iappend i ?a s = Ok ((), t1)" "grows {i} 0 1 s L t1 (L(i := 16))" "holds_in t1 (L(i := 16)) i T_DIR (of_nat (length ?a)) ?a"
    using iappend_grows[OF assms(1-4) h0, of ?a] assms(6) M c by auto
  note g = growsD[OF t1(2)]
  have fi: "freeinode t1 = freeinode s" using g(3) by (simp add: unat_same[symmetric])
  obtain t where t: "iappend i ?b t1 = Ok ((), t)" "grows {i} 0 0 t1 (L(i := 16)) t (L(i := 32))"
    "holds_in t (L(i := 32)) i T_DIR (of_nat (length (?a @ ?b))) (?a @ ?b)"
    using iappend_grows[OF g(1) g(7) assms(3) _ t1(3), of ?b] assms(4,6) fi M c g(2,4) by auto
  have "add_dots i p s = Ok ((), t)" using t1(1) t(1) by (simp add: add_dots_def andthen_Ok)
  moreover have "grows {i} 0 (cost 32) s L t (L(i := 32))" using grows_trans[OF t1(2) t(2)] c by simp
  ultimately show thesis using t(3) by (intro that[of t "L(i := 32)"]) (simp_all add: dots_eq)
qed

section \<open>Whole trees\<close>

definition inode_range :: "mkfs_state \<Rightarrow> mkfs_state \<Rightarrow> 32 word set" where
  "inode_range s t = {i. freeinode s \<le> i \<and> i < freeinode t}"

lemma range_step:
  assumes "grows W a n s L t M" "grows X b m t M u N"
  shows "inode_range s t \<subseteq> inode_range s u" "inode_range t u \<subseteq> inode_range s u"
  using growsD(9)[OF assms(1)] growsD(9)[OF assms(2)] by (auto simp: inode_range_def dest: less_le_trans order_trans)

text \<open>What the later steps leave of a tree that is on the image.\<close>

lemma stored_later:
  assumes "grows W a n s L t M" "grows X b m t M u N" "X \<inter> inode_range s t = {}" "0 < freeinode s"
  shows "stored (holds_in t M) (inode_range s t) h p c \<Longrightarrow> stored (holds_in u N) (inode_range s u) h p c"
proof (rule stored_mono(1)[OF _ range_step(1)[OF assms(1,2)]])
  fix i ty z bs assume i: "i \<in> inode_range s t" "holds_in t M i ty z bs"
  then have "0 < i" "i < freeinode t" "i \<notin> X" using assms(3,4) by (auto simp: inode_range_def dest: less_le_trans)
  from holds_keep[OF assms(2) this] i(2) show "holds_in u N i ty z bs" by simp
qed

lemma add_tree:
  shows "fits h \<Longrightarrow> img_ok s L \<Longrightarrow> (\<forall>j. freeinode s \<le> j \<longrightarrow> L j = 0) \<Longrightarrow> unat (freeinode s) + inodes h \<le> 208 \<Longrightarrow>
      unat (freeblock s) + sectors h \<le> nsect s \<Longrightarrow>
      \<exists>t M. add_node h cur s = Ok ((0, freeinode s), t) \<and> grows {} (inodes h) (sectors h) s L t M \<and>
        stored (holds_in t M) (inode_range s t) h cur (freeinode s)"
    and "fits_in d \<Longrightarrow> img_ok s L \<Longrightarrow> (\<forall>j. freeinode s \<le> j \<longrightarrow> L j = 0) \<Longrightarrow> unat (freeinode s) + inodes_in d \<le> 208 \<Longrightarrow>
      0 < cur \<Longrightarrow> cur < freeinode s \<Longrightarrow> holds_in s L cur T_DIR (of_nat (length bs)) bs \<Longrightarrow> length bs + 16 * entries d \<le> MAXFILE * 512 \<Longrightarrow>
      unat (freeblock s) + sectors_in d + cost (length bs + 16 * entries d) \<le> nsect s + cost (length bs) \<Longrightarrow>
      \<exists>es t M. add_entries d cur s = Ok (0, t) \<and>
        grows {cur} (inodes_in d) (sectors_in d + (cost (length bs + 16 * entries d) - cost (length bs))) s L t M \<and>
        listed (holds_in t M) (inode_range s t) d cur es \<and> length es = entries d \<and>
        holds_in t M cur T_DIR (of_nat (length (bs @ dirents es))) (bs @ dirents es)"
proof (induction h and d arbitrary: s L cur and s L cur bs)
  case (HFile bs)
  have z: "\<And>j. freeinode s \<le> j \<Longrightarrow> L j = 0" using HFile.prems(3) by blast
  have lt: "unat (freeinode s) < 208" using HFile.prems(4) by simp
  obtain t1 where t1: "mk_ialloc T_FILE s = Ok (freeinode s, t1)" "grows {} 1 0 s L t1 L" "holds_in t1 L (freeinode s) T_FILE 0 []"
    using ialloc_grows[OF HFile.prems(2) z lt, of T_FILE] by blast
  note g = growsD[OF t1(2)]
  have c: "cost 0 = 0" by (simp add: cost_def)
  have new: "0 < freeinode s" "freeinode s < freeinode t1" using img_okD(4)[OF HFile.prems(2)] g(3) by (simp_all add: word_less_nat_alt)
  obtain t M where t: "append_chunks (freeinode s) bs t1 = Ok ((), t)" "grows {freeinode s} 0 (cost (length bs)) t1 L t M"
    "holds_in t M (freeinode s) T_FILE (of_nat (length bs)) bs"
    using append_chunks_grows[OF g(1) g(7) new, of T_FILE "[]" bs] t1(3) HFile.prems(1,5) c g(2,4) by auto
  have "grows {} 1 (cost (length bs)) s L t M" using grows_trans[OF t1(2) t(2)] by simp
  moreover have "freeinode s \<in> inode_range s t" using growsD(9)[OF t(2)] new(2) by (auto simp: inode_range_def)
  moreover have "add_node (HFile bs) cur s = Ok ((0, freeinode s), t)" using t1(1) t(1) by (simp add: andthen_Ok)
  ultimately show ?case using t(3) by (intro exI[of _ t] exI[of _ M]) simp
next
  case HNoStream
  have z: "\<And>j. freeinode s \<le> j \<Longrightarrow> L j = 0" using HNoStream.prems(3) by blast
  have lt: "unat (freeinode s) < 208" using HNoStream.prems(4) by simp
  obtain t1 where t1: "mk_ialloc T_DIR s = Ok (freeinode s, t1)" "grows {} 1 0 s L t1 L" "holds_in t1 L (freeinode s) T_DIR 0 []"
    using ialloc_grows[OF HNoStream.prems(2) z lt, of T_DIR] by blast
  note g = growsD[OF t1(2)]
  have new: "0 < freeinode s" "freeinode s < freeinode t1" using img_okD(4)[OF HNoStream.prems(2)] g(3) by (simp_all add: word_less_nat_alt)
  obtain t M where t: "add_dots (freeinode s) cur t1 = Ok ((), t)" "grows {freeinode s} 0 (cost 32) t1 L t M"
    "holds_in t M (freeinode s) T_DIR 32 (dots (freeinode s) cur)"
    using add_dots_grows[OF g(1) g(7) new t1(3)] HNoStream.prems(5) g(2,4) by auto
  have "grows {} 1 (cost 32) s L t M" using grows_trans[OF t1(2) t(2)] by simp
  moreover have "freeinode s \<in> inode_range s t" using growsD(9)[OF t(2)] new(2) by (auto simp: inode_range_def)
  moreover have "add_node HNoStream cur s = Ok ((0, freeinode s), t)" using t1(1) t(1) by (simp add: andthen_Ok)
  ultimately show ?case using t(3) by (intro exI[of _ t] exI[of _ M]) simp
next
  case (HDir d)
  have z: "\<And>j. freeinode s \<le> j \<Longrightarrow> L j = 0" using HDir.prems(3) by blast
  have lt: "unat (freeinode s) < 208" using HDir.prems(4) by simp
  let ?i = "freeinode s"
  obtain t1 where t1: "mk_ialloc T_DIR s = Ok (?i, t1)" "grows {} 1 0 s L t1 L" "holds_in t1 L ?i T_DIR 0 []"
    using ialloc_grows[OF HDir.prems(2) z lt, of T_DIR] by blast
  note g1 = growsD[OF t1(2)]
  have new: "0 < ?i" "?i < freeinode t1" using img_okD(4)[OF HDir.prems(2)] g1(3) by (simp_all add: word_less_nat_alt)
  have c: "cost 32 \<le> cost (32 + 16 * entries d)" by (simp add: cost_mono)
  obtain t2 M2 where t2: "add_dots ?i cur t1 = Ok ((), t2)" "grows {?i} 0 (cost 32) t1 L t2 M2" "holds_in t2 M2 ?i T_DIR 32 (dots ?i cur)"
    using add_dots_grows[OF g1(1) g1(7) new t1(3), of cur] HDir.prems(5) g1(2,4) c by auto
  note g2 = growsD[OF t2(2)]
  have f2: "freeinode t2 = freeinode t1" using g2(3) by (simp add: unat_same[symmetric])
  let ?n = "32 + 16 * entries d"
  have room: "unat (freeblock t2) + sectors_in d + cost (length (dots ?i cur) + 16 * entries d) \<le> nsect t2 + cost (length (dots ?i cur))"
    using HDir.prems(5) g1(2,4) g2(2,4) c by simp
  have "\<exists>es t M. add_entries d ?i t2 = Ok (0, t) \<and>
        grows {?i} (inodes_in d) (sectors_in d + (cost (length (dots ?i cur) + 16 * entries d) - cost (length (dots ?i cur)))) t2 M2 t M \<and>
        listed (holds_in t M) (inode_range t2 t) d ?i es \<and> length es = entries d \<and>
        holds_in t M ?i T_DIR (of_nat (length (dots ?i cur @ dirents es))) (dots ?i cur @ dirents es)"
    by (rule HDir.IH) (use HDir.prems(1,4) g1(3) g2 t2(3) new f2 room in auto)
  then obtain es t3 M3 where t3: "add_entries d ?i t2 = Ok (0, t3)" "grows {?i} (inodes_in d) (sectors_in d + (cost ?n - cost 32)) t2 M2 t3 M3"
    "listed (holds_in t3 M3) (inode_range t2 t3) d ?i es" "length es = entries d"
    "holds_in t3 M3 ?i T_DIR (of_nat (length (dots ?i cur @ dirents es))) (dots ?i cur @ dirents es)"
    by auto
  note g3 = growsD[OF t3(2)]
  have i3: "?i < freeinode t3" using new(2) f2 g3(9) by (auto dest: less_le_trans)
  obtain t where t: "fix_size ?i t3 = Ok ((), t)" "grows {?i} 0 0 t3 M3 t M3"
    "holds_in t M3 ?i T_DIR (dir_size (length (dots ?i cur @ dirents es))) (dots ?i cur @ dirents es)"
    using fix_size_grows[OF g3(1) g3(7) new(1) i3 t3(5)] by blast
  have g: "grows {} (inodes (HDir d)) (sectors (HDir d)) s L t M3"
    using grows_trans[OF t1(2) grows_trans[OF t2(2) grows_trans[OF t3(2) t(2)]]] c by (simp add: add.commute)
  have "listed (holds_in t M3) (inode_range s t) d ?i es"
  proof (rule stored_mono(2)[OF t3(3)])
    show "inode_range t2 t3 \<subseteq> inode_range s t"
      using new(2) f2 growsD(9)[OF t(2)] by (auto simp: inode_range_def dest: less_le_trans)
    fix i ty y b assume i: "i \<in> inode_range t2 t3" "holds_in t3 M3 i ty y b"
    then have "0 < i" "i < freeinode t3" "i \<notin> {?i}" using new f2 by (auto simp: inode_range_def dest: less_le_trans)
    from holds_keep[OF t(2) this] i(2) show "holds_in t M3 i ty y b" by simp
  qed
  moreover have "?i \<in> inode_range s t" using i3 growsD(9)[OF t(2)] by (auto simp: inode_range_def)
  moreover have "add_node (HDir d) cur s = Ok ((0, ?i), t)" using t1(1) t2(1) t3(1) t(1) by (simp add: andthen_Ok)
  ultimately show ?case using g t(3) by (intro exI[of _ t] exI[of _ M3]) auto
next
  case HEnd
  then show ?case using grows_refl[of s L "{cur}"] by (intro exI[of _ "[]"] exI[of _ s] exI[of _ L]) (simp add: dirents_def)
next
  case (HEntry n h d)
  show ?case
  proof (cases "dot_entry n")
    case True
    have "\<exists>es t M. add_entries d cur s = Ok (0, t) \<and>
        grows {cur} (inodes_in d) (sectors_in d + (cost (length bs + 16 * entries d) - cost (length bs))) s L t M \<and>
        listed (holds_in t M) (inode_range s t) d cur es \<and> length es = entries d \<and>
        holds_in t M cur T_DIR (of_nat (length (bs @ dirents es))) (bs @ dirents es)"
      by (rule HEntry.IH(2)) (use HEntry.prems True in simp_all)
    then show ?thesis using True by (simp add: dot_entry_def)
  next
    case False
    let ?c = "freeinode s" and ?e = "mk_dirent (freeinode s) n" and ?N = "length bs + 16 * entries (HEntry n h d)"
    have mono: "cost (length bs) \<le> cost (length bs + 16)" "cost (length bs + 16) \<le> cost ?N" using False by (simp_all add: cost_mono)
    have "\<exists>t M. add_node h cur s = Ok ((0, ?c), t) \<and> grows {} (inodes h) (sectors h) s L t M \<and> stored (holds_in t M) (inode_range s t) h cur ?c"
      by (rule HEntry.IH(1)) (use HEntry.prems(1-4,9) mono False in auto)
    then obtain t1 M1 where t1: "add_node h cur s = Ok ((0, ?c), t1)" "grows {} (inodes h) (sectors h) s L t1 M1"
      "stored (holds_in t1 M1) (inode_range s t1) h cur ?c" by blast
    note g1 = growsD[OF t1(2)]
    have cur: "cur < freeinode t1" "holds_in t1 M1 cur T_DIR (of_nat (length bs)) bs"
      using HEntry.prems(6,7) g1(9) holds_keep[OF t1(2) HEntry.prems(5,6)] by (auto dest: less_le_trans)
    define M2 where "M2 = M1(cur := length bs + 16)"
    obtain t2 where t2: "iappend cur ?e t1 = Ok ((), t2)" "grows {cur} 0 (cost (length bs + 16) - cost (length bs)) t1 M1 t2 M2"
      "holds_in t2 M2 cur T_DIR (of_nat (length (bs @ ?e))) (bs @ ?e)"
      using iappend_grows[OF g1(1) g1(7) HEntry.prems(5) cur, of ?e] HEntry.prems(8,9) g1(2,4) mono False unfolding M2_def by auto
    note g2 = growsD[OF t2(2)]
    have f2: "freeinode t2 = freeinode t1" using g2(3) by (simp add: unat_same[symmetric])
    have len: "length (bs @ ?e) + 16 * entries d = ?N" "length (bs @ ?e) = length bs + 16" using False by simp_all
    have "\<exists>es t M. add_entries d cur t2 = Ok (0, t) \<and>
        grows {cur} (inodes_in d) (sectors_in d + (cost (length (bs @ ?e) + 16 * entries d) - cost (length (bs @ ?e)))) t2 M2 t M \<and>
        listed (holds_in t M) (inode_range t2 t) d cur es \<and> length es = entries d \<and>
        holds_in t M cur T_DIR (of_nat (length ((bs @ ?e) @ dirents es))) ((bs @ ?e) @ dirents es)"
    proof (rule HEntry.IH(2))
      show "fits_in d" "unat (freeinode t2) + inodes_in d \<le> 208" using HEntry.prems(1,4) False g1(3) f2 by simp_all
      show "cur < freeinode t2" "0 < cur" using cur(1) f2 HEntry.prems(5) by simp_all
      show "length (bs @ ?e) + 16 * entries d \<le> MAXFILE * 512" using HEntry.prems(8) len(1) by simp
      show "unat (freeblock t2) + sectors_in d + cost (length (bs @ ?e) + 16 * entries d) \<le> nsect t2 + cost (length (bs @ ?e))"
        unfolding len(1) unfolding len(2) using HEntry.prems(9) g1(2,4) g2(2,4) mono False by simp
      show "\<forall>j. freeinode t2 \<le> j \<longrightarrow> M2 j = 0" using g2(7) by blast
    qed (use g2(1) t2(3) in simp_all)
    then obtain es t M where t: "add_entries d cur t2 = Ok (0, t)"
      "grows {cur} (inodes_in d) (sectors_in d + (cost ?N - cost (length bs + 16))) t2 M2 t M"
      "listed (holds_in t M) (inode_range t2 t) d cur es" "length es = entries d"
      "holds_in t M cur T_DIR (of_nat (length ((bs @ ?e) @ dirents es))) ((bs @ ?e) @ dirents es)"
      unfolding len(1) unfolding len(2) by blast
    have gu: "grows {cur} (0 + inodes_in d) (cost (length bs + 16) - cost (length bs) + (sectors_in d + (cost ?N - cost (length bs + 16)))) t1 M1 t M"
      by (rule grows_trans[OF t2(2) t(2)]) auto
    have notin: "{cur} \<inter> inode_range s t1 = {}" using HEntry.prems(6) by (auto simp: inode_range_def)
    have "stored (holds_in t M) (inode_range s t) h cur ?c"
      by (rule stored_later[OF t1(2) gu notin img_okD(4)[OF HEntry.prems(2)] t1(3)])
    moreover have "inode_range t2 t \<subseteq> inode_range s t" using g1(9) f2 by (auto simp: inode_range_def dest: order_trans)
    then have "listed (holds_in t M) (inode_range s t) d cur es" using stored_mono(2)[OF t(3)] by blast
    moreover have "grows {cur} (inodes_in (HEntry n h d)) (sectors_in (HEntry n h d) + (cost ?N - cost (length bs))) s L t M"
    proof -
      have "grows {cur} (inodes h) (sectors h) s L t1 M1" using t1(2) unfolding grows_def by blast
      from grows_trans[OF this gu] mono False show ?thesis by (simp add: add.assoc add.commute add.left_commute)
    qed
    moreover have "add_entries (HEntry n h d) cur s = Ok (0, t)" using False t1(1) t2(1) t(1) by (simp add: dot_entry_def andthen_Ok)
    ultimately show ?thesis using False t(4,5) by (intro exI[of _ "(n, ?c) # es"] exI[of _ t] exI[of _ M]) (simp add: dirents_def mk_dirent_bytes)
  qed
qed auto

section \<open>The finished image\<close>

lemma mk_bitmap_Suc: "mk_bitmap (Suc n) = set_bit_in (mk_bitmap n) n"
  by (simp add: mk_bitmap_def set_bit_in_def)

lemma length_mk_bitmap: "length (mk_bitmap n) = 512"
  by (induction n) (simp_all add: mk_bitmap_Suc, simp add: mk_bitmap_def)

lemma mk_bitmap_free:
  assumes "n \<le> BPB" "b < BPB"
  shows "bit_free (mk_bitmap n) b \<longleftrightarrow> n \<le> b"
  using assms
proof (induction n)
  case 0
  have "b div 8 < 512" using 0 by (simp add: BPB_def BSIZE_def less_mult_imp_div_less)
  then have "replicate 512 (0 :: byte) ! (b div 8) = 0" by (rule nth_replicate)
  then show ?case by (simp only: mk_bitmap_def bit_free_def upt_0 fold_simps) simp
next
  case (Suc n)
  then have "n div 8 < length (mk_bitmap n)" by (simp add: length_mk_bitmap BPB_def BSIZE_def less_mult_imp_div_less)
  from bit_free_set[OF this, of b] Suc show ?case by (auto simp: mk_bitmap_Suc)
qed

text \<open>What the kernel finds in inode \<open>i\<close>: type, size, and the first bytes.\<close>

definition on_disk :: "mkfs_state \<Rightarrow> holds" where
  "on_disk s i ty z bs \<longleftrightarrow> ip_type (loaded s i) = ty \<and> ip_size (loaded s i) = z \<and> file_slice (disk_of s) (loaded s i) 0 (length bs) = bs"

text \<open>Writing the bitmap changes no inode and no file.\<close>

lemma bitmap_write:
  assumes "img_ok s L" "sect t = (sect s)(28 := bm)" "0 < i" "i < freeinode s" "holds_in s L i ty z bs"
  shows "on_disk t i ty z bs"
proof -
  note ok = img_okD[OF assms(1)]
  have i: "unat i < 208" using assms(4) ok(5) by (simp add: word_less_nat_alt)
  have ne: "i2b i \<noteq> 28" using inode_sector_bound[OF i] by auto
  then have ino: "inode_of_img t i = inode_of_img s i" by (simp add: inode_of_img_def assms(2))
  have eq: "sect t b = sect s b" if "b \<in> owned (sect s) (inode_of_img s i) (nblk (L i))" for b
    using ok(7)[OF assms(3,4) that] by (auto simp: assms(2))
  have z: "sect t 0 = sect s 0" by (simp add: assms(2))
  have "fbytes (sect t) (inode_of_img s i) (L i) = fbytes (sect s) (inode_of_img s i) (L i)"
    by (rule file_keep[where E = "sect t", OF ok(6)[OF assms(3,4)] z], erule eq)
  moreover have "di_type (inode_of_img t i) \<in> {T_DIR, T_FILE}" using ok(8)[OF assms(3,4)] ino by simp
  from kernel_view[OF this] have "file_slice (disk_of t) (loaded t i) 0 n = fbytes (sect t) (inode_of_img s i) n" for n using ino by simp
  moreover have "ip_type (loaded t i) = di_type (inode_of_img s i)" "ip_size (loaded t i) = di_size (inode_of_img s i)"
    using ino by (simp_all add: loaded_def from_dinode_def disk_inode_image)
  ultimately show ?thesis using assms(5) by (auto simp: on_disk_def holds_in_def)
qed

lemma mk_balloc_result:
  assumes "n < 4096" "28 < nsect s"
  obtains t where "mk_balloc (int n) s = Ok ((), t)" "sect t = (sect s)(28 := mk_bitmap n)"
proof -
  have c: "(of_nat (mk_ninodes div IPB + 3) :: 32 word) = 28" by (simp add: mk_ninodes_def IPB_def BSIZE_def)
  have b: "unat (28 :: 32 word) < nsect s" using assms(2) by simp
  obtain t where "wsect 28 (mk_bitmap n) s = Ok ((), t)" "img_to ((sect s)(28 := mk_bitmap n)) (freeblock s) s t"
    using wsect_inside[OF b length_mk_bitmap] .
  then show thesis using assms(1) c img_toD(1) by (intro that[of t]) (simp_all add: mk_balloc_def)
qed

text \<open>The steps of \<open>main\<close> on the root directory are those for a directory that is its own parent.\<close>

lemma root_as_node:
  assumes "freeinode s = ROOTINO" "add_node (HDir d) ROOTINO s = Ok ((0, ROOTINO), t)"
  shows "andthen (mk_ialloc T_DIR) (\<lambda>root. andthen (check (root = ROOTINO) m) (\<lambda>_. andthen (add_dir (Some d) root root) f)) s = f 0 t"
proof -
  obtain c s1 s2 r s3 where s1: "mk_ialloc T_DIR s = Ok (c, s1)" and s2: "add_dots c ROOTINO s1 = Ok ((), s2)" and s3: "add_entries d c s2 = Ok (r, s3)"
    "(if r \<noteq> 0 then ret (r, c) else andthen (fix_size c) (\<lambda>_. ret (0, c))) s3 = Ok ((0, ROOTINO), t)"
    using assms(2) by (auto elim!: andthenE)
  have c: "c = ROOTINO" using s1 assms(1) by (auto simp: mk_ialloc_def elim!: andthenE)
  have r: "r = 0" using s3(2) by (auto split: if_splits)
  with s3(2) have "fix_size c s3 = Ok ((), t)" by (auto elim!: andthenE)
  with s1 s2 s3(1) c r show ?thesis by (simp add: add_dir_def andthen_Ok andthen_assoc)
qed

text \<open>
  C40. The program that builds the disk image, on a directory of the host that fits: it returns, and on its image the kernel's view has
  the superblock of 1024 blocks and 200 inodes, a bitmap in which exactly the blocks that the files take are in use, and, from the
  root inode down, the tree of the host: for every file its bytes and size, for every directory the entries \<open>.\<close> and \<open>..\<close> and then one
  entry for each name, whose inode number leads to the file or directory of that name.
\<close>

theorem mkfs_builds_tree:
  assumes "fits (HDir d)" "inodes (HDir d) < 200" "sectors (HDir d) \<le> 995"
  shows "\<exists>s. mkfs_main (Some d) mkfs_start = Ok ((), s) \<and>
    sb_at (disk_of s) ROOTDEV = \<lparr>sb_size = 1024, sb_nblocks = 995, sb_ninodes = 200\<rparr> \<and>
    (\<forall>b < 1024. block_free (disk_of s) ROOTDEV b \<longleftrightarrow> 29 + sectors (HDir d) \<le> b) \<and>
    stored (on_disk s) {i. 0 < i \<and> unat i < 200} (HDir d) ROOTINO ROOTINO"
proof -
  obtain s0 where s0: "mkfs 995 200 1024 mkfs_start = Ok (0, s0)" "img_ok s0 (\<lambda>_. 0)" "freeinode s0 = 1" "freeblock s0 = 29" "usedblocks s0 = 29" "nsect s0 = 1024"
    "dec_sb (sect s0 1) = \<lparr>sb_size = 1024, sb_nblocks = 995, sb_ninodes = 200\<rparr>" using mkfs_result .
  have fi: "freeinode s0 = ROOTINO" using s0(3) by (simp add: ROOTINO_def)
  obtain t M where t: "add_node (HDir d) ROOTINO s0 = Ok ((0, freeinode s0), t)" "grows {} (inodes (HDir d)) (sectors (HDir d)) s0 (\<lambda>_. 0) t M"
    "stored (holds_in t M) (inode_range s0 t) (HDir d) ROOTINO (freeinode s0)"
  proof -
    have "\<exists>t M. add_node (HDir d) ROOTINO s0 = Ok ((0, freeinode s0), t) \<and> grows {} (inodes (HDir d)) (sectors (HDir d)) s0 (\<lambda>_. 0) t M \<and>
        stored (holds_in t M) (inode_range s0 t) (HDir d) ROOTINO (freeinode s0)"
      by (rule add_tree(1)[OF assms(1) s0(2)]) (use assms(2,3) s0(3,4,6) in simp_all)
    then show thesis using that by blast
  qed
  note g = growsD[OF t(2)]
  define N where "N = 29 + sectors (HDir d)"
  have N: "N \<le> 1024" "unat (freeblock t) = N" using assms(3) g(4) s0(4) by (simp_all add: N_def)
  have "usedblocks t = freeblock t" using g(5) s0(4,5) by simp
  then have "uint (usedblocks t) = int N" using N(2) by (metis uint_nat)
  then have used: "sint (usedblocks t) = int N"
    using N(1) by (simp add: sint_uint signed_take_bit_int_eq_self)
  obtain u where u: "mk_balloc (int N) t = Ok ((), u)" "sect u = (sect t)(28 := mk_bitmap N)"
    using mk_balloc_result[of N t] N(1) g(2) s0(6) by auto
  have "mkfs_main (Some d) mkfs_start = Ok ((), u)"
    unfolding mkfs_main_def andthen_Ok[where c = "mkfs 995 200 1024", OF s0(1)] root_as_node[OF fi t(1)[unfolded fi]] using used u(1) by (simp add: andthen_Ok)
  moreover have sb: "sb_at (disk_of u) ROOTDEV = \<lparr>sb_size = 1024, sb_nblocks = 995, sb_ninodes = 200\<rparr>"
    using g(8)[of 1] s0(7) by (simp add: sb_at_def disk_of_def u(2))
  moreover have "block_free (disk_of u) ROOTDEV b \<longleftrightarrow> N \<le> b" if "b < 1024" for b
  proof -
    have "b < BPB" "N \<le> BPB" using that N(1) by (simp_all add: BPB_def BSIZE_def)
    moreover have "BBLOCK (of_nat b) 200 = 28"
    proof -
      have "unat (of_nat b :: 32 word) = b" using that by (intro unat_small) simp
      then have "unat ((of_nat b :: 32 word) div 4096) = 0" using that by (simp add: unat_div)
      then have "(of_nat b :: 32 word) div 4096 = 0" by (simp only: unat_eq_0)
      then show ?thesis by (simp add: BBLOCK_def BPB_def IPB_def BSIZE_def)
    qed
    ultimately have "map_key ROOTDEV (sb_at (disk_of u) ROOTDEV) b = (ROOTDEV, 28)" "bit_free (mk_bitmap N) (b mod BPB) \<longleftrightarrow> N \<le> b"
      using mk_bitmap_free[of N b] by (simp_all add: map_key_def sb)
    moreover have "disk_of u (ROOTDEV, 28) = mk_bitmap N" by (simp add: disk_of_def u(2))
    ultimately show ?thesis by (simp add: block_free_def)
  qed
  moreover have "stored (on_disk u) {i. 0 < i \<and> unat i < 200} (HDir d) ROOTINO ROOTINO"
  proof (rule stored_mono(1)[OF t(3)[unfolded fi]])
    have ft: "unat (freeinode t) \<le> 200" using g(3) s0(3) assms(2) by simp
    show "inode_range s0 t \<subseteq> {i. 0 < i \<and> unat i < 200}"
      using ft s0(3) by (auto simp: inode_range_def word_le_nat_alt word_less_nat_alt)
    fix i ty z bs assume i: "i \<in> inode_range s0 t" "holds_in t M i ty z bs"
    then have "0 < i" "i < freeinode t" using s0(3) by (auto simp: inode_range_def word_le_nat_alt word_less_nat_alt)
    from bitmap_write[OF g(1) u(2) this i(2)] show "on_disk u i ty z bs" .
  qed
  ultimately show ?thesis unfolding N_def by blast
qed

text \<open>A directory with a file, a sub-directory that holds a file of 7000 bytes, and the two entries for itself and its parent.\<close>

definition demo_dir :: hdir where
  "demo_dir = HEntry [46] HNoStream (HEntry [46, 46] HNoStream (HEntry [97] (HFile [1, 2, 3])
     (HEntry [98] (HDir (HEntry [99] (HFile (replicate 7000 5)) HEnd)) HEnd)))"

theorem mkfs_builds_tree_witness:
  "\<exists>s. mkfs_main (Some demo_dir) mkfs_start = Ok ((), s) \<and> (\<forall>b < 1024. block_free (disk_of s) ROOTDEV b \<longleftrightarrow> 47 \<le> b) \<and>
    stored (on_disk s) {i. 0 < i \<and> unat i < 200} (HDir demo_dir) ROOTINO ROOTINO"
proof -
  have c: "cost 7000 = 15" "cost (Suc (Suc (Suc 0))) = 1" "cost 48 = 1" "cost 64 = 1" by (simp_all add: cost_def nblk_def NDIRECT_def)
  have n: "dot_entry [46]" "dot_entry [46, 46]" "\<not> dot_entry [97]" "\<not> dot_entry [98]" "\<not> dot_entry [99]" by (simp_all add: dot_entry_def dot_name_def dotdot_name_def)
  have e: "entries demo_dir = 2" "inodes_in demo_dir = 3" "sectors_in demo_dir = 17" using n c by (simp_all add: demo_dir_def)
  have "fits (HDir demo_dir)" using n e(1) by (simp add: demo_dir_def MAXFILE_def NINDIRECT_def NDIRECT_def BSIZE_def)
  from mkfs_builds_tree[OF this] e c show ?thesis by (simp del: stored.simps)  blast
qed

end
