(* ===== verification/Xv6_Kalloc.thy ===== *)
theory Xv6_Kalloc
  imports Xv6_Base Xv6_Layout
begin

text \<open>
  The page allocator, \<open>xv6/kernel/kalloc.c\<close>. Physical memory is a map from addresses to bytes; the free list is threaded
  through the first word of each free page, as in the code, and is related to a list of pages by the predicate \<open>chain\<close>.
\<close>

section \<open>State and operations\<close>

definition PGSIZE :: nat where "PGSIZE = 4096"
definition PHYSTOP :: "32 word" where "PHYSTOP = 0x1000000"

record kmem =
  mem :: "32 word \<Rightarrow> byte"
  freelist :: "32 word"
  kernel_end :: "32 word"  \<comment> \<open>the address of \<open>end\<close>\<close>

definition load32 :: "(32 word \<Rightarrow> byte) \<Rightarrow> 32 word \<Rightarrow> 32 word" where
  "load32 m a = rd32 [m a, m (a + 1), m (a + 2), m (a + 3)]"

definition store32 :: "32 word \<Rightarrow> 32 word \<Rightarrow> (32 word \<Rightarrow> byte) \<Rightarrow> 32 word \<Rightarrow> byte" where
  "store32 a w m = m(a := le32 w ! 0, a + 1 := le32 w ! 1, a + 2 := le32 w ! 2, a + 3 := le32 w ! 3)"

definition fill :: "32 word \<Rightarrow> byte \<Rightarrow> nat \<Rightarrow> (32 word \<Rightarrow> byte) \<Rightarrow> 32 word \<Rightarrow> byte" where
  "fill a c n m = (\<lambda>x. if unat (x - a) < n then c else m x)"

definition kfree :: "32 word \<Rightarrow> ('z kmem_scheme, unit) comp" where
  "kfree v =
     andthen (gets kernel_end) (\<lambda>e.
     andthen (check (\<not> (v mod of_nat PGSIZE \<noteq> 0 \<or> v < e \<or> v \<ge> PHYSTOP)) ''kfree'') (\<lambda>_.
     andthen (modify (\<lambda>s. s\<lparr>mem := fill v 1 PGSIZE (mem s)\<rparr>)) (\<lambda>_.
     andthen (modify (\<lambda>s. s\<lparr>mem := store32 v (freelist s) (mem s)\<rparr>)) (\<lambda>_.
     modify (\<lambda>s. s\<lparr>freelist := v\<rparr>)))))"

definition kalloc :: "('z kmem_scheme, 32 word) comp" where
  "kalloc =
     andthen (gets freelist) (\<lambda>r.
     andthen (modify (\<lambda>s. if r \<noteq> 0 then s\<lparr>freelist := load32 (mem s) r\<rparr> else s)) (\<lambda>_.
     ret r))"

text \<open>The loop of \<open>kinit\<close>, on the address as a number: it stays below \<open>PHYSTOP\<close>.\<close>

definition PGROUNDUP :: "nat \<Rightarrow> nat" where
  "PGROUNDUP a = (a + PGSIZE - 1) div PGSIZE * PGSIZE"

function kinit_from :: "nat \<Rightarrow> ('z kmem_scheme, unit) comp" where
  "kinit_from p =
     (if p + PGSIZE \<le> unat PHYSTOP then andthen (kfree (of_nat p)) (\<lambda>_. kinit_from (p + PGSIZE)) else ret ())"
  by pat_completeness auto
termination
  by (relation "measure (\<lambda>p. unat PHYSTOP - p)") (auto simp: PGSIZE_def)

declare kinit_from.simps [simp del]

definition kinit :: "('z kmem_scheme, unit) comp" where
  "kinit = andthen (gets kernel_end) (\<lambda>e. kinit_from (PGROUNDUP (unat e)))"

section \<open>The free list\<close>

definition page_ok :: "'z kmem_scheme \<Rightarrow> 32 word \<Rightarrow> bool" where
  "page_ok s v \<longleftrightarrow> v mod of_nat PGSIZE = 0 \<and> kernel_end s \<le> v \<and> v < PHYSTOP"

primrec chain :: "(32 word \<Rightarrow> byte) \<Rightarrow> 32 word \<Rightarrow> 32 word list \<Rightarrow> bool" where
  "chain m p [] \<longleftrightarrow> p = 0"
| "chain m p (a # as) \<longleftrightarrow> p = a \<and> a \<noteq> 0 \<and> chain m (load32 m a) as"

definition kmem_ok :: "'z kmem_scheme \<Rightarrow> 32 word list \<Rightarrow> bool" where
  "kmem_ok s ps \<longleftrightarrow> chain (mem s) (freelist s) ps \<and> distinct ps \<and> (\<forall>v \<in> set ps. page_ok s v) \<and> 0 < kernel_end s"

lemma page_aligned: "page_ok s v \<Longrightarrow> \<exists>j. unat v = 4096 * j \<and> j < 4096"
proof -
  assume "page_ok s v"
  then have "unat (v mod 4096) = 0" "unat v < 0x1000000" by (simp_all add: page_ok_def PGSIZE_def PHYSTOP_def word_less_nat_alt)
  then have "unat v mod 4096 = 0" "unat v < 4096 * 4096" by (simp_all add: unat_mod)
  then show ?thesis by (intro exI[of _ "unat v div 4096"]) auto
qed

text \<open>A word of one page is not in another page.\<close>

lemma outside_page:
  assumes "page_ok s a" "page_ok s v" "a \<noteq> v" "k < 4"
  shows "\<not> unat (a + of_nat k - v) < 4096"
proof -
  obtain i j where ij: "unat a = 4096 * i" "i < 4096" "unat v = 4096 * j" "j < 4096"
    using page_aligned[OF assms(1)] page_aligned[OF assms(2)] by auto
  have ne: "i \<noteq> j" using ij assms(3) by (metis word_unat_eq_iff)
  have k: "unat (of_nat k :: 32 word) = k" using assms(4) by (simp add: unat_of_nat take_bit_nat_eq_self)
  have ak: "unat (a + of_nat k) = 4096 * i + k"
    using ij(1,2) k assms(4) by (subst unat_add_lem[THEN iffD1]) simp_all
  show ?thesis
  proof (cases "j < i")
    case True
    then show ?thesis using ak ij by (simp add: unat_sub_if_size word_size)
  next
    case False
    then show ?thesis using ak ij ne assms(4) by (simp add: unat_sub_if_size word_size)
  qed
qed

lemma load_other_page:
  assumes "page_ok s a" "page_ok s v" "a \<noteq> v"
  shows "load32 (store32 v w (fill v c PGSIZE m)) a = load32 m a"
proof -
  have out: "\<not> unat (a + x - v) < 4096" if "x \<in> {0, 1, 2, 3}" for x
    using that outside_page[OF assms, of 0] outside_page[OF assms, of 1] outside_page[OF assms, of 2] outside_page[OF assms, of 3] by auto
  have ne: "a + x \<noteq> v + y" if "x \<in> {0, 1, 2, 3}" "y \<in> {0, 1, 2, 3}" for x y
  proof
    assume "a + x = v + y"
    then have "a + x - v = y" by simp
    moreover have "unat y < 4096" using that(2) by auto
    ultimately show False using out[OF that(1)] by simp
  qed
  have "store32 v w (fill v c PGSIZE m) (a + x) = m (a + x)" if "x \<in> {0, 1, 2, 3}" for x
    using out[OF that] ne[OF that, of 0] ne[OF that, of 1] ne[OF that, of 2] ne[OF that, of 3]
    by (simp add: store32_def fill_def PGSIZE_def)
  from this[of 0] this[of 1] this[of 2] this[of 3] show ?thesis by (simp add: load32_def)
qed

lemma load_store: "load32 (store32 a w m) a = w"
proof -
  have "a + 1 \<noteq> a" "a + 2 \<noteq> a" "a + 3 \<noteq> a" "a + 2 \<noteq> a + 1" "a + 3 \<noteq> a + 1" "a + 3 \<noteq> a + 2" by auto
  then have "load32 (store32 a w m) a = rd32 [le32 w ! 0, le32 w ! 1, le32 w ! 2, le32 w ! 3]"
    by (simp add: load32_def store32_def)
  also have "[le32 w ! 0, le32 w ! 1, le32 w ! 2, le32 w ! 3] = le32 w" by (simp add: le32_def)
  finally show ?thesis by (simp add: rd32_le32)
qed

lemma load_store_apart:
  assumes "\<And>x y. x \<in> {0, 1, 2, 3} \<Longrightarrow> y \<in> {0, 1, 2, 3} \<Longrightarrow> a + x \<noteq> b + y"
  shows "load32 (store32 b w m) a = load32 m a"
proof -
  have "store32 b w m (a + x) = m (a + x)" if "x \<in> {0, 1, 2, 3}" for x
    using assms[OF that, of 0] assms[OF that, of 1] assms[OF that, of 2] assms[OF that, of 3] by (simp add: store32_def)
  from this[of 0] this[of 1] this[of 2] this[of 3] show ?thesis by (simp add: load32_def)
qed

lemma load_store_far:
  assumes "4 \<le> unat (a - b)" "4 \<le> unat (b - a)"
  shows "load32 (store32 b w m) a = load32 m a"
proof (rule load_store_apart)
  fix x y assume xy: "x \<in> {0, 1, 2, 3 :: 32 word}" "y \<in> {0, 1, 2, 3 :: 32 word}"
  show "a + x \<noteq> b + y"
  proof
    assume "a + x = b + y"
    then have "a - b = y - x" "b - a = x - y" by (simp_all add: algebra_simps)
    then show False using assms xy by auto
  qed
qed

lemma chain_other_page:
  assumes "chain m p ps" "\<forall>a \<in> set ps. page_ok s a \<and> a \<noteq> v" "page_ok s v"
  shows "chain (store32 v w (fill v c PGSIZE m)) p ps"
  using assms by (induction ps arbitrary: p) (auto simp: load_other_page)

lemma kfree_result:
  assumes "kmem_ok s ps" "page_ok s v" "v \<notin> set ps"
  obtains t where "kfree v s = Ok ((), t)" "kmem_ok t (v # ps)" "kernel_end t = kernel_end s"
    "\<forall>x. \<not> unat (x - v) < PGSIZE \<longrightarrow> mem t x = mem s x"
proof -
  let ?m = "store32 v (freelist s) (fill v 1 PGSIZE (mem s))"
  let ?t = "s\<lparr>mem := ?m, freelist := v\<rparr>"
  have v: "\<not> (v mod of_nat PGSIZE \<noteq> 0 \<or> v < kernel_end s \<or> v \<ge> PHYSTOP)" using assms(2) by (auto simp: page_ok_def)
  have "kfree v s = Ok ((), ?t)" using v by (simp add: kfree_def del: of_nat_numeral)
  moreover have "v \<noteq> 0" using assms(1,2) by (auto simp: kmem_ok_def page_ok_def)
  moreover have "chain ?m (freelist s) ps"
    using assms by (intro chain_other_page[of _ _ _ s]) (auto simp: kmem_ok_def)
  ultimately have "kmem_ok ?t (v # ps)" using assms by (auto simp: kmem_ok_def load_store page_ok_def)
  moreover have "?m x = mem s x" if "\<not> unat (x - v) < PGSIZE" for x
  proof -
    have "x \<noteq> v + y" if "y \<in> {0, 1, 2, 3}" for y
    proof
      assume "x = v + y"
      then have "x - v = y" by simp
      with that \<open>\<not> unat (x - v) < PGSIZE\<close> show False by (auto simp: PGSIZE_def)
    qed
    from this[of 0] this[of 1] this[of 2] this[of 3] that show ?thesis by (simp add: store32_def fill_def)
  qed
  ultimately show thesis using \<open>kfree v s = Ok ((), ?t)\<close> by (intro that[of ?t]) simp_all
qed

lemma kalloc_result:
  assumes "kmem_ok s ps"
  obtains (none) "ps = []" "kalloc s = Ok (0, s)"
  | (page) v qs t where "ps = v # qs" "v \<noteq> 0" "kalloc s = Ok (v, t)" "kmem_ok t qs" "kernel_end t = kernel_end s" "mem t = mem s"
proof (cases ps)
  case Nil
  with assms have "kalloc s = Ok (0, s)" by (simp add: kmem_ok_def kalloc_def)
  with Nil show thesis by (rule none)
next
  case (Cons v qs)
  let ?t = "s\<lparr>freelist := load32 (mem s) v\<rparr>"
  have "kalloc s = Ok (v, ?t)" "v \<noteq> 0" using assms Cons by (simp_all add: kmem_ok_def kalloc_def)
  moreover have "kmem_ok ?t qs" using assms Cons by (auto simp: kmem_ok_def page_ok_def)
  ultimately show thesis using Cons by (intro page[of v qs ?t]) simp_all
qed

lemma kinit_from_result:
  assumes "kmem_ok s ps" "\<forall>v \<in> set ps. unat v < p" "p mod 4096 = 0" "unat (kernel_end s) \<le> p"
  shows "\<exists>t qs. kinit_from p s = Ok ((), t) \<and> kmem_ok t qs \<and> kernel_end t = kernel_end s \<and> set qs = set ps \<union> {v. page_ok s v \<and> p \<le> unat v}"
  using assms
proof (induction "0x1000000 - p" arbitrary: p ps s rule: less_induct)
  case less
  have top: "unat PHYSTOP = 0x1000000" by (simp add: PHYSTOP_def)
  show ?case
  proof (cases "p + PGSIZE \<le> unat PHYSTOP")
    case False
    have "\<not> (page_ok s v \<and> p \<le> unat v)" for v
    proof
      assume v: "page_ok s v \<and> p \<le> unat v"
      then obtain j where "unat v = 4096 * j" "j < 4096" using page_aligned by blast
      moreover obtain i where "p = 4096 * i" using less.prems(3) by auto
      ultimately show False using False v by (simp add: top PGSIZE_def)
    qed
    with False less.prems(1) show ?thesis by (subst kinit_from.simps) auto
  next
    case True
    let ?v = "of_nat p :: 32 word"
    have u: "unat ?v = p" using True by (simp add: top PGSIZE_def unat_of_nat take_bit_nat_eq_self)
    have "unat (?v mod 4096) = 0" using less.prems(3) by (simp add: unat_mod u)
    then have ok: "page_ok s ?v"
      using True less.prems(4) u by (simp add: page_ok_def PGSIZE_def word_le_nat_alt word_less_nat_alt top unat_eq_zero)
    have new: "?v \<notin> set ps" using less.prems(2) u by auto
    obtain t where t: "kfree ?v s = Ok ((), t)" "kmem_ok t (?v # ps)" "kernel_end t = kernel_end s"
      using kfree_result[OF less.prems(1) ok new] .
    have same: "page_ok t = page_ok s" using t(3) by (auto simp: page_ok_def fun_eq_iff)
    have "\<exists>r qs. kinit_from (p + PGSIZE) t = Ok ((), r) \<and> kmem_ok r qs \<and> kernel_end r = kernel_end t \<and>
        set qs = set (?v # ps) \<union> {v. page_ok t v \<and> p + PGSIZE \<le> unat v}"
      using less.prems True u t(2,3) by (intro less.hyps) (auto simp: top PGSIZE_def)
    then obtain r qs where r: "kinit_from (p + PGSIZE) t = Ok ((), r)" "kmem_ok r qs" "kernel_end r = kernel_end s"
      "set qs = set (?v # ps) \<union> {v. page_ok s v \<and> p + PGSIZE \<le> unat v}" using same t(3) by auto
    have split: "{v. page_ok s v \<and> p \<le> unat v} = insert ?v {v. page_ok s v \<and> p + PGSIZE \<le> unat v}"
    proof (intro set_eqI iffI)
      fix v assume "v \<in> {v. page_ok s v \<and> p \<le> unat v}"
      then have v: "page_ok s v" "p \<le> unat v" by auto
      obtain j where "unat v = 4096 * j" using page_aligned[OF v(1)] by blast
      moreover obtain i where "p = 4096 * i" using less.prems(3) by auto
      ultimately have "unat v = p \<or> p + PGSIZE \<le> unat v" using v(2) by (auto simp: PGSIZE_def)
      then show "v \<in> insert ?v {v. page_ok s v \<and> p + PGSIZE \<le> unat v}" using v(1) u by (auto simp: word_unat_eq_iff)
    next
      fix v assume "v \<in> insert ?v {v. page_ok s v \<and> p + PGSIZE \<le> unat v}"
      then show "v \<in> {v. page_ok s v \<and> p \<le> unat v}" using ok u by auto
    qed
    have "kinit_from p s = Ok ((), r)" using True t(1) r(1) by (subst kinit_from.simps) (simp add: andthen_Ok)
    with r split show ?thesis by (intro exI[of _ r] exI[of _ qs]) auto
  qed
qed

section \<open>The interface of a page allocator\<close>

text \<open>\<open>pool s ps\<close>: the pages \<open>ps\<close> are free, in the order in which they will be handed out.\<close>

locale page_pool =
  fixes pool :: "'s \<Rightarrow> 'p list \<Rightarrow> bool" and valid :: "'s \<Rightarrow> 'p \<Rightarrow> bool" and null :: 'p
    and alloc :: "('s, 'p) comp" and free :: "'p \<Rightarrow> ('s, unit) comp"
  assumes alloc_none: "pool s [] \<Longrightarrow> alloc s = Ok (null, s)"
    and alloc_page: "pool s (v # ps) \<Longrightarrow> v \<noteq> null \<and> valid s v \<and> v \<notin> set ps \<and>
      (\<exists>t. alloc s = Ok (v, t) \<and> pool t ps \<and> (\<forall>w. valid t w = valid s w))"
    and free_page: "pool s ps \<Longrightarrow> valid s v \<Longrightarrow> v \<notin> set ps \<Longrightarrow>
      \<exists>t. free v s = Ok ((), t) \<and> pool t (v # ps) \<and> (\<forall>w. valid t w = valid s w)"
begin

lemma alloc_null_iff:
  assumes "pool s ps" "alloc s = Ok (v, t)"
  shows "v = null \<longleftrightarrow> ps = []"
  using assms alloc_none[of s] alloc_page[of s "hd ps" "tl ps"] by (cases ps) auto

lemma two_pages_differ:
  assumes "pool s ps" "2 \<le> length ps"
  obtains v w t u where "alloc s = Ok (v, t)" "alloc t = Ok (w, u)" "v \<noteq> w" "v \<noteq> null" "w \<noteq> null"
proof -
  obtain v w qs where ps: "ps = v # w # qs" using assms(2) by (cases ps; cases "tl ps") auto
  obtain t where t: "alloc s = Ok (v, t)" "pool t (w # qs)" "v \<noteq> null" "v \<notin> set (w # qs)"
    using alloc_page[of s v "w # qs"] assms(1) unfolding ps by blast
  obtain u where u: "alloc t = Ok (w, u)" "w \<noteq> null" using alloc_page[OF t(2)] by blast
  have "v \<noteq> w" using t(4) by auto
  then show thesis by (rule that[OF t(1) u(1) _ t(3) u(2)])
qed

lemma alloc_free:
  assumes "pool s (v # ps)"
  obtains t u where "alloc s = Ok (v, t)" "free v t = Ok ((), u)" "pool u (v # ps)"
proof -
  obtain t where t: "alloc s = Ok (v, t)" "pool t ps" "valid t v" "v \<notin> set ps" using alloc_page[OF assms] by auto
  from free_page[OF t(2,3,4)] t(1) that show thesis by blast
qed

lemma free_alloc:
  assumes "pool s ps" "valid s v" "v \<notin> set ps"
  obtains t u where "free v s = Ok ((), t)" "alloc t = Ok (v, u)" "pool u ps"
proof -
  obtain t where t: "free v s = Ok ((), t)" "pool t (v # ps)" using free_page[OF assms] by blast
  from alloc_page[OF t(2)] t(1) that show thesis by blast
qed

end

interpretation kmem: page_pool kmem_ok page_ok 0 kalloc kfree
proof
  fix s :: "'z kmem_scheme"
  show "kalloc s = Ok (0, s)" if "kmem_ok s []" using that by (cases rule: kalloc_result) auto
  show "v \<noteq> 0 \<and> page_ok s v \<and> v \<notin> set ps \<and> (\<exists>t. kalloc s = Ok (v, t) \<and> kmem_ok t ps \<and> (\<forall>w. page_ok t w = page_ok s w))"
    if "kmem_ok s (v # ps)" for v ps
    using that by (cases rule: kalloc_result) (use that in \<open>auto simp: kmem_ok_def page_ok_def\<close>)
  show "\<exists>t. kfree v s = Ok ((), t) \<and> kmem_ok t (v # ps) \<and> (\<forall>w. page_ok t w = page_ok s w)"
    if p: "kmem_ok s ps" "page_ok s v" "v \<notin> set ps" for v ps
  proof -
    obtain t where "kfree v s = Ok ((), t)" "kmem_ok t (v # ps)" "kernel_end t = kernel_end s" using kfree_result[OF p] .
    then show ?thesis by (auto simp: page_ok_def)
  qed
qed

section \<open>Properties\<close>

definition demo_kmem :: kmem where
  "demo_kmem = \<lparr>mem = (\<lambda>a. 0), freelist = 0, kernel_end = 0x10a4e8\<rparr>"

lemma demo_kmem_ok: "kmem_ok demo_kmem []"
  by (simp add: kmem_ok_def demo_kmem_def)

text \<open>
  C26. \<open>kinit\<close> puts exactly the pages between the end of the kernel and \<open>PHYSTOP\<close> on the free list: after it the list is
  well formed, has no page twice and holds every page that \<open>kfree\<close> accepts.
\<close>

theorem kinit_frees_all_pages:
  assumes "kmem_ok s []" "kernel_end s \<le> PHYSTOP"
  shows "\<exists>t ps. kinit s = Ok ((), t) \<and> kmem_ok t ps \<and> set ps = {v. page_ok s v}"
proof -
  let ?p = "PGROUNDUP (unat (kernel_end s))"
  have p: "?p mod 4096 = 0" "unat (kernel_end s) \<le> ?p" by (simp_all add: PGROUNDUP_def PGSIZE_def)
  have "?p \<le> unat v" if v: "page_ok s v" for v
  proof -
    obtain j where "unat v = 4096 * j" using page_aligned[OF v] by blast
    moreover have "unat (kernel_end s) \<le> unat v" using v by (simp add: page_ok_def word_le_nat_alt)
    ultimately show ?thesis by (simp add: PGROUNDUP_def PGSIZE_def)
  qed
  then have "{v. page_ok s v \<and> ?p \<le> unat v} = {v. page_ok s v}" by auto
  with kinit_from_result[OF assms(1) _ p] show ?thesis by (auto simp: kinit_def)
qed

theorem kinit_frees_all_pages_witness: "\<exists>t ps. kinit demo_kmem = Ok ((), t) \<and> kmem_ok t ps \<and> 0x200000 \<in> set ps"
proof -
  have "kernel_end demo_kmem \<le> PHYSTOP" by (simp add: demo_kmem_def PHYSTOP_def)
  from kinit_frees_all_pages[OF demo_kmem_ok this] obtain t ps where
    "kinit demo_kmem = Ok ((), t)" "kmem_ok t ps" "set ps = {v. page_ok demo_kmem v}" by blast
  moreover have "page_ok demo_kmem 0x200000" by (simp add: page_ok_def demo_kmem_def PGSIZE_def PHYSTOP_def)
  ultimately show ?thesis by blast
qed

text \<open>
  C27. The allocator keeps its free list: a page that is freed and was not free is the next one that \<open>kalloc\<close> returns, and the list
  is then as before; \<open>kfree\<close> of an address that is not a page of the pool panics.
\<close>

theorem kfree_kalloc_roundtrip:
  assumes "kmem_ok s ps"
  shows "if page_ok s v then v \<notin> set ps \<longrightarrow> (\<exists>t u. kfree v s = Ok ((), t) \<and> kalloc t = Ok (v, u) \<and> kmem_ok u ps)
    else kfree v s = Panic ''kfree''"
proof (cases "page_ok s v")
  case True
  with kmem.free_alloc[OF assms True] show ?thesis by metis
next
  case False
  then have "\<not> \<not> (v mod of_nat PGSIZE \<noteq> 0 \<or> v < kernel_end s \<or> v \<ge> PHYSTOP)" by (auto simp: page_ok_def not_less)
  then have "kfree v s = Panic ''kfree''" unfolding kfree_def by (simp only: andthen_simps andthen_check if_False)
  with False show ?thesis by simp
qed

theorem kfree_kalloc_roundtrip_witness:
  "(\<exists>t u. kfree 0x200000 demo_kmem = Ok ((), t) \<and> kalloc t = Ok (0x200000, u)) \<and> kfree 0x1000 demo_kmem = Panic ''kfree''"
  using kfree_kalloc_roundtrip[OF demo_kmem_ok, of "0x200000"] kfree_kalloc_roundtrip[OF demo_kmem_ok, of "0x1000"]
  by (auto simp: page_ok_def demo_kmem_def PGSIZE_def PHYSTOP_def)

end
