(* ===== verification/Xv6_Vm.thy ===== *)
theory Xv6_Vm
  imports Xv6_Kalloc
begin

text \<open>
  Page tables, \<open>xv6/kernel/vm.c\<close>, in the physical memory of the page allocator: a page directory is the address of a page of
  1024 words, each of which points to a page of 1024 page table entries. Kernel addresses are physical addresses.
  \<open>data\<close>, the address where the kernel's data begins, is fixed by the linker and is a parameter of \<open>setupkvm\<close>.
\<close>

section \<open>mmu.h\<close>

definition PTE_P :: "32 word" where "PTE_P = 1"
definition PTE_W :: "32 word" where "PTE_W = 2"
definition PTE_U :: "32 word" where "PTE_U = 4"
definition USERTOP :: "32 word" where "USERTOP = 0xA0000"
definition NPDENTRIES :: nat where "NPDENTRIES = 1024"

definition PDX :: "32 word \<Rightarrow> 32 word" where
  "PDX la = drop_bit 22 la AND 0x3FF"

definition PTX :: "32 word \<Rightarrow> 32 word" where
  "PTX la = drop_bit 12 la AND 0x3FF"

definition PTE_ADDR :: "32 word \<Rightarrow> 32 word" where
  "PTE_ADDR pte = pte AND NOT 0xFFF"

definition PGROUNDDOWN :: "32 word \<Rightarrow> 32 word" where
  "PGROUNDDOWN a = a AND NOT 0xFFF"

definition PGROUNDUPw :: "32 word \<Rightarrow> 32 word" where
  "PGROUNDUPw a = (a + 0xFFF) AND NOT 0xFFF"

section \<open>Operations\<close>

definition mem_load :: "32 word \<Rightarrow> ('z kmem_scheme, 32 word) comp" where
  "mem_load a = gets (\<lambda>s. load32 (mem s) a)"

definition mem_store :: "32 word \<Rightarrow> 32 word \<Rightarrow> ('z kmem_scheme, unit) comp" where
  "mem_store a w = modify (\<lambda>s. s\<lparr>mem := store32 a w (mem s)\<rparr>)"

definition mem_set :: "32 word \<Rightarrow> byte \<Rightarrow> nat \<Rightarrow> ('z kmem_scheme, unit) comp" where
  "mem_set a c n = modify (\<lambda>s. s\<lparr>mem := fill a c n (mem s)\<rparr>)"

definition mem_move :: "32 word \<Rightarrow> 32 word \<Rightarrow> nat \<Rightarrow> ('z kmem_scheme, unit) comp" where
  "mem_move dst src n = modify (\<lambda>s. s\<lparr>mem := (\<lambda>x. if unat (x - dst) < n then mem s (src + (x - dst)) else mem s x)\<rparr>)"

text \<open>The address of the page table entry, or 0.\<close>

definition walkpgdir :: "32 word \<Rightarrow> 32 word \<Rightarrow> bool \<Rightarrow> ('z kmem_scheme, 32 word) comp" where
  "walkpgdir pgdir va create =
     andthen (mem_load (pgdir + 4 * PDX va)) (\<lambda>pde.
     if pde AND PTE_P \<noteq> 0 then ret (PTE_ADDR pde + 4 * PTX va)
     else if \<not> create then ret 0
     else
       andthen kalloc (\<lambda>pgtab.
       if pgtab = 0 then ret 0
       else
         andthen (mem_set pgtab 0 PGSIZE) (\<lambda>_.
         andthen (mem_store (pgdir + 4 * PDX va) (pgtab OR PTE_P OR PTE_W OR PTE_U)) (\<lambda>_.
         ret (pgtab + 4 * PTX va)))))"

text \<open>
  The loop of \<open>mappages\<close> over the pages from \<open>a\<close> on: \<open>n\<close> is the number of pages between \<open>a\<close> and \<open>last\<close>, which are
  both multiples of the page size, so that \<open>a == last\<close> holds when it is 0.
\<close>

primrec mappages_from :: "32 word \<Rightarrow> nat \<Rightarrow> 32 word \<Rightarrow> 32 word \<Rightarrow> 32 word \<Rightarrow> ('z kmem_scheme, int) comp" where
  "mappages_from pgdir 0 a pa perm =
     andthen (walkpgdir pgdir a True) (\<lambda>pte.
     if pte = 0 then ret (-1)
     else
       andthen (mem_load pte) (\<lambda>e.
       andthen (check (e AND PTE_P = 0) ''remap'') (\<lambda>_.
       andthen (mem_store pte (pa OR perm OR PTE_P)) (\<lambda>_. ret 0))))"
| "mappages_from pgdir (Suc n) a pa perm =
     andthen (walkpgdir pgdir a True) (\<lambda>pte.
     if pte = 0 then ret (-1)
     else
       andthen (mem_load pte) (\<lambda>e.
       andthen (check (e AND PTE_P = 0) ''remap'') (\<lambda>_.
       andthen (mem_store pte (pa OR perm OR PTE_P)) (\<lambda>_.
       mappages_from pgdir n (a + of_nat PGSIZE) (pa + of_nat PGSIZE) perm))))"

definition mappages :: "32 word \<Rightarrow> 32 word \<Rightarrow> 32 word \<Rightarrow> 32 word \<Rightarrow> 32 word \<Rightarrow> ('z kmem_scheme, int) comp" where
  "mappages pgdir la len pa perm =
     (let a = PGROUNDDOWN la; last = PGROUNDDOWN (la + len - 1)
      in mappages_from pgdir (unat (last - a) div PGSIZE) a pa perm)"

definition kmap :: "32 word \<Rightarrow> (32 word \<times> 32 word \<times> 32 word) list" where
  "kmap data = [(USERTOP, 0x100000, PTE_W), (0x100000, data, 0), (data, PHYSTOP, PTE_W), (0xFE000000, 0, PTE_W)]"

primrec setupkvm_maps :: "32 word \<Rightarrow> (32 word \<times> 32 word \<times> 32 word) list \<Rightarrow> ('z kmem_scheme, 32 word) comp" where
  "setupkvm_maps pgdir [] = ret pgdir"
| "setupkvm_maps pgdir (k # ks) =
     (case k of (p, e, perm) \<Rightarrow>
        andthen (mappages pgdir p (e - p) p perm) (\<lambda>r. if r < 0 then ret 0 else setupkvm_maps pgdir ks))"

definition setupkvm :: "32 word \<Rightarrow> ('z kmem_scheme, 32 word) comp" where
  "setupkvm data =
     andthen kalloc (\<lambda>pgdir.
     if pgdir = 0 then ret 0
     else andthen (mem_set pgdir 0 PGSIZE) (\<lambda>_. setupkvm_maps pgdir (kmap data)))"

definition inituvm :: "32 word \<Rightarrow> byte list \<Rightarrow> 32 word \<Rightarrow> ('z kmem_scheme, unit) comp" where
  "inituvm pgdir init sz =
     andthen (check (sz < of_nat PGSIZE) ''inituvm: more than a page'') (\<lambda>_.
     andthen kalloc (\<lambda>m.
     andthen (mem_set m 0 PGSIZE) (\<lambda>_.
     andthen (mappages pgdir 0 (of_nat PGSIZE) m (PTE_W OR PTE_U)) (\<lambda>_.
     modify (\<lambda>s. s\<lparr>mem := (\<lambda>x. if unat (x - m) < unat sz then init ! unat (x - m) else mem s x)\<rparr>)))))"

text \<open>The loops over user pages count with the address as a number: it stays below \<open>USERTOP\<close> plus a page.\<close>

function deallocuvm_from :: "32 word \<Rightarrow> nat \<Rightarrow> nat \<Rightarrow> ('z kmem_scheme, unit) comp" where
  "deallocuvm_from pgdir a oldsz =
     (if a < oldsz then
        andthen (walkpgdir pgdir (of_nat a) False) (\<lambda>pte.
        andthen (mem_load pte) (\<lambda>e.
        andthen (if pte \<noteq> 0 \<and> e AND PTE_P \<noteq> 0 then
                   andthen (check (PTE_ADDR e \<noteq> 0) ''kfree'') (\<lambda>_.
                   andthen (kfree (PTE_ADDR e)) (\<lambda>_.
                   mem_store pte 0))
                 else ret ()) (\<lambda>_.
        deallocuvm_from pgdir (a + PGSIZE) oldsz)))
      else ret ())"
  by pat_completeness auto
termination
  by (relation "measure (\<lambda>(pgdir, a, oldsz). oldsz - a)") (auto simp: PGSIZE_def)

declare deallocuvm_from.simps [simp del]

definition deallocuvm :: "32 word \<Rightarrow> 32 word \<Rightarrow> 32 word \<Rightarrow> ('z kmem_scheme, 32 word) comp" where
  "deallocuvm pgdir oldsz newsz =
     (if newsz \<ge> oldsz then ret oldsz
      else andthen (deallocuvm_from pgdir (unat (PGROUNDUPw newsz)) (unat oldsz)) (\<lambda>_. ret newsz))"

text \<open>\<open>allocuvm\<close> does not look at the result of \<open>mappages\<close>.\<close>

function allocuvm_from :: "32 word \<Rightarrow> 32 word \<Rightarrow> nat \<Rightarrow> 32 word \<Rightarrow> ('z kmem_scheme, 32 word) comp" where
  "allocuvm_from pgdir oldsz a newsz =
     (if a < unat newsz then
        andthen kalloc (\<lambda>m.
        if m = 0 then andthen (deallocuvm pgdir newsz oldsz) (\<lambda>_. ret 0)
        else
          andthen (mem_set m 0 PGSIZE) (\<lambda>_.
          andthen (mappages pgdir (of_nat a) (of_nat PGSIZE) m (PTE_W OR PTE_U)) (\<lambda>_.
          allocuvm_from pgdir oldsz (a + PGSIZE) newsz)))
      else ret newsz)"
  by pat_completeness auto
termination
  by (relation "measure (\<lambda>(pgdir, oldsz, a, newsz). unat newsz - a)") (auto simp: PGSIZE_def)

declare allocuvm_from.simps [simp del]

definition allocuvm :: "32 word \<Rightarrow> 32 word \<Rightarrow> 32 word \<Rightarrow> ('z kmem_scheme, 32 word) comp" where
  "allocuvm pgdir oldsz newsz =
     (if newsz > USERTOP then ret 0
      else if newsz < oldsz then ret oldsz
      else allocuvm_from pgdir oldsz (unat (PGROUNDUPw oldsz)) newsz)"

primrec freevm_tables :: "32 word \<Rightarrow> nat list \<Rightarrow> ('z kmem_scheme, unit) comp" where
  "freevm_tables pgdir [] = ret ()"
| "freevm_tables pgdir (i # is) =
     andthen (mem_load (pgdir + 4 * of_nat i)) (\<lambda>e.
     andthen (if e AND PTE_P \<noteq> 0 then kfree (PTE_ADDR e) else ret ()) (\<lambda>_.
     freevm_tables pgdir is))"

definition freevm :: "32 word \<Rightarrow> ('z kmem_scheme, unit) comp" where
  "freevm pgdir =
     andthen (check (pgdir \<noteq> 0) ''freevm: no pgdir'') (\<lambda>_.
     andthen (deallocuvm pgdir USERTOP 0) (\<lambda>_.
     andthen (freevm_tables pgdir [0..<NPDENTRIES]) (\<lambda>_.
     kfree pgdir)))"

function copyuvm_from :: "32 word \<Rightarrow> 32 word \<Rightarrow> nat \<Rightarrow> nat \<Rightarrow> ('z kmem_scheme, 32 word) comp" where
  "copyuvm_from pgdir d i sz =
     (if i < sz then
        andthen (walkpgdir pgdir (of_nat i) False) (\<lambda>pte.
        andthen (check (pte \<noteq> 0) ''copyuvm: pte should exist'') (\<lambda>_.
        andthen (mem_load pte) (\<lambda>e.
        andthen (check (e AND PTE_P \<noteq> 0) ''copyuvm: page not present'') (\<lambda>_.
        andthen kalloc (\<lambda>m.
        if m = 0 then andthen (freevm d) (\<lambda>_. ret 0)
        else
          andthen (mem_move m (PTE_ADDR e) PGSIZE) (\<lambda>_.
          andthen (mappages d (of_nat i) (of_nat PGSIZE) m (PTE_W OR PTE_U)) (\<lambda>r.
          if r < 0 then andthen (freevm d) (\<lambda>_. ret 0)
          else copyuvm_from pgdir d (i + PGSIZE) sz)))))))
      else ret d)"
  by pat_completeness auto
termination
  by (relation "measure (\<lambda>(pgdir, d, i, sz). sz - i)") (auto simp: PGSIZE_def)

declare copyuvm_from.simps [simp del]

definition copyuvm :: "32 word \<Rightarrow> 32 word \<Rightarrow> 32 word \<Rightarrow> ('z kmem_scheme, 32 word) comp" where
  "copyuvm data pgdir sz =
     andthen (setupkvm data) (\<lambda>d. if d = 0 then ret 0 else copyuvm_from pgdir d 0 (unat sz))"

text \<open>\<open>uva2ka\<close> does not test the pointer that \<open>walkpgdir\<close> returns: for 0 it looks at the word at address 0.\<close>

definition uva2ka :: "32 word \<Rightarrow> 32 word \<Rightarrow> ('z kmem_scheme, 32 word) comp" where
  "uva2ka pgdir uva =
     andthen (walkpgdir pgdir uva False) (\<lambda>pte.
     andthen (mem_load pte) (\<lambda>e.
     ret (if e AND PTE_P = 0 then 0 else if e AND PTE_U = 0 then 0 else PTE_ADDR e)))"

text \<open>\<open>copyout\<close>: the number of bytes of the page that are left is positive, so \<open>buf\<close> gets shorter.\<close>

function copyout :: "32 word \<Rightarrow> 32 word \<Rightarrow> byte list \<Rightarrow> ('z kmem_scheme, int) comp" where
  "copyout pgdir va buf =
     (if buf = [] then ret 0
      else
        let va0 = PGROUNDDOWN va;
            n = min (length buf) (PGSIZE - unat va mod PGSIZE)
        in andthen (uva2ka pgdir va0) (\<lambda>pa0.
           if pa0 = 0 then ret (-1)
           else
             andthen (modify (\<lambda>s. s\<lparr>mem := (\<lambda>x. if unat (x - (pa0 + (va - va0))) < n
                then buf ! unat (x - (pa0 + (va - va0))) else mem s x)\<rparr>)) (\<lambda>_.
             copyout pgdir (va0 + of_nat PGSIZE) (drop n buf))))"
  by pat_completeness auto
termination
  by (relation "measure (\<lambda>(pgdir, va, buf). length buf)") (auto simp: PGSIZE_def)

declare copyout.simps [simp del]

end
