(* ===== verification/Xv6_Pipe.thy ===== *)
theory Xv6_Pipe
  imports Prelude
begin

text \<open>
  Pipes, \<open>xv6/kernel/pipe.c\<close>: \<open>pipewrite\<close> and \<open>piperead\<close> on the ring buffer of 512 bytes with its two 32-bit counters. A call
  holds the lock of the pipe from its start, or from a wake-up, until it returns or sleeps; that stretch is one step
  of the model. A call that sleeps is the value \<open>Wait\<close> with what is left to do. The channels that are woken are part of the
  result; what waking does is in the process table.
\<close>

section \<open>State and operations\<close>

definition PIPESIZE :: nat where "PIPESIZE = 512"

record pipe =
  p_data :: "byte list"
  nread :: "32 word"
  nwrite :: "32 word"
  readopen :: bool
  writeopen :: bool

datatype pchan = Nread | Nwrite

datatype 'a outcome = Return int 'a | Wait 'a

text \<open>Bytes that remain to be written; \<open>n\<close> is the value to return.\<close>

fun pipewrite_loop :: "bool \<Rightarrow> int \<Rightarrow> byte list \<Rightarrow> pchan list \<Rightarrow> pipe \<Rightarrow> byte list outcome \<times> pchan list \<times> pipe" where
  "pipewrite_loop killed n [] w p = (Return n [], w @ [Nread], p)"
| "pipewrite_loop killed n (b # bs) w p =
     (if nwrite p = nread p + of_nat PIPESIZE then
        (if \<not> readopen p \<or> killed then (Return (-1) (b # bs), w, p) else (Wait (b # bs), w @ [Nread], p))
      else pipewrite_loop killed n bs w (p\<lparr>p_data := (p_data p)[unat (nwrite p) mod PIPESIZE := b], nwrite := nwrite p + 1\<rparr>))"

definition pipewrite :: "bool \<Rightarrow> byte list \<Rightarrow> int \<Rightarrow> pipe \<Rightarrow> byte list outcome \<times> pchan list \<times> pipe" where
  "pipewrite killed addr n p = pipewrite_loop killed n (take (nat n) addr) [] p"

text \<open>The copying loop of \<open>piperead\<close>: at most \<open>n\<close> bytes, in \<open>addr\<close> what has been copied.\<close>

primrec piperead_loop :: "nat \<Rightarrow> byte list \<Rightarrow> pipe \<Rightarrow> byte list \<times> pipe" where
  "piperead_loop 0 addr p = (addr, p)"
| "piperead_loop (Suc n) addr p =
     (if nread p = nwrite p then (addr, p)
      else piperead_loop n (addr @ [p_data p ! (unat (nread p) mod PIPESIZE)]) (p\<lparr>nread := nread p + 1\<rparr>))"

definition piperead :: "bool \<Rightarrow> int \<Rightarrow> pipe \<Rightarrow> byte list outcome \<times> pchan list \<times> pipe" where
  "piperead killed n p =
     (if nread p = nwrite p \<and> writeopen p then
        (if killed then (Return (-1) [], [], p) else (Wait [], [], p))
      else
        let (addr, p') = piperead_loop (nat n) [] p
        in (Return (int (length addr)) addr, [Nwrite], p'))"

definition close_end :: "bool \<Rightarrow> pipe \<Rightarrow> pchan list \<times> pipe" where
  "close_end writable p =
     (if writable then ([Nread], p\<lparr>writeopen := False\<rparr>) else ([Nwrite], p\<lparr>readopen := False\<rparr>))"

section \<open>The interface of a bounded queue\<close>

locale bounded_fifo =
  fixes ok :: "'q \<Rightarrow> bool" and contents :: "'q \<Rightarrow> 'a list" and capacity :: nat
    and full :: "'q \<Rightarrow> bool" and empty :: "'q \<Rightarrow> bool" and put :: "'a \<Rightarrow> 'q \<Rightarrow> 'q" and front :: "'q \<Rightarrow> 'a" and pop :: "'q \<Rightarrow> 'q"
  assumes bound: "ok q \<Longrightarrow> length (contents q) \<le> capacity"
    and full_iff: "ok q \<Longrightarrow> full q \<longleftrightarrow> length (contents q) = capacity"
    and empty_iff: "ok q \<Longrightarrow> empty q \<longleftrightarrow> contents q = []"
    and put_law: "ok q \<Longrightarrow> \<not> full q \<Longrightarrow> ok (put b q) \<and> contents (put b q) = contents q @ [b]"
    and pop_law: "ok q \<Longrightarrow> \<not> empty q \<Longrightarrow> ok (pop q) \<and> contents q = front q # contents (pop q)"
begin

text \<open>Putting as many elements as fit, and taking at most \<open>n\<close>.\<close>

primrec put_all :: "'a list \<Rightarrow> 'q \<Rightarrow> 'a list \<times> 'q" where
  "put_all [] q = ([], q)"
| "put_all (b # bs) q = (if full q then (b # bs, q) else put_all bs (put b q))"

primrec take_all :: "nat \<Rightarrow> 'q \<Rightarrow> 'a list \<times> 'q" where
  "take_all 0 q = ([], q)"
| "take_all (Suc n) q = (if empty q then ([], q) else let (as, r) = take_all n (pop q) in (front q # as, r))"

lemma put_all_contents:
  assumes "ok q"
  shows "fst (put_all bs q) = drop (capacity - length (contents q)) bs \<and> ok (snd (put_all bs q)) \<and>
    contents (snd (put_all bs q)) = contents q @ take (capacity - length (contents q)) bs"
  using assms
proof (induction bs arbitrary: q)
  case (Cons b bs)
  show ?case
  proof (cases "full q")
    case True
    then show ?thesis using Cons.prems full_iff by simp
  next
    case False
    note p = put_law[OF Cons.prems False, of b]
    have "length (contents q) < capacity" using full_iff[OF Cons.prems] bound[OF Cons.prems] False by simp
    then obtain c where "capacity - length (contents q) = Suc c" by (metis Suc_diff_Suc)
    moreover from this have "capacity - length (contents (put b q)) = c" using p by simp
    ultimately show ?thesis using Cons.IH[of "put b q"] p False by simp
  qed
qed simp

lemma take_all_contents:
  assumes "ok q"
  shows "fst (take_all n q) = take n (contents q) \<and> ok (snd (take_all n q)) \<and> contents (snd (take_all n q)) = drop n (contents q)"
  using assms
proof (induction n arbitrary: q)
  case (Suc n)
  show ?case
  proof (cases "empty q")
    case True
    then show ?thesis using Suc.prems empty_iff by simp
  next
    case False
    note p = pop_law[OF Suc.prems False]
    then have eq: "contents q = front q # contents (pop q)" by simp
    show ?thesis using Suc.IH[of "pop q"] p False by (simp add: Let_def case_prod_beta eq)
  qed
qed simp

end

section \<open>The ring buffer is a bounded queue\<close>

definition pipe_ok :: "pipe \<Rightarrow> bool" where
  "pipe_ok p \<longleftrightarrow> length (p_data p) = PIPESIZE \<and> unat (nwrite p - nread p) \<le> PIPESIZE"

definition slot :: "32 word \<Rightarrow> nat" where
  "slot c = unat c mod PIPESIZE"

definition queued :: "pipe \<Rightarrow> byte list" where
  "queued p = map (\<lambda>k. p_data p ! slot (nread p + of_nat k)) [0..<unat (nwrite p - nread p)]"

definition pipe_put :: "byte \<Rightarrow> pipe \<Rightarrow> pipe" where
  "pipe_put b p = p\<lparr>p_data := (p_data p)[slot (nwrite p) := b], nwrite := nwrite p + 1\<rparr>"

definition pipe_pop :: "pipe \<Rightarrow> pipe" where
  "pipe_pop p = p\<lparr>nread := nread p + 1\<rparr>"

lemma slot_add: "slot (c + of_nat k) = (slot c + k) mod PIPESIZE"
proof -
  have "unat (c + of_nat k) mod 512 = (unat c + k) mod 512"
  proof -
    have "unat (c + of_nat k) = (unat c + k) mod 2 ^ 32"
      by (simp add: unat_word_ariths unat_of_nat take_bit_eq_mod mod_simps)
    then show ?thesis by (simp add: mod_mod_cancel)
  qed
  then show ?thesis by (simp add: slot_def PIPESIZE_def mod_simps)
qed

lemma slot_inj: "j < PIPESIZE \<Longrightarrow> k < PIPESIZE \<Longrightarrow> slot (c + of_nat j) = slot (c + of_nat k) \<Longrightarrow> j = k"
proof -
  assume a: "j < PIPESIZE" "k < PIPESIZE" "slot (c + of_nat j) = slot (c + of_nat k)"
  then have "(slot c + j) mod 512 = (slot c + k) mod 512" by (simp add: slot_add PIPESIZE_def)
  moreover have "slot c < 512" by (simp add: slot_def PIPESIZE_def)
  ultimately show "j = k" using a(1,2) by (auto simp: PIPESIZE_def mod_if split: if_splits)
qed

lemma count_up:
  assumes "unat (w - r :: 32 word) < PIPESIZE"
  shows "unat (w + 1 - r) = Suc (unat (w - r))"
proof -
  have "w + 1 - r = (w - r) + 1" by simp
  moreover have "unat ((w - r) + 1) = Suc (unat (w - r))"
    using assms by (subst unat_add_lem[THEN iffD1]) (simp_all add: PIPESIZE_def)
  ultimately show ?thesis by metis
qed

lemma count_down:
  assumes "w \<noteq> (r :: 32 word)"
  shows "unat (w - (r + 1)) = unat (w - r) - 1"
proof -
  have "w - (r + 1) = (w - r) - 1" by simp
  moreover have "unat ((w - r) - 1) = unat (w - r) - 1" using assms by (intro unat_minus_one) simp
  ultimately show ?thesis by metis
qed

lemma nwrite_slot: "nwrite p = nread p + of_nat (unat (nwrite p - nread p))"
  by simp

lemma pipe_put_queued:
  assumes "pipe_ok p" "unat (nwrite p - nread p) < PIPESIZE"
  shows "pipe_ok (pipe_put b p)" "queued (pipe_put b p) = queued p @ [b]"
proof -
  let ?n = "unat (nwrite p - nread p)"
  have n: "unat (nwrite p + 1 - nread p) = Suc ?n" using count_up[OF assms(2)] .
  show "pipe_ok (pipe_put b p)" using assms n by (simp add: pipe_ok_def pipe_put_def)
  have other: "slot (nwrite p) \<noteq> slot (nread p + of_nat k)" if "k < ?n" for k
    using slot_inj[of k ?n "nread p"] that assms(2) nwrite_slot[of p] by (metis less_trans order_less_irrefl)
  have "slot (nwrite p) < length (p_data p)" using assms(1) by (simp add: pipe_ok_def slot_def PIPESIZE_def)
  then show "queued (pipe_put b p) = queued p @ [b]"
    using n other by (auto simp: queued_def pipe_put_def)
qed

lemma pipe_pop_queued:
  assumes "pipe_ok p" "nread p \<noteq> nwrite p"
  shows "pipe_ok (pipe_pop p)" "queued p = p_data p ! slot (nread p) # queued (pipe_pop p)"
proof -
  let ?n = "unat (nwrite p - nread p)"
  have n: "unat (nwrite p - (nread p + 1)) = ?n - 1" using count_down[of "nwrite p" "nread p"] assms(2) by simp
  show "pipe_ok (pipe_pop p)" using assms(1) n by (auto simp: pipe_ok_def pipe_pop_def)
  have "0 < ?n" using assms(2) by (simp add: unat_gt_0)
  then have "[0..<?n] = 0 # map Suc [0..<?n - 1]" by (simp add: upt_conv_Cons map_Suc_upt)
  then show "queued p = p_data p ! slot (nread p) # queued (pipe_pop p)"
    using n by (simp add: queued_def pipe_pop_def add.assoc comp_def)
qed

interpretation ring: bounded_fifo pipe_ok queued PIPESIZE "\<lambda>p. nwrite p = nread p + of_nat PIPESIZE" "\<lambda>p. nread p = nwrite p"
  pipe_put "\<lambda>p. p_data p ! slot (nread p)" pipe_pop
proof
  fix p :: pipe
  assume ok: "pipe_ok p"
  have len: "length (queued p) = unat (nwrite p - nread p)" by (simp add: queued_def)
  then show "length (queued p) \<le> PIPESIZE" using ok by (simp add: pipe_ok_def)
  show full: "nwrite p = nread p + of_nat PIPESIZE \<longleftrightarrow> length (queued p) = PIPESIZE"
  proof
    assume "nwrite p = nread p + of_nat PIPESIZE"
    then show "length (queued p) = PIPESIZE" using len by (simp add: PIPESIZE_def)
  next
    assume "length (queued p) = PIPESIZE"
    then show "nwrite p = nread p + of_nat PIPESIZE" using len nwrite_slot[of p] by simp
  qed
  show "nread p = nwrite p \<longleftrightarrow> queued p = []" by (auto simp: queued_def unat_eq_zero)
  show "pipe_ok (pipe_put b p) \<and> queued (pipe_put b p) = queued p @ [b]" if "\<not> nwrite p = nread p + of_nat PIPESIZE" for b
  proof -
    have "unat (nwrite p - nread p) < PIPESIZE" using that full len ok by (simp add: pipe_ok_def)
    then show ?thesis using pipe_put_queued[OF ok] by simp
  qed
  show "pipe_ok (pipe_pop p) \<and> queued p = p_data p ! slot (nread p) # queued (pipe_pop p)" if "\<not> nread p = nwrite p"
    using pipe_pop_queued[OF ok that] by simp
qed

section \<open>The system calls on the queue\<close>

lemma flags_put_all [simp]:
  "readopen (snd (ring.put_all bs p)) = readopen p" "writeopen (snd (ring.put_all bs p)) = writeopen p"
  by (induction bs arbitrary: p) (simp_all add: pipe_put_def)

lemma pipewrite_loop_put:
  "pipewrite_loop killed n (b # bs) w p =
     (if nwrite p = nread p + of_nat PIPESIZE then
        (if \<not> readopen p \<or> killed then (Return (-1) (b # bs), w, p) else (Wait (b # bs), w @ [Nread], p))
      else pipewrite_loop killed n bs w (pipe_put b p))"
  by (simp add: pipe_put_def slot_def)

lemma piperead_loop_pop:
  "piperead_loop (Suc n) addr p =
     (if nread p = nwrite p then (addr, p) else piperead_loop n (addr @ [p_data p ! slot (nread p)]) (pipe_pop p))"
  by (simp add: pipe_pop_def slot_def)

lemma flags_put [simp]: "readopen (pipe_put b p) = readopen p"
  by (simp add: pipe_put_def)

lemma pipewrite_put_all:
  "pipewrite_loop killed n bs w p =
     (case ring.put_all bs p of
        ([], q) \<Rightarrow> (Return n [], w @ [Nread], q)
      | (left, q) \<Rightarrow> if \<not> readopen p \<or> killed then (Return (-1) left, w, q) else (Wait left, w @ [Nread], q))"
  by (induction bs arbitrary: p) (simp_all only: pipewrite_loop_put pipewrite_loop.simps(1) ring.put_all.simps prod.case list.case flags_put split: if_split, simp_all)

lemma piperead_take_all: "piperead_loop n addr p = (case ring.take_all n p of (as, q) \<Rightarrow> (addr @ as, q))"
proof (induction n arbitrary: addr p)
  case (Suc n)
  show ?case unfolding piperead_loop_pop ring.take_all.simps Suc.IH by (simp split: prod.splits)
qed simp

lemma pipewrite_result:
  assumes "pipe_ok p" "f = PIPESIZE - length (queued p)"
  obtains q where "pipe_ok q" "queued q = queued p @ take f bs" "readopen q = readopen p" "writeopen q = writeopen p"
    "pipewrite_loop killed n bs w p =
       (if length bs \<le> f then (Return n [], w @ [Nread], q)
        else if \<not> readopen p \<or> killed then (Return (-1) (drop f bs), w, q) else (Wait (drop f bs), w @ [Nread], q))"
proof -
  obtain left q where pa: "ring.put_all bs p = (left, q)" by fastforce
  have q: "left = drop f bs" "pipe_ok q" "queued q = queued p @ take f bs"
    using ring.put_all_contents[OF assms(1), of bs] pa assms(2) by simp_all
  have flags: "readopen q = readopen p" "writeopen q = writeopen p" using flags_put_all[of bs p] pa by simp_all
  have "pipewrite_loop killed n bs w p =
       (if length bs \<le> f then (Return n [], w @ [Nread], q)
        else if \<not> readopen p \<or> killed then (Return (-1) (drop f bs), w, q) else (Wait (drop f bs), w @ [Nread], q))"
    unfolding pipewrite_put_all pa q(1) by (auto split: list.split)
  with q flags show thesis by (intro that)
qed

lemma flags_take_all [simp]:
  "readopen (snd (ring.take_all n p)) = readopen p" "writeopen (snd (ring.take_all n p)) = writeopen p"
  by (induction n arbitrary: p) (simp_all add: Let_def case_prod_beta, simp_all add: pipe_pop_def)

lemma piperead_result:
  assumes "pipe_ok p"
  obtains q where "pipe_ok q" "queued q = drop (nat n) (queued p)" "readopen q = readopen p" "writeopen q = writeopen p"
    "piperead killed n p =
       (if queued p = [] \<and> writeopen p then (if killed then (Return (-1) [], [], p) else (Wait [], [], p))
        else (Return (int (length (take (nat n) (queued p)))) (take (nat n) (queued p)), [Nwrite], q))"
proof -
  obtain as q where ta: "ring.take_all (nat n) p = (as, q)" by fastforce
  have q: "as = take (nat n) (queued p)" "pipe_ok q" "queued q = drop (nat n) (queued p)"
    using ring.take_all_contents[OF assms, of "nat n"] ta by simp_all
  have flags: "readopen q = readopen p" "writeopen q = writeopen p" using flags_take_all[of "nat n" p] ta by simp_all
  have "piperead killed n p =
       (if queued p = [] \<and> writeopen p then (if killed then (Return (-1) [], [], p) else (Wait [], [], p))
        else (Return (int (length (take (nat n) (queued p)))) (take (nat n) (queued p)), [Nwrite], q))"
    unfolding piperead_def piperead_take_all ta ring.empty_iff[OF assms] using q(1) by simp
  with q flags show thesis by (intro that)
qed

section \<open>Runs of a pipe\<close>

text \<open>
  Writers and readers in any order, with calls that sleep and are resumed with what is left. \<open>sent\<close> are the bytes that
  writers have put into the pipe, \<open>got\<close> those that readers have received, in the order of the steps.
\<close>

inductive pipe_run :: "pipe \<Rightarrow> byte list \<Rightarrow> byte list \<Rightarrow> bool" where
  start: "length d = PIPESIZE \<Longrightarrow> pipe_run \<lparr>p_data = d, nread = 0, nwrite = 0, readopen = True, writeopen = True\<rparr> [] []"
| written: "pipe_run p sent got \<Longrightarrow> pipewrite_loop killed n bs [] p = (Return r left, w, q) \<Longrightarrow>
    pipe_run q (sent @ take (length bs - length left) bs) got"
| filled: "pipe_run p sent got \<Longrightarrow> pipewrite_loop killed n bs [] p = (Wait left, w, q) \<Longrightarrow>
    pipe_run q (sent @ take (length bs - length left) bs) got"
| received: "pipe_run p sent got \<Longrightarrow> piperead killed n p = (Return r addr, w, q) \<Longrightarrow> pipe_run q sent (got @ addr)"
| closed: "pipe_run p sent got \<Longrightarrow> close_end writable p = (w, q) \<Longrightarrow> pipe_run q sent got"

lemma write_step:
  assumes "pipe_ok p" "pipewrite_loop killed n bs [] p = (out, w, q)" "out = Return r left \<or> out = Wait left"
  shows "pipe_ok q \<and> queued q = queued p @ take (length bs - length left) bs"
proof -
  let ?f = "PIPESIZE - length (queued p)"
  obtain q' where q': "pipe_ok q'" "queued q' = queued p @ take ?f bs"
    "pipewrite_loop killed n bs [] p = (if length bs \<le> ?f then (Return n [], [] @ [Nread], q')
        else if \<not> readopen p \<or> killed then (Return (-1) (drop ?f bs), [], q') else (Wait (drop ?f bs), [] @ [Nread], q'))"
    using pipewrite_result[OF assms(1) refl, of bs killed n "[]"] by metis
  show ?thesis using q' assms(2,3) by (auto split: if_splits)
qed

lemma close_end_queued [simp]: "close_end wr p = (w, q) \<Longrightarrow> pipe_ok q = pipe_ok p \<and> queued q = queued p"
  by (auto simp: close_end_def pipe_ok_def queued_def split: if_splits)

lemma read_step:
  assumes "pipe_ok p" "piperead killed n p = (Return r addr, w, q)"
  shows "pipe_ok q \<and> queued p = addr @ queued q"
proof -
  obtain q' where "pipe_ok q'" "queued q' = drop (nat n) (queued p)"
    "piperead killed n p = (if queued p = [] \<and> writeopen p then (if killed then (Return (-1) [], [], p) else (Wait [], [], p))
        else (Return (int (length (take (nat n) (queued p)))) (take (nat n) (queued p)), [Nwrite], q'))"
    using piperead_result[OF assms(1), of n killed] by metis
  then show ?thesis using assms by (auto split: if_splits)
qed

lemma pipe_run_fifo: "pipe_run p sent got \<Longrightarrow> pipe_ok p \<and> sent = got @ queued p"
proof (induction rule: pipe_run.induct)
  case (start d)
  then show ?case by (simp add: pipe_ok_def queued_def)
next
  case (written p sent got killed n bs r left w q)
  then show ?case using write_step[of p killed n bs "Return r left" w q r left] by simp
next
  case (filled p sent got killed n bs left w q)
  then show ?case using write_step[of p killed n bs "Wait left" w q 0 left] by simp
next
  case (received p sent got killed n r addr w q)
  then show ?case using read_step[of p killed n r addr w q] by simp
next
  case (closed p sent got writable w q)
  then show ?case by simp
qed

section \<open>Properties\<close>

text \<open>
  C28. A pipe delivers the bytes in order, none lost and none twice: whatever writers and readers do, with calls that block when
  the buffer is full or empty, and however often the 32-bit counters wrap around, the bytes received so far are a prefix of
  the bytes sent, and the rest, at most 512 of them, are in the buffer.
\<close>

theorem pipe_fifo:
  assumes "pipe_run p sent got"
  shows "sent = got @ queued p \<and> length (queued p) \<le> PIPESIZE"
  using pipe_run_fifo[OF assms] ring.bound[of p] by simp

lemma nat_two: "nat 2 = Suc (Suc 0)"
  by simp

theorem pipe_fifo_witness:
  "\<exists>p q. pipe_run p [1, 2, 3] [] \<and> piperead False 2 p = (Return 2 [1, 2], [Nwrite], q) \<and> [1, 2, 3] = [1, 2] @ queued q"
proof -
  let ?p0 = "\<lparr>p_data = replicate 512 0, nread = 0, nwrite = 0, readopen = True, writeopen = True\<rparr>"
  have "pipe_run ?p0 [] []" by (rule pipe_run.start) (simp add: PIPESIZE_def)
  from pipe_run.written[OF this, of False 3 "[1, 2, 3]"] obtain p where
    p: "pipe_run p [1, 2, 3] []" "p = ?p0\<lparr>p_data := ((replicate 512 0)[0 := 1, 1 := 2, 2 := 3]), nwrite := 3\<rparr>"
    by (simp add: PIPESIZE_def)
  obtain q where q: "piperead False 2 p = (Return 2 [1, 2], [Nwrite], q)"
    unfolding p(2) piperead_def nat_two by (simp add: PIPESIZE_def)
  from pipe_fifo[OF pipe_run.received[OF p(1) q]] p(1) q show ?thesis by auto
qed

text \<open>
  C29. When the calls block and what they return: \<open>pipewrite\<close> puts as many bytes as there is room; it returns the count if all
  fit, waits with the rest if the reader is still there, and returns \<open>-1\<close> if the reading end is closed or the process has been
  killed. \<open>piperead\<close> waits just if the buffer is empty and the writing end open; otherwise it returns at once with the first
  bytes, 0 at the end of the stream.
\<close>

theorem pipe_calls:
  assumes "pipe_ok p" "f = PIPESIZE - length (queued p)" "n = int (length bs)"
  shows "(\<exists>q. queued q = queued p @ take f bs \<and>
      pipewrite killed bs n p = (if length bs \<le> f then (Return n [], [Nread], q)
        else if \<not> readopen p \<or> killed then (Return (-1) (drop f bs), [], q) else (Wait (drop f bs), [Nread], q))) \<and>
    (\<exists>q. queued q = drop (nat m) (queued p) \<and>
      piperead killed m p = (if queued p = [] \<and> writeopen p then (if killed then (Return (-1) [], [], p) else (Wait [], [], p))
        else (Return (int (length (take (nat m) (queued p)))) (take (nat m) (queued p)), [Nwrite], q)))"
proof
  have "take (nat n) bs = bs" using assms(3) by simp
  then show "\<exists>q. queued q = queued p @ take f bs \<and>
      pipewrite killed bs n p = (if length bs \<le> f then (Return n [], [Nread], q)
        else if \<not> readopen p \<or> killed then (Return (-1) (drop f bs), [], q) else (Wait (drop f bs), [Nread], q))"
    using pipewrite_result[OF assms(1,2), of bs killed n "[]"] unfolding pipewrite_def by (metis append_Nil)
qed (use piperead_result[OF assms(1), of m killed] in metis)

theorem pipe_calls_witness:
  "\<exists>q. piperead False 5 \<lparr>p_data = replicate 512 0, nread = 4294967295, nwrite = 4294967295, readopen = True, writeopen = False\<rparr>
     = (Return 0 [], [Nwrite], q)"
proof -
  let ?p = "\<lparr>p_data = replicate 512 0, nread = 4294967295, nwrite = 4294967295, readopen = True, writeopen = False\<rparr>"
  have p: "pipe_ok ?p" "queued ?p = []" by (simp_all add: pipe_ok_def queued_def PIPESIZE_def)
  show ?thesis using pipe_calls[OF p(1) refl refl[of "int (length [])"], where killed = False and m = 5] p(2) by auto
qed

end
