(* ===== verification/Xv6_File.thy ===== *)
theory Xv6_File
  imports Xv6_Names Xv6_Vm Xv6_Pipe
begin

text \<open>
  The whole state of the kernel above the file system, the part of \<open>xv6/kernel/proc.c\<close> that other modules call
  (\<open>wakeup\<close>), and the file table, \<open>xv6/kernel/file.c\<close>, with \<open>pipealloc\<close> and \<open>pipeclose\<close> of \<open>pipe.c\<close>.

  Pointers to processes, open files and in-core inodes are indices in their tables, with \<open>None\<close> for a null pointer. A pipe lives
  in a page of the page allocator; \<open>pipes\<close> is the view of those pages as \<open>struct pipe\<close>.
\<close>

section \<open>State\<close>

datatype procstate = UNUSED | EMBRYO | SLEEPING | RUNNABLE | RUNNING | ZOMBIE

text \<open>The addresses that processes sleep on.\<close>

datatype chan = PipeChan "32 word" pchan | ProcChan nat | TicksChan | OtherChan nat

text \<open>The part of the trap frame that the modelled code uses: \<open>eax\<close>, \<open>esp\<close>, \<open>eip\<close>.\<close>

record trapframe =
  tf_eax :: "32 word"
  tf_esp :: "32 word"
  tf_eip :: "32 word"

record proc =
  p_sz :: "32 word"
  p_pgdir :: "32 word"
  p_kstack :: "32 word"
  p_state :: procstate
  p_pid :: int
  p_parent :: "nat option"
  p_tf :: trapframe
  p_chan :: "chan option"
  p_killed :: bool
  p_ofile :: "nat option list"
  p_cwd :: "nat option"
  p_name :: "byte list"

datatype ftype = FD_NONE | FD_PIPE | FD_INODE

record kfile =
  f_type :: ftype
  f_ref :: int
  f_readable :: bool
  f_writable :: bool
  f_pipe :: "32 word"
  f_ip :: nat
  f_off :: "32 word"

text \<open>
  \<open>nextpid\<close> is a C \<open>int\<close> that wraps around. \<open>spawned\<close> is a history variable for the proofs: how often \<open>allocproc\<close> has taken a number from it.
  No function reads it.
\<close>

record sysk = fsk +
  phys :: kmem
  pipes :: "32 word \<Rightarrow> pipe"
  ftable :: "kfile list"
  ptable :: "proc list"
  nextpid :: int
  spawned :: nat
  cur :: nat
  initproc :: nat
  ticks :: "32 word"

definition NFILE :: nat where "NFILE = 100"
definition NPROC :: nat where "NPROC = 64"
definition NOFILE :: nat where "NOFILE = 16"

definition on_pages :: "(kmem, 'a) comp \<Rightarrow> (sysk, 'a) comp" where
  "on_pages c s = (case c (phys s) of Ok (x, m) \<Rightarrow> Ok (x, s\<lparr>phys := m\<rparr>) | Panic e \<Rightarrow> Panic e | Sleep \<Rightarrow> Sleep)"

definition upd_file :: "nat \<Rightarrow> (kfile \<Rightarrow> kfile) \<Rightarrow> (sysk, unit) comp" where
  "upd_file f g = modify (\<lambda>s. s\<lparr>ftable := (ftable s)[f := g (ftable s ! f)]\<rparr>)"

definition file_at :: "nat \<Rightarrow> (sysk, kfile) comp" where
  "file_at f = gets (\<lambda>s. ftable s ! f)"

definition upd_proc :: "nat \<Rightarrow> (proc \<Rightarrow> proc) \<Rightarrow> (sysk, unit) comp" where
  "upd_proc i g = modify (\<lambda>s. s\<lparr>ptable := (ptable s)[i := g (ptable s ! i)]\<rparr>)"

definition proc_at :: "nat \<Rightarrow> (sysk, proc) comp" where
  "proc_at i = gets (\<lambda>s. ptable s ! i)"

section \<open>wakeup\<close>

definition wakeup1 :: "chan \<Rightarrow> proc list \<Rightarrow> proc list" where
  "wakeup1 c ps = map (\<lambda>p. if p_state p = SLEEPING \<and> p_chan p = Some c then p\<lparr>p_state := RUNNABLE\<rparr> else p) ps"

definition wakeup :: "chan \<Rightarrow> (sysk, unit) comp" where
  "wakeup c = modify (\<lambda>s. s\<lparr>ptable := wakeup1 c (ptable s)\<rparr>)"

primrec wakeups :: "32 word \<Rightarrow> pchan list \<Rightarrow> (sysk, unit) comp" where
  "wakeups a [] = ret ()"
| "wakeups a (c # cs) = andthen (wakeup (PipeChan a c)) (\<lambda>_. wakeups a cs)"

section \<open>file.c\<close>

definition filealloc :: "(sysk, nat option) comp" where
  "filealloc s =
     (case find (\<lambda>f. f_ref (ftable s ! f) = 0) [0..<NFILE] of
        Some f \<Rightarrow> Ok (Some f, s\<lparr>ftable := (ftable s)[f := (ftable s ! f)\<lparr>f_ref := 1\<rparr>]\<rparr>)
      | None \<Rightarrow> Ok (None, s))"

definition filedup :: "nat \<Rightarrow> (sysk, nat) comp" where
  "filedup f =
     andthen (file_at f) (\<lambda>x.
     andthen (check (f_ref x \<ge> 1) ''filedup'') (\<lambda>_.
     andthen (upd_file f (\<lambda>x. x\<lparr>f_ref := f_ref x + 1\<rparr>)) (\<lambda>_. ret f)))"

definition pipeclose :: "32 word \<Rightarrow> bool \<Rightarrow> (sysk, unit) comp" where
  "pipeclose p writable =
     andthen (gets (\<lambda>s. close_end writable (pipes s p))) (\<lambda>(w, q).
     andthen (modify (\<lambda>s. s\<lparr>pipes := (pipes s)(p := q)\<rparr>)) (\<lambda>_.
     andthen (wakeups p w) (\<lambda>_.
     if \<not> readopen q \<and> \<not> writeopen q then on_pages (kfree p) else ret ())))"

definition fileclose :: "nat \<Rightarrow> (sysk, unit) comp" where
  "fileclose f =
     andthen (file_at f) (\<lambda>x.
     andthen (check (f_ref x \<ge> 1) ''fileclose'') (\<lambda>_.
     if f_ref x - 1 > 0 then upd_file f (\<lambda>x. x\<lparr>f_ref := f_ref x - 1\<rparr>)
     else
       andthen (upd_file f (\<lambda>x. x\<lparr>f_ref := 0, f_type := FD_NONE\<rparr>)) (\<lambda>_.
       case f_type x of
         FD_PIPE \<Rightarrow> pipeclose (f_pipe x) (f_writable x)
       | FD_INODE \<Rightarrow> iput (f_ip x)
       | FD_NONE \<Rightarrow> ret ())))"

definition pipe_ends :: "nat \<Rightarrow> nat \<Rightarrow> 32 word \<Rightarrow> (sysk, unit) comp" where
  "pipe_ends f0 f1 p =
     andthen (modify (\<lambda>s. s\<lparr>pipes := (pipes s)(p := (pipes s p)\<lparr>readopen := True, writeopen := True, nwrite := 0, nread := 0\<rparr>)\<rparr>)) (\<lambda>_.
     andthen (upd_file f0 (\<lambda>x. x\<lparr>f_type := FD_PIPE, f_readable := True, f_writable := False, f_pipe := p\<rparr>)) (\<lambda>_.
     upd_file f1 (\<lambda>x. x\<lparr>f_type := FD_PIPE, f_readable := False, f_writable := True, f_pipe := p\<rparr>)))"

text \<open>The two files, or \<open>None\<close> for the result \<open>-1\<close>. A page is freed on the way out only if all three allocations worked.\<close>

definition pipealloc :: "(sysk, (nat \<times> nat) option) comp" where
  "pipealloc =
     andthen filealloc (\<lambda>r0.
     case r0 of
       None \<Rightarrow> ret None
     | Some f0 \<Rightarrow>
         andthen filealloc (\<lambda>r1.
         case r1 of
           None \<Rightarrow> andthen (fileclose f0) (\<lambda>_. ret None)
         | Some f1 \<Rightarrow>
             andthen (on_pages kalloc) (\<lambda>p.
             if p = 0 then andthen (fileclose f0) (\<lambda>_. andthen (fileclose f1) (\<lambda>_. ret None))
             else andthen (pipe_ends f0 f1 p) (\<lambda>_. ret (Some (f0, f1))))))"

definition filestat :: "nat \<Rightarrow> (sysk, kstat option) comp" where
  "filestat f =
     andthen (file_at f) (\<lambda>x.
     if f_type x = FD_INODE then
       andthen (ilock (f_ip x)) (\<lambda>_.
       andthen (stati (f_ip x)) (\<lambda>st.
       andthen (iunlock (f_ip x)) (\<lambda>_. ret (Some st))))
     else ret None)"

text \<open>The results of the calls on a pipe; a call that has to wait does not return in this state.\<close>

definition on_pipe :: "32 word \<Rightarrow> (pipe \<Rightarrow> byte list outcome \<times> pchan list \<times> pipe) \<Rightarrow> (sysk, int \<times> byte list) comp" where
  "on_pipe p call =
     andthen (gets (\<lambda>s. call (pipes s p))) (\<lambda>(out, w, q).
     case out of
       Wait _ \<Rightarrow> (\<lambda>s. Sleep)
     | Return n bytes \<Rightarrow>
         andthen (modify (\<lambda>s. s\<lparr>pipes := (pipes s)(p := q)\<rparr>)) (\<lambda>_.
         andthen (wakeups p w) (\<lambda>_. ret (n, bytes))))"

definition killed :: "(sysk, bool) comp" where
  "killed = gets (\<lambda>s. p_killed (ptable s ! cur s))"

text \<open>\<open>n\<close> is the \<open>int\<close> that the system call got; \<open>readi\<close> and \<open>writei\<close> take it as \<open>uint\<close>.\<close>

definition fileread :: "nat \<Rightarrow> int \<Rightarrow> (sysk, int \<times> byte list) comp" where
  "fileread f n =
     andthen (file_at f) (\<lambda>x.
     if \<not> f_readable x then ret (-1, [])
     else
       case f_type x of
         FD_PIPE \<Rightarrow> andthen killed (\<lambda>k. on_pipe (f_pipe x) (piperead k n))
       | FD_INODE \<Rightarrow>
           andthen (ilock (f_ip x)) (\<lambda>_.
           andthen (readi (f_ip x) (f_off x) (of_int n)) (\<lambda>(r, bytes).
           andthen (if r > 0 then upd_file f (\<lambda>x. x\<lparr>f_off := f_off x + of_int r\<rparr>) else ret ()) (\<lambda>_.
           andthen (iunlock (f_ip x)) (\<lambda>_. ret (r, bytes)))))
       | FD_NONE \<Rightarrow> panic ''fileread'')"

definition filewrite :: "nat \<Rightarrow> byte list \<Rightarrow> int \<Rightarrow> (sysk, int) comp" where
  "filewrite f addr n =
     andthen (file_at f) (\<lambda>x.
     if \<not> f_writable x then ret (-1)
     else
       case f_type x of
         FD_PIPE \<Rightarrow> andthen killed (\<lambda>k. andthen (on_pipe (f_pipe x) (pipewrite k addr n)) (\<lambda>(r, _). ret r))
       | FD_INODE \<Rightarrow>
           andthen (ilock (f_ip x)) (\<lambda>_.
           andthen (writei (f_ip x) addr (f_off x) (of_int n)) (\<lambda>r.
           andthen (if r > 0 then upd_file f (\<lambda>x. x\<lparr>f_off := f_off x + of_int r\<rparr>) else ret ()) (\<lambda>_.
           andthen (iunlock (f_ip x)) (\<lambda>_. ret r))))
       | FD_NONE \<Rightarrow> panic ''filewrite'')"

end
