(* ===== verification/Xv6_Sysfile.thy ===== *)
theory Xv6_Sysfile
  imports Xv6_File
begin

text \<open>
  The arguments of system calls, \<open>xv6/kernel/syscall.c\<close>, and the system calls on files, \<open>xv6/kernel/sysfile.c\<close>.

  The kernel reads and writes user memory through the page table of the current process: \<open>mmu\<close> is what the processor does
  with an address. The buffer for a path element is not initialised in the source; its bytes are the argument \<open>nb\<close>. The
  result of a system call is the value that \<open>syscall\<close> puts into \<open>eax\<close>.
\<close>

section \<open>User memory\<close>

definition mmu :: "(32 word \<Rightarrow> byte) \<Rightarrow> 32 word \<Rightarrow> 32 word \<Rightarrow> 32 word option" where
  "mmu m pgdir va =
     (let pde = load32 m (pgdir + 4 * PDX va)
      in if pde AND PTE_P = 0 then None
         else
           let pte = load32 m (PTE_ADDR pde + 4 * PTX va)
           in if pte AND PTE_P = 0 then None else Some (PTE_ADDR pte + (va AND 0xFFF)))"

definition umem :: "sysk \<Rightarrow> 32 word \<Rightarrow> byte" where
  "umem s va = (case mmu (mem (phys s)) (p_pgdir (ptable s ! cur s)) va of Some pa \<Rightarrow> mem (phys s) pa | None \<Rightarrow> 0)"

definition ustore :: "32 word \<Rightarrow> byte list \<Rightarrow> (sysk, unit) comp" where
  "ustore va bytes = modify (\<lambda>s. s\<lparr>phys := (phys s)\<lparr>mem :=
     fold (\<lambda>k m. case mmu (mem (phys s)) (p_pgdir (ptable s ! cur s)) (va + of_nat k) of Some pa \<Rightarrow> m(pa := bytes ! k) | None \<Rightarrow> m)
       [0..<length bytes] (mem (phys s))\<rparr>\<rparr>)"

section \<open>syscall.c\<close>

text \<open>On user memory \<open>m\<close> of a process of size \<open>sz\<close>; \<open>None\<close> is the result \<open>-1\<close>.\<close>

definition fetchint :: "(32 word \<Rightarrow> byte) \<Rightarrow> 32 word \<Rightarrow> 32 word \<Rightarrow> 32 word option" where
  "fetchint m sz addr = (if addr \<ge> sz \<or> addr + 4 > sz then None else Some (load32 m addr))"

text \<open>The loop of \<open>fetchstr\<close> looks for a zero byte below \<open>sz\<close>; the result is the length of the string.\<close>

definition fetchstr :: "(32 word \<Rightarrow> byte) \<Rightarrow> 32 word \<Rightarrow> 32 word \<Rightarrow> nat option" where
  "fetchstr m sz addr =
     (if addr \<ge> sz then None else find (\<lambda>k. m (addr + of_nat k) = 0) [0..<unat sz - unat addr])"

definition argint :: "nat \<Rightarrow> sysk \<Rightarrow> 32 word option" where
  "argint n s = (let p = ptable s ! cur s in fetchint (umem s) (p_sz p) (tf_esp (p_tf p) + 4 + 4 * of_nat n))"

definition argptr :: "nat \<Rightarrow> 32 word \<Rightarrow> sysk \<Rightarrow> 32 word option" where
  "argptr n len s =
     (case argint n s of
        None \<Rightarrow> None
      | Some i \<Rightarrow> let sz = p_sz (ptable s ! cur s) in if i \<ge> sz \<or> i + len > sz then None else Some i)"

text \<open>The bytes of the string, without the terminator.\<close>

definition argstr :: "nat \<Rightarrow> sysk \<Rightarrow> byte list option" where
  "argstr n s =
     (case argint n s of
        None \<Rightarrow> None
      | Some addr \<Rightarrow>
          (case fetchstr (umem s) (p_sz (ptable s ! cur s)) addr of
             None \<Rightarrow> None
           | Some len \<Rightarrow> Some (map (\<lambda>k. umem s (addr + of_nat k)) [0..<len])))"

section \<open>sysfile.c\<close>

definition argfd :: "nat \<Rightarrow> sysk \<Rightarrow> (nat \<times> nat) option" where
  "argfd n s =
     (case argint n s of
        None \<Rightarrow> None
      | Some w \<Rightarrow>
          if sint w < 0 \<or> sint w \<ge> int NOFILE then None
          else (case p_ofile (ptable s ! cur s) ! nat (sint w) of None \<Rightarrow> None | Some f \<Rightarrow> Some (nat (sint w), f)))"

definition set_ofile :: "nat \<Rightarrow> nat option \<Rightarrow> (sysk, unit) comp" where
  "set_ofile fd v = andthen (gets cur) (\<lambda>c. upd_proc c (\<lambda>p. p\<lparr>p_ofile := (p_ofile p)[fd := v]\<rparr>))"

definition fdalloc :: "nat \<Rightarrow> (sysk, nat option) comp" where
  "fdalloc f =
     andthen (gets (\<lambda>s. find (\<lambda>fd. p_ofile (ptable s ! cur s) ! fd = None) [0..<NOFILE])) (\<lambda>r.
     case r of
       None \<Rightarrow> ret None
     | Some fd \<Rightarrow> andthen (set_ofile fd (Some f)) (\<lambda>_. ret (Some fd)))"

definition sys_dup :: "(sysk, int) comp" where
  "sys_dup =
     andthen (gets (argfd 0)) (\<lambda>a.
     case a of
       None \<Rightarrow> ret (-1)
     | Some (_, f) \<Rightarrow>
         andthen (fdalloc f) (\<lambda>r.
         case r of
           None \<Rightarrow> ret (-1)
         | Some fd \<Rightarrow> andthen (filedup f) (\<lambda>_. ret (int fd))))"

definition sys_read :: "(sysk, int) comp" where
  "sys_read =
     andthen (gets (\<lambda>s. (argfd 0 s, argint 2 s))) (\<lambda>a.
     case a of
       (Some (_, f), Some n) \<Rightarrow>
         andthen (gets (argptr 1 n)) (\<lambda>q.
         case q of
           None \<Rightarrow> ret (-1)
         | Some p \<Rightarrow> andthen (fileread f (sint n)) (\<lambda>(r, bytes). andthen (ustore p bytes) (\<lambda>_. ret r)))
     | _ \<Rightarrow> ret (-1))"

definition sys_write :: "(sysk, int) comp" where
  "sys_write =
     andthen (gets (\<lambda>s. (argfd 0 s, argint 2 s))) (\<lambda>a.
     case a of
       (Some (_, f), Some n) \<Rightarrow>
         andthen (gets (argptr 1 n)) (\<lambda>q.
         case q of
           None \<Rightarrow> ret (-1)
         | Some p \<Rightarrow>
             andthen (gets (\<lambda>s. map (\<lambda>k. umem s (p + of_nat k)) [0..<unat n])) (\<lambda>bytes.
             filewrite f bytes (sint n)))
     | _ \<Rightarrow> ret (-1))"

definition sys_close :: "(sysk, int) comp" where
  "sys_close =
     andthen (gets (argfd 0)) (\<lambda>a.
     case a of
       None \<Rightarrow> ret (-1)
     | Some (fd, f) \<Rightarrow>
         andthen (set_ofile fd None) (\<lambda>_.
         andthen (fileclose f) (\<lambda>_. ret 0)))"

text \<open>The fields of the \<open>struct stat\<close> at user address \<open>p\<close>.\<close>

definition store_stat :: "32 word \<Rightarrow> kstat \<Rightarrow> (sysk, unit) comp" where
  "store_stat p st =
     andthen (ustore (p + 4) (le32 (kst_dev st))) (\<lambda>_.
     andthen (ustore (p + 8) (le32 (kst_ino st))) (\<lambda>_.
     andthen (ustore p (le16 (kst_type st))) (\<lambda>_.
     andthen (ustore (p + 12) (le16 (kst_nlink st))) (\<lambda>_.
     andthen (ustore (p + 16) (le32 (kst_size st))) (\<lambda>_.
     ustore (p + 20) [kst_checksum st])))))"

definition inc_nlink :: "nat \<Rightarrow> 16 word \<Rightarrow> (sysk, unit) comp" where
  "inc_nlink i k = andthen (upd_inode i (\<lambda>ip. ip\<lparr>ip_nlink := ip_nlink ip + k\<rparr>)) (\<lambda>_. iupdate i)"

definition cwd_at :: "(sysk, nat) comp" where
  "cwd_at = gets (\<lambda>s. case p_cwd (ptable s ! cur s) of Some c \<Rightarrow> c | None \<Rightarrow> 0)"

definition sys_link :: "byte list \<Rightarrow> (sysk, int) comp" where
  "sys_link nb =
     andthen (gets (\<lambda>s. (argstr 0 s, argstr 1 s))) (\<lambda>a.
     case a of
       (Some old, Some new) \<Rightarrow>
         andthen cwd_at (\<lambda>c.
         andthen (namei c old nb) (\<lambda>r.
         case r of
           None \<Rightarrow> ret (-1)
         | Some ip \<Rightarrow>
             andthen (ilock ip) (\<lambda>_.
             andthen (inode_at ip) (\<lambda>d.
             if ip_type d = T_DIR then andthen (iunlockput ip) (\<lambda>_. ret (-1))
             else
               let bad = andthen (ilock ip) (\<lambda>_. andthen (inc_nlink ip (-1)) (\<lambda>_. andthen (iunlockput ip) (\<lambda>_. ret (-1))))
               in andthen (inc_nlink ip 1) (\<lambda>_.
                  andthen (iunlock ip) (\<lambda>_.
                  andthen (nameiparent c new nb) (\<lambda>q.
                  case q of
                    None \<Rightarrow> bad
                  | Some (dp, name) \<Rightarrow>
                      andthen (ilock dp) (\<lambda>_.
                      andthen (inode_at dp) (\<lambda>dpi.
                      andthen (inode_at ip) (\<lambda>ipi.
                      andthen (if ip_dev dpi \<noteq> ip_dev ipi then ret (-1) else dirlink dp name (ip_inum ipi)) (\<lambda>l.
                      if l < 0 then andthen (iunlockput dp) (\<lambda>_. bad)
                      else
                        andthen (iunlockput dp) (\<lambda>_.
                        andthen (iput ip) (\<lambda>_. ret 0)))))))))))))
     | _ \<Rightarrow> ret (-1))"

function isdirempty_from :: "nat \<Rightarrow> nat \<Rightarrow> nat \<Rightarrow> (sysk, bool) comp" where
  "isdirempty_from dp sz off =
     (if off < sz then
        andthen (readi dp (of_nat off) 16) (\<lambda>(r, bytes).
        andthen (check (r = 16) ''isdirempty: readi'') (\<lambda>_.
        if de_inum (dec_dirent bytes) \<noteq> 0 then ret False else isdirempty_from dp sz (off + 16)))
      else ret True)"
  by pat_completeness auto
termination
  by (relation "measure (\<lambda>(dp, sz, off). sz - off)") auto

declare isdirempty_from.simps [simp del]

definition isdirempty :: "nat \<Rightarrow> (sysk, bool) comp" where
  "isdirempty dp = andthen (inode_at dp) (\<lambda>d. isdirempty_from dp (unat (ip_size d)) 32)"

definition dot :: "byte list" where "dot = [46, 0]"
definition dotdot :: "byte list" where "dotdot = [46, 46, 0]"

text \<open>The end of \<open>sys_unlink\<close>, with both inodes locked.\<close>

definition unlink_entry :: "nat \<Rightarrow> nat \<Rightarrow> 32 word \<Rightarrow> (sysk, int) comp" where
  "unlink_entry dp ip off =
     andthen (writei dp (replicate 16 0) off 16) (\<lambda>r.
     andthen (check (r = 16) ''unlink: writei'') (\<lambda>_.
     andthen (inode_at ip) (\<lambda>d.
     andthen (if ip_type d = T_DIR then inc_nlink dp (-1) else ret ()) (\<lambda>_.
     andthen (iunlockput dp) (\<lambda>_.
     andthen (inc_nlink ip (-1)) (\<lambda>_.
     andthen (iunlockput ip) (\<lambda>_. ret 0)))))))"

definition sys_unlink :: "byte list \<Rightarrow> (sysk, int) comp" where
  "sys_unlink nb =
     andthen (gets (argstr 0)) (\<lambda>a.
     case a of
       None \<Rightarrow> ret (-1)
     | Some path \<Rightarrow>
         andthen cwd_at (\<lambda>c.
         andthen (nameiparent c path nb) (\<lambda>q.
         case q of
           None \<Rightarrow> ret (-1)
         | Some (dp, name) \<Rightarrow>
             andthen (ilock dp) (\<lambda>_.
             if namecmp name dot = 0 \<or> namecmp name dotdot = 0 then andthen (iunlockput dp) (\<lambda>_. ret (-1))
             else
               andthen (dirlookup dp name) (\<lambda>r.
               case r of
                 None \<Rightarrow> andthen (iunlockput dp) (\<lambda>_. ret (-1))
               | Some (ip, off) \<Rightarrow>
                   andthen (ilock ip) (\<lambda>_.
                   andthen (inode_at ip) (\<lambda>d.
                   andthen (check (\<not> sint (ip_nlink d) < 1) ''unlink: nlink < 1'') (\<lambda>_.
                   andthen (if ip_type d = T_DIR then isdirempty ip else ret True) (\<lambda>empty.
                   if \<not> empty then andthen (iunlockput ip) (\<lambda>_. andthen (iunlockput dp) (\<lambda>_. ret (-1)))
                   else unlink_entry dp ip off)))))))))"

text \<open>\<open>create\<close>: the part for a new inode, with the directory locked.\<close>

definition create_new :: "nat \<Rightarrow> byte list \<Rightarrow> 16 word \<Rightarrow> 16 word \<Rightarrow> 16 word \<Rightarrow> (sysk, nat) comp" where
  "create_new dp name type major minor =
     andthen (inode_at dp) (\<lambda>dpi.
     andthen (ialloc (ip_dev dpi) type) (\<lambda>ip.
     andthen (ilock ip) (\<lambda>_.
     andthen (upd_inode ip (\<lambda>x. x\<lparr>ip_major := major, ip_minor := minor, ip_nlink := 1\<rparr>)) (\<lambda>_.
     andthen (iupdate ip) (\<lambda>_.
     andthen (inode_at ip) (\<lambda>ipi.
     andthen (if type = T_DIR then
                andthen (inc_nlink dp 1) (\<lambda>_.
                andthen (dirlink ip dot (ip_inum ipi)) (\<lambda>r1.
                andthen (if r1 < 0 then ret (-1) else dirlink ip dotdot (ip_inum dpi)) (\<lambda>r2.
                check (\<not> (r1 < 0 \<or> r2 < 0)) ''create dots'')))
              else ret ()) (\<lambda>_.
     andthen (dirlink dp name (ip_inum ipi)) (\<lambda>r.
     andthen (check (\<not> r < 0) ''create: dirlink'') (\<lambda>_.
     andthen (iunlockput dp) (\<lambda>_. ret ip))))))))))"

definition create :: "byte list \<Rightarrow> byte list \<Rightarrow> 16 word \<Rightarrow> 16 word \<Rightarrow> 16 word \<Rightarrow> (sysk, nat option) comp" where
  "create nb path type major minor =
     andthen cwd_at (\<lambda>c.
     andthen (nameiparent c path nb) (\<lambda>q.
     case q of
       None \<Rightarrow> ret None
     | Some (dp, name) \<Rightarrow>
         andthen (ilock dp) (\<lambda>_.
         andthen (dirlookup dp name) (\<lambda>r.
         case r of
           Some (ip, _) \<Rightarrow>
             andthen (iunlockput dp) (\<lambda>_.
             andthen (ilock ip) (\<lambda>_.
             andthen (inode_at ip) (\<lambda>d.
             if type = T_FILE \<and> ip_type d = T_FILE \<or> type = T_CHECKED \<and> ip_type d = T_CHECKED then ret (Some ip)
             else andthen (iunlockput ip) (\<lambda>_. ret None))))
         | None \<Rightarrow> andthen (create_new dp name type major minor) (\<lambda>ip. ret (Some ip))))))"

definition O_RDONLY :: "32 word" where "O_RDONLY = 0"
definition O_WRONLY :: "32 word" where "O_WRONLY = 1"
definition O_RDWR :: "32 word" where "O_RDWR = 2"
definition O_CREATE :: "32 word" where "O_CREATE = 0x200"
definition O_CHECKED :: "32 word" where "O_CHECKED = 0x400"

text \<open>The inode for \<open>sys_open\<close>, locked.\<close>

definition open_inode :: "byte list \<Rightarrow> byte list \<Rightarrow> 32 word \<Rightarrow> (sysk, nat option) comp" where
  "open_inode nb path omode =
     (if omode AND O_CREATE \<noteq> 0 then create nb path T_FILE 0 0
      else if omode AND O_CREATE AND O_CHECKED \<noteq> 0 then create nb path T_CHECKED 0 0
      else
        andthen cwd_at (\<lambda>c.
        andthen (namei c path nb) (\<lambda>r.
        case r of
          None \<Rightarrow> ret None
        | Some ip \<Rightarrow>
            andthen (ilock ip) (\<lambda>_.
            andthen (inode_at ip) (\<lambda>d.
            if ip_type d = T_DIR \<and> omode \<noteq> O_RDONLY then andthen (iunlockput ip) (\<lambda>_. ret None)
            else ret (Some ip))))))"

definition sys_open :: "byte list \<Rightarrow> (sysk, int) comp" where
  "sys_open nb =
     andthen (gets (\<lambda>s. (argstr 0 s, argint 1 s))) (\<lambda>a.
     case a of
       (Some path, Some omode) \<Rightarrow>
         andthen (open_inode nb path omode) (\<lambda>r.
         case r of
           None \<Rightarrow> ret (-1)
         | Some ip \<Rightarrow>
             andthen filealloc (\<lambda>x.
             case x of
               None \<Rightarrow> andthen (iunlockput ip) (\<lambda>_. ret (-1))
             | Some f \<Rightarrow>
                 andthen (fdalloc f) (\<lambda>y.
                 case y of
                   None \<Rightarrow> andthen (fileclose f) (\<lambda>_. andthen (iunlockput ip) (\<lambda>_. ret (-1)))
                 | Some fd \<Rightarrow>
                     andthen (iunlock ip) (\<lambda>_.
                     andthen (upd_file f (\<lambda>g. g\<lparr>f_type := FD_INODE, f_ip := ip, f_off := 0,
                        f_readable := omode AND O_WRONLY = 0,
                        f_writable := omode AND O_WRONLY \<noteq> 0 \<or> omode AND O_RDWR \<noteq> 0\<rparr>)) (\<lambda>_.
                     ret (int fd))))))
     | _ \<Rightarrow> ret (-1))"

definition sys_mkdir :: "byte list \<Rightarrow> (sysk, int) comp" where
  "sys_mkdir nb =
     andthen (gets (argstr 0)) (\<lambda>a.
     case a of
       None \<Rightarrow> ret (-1)
     | Some path \<Rightarrow>
         andthen (create nb path T_DIR 0 0) (\<lambda>r.
         case r of None \<Rightarrow> ret (-1) | Some ip \<Rightarrow> andthen (iunlockput ip) (\<lambda>_. ret 0)))"

definition sys_mknod :: "byte list \<Rightarrow> (sysk, int) comp" where
  "sys_mknod nb =
     andthen (gets (\<lambda>s. (argstr 0 s, argint 1 s, argint 2 s))) (\<lambda>a.
     case a of
       (Some path, Some major, Some minor) \<Rightarrow>
         andthen (create nb path T_DEV (ucast major) (ucast minor)) (\<lambda>r.
         case r of None \<Rightarrow> ret (-1) | Some ip \<Rightarrow> andthen (iunlockput ip) (\<lambda>_. ret 0))
     | _ \<Rightarrow> ret (-1))"

definition sys_chdir :: "byte list \<Rightarrow> (sysk, int) comp" where
  "sys_chdir nb =
     andthen (gets (argstr 0)) (\<lambda>a.
     case a of
       None \<Rightarrow> ret (-1)
     | Some path \<Rightarrow>
         andthen cwd_at (\<lambda>c.
         andthen (namei c path nb) (\<lambda>r.
         case r of
           None \<Rightarrow> ret (-1)
         | Some ip \<Rightarrow>
             andthen (ilock ip) (\<lambda>_.
             andthen (inode_at ip) (\<lambda>d.
             if ip_type d \<noteq> T_DIR then andthen (iunlockput ip) (\<lambda>_. ret (-1))
             else
               andthen (iunlock ip) (\<lambda>_.
               andthen (iput c) (\<lambda>_.
               andthen (gets cur) (\<lambda>me.
               andthen (upd_proc me (\<lambda>p. p\<lparr>p_cwd := Some ip\<rparr>)) (\<lambda>_. ret 0)))))))))"

definition sys_fstat :: "(sysk, int) comp" where
  "sys_fstat =
     andthen (gets (\<lambda>s. (argfd 0 s, argptr 1 24 s))) (\<lambda>a.
     case a of
       (Some (_, f), Some p) \<Rightarrow>
         andthen (filestat f) (\<lambda>r.
         case r of
           None \<Rightarrow> ret (-1)
         | Some st \<Rightarrow> andthen (store_stat p st) (\<lambda>_. ret 0))
     | _ \<Rightarrow> ret (-1))"

definition sys_pipe :: "(sysk, int) comp" where
  "sys_pipe =
     andthen (gets (argptr 0 8)) (\<lambda>a.
     case a of
       None \<Rightarrow> ret (-1)
     | Some p \<Rightarrow>
         andthen pipealloc (\<lambda>r.
         case r of
           None \<Rightarrow> ret (-1)
         | Some (rf, wrf) \<Rightarrow>
             andthen (fdalloc rf) (\<lambda>x0.
             case x0 of
               None \<Rightarrow> andthen (fileclose rf) (\<lambda>_. andthen (fileclose wrf) (\<lambda>_. ret (-1)))
             | Some fd0 \<Rightarrow>
                 andthen (fdalloc wrf) (\<lambda>x1.
                 case x1 of
                   None \<Rightarrow>
                     andthen (set_ofile fd0 None) (\<lambda>_.
                     andthen (fileclose rf) (\<lambda>_.
                     andthen (fileclose wrf) (\<lambda>_. ret (-1))))
                 | Some fd1 \<Rightarrow>
                     andthen (ustore p (le32 (of_nat fd0))) (\<lambda>_.
                     andthen (ustore (p + 4) (le32 (of_nat fd1))) (\<lambda>_. ret 0))))))"

end
