(* ===== verification/Xv6_Proc.thy ===== *)
theory Xv6_Proc
  imports Xv6_Sysfile
begin

text \<open>
  Processes, \<open>xv6/kernel/proc.c\<close>, and the system calls on them, \<open>xv6/kernel/sysproc.c\<close>. The locks are held within a step. The
  kernel stack of a process is a page of the allocator; what \<open>allocproc\<close> stores there for the first switch to the
  process, and the switch itself, is machine code and not modelled: \<open>exit\<close>, \<open>yield\<close> and \<open>sleep\<close> end in the state in
  which the scheduler takes over.
\<close>

section \<open>Creating processes\<close>

definition allocproc :: "(sysk, nat option) comp" where
  "allocproc =
     andthen (gets (\<lambda>s. find (\<lambda>i. p_state (ptable s ! i) = UNUSED) [0..<NPROC])) (\<lambda>r.
     case r of
       None \<Rightarrow> ret None
     | Some i \<Rightarrow>
         andthen (gets nextpid) (\<lambda>pid.
         andthen (upd_proc i (\<lambda>p. p\<lparr>p_state := EMBRYO, p_pid := pid\<rparr>)) (\<lambda>_.
         andthen (modify (\<lambda>s. s\<lparr>nextpid := signed_take_bit 31 (nextpid s + 1), spawned := Suc (spawned s)\<rparr>)) (\<lambda>_.
         andthen (on_pages kalloc) (\<lambda>k.
         andthen (upd_proc i (\<lambda>p. p\<lparr>p_kstack := k\<rparr>)) (\<lambda>_.
         if k = 0 then andthen (upd_proc i (\<lambda>p. p\<lparr>p_state := UNUSED\<rparr>)) (\<lambda>_. ret None)
         else ret (Some i)))))))"

definition growproc :: "32 word \<Rightarrow> (sysk, int) comp" where
  "growproc n =
     andthen (gets cur) (\<lambda>c.
     andthen (proc_at c) (\<lambda>p.
     andthen (if sint n > 0 then on_pages (allocuvm (p_pgdir p) (p_sz p) (p_sz p + n))
              else if sint n < 0 then on_pages (deallocuvm (p_pgdir p) (p_sz p) (p_sz p + n))
              else ret (p_sz p)) (\<lambda>sz.
     if sint n \<noteq> 0 \<and> sz = 0 then ret (-1)
     else andthen (upd_proc c (\<lambda>p. p\<lparr>p_sz := sz\<rparr>)) (\<lambda>_. ret 0))))"

text \<open>The loop of \<open>fork\<close> over the open files.\<close>

primrec fork_files :: "nat \<Rightarrow> nat list \<Rightarrow> (sysk, unit) comp" where
  "fork_files np [] = ret ()"
| "fork_files np (fd # fds) =
     andthen (gets (\<lambda>s. p_ofile (ptable s ! cur s) ! fd)) (\<lambda>x.
     andthen (case x of
                None \<Rightarrow> ret ()
              | Some f \<Rightarrow> andthen (filedup f) (\<lambda>g. upd_proc np (\<lambda>p. p\<lparr>p_ofile := (p_ofile p)[fd := Some g]\<rparr>))) (\<lambda>_.
     fork_files np fds))"

text \<open>\<open>fork\<close> from its end: open files, directory and name of the child; after the copy of the page table; after \<open>allocproc\<close>.\<close>

definition fork_named :: "nat \<Rightarrow> proc \<Rightarrow> (sysk, int) comp" where
  "fork_named np me =
     andthen (idup (case p_cwd me of Some i \<Rightarrow> i | None \<Rightarrow> 0)) (\<lambda>i.
     andthen (upd_proc np (\<lambda>p. p\<lparr>p_cwd := Some i\<rparr>)) (\<lambda>_.
     andthen (proc_at np) (\<lambda>child.
     andthen (upd_proc np (\<lambda>p. p\<lparr>p_state := RUNNABLE, p_name := safestrcpy 0 (p_name me) 16 (p_name p)\<rparr>)) (\<lambda>_.
     ret (p_pid child)))))"

definition fork_copied :: "nat \<Rightarrow> nat \<Rightarrow> proc \<Rightarrow> 32 word \<Rightarrow> (sysk, int) comp" where
  "fork_copied np c me d =
     andthen (upd_proc np (\<lambda>p. p\<lparr>p_pgdir := d\<rparr>)) (\<lambda>_.
     if d = 0 then
       andthen (proc_at np) (\<lambda>child.
       andthen (on_pages (kfree (p_kstack child))) (\<lambda>_.
       andthen (upd_proc np (\<lambda>p. p\<lparr>p_kstack := 0, p_state := UNUSED\<rparr>)) (\<lambda>_. ret (-1))))
     else
       andthen (upd_proc np (\<lambda>p. p\<lparr>p_sz := p_sz me, p_parent := Some c, p_tf := (p_tf me)\<lparr>tf_eax := 0\<rparr>\<rparr>)) (\<lambda>_.
       andthen (fork_files np [0..<NOFILE]) (\<lambda>_.
       fork_named np me)))"

definition fork_rest :: "32 word \<Rightarrow> nat \<Rightarrow> (sysk, int) comp" where
  "fork_rest data np =
     andthen (gets cur) (\<lambda>c.
     andthen (proc_at c) (\<lambda>me.
     andthen (on_pages (copyuvm data (p_pgdir me) (p_sz me))) (\<lambda>d.
     fork_copied np c me d)))"

definition fork :: "32 word \<Rightarrow> (sysk, int) comp" where
  "fork data =
     andthen allocproc (\<lambda>r.
     case r of None \<Rightarrow> ret (-1) | Some np \<Rightarrow> fork_rest data np)"

section \<open>Ending processes\<close>

primrec exit_files :: "nat list \<Rightarrow> (sysk, unit) comp" where
  "exit_files [] = ret ()"
| "exit_files (fd # fds) =
     andthen (gets (\<lambda>s. p_ofile (ptable s ! cur s) ! fd)) (\<lambda>x.
     andthen (case x of
                None \<Rightarrow> ret ()
              | Some f \<Rightarrow> andthen (fileclose f) (\<lambda>_. set_ofile fd None)) (\<lambda>_.
     exit_files fds))"

text \<open>The children of \<open>c\<close> go to \<open>init\<close>, which is woken if one of them is a zombie.\<close>

definition reparent :: "nat \<Rightarrow> nat \<Rightarrow> proc list \<Rightarrow> proc list" where
  "reparent c init ps =
     fold (\<lambda>i ps.
       if p_parent (ps ! i) = Some c then
         let ps' = ps[i := (ps ! i)\<lparr>p_parent := Some init\<rparr>]
         in if p_state (ps' ! i) = ZOMBIE then wakeup1 (ProcChan init) ps' else ps'
       else ps) [0..<length ps] ps"

definition wake_parent :: "nat option \<Rightarrow> proc list \<Rightarrow> proc list" where
  "wake_parent q ps = (case q of Some i \<Rightarrow> wakeup1 (ProcChan i) ps | None \<Rightarrow> ps)"

text \<open>\<open>exit\<close> from its end: the changes of the table under its lock; after the files have been closed.\<close>

definition exit_table :: "nat \<Rightarrow> nat \<Rightarrow> nat option \<Rightarrow> (sysk, unit) comp" where
  "exit_table c init parent =
     andthen (upd_proc c (\<lambda>p. p\<lparr>p_cwd := None\<rparr>)) (\<lambda>_.
     andthen (modify (\<lambda>s. s\<lparr>ptable := wake_parent parent (ptable s)\<rparr>)) (\<lambda>_.
     andthen (modify (\<lambda>s. s\<lparr>ptable := reparent c init (ptable s)\<rparr>)) (\<lambda>_.
     upd_proc c (\<lambda>p. p\<lparr>p_state := ZOMBIE\<rparr>))))"

definition exit_rest :: "nat \<Rightarrow> nat \<Rightarrow> (sysk, unit) comp" where
  "exit_rest c init =
     andthen (proc_at c) (\<lambda>me.
     andthen (iput (case p_cwd me of Some i \<Rightarrow> i | None \<Rightarrow> 0)) (\<lambda>_.
     exit_table c init (p_parent me)))"

definition exit :: "(sysk, unit) comp" where
  "exit =
     andthen (gets (\<lambda>s. (cur s, initproc s))) (\<lambda>(c, init).
     andthen (check (c \<noteq> init) ''init exiting'') (\<lambda>_.
     andthen (exit_files [0..<NOFILE]) (\<lambda>_.
     exit_rest c init)))"

text \<open>The scan of \<open>wait\<close>: the first zombie child.\<close>

definition zombie_child :: "nat \<Rightarrow> proc list \<Rightarrow> nat option" where
  "zombie_child c ps = find (\<lambda>i. p_parent (ps ! i) = Some c \<and> p_state (ps ! i) = ZOMBIE) [0..<NPROC]"

definition has_child :: "nat \<Rightarrow> proc list \<Rightarrow> bool" where
  "has_child c ps \<longleftrightarrow> list_ex (\<lambda>i. p_parent (ps ! i) = Some c) [0..<NPROC]"

text \<open>The channel that the process sleeps on, if it has to wait: then its state is that of \<open>sleep\<close>.\<close>

definition sleep_on :: "chan \<Rightarrow> (sysk, unit) comp" where
  "sleep_on ch = andthen (gets cur) (\<lambda>c. upd_proc c (\<lambda>p. p\<lparr>p_chan := Some ch, p_state := SLEEPING\<rparr>))"

text \<open>After a wake-up, when the process runs again: the end of \<open>sleep\<close>.\<close>

definition sleep_end :: "(sysk, unit) comp" where
  "sleep_end = andthen (gets cur) (\<lambda>c. upd_proc c (\<lambda>p. p\<lparr>p_chan := None\<rparr>))"

text \<open>One round of \<open>wait\<close>: the result, or \<open>None\<close> if the process has gone to sleep.\<close>

definition wait_round :: "(sysk, int option) comp" where
  "wait_round =
     andthen (gets cur) (\<lambda>c.
     andthen (gets ptable) (\<lambda>ps.
     case zombie_child c ps of
       Some i \<Rightarrow>
         andthen (on_pages (kfree (p_kstack (ps ! i)))) (\<lambda>_.
         andthen (upd_proc i (\<lambda>p. p\<lparr>p_kstack := 0\<rparr>)) (\<lambda>_.
         andthen (on_pages (freevm (p_pgdir (ps ! i)))) (\<lambda>_.
         andthen (upd_proc i (\<lambda>p. p\<lparr>p_state := UNUSED, p_pid := 0, p_parent := None, p_name := (p_name p)[0 := 0], p_killed := False\<rparr>)) (\<lambda>_.
         ret (Some (p_pid (ps ! i)))))))
     | None \<Rightarrow>
         if \<not> has_child c ps \<or> p_killed (ps ! c) then ret (Some (-1))
         else andthen (sleep_on (ProcChan c)) (\<lambda>_. ret None)))"

section \<open>Scheduling\<close>

text \<open>One choice of the scheduler: the first process from entry \<open>i\<close> on that is runnable is switched to.\<close>

definition schedule_from :: "nat \<Rightarrow> (sysk, nat option) comp" where
  "schedule_from i =
     andthen (gets (\<lambda>s. find (\<lambda>j. p_state (ptable s ! j) = RUNNABLE) [i..<NPROC])) (\<lambda>r.
     case r of
       None \<Rightarrow> ret None
     | Some j \<Rightarrow>
         andthen (modify (\<lambda>s. s\<lparr>cur := j\<rparr>)) (\<lambda>_.
         andthen (proc_at j) (\<lambda>p.
         andthen (check (p_pgdir p \<noteq> 0) ''switchuvm: no pgdir'') (\<lambda>_.
         andthen (upd_proc j (\<lambda>p. p\<lparr>p_state := RUNNING\<rparr>)) (\<lambda>_.
         ret (Some j))))))"

definition yield :: "(sysk, unit) comp" where
  "yield = andthen (gets cur) (\<lambda>c. upd_proc c (\<lambda>p. p\<lparr>p_state := RUNNABLE\<rparr>))"

definition kill :: "int \<Rightarrow> (sysk, int) comp" where
  "kill pid =
     andthen (gets (\<lambda>s. find (\<lambda>i. p_pid (ptable s ! i) = pid) [0..<NPROC])) (\<lambda>r.
     case r of
       None \<Rightarrow> ret (-1)
     | Some i \<Rightarrow>
         andthen (upd_proc i (\<lambda>p. p\<lparr>p_killed := True, p_state := (if p_state p = SLEEPING then RUNNABLE else p_state p)\<rparr>)) (\<lambda>_.
         ret 0))"

section \<open>sysproc.c\<close>

definition sys_kill :: "(sysk, int) comp" where
  "sys_kill = andthen (gets (argint 0)) (\<lambda>a. case a of None \<Rightarrow> ret (-1) | Some w \<Rightarrow> kill (sint w))"

definition sys_getpid :: "(sysk, int) comp" where
  "sys_getpid = gets (\<lambda>s. p_pid (ptable s ! cur s))"

definition sys_sbrk :: "(sysk, int) comp" where
  "sys_sbrk =
     andthen (gets (argint 0)) (\<lambda>a.
     case a of
       None \<Rightarrow> ret (-1)
     | Some n \<Rightarrow>
         andthen (gets (\<lambda>s. sint (p_sz (ptable s ! cur s)))) (\<lambda>addr.
         andthen (growproc n) (\<lambda>r. ret (if r < 0 then -1 else addr))))"

text \<open>One round of \<open>sys_sleep\<close> after the clock was \<open>ticks0\<close>: \<open>None\<close> if the process sleeps on.\<close>

definition sys_sleep_round :: "32 word \<Rightarrow> 32 word \<Rightarrow> (sysk, int option) comp" where
  "sys_sleep_round n ticks0 =
     andthen (gets (\<lambda>s. (ticks s - ticks0, p_killed (ptable s ! cur s)))) (\<lambda>(d, k).
     if d < n then (if k then ret (Some (-1)) else andthen (sleep_on TicksChan) (\<lambda>_. ret None))
     else ret (Some 0))"

definition sys_uptime :: "(sysk, int) comp" where
  "sys_uptime = gets (\<lambda>s. sint (ticks s))"

end
