(* ===== verification/Xv6_Exec.thy ===== *)
theory Xv6_Exec
  imports Xv6_Proc
begin

text \<open>
  Running a program, \<open>xv6/kernel/exec.c\<close>, with \<open>loaduvm\<close> of \<open>vm.c\<close>, \<open>sys_exec\<close> of \<open>sysfile.c\<close>, \<open>userinit\<close> of \<open>proc.c\<close>, and
  the dispatcher of \<open>syscall.c\<close> over all system calls. The structures of \<open>elf.h\<close> are read from the bytes of the file.
  The local variable \<open>elf\<close> of \<open>exec\<close> is not initialised; the bytes that are on the stack are the argument \<open>junk\<close>.
\<close>

section \<open>elf.h\<close>

definition ELF_MAGIC :: "32 word" where "ELF_MAGIC = 0x464C457F"
definition ELF_PROG_LOAD :: "32 word" where "ELF_PROG_LOAD = 1"
definition MAXARG :: nat where "MAXARG = 32"

record elfhdr =
  e_magic :: "32 word"
  e_entry :: "32 word"
  e_phoff :: "32 word"
  e_phnum :: "16 word"

definition dec_elfhdr :: "byte list \<Rightarrow> elfhdr" where
  "dec_elfhdr b = \<lparr>e_magic = rd32 (peek 0 4 b), e_entry = rd32 (peek 24 4 b), e_phoff = rd32 (peek 28 4 b), e_phnum = rd16 (peek 44 2 b)\<rparr>"

record proghdr =
  ph_type :: "32 word"
  ph_offset :: "32 word"
  ph_va :: "32 word"
  ph_filesz :: "32 word"
  ph_memsz :: "32 word"

definition dec_proghdr :: "byte list \<Rightarrow> proghdr" where
  "dec_proghdr b =
     \<lparr>ph_type = rd32 (peek 0 4 b), ph_offset = rd32 (peek 4 4 b), ph_va = rd32 (peek 8 4 b),
      ph_filesz = rd32 (peek 16 4 b), ph_memsz = rd32 (peek 20 4 b)\<rparr>"

section \<open>Loading a segment\<close>

definition mem_write :: "32 word \<Rightarrow> byte list \<Rightarrow> ('z kmem_scheme, unit) comp" where
  "mem_write a bytes = modify (\<lambda>s. s\<lparr>mem := (\<lambda>x. if unat (x - a) < length bytes then bytes ! unat (x - a) else mem s x)\<rparr>)"

text \<open>
  \<open>readi\<close> copies to the page, also when it fails half way. Its \<open>int\<close> result is compared with a \<open>uint\<close>. A file has
  at most \<open>MAXFILE\<close> blocks, so \<open>readi\<close> ends the loop long before the address wraps around.
\<close>

function loaduvm_from :: "32 word \<Rightarrow> 32 word \<Rightarrow> nat \<Rightarrow> 32 word \<Rightarrow> nat \<Rightarrow> nat \<Rightarrow> (sysk, int) comp" where
  "loaduvm_from pgdir addr ip offset sz i =
     (if i < sz then
        andthen (on_pages (walkpgdir pgdir (addr + of_nat i) False)) (\<lambda>pte.
        andthen (check (pte \<noteq> 0) ''loaduvm: address should exist'') (\<lambda>_.
        andthen (on_pages (mem_load pte)) (\<lambda>e.
        let n = (if sz - i < PGSIZE then sz - i else PGSIZE)
        in andthen (readi ip (offset + of_nat i) (of_nat n)) (\<lambda>(r, bytes).
           andthen (on_pages (mem_write (PTE_ADDR e) bytes)) (\<lambda>_.
           if (of_int r :: 32 word) \<noteq> of_nat n then ret (-1)
           else loaduvm_from pgdir addr ip offset sz (i + PGSIZE))))))
      else ret 0)"
  by pat_completeness auto
termination
  by (relation "measure (\<lambda>(pgdir, addr, ip, offset, sz, i). sz - i)") (auto simp: PGSIZE_def)

declare loaduvm_from.simps [simp del]

definition loaduvm :: "32 word \<Rightarrow> 32 word \<Rightarrow> nat \<Rightarrow> 32 word \<Rightarrow> 32 word \<Rightarrow> (sysk, int) comp" where
  "loaduvm pgdir addr ip offset sz =
     andthen (check (unat addr mod PGSIZE = 0) ''loaduvm: addr must be page aligned'') (\<lambda>_.
     loaduvm_from pgdir addr ip offset (unat sz) 0)"

section \<open>exec\<close>

text \<open>The loop over the program headers, \<open>n\<close> of which are left: the size of the image, or \<open>None\<close> for \<open>goto bad\<close>.\<close>

primrec exec_load :: "nat \<Rightarrow> 32 word \<Rightarrow> nat \<Rightarrow> 32 word \<Rightarrow> 32 word \<Rightarrow> (sysk, 32 word option) comp" where
  "exec_load ip pgdir 0 off sz = ret (Some sz)"
| "exec_load ip pgdir (Suc n) off sz =
     andthen (readi ip off 32) (\<lambda>(r, bytes).
     if r \<noteq> 32 then ret None
     else
       let ph = dec_proghdr bytes
       in if ph_type ph \<noteq> ELF_PROG_LOAD then exec_load ip pgdir n (off + 32) sz
          else if ph_memsz ph < ph_filesz ph then ret None
          else
            andthen (on_pages (allocuvm pgdir sz (ph_va ph + ph_memsz ph))) (\<lambda>sz'.
            if sz' = 0 then ret None
            else
              andthen (loaduvm pgdir (ph_va ph) ip (ph_offset ph) (ph_filesz ph)) (\<lambda>l.
              if l < 0 then ret None else exec_load ip pgdir n (off + 32) sz')))"

text \<open>
  The loop over the arguments: the stack pointer and the addresses of the strings, or \<open>None\<close> for \<open>goto bad\<close>. The strings are
  given without their terminator.
\<close>

primrec exec_args :: "32 word \<Rightarrow> byte list list \<Rightarrow> 32 word \<Rightarrow> 32 word list \<Rightarrow> (sysk, (32 word \<times> 32 word list) option) comp" where
  "exec_args pgdir [] sp us = ret (Some (sp, us))"
| "exec_args pgdir (a # argv) sp us =
     (if length us \<ge> MAXARG then ret None
      else
        let sp' = (sp - of_nat (length a + 1)) AND NOT 3
        in andthen (on_pages (copyout pgdir sp' (a @ [0]))) (\<lambda>r.
           if r < 0 then ret None else exec_args pgdir argv sp' (us @ [sp'])))"

definition ustack :: "32 word \<Rightarrow> 32 word list \<Rightarrow> 32 word list" where
  "ustack sp us = [0xFFFFFFFF, of_nat (length us), sp - of_nat ((length us + 1) * 4)] @ us @ [0]"

text \<open>The file name of the program: what follows the last slash.\<close>

definition last_elem :: "byte list \<Rightarrow> byte list" where
  "last_elem path = rev (takeWhile (\<lambda>c. c \<noteq> slash) (rev path))"

definition exec_bad :: "32 word \<Rightarrow> nat option \<Rightarrow> (sysk, int) comp" where
  "exec_bad pgdir ip =
     andthen (if pgdir \<noteq> 0 then on_pages (freevm pgdir) else ret ()) (\<lambda>_.
     andthen (case ip of Some i \<Rightarrow> iunlockput i | None \<Rightarrow> ret ()) (\<lambda>_. ret (-1)))"

definition exec_commit :: "32 word \<Rightarrow> 32 word \<Rightarrow> 32 word \<Rightarrow> 32 word \<Rightarrow> byte list \<Rightarrow> (sysk, int) comp" where
  "exec_commit pgdir sz entry sp path =
     andthen (gets cur) (\<lambda>c.
     andthen (proc_at c) (\<lambda>p.
     andthen (upd_proc c (\<lambda>p. p\<lparr>p_name := safestrcpy 0 (last_elem path @ [0]) 16 (p_name p), p_pgdir := pgdir, p_sz := sz,
        p_tf := (p_tf p)\<lparr>tf_eip := entry, tf_esp := sp\<rparr>\<rparr>)) (\<lambda>_.
     andthen (check (pgdir \<noteq> 0) ''switchuvm: no pgdir'') (\<lambda>_.
     andthen (on_pages (freevm (p_pgdir p))) (\<lambda>_. ret 0)))))"

text \<open>From the stack page on: the inode has been released.\<close>

definition exec_stack :: "32 word \<Rightarrow> 32 word \<Rightarrow> 32 word \<Rightarrow> byte list \<Rightarrow> byte list list \<Rightarrow> (sysk, int) comp" where
  "exec_stack pgdir sz entry path argv =
     andthen (on_pages (allocuvm pgdir (PGROUNDUPw sz) (PGROUNDUPw sz + of_nat PGSIZE))) (\<lambda>sz.
     if sz = 0 then exec_bad pgdir None
     else
       andthen (exec_args pgdir argv sz []) (\<lambda>r.
       case r of
         None \<Rightarrow> exec_bad pgdir None
       | Some (sp, us) \<Rightarrow>
           let sp' = sp - of_nat ((3 + length us + 1) * 4)
           in andthen (on_pages (copyout pgdir sp' (concat (map le32 (ustack sp us))))) (\<lambda>r.
              if r < 0 then exec_bad pgdir None else exec_commit pgdir sz entry sp' path)))"

definition exec_image :: "32 word \<Rightarrow> nat \<Rightarrow> elfhdr \<Rightarrow> byte list \<Rightarrow> byte list list \<Rightarrow> (sysk, int) comp" where
  "exec_image data ip elf path argv =
     andthen (on_pages (setupkvm data)) (\<lambda>pgdir.
     if pgdir = 0 then exec_bad 0 (Some ip)
     else
       andthen (exec_load ip pgdir (unat (e_phnum elf)) (e_phoff elf) 0) (\<lambda>r.
       case r of
         None \<Rightarrow> exec_bad pgdir (Some ip)
       | Some sz \<Rightarrow>
           andthen (iunlockput ip) (\<lambda>_.
           exec_stack pgdir sz (e_entry elf) path argv)))"

text \<open>
  The first test compares the \<open>int\<close> of \<open>readi\<close> with \<open>sizeof(elf)\<close> as unsigned numbers, so a result of \<open>-1\<close> passes it.
\<close>

definition exec :: "32 word \<Rightarrow> byte list \<Rightarrow> byte list \<Rightarrow> byte list \<Rightarrow> byte list list \<Rightarrow> (sysk, int) comp" where
  "exec data junk nb path argv =
     andthen cwd_at (\<lambda>c.
     andthen (namei c path nb) (\<lambda>r.
     case r of
       None \<Rightarrow> ret (-1)
     | Some ip \<Rightarrow>
         andthen (ilock ip) (\<lambda>_.
         andthen (readi ip 0 52) (\<lambda>(r, bytes).
         let elf = dec_elfhdr (poke 0 bytes junk)
         in if (of_int r :: 32 word) < 52 then exec_bad 0 (Some ip)
            else if e_magic elf \<noteq> ELF_MAGIC then exec_bad 0 (Some ip)
            else exec_image data ip elf path argv))))"

text \<open>The loop of \<open>sys_exec\<close> over the pointers at \<open>uargv\<close>, of which \<open>n\<close> may still be read.\<close>

primrec exec_argv :: "sysk \<Rightarrow> 32 word \<Rightarrow> nat \<Rightarrow> byte list list option" where
  "exec_argv s a 0 = None"
| "exec_argv s a (Suc n) =
     (let sz = p_sz (ptable s ! cur s)
      in case fetchint (umem s) sz a of
           None \<Rightarrow> None
         | Some uarg \<Rightarrow>
             if uarg = 0 then Some []
             else
               case fetchstr (umem s) sz uarg of
                 None \<Rightarrow> None
               | Some len \<Rightarrow> map_option (\<lambda>rest. map (\<lambda>k. umem s (uarg + of_nat k)) [0..<len] # rest) (exec_argv s (a + 4) n))"

definition sys_exec :: "32 word \<Rightarrow> byte list \<Rightarrow> byte list \<Rightarrow> (sysk, int) comp" where
  "sys_exec data junk nb =
     andthen (gets (\<lambda>s. (argstr 0 s, argint 1 s))) (\<lambda>a.
     case a of
       (Some path, Some uargv) \<Rightarrow>
         andthen (gets (\<lambda>s. exec_argv s uargv MAXARG)) (\<lambda>r.
         case r of None \<Rightarrow> ret (-1) | Some argv \<Rightarrow> exec data junk nb path argv)
     | _ \<Rightarrow> ret (-1))"

section \<open>The first process\<close>

text \<open>A null pointer from \<open>allocproc\<close> is used without a test; here the machine stops.\<close>

definition userinit :: "32 word \<Rightarrow> byte list \<Rightarrow> byte list \<Rightarrow> (sysk, unit) comp" where
  "userinit data initcode nb =
     andthen allocproc (\<lambda>r.
     case r of
       None \<Rightarrow> panic ''null pointer''
     | Some p \<Rightarrow>
         andthen (modify (\<lambda>s. s\<lparr>initproc := p\<rparr>)) (\<lambda>_.
         andthen (on_pages (setupkvm data)) (\<lambda>d.
         andthen (upd_proc p (\<lambda>q. q\<lparr>p_pgdir := d\<rparr>)) (\<lambda>_.
         andthen (check (d \<noteq> 0) ''userinit: out of memory?'') (\<lambda>_.
         andthen (on_pages (inituvm d initcode (of_nat (length initcode)))) (\<lambda>_.
         andthen (upd_proc p (\<lambda>q. q\<lparr>p_sz := of_nat PGSIZE, p_tf := \<lparr>tf_eax = 0, tf_esp = of_nat PGSIZE, tf_eip = 0\<rparr>,
            p_name := safestrcpy 0 [105, 110, 105, 116, 99, 111, 100, 101, 0] 16 (p_name q)\<rparr>)) (\<lambda>_.
         andthen cwd_at (\<lambda>c.
         andthen (namei c [slash] nb) (\<lambda>i.
         upd_proc p (\<lambda>q. q\<lparr>p_cwd := i, p_state := RUNNABLE\<rparr>))))))))))"

section \<open>The dispatcher\<close>

text \<open>
  What the handlers take from outside the state: the address of the kernel's data, the bytes of local variables that are not
  initialised.
\<close>

record kenv =
  k_data :: "32 word"
  k_junk :: "byte list"
  k_name :: "byte list"

definition returns :: "(sysk, int) comp \<Rightarrow> (sysk, int option) comp" where
  "returns c = andthen c (\<lambda>r. ret (Some r))"

text \<open>
  The table \<open>syscalls\<close>, by the numbers of \<open>syscall.h\<close>. The result is \<open>None\<close> if the call does not return in this step:
  \<open>exit\<close>, and \<open>wait\<close> and \<open>sleep\<close> if the process goes to sleep.
\<close>

definition sys_exit :: "(sysk, int option) comp" where
  "sys_exit = andthen exit (\<lambda>_. ret None)"

definition sys_sleep :: "(sysk, int option) comp" where
  "sys_sleep =
     andthen (gets (argint 0)) (\<lambda>a.
     case a of
       None \<Rightarrow> ret (Some (-1))
     | Some n \<Rightarrow> andthen (gets ticks) (\<lambda>ticks0. sys_sleep_round n ticks0))"

definition syscalls :: "kenv \<Rightarrow> (sysk, int option) comp list" where
  "syscalls k =
     [returns (fork (k_data k)), sys_exit, wait_round, returns sys_pipe, returns sys_write, returns sys_read, returns sys_close,
      returns sys_kill, returns (sys_exec (k_data k) (k_junk k) (k_name k)), returns (sys_open (k_name k)), returns (sys_mknod (k_name k)),
      returns (sys_unlink (k_name k)), returns sys_fstat, returns (sys_link (k_name k)), returns (sys_mkdir (k_name k)),
      returns (sys_chdir (k_name k)), returns sys_dup, returns sys_getpid, returns sys_sbrk, sys_sleep, returns sys_uptime]"

definition set_eax :: "int option \<Rightarrow> (sysk, unit) comp" where
  "set_eax r =
     (case r of
        None \<Rightarrow> ret ()
      | Some v \<Rightarrow> andthen (gets cur) (\<lambda>c. upd_proc c (\<lambda>p. p\<lparr>p_tf := (p_tf p)\<lparr>tf_eax := of_int v\<rparr>\<rparr>)))"

text \<open>The table has an unused entry 0, so it has 22 entries.\<close>

definition syscall :: "kenv \<Rightarrow> (sysk, unit) comp" where
  "syscall k =
     andthen (gets (\<lambda>s. sint (tf_eax (p_tf (ptable s ! cur s))))) (\<lambda>num.
     if num > 0 \<and> num < int (length (syscalls k)) + 1 then andthen (syscalls k ! nat (num - 1)) set_eax
     else set_eax (Some (-1)))"

end
