(* ===== verification/Xv6_Frames.thy ===== *)
theory Xv6_Frames
  imports Xv6_Exec
begin

text \<open>
  What the file system and the file table leave alone: a computation is \<open>within\<close> a preorder \<open>R\<close> if every state it returns
  is \<open>R\<close>-related to the state it started in. The rules follow the structure of a computation, so one line per function
  suffices. The preorder \<open>evolves\<close> allows what interrupts and other system calls may do to the process table: no
  process changes its identity, its parent or its page table, only sleeping processes change state, to runnable, and only
  the running process changes the channel it waits on.
\<close>

named_theorems within_intro

definition within :: "('s \<Rightarrow> 's \<Rightarrow> bool) \<Rightarrow> ('s, 'a) comp \<Rightarrow> bool" where
  "within R c \<longleftrightarrow> (\<forall>s x t. c s = Ok (x, t) \<longrightarrow> R s t)"

lemma withinI: "(\<And>s x t. c s = Ok (x, t) \<Longrightarrow> R s t) \<Longrightarrow> within R c"
  by (auto simp: within_def)

lemma withinD: "within R c \<Longrightarrow> c s = Ok (x, t) \<Longrightarrow> R s t"
  by (auto simp: within_def)

section \<open>The preorder\<close>

definition proc_le :: "proc \<Rightarrow> proc \<Rightarrow> bool" where
  "proc_le p q \<longleftrightarrow> p_pid q = p_pid p \<and> p_parent q = p_parent p \<and> p_pgdir q = p_pgdir p \<and>
     (p_state p = RUNNING \<or> p_chan q = p_chan p) \<and>
     (p_state q = p_state p \<or> p_state p = SLEEPING \<and> p_state q = RUNNABLE)"

definition evolves :: "sysk \<Rightarrow> sysk \<Rightarrow> bool" where
  "evolves s t \<longleftrightarrow> list_all2 proc_le (ptable s) (ptable t) \<and> nextpid t = nextpid s \<and> spawned t = spawned s \<and> cur t = cur s \<and> initproc t = initproc s"

lemma proc_le_refl [simp]: "proc_le p p"
  by (simp add: proc_le_def)

lemma proc_le_trans: "proc_le p q \<Longrightarrow> proc_le q r \<Longrightarrow> proc_le p r"
  by (auto simp: proc_le_def)

lemma evolves_refl: "evolves s s"
  by (simp add: evolves_def list_all2_refl)

lemma evolves_trans: "evolves s t \<Longrightarrow> evolves t r \<Longrightarrow> evolves s r"
  unfolding evolves_def using list_all2_trans[of proc_le proc_le proc_le, OF proc_le_trans] by auto

lemma evolves_same: "ptable t = ptable s \<Longrightarrow> nextpid t = nextpid s \<Longrightarrow> spawned t = spawned s \<Longrightarrow> cur t = cur s \<Longrightarrow> initproc t = initproc s \<Longrightarrow> evolves s t"
  by (simp add: evolves_def list_all2_refl)

section \<open>Rules\<close>

lemma within_ret [within_intro]: "within evolves (ret x)"
  by (rule withinI) (simp add: evolves_refl)

lemma within_gets [within_intro]: "within evolves (gets f)"
  by (rule withinI) (simp add: evolves_refl)

lemma within_panic [within_intro]: "within evolves (panic m)" "within evolves (\<lambda>s. Sleep)"
  by (simp_all add: within_def)

lemma within_check [within_intro]: "within evolves (check b m)"
  by (rule withinI) (simp add: check_def evolves_refl split: if_splits)

lemma within_andthen [within_intro]:
  assumes "within evolves c" "\<And>x. within evolves (f x)"
  shows "within evolves (andthen c f)"
proof (rule withinI)
  fix s x t assume "andthen c f s = Ok (x, t)"
  then obtain y u where "c s = Ok (y, u)" "f y u = Ok (x, t)" by (auto simp: andthen_Ok_iff)
  then show "evolves s t" using assms by (blast intro: evolves_trans dest: withinD)
qed

lemma within_modify: "(\<And>s. evolves s (g s)) \<Longrightarrow> within evolves (modify g)"
  by (rule withinI) auto

lemma within_if [within_intro]: "(b \<Longrightarrow> within evolves c) \<Longrightarrow> (\<not> b \<Longrightarrow> within evolves d) \<Longrightarrow> within evolves (if b then c else d)"
  by simp

lemma within_option [within_intro]:
  "within evolves c \<Longrightarrow> (\<And>x. within evolves (f x)) \<Longrightarrow> within evolves (case r of None \<Rightarrow> c | Some x \<Rightarrow> f x)"
  by (cases r) simp_all

lemma within_prod [within_intro]: "(\<And>x y. within evolves (f x y)) \<Longrightarrow> within evolves (case r of (x, y) \<Rightarrow> f x y)"
  by (cases r) simp

lemma within_let [within_intro]: "within evolves (f x) \<Longrightarrow> within evolves (let y = x in f y)"
  by simp

section \<open>The buffer cache and the file system\<close>

lemma evolves_kern [simp]:
  "evolves s (s\<lparr>bufs := b\<rparr>)" "evolves s (s\<lparr>lru := l\<rparr>)" "evolves s (s\<lparr>idequeue := q\<rparr>)" "evolves s (s\<lparr>disk := d\<rparr>)" "evolves s (s\<lparr>icache := ic\<rparr>)"
  "evolves s (s\<lparr>ftable := ft\<rparr>)" "evolves s (s\<lparr>pipes := ps\<rparr>)" "evolves s (s\<lparr>phys := m\<rparr>)"
  by (simp_all add: evolves_same)

lemma evolves_upd_buf [simp]: "evolves s (upd_buf i f s)"
  by (simp add: upd_buf_def)

lemma evolves_idestart [simp]: "evolves s (idestart i s)"
  by (simp add: idestart_def Let_def evolves_refl)

lemma evolves_ideintr [simp]: "evolves s (ideintr s)"
  by (rule evolves_same) (simp_all add: ideintr_def Let_def upd_buf_def idestart_def split: list.split)

lemma within_ide_wait [within_intro]: "within evolves (ide_wait i :: (sysk, unit) comp)"
proof (rule withinI)
  fix s :: sysk and x t
  show "ide_wait i s = Ok (x, t) \<Longrightarrow> evolves s t"
  proof (induction i s rule: ide_wait.induct)
    case (1 i s)
    show ?case
    proof (cases "b_valid (bufs s ! i) \<and> \<not> b_dirty (bufs s ! i)")
      case True
      then show ?thesis using "1.prems" by (simp add: ide_wait.simps[of i s] evolves_refl)
    next
      case False
      then have "idequeue s \<noteq> []" "ide_wait i (ideintr s) = Ok (x, t)" using "1.prems" by (auto simp: ide_wait.simps[of i s] split: if_splits)
      with "1.IH"[OF False this(1,2)] show ?thesis using evolves_trans[OF evolves_ideintr] by blast
    qed
  qed
qed

lemma within_iderw [within_intro]: "within evolves (iderw i :: (sysk, unit) comp)"
  unfolding iderw_def by (intro within_intro within_modify) (simp_all add: evolves_refl)

lemma within_bget [within_intro]: "within evolves (bget d x :: (sysk, nat) comp)"
  by (rule withinI) (auto simp: bget_def split: option.splits if_splits)

lemma within_upd_buf [within_intro]: "within evolves (modify (upd_buf i f))"
  by (rule within_modify) simp

lemma within_bio [within_intro]:
  "within evolves (bread d x :: (sysk, nat) comp)" "within evolves (bwrite i :: (sysk, unit) comp)" "within evolves (brelse i :: (sysk, unit) comp)"
  "within evolves (bdata i :: (sysk, byte list) comp)" "within evolves (set_bdata i b :: (sysk, unit) comp)"
  unfolding bread_def bwrite_def brelse_def bdata_def set_bdata_def
  by (intro within_intro within_modify evolves_trans[OF evolves_kern(2) evolves_upd_buf])+

lemma within_inode [within_intro]:
  "within evolves (inode_at i :: (sysk, incore) comp)" "within evolves (upd_inode i f :: (sysk, unit) comp)"
  unfolding inode_at_def upd_inode_def by (intro within_intro within_modify; simp)+

lemma within_fs [within_intro]:
  "within evolves (readsb d :: (sysk, superblock) comp)" "within evolves (bzero d x :: (sysk, unit) comp)"
  "within evolves (iupdate i :: (sysk, unit) comp)" "within evolves (idup i :: (sysk, nat) comp)"
  "within evolves (ilock i :: (sysk, unit) comp)" "within evolves (iunlock i :: (sysk, unit) comp)"
  unfolding readsb_def bzero_def iupdate_def idup_def ilock_def iunlock_def by (intro within_intro)+

lemma within_bfree [within_intro]: "within evolves (bfree d x :: (sysk, unit) comp)"
  unfolding bfree_def by (intro within_intro)

lemma within_itrunc_direct [within_intro]: "within evolves (itrunc_direct i ks :: (sysk, unit) comp)"
  by (induction ks) (simp_all only: itrunc_direct.simps, (intro within_intro | assumption)+)

lemma within_itrunc_indirect [within_intro]: "within evolves (itrunc_indirect d b js :: (sysk, unit) comp)"
  by (induction js) (simp_all only: itrunc_indirect.simps, (intro within_intro | assumption)+)

lemma within_iput [within_intro]: "within evolves (itrunc i :: (sysk, unit) comp)" "within evolves (iput i :: (sysk, unit) comp)"
proof -
  show "within evolves (itrunc i :: (sysk, unit) comp)" unfolding itrunc_def by (intro within_intro)
  then show "within evolves (iput i :: (sysk, unit) comp)" unfolding iput_def by (intro within_intro)
qed

section \<open>The file table\<close>

lemma evolves_wakeup: "evolves s (s\<lparr>ptable := wakeup1 c (ptable s)\<rparr>)"
  by (auto simp: evolves_def wakeup1_def list_all2_conv_all_nth proc_le_def)

lemma within_wakeup [within_intro]: "within evolves (wakeup c)"
  unfolding wakeup_def by (intro within_modify evolves_wakeup)

lemma within_wakeups [within_intro]: "within evolves (wakeups a cs)"
  by (induction cs) (simp_all only: wakeups.simps, (intro within_intro | assumption)+)

lemma within_on_pages [within_intro]: "within evolves (on_pages c)"
  by (rule withinI) (auto simp: on_pages_def split: res.splits)

lemma within_upd_file [within_intro]: "within evolves (upd_file f g)" "within evolves (file_at f)"
  "within evolves (modify (\<lambda>s. s\<lparr>pipes := h s\<rparr>))"
  unfolding upd_file_def file_at_def by (intro within_intro within_modify; simp)+

lemma within_files [within_intro]: "within evolves (filedup f)" "within evolves (pipeclose p w)"
  unfolding filedup_def pipeclose_def by (intro within_intro)+

lemma within_fileclose [within_intro]: "within evolves (fileclose f)"
proof -
  have "within evolves (case tp of FD_PIPE \<Rightarrow> pipeclose p w | FD_INODE \<Rightarrow> iput i | FD_NONE \<Rightarrow> ret ())" for tp p w i
    by (cases tp) (auto intro: within_intro)
  then show ?thesis unfolding fileclose_def by (intro within_intro)
qed

lemma evolves_upd_proc:
  assumes "\<And>p. proc_le p (g p)"
  shows "within evolves (upd_proc i g)"
  unfolding upd_proc_def
proof (rule within_modify)
  fix s :: sysk
  show "evolves s (s\<lparr>ptable := (ptable s)[i := g (ptable s ! i)]\<rparr>)"
    using assms by (cases "i < length (ptable s)") (auto simp: evolves_def list_all2_conv_all_nth nth_list_update not_less)
qed

lemma within_set_ofile [within_intro]: "within evolves (set_ofile fd v)" "within evolves (proc_at i)"
  unfolding set_ofile_def proc_at_def by (intro within_intro evolves_upd_proc; simp add: proc_le_def)+

lemma within_exit_files [within_intro]: "within evolves (exit_files fds)"
  by (induction fds) (simp_all only: exit_files.simps, (intro within_intro | assumption)+)

lemma within_fork_files [within_intro]: "within evolves (fork_files np fds)"
proof (induction fds)
  case (Cons fd fds)
  then show ?case by (simp only: fork_files.simps, (intro within_intro evolves_upd_proc | assumption)+) (simp add: proc_le_def)
qed (simp only: fork_files.simps within_ret)

section \<open>The file system\<close>

lemma within_case2 [within_intro]:
  "(\<And>x y. within evolves (f x y)) \<Longrightarrow> within evolves c \<Longrightarrow> within evolves (case r of (Some x, Some y) \<Rightarrow> f x y | _ \<Rightarrow> c)"
  by (auto split: option.split prod.split)

lemma within_balloc_from [within_intro]: "within evolves (balloc_from d sb b :: (sysk, 32 word) comp)"
proof (induction "unat (sb_size sb) - b" arbitrary: b rule: less_induct)
  case less
  show ?case by (subst balloc_from.simps) (intro within_intro less; simp add: BPB_def BSIZE_def)
qed

lemma within_iget [within_intro]: "within evolves (iget d n :: (sysk, nat) comp)"
  by (rule withinI) (auto simp: iget_def split: option.splits)

lemma within_ialloc_from [within_intro]: "within evolves (ialloc_from d tp sb n :: (sysk, nat) comp)"
proof (induction "unat (sb_ninodes sb) - n" arbitrary: n rule: less_induct)
  case less
  show ?case by (subst ialloc_from.simps) (intro within_intro less; simp add: BPB_def)
qed

lemma within_alloc [within_intro]:
  "within evolves (balloc d :: (sysk, 32 word) comp)" "within evolves (ialloc d tp :: (sysk, nat) comp)"
  "within evolves (iunlockput i :: (sysk, unit) comp)"
  unfolding balloc_def ialloc_def iunlockput_def by (intro within_intro)+

lemma within_bmap [within_intro]: "within evolves (set_addr i k a :: (sysk, unit) comp)" "within evolves (bmap i bn :: (sysk, 32 word) comp)"
  "within evolves (stati i :: (sysk, kstat) comp)"
  unfolding set_addr_def bmap_def stati_def by (intro within_intro)+

lemma within_tags [within_intro]: "within evolves (check_block i bn :: (sysk, bool) comp)" "within evolves (tag_block i bn :: (sysk, unit) comp)"
  unfolding check_block_def tag_block_def by (intro within_intro)+

lemma within_readi_loop [within_intro]: "within evolves (readi_loop i off left dst :: (sysk, bool \<times> byte list) comp)"
proof (induction left arbitrary: off dst rule: less_induct)
  case less
  show ?case by (subst readi_loop.simps) (intro within_intro less; simp add: BSIZE_def)
qed

lemma within_writei_loop [within_intro]: "within evolves (writei_loop i off src :: (sysk, nat) comp)"
proof (induction "length src" arbitrary: off src rule: less_induct)
  case less
  show ?case by (subst writei_loop.simps) (intro within_intro less; simp add: BSIZE_def)
qed

lemma within_rw [within_intro]:
  "within evolves (readi i off n :: (sysk, int \<times> byte list) comp)" "within evolves (writei i src off n :: (sysk, int) comp)"
  unfolding readi_def writei_def by (intro within_intro)+

lemma within_dirlookup_from [within_intro]: "within evolves (dirlookup_from i name sz off :: (sysk, (nat \<times> 32 word) option) comp)"
proof (induction "sz - off" arbitrary: off rule: less_induct)
  case less
  show ?case by (subst dirlookup_from.simps) (intro within_intro less; simp add: BSIZE_def)
qed

lemma within_dirlink_slot [within_intro]: "within evolves (dirlink_slot i sz off :: (sysk, nat) comp)"
proof (induction "sz - off" arbitrary: off rule: less_induct)
  case less
  show ?case by (subst dirlink_slot.simps) (intro within_intro less; simp add: BSIZE_def)
qed

lemma within_dir [within_intro]:
  "within evolves (dirlookup i name :: (sysk, (nat \<times> 32 word) option) comp)" "within evolves (dirlink i name n :: (sysk, int) comp)"
proof -
  show "within evolves (dirlookup i name :: (sysk, (nat \<times> 32 word) option) comp)" for i name
    unfolding dirlookup_def by (intro within_intro)
  then show "within evolves (dirlink i name n :: (sysk, int) comp)" unfolding dirlink_def by (intro within_intro)
qed

lemma within_namex_from [within_intro]: "within evolves (namex_from i path par name :: (sysk, (nat \<times> byte list) option) comp)"
proof (induction "length path" arbitrary: i path name rule: less_induct)
  case less
  show ?case
  proof (cases "skipelem path name")
    case None
    then show ?thesis by (subst namex_from.simps) (simp only: option.case, intro within_intro)
  next
    case (Some r)
    then obtain path' name' where r: "skipelem path name = Some (path', name')" by (cases r) simp
    show ?thesis
      by (subst namex_from.simps) (simp only: r option.case prod.case, intro within_intro less, rule skipelem_shorter, rule r)
  qed
qed

lemma within_names [within_intro]:
  "within evolves (namex c path par name :: (sysk, (nat \<times> byte list) option) comp)"
  "within evolves (namei c path name :: (sysk, nat option) comp)"
  "within evolves (nameiparent c path name :: (sysk, (nat \<times> byte list) option) comp)"
  unfolding namei_def nameiparent_def namex_def by (intro within_intro)+

section \<open>System calls on files\<close>

lemma within_filealloc [within_intro]: "within evolves filealloc"
  by (rule withinI) (auto simp: filealloc_def evolves_refl split: option.splits)

lemma within_pipes [within_intro]: "within evolves (pipe_ends f g p)" "within evolves pipealloc" "within evolves killed"
  unfolding pipe_ends_def pipealloc_def killed_def by (intro within_intro)+

lemma within_on_pipe [within_intro]: "within evolves (on_pipe p call)"
proof -
  have "within evolves (case out of Wait _ \<Rightarrow> (\<lambda>s. Sleep) | Return n bytes \<Rightarrow>
      andthen (modify (\<lambda>s. s\<lparr>pipes := (pipes s)(p := q)\<rparr>)) (\<lambda>_. andthen (wakeups p w) (\<lambda>_. ret (n, bytes))))" for out :: "byte list outcome" and q w
    by (cases out) (simp_all only: outcome.case, (intro within_intro)+)
  then show ?thesis unfolding on_pipe_def by (intro within_intro)
qed

lemma within_ftype [within_intro]:
  "within evolves a \<Longrightarrow> within evolves b \<Longrightarrow> within evolves c \<Longrightarrow> within evolves (case tp of FD_NONE \<Rightarrow> a | FD_PIPE \<Rightarrow> b | FD_INODE \<Rightarrow> c)"
  by (cases tp) simp_all

lemma within_file_rw [within_intro]: "within evolves (filestat f)" "within evolves (fileread f n)" "within evolves (filewrite f addr n)"
  unfolding filestat_def fileread_def filewrite_def by (intro within_intro)+

lemma within_user [within_intro]: "within evolves (ustore va bytes)" "within evolves (fdalloc f)" "within evolves cwd_at"
  unfolding ustore_def fdalloc_def cwd_at_def by (intro within_intro within_modify; simp)+

lemma within_sys_files [within_intro]:
  "within evolves sys_dup" "within evolves sys_read" "within evolves sys_write" "within evolves sys_close" "within evolves (store_stat p st)"
  "within evolves (inc_nlink i k)"
  unfolding sys_dup_def sys_read_def sys_write_def sys_close_def store_stat_def inc_nlink_def by (intro within_intro)+

lemma within_isdirempty_from [within_intro]: "within evolves (isdirempty_from dp sz off)"
proof (induction "sz - off" arbitrary: off rule: less_induct)
  case less
  show ?case by (subst isdirempty_from.simps) (intro within_intro less; simp)
qed

lemma within_sys_names [within_intro]:
  "within evolves (sys_link nb)" "within evolves (isdirempty dp)" "within evolves (unlink_entry dp ip off)"
  "within evolves (create_new dp name tp major minor)"
  unfolding sys_link_def isdirempty_def unlink_entry_def create_new_def by (intro within_intro)+

lemma within_create [within_intro]: "within evolves (create nb path tp major minor)" "within evolves (sys_unlink nb)"
  unfolding create_def sys_unlink_def by (intro within_intro)+

lemma within_open_inode [within_intro]: "within evolves (open_inode nb path omode)"
  unfolding open_inode_def by (intro within_intro)

lemma within_case3 [within_intro]:
  "(\<And>x y z. within evolves (f x y z)) \<Longrightarrow> within evolves c \<Longrightarrow>
    within evolves (case r of (Some x, Some y, Some z) \<Rightarrow> f x y z | _ \<Rightarrow> c)"
  by (auto split: option.split prod.split)

lemma within_sys_more [within_intro]:
  "within evolves (sys_open nb)" "within evolves (sys_mkdir nb)" "within evolves (sys_mknod nb)" "within evolves sys_fstat" "within evolves sys_pipe"
  unfolding sys_open_def sys_mkdir_def sys_mknod_def sys_fstat_def sys_pipe_def by (intro within_intro)+

lemma within_sys_chdir [within_intro]: "within evolves (sys_chdir nb)"
  unfolding sys_chdir_def by (intro within_intro evolves_upd_proc) (simp add: proc_le_def)

lemma within_growproc [within_intro]: "within evolves (growproc n)"
  unfolding growproc_def by (intro within_intro evolves_upd_proc) (simp add: proc_le_def)

lemma within_sysproc [within_intro]: "within evolves sys_sbrk" "within evolves sys_getpid" "within evolves sys_uptime"
  unfolding sys_sbrk_def sys_getpid_def sys_uptime_def by (intro within_intro)+

section \<open>exec up to its commit\<close>

lemma within_loaduvm_from [within_intro]: "within evolves (loaduvm_from pgdir addr ip offset sz i)"
proof (induction "sz - i" arbitrary: i rule: less_induct)
  case less
  show ?case by (subst loaduvm_from.simps) (intro within_intro less; simp add: PGSIZE_def)
qed

lemma within_exec_load [within_intro]: "within evolves (loaduvm pgdir addr ip offset n)" "within evolves (exec_load ip pgdir k off sz)"
proof -
  show load: "within evolves (loaduvm pgdir addr ip offset n)" for pgdir addr ip offset n
    unfolding loaduvm_def by (intro within_intro)
  show "within evolves (exec_load ip pgdir k off sz)"
    by (induction k arbitrary: off sz) (simp_all only: exec_load.simps, (intro within_intro load | assumption)+)
qed

lemma within_exec_args [within_intro]: "within evolves (exec_args pgdir argv sp us)"
  by (induction argv arbitrary: sp us) (simp_all only: exec_args.simps, (intro within_intro | assumption)+)

lemma within_exec_bad [within_intro]: "within evolves (exec_bad pgdir ip)"
  unfolding exec_bad_def by (intro within_intro)

end
