(* ===== verification/Xv6_Args.thy ===== *)
theory Xv6_Args
  imports Xv6_Sysfile Xv6_Example
begin

text \<open>
  The arguments of system calls: what the checks of \<open>syscall.c\<close> admit, and which type of file \<open>sys_open\<close> creates. With a
  concrete machine that has one running process with two pages of user memory.
\<close>

section \<open>A machine with a process\<close>

text \<open>
  Page directory at \<open>0x200000\<close>, page table at \<open>0x201000\<close>, the user's page at \<open>0x202000\<close>; the stack pointer is \<open>0x100\<close> and the
  three words above the return address are the arguments of a system call.
\<close>

definition demo_phys :: "32 word \<Rightarrow> 32 word \<Rightarrow> 32 word \<Rightarrow> kmem" where
  "demo_phys a0 a1 a2 = \<lparr>mem = store32 0x202104 a0 (store32 0x202108 a1 (store32 0x20210c a2
     (store32 0x201000 0x202007 (store32 0x200000 0x201007 (\<lambda>a. 0))))), freelist = 0, kernel_end = 0x10a4e8\<rparr>"

definition demo_proc :: proc where
  "demo_proc = \<lparr>p_sz = 0x1000, p_pgdir = 0x200000, p_kstack = 0x203000, p_state = RUNNING, p_pid = 1, p_parent = None,
     p_tf = \<lparr>tf_eax = 0, tf_esp = 0x100, tf_eip = 0\<rparr>, p_chan = None, p_killed = False,
     p_ofile = Some 0 # replicate 15 None, p_cwd = Some 0, p_name = replicate 16 0\<rparr>"

definition unused_proc :: proc where
  "unused_proc = \<lparr>p_sz = 0, p_pgdir = 0, p_kstack = 0, p_state = UNUSED, p_pid = 0, p_parent = None,
     p_tf = \<lparr>tf_eax = 0, tf_esp = 0, tf_eip = 0\<rparr>, p_chan = None, p_killed = False,
     p_ofile = replicate 16 None, p_cwd = None, p_name = replicate 16 0\<rparr>"

definition unused_file :: kfile where
  "unused_file = \<lparr>f_type = FD_NONE, f_ref = 0, f_readable = False, f_writable = False, f_pipe = 0, f_ip = 0, f_off = 0\<rparr>"

definition demo_sys :: "32 word \<Rightarrow> 32 word \<Rightarrow> 32 word \<Rightarrow> sysk" where
  "demo_sys a0 a1 a2 = fsk.extend demo_machine (sysk.fields (demo_phys a0 a1 a2)
     (\<lambda>a. \<lparr>p_data = replicate 512 0, nread = 0, nwrite = 0, readopen = False, writeopen = False\<rparr>)
     (unused_file\<lparr>f_type := FD_INODE, f_ref := 1, f_readable := True\<rparr> # replicate 99 unused_file)
     (demo_proc # replicate 63 unused_proc) 2 1 0 0 0)"

lemma demo_sys_simps [simp]:
  "ptable (demo_sys a0 a1 a2) = demo_proc # replicate 63 unused_proc" "cur (demo_sys a0 a1 a2) = 0" "nextpid (demo_sys a0 a1 a2) = 2" "spawned (demo_sys a0 a1 a2) = 1"
  "phys (demo_sys a0 a1 a2) = demo_phys a0 a1 a2" "initproc (demo_sys a0 a1 a2) = 0"
  "ftable (demo_sys a0 a1 a2) = unused_file\<lparr>f_type := FD_INODE, f_ref := 1, f_readable := True\<rparr> # replicate 99 unused_file"
  by (simp_all add: demo_sys_def fsk.extend_def sysk.fields_def)

lemma demo_mem_loads:
  "load32 (mem (demo_phys a0 a1 a2)) 0x200000 = 0x201007" "load32 (mem (demo_phys a0 a1 a2)) 0x201000 = 0x202007"
  "load32 (mem (demo_phys a0 a1 a2)) 0x202104 = a0" "load32 (mem (demo_phys a0 a1 a2)) 0x202108 = a1"
  "load32 (mem (demo_phys a0 a1 a2)) 0x20210c = a2"
  unfolding demo_phys_def kmem.simps
  by (simp_all add: load_store load_store_far)

lemma low_page: "va < 0x1000 \<Longrightarrow> PDX va = 0 \<and> PTX va = 0 \<and> va AND 0xFFF = va"
proof -
  assume "va < 0x1000"
  then have va: "unat va < 2 ^ 12" by (simp add: word_less_nat_alt)
  have "drop_bit 22 va = 0" "drop_bit 12 va = 0"
    using va by (simp_all add: word_unat_eq_iff unat_drop_bit_eq drop_bit_eq_div unat_div)
  moreover have "va AND mask 12 = va" using va by (intro less_mask_eq) (simp add: word_less_nat_alt)
  moreover have "(mask 12 :: 32 word) = 0xFFF" by (simp add: mask_eq_exp_minus_1)
  ultimately show ?thesis by (simp add: PDX_def PTX_def)
qed

lemma demo_mmu: "va < 0x1000 \<Longrightarrow> mmu (mem (demo_phys a0 a1 a2)) 0x200000 va = Some (0x202000 + va)"
  using low_page[of va] by (simp add: mmu_def demo_mem_loads PTE_P_def PTE_ADDR_def)

lemma demo_umem: "va < 0x1000 \<Longrightarrow> umem (demo_sys a0 a1 a2) va = mem (demo_phys a0 a1 a2) (0x202000 + va)"
  by (simp add: umem_def demo_proc_def demo_mmu)

lemma demo_args: "argint 0 (demo_sys a0 a1 a2) = Some a0" "argint 1 (demo_sys a0 a1 a2) = Some a1" "argint 2 (demo_sys a0 a1 a2) = Some a2"
proof -
  have ld: "load32 (umem (demo_sys a0 a1 a2)) va = load32 (mem (demo_phys a0 a1 a2)) (0x202000 + va)" if "va \<in> {0x104, 0x108, 0x10c}" for va :: "32 word"
    using that by (auto simp: load32_def demo_umem)
  show "argint 0 (demo_sys a0 a1 a2) = Some a0" "argint 1 (demo_sys a0 a1 a2) = Some a1" "argint 2 (demo_sys a0 a1 a2) = Some a2"
    using ld[of "0x104"] ld[of "0x108"] ld[of "0x10c"] by (simp_all add: argint_def fetchint_def Let_def demo_proc_def demo_mem_loads)
qed

section \<open>Properties\<close>

lemma usertop: "sz \<le> USERTOP \<Longrightarrow> unat sz \<le> 0xA0000"
  by (simp add: USERTOP_def word_le_nat_alt)

lemma unat_plus_small:
  assumes "unat (a :: 32 word) < 0x80000000" "unat b < 0x80000000"
  shows "unat (a + b) = unat a + unat b"
  using assms by (subst unat_add_lem[THEN iffD1]) simp_all

text \<open>
  C30. The checks keep the kernel inside the process's memory: for a process of at most \<open>USERTOP\<close> bytes, \<open>fetchint\<close> reads a word just if
  its four bytes are inside, and \<open>argptr\<close> accepts a pointer with a length that is not negative just if the whole block is inside;
  no sum wraps around.
\<close>

theorem argument_checks:
  assumes "sz \<le> USERTOP" "sz = p_sz (ptable s ! cur s)" "unat len < 0x80000000"
  shows "fetchint m sz addr = (if unat addr + 4 \<le> unat sz then Some (load32 m addr) else None) \<and>
    argptr n len s = (case argint n s of None \<Rightarrow> None
      | Some p \<Rightarrow> if unat p < unat sz \<and> unat p + unat len \<le> unat sz then Some p else None)"
proof -
  note sz = usertop[OF assms(1)]
  have add: "unat (a + b) = unat a + unat b" if "unat a < unat sz" "unat b < 0x80000000" for a b :: "32 word"
    using that sz by (intro unat_plus_small) simp_all
  have "addr \<ge> sz \<or> addr + 4 > sz \<longleftrightarrow> \<not> unat addr + 4 \<le> unat sz"
    using add[of addr 4] by (cases "unat addr < unat sz") (auto simp: word_le_nat_alt word_less_nat_alt)
  moreover have "p \<ge> sz \<or> p + len > sz \<longleftrightarrow> \<not> (unat p < unat sz \<and> unat p + unat len \<le> unat sz)" for p
    using add[of p len] assms(3) by (cases "unat p < unat sz") (auto simp: word_le_nat_alt word_less_nat_alt)
  ultimately show ?thesis
    by (simp add: fetchint_def argptr_def Let_def assms(2)[symmetric] split: option.split)
qed

theorem argument_checks_witness: "argptr 0 0x10 (demo_sys 0xff0 0 0) = Some 0xff0 \<and> argptr 0 0x11 (demo_sys 0xff0 0 0) = None"
proof -
  have sz: "(0x1000 :: 32 word) \<le> USERTOP" "0x1000 = p_sz (ptable (demo_sys 0xff0 0 0) ! cur (demo_sys 0xff0 0 0))"
    by (simp_all add: USERTOP_def demo_proc_def)
  show ?thesis
    using argument_checks[OF sz, of "0x10" "\<lambda>_. 0" 0 0] argument_checks[OF sz, of "0x11" "\<lambda>_. 0" 0 0] by (simp add: demo_args)
qed

text \<open>
  A negative length passes the check of \<open>argptr\<close>: a pointer inside the process with a length \<open>-k\<close>, for \<open>k\<close> up to the pointer, is
  accepted, so \<open>sys_read\<close> and \<open>sys_write\<close> hand the negative count on.
\<close>

theorem argptr_negative_length:
  assumes "argint n s = Some p" "p < p_sz (ptable s ! cur s)" "k \<le> unat p"
  shows "argptr n (- of_nat k) s = Some p"
proof -
  have "unat p < 2 ^ 32" using unsigned_less[of p] by simp
  then have "unat (of_nat k :: 32 word) = k"
    using assms(3) by (simp add: unat_of_nat take_bit_nat_eq_self)
  then have "unat (p + - of_nat k) \<le> unat p" using assms(3) by (simp add: unat_sub word_le_nat_alt)
  then have "\<not> p + - of_nat k > p_sz (ptable s ! cur s)" using assms(2) by (simp add: word_less_nat_alt)
  then show ?thesis using assms(1,2) by (simp add: argptr_def Let_def not_le)
qed

theorem argptr_negative_length_witness: "argptr 0 (- of_nat 5) (demo_sys 0xff0 0 0) = Some 0xff0"
  by (rule argptr_negative_length) (simp_all add: demo_args demo_proc_def)

text \<open>
  \<open>sys_open\<close> with \<open>O_CREATE\<close> and \<open>O_CHECKED\<close> creates an ordinary file: the test for \<open>O_CREATE\<close> comes first, and the test
  for both is \<open>omode & O_CREATE & O_CHECKED\<close>, which is 0 for every mode, so no call creates a file with checksums.
\<close>

theorem open_ignores_checked:
  "open_inode nb path (O_CREATE OR O_CHECKED OR mode) = create nb path T_FILE 0 0 \<and> any AND O_CREATE AND O_CHECKED = 0"
proof -
  have "any AND O_CREATE AND O_CHECKED = 0"
    by (rule bit_word_eqI) (auto simp: bit_simps O_CREATE_def O_CHECKED_def bit_numeral_rec)
  moreover have "(O_CREATE OR O_CHECKED OR mode) AND O_CREATE \<noteq> 0"
  proof
    assume "(O_CREATE OR O_CHECKED OR mode) AND O_CREATE = 0"
    then have "\<not> bit ((O_CREATE OR O_CHECKED OR mode) AND O_CREATE) 9" by simp
    moreover have "bit O_CREATE 9" by (simp add: O_CREATE_def)
    ultimately show False by (simp add: bit_simps)
  qed
  ultimately show ?thesis by (simp add: open_inode_def)
qed

end
