(* ===== verification/Xv6_Run.thy ===== *)
theory Xv6_Run
  imports Xv6_Frames Xv6_Args
begin

text \<open>
  The process table as a state machine on one processor: the running process makes a system call, gives the processor up or goes to
  sleep; an interrupt wakes processes; when no process runs the scheduler picks one. The invariant of the table holds in
  every state that is reached.
\<close>

section \<open>The invariant\<close>

definition slot_used :: "proc \<Rightarrow> bool" where
  "slot_used p \<longleftrightarrow> p_state p \<noteq> UNUSED"

definition schedulable :: "proc \<Rightarrow> bool" where
  "schedulable p \<longleftrightarrow> p_state p = RUNNABLE \<or> p_state p = RUNNING \<or> p_state p = SLEEPING"

text \<open>As long as the counter of identifiers has not wrapped around, identifiers are positive, below the counter, and distinct.\<close>

definition few_pids :: "sysk \<Rightarrow> bool" where
  "few_pids s \<longleftrightarrow> spawned s < 2 ^ 31 - 1"

definition counter_ok :: "sysk \<Rightarrow> bool" where
  "counter_ok s \<longleftrightarrow> nextpid s = int (spawned s) + 1"

definition pids_ok :: "sysk \<Rightarrow> bool" where
  "pids_ok s \<longleftrightarrow> (\<forall>i < NPROC. slot_used (ptable s ! i) \<longrightarrow> 0 < p_pid (ptable s ! i) \<and> p_pid (ptable s ! i) < nextpid s) \<and>
     (\<forall>i < NPROC. \<forall>j < NPROC. slot_used (ptable s ! i) \<longrightarrow> slot_used (ptable s ! j) \<longrightarrow> p_pid (ptable s ! i) = p_pid (ptable s ! j) \<longrightarrow> i = j)"

definition states_ok :: "sysk \<Rightarrow> bool" where
  "states_ok s \<longleftrightarrow> (\<forall>i < NPROC. p_state (ptable s ! i) = RUNNING \<longrightarrow> i = cur s) \<and>
     (\<forall>i < NPROC. schedulable (ptable s ! i) \<longrightarrow> p_pgdir (ptable s ! i) \<noteq> 0)"

definition proc_inv :: "sysk \<Rightarrow> bool" where
  "proc_inv s \<longleftrightarrow> length (ptable s) = NPROC \<and> cur s < NPROC \<and> initproc s < NPROC \<and> (few_pids s \<longrightarrow> counter_ok s \<and> pids_ok s) \<and> states_ok s"

definition running :: "sysk \<Rightarrow> bool" where
  "running s \<longleftrightarrow> p_state (ptable s ! cur s) = RUNNING"

lemma proc_le_cases:
  assumes "proc_le p q"
  shows "slot_used q = slot_used p" "p_pid q = p_pid p" "p_state q = RUNNING \<longleftrightarrow> p_state p = RUNNING" "schedulable q \<Longrightarrow> schedulable p" "p_pgdir q = p_pgdir p"
    "p_parent q = p_parent p" "p_state p \<noteq> SLEEPING \<Longrightarrow> p_state q = p_state p"
    "p_state q = SLEEPING \<Longrightarrow> p_state p = SLEEPING \<and> p_chan q = p_chan p"
  using assms by (auto simp: proc_le_def slot_used_def schedulable_def)

lemma evolvesD:
  assumes "evolves s t"
  shows "length (ptable t) = length (ptable s)" "nextpid t = nextpid s" "cur t = cur s" "initproc t = initproc s"
    "\<And>i. i < length (ptable s) \<Longrightarrow> proc_le (ptable s ! i) (ptable t ! i)" "spawned t = spawned s"
  using assms by (auto simp: evolves_def list_all2_conv_all_nth)

lemma evolves_inv:
  assumes "evolves s t" "proc_inv s"
  shows "proc_inv t"
proof -
  note e = evolvesD[OF assms(1)]
  have len: "length (ptable s) = NPROC" using assms(2) by (simp add: proc_inv_def)
  have le: "proc_le (ptable s ! i) (ptable t ! i)" if "i < NPROC" for i using e(5) len that by simp
  have same: "slot_used (ptable t ! i) = slot_used (ptable s ! i)" "p_pid (ptable t ! i) = p_pid (ptable s ! i)" if "i < NPROC" for i
    using proc_le_cases(1,2)[OF le[OF that]] by simp_all
  have "pids_ok t" if "few_pids t"
    unfolding pids_ok_def e(2)
  proof (intro conjI allI impI)
    have few: "pids_ok s" using that assms(2) e(6) by (simp add: few_pids_def proc_inv_def)
    fix i assume i: "i < NPROC" "slot_used (ptable t ! i)"
    then show "0 < p_pid (ptable t ! i)" "p_pid (ptable t ! i) < nextpid s"
      using few same[OF i(1)] by (simp_all add: pids_ok_def)
    fix i j assume "i < NPROC" "j < NPROC" "slot_used (ptable t ! i)" "slot_used (ptable t ! j)" "p_pid (ptable t ! i) = p_pid (ptable t ! j)"
    then show "i = j" using few same[of i] same[of j] by (simp add: pids_ok_def)
  qed
  moreover have "states_ok t"
    unfolding states_ok_def e(3)
  proof (intro conjI allI impI)
    fix i assume i: "i < NPROC" "p_state (ptable t ! i) = RUNNING"
    then show "i = cur s" using assms(2) proc_le_cases(3)[OF le[OF i(1)]] by (simp add: proc_inv_def states_ok_def)
  next
    fix i assume i: "i < NPROC" "schedulable (ptable t ! i)"
    then show "p_pgdir (ptable t ! i) \<noteq> 0"
      using assms(2) proc_le_cases(4,5)[OF le[OF i(1)]] by (simp add: proc_inv_def states_ok_def)
  qed
  moreover have "few_pids t = few_pids s" "counter_ok t = counter_ok s" using e(2,6) by (simp_all add: few_pids_def counter_ok_def)
  ultimately show ?thesis using assms(2) e len by (simp add: proc_inv_def)
qed

lemma within_inv: "within evolves c \<Longrightarrow> c s = Ok (x, t) \<Longrightarrow> proc_inv s \<Longrightarrow> proc_inv t"
  by (rule evolves_inv, rule withinD)

text \<open>Changing one entry.\<close>

definition set_proc :: "nat \<Rightarrow> proc \<Rightarrow> sysk \<Rightarrow> sysk" where
  "set_proc i q s = s\<lparr>ptable := (ptable s)[i := q]\<rparr>"

lemma upd_proc_Ok [simp]: "upd_proc i g s = Ok ((), set_proc i (g (ptable s ! i)) s)"
  by (simp add: upd_proc_def set_proc_def)

lemma counter_ptable [simp]: "few_pids (s\<lparr>ptable := ps\<rparr>) = few_pids s" "counter_ok (s\<lparr>ptable := ps\<rparr>) = counter_ok s"
  by (simp_all add: few_pids_def counter_ok_def)

lemma set_proc_simps [simp]:
  "cur (set_proc i q s) = cur s" "nextpid (set_proc i q s) = nextpid s" "spawned (set_proc i q s) = spawned s" "few_pids (set_proc i q s) = few_pids s" "counter_ok (set_proc i q s) = counter_ok s" "initproc (set_proc i q s) = initproc s"
  "length (ptable (set_proc i q s)) = length (ptable s)" "ptable (set_proc i q s) = (ptable s)[i := q]"
  by (simp_all add: set_proc_def few_pids_def counter_ok_def)

lemma set_proc_inv:
  assumes "proc_inv s" "i < NPROC"
    and "few_pids s \<Longrightarrow> slot_used q \<Longrightarrow> 0 < p_pid q \<and> p_pid q < nextpid s"
    and "\<And>j. few_pids s \<Longrightarrow> j < NPROC \<Longrightarrow> j \<noteq> i \<Longrightarrow> slot_used q \<Longrightarrow> slot_used (ptable s ! j) \<Longrightarrow> p_pid (ptable s ! j) \<noteq> p_pid q"
    and "p_state q = RUNNING \<Longrightarrow> i = cur s" "schedulable q \<Longrightarrow> p_pgdir q \<noteq> 0"
  shows "proc_inv (set_proc i q s)"
proof -
  have len: "length (ptable s) = NPROC" using assms(1) by (simp add: proc_inv_def)
  have at: "(ptable s)[i := q] ! j = (if j = i then q else ptable s ! j)" if "j < NPROC" for j
    using that assms(2) len by (simp add: nth_list_update)
  have "pids_ok (set_proc i q s)" if few: "few_pids s"
    unfolding pids_ok_def set_proc_simps
  proof (intro conjI allI impI)
    have ok: "pids_ok s" using few assms(1) by (simp add: proc_inv_def)
    fix j assume j: "j < NPROC" "slot_used ((ptable s)[i := q] ! j)"
    show "0 < p_pid ((ptable s)[i := q] ! j)" "p_pid ((ptable s)[i := q] ! j) < nextpid s"
      using j at[OF j(1)] ok assms(3)[OF few] by (auto simp: pids_ok_def split: if_splits)
    fix j k assume "j < NPROC" "k < NPROC" "slot_used ((ptable s)[i := q] ! j)" "slot_used ((ptable s)[i := q] ! k)"
      "p_pid ((ptable s)[i := q] ! j) = p_pid ((ptable s)[i := q] ! k)"
    then show "j = k"
      using at[of j] at[of k] assms(4)[OF few, of j] assms(4)[OF few, of k] ok[unfolded pids_ok_def]
      by (cases "j = i"; cases "k = i") auto
  qed
  moreover have "states_ok (set_proc i q s)"
    unfolding states_ok_def set_proc_simps
  proof (intro conjI allI impI)
    fix j assume j: "j < NPROC" "p_state ((ptable s)[i := q] ! j) = RUNNING"
    show "j = cur s"
    proof (cases "j = i")
      case True
      then show ?thesis using j(2) at[OF j(1)] assms(5) by simp
    next
      case False
      then show ?thesis using j at[OF j(1)] assms(1) by (simp add: proc_inv_def states_ok_def)
    qed
  next
    fix j assume j: "j < NPROC" "schedulable ((ptable s)[i := q] ! j)"
    show "p_pgdir ((ptable s)[i := q] ! j) \<noteq> 0"
    proof (cases "j = i")
      case True
      then show ?thesis using j(2) at[OF j(1)] assms(6) by simp
    next
      case False
      then show ?thesis using j at[OF j(1)] assms(1) by (simp add: proc_inv_def states_ok_def)
    qed
  qed
  ultimately show ?thesis using assms(1) by (simp add: proc_inv_def)
qed

lemma used_pid: "few_pids s \<Longrightarrow> proc_inv s \<Longrightarrow> i < NPROC \<Longrightarrow> slot_used (ptable s ! i) \<Longrightarrow> 0 < p_pid (ptable s ! i) \<and> p_pid (ptable s ! i) < nextpid s"
  by (simp add: proc_inv_def pids_ok_def)

lemma other_pid:
  "few_pids s \<Longrightarrow> proc_inv s \<Longrightarrow> i < NPROC \<Longrightarrow> j < NPROC \<Longrightarrow> slot_used (ptable s ! i) \<Longrightarrow> slot_used (ptable s ! j) \<Longrightarrow> j \<noteq> i \<Longrightarrow>
    p_pid (ptable s ! j) \<noteq> p_pid (ptable s ! i)"
  by (auto simp: proc_inv_def pids_ok_def)

text \<open>An entry that keeps its number and is used only if it was.\<close>

lemma set_proc_same:
  assumes "proc_inv s" "i < NPROC" "p_pid q = p_pid (ptable s ! i)" "slot_used q \<Longrightarrow> slot_used (ptable s ! i)"
    "p_state q = RUNNING \<Longrightarrow> i = cur s" "schedulable q \<Longrightarrow> p_pgdir q \<noteq> 0"
  shows "proc_inv (set_proc i q s)"
  by (rule set_proc_inv[OF assms(1,2)])
    (use assms used_pid[OF _ assms(1,2)] other_pid[OF _ assms(1,2)] in auto)

lemma not_used: "\<not> slot_used q \<Longrightarrow> proc_inv s \<Longrightarrow> i < NPROC \<Longrightarrow> proc_inv (set_proc i q s)"
  by (rule set_proc_inv) (auto simp: slot_used_def schedulable_def)

section \<open>Each step keeps the invariant\<close>

lemma find_upt: "find P [a..<n] = Some i \<Longrightarrow> a \<le> i \<and> i < n \<and> P i"
  using find_SomeD[of P "[a..<n]" i] by auto

lemma inv_bounds: "proc_inv s \<Longrightarrow> cur s < NPROC \<and> initproc s < NPROC \<and> length (ptable s) = NPROC"
  by (simp add: proc_inv_def)

lemma running_pgdir: "proc_inv s \<Longrightarrow> i < NPROC \<Longrightarrow> schedulable (ptable s ! i) \<Longrightarrow> p_pgdir (ptable s ! i) \<noteq> 0"
  by (simp add: proc_inv_def states_ok_def)

lemma running_facts: "running s \<Longrightarrow> slot_used (ptable s ! cur s) \<and> schedulable (ptable s ! cur s)"
  by (simp add: running_def slot_used_def schedulable_def)

lemma yield_inv: "proc_inv s \<Longrightarrow> running s \<Longrightarrow> yield s = Ok (x, t) \<Longrightarrow> proc_inv t"
  using running_facts[of s] running_pgdir[of s "cur s"] inv_bounds[of s]
  by (auto simp: yield_def intro!: set_proc_same)

lemma sleep_on_inv: "proc_inv s \<Longrightarrow> running s \<Longrightarrow> sleep_on ch s = Ok (x, t) \<Longrightarrow> proc_inv t"
  using running_facts[of s] running_pgdir[of s "cur s"] inv_bounds[of s]
  by (auto simp: sleep_on_def intro!: set_proc_same)

lemma sleep_end_evolves:
  assumes "proc_inv s" "running s" "sleep_end s = Ok (x, t)"
  shows "evolves s t"
proof -
  have "t = set_proc (cur s) ((ptable s ! cur s)\<lparr>p_chan := None\<rparr>) s" using assms(3) by (simp add: sleep_end_def)
  then show ?thesis
    using assms(2) inv_bounds[OF assms(1)]
    by (auto simp: evolves_def list_all2_conv_all_nth nth_list_update running_def proc_le_def)
qed

lemma kill_inv:
  assumes "proc_inv s" "kill pid s = Ok (x, t)"
  shows "proc_inv t"
proof (cases "find (\<lambda>i. p_pid (ptable s ! i) = pid) [0..<NPROC]")
  case None
  then show ?thesis using assms by (simp add: kill_def)
next
  case (Some i)
  then have i: "i < NPROC" using find_upt by blast
  let ?p = "ptable s ! i"
  let ?q = "?p\<lparr>p_killed := True, p_state := (if p_state ?p = SLEEPING then RUNNABLE else p_state ?p)\<rparr>"
  have t: "t = set_proc i ?q s" using assms(2) Some by (simp add: kill_def andthen_Ok)
  have "slot_used ?q = slot_used ?p" "schedulable ?q = schedulable ?p" "p_state ?q = RUNNING \<longleftrightarrow> p_state ?p = RUNNING"
    by (auto simp: slot_used_def schedulable_def)
  then show ?thesis
    unfolding t using assms(1) i running_pgdir[OF assms(1) i]
    by (intro set_proc_same) (auto simp: proc_inv_def states_ok_def)
qed

lemma set_cur_inv: "proc_inv s \<Longrightarrow> \<not> running s \<Longrightarrow> j < NPROC \<Longrightarrow> proc_inv (s\<lparr>cur := j\<rparr>)"
  by (auto simp: proc_inv_def few_pids_def counter_ok_def pids_ok_def states_ok_def running_def)

lemma schedule_inv:
  assumes "proc_inv s" "\<not> running s"
  shows "schedule_from i s \<noteq> Panic m" "schedule_from i s = Ok (x, t) \<Longrightarrow> proc_inv t"
proof -
  have "schedule_from i s = Ok (None, s) \<or> (\<exists>j q. schedule_from i s = Ok (Some j, set_proc j q (s\<lparr>cur := j\<rparr>)) \<and> proc_inv (set_proc j q (s\<lparr>cur := j\<rparr>)))"
  proof (cases "find (\<lambda>j. p_state (ptable s ! j) = RUNNABLE) [i..<NPROC]")
    case None
    then show ?thesis by (simp add: schedule_from_def)
  next
    case (Some j)
    then have j: "j < NPROC" "p_state (ptable s ! j) = RUNNABLE" using find_upt by blast+
    let ?q = "(ptable s ! j)\<lparr>p_state := RUNNING\<rparr>"
    have pg: "p_pgdir (ptable s ! j) \<noteq> 0" using running_pgdir[OF assms(1) j(1)] j(2) by (simp add: schedulable_def)
    have "schedule_from i s = Ok (Some j, set_proc j ?q (s\<lparr>cur := j\<rparr>))"
      using Some pg by (simp add: schedule_from_def proc_at_def andthen_Ok)
    moreover have "proc_inv (set_proc j ?q (s\<lparr>cur := j\<rparr>))"
      using set_cur_inv[OF assms j(1)] j pg by (intro set_proc_same) (auto simp: slot_used_def)
    ultimately show ?thesis by blast
  qed
  then show "schedule_from i s \<noteq> Panic m" "schedule_from i s = Ok (x, t) \<Longrightarrow> proc_inv t"
    using assms(1) by auto
qed

lemma on_pages_Ok: "on_pages c s = Ok (x, t) \<Longrightarrow> \<exists>m. t = s\<lparr>phys := m\<rparr>"
  by (auto simp: on_pages_def split: res.splits)

lemma phys_inv [simp]: "proc_inv (s\<lparr>phys := m\<rparr>) = proc_inv s"
  by (simp add: proc_inv_def few_pids_def counter_ok_def pids_ok_def states_ok_def)

lemma nextpid_inv:
  assumes "proc_inv s" "i < NPROC" "\<not> slot_used (ptable s ! i)" "p_state q = EMBRYO" "p_pid q = nextpid s"
  defines "s' \<equiv> s\<lparr>nextpid := signed_take_bit 31 (nextpid s + 1), spawned := Suc (spawned s)\<rparr>"
  shows "proc_inv (set_proc i q s')"
proof (rule set_proc_inv)
  have few: "few_pids s" "pids_ok s" "nextpid s = int (spawned s) + 1" "nextpid s' = nextpid s + 1" if "few_pids s'"
  proof -
    show f: "few_pids s" using that by (simp add: few_pids_def s'_def)
    then show "pids_ok s" and n: "nextpid s = int (spawned s) + 1" using assms(1) by (simp_all add: proc_inv_def counter_ok_def)
    then have "signed_take_bit 31 (nextpid s + 1) = nextpid s + 1"
      using that by (intro signed_take_bit_int_eq_self) (simp_all add: few_pids_def s'_def)
    then show "nextpid s' = nextpid s + 1" by (simp add: s'_def)
  qed
  have tab: "ptable s' = ptable s" "spawned s' = Suc (spawned s)" by (simp_all add: s'_def)
  have "counter_ok s' \<and> pids_ok s'" if "few_pids s'"
    using few(2,3)[OF that] unfolding counter_ok_def pids_ok_def few(4)[OF that] tab by fastforce
  then show "proc_inv s'" using assms(1) unfolding proc_inv_def by (simp add: states_ok_def) (simp add: s'_def)
  show "p_pid (ptable s' ! j) \<noteq> p_pid q" if "few_pids s'" "j < NPROC" "slot_used (ptable s' ! j)" for j
    using used_pid[OF few(1)[OF that(1)] assms(1) that(2)] that(3) assms(5) by (simp add: tab)
  show "0 < p_pid q \<and> p_pid q < nextpid s'" if "few_pids s'"
    using few(3,4)[OF that] assms(5) by simp
qed (use assms in \<open>auto simp: schedulable_def\<close>)

text \<open>A new entry: \<open>EMBRYO\<close> and not the running process.\<close>

definition embryo :: "nat \<Rightarrow> sysk \<Rightarrow> bool" where
  "embryo np s \<longleftrightarrow> proc_inv s \<and> np < NPROC \<and> p_state (ptable s ! np) = EMBRYO"

lemma embryo_evolves: "evolves s t \<Longrightarrow> embryo np s \<Longrightarrow> embryo np t"
  using evolvesD[of s t] proc_le_cases(7)[of "ptable s ! np" "ptable t ! np"] evolves_inv[of s t] inv_bounds[of s]
  by (auto simp: embryo_def)

lemma embryo_within: "within evolves c \<Longrightarrow> c s = Ok (x, t) \<Longrightarrow> embryo np s \<Longrightarrow> embryo np t"
  by (rule embryo_evolves, rule withinD)

lemma embryo_set:
  assumes "embryo np s" "p_state q = EMBRYO" "p_pid q = p_pid (ptable s ! np)"
  shows "embryo np (set_proc np q s)"
proof -
  have s: "proc_inv s" "np < NPROC" "slot_used (ptable s ! np)" using assms(1) by (auto simp: embryo_def slot_used_def)
  have "proc_inv (set_proc np q s)" by (rule set_proc_same[OF s(1,2) assms(3)]) (use s(3) assms(2) in \<open>auto simp: schedulable_def\<close>)
  then show ?thesis using s assms(2) inv_bounds[OF s(1)] by (simp add: embryo_def)
qed

lemma allocproc_cases:
  assumes "proc_inv s" "allocproc s = Ok (r, t)"
  shows "proc_inv t \<and> (\<forall>np. r = Some np \<longrightarrow> embryo np t \<and> p_state (ptable s ! np) = UNUSED)"
proof (cases "find (\<lambda>i. p_state (ptable s ! i) = UNUSED) [0..<NPROC]")
  case None
  then show ?thesis using assms by (simp add: allocproc_def)
next
  case (Some i)
  then have i: "i < NPROC" "p_state (ptable s ! i) = UNUSED" using find_upt by blast+
  let ?q = "(ptable s ! i)\<lparr>p_state := EMBRYO, p_pid := nextpid s\<rparr>"
  define s1 where "s1 = (set_proc i ?q s)\<lparr>nextpid := signed_take_bit 31 (nextpid s + 1), spawned := Suc (spawned s)\<rparr>"
  have s1: "s1 = set_proc i ?q (s\<lparr>nextpid := signed_take_bit 31 (nextpid s + 1), spawned := Suc (spawned s)\<rparr>)" by (simp add: s1_def set_proc_def)
  have emb: "embryo i s1"
    using nextpid_inv[OF assms(1) i(1), of ?q] i inv_bounds[OF assms(1)] unfolding s1 by (simp add: embryo_def slot_used_def)
  have eq: "allocproc s = andthen (on_pages kalloc) (\<lambda>k. andthen (upd_proc i (\<lambda>p. p\<lparr>p_kstack := k\<rparr>)) (\<lambda>_.
      if k = 0 then andthen (upd_proc i (\<lambda>p. p\<lparr>p_state := UNUSED\<rparr>)) (\<lambda>_. ret None) else ret (Some i))) s1"
    using Some by (simp add: allocproc_def andthen_Ok s1_def)
  obtain k s2 where k: "on_pages kalloc s1 = Ok (k, s2)"
    "andthen (upd_proc i (\<lambda>p. p\<lparr>p_kstack := k\<rparr>)) (\<lambda>_.
      if k = 0 then andthen (upd_proc i (\<lambda>p. p\<lparr>p_state := UNUSED\<rparr>)) (\<lambda>_. ret None) else ret (Some i)) s2 = Ok (r, t)"
    using assms(2)[unfolded eq] by (rule andthenE)
  have emb2: "embryo i s2" using embryo_within[OF within_on_pages k(1) emb] .
  define u where "u = set_proc i ((ptable s2 ! i)\<lparr>p_kstack := k\<rparr>) s2"
  have u: "embryo i u" unfolding u_def using emb2 by (intro embryo_set) (simp_all add: embryo_def)
  have "proc_inv (set_proc i ((ptable u ! i)\<lparr>p_state := UNUSED\<rparr>) u)" using u i(1) by (intro not_used) (auto simp: embryo_def slot_used_def)
  with k(2) u i(2) show ?thesis by (auto simp: andthen_Ok u_def[symmetric] embryo_def split: if_splits)
qed

lemma embryo_pgdir:
  assumes "within evolves c" "c s = Ok (x, t)" "embryo np s"
  shows "embryo np t" "p_pgdir (ptable t ! np) = p_pgdir (ptable s ! np)"
proof -
  have e: "evolves s t" using assms(1,2) by (rule withinD)
  show "embryo np t" using embryo_evolves[OF e assms(3)] .
  show "p_pgdir (ptable t ! np) = p_pgdir (ptable s ! np)"
    using proc_le_cases(5)[OF evolvesD(5)[OF e]] assms(3) inv_bounds[of s] by (simp add: embryo_def)
qed

text \<open>The part of \<open>fork\<close> after the new page table has been made.\<close>

lemma fork_child:
  assumes "embryo np s" "p_pgdir (ptable s ! np) \<noteq> 0" "p_state q = EMBRYO" "p_pid q = p_pid (ptable s ! np)" "p_pgdir q = p_pgdir (ptable s ! np)"
    and "fork_files np fds (set_proc np q s) = Ok (x, s1)" "idup i s1 = Ok (y, s2)" "s3 = set_proc np ((ptable s2 ! np)\<lparr>p_cwd := c\<rparr>) s2"
    and "t = set_proc np ((ptable s3 ! np)\<lparr>p_state := RUNNABLE, p_name := nm\<rparr>) s3"
  shows "proc_inv t"
proof -
  let ?s0 = "set_proc np q s"
  have s0: "embryo np ?s0" "p_pgdir (ptable ?s0 ! np) \<noteq> 0"
    using embryo_set[OF assms(1,3,4)] assms(1-3,5) inv_bounds[of s] by (simp_all add: embryo_def)
  have s2: "embryo np s2" "p_pgdir (ptable s2 ! np) \<noteq> 0"
    using embryo_pgdir[OF within_fork_files assms(6) s0(1)] embryo_pgdir[OF within_fs(4) assms(7)] s0(2) by simp_all
  have s3: "embryo np s3" "p_pgdir (ptable s3 ! np) \<noteq> 0"
    unfolding assms(8) using s2 embryo_set[OF s2(1), of "(ptable s2 ! np)\<lparr>p_cwd := c\<rparr>"] inv_bounds[of s2] by (simp_all add: embryo_def)
  then show ?thesis unfolding assms(9) by (intro set_proc_same) (auto simp: embryo_def slot_used_def)
qed

lemma fork_inv:
  assumes "proc_inv s" "fork data s = Ok (r, t)"
  shows "proc_inv t"
proof -
  from assms(2)[unfolded fork_def] obtain x s1 where s1: "allocproc s = Ok (x, s1)" and rest:
    "(case x of None \<Rightarrow> ret (-1) | Some np \<Rightarrow> fork_rest data np) s1 = Ok (r, t)"
    unfolding fork_rest_def by (rule andthenE)
  note al = allocproc_cases[OF assms(1) s1]
  show ?thesis
  proof (cases x)
    case None
    then show ?thesis using rest al by simp
  next
    case (Some np)
    then have emb: "embryo np s1" using al by simp
    let ?me = "ptable s1 ! cur s1"
    have "andthen (on_pages (copyuvm data (p_pgdir ?me) (p_sz ?me))) (fork_copied np (cur s1) ?me) s1 = Ok (r, t)"
      using rest Some by (simp add: fork_rest_def proc_at_def)
    then obtain d s2 where s2: "on_pages (copyuvm data (p_pgdir ?me) (p_sz ?me)) s1 = Ok (d, s2)" "fork_copied np (cur s1) ?me d s2 = Ok (r, t)"
      by (rule andthenE)
    have emb2: "embryo np s2" using embryo_within[OF within_on_pages s2(1) emb] .
    define s3 where "s3 = set_proc np ((ptable s2 ! np)\<lparr>p_pgdir := d\<rparr>) s2"
    have emb3: "embryo np s3" unfolding s3_def using emb2 by (intro embryo_set) (simp_all add: embryo_def)
    have pg3: "p_pgdir (ptable s3 ! np) = d" unfolding s3_def using emb2 inv_bounds[of s2] by (simp add: embryo_def)
    show ?thesis
    proof (cases "d = 0")
      case True
      then have "andthen (on_pages (kfree (p_kstack (ptable s3 ! np)))) (\<lambda>_.
          andthen (upd_proc np (\<lambda>p. p\<lparr>p_kstack := 0, p_state := UNUSED\<rparr>)) (\<lambda>_. ret (-1))) s3 = Ok (r, t)"
        using s2(2) by (simp add: fork_copied_def andthen_Ok proc_at_def s3_def)
      then obtain y s4 where s4: "on_pages (kfree (p_kstack (ptable s3 ! np))) s3 = Ok (y, s4)"
        "andthen (upd_proc np (\<lambda>p. p\<lparr>p_kstack := 0, p_state := UNUSED\<rparr>)) (\<lambda>_. ret (-1)) s4 = Ok (r, t)" by (rule andthenE)
      have "embryo np s4" using embryo_within[OF within_on_pages s4(1) emb3] .
      then show ?thesis using s4(2) by (auto simp: andthen_Ok embryo_def slot_used_def intro!: not_used)
    next
      case False
      let ?q = "(ptable s3 ! np)\<lparr>p_sz := p_sz ?me, p_parent := Some (cur s1), p_tf := (p_tf ?me)\<lparr>tf_eax := 0\<rparr>\<rparr>"
      have "andthen (fork_files np [0..<NOFILE]) (\<lambda>_. fork_named np ?me) (set_proc np ?q s3) = Ok (r, t)"
        using False s2(2) by (simp add: fork_copied_def andthen_Ok s3_def)
      then obtain y s5 where s5: "fork_files np [0..<NOFILE] (set_proc np ?q s3) = Ok (y, s5)" "fork_named np ?me s5 = Ok (r, t)" by (rule andthenE)
      from s5(2)[unfolded fork_named_def] obtain z s6 where s6: "idup (case p_cwd ?me of Some i \<Rightarrow> i | None \<Rightarrow> 0) s5 = Ok (z, s6)" and rest6:
        "andthen (upd_proc np (\<lambda>p. p\<lparr>p_cwd := Some z\<rparr>)) (\<lambda>_. andthen (proc_at np) (\<lambda>child.
           andthen (upd_proc np (\<lambda>p. p\<lparr>p_state := RUNNABLE, p_name := safestrcpy 0 (p_name ?me) 16 (p_name p)\<rparr>)) (\<lambda>_. ret (p_pid child)))) s6 = Ok (r, t)"
        by (rule andthenE)
      define s7 where "s7 = set_proc np ((ptable s6 ! np)\<lparr>p_cwd := Some z\<rparr>) s6"
      have "t = set_proc np ((ptable s7 ! np)\<lparr>p_state := RUNNABLE, p_name := safestrcpy 0 (p_name ?me) 16 (p_name (ptable s7 ! np))\<rparr>) s7"
        using rest6 by (simp add: andthen_Ok proc_at_def s7_def)
      then show ?thesis
        by (intro fork_child[OF emb3 _ _ _ _ s5(1) s6 s7_def]) (use pg3 False emb3 in \<open>auto simp: embryo_def\<close>)
    qed
  qed
qed

lemma reparent_le: "list_all2 (\<lambda>p q. proc_le p (q\<lparr>p_parent := p_parent p\<rparr>)) ps (reparent c init ps)"
proof -
  define R where "R = (\<lambda>p q. proc_le p (q\<lparr>p_parent := p_parent p\<rparr>))"
  have trans: "R p r" if "R p q" "R q r" for p q r using that by (auto simp: R_def proc_le_def)
  have step: "list_all2 R ps (if p_parent (qs ! i) = Some c then
         let qs' = qs[i := (qs ! i)\<lparr>p_parent := Some init\<rparr>]
         in if p_state (qs' ! i) = ZOMBIE then wakeup1 (ProcChan init) qs' else qs'
       else qs)" if "list_all2 R ps qs" for i ps qs
  proof -
    have up: "list_all2 R qs (qs[i := (qs ! i)\<lparr>p_parent := Some init\<rparr>])"
      by (cases "i < length qs") (auto simp: list_all2_conv_all_nth nth_list_update R_def proc_le_def)
    have wk: "list_all2 R xs (wakeup1 ch xs)" for xs ch
      by (auto simp: list_all2_conv_all_nth wakeup1_def R_def proc_le_def)
    note tr = list_all2_trans[of R R R, OF trans]
    show ?thesis
    proof (cases "p_parent (qs ! i) = Some c")
      case True
      let ?us = "qs[i := (qs ! i)\<lparr>p_parent := Some init\<rparr>]"
      have u: "list_all2 R ps ?us" by (rule tr[OF _ _ that up])
      have w: "list_all2 R ps (wakeup1 (ProcChan init) ?us)" by (rule tr[OF _ _ u wk])
      show ?thesis unfolding Let_def using True u w by (simp only: if_True split: if_split) simp
    next
      case False
      then show ?thesis using that by (simp only: if_False)
    qed
  qed
  have "list_all2 R ps (fold (\<lambda>i ps. if p_parent (ps ! i) = Some c then
         let ps' = ps[i := (ps ! i)\<lparr>p_parent := Some init\<rparr>]
         in if p_state (ps' ! i) = ZOMBIE then wakeup1 (ProcChan init) ps' else ps'
       else ps) is qs)" if "list_all2 R ps qs" for "is" qs
    using that by (induction "is" arbitrary: qs) (simp_all add: step)
  moreover have "list_all2 R ps ps" by (auto simp: list_all2_conv_all_nth R_def proc_le_def)
  ultimately show ?thesis unfolding reparent_def R_def by blast
qed

text \<open>The invariant does not depend on who is whose parent.\<close>

lemma reparent_inv: "proc_inv s \<Longrightarrow> proc_inv (s\<lparr>ptable := reparent c init (ptable s)\<rparr>)"
proof -
  assume s: "proc_inv s"
  let ?ps = "reparent c init (ptable s)"
  define qs where "qs = map2 (\<lambda>p q. q\<lparr>p_parent := p_parent p\<rparr>) (ptable s) ?ps"
  have len: "length ?ps = length (ptable s)" using reparent_le list_all2_lengthD by metis
  have at: "qs ! i = (?ps ! i)\<lparr>p_parent := p_parent (ptable s ! i)\<rparr>" if "i < NPROC" for i
    using that len inv_bounds[OF s] by (simp add: qs_def)
  have "evolves s (s\<lparr>ptable := qs\<rparr>)"
    using reparent_le[of "ptable s" c init] len by (auto simp: evolves_def qs_def list_all2_conv_all_nth)
  from evolves_inv[OF this s] show ?thesis
    using len at inv_bounds[OF s] by (simp add: proc_inv_def pids_ok_def states_ok_def slot_used_def schedulable_def)
qed

lemma wake_parent_evolves: "evolves s (s\<lparr>ptable := wake_parent q (ptable s)\<rparr>)"
  by (cases q) (simp_all add: wake_parent_def evolves_wakeup evolves_refl)

lemma exit_closes:
  assumes "proc_inv s" "exit s = Ok (x, t)"
  obtains s2 where "evolves s s2" "exit_table (cur s) (initproc s) (p_parent (ptable s ! cur s)) s2 = Ok (x, t)" "cur s \<noteq> initproc s"
proof -
  let ?c = "cur s"
  have ne: "?c \<noteq> initproc s" and "andthen (exit_files [0..<NOFILE]) (\<lambda>_. exit_rest ?c (initproc s)) s = Ok (x, t)"
    using assms(2) by (simp_all add: exit_def split: if_splits)
  then obtain y s1 where s1: "exit_files [0..<NOFILE] s = Ok (y, s1)" "exit_rest ?c (initproc s) s1 = Ok (x, t)" by (auto elim: andthenE)
  let ?me = "ptable s1 ! ?c"
  have "andthen (iput (case p_cwd ?me of Some i \<Rightarrow> i | None \<Rightarrow> 0)) (\<lambda>_. exit_table ?c (initproc s) (p_parent ?me)) s1 = Ok (x, t)"
    using s1(2) by (simp add: exit_rest_def proc_at_def)
  then obtain z s2 where s2: "iput (case p_cwd ?me of Some i \<Rightarrow> i | None \<Rightarrow> 0) s1 = Ok (z, s2)"
    "exit_table ?c (initproc s) (p_parent ?me) s2 = Ok (x, t)" by (rule andthenE)
  have e1: "evolves s s1" using withinD[OF within_exit_files s1(1)] .
  have "p_parent ?me = p_parent (ptable s ! ?c)" using proc_le_cases(6)[OF evolvesD(5)[OF e1]] inv_bounds[OF assms(1)] by simp
  moreover have "evolves s s2" using e1 withinD[OF within_iput(2) s2(1)] by (rule evolves_trans)
  ultimately show ?thesis using that s2(2) ne by simp
qed

lemma exit_inv:
  assumes "proc_inv s" "running s" "exit s = Ok (x, t)"
  shows "proc_inv t"
proof -
  let ?c = "cur s" and ?q = "p_parent (ptable s ! cur s)"
  obtain s2 where e: "evolves s s2" and s2: "exit_table ?c (initproc s) ?q s2 = Ok (x, t)"
    using exit_closes[OF assms(1,3)] by blast
  define s3 where "s3 = set_proc ?c ((ptable s2 ! ?c)\<lparr>p_cwd := None\<rparr>) s2"
  define s4 where "s4 = s3\<lparr>ptable := wake_parent ?q (ptable s3)\<rparr>"
  define s5 where "s5 = s4\<lparr>ptable := reparent ?c (initproc s) (ptable s4)\<rparr>"
  have t: "t = set_proc ?c ((ptable s5 ! ?c)\<lparr>p_state := ZOMBIE\<rparr>) s5"
    using s2 by (simp add: exit_table_def andthen_Ok s3_def s4_def s5_def)
  have "evolves s2 s3"
    using withinD[OF evolves_upd_proc[of "\<lambda>p. p\<lparr>p_cwd := None\<rparr>" ?c], of s2 "()" s3] by (simp add: proc_le_def s3_def)
  then have e3: "evolves s s3" by (rule evolves_trans[OF e])
  have e4: "evolves s s4" unfolding s4_def by (rule evolves_trans[OF e3 wake_parent_evolves])
  have s5: "proc_inv s5" unfolding s5_def using reparent_inv[OF evolves_inv[OF e4 assms(1)]] .
  have len: "?c < NPROC" using inv_bounds[OF assms(1)] by simp
  have "slot_used (ptable s5 ! ?c)"
  proof -
    have "p_state (ptable s4 ! ?c) = RUNNING"
      using proc_le_cases(7)[OF evolvesD(5)[OF e4]] assms(2) inv_bounds[OF assms(1)] by (simp add: running_def)
    moreover have "proc_le (ptable s4 ! ?c) ((ptable s5 ! ?c)\<lparr>p_parent := p_parent (ptable s4 ! ?c)\<rparr>)"
      unfolding s5_def using reparent_le[of "ptable s4" ?c "initproc s"] inv_bounds[OF evolves_inv[OF e4 assms(1)]] len
      by (simp add: list_all2_conv_all_nth)
    ultimately show ?thesis using proc_le_cases(7)[of "ptable s4 ! ?c" "(ptable s5 ! ?c)\<lparr>p_parent := p_parent (ptable s4 ! ?c)\<rparr>"]
      by (simp add: slot_used_def)
  qed
  then show ?thesis unfolding t using s5 len by (intro set_proc_same) (auto simp: schedulable_def)
qed

lemma wait_inv:
  assumes "proc_inv s" "running s" "wait_round s = Ok (r, t)"
  shows "proc_inv t"
proof (cases "zombie_child (cur s) (ptable s)")
  case None
  have sl: "proc_inv u" if "sleep_on (ProcChan (cur s)) s = Ok (y, u)" for y u using sleep_on_inv[OF assms(1,2) that] .
  show ?thesis
  proof (cases "\<not> has_child (cur s) (ptable s) \<or> p_killed (ptable s ! cur s)")
    case True
    then show ?thesis using assms(1,3) None by (simp add: wait_round_def)
  next
    case False
    then have "andthen (sleep_on (ProcChan (cur s))) (\<lambda>_. ret None) s = Ok (r, t)"
      using assms(3) None by (simp add: wait_round_def)
    then obtain y u where "sleep_on (ProcChan (cur s)) s = Ok (y, u)" "ret None u = Ok (r, t)" by (rule andthenE)
    then show ?thesis using sl by simp
  qed
next
  case (Some i)
  then have i: "i < NPROC" unfolding zombie_child_def using find_upt by blast
  let ?p = "ptable s ! i"
  have "andthen (on_pages (kfree (p_kstack ?p))) (\<lambda>_. andthen (upd_proc i (\<lambda>p. p\<lparr>p_kstack := 0\<rparr>)) (\<lambda>_.
      andthen (on_pages (freevm (p_pgdir ?p))) (\<lambda>_.
      andthen (upd_proc i (\<lambda>p. p\<lparr>p_state := UNUSED, p_pid := 0, p_parent := None, p_name := (p_name p)[0 := 0], p_killed := False\<rparr>)) (\<lambda>_.
      ret (Some (p_pid ?p)))))) s = Ok (r, t)"
    using assms(3) Some by (simp add: wait_round_def)
  then obtain y s1 where s1: "on_pages (kfree (p_kstack ?p)) s = Ok (y, s1)" and r1:
      "andthen (upd_proc i (\<lambda>p. p\<lparr>p_kstack := 0\<rparr>)) (\<lambda>_. andthen (on_pages (freevm (p_pgdir ?p))) (\<lambda>_.
      andthen (upd_proc i (\<lambda>p. p\<lparr>p_state := UNUSED, p_pid := 0, p_parent := None, p_name := (p_name p)[0 := 0], p_killed := False\<rparr>)) (\<lambda>_.
      ret (Some (p_pid ?p))))) s1 = Ok (r, t)" by (rule andthenE)
  define s2 where "s2 = set_proc i ((ptable s1 ! i)\<lparr>p_kstack := 0\<rparr>) s1"
  have "andthen (on_pages (freevm (p_pgdir ?p))) (\<lambda>_.
      andthen (upd_proc i (\<lambda>p. p\<lparr>p_state := UNUSED, p_pid := 0, p_parent := None, p_name := (p_name p)[0 := 0], p_killed := False\<rparr>)) (\<lambda>_.
      ret (Some (p_pid ?p)))) s2 = Ok (r, t)" using r1 by (simp add: andthen_Ok s2_def)
  then obtain z s3 where s3: "on_pages (freevm (p_pgdir ?p)) s2 = Ok (z, s3)" and r3:
      "andthen (upd_proc i (\<lambda>p. p\<lparr>p_state := UNUSED, p_pid := 0, p_parent := None, p_name := (p_name p)[0 := 0], p_killed := False\<rparr>)) (\<lambda>_.
      ret (Some (p_pid ?p))) s3 = Ok (r, t)" by (rule andthenE)
  have e1: "proc_inv s1" using within_inv[OF within_on_pages s1 assms(1)] .
  have "within evolves (upd_proc i (\<lambda>p. p\<lparr>p_kstack := 0\<rparr>))" by (rule evolves_upd_proc) (simp add: proc_le_def)
  then have "proc_inv s2" using within_inv[of "upd_proc i (\<lambda>p. p\<lparr>p_kstack := 0\<rparr>)" s1 "()" s2] e1 by (simp add: s2_def)
  then have "proc_inv s3" by (rule within_inv[OF within_on_pages s3])
  then show ?thesis using r3 i by (auto simp: andthen_Ok slot_used_def intro!: not_used)
qed

section \<open>System calls and traps keep it\<close>

text \<open>\<open>keeps c\<close>: every state that \<open>c\<close> returns satisfies the invariant if the state before did.\<close>

definition keeps :: "(sysk, 'a) comp \<Rightarrow> bool" where
  "keeps c \<longleftrightarrow> (\<forall>s x t. proc_inv s \<longrightarrow> c s = Ok (x, t) \<longrightarrow> proc_inv t)"

lemma keepsD: "keeps c \<Longrightarrow> proc_inv s \<Longrightarrow> c s = Ok (x, t) \<Longrightarrow> proc_inv t"
  unfolding keeps_def by blast

lemma keeps_within: "within evolves c \<Longrightarrow> keeps c"
  unfolding keeps_def by (intro allI impI) (rule within_inv)

lemma keeps_andthen: "keeps c \<Longrightarrow> (\<And>x. keeps (f x)) \<Longrightarrow> keeps (andthen c f)"
  unfolding keeps_def
proof (intro allI impI)
  fix s y t
  assume c: "\<forall>s x t. proc_inv s \<longrightarrow> c s = Ok (x, t) \<longrightarrow> proc_inv t" and f: "\<And>x. \<forall>s y t. proc_inv s \<longrightarrow> f x s = Ok (y, t) \<longrightarrow> proc_inv t"
    and s: "proc_inv s" "andthen c f s = Ok (y, t)"
  from s(2) obtain x u where "c s = Ok (x, u)" "f x u = Ok (y, t)" by (rule andthenE)
  then show "proc_inv t" using c[rule_format, OF s(1)] f[rule_format] by blast
qed

lemma keeps_if: "(b \<Longrightarrow> keeps c) \<Longrightarrow> (\<not> b \<Longrightarrow> keeps d) \<Longrightarrow> keeps (if b then c else d)"
  by simp

lemma keeps_case2:
  "(\<And>x y. keeps (f x y)) \<Longrightarrow> keeps c \<Longrightarrow> keeps (case r of (Some x, Some y) \<Rightarrow> f x y | _ \<Rightarrow> c)"
  by (auto split: option.split prod.split)

lemma keeps_option: "keeps c \<Longrightarrow> (\<And>x. keeps (f x)) \<Longrightarrow> keeps (case r of None \<Rightarrow> c | Some x \<Rightarrow> f x)"
  by (cases r) simp_all

lemma keeps_prod: "(\<And>x y. keeps (f x y)) \<Longrightarrow> keeps (case r of (x, y) \<Rightarrow> f x y)"
  by (cases r) simp

lemma keeps_let: "keeps (f x) \<Longrightarrow> keeps (let y = x in f y)"
  by simp

lemmas keeps_intro = keeps_andthen keeps_if keeps_case2 keeps_option keeps_prod keeps_let

lemmas keeps_frame = within_intro[THEN keeps_within]

lemma keeps_commit: "d \<noteq> 0 \<Longrightarrow> keeps (exec_commit d sz entry sp path)"
  unfolding keeps_def
proof (intro allI impI)
  fix s t :: sysk and x
  assume d: "d \<noteq> 0" and s: "proc_inv s" and c: "exec_commit d sz entry sp path s = Ok (x, t)"
  let ?p = "ptable s ! cur s"
  let ?q = "?p\<lparr>p_name := safestrcpy 0 (last_elem path @ [0]) 16 (p_name ?p), p_pgdir := d, p_sz := sz, p_tf := (p_tf ?p)\<lparr>tf_eip := entry, tf_esp := sp\<rparr>\<rparr>"
  have "andthen (on_pages (freevm (p_pgdir ?p))) (\<lambda>_. ret 0) (set_proc (cur s) ?q s) = Ok (x, t)"
    using c d by (simp add: exec_commit_def proc_at_def andthen_Ok)
  then obtain y u where "on_pages (freevm (p_pgdir ?p)) (set_proc (cur s) ?q s) = Ok (y, u)" "ret 0 u = Ok (x, t)" by (rule andthenE)
  then have "proc_inv (set_proc (cur s) ?q s) \<Longrightarrow> proc_inv t" using within_inv[OF within_on_pages] by simp
  moreover have "proc_inv (set_proc (cur s) ?q s)"
    using s d inv_bounds[OF s] by (intro set_proc_same) (auto simp: slot_used_def)
  ultimately show "proc_inv t" by simp
qed

lemma keeps_exec_stack: "d \<noteq> 0 \<Longrightarrow> keeps (exec_stack d sz entry path argv)"
  unfolding exec_stack_def by (intro keeps_intro keeps_frame keeps_commit)

lemma keeps_exec: "keeps (exec data junk nb path argv)"
  unfolding exec_def exec_image_def by (intro keeps_intro keeps_frame keeps_exec_stack)

lemma keeps_sys_exec: "keeps (sys_exec data junk nb)"
  unfolding sys_exec_def by (intro keeps_intro keeps_frame keeps_exec)

end
