(* ===== verification/Xv6_Trap.thy ===== *)
theory Xv6_Trap
  imports Xv6_Run
begin

text \<open>
  Traps, \<open>xv6/kernel/trap.c\<close>, and the kernel as a state machine on one processor, in which they are the steps of a process and
  of the devices. \<open>exit\<close> and \<open>yield\<close> switch to the scheduler and the code behind them runs at most when the process is
  chosen again, so each part of \<open>trap\<close> after such a call is guarded by \<open>running\<close>.

  The interrupt handlers of keyboard and serial port call \<open>consoleintr\<close>, whose buffer is not part of this state; \<open>con\<close> says whether
  the interrupt completes a line, so that \<open>consoleintr\<close> wakes the readers. The processor is the first one: the test \<open>cpu->id == 0\<close> of the
  timer interrupt, by which only one of several processors counts the ticks, is true.
\<close>

definition T_SYSCALL :: nat where "T_SYSCALL = 64"
definition T_IRQ0 :: nat where "T_IRQ0 = 32"
definition IRQ_TIMER :: nat where "IRQ_TIMER = 0"
definition IRQ_KBD :: nat where "IRQ_KBD = 1"
definition IRQ_COM1 :: nat where "IRQ_COM1 = 4"
definition IRQ_IDE :: nat where "IRQ_IDE = 14"
definition IRQ_SPURIOUS :: nat where "IRQ_SPURIOUS = 31"

definition if_running :: "(sysk, unit) comp \<Rightarrow> (sysk, unit) comp" where
  "if_running c = andthen (gets running) (\<lambda>b. if b then c else ret ())"

text \<open>A process that has been killed exits.\<close>

definition exit_if_killed :: "bool \<Rightarrow> (sysk, unit) comp" where
  "exit_if_killed user = if_running (andthen killed (\<lambda>k. if k \<and> user then exit else ret ()))"

definition InputChan :: chan where
  "InputChan = OtherChan 0"

text \<open>The \<open>switch\<close>. \<open>user\<close> is \<open>(tf->cs&3) == DPL_USER\<close>.\<close>

definition trap_switch :: "bool \<Rightarrow> bool \<Rightarrow> nat \<Rightarrow> (sysk, unit) comp" where
  "trap_switch con user trapno =
     (if trapno = T_IRQ0 + IRQ_TIMER then
        andthen (modify (\<lambda>s. s\<lparr>ticks := ticks s + 1\<rparr>)) (\<lambda>_. wakeup TicksChan)
      else if trapno = T_IRQ0 + IRQ_IDE then modify ideintr
      else if trapno = T_IRQ0 + IRQ_IDE + 1 then ret ()
      else if trapno = T_IRQ0 + IRQ_KBD \<or> trapno = T_IRQ0 + IRQ_COM1 then (if con then wakeup InputChan else ret ())
      else if trapno = T_IRQ0 + 7 \<or> trapno = T_IRQ0 + IRQ_SPURIOUS then ret ()
      else
        andthen (gets running) (\<lambda>p.
        andthen (check (p \<and> user) ''trap'') (\<lambda>_.
        andthen (gets cur) (\<lambda>c. upd_proc c (\<lambda>p. p\<lparr>p_killed := True\<rparr>)))))"

definition trap :: "kenv \<Rightarrow> bool \<Rightarrow> bool \<Rightarrow> nat \<Rightarrow> (sysk, unit) comp" where
  "trap k con user trapno =
     (if trapno = T_SYSCALL then
        andthen (exit_if_killed True) (\<lambda>_.
        andthen (if_running (syscall k)) (\<lambda>_.
        exit_if_killed True))
      else
        andthen (trap_switch con user trapno) (\<lambda>_.
        andthen (exit_if_killed user) (\<lambda>_.
        andthen (if_running (if trapno = T_IRQ0 + IRQ_TIMER then yield else ret ())) (\<lambda>_.
        exit_if_killed user))))"

text \<open>A process that was woken in \<open>wait\<close> or \<open>sys_sleep\<close> and runs again: the next round, and the end of \<open>trap\<close>.\<close>

definition resume :: "(sysk, int option) comp \<Rightarrow> (sysk, unit) comp" where
  "resume c =
     andthen sleep_end (\<lambda>_.
     andthen c (\<lambda>r.
     andthen (if_running (set_eax r)) (\<lambda>_.
     exit_if_killed True)))"

section \<open>Steps\<close>

text \<open>
  The scheduler runs when no process does. What a system call does on the way to and after a wait inside a file or pipe
  operation is any change that \<open>evolves\<close> allows.
\<close>

inductive kstep :: "kenv \<Rightarrow> sysk \<Rightarrow> sysk \<Rightarrow> bool" for k where
  Trap: "running s \<or> n \<noteq> T_SYSCALL \<Longrightarrow> trap k con user n s = Ok ((), t) \<Longrightarrow> kstep k s t"
| Wait: "running s \<Longrightarrow> resume wait_round s = Ok ((), t) \<Longrightarrow> kstep k s t"
| Sleep: "running s \<Longrightarrow> resume (sys_sleep_round n t0) s = Ok ((), t) \<Longrightarrow> kstep k s t"
| Block: "running s \<Longrightarrow> evolves s u \<Longrightarrow> sleep_on ch u = Ok ((), t) \<Longrightarrow> kstep k s t"
| Unblock: "running s \<Longrightarrow> evolves s t \<Longrightarrow> kstep k s t"
| Preempted: "running s \<Longrightarrow> exit_if_killed user s = Ok ((), t) \<Longrightarrow> kstep k s t"
| Schedule: "\<not> running s \<Longrightarrow> schedule_from i s = Ok (x, t) \<Longrightarrow> kstep k s t"

inductive_cases kstepE: "kstep k s t"

section \<open>The invariant\<close>

lemma evolves_running: "evolves s t \<Longrightarrow> proc_inv s \<Longrightarrow> running s \<Longrightarrow> running t"
  using evolvesD[of s t] proc_le_cases(3)[of "ptable s ! cur s" "ptable t ! cur s"] inv_bounds[of s] by (simp add: running_def)

definition keeps_running :: "(sysk, 'a) comp \<Rightarrow> bool" where
  "keeps_running c \<longleftrightarrow> (\<forall>s x t. proc_inv s \<longrightarrow> running s \<longrightarrow> c s = Ok (x, t) \<longrightarrow> proc_inv t)"

lemma keeps_runningI: "(\<And>s x t. proc_inv s \<Longrightarrow> running s \<Longrightarrow> c s = Ok (x, t) \<Longrightarrow> proc_inv t) \<Longrightarrow> keeps_running c"
  unfolding keeps_running_def by blast

lemma keeps_runningD: "keeps_running c \<Longrightarrow> proc_inv s \<Longrightarrow> running s \<Longrightarrow> c s = Ok (x, t) \<Longrightarrow> proc_inv t"
  unfolding keeps_running_def by blast

lemma keeps_keeps_running: "keeps c \<Longrightarrow> keeps_running c"
  by (rule keeps_runningI) (rule keepsD)

lemma keeps_if_running: "keeps_running c \<Longrightarrow> keeps (if_running c)"
  unfolding keeps_def if_running_def
proof (intro allI impI)
  fix s x t
  assume c: "keeps_running c" and s: "proc_inv s" "andthen (gets running) (\<lambda>b. if b then c else ret ()) s = Ok (x, t)"
  show "proc_inv t"
  proof (cases "running s")
    case True
    then show ?thesis using keeps_runningD[OF c s(1) True, of x t] s(2) by simp
  next
    case False
    then show ?thesis using s by simp
  qed
qed

lemma keeps_running_andthen: "keeps_running c \<Longrightarrow> (\<And>x. keeps (f x)) \<Longrightarrow> keeps_running (andthen c f)"
proof (rule keeps_runningI)
  fix s x t
  assume c: "keeps_running c" "\<And>x. keeps (f x)" and s: "proc_inv s" "running s" "andthen c f s = Ok (x, t)"
  from s(3) obtain y u where u: "c s = Ok (y, u)" "f y u = Ok (x, t)" by (rule andthenE)
  then show "proc_inv t" using keepsD[OF c(2) keeps_runningD[OF c(1) s(1,2) u(1)] u(2)] by simp
qed

lemma keeps_running_within: "within evolves c \<Longrightarrow> (\<And>x. keeps_running (f x)) \<Longrightarrow> keeps_running (andthen c f)"
proof (rule keeps_runningI)
  fix s x t
  assume c: "within evolves c" "\<And>x. keeps_running (f x)" and s: "proc_inv s" "running s" "andthen c f s = Ok (x, t)"
  from s(3) obtain y u where u: "c s = Ok (y, u)" "f y u = Ok (x, t)" by (rule andthenE)
  have e: "evolves s u" using withinD[OF c(1) u(1)] .
  show "proc_inv t" using keeps_runningD[OF c(2) evolves_inv[OF e s(1)] evolves_running[OF e s(1,2)] u(2)] .
qed

lemma keeps_calls:
  "keeps (fork data)" "keeps (kill pid)" "keeps_running exit" "keeps_running wait_round" "keeps_running yield" "keeps_running (sleep_on ch)"
  unfolding keeps_def
  by (blast intro: fork_inv kill_inv exit_inv wait_inv yield_inv sleep_on_inv keeps_runningI)+

lemma within_set_eax [within_intro]: "within evolves (set_eax r)"
  unfolding set_eax_def by (intro within_intro evolves_upd_proc) (simp add: proc_le_def)

lemma keeps_sleep_round: "keeps_running (sys_sleep_round n t0)"
proof (rule keeps_runningI)
  fix s x t
  assume s: "proc_inv s" "running s" "sys_sleep_round n t0 s = Ok (x, t)"
  have k: "keeps_running (andthen (sleep_on TicksChan) (\<lambda>_. ret (None :: int option)))"
    by (rule keeps_running_andthen[OF keeps_calls(6) keeps_within[OF within_ret]])
  show "proc_inv t"
    using keeps_runningD[OF k s(1,2), of x t] s by (simp add: sys_sleep_round_def split: if_splits)
qed

lemma keeps_returns: "keeps_running c \<Longrightarrow> keeps_running (returns c)"
  unfolding returns_def by (rule keeps_running_andthen, assumption, rule keeps_within[OF within_ret])

lemma keeps_sys_kill: "keeps sys_kill"
  unfolding sys_kill_def by (intro keeps_intro keeps_calls keeps_within[OF within_gets] keeps_within[OF within_ret])

lemma keeps_sys_sleep: "keeps_running sys_sleep"
  unfolding sys_sleep_def
proof (rule keeps_running_within[OF within_gets])
  fix a :: "32 word option"
  have "keeps_running (andthen (gets ticks) (\<lambda>ticks0. sys_sleep_round n ticks0))" for n
    by (rule keeps_running_within[OF within_gets keeps_sleep_round])
  then show "keeps_running (case a of None \<Rightarrow> ret (Some (-1)) | Some n \<Rightarrow> andthen (gets ticks) (\<lambda>ticks0. sys_sleep_round n ticks0))"
    using keeps_keeps_running[OF keeps_within[OF within_ret]] by (cases a) auto
qed

lemma keeps_sys_exit: "keeps_running sys_exit"
  unfolding sys_exit_def by (rule keeps_running_andthen[OF keeps_calls(3) keeps_within[OF within_ret]])

lemmas keeps_file_calls = within_sys_files(1-4) within_sys_names(1) within_create(2) within_sys_more within_sys_chdir within_sysproc

lemma keeps_syscalls: "c \<in> set (syscalls k) \<Longrightarrow> keeps_running c"
  unfolding syscalls_def
  by (auto intro!: keeps_returns keeps_sys_exit keeps_sys_sleep keeps_calls
    intro: keeps_keeps_running keeps_within keeps_file_calls keeps_calls keeps_sys_kill keeps_sys_exec)

lemma keeps_syscall: "keeps_running (syscall k)"
  unfolding syscall_def
proof (rule keeps_running_within[OF within_gets])
  fix num :: int
  show "keeps_running (if num > 0 \<and> num < int (length (syscalls k)) + 1 then andthen (syscalls k ! nat (num - 1)) set_eax else set_eax (Some (-1)))"
  proof (cases "num > 0 \<and> num < int (length (syscalls k)) + 1")
    case True
    then have "syscalls k ! nat (num - 1) \<in> set (syscalls k)" by (intro nth_mem) linarith
    then show ?thesis using True keeps_running_andthen[OF keeps_syscalls keeps_within[OF within_set_eax]] by simp
  next
    case False
    then show ?thesis using keeps_keeps_running[OF keeps_within[OF within_set_eax]] by (simp only: if_False)
  qed
qed

lemma keeps_exit_if_killed: "keeps (exit_if_killed user)"
proof -
  have "keeps_running (if k \<and> user then exit else ret ())" for k
    by (auto intro: keeps_calls(3) keeps_keeps_running[OF keeps_within[OF within_ret]])
  then show ?thesis unfolding exit_if_killed_def
    by (intro keeps_if_running keeps_running_within[OF within_pipes(3)])
qed

lemma within_switch [within_intro]: "within evolves (trap_switch con user n)"
  unfolding trap_switch_def
  by (intro within_intro within_modify evolves_upd_proc) (simp_all add: proc_le_def evolves_ideintr evolves_same)

lemma keeps_trap: "keeps (trap k con user n)"
proof -
  have y: "keeps_running (if b then yield else ret ())" for b
    by (auto intro: keeps_calls(5) keeps_keeps_running[OF keeps_within[OF within_ret]])
  show ?thesis
    unfolding trap_def
    by (intro keeps_if keeps_andthen keeps_exit_if_killed keeps_if_running keeps_syscall y keeps_within[OF within_switch])
qed

lemma keeps_resume: "keeps_running c \<Longrightarrow> keeps_running (resume c)"
proof (rule keeps_runningI)
  fix s x t
  let ?rest = "andthen c (\<lambda>r. andthen (if_running (set_eax r)) (\<lambda>_. exit_if_killed True))"
  assume c: "keeps_running c" and s: "proc_inv s" "running s" "resume c s = Ok (x, t)"
  from s(3)[unfolded resume_def] obtain y u where u: "sleep_end s = Ok (y, u)" "?rest u = Ok (x, t)" by (rule andthenE)
  have e: "evolves s u" using sleep_end_evolves[OF s(1,2) u(1)] .
  have "keeps_running ?rest"
    by (intro keeps_running_andthen keeps_andthen keeps_if_running keeps_exit_if_killed c
      keeps_keeps_running[OF keeps_within[OF within_set_eax]])
  then show "proc_inv t" using keeps_runningD[of ?rest u x t] evolves_inv[OF e s(1)] evolves_running[OF e s(1,2)] u(2) by simp
qed

lemma kstep_inv: "kstep k s t \<Longrightarrow> proc_inv s \<Longrightarrow> proc_inv t"
proof (induction rule: kstep.induct)
  case (Trap s n con user t)
  then show ?case using keepsD[OF keeps_trap] by blast
next
  case (Wait s t)
  then show ?case using keeps_runningD[OF keeps_resume[OF keeps_calls(4)]] by blast
next
  case (Sleep s n t0 t)
  then show ?case using keeps_runningD[OF keeps_resume[OF keeps_sleep_round]] by blast
next
  case (Block s u ch t)
  then show ?case using sleep_on_inv[OF evolves_inv[OF Block(2,4)] evolves_running[OF Block(2,4,1)]] by blast
next
  case (Unblock s t)
  then show ?case using evolves_inv by blast
next
  case (Preempted s user t)
  then show ?case using keepsD[OF keeps_exit_if_killed] by blast
next
  case (Schedule s i x t)
  then show ?case using schedule_inv(2) by blast
qed

lemma kstep_rtrancl_inv: "(kstep k)\<^sup>*\<^sup>* s t \<Longrightarrow> proc_inv s \<Longrightarrow> proc_inv t"
  by (induction rule: rtranclp_induct) (auto dest: kstep_inv)

text \<open>
  C33. On one processor, in every state that the kernel reaches from one that satisfies the invariant of the process table, by any sequence
  of traps, system calls, waits, wake-ups and switches: at most the current process is running, and the scheduler does not panic: a process
  that it chooses has a page table. As long as less than \<open>2 ^ 31 - 1\<close> identifiers have been given out, so that the counter \<open>nextpid\<close> has
  not wrapped around, no two entries that are in use have the same process identifier.
\<close>

theorem process_table_invariant:
  assumes "proc_inv s" "(kstep k)\<^sup>*\<^sup>* s t"
  shows "proc_inv t \<and>
    (spawned t < 2 ^ 31 - 1 \<longrightarrow> (\<forall>i < NPROC. \<forall>j < NPROC.
      slot_used (ptable t ! i) \<longrightarrow> slot_used (ptable t ! j) \<longrightarrow> p_pid (ptable t ! i) = p_pid (ptable t ! j) \<longrightarrow> i = j)) \<and>
    (\<forall>i < NPROC. p_state (ptable t ! i) = RUNNING \<longrightarrow> i = cur t) \<and>
    (\<not> running t \<longrightarrow> (\<forall>i m. schedule_from i t \<noteq> Panic m))"
proof -
  have t: "proc_inv t" by (rule kstep_rtrancl_inv[OF assms(2,1)])
  then have "spawned t < 2 ^ 31 - 1 \<longrightarrow> pids_ok t" "states_ok t" by (simp_all add: proc_inv_def few_pids_def)
  then show ?thesis using t schedule_inv(1)[OF t] unfolding pids_ok_def states_ok_def by blast
qed

lemma demo_inv: "proc_inv (demo_sys a b c)"
proof -
  have at: "ptable (demo_sys a b c) ! i = (if i = 0 then demo_proc else unused_proc)" if "i < NPROC" for i
    using that by (cases i) (simp_all add: NPROC_def)
  have u: "slot_used (ptable (demo_sys a b c) ! i) \<longleftrightarrow> i = 0" "schedulable (ptable (demo_sys a b c) ! i) \<longleftrightarrow> i = 0" if "i < NPROC" for i
    using at[OF that] by (simp_all add: slot_used_def schedulable_def demo_proc_def unused_proc_def)
  have "pids_ok (demo_sys a b c)"
    unfolding pids_ok_def using u(1) by (auto simp: demo_proc_def)
  moreover have "states_ok (demo_sys a b c)"
    unfolding states_ok_def
  proof (intro conjI allI impI)
    fix i assume i: "i < NPROC" "p_state (ptable (demo_sys a b c) ! i) = RUNNING"
    then show "i = cur (demo_sys a b c)" using at[OF i(1)] by (simp add: unused_proc_def split: if_splits)
  next
    fix i assume i: "i < NPROC" "schedulable (ptable (demo_sys a b c) ! i)"
    then show "p_pgdir (ptable (demo_sys a b c) ! i) \<noteq> 0" using u(2)[OF i(1)] by (simp add: demo_proc_def)
  qed
  moreover have "counter_ok (demo_sys a b c)" by (simp add: counter_ok_def)
  ultimately show ?thesis by (simp add: proc_inv_def NPROC_def)
qed

lemma demo_running: "running (demo_sys a b c)"
  by (simp add: running_def demo_proc_def)

lemma demo_yield: "yield (demo_sys a b c) = Ok ((), set_proc 0 (demo_proc\<lparr>p_state := RUNNABLE\<rparr>) (demo_sys a b c))"
  by (simp add: yield_def)

definition demo_env :: kenv where
  "demo_env = \<lparr>k_data = 0x108000, k_junk = replicate 52 0, k_name = replicate 14 0\<rparr>"

text \<open>The running process of the example is preempted by a timer interrupt.\<close>

definition demo_ticked :: sysk where
  "demo_ticked = set_proc 0 (demo_proc\<lparr>p_state := RUNNABLE\<rparr>) ((demo_sys 0 0 0)\<lparr>ticks := ticks (demo_sys 0 0 0) + 1\<rparr>)"

lemma demo_tick: "trap demo_env False True 32 (demo_sys 0 0 0) = Ok ((), demo_ticked)"
proof -
  have w: "wakeup1 TicksChan (demo_proc # replicate 63 unused_proc) = demo_proc # replicate 63 unused_proc"
    by (simp add: wakeup1_def demo_proc_def unused_proc_def)
  have p: "p_state demo_proc = RUNNING" "\<not> p_killed demo_proc" by (simp_all add: demo_proc_def)
  show ?thesis
    by (simp add: trap_def T_SYSCALL_def T_IRQ0_def IRQ_TIMER_def trap_switch_def wakeup_def w p exit_if_killed_def if_running_def running_def
      killed_def andthen_assoc andthen_Ok yield_def demo_ticked_def set_proc_def)
qed

theorem process_table_invariant_witness:
  "proc_inv (demo_sys 0 0 0) \<and> trap demo_env False True 32 (demo_sys 0 0 0) = Ok ((), demo_ticked) \<and>
   \<not> running demo_ticked \<and> (\<forall>i m. schedule_from i demo_ticked \<noteq> Panic m)"
proof -
  have "kstep demo_env (demo_sys 0 0 0) demo_ticked" using kstep.Trap[OF _ demo_tick] by (simp add: T_SYSCALL_def)
  then have "(kstep demo_env)\<^sup>*\<^sup>* (demo_sys 0 0 0) demo_ticked" by blast
  moreover have "\<not> running demo_ticked" by (simp add: running_def demo_ticked_def set_proc_def)
  ultimately show ?thesis using process_table_invariant[OF demo_inv[of 0 0 0], of demo_env demo_ticked] demo_inv demo_tick by blast
qed

end
