(* ===== verification/Xv6_Exit.thy ===== *)
theory Xv6_Exit
  imports Xv6_Run
begin

text \<open>
  What \<open>exit\<close> leaves in the process table: a zombie that its parent finds, a parent that is awake, and no process whose parent is
  gone.
\<close>

section \<open>The children\<close>

definition adopt :: "nat \<Rightarrow> nat \<Rightarrow> nat \<Rightarrow> proc list \<Rightarrow> proc list" where
  "adopt c init i ps =
     (if p_parent (ps ! i) = Some c then
        let ps' = ps[i := (ps ! i)\<lparr>p_parent := Some init\<rparr>]
        in if p_state (ps' ! i) = ZOMBIE then wakeup1 (ProcChan init) ps' else ps'
      else ps)"

lemma reparent_adopt: "reparent c init ps = fold (adopt c init) [0..<length ps] ps"
  by (simp only: reparent_def adopt_def[abs_def])

lemma wakeup1_parent [simp]: "j < length ps \<Longrightarrow> p_parent (wakeup1 ch ps ! j) = p_parent (ps ! j)" "length (wakeup1 ch ps) = length ps"
  by (simp_all add: wakeup1_def)

lemma adopt_length [simp]: "length (adopt c init i ps) = length ps"
  by (simp add: adopt_def Let_def)

lemma adopt_parent:
  "j < length ps \<Longrightarrow> p_parent (adopt c init i ps ! j) = (if j = i \<and> p_parent (ps ! j) = Some c then Some init else p_parent (ps ! j))"
  by (cases "j = i") (auto simp: adopt_def Let_def nth_list_update)

lemma fold_adopt_parent:
  assumes "c \<noteq> init" "j < length ps"
  shows "p_parent (fold (adopt c init) is ps ! j) = (if j \<in> set is \<and> p_parent (ps ! j) = Some c then Some init else p_parent (ps ! j))"
  using assms(2) by (induction "is" arbitrary: ps) (use assms(1) in \<open>auto simp: adopt_parent\<close>)

lemma reparent_parent:
  "c \<noteq> init \<Longrightarrow> j < length ps \<Longrightarrow>
    p_parent (reparent c init ps ! j) = (if p_parent (ps ! j) = Some c then Some init else p_parent (ps ! j))"
  by (simp add: reparent_adopt fold_adopt_parent)

lemma reparent_state:
  assumes "j < length ps" "p_state (ps ! j) \<noteq> SLEEPING"
  shows "p_state (reparent c init ps ! j) = p_state (ps ! j)"
proof -
  let ?q = "(reparent c init ps ! j)\<lparr>p_parent := p_parent (ps ! j)\<rparr>"
  have "proc_le (ps ! j) ?q" using reparent_le[of ps c init] assms(1) by (simp add: list_all2_conv_all_nth)
  then show ?thesis using proc_le_cases(7)[of "ps ! j" ?q] assms(2) by simp
qed

section \<open>exit\<close>

text \<open>
  C34. When a process exits it becomes a zombie, its children become children of the first process, and none is left
  behind. If its parent sleeps in \<open>wait\<close> then it is runnable afterwards, and the search of \<open>wait\<close> finds a zombie: the wake-up is not
  lost.
\<close>

theorem exit_wakes_parent:
  assumes "proc_inv s" "running s" "exit s = Ok ((), t)"
    and "p_parent (ptable s ! cur s) = Some q" "q < NPROC" "q \<noteq> cur s"
    and "p_state (ptable s ! q) = SLEEPING" "p_chan (ptable s ! q) = Some (ProcChan q)"
  shows "p_state (ptable t ! cur s) = ZOMBIE \<and> p_state (ptable t ! q) = RUNNABLE \<and> zombie_child q (ptable t) \<noteq> None \<and>
    (\<forall>i < NPROC. p_parent (ptable t ! i) = (if p_parent (ptable s ! i) = Some (cur s) then Some (initproc s) else p_parent (ptable s ! i)))"
proof -
  let ?c = "cur s"
  obtain s2 where e: "evolves s s2" and ne: "?c \<noteq> initproc s" and s2: "exit_table ?c (initproc s) (Some q) s2 = Ok ((), t)"
    using exit_closes[OF assms(1,3)] assms(4) by metis
  have len: "length (ptable s2) = NPROC" "?c < NPROC" using evolvesD(1)[OF e] inv_bounds[OF assms(1)] by simp_all
  have le: "proc_le (ptable s ! i) (ptable s2 ! i)" if "i < NPROC" for i using evolvesD(5)[OF e] that inv_bounds[OF assms(1)] by simp
  define p3 where "p3 = (ptable s2)[?c := (ptable s2 ! ?c)\<lparr>p_cwd := None\<rparr>]"
  define p4 where "p4 = wakeup1 (ProcChan q) p3"
  define p5 where "p5 = reparent ?c (initproc s) p4"
  have t: "ptable t = p5[?c := (p5 ! ?c)\<lparr>p_state := ZOMBIE\<rparr>]"
    using s2 by (auto simp: exit_table_def andthen_Ok wake_parent_def p3_def p4_def p5_def)
  have lens: "length p3 = NPROC" "length p4 = NPROC" "length p5 = NPROC"
    using len reparent_le[of p4 ?c "initproc s", THEN list_all2_lengthD] by (simp_all add: p3_def p4_def p5_def)
  have par: "p_parent (p4 ! i) = p_parent (ptable s ! i)" if "i < NPROC" for i
    using that lens len proc_le_cases(6)[OF le[OF that]] by (simp add: p4_def p3_def nth_list_update)
  have at3: "p3 ! q = ptable s2 ! q" using assms(6) by (simp add: p3_def)
  have st: "p_state (p4 ! q) = RUNNABLE"
  proof (cases "p_state (ptable s2 ! q) = SLEEPING")
    case True
    then show ?thesis
      using proc_le_cases(8)[OF le[OF assms(5)] True] assms(5,8) lens at3 by (simp add: p4_def wakeup1_def)
  next
    case False
    then have "p_state (ptable s2 ! q) = RUNNABLE" using le[OF assms(5)] assms(7) by (auto simp: proc_le_def)
    then show ?thesis using assms(5) lens at3 by (simp add: p4_def wakeup1_def)
  qed
  have q: "p_state (ptable t ! q) = RUNNABLE"
    using reparent_state[of q p4 ?c "initproc s"] st assms(5,6) lens by (simp add: t p5_def)
  have pt: "p_parent (ptable t ! i) = (if p_parent (ptable s ! i) = Some ?c then Some (initproc s) else p_parent (ptable s ! i))" if "i < NPROC" for i
    using reparent_parent[OF ne, of i p4] par[OF that] that lens len by (auto simp: t p5_def nth_list_update)
  have z: "p_state (ptable t ! ?c) = ZOMBIE" using len lens by (simp add: t)
  have "zombie_child q (ptable t) \<noteq> None"
    unfolding zombie_child_def find_None_iff using z pt[OF len(2)] assms(4,6) len(2) by auto
  then show ?thesis using z q pt by blast
qed

text \<open>A machine in which process 2 runs and its parent, process 1, waits; both have the same current directory.\<close>

definition demo_family :: sysk where
  "demo_family = (demo_sys 0 0 0)\<lparr>
     icache := (icache (demo_sys 0 0 0))[0 := (icache (demo_sys 0 0 0) ! 0)\<lparr>ip_ref := 2\<rparr>],
     ptable := demo_proc\<lparr>p_state := SLEEPING, p_chan := Some (ProcChan 0)\<rparr> #
       demo_proc\<lparr>p_pid := 2, p_parent := Some 0, p_ofile := replicate 16 None\<rparr> # replicate 62 unused_proc,
     nextpid := 3, spawned := 2, cur := 1\<rparr>"

lemma demo_family_simps:
  "ptable demo_family ! 0 = demo_proc\<lparr>p_state := SLEEPING, p_chan := Some (ProcChan 0)\<rparr>"
  "ptable demo_family ! Suc 0 = demo_proc\<lparr>p_pid := 2, p_parent := Some 0, p_ofile := replicate 16 None\<rparr>"
  "cur demo_family = Suc 0" "initproc demo_family = 0" "nextpid demo_family = 3" "length (ptable demo_family) = NPROC"
  by (simp_all add: demo_family_def NPROC_def)

lemma demo_family_rest: "i < NPROC \<Longrightarrow> 2 \<le> i \<Longrightarrow> ptable demo_family ! i = unused_proc"
  by (simp add: demo_family_def nth_Cons NPROC_def split: nat.split)

lemma demo_family_inv: "proc_inv demo_family"
proof -
  have c: "i = 0 \<or> i = Suc 0 \<or> 2 \<le> i" for i :: nat by linarith
  have "pids_ok demo_family"
    unfolding pids_ok_def
  proof (intro conjI allI impI)
    fix i assume "i < NPROC" "slot_used (ptable demo_family ! i)"
    then show "0 < p_pid (ptable demo_family ! i)" "p_pid (ptable demo_family ! i) < nextpid demo_family"
      using c[of i] by (auto simp: demo_family_simps demo_family_rest demo_proc_def unused_proc_def slot_used_def)
  next
    fix i j assume "i < NPROC" "j < NPROC" "slot_used (ptable demo_family ! i)" "slot_used (ptable demo_family ! j)"
      "p_pid (ptable demo_family ! i) = p_pid (ptable demo_family ! j)"
    then show "i = j"
      using c[of i] c[of j] by (elim disjE) (simp_all add: demo_family_simps demo_family_rest demo_proc_def unused_proc_def slot_used_def)
  qed
  moreover have "states_ok demo_family"
    unfolding states_ok_def
  proof (intro conjI allI impI)
    fix i assume "i < NPROC" "p_state (ptable demo_family ! i) = RUNNING"
    then show "i = cur demo_family" using c[of i] by (elim disjE) (simp_all add: demo_family_simps demo_family_rest unused_proc_def)
  next
    fix i assume "i < NPROC" "schedulable (ptable demo_family ! i)"
    then show "p_pgdir (ptable demo_family ! i) \<noteq> 0"
      using c[of i] by (elim disjE) (simp_all add: demo_family_simps demo_family_rest demo_proc_def unused_proc_def schedulable_def)
  qed
  moreover have "counter_ok demo_family" by (simp add: counter_ok_def demo_family_def)
  ultimately show ?thesis by (simp add: proc_inv_def demo_family_simps NPROC_def)
qed

lemma exit_no_files: "\<forall>fd \<in> set fds. p_ofile (ptable s ! cur s) ! fd = None \<Longrightarrow> exit_files fds s = Ok ((), s)"
  by (induction fds) simp_all

lemma demo_family_exit: "\<exists>t. exit demo_family = Ok ((), t)"
proof -
  let ?me = "ptable demo_family ! Suc 0"
  have f: "exit_files [0..<NOFILE] demo_family = Ok ((), demo_family)"
    by (rule exit_no_files) (auto simp: demo_family_simps NOFILE_def)
  have "ip_ref (icache demo_family ! 0) = 2"
    by (simp add: demo_family_def demo_sys_def fsk.extend_def demo_fields NINODE_def)
  then have "\<exists>u. iput 0 demo_family = Ok ((), u)"
    by (simp add: iput_def inode_at_def upd_inode_def)
  moreover have "p_cwd ?me = Some 0" by (simp add: demo_family_simps demo_proc_def)
  ultimately obtain u where u: "iput (case p_cwd ?me of Some i \<Rightarrow> i | None \<Rightarrow> 0) demo_family = Ok ((), u)" by auto
  have "exit_rest (Suc 0) 0 demo_family = exit_table (Suc 0) 0 (p_parent ?me) u"
    using u by (simp add: exit_rest_def proc_at_def andthen_Ok)
  moreover have "exit demo_family = exit_rest (Suc 0) 0 demo_family"
    using f by (simp add: exit_def demo_family_simps andthen_Ok)
  ultimately show ?thesis by (simp add: exit_table_def andthen_Ok)
qed

theorem exit_wakes_parent_witness:
  "\<exists>t. exit demo_family = Ok ((), t) \<and> p_state (ptable t ! 1) = ZOMBIE \<and> p_state (ptable t ! 0) = RUNNABLE \<and> zombie_child 0 (ptable t) \<noteq> None"
proof -
  obtain t where t: "exit demo_family = Ok ((), t)" using demo_family_exit by blast
  have "running demo_family" by (simp add: running_def demo_family_simps demo_proc_def)
  then have "p_state (ptable t ! 1) = ZOMBIE \<and> p_state (ptable t ! 0) = RUNNABLE \<and> zombie_child 0 (ptable t) \<noteq> None"
    using exit_wakes_parent[OF demo_family_inv _ t, of 0] by (simp add: demo_family_simps NPROC_def)
  then show ?thesis using t by blast
qed

end
