(* ===== verification/Xv6_Console.thy ===== *)
theory Xv6_Console
  imports Xv6_Pipe
begin

text \<open>
  The console, \<open>xv6/kernel/console.c\<close>: the line discipline of the keyboard, reading from it, and the text screen. Characters that
  \<open>consputc\<close> gets are numbers, with \<open>BACKSPACE\<close> for 256; \<open>out\<close> is the list of them. The lock is held within a step. What
  control-P prints is the process table and is left out. The reader's inode lock is released while it waits, so it has no part here.
\<close>

section \<open>Input\<close>

definition INPUT_BUF :: nat where "INPUT_BUF = 128"
definition BACKSPACE :: nat where "BACKSPACE = 0x100"

record input =
  in_buf :: "byte list"
  in_r :: "32 word"
  in_w :: "32 word"
  in_e :: "32 word"

text \<open>A position in the buffer.\<close>

definition in_slot :: "32 word \<Rightarrow> nat" where
  "in_slot c = unat c mod INPUT_BUF"

definition ctrl :: "char \<Rightarrow> nat" where
  "ctrl c = of_char c - 64"

text \<open>The loop for control-U: the new state and what it puts on the screen.\<close>

lemma step_back: "e \<noteq> (w :: 32 word) \<Longrightarrow> unat (e - 1 - w) < unat (e - w)"
proof -
  assume "e \<noteq> w"
  then have ne: "e - w \<noteq> 0" by simp
  have "e - 1 - w = (e - w) - 1" by simp
  then show ?thesis using unat_minus_one[OF ne] unat_gt_0[of "e - w"] ne by (metis One_nat_def diff_Suc_less)
qed

function kill_line :: "input \<Rightarrow> nat list \<times> input" where
  "kill_line s =
     (if in_e s \<noteq> in_w s \<and> in_buf s ! in_slot (in_e s - 1) \<noteq> 10 then
        let (out, t) = kill_line (s\<lparr>in_e := in_e s - 1\<rparr>) in (BACKSPACE # out, t)
      else ([], s))"
  by pat_completeness auto
termination
proof (relation "measure (\<lambda>s. unat (in_e s - in_w s))", simp)
  fix s :: input
  assume "in_e s \<noteq> in_w s \<and> in_buf s ! in_slot (in_e s - 1) \<noteq> 10"
  then have "unat (in_e s - 1 - in_w s) < unat (in_e s - in_w s)" by (intro step_back) simp
  then show "(s\<lparr>in_e := in_e s - 1\<rparr>, s) \<in> measure (\<lambda>s. unat (in_e s - in_w s))" by simp
qed

declare kill_line.simps [simp del]

text \<open>One round of \<open>consoleintr\<close> for the character \<open>c\<close>: output, whether readers are woken, the new state.\<close>

definition console_char :: "byte \<Rightarrow> input \<Rightarrow> nat list \<times> bool \<times> input" where
  "console_char c s =
     (if unat c = ctrl CHR ''P'' then ([], False, s)
      else if unat c = ctrl CHR ''U'' then (let (out, t) = kill_line s in (out, False, t))
      else if unat c = ctrl CHR ''H'' \<or> c = 0x7F then
        (if in_e s \<noteq> in_w s then ([BACKSPACE], False, s\<lparr>in_e := in_e s - 1\<rparr>) else ([], False, s))
      else if c \<noteq> 0 \<and> in_e s - in_r s < of_nat INPUT_BUF then
        let c' = (if c = 13 then 10 else c);
            t = s\<lparr>in_buf := (in_buf s)[in_slot (in_e s) := c'], in_e := in_e s + 1\<rparr>
        in if c' = 10 \<or> unat c' = ctrl CHR ''D'' \<or> in_e t = in_r t + of_nat INPUT_BUF
           then ([unat c'], True, t\<lparr>in_w := in_e t\<rparr>) else ([unat c'], False, t)
      else ([], False, s))"

text \<open>The characters that \<open>getc\<close> returns until it has none.\<close>

primrec consoleintr :: "byte list \<Rightarrow> input \<Rightarrow> nat list \<times> bool \<times> input" where
  "consoleintr [] s = ([], False, s)"
| "consoleintr (c # cs) s =
     (let (out, wk, t) = console_char c s; (out', wk', u) = consoleintr cs t in (out @ out', wk \<or> wk', u))"

text \<open>
  The loop of \<open>consoleread\<close>: \<open>n\<close> bytes are still wanted and \<open>dst\<close> have been copied. It ends, or waits with \<open>n\<close> and \<open>dst\<close> as they are.
\<close>

datatype read_result = Got int "byte list" | Waits nat "byte list"

primrec consoleread_loop :: "bool \<Rightarrow> nat \<Rightarrow> byte list \<Rightarrow> input \<Rightarrow> read_result \<times> input" where
  "consoleread_loop killed 0 dst s = (Got (int (length dst)) dst, s)"
| "consoleread_loop killed (Suc n) dst s =
     (if in_r s = in_w s then (if killed then (Got (-1) dst, s) else (Waits (Suc n) dst, s))
      else
        let c = in_buf s ! in_slot (in_r s); t = s\<lparr>in_r := in_r s + 1\<rparr>
        in if unat c = ctrl CHR ''D'' then (Got (int (length dst)) dst, if dst \<noteq> [] then s else t)
           else if c = 10 then (Got (int (length dst) + 1) (dst @ [c]), t)
           else consoleread_loop killed n (dst @ [c]) t)"

definition consoleread :: "bool \<Rightarrow> int \<Rightarrow> input \<Rightarrow> read_result \<times> input" where
  "consoleread killed n s = consoleread_loop killed (nat n) [] s"

definition consolewrite :: "byte list \<Rightarrow> nat list \<times> int" where
  "consolewrite buf = (map unat buf, int (length buf))"

section \<open>The screen\<close>

text \<open>The cursor position and the character memory of 25 lines.\<close>

record cga =
  cga_pos :: nat
  crt :: "16 word list"

definition cga_scroll :: "cga \<Rightarrow> cga" where
  "cga_scroll s =
     (if cga_pos s div 80 \<ge> 24 then
        let pos = cga_pos s - 80; m = take (23 * 80) (drop 80 (crt s)) @ drop (23 * 80) (crt s)
        in s\<lparr>cga_pos := pos, crt := take pos m @ replicate (24 * 80 - pos) 0 @ drop (24 * 80) m\<rparr>
      else s)"

definition cgaputc :: "nat \<Rightarrow> cga \<Rightarrow> cga" where
  "cgaputc c s =
     (let t = (if c = 10 then s\<lparr>cga_pos := cga_pos s + (80 - cga_pos s mod 80)\<rparr>
               else if c = BACKSPACE then (if cga_pos s > 0 then s\<lparr>cga_pos := cga_pos s - 1\<rparr> else s)
               else s\<lparr>crt := (crt s)[cga_pos s := (of_nat c AND 0xFF) OR 0x0700], cga_pos := cga_pos s + 1\<rparr>);
          u = cga_scroll t
      in u\<lparr>crt := (crt u)[cga_pos u := 0x20 OR 0x0700]\<rparr>)"

lemma cgaputc_inside:
  assumes "cga_pos s < 24 * 80" "length (crt s) = 25 * 80"
  shows "cga_pos (cgaputc c s) < 24 * 80 \<and> length (crt (cgaputc c s)) = 25 * 80"
proof -
  have "cga_pos s + (80 - cga_pos s mod 80) \<le> 24 * 80"
  proof -
    have "cga_pos s div 80 < 24" using assms(1) by auto
    moreover have "cga_pos s = 80 * (cga_pos s div 80) + cga_pos s mod 80" by simp
    moreover have "cga_pos s mod 80 < 80" by simp
    ultimately show ?thesis by linarith
  qed
  moreover have "cga_pos (cga_scroll t) < 24 * 80 \<and> length (crt (cga_scroll t)) = 25 * 80"
    if "cga_pos t \<le> 24 * 80" "length (crt t) = 25 * 80" for t
    using that by (auto simp: cga_scroll_def Let_def)
  ultimately show ?thesis using assms by (auto simp: cgaputc_def Let_def)
qed

section \<open>The buffer as a queue\<close>

definition typed :: "input \<Rightarrow> byte list" where
  "typed s = map (\<lambda>k. in_buf s ! in_slot (in_r s + of_nat k)) [0..<unat (in_e s - in_r s)]"

definition ring_ok :: "input \<Rightarrow> bool" where
  "ring_ok s \<longleftrightarrow> length (in_buf s) = INPUT_BUF \<and> unat (in_e s - in_r s) \<le> INPUT_BUF"

definition in_put :: "byte \<Rightarrow> input \<Rightarrow> input" where
  "in_put c s = s\<lparr>in_buf := (in_buf s)[in_slot (in_e s) := c], in_e := in_e s + 1\<rparr>"

definition in_pop :: "input \<Rightarrow> input" where
  "in_pop s = s\<lparr>in_r := in_r s + 1\<rparr>"

lemma in_slot_inj: "j < INPUT_BUF \<Longrightarrow> k < INPUT_BUF \<Longrightarrow> in_slot (c + of_nat j) = in_slot (c + of_nat k) \<Longrightarrow> j = k"
proof -
  assume a: "j < INPUT_BUF" "k < INPUT_BUF" "in_slot (c + of_nat j) = in_slot (c + of_nat k)"
  have "unat (c + of_nat i) mod 128 = (unat c mod 128 + i) mod 128" for i
  proof -
    have "unat (c + of_nat i) = (unat c + i) mod 2 ^ 32" by (simp add: unat_word_ariths unat_of_nat take_bit_eq_mod mod_simps)
    then show ?thesis by (simp add: mod_mod_cancel mod_simps)
  qed
  then have "(in_slot c + j) mod 128 = (in_slot c + k) mod 128" using a(3) by (simp add: in_slot_def INPUT_BUF_def)
  moreover have "in_slot c < 128" by (simp add: in_slot_def INPUT_BUF_def)
  ultimately show "j = k" using a(1,2) by (auto simp: INPUT_BUF_def mod_if split: if_splits)
qed

lemma typed_length [simp]: "length (typed s) = unat (in_e s - in_r s)"
  by (simp add: typed_def)

lemma in_put_typed:
  assumes "ring_ok s" "unat (in_e s - in_r s) < INPUT_BUF"
  shows "ring_ok (in_put c s)" "typed (in_put c s) = typed s @ [c]"
proof -
  let ?n = "unat (in_e s - in_r s)"
  have n: "unat (in_e s + 1 - in_r s) = Suc ?n" using assms(2) by (intro count_up) (simp add: INPUT_BUF_def PIPESIZE_def)
  show "ring_ok (in_put c s)" using assms n by (simp add: ring_ok_def in_put_def)
  have e: "in_e s = in_r s + of_nat ?n" by simp
  have other: "in_slot (in_e s) \<noteq> in_slot (in_r s + of_nat k)" if "k < ?n" for k
    using in_slot_inj[of k ?n "in_r s"] that assms(2) e by (metis less_trans order_less_irrefl)
  have "in_slot (in_e s) < length (in_buf s)" using assms(1) by (simp add: ring_ok_def in_slot_def INPUT_BUF_def)
  then show "typed (in_put c s) = typed s @ [c]" using n other by (auto simp: typed_def in_put_def)
qed

lemma in_pop_typed:
  assumes "ring_ok s" "in_r s \<noteq> in_e s"
  shows "ring_ok (in_pop s)" "typed s = in_buf s ! in_slot (in_r s) # typed (in_pop s)"
proof -
  let ?n = "unat (in_e s - in_r s)"
  have n: "unat (in_e s - (in_r s + 1)) = ?n - 1" using count_down[of "in_e s" "in_r s"] assms(2) by simp
  show "ring_ok (in_pop s)" using assms(1) n by (auto simp: ring_ok_def in_pop_def)
  have "0 < ?n" using assms(2) by (simp add: unat_gt_0)
  then have "[0..<?n] = 0 # map Suc [0..<?n - 1]" by (simp add: upt_conv_Cons map_Suc_upt)
  then show "typed s = in_buf s ! in_slot (in_r s) # typed (in_pop s)" using n by (simp add: typed_def in_pop_def add.assoc comp_def)
qed

interpretation keys: bounded_fifo ring_ok typed INPUT_BUF "\<lambda>s. unat (in_e s - in_r s) = INPUT_BUF" "\<lambda>s. in_r s = in_e s"
  in_put "\<lambda>s. in_buf s ! in_slot (in_r s)" in_pop
proof
  fix s c
  assume ok: "ring_ok s"
  then show "length (typed s) \<le> INPUT_BUF" by (simp add: ring_ok_def)
  show "unat (in_e s - in_r s) = INPUT_BUF \<longleftrightarrow> length (typed s) = INPUT_BUF" by simp
  show "in_r s = in_e s \<longleftrightarrow> typed s = []" using unat_eq_0[of "in_e s - in_r s"] by (auto simp: typed_def)
  show "ring_ok (in_put c s) \<and> typed (in_put c s) = typed s @ [c]" if "unat (in_e s - in_r s) \<noteq> INPUT_BUF"
    using in_put_typed[OF ok] that ok by (simp add: ring_ok_def)
  show "ring_ok (in_pop s) \<and> typed s = in_buf s ! in_slot (in_r s) # typed (in_pop s)" if "in_r s \<noteq> in_e s"
    using in_pop_typed[OF ok that] by simp
qed

text \<open>Taking the last character back.\<close>

lemma typed_unput:
  assumes "ring_ok s" "in_e s \<noteq> in_r s"
  shows "ring_ok (s\<lparr>in_e := in_e s - 1\<rparr>)" "typed (s\<lparr>in_e := in_e s - 1\<rparr>) = butlast (typed s)" "last (typed s) = in_buf s ! in_slot (in_e s - 1)"
    "unat (in_e s - 1 - in_r s) = unat (in_e s - in_r s) - 1"
proof -
  let ?n = "unat (in_e s - in_r s)"
  have pos: "0 < ?n" using assms(2) by (simp add: unat_gt_0)
  have "in_e s - 1 - in_r s = (in_e s - in_r s) - 1" by simp
  then show n: "unat (in_e s - 1 - in_r s) = ?n - 1"
    using unat_minus_one[of "in_e s - in_r s"] assms(2) by (metis right_minus_eq)
  show "ring_ok (s\<lparr>in_e := in_e s - 1\<rparr>)" using assms(1) n by (auto simp: ring_ok_def)
  have "[0..<?n] = [0..<?n - 1] @ [?n - 1]" using pos by (metis Suc_diff_1 le0 upt_Suc)
  moreover have "in_r s + of_nat (?n - 1) = in_e s - 1" using pos by (simp add: of_nat_diff)
  ultimately have "typed s = typed (s\<lparr>in_e := in_e s - 1\<rparr>) @ [in_buf s ! in_slot (in_e s - 1)]" using n by (simp add: typed_def)
  then show "typed (s\<lparr>in_e := in_e s - 1\<rparr>) = butlast (typed s)" "last (typed s) = in_buf s ! in_slot (in_e s - 1)" by simp_all
qed

section \<open>The line discipline\<close>

text \<open>What a reader can have, and the line that is being edited.\<close>

definition lines_ready :: "input \<Rightarrow> byte list" where
  "lines_ready s = take (unat (in_w s - in_r s)) (typed s)"

definition editing :: "input \<Rightarrow> byte list" where
  "editing s = drop (unat (in_w s - in_r s)) (typed s)"

definition console_ok :: "input \<Rightarrow> bool" where
  "console_ok s \<longleftrightarrow> ring_ok s \<and> unat (in_w s - in_r s) \<le> unat (in_e s - in_r s) \<and> 10 \<notin> set (editing s)"

definition spec_char :: "byte \<Rightarrow> byte list \<times> byte list \<Rightarrow> nat list \<times> bool \<times> byte list \<times> byte list" where
  "spec_char c st =
     (case st of (ready, line) \<Rightarrow>
        if c = 16 then ([], False, ready, line)
        else if c = 21 then (replicate (length line) BACKSPACE, False, ready, [])
        else if c = 8 \<or> c = 127 then (if line = [] then [] else [BACKSPACE], False, ready, butlast line)
        else if c \<noteq> 0 \<and> length ready + length line < INPUT_BUF then
          let c' = (if c = 13 then 10 else c)
          in if c' = 10 \<or> c' = 4 \<or> length ready + length line + 1 = INPUT_BUF then ([unat c'], True, ready @ line @ [c'], [])
             else ([unat c'], False, ready, line @ [c'])
        else ([], False, ready, line))"

lemma ctrl_simps [simp]:
  "ctrl CHR ''P'' = 16" "ctrl CHR ''U'' = 21" "ctrl CHR ''H'' = 8" "ctrl CHR ''D'' = 4"
  by (simp_all add: ctrl_def)

lemma byte_number [simp]:
  "unat (c :: byte) = 16 \<longleftrightarrow> c = 16" "unat c = 21 \<longleftrightarrow> c = 21" "unat c = 8 \<longleftrightarrow> c = 8" "unat c = 4 \<longleftrightarrow> c = 4"
  by (simp_all add: word_unat_eq_iff)

lemma typed_split: "typed s = lines_ready s @ editing s"
  by (simp add: lines_ready_def editing_def)

lemma lengths:
  assumes "console_ok s"
  shows "length (lines_ready s) = unat (in_w s - in_r s)" "length (editing s) = unat (in_e s - in_r s) - unat (in_w s - in_r s)"
  using assms by (simp_all add: lines_ready_def editing_def console_ok_def)

lemma empty_line: "console_ok s \<Longrightarrow> in_e s = in_w s \<longleftrightarrow> editing s = []"
proof -
  assume ok: "console_ok s"
  have "editing s = [] \<longleftrightarrow> unat (in_e s - in_r s) = unat (in_w s - in_r s)"
    using lengths(2)[OF ok] ok by (auto simp: console_ok_def simp flip: length_0_conv)
  also have "\<dots> \<longleftrightarrow> in_e s = in_w s" by (auto simp: word_unat_eq_iff[symmetric])
  finally show ?thesis by simp
qed

lemma unput_ok:
  assumes "console_ok s" "in_e s \<noteq> in_w s"
  shows "console_ok (s\<lparr>in_e := in_e s - 1\<rparr>)" "lines_ready (s\<lparr>in_e := in_e s - 1\<rparr>) = lines_ready s"
    "editing (s\<lparr>in_e := in_e s - 1\<rparr>) = butlast (editing s)" "in_buf s ! in_slot (in_e s - 1) = last (editing s)"
proof -
  let ?n = "unat (in_w s - in_r s)"
  have ne: "editing s \<noteq> []" using empty_line[OF assms(1)] assms(2) by simp
  then have lt: "?n < unat (in_e s - in_r s)" using lengths(2)[OF assms(1)] by (cases "?n < unat (in_e s - in_r s)") auto
  then have "in_e s \<noteq> in_r s" by auto
  then have u: "ring_ok (s\<lparr>in_e := in_e s - 1\<rparr>)" "typed (s\<lparr>in_e := in_e s - 1\<rparr>) = butlast (typed s)"
    "last (typed s) = in_buf s ! in_slot (in_e s - 1)" "unat (in_e s - 1 - in_r s) = unat (in_e s - in_r s) - 1"
    using typed_unput[of s] assms(1) by (simp_all add: console_ok_def)
  show ed: "editing (s\<lparr>in_e := in_e s - 1\<rparr>) = butlast (editing s)" using u(2) by (simp add: editing_def butlast_drop)
  show "lines_ready (s\<lparr>in_e := in_e s - 1\<rparr>) = lines_ready s" using u(2) lt by (simp add: lines_ready_def take_butlast)
  show "in_buf s ! in_slot (in_e s - 1) = last (editing s)" using u(3) ne by (simp add: typed_split)
  show "console_ok (s\<lparr>in_e := in_e s - 1\<rparr>)"
    using u lt ed assms(1) in_set_butlastD[of 10 "editing s"] by (auto simp: console_ok_def)
qed

lemma kill_line_spec:
  "console_ok s \<Longrightarrow> \<exists>t. kill_line s = (replicate (length (editing s)) BACKSPACE, t) \<and> console_ok t \<and> lines_ready t = lines_ready s \<and> editing t = []"
proof (induction s rule: kill_line.induct)
  case (1 s)
  show ?case
  proof (cases "in_e s = in_w s")
    case True
    then show ?thesis using 1 empty_line[of s] by (subst kill_line.simps) simp
  next
    case False
    note u = unput_ok[OF "1.prems" False]
    have ne: "editing s \<noteq> []" using empty_line[OF "1.prems"] False by simp
    have guard: "in_e s \<noteq> in_w s \<and> in_buf s ! in_slot (in_e s - 1) \<noteq> 10"
      using False u(4) last_in_set[OF ne] "1.prems" by (auto simp: console_ok_def)
    obtain t where t: "kill_line (s\<lparr>in_e := in_e s - 1\<rparr>) = (replicate (length (editing s) - 1) BACKSPACE, t)"
      "console_ok t" "lines_ready t = lines_ready s" "editing t = []"
      using "1.IH"[OF guard u(1)] u by auto
    have "BACKSPACE # replicate (length (editing s) - 1) BACKSPACE = replicate (length (editing s)) BACKSPACE"
      using ne by (cases "editing s") simp_all
    then show ?thesis using guard t by (subst kill_line.simps) simp
  qed
qed

definition console_view :: "nat list \<times> bool \<times> input \<Rightarrow> nat list \<times> bool \<times> byte list \<times> byte list" where
  "console_view r = (case r of (out, wk, t) \<Rightarrow> (out, wk, lines_ready t, editing t))"

text \<open>A character that is stored: at the end of the line, which may be complete then.\<close>

lemma store_char:
  assumes "console_ok s" "unat (in_e s - in_r s) < INPUT_BUF"
  shows "ring_ok (in_put c s)" "lines_ready (in_put c s) = lines_ready s" "editing (in_put c s) = editing s @ [c]"
    "unat (in_w s - in_r s) \<le> unat (in_e (in_put c s) - in_r (in_put c s))"
    "lines_ready ((in_put c s)\<lparr>in_w := in_e (in_put c s)\<rparr>) = lines_ready s @ editing s @ [c]"
    "editing ((in_put c s)\<lparr>in_w := in_e (in_put c s)\<rparr>) = []"
proof -
  have n: "unat (in_w s - in_r s) \<le> unat (in_e s - in_r s)" and ok: "ring_ok s" using assms(1) by (simp_all add: console_ok_def)
  note p = in_put_typed[OF ok assms(2), of c]
  show "ring_ok (in_put c s)" by (rule p)
  have w: "in_w (in_put c s) = in_w s" "in_r (in_put c s) = in_r s" by (simp_all add: in_put_def)
  show "lines_ready (in_put c s) = lines_ready s" "editing (in_put c s) = editing s @ [c]"
    using p(2) n w by (simp_all add: lines_ready_def editing_def)
  have "length (typed (in_put c s)) = Suc (length (typed s))" using p(2) by simp
  then show "unat (in_w s - in_r s) \<le> unat (in_e (in_put c s) - in_r (in_put c s))" using n by simp
  have t: "typed ((in_put c s)\<lparr>in_w := in_e (in_put c s)\<rparr>) = typed s @ [c]" using p(2) by (simp add: typed_def)
  have len: "unat (in_e (in_put c s) - in_r s) = Suc (unat (in_e s - in_r s))" using p(2) w typed_length[of "in_put c s"] by simp
  show "lines_ready ((in_put c s)\<lparr>in_w := in_e (in_put c s)\<rparr>) = lines_ready s @ editing s @ [c]"
    "editing ((in_put c s)\<lparr>in_w := in_e (in_put c s)\<rparr>) = []"
    unfolding lines_ready_def[of "(in_put c s)\<lparr>in_w := in_e (in_put c s)\<rparr>"] editing_def[of "(in_put c s)\<lparr>in_w := in_e (in_put c s)\<rparr>"] t
    using len w by (simp_all add: typed_split[symmetric] flip: append_assoc)
qed

lemma full_after_put:
  assumes "ring_ok s" "unat (in_e s - in_r s) < INPUT_BUF"
  shows "in_e s + 1 = in_r s + of_nat INPUT_BUF \<longleftrightarrow> unat (in_e s - in_r s) + 1 = INPUT_BUF"
proof -
  have n: "unat (in_e s + 1 - in_r s) = unat (in_e s - in_r s) + 1" using count_up[of "in_e s" "in_r s"] assms(2) by (simp add: INPUT_BUF_def PIPESIZE_def)
  have "in_e s + 1 = in_r s + of_nat INPUT_BUF \<longleftrightarrow> in_e s + 1 - in_r s = of_nat INPUT_BUF" unfolding diff_eq_eq by (simp only: add.commute)
  also have "\<dots> \<longleftrightarrow> unat (in_e s + 1 - in_r s) = INPUT_BUF" by (simp add: word_unat_eq_iff INPUT_BUF_def)
  finally show ?thesis using n by simp
qed

lemma console_char_refines:
  assumes "console_ok s"
  shows "console_view (console_char c s) = spec_char c (lines_ready s, editing s) \<and> console_ok (snd (snd (console_char c s)))"
proof -
  have room: "in_e s - in_r s < of_nat INPUT_BUF \<longleftrightarrow> length (lines_ready s) + length (editing s) < INPUT_BUF"
    using lengths[OF assms] assms by (simp add: word_less_nat_alt INPUT_BUF_def console_ok_def)
  consider (P) "c = 16" | (U) "c = 21" | (H) "c = 8 \<or> c = 127"
    | (store) "c \<noteq> 16" "c \<noteq> 21" "c \<noteq> 8" "c \<noteq> 127" "c \<noteq> 0" "in_e s - in_r s < of_nat INPUT_BUF"
    | (drop) "c \<noteq> 16" "c \<noteq> 21" "c \<noteq> 8" "c \<noteq> 127" "c = 0 \<or> \<not> in_e s - in_r s < of_nat INPUT_BUF" by blast
  then show ?thesis
  proof cases
    case P
    then show ?thesis using assms by (simp add: console_char_def spec_char_def console_view_def)
  next
    case U
    then show ?thesis using kill_line_spec[OF assms] by (auto simp: console_char_def spec_char_def console_view_def)
  next
    case H
    show ?thesis
    proof (cases "in_e s = in_w s")
      case True
      then show ?thesis using H assms empty_line[OF assms] by (auto simp: console_char_def spec_char_def console_view_def)
    next
      case False
      then show ?thesis using H unput_ok[OF assms False] empty_line[OF assms] by (auto simp: console_char_def spec_char_def console_view_def)
    qed
  next
    case drop
    then show ?thesis using assms room by (auto simp: console_char_def spec_char_def console_view_def)
  next
    case store
    define d where "d = (if c = 13 then 10 else c)"
    let ?t = "in_put d s"
    have lt: "unat (in_e s - in_r s) < INPUT_BUF" using store(6) by (simp add: word_less_nat_alt INPUT_BUF_def)
    have ok: "ring_ok s" using assms by (simp add: console_ok_def)
    note st = store_char[OF assms lt, of d]
    have sum: "length (lines_ready s) + length (editing s) = unat (in_e s - in_r s)" using lengths[OF assms] assms by (simp add: console_ok_def)
    have full: "in_e ?t = in_r ?t + of_nat INPUT_BUF \<longleftrightarrow> length (lines_ready s) + length (editing s) + 1 = INPUT_BUF"
      using full_after_put[OF ok lt] sum by (simp add: in_put_def)
    have run: "console_char c s = (if d = 10 \<or> d = 4 \<or> in_e ?t = in_r ?t + of_nat INPUT_BUF
        then ([unat d], True, ?t\<lparr>in_w := in_e ?t\<rparr>) else ([unat d], False, ?t))"
      using store by (simp add: console_char_def d_def Let_def in_put_def)
    have spec: "spec_char c (lines_ready s, editing s) = (if d = 10 \<or> d = 4 \<or> in_e ?t = in_r ?t + of_nat INPUT_BUF
        then ([unat d], True, lines_ready s @ editing s @ [d], []) else ([unat d], False, lines_ready s, editing s @ [d]))"
      using store room unfolding full by (simp add: spec_char_def d_def Let_def)
    show ?thesis
    proof (cases "d = 10 \<or> d = 4 \<or> in_e ?t = in_r ?t + of_nat INPUT_BUF")
      case True
      have "console_ok (?t\<lparr>in_w := in_e ?t\<rparr>)" using st(1,6) by (simp add: console_ok_def ring_ok_def)
      then show ?thesis unfolding run spec using True st(5,6) by (simp add: console_view_def)
    next
      case False
      have "console_ok ?t" using st(1,3,4) assms False by (simp add: console_ok_def in_put_def)
      then show ?thesis unfolding run spec using False st(2,3) by (simp add: console_view_def)
    qed
  qed
qed

section \<open>Reading\<close>

text \<open>The part of the ready input before the next newline or control-D.\<close>

definition body :: "byte list \<Rightarrow> byte list" where
  "body q = takeWhile (\<lambda>c. c \<noteq> 10 \<and> c \<noteq> 4) q"

text \<open>
  What a reader gets who has copied \<open>dst\<close> and wants \<open>n\<close> more bytes, and what is left: the wanted bytes of a longer
  line; everything, if the line is not complete; the line with its newline; or the line before a control-D, which stays
  for the next call unless nothing was read.
\<close>

definition spec_read :: "bool \<Rightarrow> nat \<Rightarrow> byte list \<Rightarrow> byte list \<Rightarrow> read_result \<times> byte list" where
  "spec_read killed n dst q =
     (let b = body q; k = length b
      in if n \<le> k then (Got (int (length (dst @ take n q))) (dst @ take n q), drop n q)
         else if b = q then (if killed then Got (-1) (dst @ q) else Waits (n - k) (dst @ q), [])
         else if q ! k = 10 then (Got (int (length (dst @ b)) + 1) (dst @ b @ [10]), drop (Suc k) q)
         else (Got (int (length (dst @ b))) (dst @ b), drop (if dst @ b = [] then 1 else k) q))"

lemma pop_ready:
  assumes "console_ok s" "in_r s \<noteq> in_w s"
  shows "console_ok (in_pop s)" "lines_ready s = in_buf s ! in_slot (in_r s) # lines_ready (in_pop s)" "editing (in_pop s) = editing s"
proof -
  let ?n = "unat (in_w s - in_r s)"
  have n: "?n \<le> unat (in_e s - in_r s)" "ring_ok s" using assms(1) by (simp_all add: console_ok_def)
  have pos: "0 < ?n" using assms(2) by (simp add: unat_gt_0)
  then have "in_r s \<noteq> in_e s" using n by auto
  note p = in_pop_typed[OF n(2) this]
  have w: "unat (in_w s - (in_r s + 1)) = ?n - 1" using count_down[of "in_w s" "in_r s"] assms(2) by simp
  have e: "unat (in_e s - (in_r s + 1)) = unat (in_e s - in_r s) - 1" using count_down[of "in_e s" "in_r s"] \<open>in_r s \<noteq> in_e s\<close> by simp
  obtain m where m: "?n = Suc m" using pos by (cases ?n) simp_all
  have f: "in_w (in_pop s) = in_w s" "in_r (in_pop s) = in_r s + 1" "in_e (in_pop s) = in_e s" by (simp_all add: in_pop_def)
  have w': "unat (in_w (in_pop s) - in_r (in_pop s)) = m" using w m by (simp add: f)
  show "lines_ready s = in_buf s ! in_slot (in_r s) # lines_ready (in_pop s)"
    unfolding lines_ready_def w' m by (subst p(2)) simp
  show ed: "editing (in_pop s) = editing s" unfolding editing_def w' m by (subst p(2)) simp
  show "console_ok (in_pop s)"
    unfolding console_ok_def ed w' using assms(1) p(1) n(1) m e by (simp add: console_ok_def f)
qed

lemma no_ready: "in_r s = in_w s \<Longrightarrow> lines_ready s = []"
  by (simp add: lines_ready_def)

lemma consoleread_loop_spec:
  assumes "console_ok s" "consoleread_loop killed n dst s = (r, t)"
  shows "(r, lines_ready t) = spec_read killed n dst (lines_ready s) \<and> console_ok t \<and> editing t = editing s"
  using assms
proof (induction n arbitrary: dst s)
  case 0
  then show ?case by (simp add: spec_read_def)
next
  case (Suc n)
  show ?case
  proof (cases "in_r s = in_w s")
    case True
    then show ?thesis using Suc.prems no_ready[OF True] by (auto simp: spec_read_def body_def)
  next
    case False
    note p = pop_ready[OF Suc.prems(1) False]
    define c where "c = in_buf s ! in_slot (in_r s)"
    have q: "lines_ready s = c # lines_ready (in_pop s)" using p(2) by (simp add: c_def)
    show ?thesis
    proof (cases "c = 4 \<or> c = 10")
      case True
      then show ?thesis
        using Suc.prems False p q by (auto simp: c_def[symmetric] in_pop_def[symmetric] spec_read_def body_def)
    next
      case other: False
      have "consoleread_loop killed n (dst @ [c]) (in_pop s) = (r, t)"
        using Suc.prems(2) False other by (simp add: c_def[symmetric] in_pop_def[symmetric])
      from Suc.IH[OF p(1) this] have ih: "(r, lines_ready t) = spec_read killed n (dst @ [c]) (lines_ready (in_pop s))" "console_ok t" "editing t = editing s"
        using p(3) by simp_all
      have "spec_read killed (Suc n) dst (c # w) = spec_read killed n (dst @ [c]) w" for w
        using other by (auto simp: spec_read_def body_def Let_def)
      then show ?thesis using ih q by simp
    qed
  qed
qed

text \<open>
  C38. The console's ring buffer with its three wrapping counters implements a line editor: a state is the input that readers can have and
  the line being edited, each of the keys acts as on those two lists, and a line becomes readable, with a wake-up, when it ends
  in a newline or control-D or when the buffer is full. A read takes exactly what the description of \<open>spec_read\<close> says from the
  readable input and leaves the edited line alone.
\<close>

theorem console_line_editor:
  assumes "console_ok s"
  shows "console_view (console_char c s) = spec_char c (lines_ready s, editing s) \<and> console_ok (snd (snd (console_char c s))) \<and>
    (case consoleread killed n s of (r, t) \<Rightarrow> (r, lines_ready t) = spec_read killed (nat n) [] (lines_ready s) \<and> console_ok t \<and> editing t = editing s)"
proof -
  obtain r t where rt: "consoleread killed n s = (r, t)" by fastforce
  then show ?thesis
    using console_char_refines[OF assms, of c] consoleread_loop_spec[OF assms, of killed "nat n" "[]" r t] by (simp add: consoleread_def)
qed

text \<open>\<open>ls\<close> and a newline typed, \<open>c\<close> begun, at counters that are about to wrap around.\<close>

definition demo_input :: input where
  "demo_input = \<lparr>in_buf = (replicate 128 0)[126 := 0x6C, 127 := 0x73, 0 := 10, 1 := 0x63], in_r = 0xFFFFFFFE, in_w = 1, in_e = 2\<rparr>"

lemma demo_input_lines: "lines_ready demo_input = [0x6C, 0x73, 10]" "editing demo_input = [0x63]"
proof -
  have "unat (in_e demo_input - in_r demo_input) = 4" "unat (in_w demo_input - in_r demo_input) = 3" by (simp_all add: demo_input_def)
  moreover have "[0..<4] = [0, 1, 2, 3::nat]" by (simp add: upt_rec)
  ultimately show "lines_ready demo_input = [0x6C, 0x73, 10]" "editing demo_input = [0x63]"
    by (simp_all add: lines_ready_def editing_def typed_def) (simp_all add: demo_input_def in_slot_def INPUT_BUF_def)
qed

theorem console_line_editor_witness:
  "console_ok demo_input \<and> console_view (console_char 8 demo_input) = ([BACKSPACE], False, [0x6C, 0x73, 10], []) \<and>
   fst (consoleread False 100 demo_input) = Got 3 [0x6C, 0x73, 10]"
proof -
  have ok: "console_ok demo_input"
    using demo_input_lines by (simp add: console_ok_def ring_ok_def) (simp add: demo_input_def INPUT_BUF_def)
  have "spec_read False 100 [] [0x6C, 0x73, 10] = (Got 3 [0x6C, 0x73, 10], [])" by (simp add: spec_read_def body_def)
  then show ?thesis
    using console_line_editor[OF ok, of 8 False 100] ok by (auto simp: demo_input_lines spec_char_def)
qed

end
