(* ===== verification/Xv6_Paging.thy ===== *)
theory Xv6_Paging
  imports Xv6_Args
begin

text \<open>
  Page tables as a function: what the processor makes of a page directory, when a directory is well formed, and that \<open>mappages\<close> extends the
  function by exactly the pages it is asked to map.
\<close>

section \<open>Words of pages\<close>

lemma low_bits: "unat (w AND 0xFFF :: 32 word) = unat w mod 4096"
proof -
  have "w AND 0xFFF = take_bit 12 w" by (simp add: take_bit_eq_mask mask_eq_exp_minus_1)
  then show ?thesis by (simp add: take_bit_eq_mod unat_mod)
qed

lemma PTE_ADDR_low: "PTE_ADDR w = w - (w AND 0xFFF)"
proof -
  have "w = (w AND NOT 0xFFF) + (w AND 0xFFF)"
    by (subst disjunctive_add) (auto simp: bit_simps simp flip: bit.conj_disj_distrib)
  then show ?thesis unfolding PTE_ADDR_def by (metis add_diff_cancel_right')
qed

lemma PTE_ADDR_unat: "unat (PTE_ADDR w) = unat w - unat w mod 4096"
proof -
  have "w AND 0xFFF \<le> w" by (simp add: word_le_nat_alt low_bits)
  then show ?thesis unfolding PTE_ADDR_low by (simp add: unat_sub low_bits)
qed

lemma PTE_ADDR_aligned: "unat w mod 4096 = 0 \<Longrightarrow> PTE_ADDR w = w"
  by (simp add: word_unat_eq_iff PTE_ADDR_unat)

text \<open>An entry made of the address of a page and flags.\<close>

lemma entry_parts:
  assumes "unat pa mod 4096 = 0" "unat f < 4096"
  shows "PTE_ADDR (pa OR f) = pa" "(pa OR f) AND 1 = f AND 1"
proof -
  have pa: "pa AND NOT 0xFFF = pa" using PTE_ADDR_aligned[OF assms(1)] by (simp add: PTE_ADDR_def)
  have "f AND 0xFFF = f" using assms(2) by (simp add: word_unat_eq_iff low_bits)
  then have f: "f AND NOT 0xFFF = 0" using PTE_ADDR_low[of f] by (simp add: PTE_ADDR_def)
  show "PTE_ADDR (pa OR f) = pa" unfolding PTE_ADDR_def bit.conj_disj_distrib2 pa f by simp
  have "(pa AND NOT 0xFFF) AND 1 = 0" by (rule bit_word_eqI) (auto simp: bit_simps bit_numeral_rec bit_1_iff)
  then show "(pa OR f) AND 1 = f AND 1" using pa by (simp add: bit.conj_disj_distrib2)
qed

lemma entry_flags:
  assumes "unat pa mod 4096 = 0" "unat perm < 4096"
  shows "PTE_ADDR (pa OR perm OR PTE_P) = pa" "(pa OR perm OR PTE_P) AND PTE_P \<noteq> 0"
proof -
  have p: "perm AND 0xFFF = perm" using assms(2) by (simp add: word_unat_eq_iff low_bits)
  have "(perm OR 1) AND 0xFFF = perm OR 1" by (subst p[symmetric]) (rule bit_word_eqI, auto simp: bit_simps bit_numeral_rec bit_1_iff)
  then have "unat (perm OR 1) < 4096" using low_bits[of "perm OR 1"] by simp
  from entry_parts[OF assms(1) this] show "PTE_ADDR (pa OR perm OR PTE_P) = pa" "(pa OR perm OR PTE_P) AND PTE_P \<noteq> 0"
    by (simp_all add: PTE_P_def or.assoc bit.conj_disj_distrib2)
qed

lemma index_unat: "unat (PDX va) = unat va div 2 ^ 22" "unat (PTX va) = unat va div 4096 mod 1024"
proof -
  have m: "unat (w AND 0x3FF :: 32 word) = unat w mod 1024" for w
  proof -
    have "w AND 0x3FF = take_bit 10 w" by (simp add: take_bit_eq_mask mask_eq_exp_minus_1)
    then show ?thesis by (simp add: take_bit_eq_mod unat_mod)
  qed
  have "unat va < 2 ^ 32" using unsigned_less[of va, where ?'a = nat] by simp
  then have "unat va div 2 ^ 22 < 1024" by (simp add: less_mult_imp_div_less)
  then show "unat (PDX va) = unat va div 2 ^ 22" by (simp add: PDX_def m drop_bit_eq_div unat_div)
  show "unat (PTX va) = unat va div 4096 mod 1024" by (simp add: PTX_def m drop_bit_eq_div unat_div)
qed

lemma index_less: "unat (PDX va) < 1024" "unat (PTX va) < 1024"
proof -
  have "unat va < 2 ^ 32" using unsigned_less[of va, where ?'a = nat] by simp
  then show "unat (PDX va) < 1024" "unat (PTX va) < 1024" by (simp_all add: index_unat less_mult_imp_div_less)
qed

lemma same_page_iff: "PDX va = PDX a \<and> PTX va = PTX a \<longleftrightarrow> unat va div 4096 = unat a div 4096"
proof -
  have d: "unat v div 2 ^ 22 = unat v div 4096 div 1024" for v :: "32 word" by (simp add: div_mult2_eq[symmetric])
  show ?thesis unfolding word_unat_eq_iff index_unat d by (metis div_mult_mod_eq)
qed

text \<open>Word \<open>i\<close> of page \<open>p\<close>.\<close>

lemma word_at:
  assumes "page_ok s p" "unat i < 1024"
  shows "unat (p + 4 * i) = unat p + 4 * unat i"
proof -
  obtain j where j: "unat p = 4096 * j" "j < 4096" using page_aligned[OF assms(1)] by blast
  have "unat (4 * i) = 4 * unat i" using assms(2) by (simp add: unat_word_ariths)
  then show ?thesis using j assms(2) by (subst unat_add_lem[THEN iffD1]) simp_all
qed

lemma word_inj:
  assumes "page_ok s p" "page_ok s q" "unat i < 1024" "unat j < 1024" "p + 4 * i = q + 4 * j"
  shows "p = q \<and> i = j"
proof -
  obtain a b where ab: "unat p = 4096 * a" "unat q = 4096 * b" using page_aligned[OF assms(1)] page_aligned[OF assms(2)] by blast
  have "4096 * a + 4 * unat i = 4096 * b + 4 * unat j" using word_at[OF assms(1,3)] word_at[OF assms(2,4)] assms(5) ab by simp
  moreover from this have "(4096 * a + 4 * unat i) div 4096 = (4096 * b + 4 * unat j) div 4096" by simp
  then have "a = b" using assms(3,4) by simp
  ultimately have "a = b \<and> unat i = unat j" by simp
  then show ?thesis using ab by (simp add: word_unat_eq_iff)
qed

lemma load_store_words:
  assumes "unat a mod 4 = 0" "unat b mod 4 = 0" "a \<noteq> b"
  shows "load32 (store32 b w m) a = load32 m a"
proof (rule load_store_far)
  have far: "4 \<le> unat (x - y)" if "unat x mod 4 = 0" "unat y mod 4 = 0" "x \<noteq> y" for x y :: "32 word"
  proof -
    have "unat (x - y) \<noteq> 0" using that(3) by (simp add: unat_eq_zero)
    moreover have "unat (x - y) mod 4 = 0"
      using that(1,2) unsigned_less[of y, where ?'a = nat] by (simp add: unat_sub_if_size word_size) presburger
    ultimately show ?thesis by (cases "unat (x - y) < 4") auto
  qed
  show "4 \<le> unat (a - b)" "4 \<le> unat (b - a)" using far assms by auto
qed

lemma load_store_pages:
  assumes "page_ok s p" "page_ok s q" "unat i < 1024" "unat j < 1024" "(p, i) \<noteq> (q, j)"
  shows "load32 (store32 (q + 4 * j) w m) (p + 4 * i) = load32 m (p + 4 * i)"
proof (rule load_store_words)
  have al: "(unat r + 4 * k) mod 4 = 0" if "page_ok s r" for r k
    using page_aligned[OF that] by auto
  show "unat (p + 4 * i) mod 4 = 0" "unat (q + 4 * j) mod 4 = 0"
    using al[OF assms(1)] al[OF assms(2)] word_at[OF assms(1,3)] word_at[OF assms(2,4)] by simp_all
  show "p + 4 * i \<noteq> q + 4 * j" using word_inj[OF assms(1-4)] assms(5) by blast
qed

lemma load_fill:
  assumes "page_ok s p" "page_ok s q" "unat i < 1024"
  shows "load32 (fill q 0 PGSIZE m) (p + 4 * i) = (if p = q then 0 else load32 m (p + 4 * i))"
proof -
  obtain a b where ab: "unat p = 4096 * a" "a < 4096" "unat q = 4096 * b" "b < 4096" using page_aligned[OF assms(1)] page_aligned[OF assms(2)] by blast
  have near: "unat (p + 4 * i + x - q) < 4096 \<longleftrightarrow> p = q" if "x \<in> {0, 1, 2, 3}" for x
  proof -
    have x: "unat x < 4" using that by auto
    have u: "unat (p + 4 * i + x) = 4096 * a + 4 * unat i + unat x"
      using word_at[OF assms(1,3)] ab x assms(3) by (subst unat_add_lem[THEN iffD1]) simp_all
    have eq: "p = q \<longleftrightarrow> a = b" using ab by (simp add: word_unat_eq_iff)
    show ?thesis
    proof (cases "unat q \<le> unat (p + 4 * i + x)")
      case True
      then have "unat (p + 4 * i + x - q) = 4096 * a + 4 * unat i + unat x - 4096 * b" using u ab by (simp add: unat_sub word_le_nat_alt)
      then show ?thesis using True u ab eq x assms(3) by auto
    next
      case False
      then have "unat (p + 4 * i + x - q) = 4096 * a + 4 * unat i + unat x + 2 ^ 32 - 4096 * b"
        using u ab by (simp add: unat_sub_if_size word_size)
      then show ?thesis using False u ab eq x assms(3) by auto
    qed
  qed
  have "fill q 0 PGSIZE m (p + 4 * i + x) = (if p = q then 0 else m (p + 4 * i + x))" if "x \<in> {0, 1, 2, 3}" for x
    using near[OF that] by (simp add: fill_def PGSIZE_def)
  from this[of 0] this[of 1] this[of 2] this[of 3] show ?thesis by (simp add: load32_def rd32_def)
qed

section \<open>Page directories\<close>

definition pde :: "(32 word \<Rightarrow> byte) \<Rightarrow> 32 word \<Rightarrow> 32 word \<Rightarrow> 32 word" where
  "pde m d x = load32 m (d + 4 * x)"

definition present :: "(32 word \<Rightarrow> byte) \<Rightarrow> 32 word \<Rightarrow> 32 word \<Rightarrow> bool" where
  "present m d x \<longleftrightarrow> pde m d x AND PTE_P \<noteq> 0"

definition table :: "(32 word \<Rightarrow> byte) \<Rightarrow> 32 word \<Rightarrow> 32 word \<Rightarrow> 32 word" where
  "table m d x = PTE_ADDR (pde m d x)"

text \<open>The page that entry \<open>y\<close> of table \<open>x\<close> stands for.\<close>

definition xlate :: "(32 word \<Rightarrow> byte) \<Rightarrow> 32 word \<Rightarrow> 32 word \<Rightarrow> 32 word \<Rightarrow> 32 word option" where
  "xlate m d x y =
     (if present m d x \<and> load32 m (table m d x + 4 * y) AND PTE_P \<noteq> 0 then Some (PTE_ADDR (load32 m (table m d x + 4 * y))) else None)"

lemma mmu_xlate: "mmu m d va = map_option (\<lambda>p. p + (va AND 0xFFF)) (xlate m d (PDX va) (PTX va))"
  by (simp add: mmu_def xlate_def present_def table_def pde_def Let_def)

text \<open>
  The directory and its tables are pages of their own, none of them free, with \<open>ps\<close> the free pages.
\<close>

definition pgdir_ok :: "'z kmem_scheme \<Rightarrow> 32 word list \<Rightarrow> 32 word \<Rightarrow> bool" where
  "pgdir_ok s ps d \<longleftrightarrow> page_ok s d \<and> d \<notin> set ps \<and>
     (\<forall>x. unat x < 1024 \<longrightarrow> present (mem s) d x \<longrightarrow> page_ok s (table (mem s) d x) \<and> table (mem s) d x \<notin> set ps \<and> table (mem s) d x \<noteq> d) \<and>
     (\<forall>x y. unat x < 1024 \<longrightarrow> unat y < 1024 \<longrightarrow> present (mem s) d x \<longrightarrow> present (mem s) d y \<longrightarrow> table (mem s) d x = table (mem s) d y \<longrightarrow> x = y)"

lemma pgdir_okD:
  assumes "pgdir_ok s ps d"
  shows "page_ok s d" "d \<notin> set ps"
    "\<And>x. unat x < 1024 \<Longrightarrow> present (mem s) d x \<Longrightarrow> page_ok s (table (mem s) d x) \<and> table (mem s) d x \<notin> set ps \<and> table (mem s) d x \<noteq> d"
    "\<And>x y. unat x < 1024 \<Longrightarrow> unat y < 1024 \<Longrightarrow> present (mem s) d x \<Longrightarrow> present (mem s) d y \<Longrightarrow> table (mem s) d x = table (mem s) d y \<Longrightarrow> x = y"
  using assms unfolding pgdir_ok_def by blast+

lemma page_nonzero: "kmem_ok s ps \<Longrightarrow> page_ok s p \<Longrightarrow> p \<noteq> 0"
  by (auto simp: kmem_ok_def page_ok_def)

lemma word_nonzero: "kmem_ok s ps \<Longrightarrow> page_ok s p \<Longrightarrow> unat i < 1024 \<Longrightarrow> p + 4 * i \<noteq> 0"
  using word_at[of s p i] page_nonzero[of s ps p] by (auto simp: word_unat_eq_iff)

text \<open>Memory that changes only in pages that are not free.\<close>

lemma chain_cong: "(\<forall>a \<in> set ps. load32 m' a = load32 m a) \<Longrightarrow> chain m' p ps = chain m p ps"
  by (induction ps arbitrary: p) auto

lemma kmem_ok_mem:
  assumes "kmem_ok s ps" "\<forall>a \<in> set ps. load32 m a = load32 (mem s) a"
  shows "kmem_ok (s\<lparr>mem := m\<rparr>) ps"
  using assms chain_cong[of ps m "mem s"] by (simp add: kmem_ok_def page_ok_def)

lemma page_ok_mem [simp]: "page_ok (s\<lparr>mem := m\<rparr>) p = page_ok s p"
  by (simp add: page_ok_def)

lemma kmem_ok_store:
  assumes "kmem_ok s ps" "page_ok s q" "q \<notin> set ps" "unat j < 1024"
  shows "kmem_ok (s\<lparr>mem := store32 (q + 4 * j) w (mem s)\<rparr>) ps"
proof (rule kmem_ok_mem[OF assms(1)], rule ballI)
  fix a assume a: "a \<in> set ps"
  then have "page_ok s a" "a \<noteq> q" using assms(1,3) by (auto simp: kmem_ok_def)
  then show "load32 (store32 (q + 4 * j) w (mem s)) a = load32 (mem s) a"
    using load_store_pages[of s a q 0 j w "mem s"] assms(2,4) by simp
qed

text \<open>Setting an entry of a table that is there.\<close>

lemma set_entry:
  assumes "kmem_ok s ps" "pgdir_ok s ps d" "unat x < 1024" "unat y < 1024" "present (mem s) d x" "e AND PTE_P \<noteq> 0"
  defines "t \<equiv> s\<lparr>mem := store32 (table (mem s) d x + 4 * y) e (mem s)\<rparr>"
  shows "kmem_ok t ps" "pgdir_ok t ps d"
    "\<And>x' y'. unat x' < 1024 \<Longrightarrow> unat y' < 1024 \<Longrightarrow> xlate (mem t) d x' y' = (if x' = x \<and> y' = y then Some (PTE_ADDR e) else xlate (mem s) d x' y')"
proof -
  note ok = pgdir_okD[OF assms(2)]
  note T = ok(3)[OF assms(3,5)]
  show "kmem_ok t ps" unfolding t_def using T assms(1,4) by (intro kmem_ok_store) simp_all
  have pd: "pde (mem t) d x' = pde (mem s) d x'" if "unat x' < 1024" for x'
    unfolding pde_def t_def using load_store_pages[OF ok(1) conjunct1[OF T] that assms(4)] T by auto
  then have same: "present (mem t) d x' = present (mem s) d x'" "table (mem t) d x' = table (mem s) d x'" if "unat x' < 1024" for x'
    using that by (simp_all add: present_def table_def)
  have pg: "page_ok t p = page_ok s p" for p by (simp add: t_def)
  show "pgdir_ok t ps d" unfolding pgdir_ok_def pg using ok same by simp
  fix x' y' :: "32 word" assume xy: "unat x' < 1024" "unat y' < 1024"
  show "xlate (mem t) d x' y' = (if x' = x \<and> y' = y then Some (PTE_ADDR e) else xlate (mem s) d x' y')"
  proof (cases "present (mem s) d x'")
    case False
    then show ?thesis using same[OF xy(1)] assms(5) by (auto simp: xlate_def)
  next
    case True
    note T' = ok(3)[OF xy(1) True]
    show ?thesis
    proof (cases "x' = x \<and> y' = y")
      case here: True
      then show ?thesis using same[OF xy(1)] assms(5,6) by (simp add: xlate_def) (simp add: t_def load_store)
    next
      case False
      then have "(table (mem s) d x', y') \<noteq> (table (mem s) d x, y)" using ok(4)[OF xy(1) assms(3) True assms(5)] by auto
      then have "load32 (mem t) (table (mem s) d x' + 4 * y') = load32 (mem s) (table (mem s) d x' + 4 * y')"
        unfolding t_def using load_store_pages[OF conjunct1[OF T'] conjunct1[OF T] xy(2) assms(4)] by simp
      then show ?thesis using same[OF xy(1)] False by (auto simp: xlate_def)
    qed
  qed
qed

text \<open>A new table: a page from the free list, cleared and entered into the directory.\<close>

lemma new_table:
  assumes "kmem_ok s (v # qs)" "pgdir_ok s (v # qs) d" "unat x < 1024" "\<not> present (mem s) d x"
  defines "t \<equiv> s\<lparr>freelist := load32 (mem s) v, mem := store32 (d + 4 * x) (v OR PTE_P OR PTE_W OR PTE_U) (fill v 0 PGSIZE (mem s))\<rparr>"
  shows "kmem_ok t qs" "pgdir_ok t qs d" "present (mem t) d x" "table (mem t) d x = v"
    "\<And>x' y'. unat x' < 1024 \<Longrightarrow> unat y' < 1024 \<Longrightarrow> xlate (mem t) d x' y' = xlate (mem s) d x' y'"
proof -
  note ok = pgdir_okD[OF assms(2)]
  let ?e = "v OR PTE_P OR PTE_W OR PTE_U"
  have v: "page_ok s v" "v \<notin> set qs" "v \<noteq> d" using assms(1) ok(2) by (auto simp: kmem_ok_def)
  have al: "unat v mod 4096 = 0" using page_aligned[OF v(1)] by auto
  have e: "PTE_ADDR ?e = v" "?e AND PTE_P \<noteq> 0"
    using entry_parts[OF al, of 7] by (simp_all add: PTE_P_def PTE_W_def PTE_U_def or.assoc)
  have other: "load32 (mem t) (p + 4 * i) = (if p = v then 0 else load32 (mem s) (p + 4 * i))" if "page_ok s p" "unat i < 1024" "(p, i) \<noteq> (d, x)" for p i
    unfolding t_def using load_store_pages[OF that(1) ok(1) that(2) assms(3) that(3)] load_fill[OF that(1) v(1) that(2)] by simp
  have here: "pde (mem t) d x = ?e" by (simp add: pde_def t_def load_store)
  have pd: "pde (mem t) d x' = (if x' = x then ?e else pde (mem s) d x')" if "unat x' < 1024" for x'
    using other[OF ok(1) that] here v(3) by (auto simp: pde_def)
  then show px: "present (mem t) d x" "table (mem t) d x = v" using here e by (simp_all add: present_def table_def)
  have same: "present (mem t) d x' = present (mem s) d x'" "table (mem t) d x' = table (mem s) d x'" if "unat x' < 1024" "x' \<noteq> x" for x'
    using pd[OF that(1)] that(2) by (simp_all add: present_def table_def)
  have pg: "page_ok t p = page_ok s p" for p by (simp add: t_def page_ok_def)
  show "pgdir_ok t qs d"
    unfolding pgdir_ok_def pg
  proof (intro conjI allI impI)
    show "page_ok s d" "d \<notin> set qs" using ok(1,2) by simp_all
    fix x' assume x': "unat x' < 1024" "present (mem t) d x'"
    show "page_ok s (table (mem t) d x')" "table (mem t) d x' \<notin> set qs" "table (mem t) d x' \<noteq> d"
      using x' px v same[of x'] ok(3)[of x'] by (cases "x' = x"; simp)+
  next
    fix x' y' assume xy: "unat x' < 1024" "unat y' < 1024" "present (mem t) d x'" "present (mem t) d y'" "table (mem t) d x' = table (mem t) d y'"
    show "x' = y'"
      using xy px same[of x'] same[of y'] ok(3)[of x'] ok(3)[of y'] ok(4)[of x' y'] by (cases "x' = x"; cases "y' = x") auto
  qed
  have "kmem_ok (s\<lparr>freelist := load32 (mem s) v\<rparr>) qs" using assms(1) by (auto simp: kmem_ok_def page_ok_def)
  moreover have "load32 (mem t) a = load32 (mem s) a" if "a \<in> set qs" for a
  proof -
    have "page_ok s a" "a \<noteq> v" "a \<noteq> d" using that assms(1) ok(2) by (auto simp: kmem_ok_def)
    then show ?thesis using other[of a 0] by simp
  qed
  ultimately show "kmem_ok t qs" using kmem_ok_mem[of "s\<lparr>freelist := load32 (mem s) v\<rparr>" qs "mem t"] by (simp add: t_def)
  fix x' y' :: "32 word" assume xy: "unat x' < 1024" "unat y' < 1024"
  show "xlate (mem t) d x' y' = xlate (mem s) d x' y'"
  proof (cases "x' = x")
    case True
    have "load32 (mem t) (v + 4 * y') = 0" using other[OF v(1) xy(2)] v(3) by simp
    then show ?thesis using True px assms(4) by (simp add: xlate_def)
  next
    case False
    show ?thesis
    proof (cases "present (mem s) d x'")
      case True
      note T' = ok(3)[OF xy(1) True]
      then have "load32 (mem t) (table (mem s) d x' + 4 * y') = load32 (mem s) (table (mem s) d x' + 4 * y')"
        using other[of "table (mem s) d x'" y'] xy(2) by auto
      then show ?thesis using same[OF xy(1) False] by (simp add: xlate_def)
    next
      case False
      then show ?thesis using same[OF xy(1) \<open>x' \<noteq> x\<close>] by (simp add: xlate_def)
    qed
  qed
qed

lemma walk_create:
  assumes "kmem_ok s ps" "pgdir_ok s ps d"
  obtains (none) "ps = []" "walkpgdir d a True s = Ok (0, s)"
  | (entry) t qs where "walkpgdir d a True s = Ok (table (mem t) d (PDX a) + 4 * PTX a, t)" "kmem_ok t qs" "pgdir_ok t qs d"
    "present (mem t) d (PDX a)" "\<And>x y. unat x < 1024 \<Longrightarrow> unat y < 1024 \<Longrightarrow> xlate (mem t) d x y = xlate (mem s) d x y"
    "length ps \<le> Suc (length qs)"
proof (cases "present (mem s) d (PDX a)")
  case True
  then have "walkpgdir d a True s = Ok (table (mem s) d (PDX a) + 4 * PTX a, s)"
    by (simp add: walkpgdir_def mem_load_def present_def table_def pde_def)
  then show thesis using True assms by (intro entry[of s ps]) simp_all
next
  case False
  show thesis
  proof (cases ps)
    case Nil
    then have "kalloc s = Ok (0, s)" using kmem.alloc_none assms(1) by blast
    then have "walkpgdir d a True s = Ok (0, s)" using False by (simp add: walkpgdir_def mem_load_def present_def pde_def andthen_Ok)
    then show thesis using Nil by (intro none)
  next
    case (Cons v qs)
    let ?t = "s\<lparr>freelist := load32 (mem s) v, mem := store32 (d + 4 * PDX a) (v OR PTE_P OR PTE_W OR PTE_U) (fill v 0 PGSIZE (mem s))\<rparr>"
    have v: "v \<noteq> 0" "freelist s = v" using assms(1) Cons by (auto simp: kmem_ok_def)
    note nt = new_table[OF assms[unfolded Cons] index_less(1) False]
    have "walkpgdir d a True s = Ok (v + 4 * PTX a, ?t)"
      using False v by (simp add: walkpgdir_def mem_load_def present_def pde_def andthen_Ok kalloc_def mem_set_def mem_store_def)
    then show thesis using nt Cons by (intro entry[of ?t qs]) simp_all
  qed
qed

section \<open>mappages\<close>

definition map_page :: "32 word \<Rightarrow> 32 word \<Rightarrow> 32 word \<Rightarrow> ('z kmem_scheme, int) comp \<Rightarrow> ('z kmem_scheme, int) comp" where
  "map_page d a e f =
     andthen (walkpgdir d a True) (\<lambda>pte.
     if pte = 0 then ret (-1)
     else
       andthen (mem_load pte) (\<lambda>old.
       andthen (check (old AND PTE_P = 0) ''remap'') (\<lambda>_.
       andthen (mem_store pte e) (\<lambda>_. f))))"

lemma map_page_cases:
  assumes "kmem_ok s ps" "pgdir_ok s ps d" "e AND PTE_P \<noteq> 0"
  obtains (none) "ps = []" "map_page d a e f s = Ok (-1, s)"
  | (remap) "map_page d a e f s = Panic ''remap''" "mmu (mem s) d a \<noteq> None"
  | (mapped) t qs where "map_page d a e f s = f t" "kmem_ok t qs" "pgdir_ok t qs d" "length ps \<le> Suc (length qs)"
    "\<And>v. mmu (mem t) d v = (if unat v div 4096 = unat a div 4096 then Some (PTE_ADDR e + (v AND 0xFFF)) else mmu (mem s) d v)"
  using assms(1,2)
proof (cases rule: walk_create[where a = a])
  case none
  then have "map_page d a e f s = Ok (-1, s)" by (simp add: map_page_def andthen_Ok)
  then show thesis using none(1) that(1) by blast
next
  case (entry t qs)
  let ?x = "PDX a" and ?y = "PTX a"
  let ?pte = "table (mem t) d ?x + 4 * ?y"
  have "page_ok t (table (mem t) d ?x)" using pgdir_okD(3)[OF entry(3) index_less(1) entry(4)] by simp
  then have nz: "?pte \<noteq> 0" using word_nonzero[OF entry(2) _ index_less(2)] by simp
  have run: "map_page d a e f s = (if load32 (mem t) ?pte AND PTE_P = 0 then f (t\<lparr>mem := store32 ?pte e (mem t)\<rparr>) else Panic ''remap'')"
    using entry(1) nz by (simp add: map_page_def andthen_Ok mem_load_def mem_store_def)
  show thesis
  proof (cases "load32 (mem t) ?pte AND PTE_P = 0")
    case False
    then have "xlate (mem t) d ?x ?y \<noteq> None" using entry(4) by (simp add: xlate_def)
    then have "mmu (mem s) d a \<noteq> None" using entry(5)[OF index_less] by (simp add: mmu_xlate)
    then show thesis using run False that(2) by simp
  next
    case True
    let ?u = "t\<lparr>mem := store32 ?pte e (mem t)\<rparr>"
    note se = set_entry[OF entry(2,3) index_less(1,2) entry(4) assms(3)]
    have "mmu (mem ?u) d v = (if unat v div 4096 = unat a div 4096 then Some (PTE_ADDR e + (v AND 0xFFF)) else mmu (mem s) d v)" for v
      unfolding mmu_xlate se(3)[OF index_less] entry(5)[OF index_less] same_page_iff by simp
    then show thesis using that(3)[of ?u qs] run True se(1,2) entry(6) by simp
  qed
qed

lemma mappages_from_page:
  "mappages_from d 0 a pa perm = map_page d a (pa OR perm OR PTE_P) (ret 0)"
  "mappages_from d (Suc n) a pa perm = map_page d a (pa OR perm OR PTE_P) (mappages_from d n (a + of_nat PGSIZE) (pa + of_nat PGSIZE) perm)"
  by (simp_all add: map_page_def)

declare mappages_from.simps [simp del]

definition in_pages :: "32 word \<Rightarrow> nat \<Rightarrow> 32 word \<Rightarrow> bool" where
  "in_pages a n v \<longleftrightarrow> unat a \<le> unat v \<and> unat v < unat a + n * 4096"

lemma page_offset: "unat (a :: 32 word) mod 4096 = 0 \<Longrightarrow> unat v div 4096 = unat a div 4096 \<Longrightarrow> v AND 0xFFF = v - a"
proof -
  assume a: "unat a mod 4096 = 0" "unat v div 4096 = unat a div 4096"
  have "unat a = unat v - unat v mod 4096" using a by (metis div_mult_mod_eq add.right_neutral minus_mod_eq_div_mult)
  then have "a = PTE_ADDR v" by (simp add: word_unat_eq_iff PTE_ADDR_unat)
  then show ?thesis by (simp add: PTE_ADDR_low)
qed

lemma in_page_iff: "unat a mod 4096 = 0 \<Longrightarrow> in_pages a 1 v \<longleftrightarrow> unat v div 4096 = unat a div 4096"
  unfolding in_pages_def by auto

lemma next_page:
  assumes "unat a mod 4096 = 0" "unat a + Suc (Suc n) * 4096 \<le> 2 ^ 32"
  shows "unat (a + of_nat PGSIZE) = unat a + 4096" "in_pages a (Suc (Suc n)) v \<longleftrightarrow> in_pages a 1 v \<or> in_pages (a + of_nat PGSIZE) (Suc n) v"
    "\<not> (in_pages a 1 v \<and> in_pages (a + of_nat PGSIZE) (Suc n) v)"
proof -
  show u: "unat (a + of_nat PGSIZE) = unat a + 4096" using assms(2) by (subst unat_add_lem[THEN iffD1]) (simp_all add: PGSIZE_def)
  show "in_pages a (Suc (Suc n)) v \<longleftrightarrow> in_pages a 1 v \<or> in_pages (a + of_nat PGSIZE) (Suc n) v"
    "\<not> (in_pages a 1 v \<and> in_pages (a + of_nat PGSIZE) (Suc n) v)" unfolding in_pages_def u by auto
qed

lemma aligned_next: "unat (p :: 32 word) mod 4096 = 0 \<Longrightarrow> unat (p + of_nat PGSIZE) mod 4096 = 0"
proof -
  assume p: "unat p mod 4096 = 0"
  have "unat (p + of_nat PGSIZE) = (unat p + 4096) mod 2 ^ 32" by (simp add: PGSIZE_def unat_word_ariths(1))
  then have "unat (p + of_nat PGSIZE) mod 4096 = (unat p + 4096) mod 4096" by (simp add: mod_mod_cancel)
  then show ?thesis using p by simp
qed

lemma mappages_from_extends:
  assumes "kmem_ok s ps" "pgdir_ok s ps d" "unat a mod 4096 = 0" "unat pa mod 4096 = 0" "unat perm < 4096" "unat a + Suc n * 4096 \<le> 2 ^ 32"
  shows "(\<exists>t qs. mappages_from d n a pa perm s = Ok (0, t) \<and> kmem_ok t qs \<and> pgdir_ok t qs d \<and>
      (\<forall>v. mmu (mem t) d v = (if in_pages a (Suc n) v then Some (pa + (v - a)) else mmu (mem s) d v))) \<or>
    (length ps \<le> n \<and> (\<exists>t. mappages_from d n a pa perm s = Ok (-1, t) \<and> kmem_ok t [] \<and> pgdir_ok t [] d)) \<or>
    (mappages_from d n a pa perm s = Panic ''remap'' \<and> (\<exists>v. in_pages a (Suc n) v \<and> mmu (mem s) d v \<noteq> None))"
  using assms
proof (induction n arbitrary: s ps a pa)
  case 0
  let ?e = "pa OR perm OR PTE_P"
  have e: "PTE_ADDR ?e = pa" "?e AND PTE_P \<noteq> 0" using entry_flags[OF 0(4,5)] by simp_all
  have off: "in_pages a 1 v \<longleftrightarrow> unat v div 4096 = unat a div 4096" "in_pages a 1 v \<Longrightarrow> v AND 0xFFF = v - a" for v
    using in_page_iff[OF 0(3)] page_offset[OF 0(3)] by simp_all
  have a: "in_pages a 1 a" by (simp add: in_pages_def)
  show ?case
    using 0(1,2) e(2)
  proof (cases rule: map_page_cases[where a = a and f = "ret 0"])
    case none
    then show ?thesis using 0(1,2) by (simp add: mappages_from_page)
  next
    case remap
    then show ?thesis using a by (auto simp: mappages_from_page)
  next
    case (mapped t qs)
    then have "\<forall>v. mmu (mem t) d v = (if in_pages a 1 v then Some (pa + (v - a)) else mmu (mem s) d v)" using off e(1) by auto
    then show ?thesis using mapped(1-3) by (auto simp: mappages_from_page)
  qed
next
  case (Suc n)
  let ?e = "pa OR perm OR PTE_P"
  let ?a = "a + of_nat PGSIZE" and ?pa = "pa + of_nat PGSIZE"
  have e: "PTE_ADDR ?e = pa" "?e AND PTE_P \<noteq> 0" using entry_flags[OF Suc.prems(4,5)] by simp_all
  have off: "in_pages a 1 v \<longleftrightarrow> unat v div 4096 = unat a div 4096" "in_pages a 1 v \<Longrightarrow> v AND 0xFFF = v - a" for v
    using in_page_iff[OF Suc.prems(3)] page_offset[OF Suc.prems(3)] by simp_all
  note np = next_page[OF Suc.prems(3,6)]
  have pa: "unat ?pa mod 4096 = 0" by (rule aligned_next[OF Suc.prems(4)])
  have sub: "?pa + (v - ?a) = pa + (v - a)" for v by simp
  show ?case
    using Suc.prems(1,2) e(2)
  proof (cases rule: map_page_cases[where a = a and f = "mappages_from d n ?a ?pa perm"])
    case none
    then show ?thesis using Suc.prems(1,2) by (simp add: mappages_from_page)
  next
    case remap
    moreover have "in_pages a (Suc (Suc n)) a" by (simp add: in_pages_def)
    ultimately show ?thesis by (auto simp: mappages_from_page)
  next
    case (mapped t qs)
    have run: "mappages_from d (Suc n) a pa perm s = mappages_from d n ?a ?pa perm t" using mapped(1) by (simp add: mappages_from_page)
    have m: "mmu (mem t) d v = (if in_pages a 1 v then Some (pa + (v - a)) else mmu (mem s) d v)" for v using mapped(5) off e(1) by auto
    have a: "unat ?a mod 4096 = 0" "unat ?a + Suc n * 4096 \<le> 2 ^ 32" using np(1) Suc.prems(3,6) by simp_all
    from Suc.IH[OF mapped(2,3) a(1) pa Suc.prems(5) a(2)] show ?thesis
    proof (elim disjE exE conjE)
      fix u rs
      assume u: "mappages_from d n ?a ?pa perm t = Ok (0, u)" "kmem_ok u rs" "pgdir_ok u rs d"
        "\<forall>v. mmu (mem u) d v = (if in_pages ?a (Suc n) v then Some (?pa + (v - ?a)) else mmu (mem t) d v)"
      have "mmu (mem u) d v = (if in_pages a (Suc (Suc n)) v then Some (pa + (v - a)) else mmu (mem s) d v)" for v
        using u(4)[rule_format, of v] m[of v] np(2)[of v] unfolding sub by (cases "in_pages ?a (Suc n) v") simp_all
      then show ?thesis using u(1-3) run by auto
    next
      fix u assume "length qs \<le> n" "mappages_from d n ?a ?pa perm t = Ok (-1, u)" "kmem_ok u []" "pgdir_ok u [] d"
      then show ?thesis using run mapped(4) by auto
    next
      fix v assume v: "mappages_from d n ?a ?pa perm t = Panic ''remap''" "in_pages ?a (Suc n) v" "mmu (mem t) d v \<noteq> None"
      then have "mmu (mem s) d v \<noteq> None" "in_pages a (Suc (Suc n)) v" using m[of v] np(2,3)[of v] by auto
      then show ?thesis using v(1) run by auto
    qed
  qed
qed

text \<open>
  C39. \<open>mappages\<close> on a page-aligned range extends what the processor translates by exactly that range: every address in it goes to the
  address with the same offset from \<open>pa\<close>, every other address is translated as before, and directory, tables and free list stay well formed.
  It returns -1 only if there were fewer free pages than pages to map, and panics just when one of them is mapped already.
\<close>

theorem mappages_extends:
  assumes "kmem_ok s ps" "pgdir_ok s ps d" "unat va mod 4096 = 0" "unat pa mod 4096 = 0" "unat perm < 4096" "unat va + Suc n * 4096 \<le> 2 ^ 32"
  defines "run \<equiv> mappages d va (of_nat (Suc n * 4096)) pa perm s"
  shows "(\<exists>t qs. run = Ok (0, t) \<and> kmem_ok t qs \<and> pgdir_ok t qs d \<and>
      (\<forall>v. mmu (mem t) d v = (if in_pages va (Suc n) v then Some (pa + (v - va)) else mmu (mem s) d v))) \<or>
    (length ps \<le> n \<and> (\<exists>t. run = Ok (-1, t) \<and> kmem_ok t [] \<and> pgdir_ok t [] d)) \<or>
    (run = Panic ''remap'' \<and> (\<exists>v. in_pages va (Suc n) v \<and> mmu (mem s) d v \<noteq> None))"
proof -
  let ?last = "va + of_nat (Suc n * 4096) - 1"
  have "unat va < 2 ^ 32" using unsigned_less[of va, where ?'a = nat] by simp
  define l where "l = Suc n * 4096 - 1"
  have l: "unat va + l < 2 ^ 32" "of_nat (Suc n * 4096) = (of_nat l + 1 :: 32 word)" using assms(6) by (simp_all add: l_def of_nat_diff)
  have len: "?last = va + of_nat l" unfolding l(2) by simp
  have small: "unat (of_nat l :: 32 word) = l" using l(1) by (simp add: unat_of_nat take_bit_nat_eq_self)
  have "unat ?last = unat va + l" unfolding len using l(1) small by (subst unat_add_lem[THEN iffD1]) simp_all
  then have u: "unat ?last = unat va + (Suc n * 4096 - 1)" by (simp only: l_def)
  obtain k where k: "unat va = 4096 * k" using assms(3) by auto
  have "unat ?last mod 4096 = 4095" unfolding u k by (simp add: mod_add_eq)
  then have "unat (PGROUNDDOWN ?last) = unat va + n * 4096" using PTE_ADDR_unat[of ?last] u by (simp add: PGROUNDDOWN_def PTE_ADDR_def)
  moreover have a: "PGROUNDDOWN va = va" using PTE_ADDR_aligned[OF assms(3)] by (simp add: PGROUNDDOWN_def PTE_ADDR_def)
  ultimately have "unat (PGROUNDDOWN ?last - va) div PGSIZE = n"
    by (simp add: unat_sub word_le_nat_alt PGSIZE_def)
  then have "run = mappages_from d n va pa perm s" unfolding run_def mappages_def Let_def by (simp only: a)
  then show ?thesis using mappages_from_extends[OF assms(1-6)] by simp
qed

text \<open>An empty directory and one free page.\<close>

definition demo_vm :: kmem where
  "demo_vm = demo_kmem\<lparr>freelist := 0x300000\<rparr>"

lemma demo_vm_load: "load32 (mem demo_vm) a = 0"
  by (simp add: demo_vm_def demo_kmem_def load32_def rd32_def)

lemma demo_vm_ok: "kmem_ok demo_vm [0x300000]" "pgdir_ok demo_vm [0x300000] 0x200000"
  by (simp_all add: kmem_ok_def pgdir_ok_def demo_vm_load present_def pde_def)
    (simp_all add: demo_vm_def demo_kmem_def page_ok_def PGSIZE_def PHYSTOP_def)

theorem mappages_extends_witness:
  "\<exists>t qs. mappages 0x200000 0x5000 0x1000 0x400000 6 demo_vm = Ok (0, t) \<and> pgdir_ok t qs 0x200000 \<and>
    mmu (mem t) 0x200000 0x5678 = Some 0x400678 \<and> mmu (mem t) 0x200000 0x6000 = None"
proof -
  have none: "mmu (mem demo_vm) 0x200000 v = None" for v by (simp add: mmu_xlate xlate_def present_def pde_def demo_vm_load)
  have "in_pages 0x5000 1 0x5678" "\<not> in_pages 0x5000 1 0x6000" by (simp_all add: in_pages_def)
  then show ?thesis
    using mappages_extends[OF demo_vm_ok, of "0x5000" "0x400000" 6 0] none by auto
qed

end
