(* ===== verification/User_Grep.thy ===== *)
theory User_Grep
  imports Prelude
begin

text \<open>
  The regular expressions of \<open>xv6/user/grep.c\<close>. A C string is the list of its characters, without the terminator; a test for
  \<open>'\0'\<close> is a test for the empty list. The reference is the set of texts that a pattern denotes, item by item.
\<close>

section \<open>The matcher\<close>

function (sequential) matchhere :: "string \<Rightarrow> string \<Rightarrow> bool" and matchstar :: "char \<Rightarrow> string \<Rightarrow> string \<Rightarrow> bool" where
  "matchhere re text =
     (if re = [] then True
      else if tl re \<noteq> [] \<and> re ! 1 = CHR ''*'' then matchstar (re ! 0) (drop 2 re) text
      else if re ! 0 = CHR ''$'' \<and> tl re = [] then text = []
      else if text \<noteq> [] \<and> (re ! 0 = CHR ''.'' \<or> re ! 0 = text ! 0) then matchhere (drop 1 re) (drop 1 text)
      else False)"
| "matchstar c re text =
     (if matchhere re text then True
      else if text \<noteq> [] \<and> (text ! 0 = c \<or> c = CHR ''.'') then matchstar c re (drop 1 text)
      else False)"
  by pat_completeness auto
termination
  by (relation "measures [case_sum (\<lambda>(re, text). length re) (\<lambda>(c, re, text). length re), case_sum (\<lambda>_. 0) (\<lambda>(c, re, text). Suc (length text))]")
    (auto simp: neq_Nil_conv)

declare matchhere.simps [simp del] matchstar.simps [simp del]

text \<open>The loop of \<open>match\<close> also tries the empty text.\<close>

primrec match_from :: "string \<Rightarrow> string \<Rightarrow> bool" where
  "match_from re [] = matchhere re []"
| "match_from re (x # text) = (if matchhere re (x # text) then True else match_from re text)"

definition match :: "string \<Rightarrow> string \<Rightarrow> bool" where
  "match re text = (if re \<noteq> [] \<and> re ! 0 = CHR ''^'' then matchhere (drop 1 re) text else match_from re text)"

section \<open>What a pattern denotes\<close>

datatype item = One char | Star char

fun items :: "string \<Rightarrow> item list" where
  "items [] = []"
| "items (c # d # re) = (if d = CHR ''*'' then Star c # items re else One c # items (d # re))"
| "items [c] = (if c = CHR ''$'' then [] else [One c])"

text \<open>The pattern ends in \<open>$\<close> as an operator.\<close>

fun anchored :: "string \<Rightarrow> bool" where
  "anchored [] = False"
| "anchored (c # d # re) = (if d = CHR ''*'' then anchored re else anchored (d # re))"
| "anchored [c] = (c = CHR ''$'')"

definition admits :: "char \<Rightarrow> char \<Rightarrow> bool" where
  "admits c x \<longleftrightarrow> c = CHR ''.'' \<or> x = c"

fun item_texts :: "item \<Rightarrow> string set" where
  "item_texts (One c) = {[x] | x. admits c x}"
| "item_texts (Star c) = {w. \<forall>x \<in> set w. admits c x}"

fun texts :: "item list \<Rightarrow> string set" where
  "texts [] = {[]}"
| "texts (i # is) = {u @ v | u v. u \<in> item_texts i \<and> v \<in> texts is}"

text \<open>A prefix of the text is denoted by the items, all of it if the pattern is anchored at the end.\<close>

definition prefix_match :: "item list \<Rightarrow> bool \<Rightarrow> string \<Rightarrow> bool" where
  "prefix_match is e text \<longleftrightarrow> (\<exists>u v. text = u @ v \<and> u \<in> texts is \<and> (e \<longrightarrow> v = []))"

lemma prefix_match_nil [simp]: "prefix_match [] e text \<longleftrightarrow> \<not> e \<or> text = []"
  by (auto simp: prefix_match_def)

lemma prefix_match_one:
  "prefix_match (One c # is) e text \<longleftrightarrow> (case text of [] \<Rightarrow> False | x # t \<Rightarrow> admits c x \<and> prefix_match is e t)"
proof (cases "text")
  case (Cons x t)
  have "(\<exists>u v. x # t = u @ v \<and> u \<in> texts (One c # is) \<and> (e \<longrightarrow> v = [])) \<longleftrightarrow> admits c x \<and> (\<exists>u v. t = u @ v \<and> u \<in> texts is \<and> (e \<longrightarrow> v = []))"
  proof
    assume "\<exists>u v. x # t = u @ v \<and> u \<in> texts (One c # is) \<and> (e \<longrightarrow> v = [])"
    then obtain u v where u: "x # t = u @ v" "u \<in> texts (One c # is)" "e \<longrightarrow> v = []" by blast
    from u(2) obtain y w where "u = [y] @ w" "admits c y" "w \<in> texts is" unfolding texts.simps item_texts.simps mem_Collect_eq by blast
    then have "x # t = (y # w) @ v" "admits c y" "w \<in> texts is" "e \<longrightarrow> v = []" using u by simp_all
    then show "admits c x \<and> (\<exists>u v. t = u @ v \<and> u \<in> texts is \<and> (e \<longrightarrow> v = []))" by auto
  next
    assume "admits c x \<and> (\<exists>u v. t = u @ v \<and> u \<in> texts is \<and> (e \<longrightarrow> v = []))"
    then obtain u v where "admits c x" "t = u @ v" "u \<in> texts is" "e \<longrightarrow> v = []" by blast
    moreover from this have "x # u \<in> texts (One c # is)"
      unfolding texts.simps item_texts.simps mem_Collect_eq by (intro exI[of _ "[x]"] exI[of _ u]) simp
    ultimately have "x # t = (x # u) @ v \<and> x # u \<in> texts (One c # is) \<and> (e \<longrightarrow> v = [])" by simp
    then show "\<exists>u v. x # t = u @ v \<and> u \<in> texts (One c # is) \<and> (e \<longrightarrow> v = [])" by blast
  qed
  then show ?thesis by (simp add: prefix_match_def Cons)
qed (auto simp: prefix_match_def)

lemma prefix_match_star:
  "prefix_match (Star c # is) e text \<longleftrightarrow>
    prefix_match is e text \<or> (case text of [] \<Rightarrow> False | x # t \<Rightarrow> admits c x \<and> prefix_match (Star c # is) e t)" (is "?l \<longleftrightarrow> ?r")
proof
  assume ?l
  then obtain a b v where t: "text = (a @ b) @ v" "\<forall>x \<in> set a. admits c x" "b \<in> texts is" "e \<longrightarrow> v = []"
    unfolding prefix_match_def texts.simps item_texts.simps mem_Collect_eq by blast
  show ?r
  proof (cases a)
    case Nil
    then show ?thesis using t by (auto simp: prefix_match_def)
  next
    case (Cons x a')
    then have "prefix_match (Star c # is) e (a' @ b @ v)"
      using t unfolding prefix_match_def by (intro exI[of _ "a' @ b"] exI[of _ v]) auto
    then show ?thesis using t Cons by simp
  qed
next
  assume ?r
  then show ?l
  proof
    assume "prefix_match is e text"
    then obtain u v where "text = u @ v" "u \<in> texts is" "e \<longrightarrow> v = []" by (auto simp: prefix_match_def)
    then have "text = u @ v \<and> u \<in> texts (Star c # is) \<and> (e \<longrightarrow> v = [])" by (auto intro: exI[of _ "[]"])
    then show ?l unfolding prefix_match_def by blast
  next
    assume "case text of [] \<Rightarrow> False | x # t \<Rightarrow> admits c x \<and> prefix_match (Star c # is) e t"
    then obtain x t where x: "text = x # t" "admits c x" and m: "prefix_match (Star c # is) e t" by (cases "text") auto
    from m obtain a b v where t: "t = (a @ b) @ v" "\<forall>x \<in> set a. admits c x" "b \<in> texts is" "e \<longrightarrow> v = []"
      unfolding prefix_match_def texts.simps item_texts.simps mem_Collect_eq by blast
    have "(x # a) @ b \<in> texts (Star c # is)" unfolding texts.simps item_texts.simps mem_Collect_eq
      by (intro exI[of _ "x # a"] exI[of _ b]) (use x t in simp)
    then have "text = ((x # a) @ b) @ v \<and> (x # a) @ b \<in> texts (Star c # is) \<and> (e \<longrightarrow> v = [])" using x t by simp
    then show ?l unfolding prefix_match_def by blast
  qed
qed

section \<open>Correctness\<close>

lemma matchstar_spec:
  assumes "\<And>text. matchhere re text \<longleftrightarrow> prefix_match (items re) (anchored re) text"
  shows "matchstar c re text \<longleftrightarrow> prefix_match (Star c # items re) (anchored re) text"
proof (induction "text")
  case Nil
  show ?case by (subst matchstar.simps, subst prefix_match_star) (simp add: assms)
next
  case (Cons x "text")
  show ?case by (subst matchstar.simps, subst prefix_match_star) (auto simp: assms Cons admits_def)
qed

lemma matchhere_spec: "matchhere re text \<longleftrightarrow> prefix_match (items re) (anchored re) text"
proof (induction "length re" arbitrary: re "text" rule: less_induct)
  case less
  show ?case
  proof (cases re rule: items.cases)
    case 1
    then show ?thesis by (simp add: matchhere.simps)
  next
    case (2 c d re')
    show ?thesis
    proof (cases "d = CHR ''*''")
      case True
      have "matchstar c re' text \<longleftrightarrow> prefix_match (Star c # items re') (anchored re') text"
        by (rule matchstar_spec, rule less) (simp add: 2)
      then show ?thesis using True by (simp add: 2 matchhere.simps)
    next
      case False
      have "matchhere (d # re') t \<longleftrightarrow> prefix_match (items (d # re')) (anchored (d # re')) t" for t
        by (rule less) (simp add: 2)
      moreover have "matchhere re text \<longleftrightarrow> (case text of [] \<Rightarrow> False | x # t \<Rightarrow> admits c x \<and> matchhere (d # re') t)"
        by (subst matchhere.simps) (use False in \<open>auto simp: 2 admits_def split: list.split\<close>)
      ultimately show ?thesis using False by (cases "text") (simp_all add: 2 prefix_match_one)
    qed
  next
    case (3 c)
    have nil: "matchhere [] t" for t by (simp add: matchhere.simps)
    show ?thesis by (subst matchhere.simps, cases "text") (auto simp: 3 nil prefix_match_one admits_def)
  qed
qed

lemma match_from_spec: "match_from re text \<longleftrightarrow> (\<exists>p s. text = p @ s \<and> matchhere re s)"
proof (induction "text")
  case (Cons x "text")
  have "(\<exists>p s. x # text = p @ s \<and> matchhere re s) \<longleftrightarrow> matchhere re (x # text) \<or> (\<exists>p s. text = p @ s \<and> matchhere re s)"
  proof
    assume "\<exists>p s. x # text = p @ s \<and> matchhere re s"
    then obtain p s where "x # text = p @ s" "matchhere re s" by blast
    then show "matchhere re (x # text) \<or> (\<exists>p s. text = p @ s \<and> matchhere re s)" by (cases p) auto
  next
    assume "matchhere re (x # text) \<or> (\<exists>p s. text = p @ s \<and> matchhere re s)"
    then show "\<exists>p s. x # text = p @ s \<and> matchhere re s" by (metis append_Cons append_Nil)
  qed
  then show ?case using Cons by auto
qed simp

text \<open>
  C35. \<open>match\<close> decides what the pattern means: read as a sequence of characters, \<open>.\<close> and starred items, it matches just if some part of the
  text is denoted by it, at the start of the text after \<open>^\<close> and at its end before a final \<open>$\<close>. It always terminates, although
  the two routines call each other.
\<close>

theorem match_correct:
  "match re text \<longleftrightarrow>
     (if re \<noteq> [] \<and> hd re = CHR ''^''
      then \<exists>u v. text = u @ v \<and> u \<in> texts (items (tl re)) \<and> (anchored (tl re) \<longrightarrow> v = [])
      else \<exists>p u v. text = p @ u @ v \<and> u \<in> texts (items re) \<and> (anchored re \<longrightarrow> v = []))"
proof (cases "re \<noteq> [] \<and> hd re = CHR ''^''")
  case True
  moreover from this have "re ! 0 = CHR ''^''" by (auto simp: hd_conv_nth)
  ultimately show ?thesis by (simp add: match_def drop_Suc matchhere_spec prefix_match_def)
next
  case False
  then have "match re text \<longleftrightarrow> (\<exists>p s. text = p @ s \<and> prefix_match (items re) (anchored re) s)"
    by (auto simp: match_def hd_conv_nth match_from_spec matchhere_spec)
  then show ?thesis using False unfolding prefix_match_def by auto
qed

theorem match_correct_witness:
  "match ''^a.*c$'' ''abbc'' \<and> (\<exists>u v. ''abbc'' = u @ v \<and> u \<in> texts (items ''a.*c$'') \<and> (anchored ''a.*c$'' \<longrightarrow> v = [])) \<and>
   \<not> match ''b$'' ''abbc'' \<and> \<not> (\<exists>p u v. ''abbc'' = p @ u @ v \<and> u \<in> texts (items ''b$'') \<and> (anchored ''b$'' \<longrightarrow> v = []))"
proof -
  have m: "match ''^a.*c$'' ''abbc''" "\<not> match ''b$'' ''abbc''"
    by (simp_all add: match_def matchhere.simps matchstar.simps)
  then show ?thesis using match_correct[of "''^a.*c$''" "''abbc''"] match_correct[of "''b$''" "''abbc''"] by simp
qed

end
