(* ===== verification/User_Lib.thy ===== *)
theory User_Lib
  imports Prelude
begin

text \<open>
  The library of user programs, \<open>xv6/user/ulib.c\<close> and \<open>xv6/user/printf.c\<close>, and \<open>cprintf\<close> of \<open>xv6/kernel/console.c\<close>, which prints
  numbers with the same routine. A C string is the list of its characters, without the terminator. What a program writes is the
  list of characters in the order of the calls of \<open>putc\<close>. Numbers are 32-bit words; \<open>int\<close> arithmetic wraps around.
\<close>

section \<open>ulib.c\<close>

text \<open>\<open>strcmp\<close> subtracts as \<open>uchar\<close>; the terminator counts as 0.\<close>

fun strcmp :: "string \<Rightarrow> string \<Rightarrow> int" where
  "strcmp [] [] = 0"
| "strcmp [] (d # q) = - int (of_char d)"
| "strcmp (c # p) [] = int (of_char c)"
| "strcmp (c # p) (d # q) = (if c = d then strcmp p q else int (of_char c) - int (of_char d))"

text \<open>The rest of the string from the first occurrence on, or \<open>None\<close> for a null pointer.\<close>

fun strchr :: "string \<Rightarrow> char \<Rightarrow> string option" where
  "strchr [] c = None"
| "strchr (d # s) c = (if d = c then Some (d # s) else strchr s c)"

definition is_digit :: "char \<Rightarrow> bool" where
  "is_digit c \<longleftrightarrow> 48 \<le> (of_char c :: nat) \<and> (of_char c :: nat) \<le> 57"

fun atoi_from :: "32 word \<Rightarrow> string \<Rightarrow> 32 word" where
  "atoi_from n [] = n"
| "atoi_from n (c # s) = (if is_digit c then atoi_from (n * 10 + of_nat (of_char c) - 48) s else n)"

definition atoi :: "string \<Rightarrow> 32 word" where
  "atoi s = atoi_from 0 s"

text \<open>The copy of \<open>memmove\<close> goes upwards only: \<open>n\<close> bytes from \<open>src\<close> to \<open>dst\<close> in memory \<open>m\<close>.\<close>

primrec umemmove :: "nat \<Rightarrow> nat \<Rightarrow> nat \<Rightarrow> 'b list \<Rightarrow> 'b list" where
  "umemmove dst src 0 m = m"
| "umemmove dst src (Suc n) m = umemmove (Suc dst) (Suc src) n (m[dst := m ! src])"

text \<open>
  \<open>gets\<close> reads single characters: \<open>inp\<close> is what is left of the input, at whose end \<open>read\<close> returns 0. At most \<open>k = max - 1\<close>
  characters are stored; the result is the string and the rest of the input.
\<close>

fun gets_from :: "nat \<Rightarrow> string \<Rightarrow> string \<times> string" where
  "gets_from 0 inp = ([], inp)"
| "gets_from (Suc k) [] = ([], [])"
| "gets_from (Suc k) (c # inp) =
     (if c = CHR 0x0A \<or> c = CHR 0x0D then ([c], inp) else let (s, rest) = gets_from k inp in (c # s, rest))"

definition ugets :: "int \<Rightarrow> string \<Rightarrow> string \<times> string" where
  "ugets n inp = gets_from (nat (n - 1)) inp"

section \<open>printf.c\<close>

definition udigits :: string where "udigits = ''0123456789ABCDEF''"
definition kdigits :: string where "kdigits = ''0123456789abcdef''"

definition base_of :: "bool \<Rightarrow> 32 word" where
  "base_of hex = (if hex then 16 else 10)"

text \<open>The loop of \<open>printint\<close>: the contents of \<open>buf\<close> from its start. The base is 10 or 16.\<close>

function digit_loop :: "string \<Rightarrow> bool \<Rightarrow> 32 word \<Rightarrow> string" where
  "digit_loop digits hex x =
     digits ! unat (x mod base_of hex) # (if x div base_of hex \<noteq> 0 then digit_loop digits hex (x div base_of hex) else [])"
  by pat_completeness auto
termination
proof (relation "measure (\<lambda>(digits, hex, x). unat x)")
  fix digits hex and x :: "32 word"
  assume "x div base_of hex \<noteq> 0"
  then have "x \<noteq> 0" by auto
  then show "((digits, hex, x div base_of hex), digits, hex, x) \<in> measure (\<lambda>(digits, hex, x). unat x)"
    by (auto simp: base_of_def unat_div unat_gt_0)
qed simp

declare digit_loop.simps [simp del]

definition print_buf :: "string \<Rightarrow> 32 word \<Rightarrow> bool \<Rightarrow> bool \<Rightarrow> string" where
  "print_buf digits xx hex sg =
     (let neg = (sg \<and> sint xx < 0); x = (if neg then - xx else xx)
      in digit_loop digits hex x @ (if neg then ''-'' else []))"

definition printint :: "string \<Rightarrow> 32 word \<Rightarrow> bool \<Rightarrow> bool \<Rightarrow> string" where
  "printint digits xx hex sg = rev (print_buf digits xx hex sg)"

text \<open>
  \<open>ap\<close> is the sequence of words behind \<open>fmt\<close> on the stack and \<open>str\<close> the string at an address. \<open>pct\<close> is \<open>state == '%'\<close>.
\<close>

definition cstring :: "(32 word \<Rightarrow> string) \<Rightarrow> 32 word \<Rightarrow> string" where
  "cstring str a = (if a = 0 then ''(null)'' else str a)"

fun printf_from :: "(32 word \<Rightarrow> string) \<Rightarrow> (nat \<Rightarrow> 32 word) \<Rightarrow> nat \<Rightarrow> bool \<Rightarrow> string \<Rightarrow> string" where
  "printf_from str ap k pct [] = []"
| "printf_from str ap k False (c # fmt) =
     (if c = CHR ''%'' then printf_from str ap k True fmt else c # printf_from str ap k False fmt)"
| "printf_from str ap k True (c # fmt) =
     (if c = CHR ''d'' then printint udigits (ap k) False True @ printf_from str ap (Suc k) False fmt
      else if c = CHR ''x'' \<or> c = CHR ''p'' then printint udigits (ap k) True False @ printf_from str ap (Suc k) False fmt
      else if c = CHR ''s'' then cstring str (ap k) @ printf_from str ap (Suc k) False fmt
      else if c = CHR ''c'' then char_of (unat (ap k)) # printf_from str ap (Suc k) False fmt
      else if c = CHR ''%'' then c # printf_from str ap k False fmt
      else CHR ''%'' # c # printf_from str ap k False fmt)"

definition printf :: "(32 word \<Rightarrow> string) \<Rightarrow> string \<Rightarrow> (nat \<Rightarrow> 32 word) \<Rightarrow> string" where
  "printf str fmt ap = printf_from str ap 0 False fmt"

fun cprintf_from :: "(32 word \<Rightarrow> string) \<Rightarrow> (nat \<Rightarrow> 32 word) \<Rightarrow> nat \<Rightarrow> string \<Rightarrow> string" where
  "cprintf_from str ap k [] = []"
| "cprintf_from str ap k [c] = (if c \<noteq> CHR ''%'' then [c] else [])"
| "cprintf_from str ap k (c # d # fmt) =
     (if c \<noteq> CHR ''%'' then c # cprintf_from str ap k (d # fmt)
      else if d = CHR ''d'' then printint kdigits (ap k) False True @ cprintf_from str ap (Suc k) fmt
      else if d = CHR ''x'' \<or> d = CHR ''p'' then printint kdigits (ap k) True False @ cprintf_from str ap (Suc k) fmt
      else if d = CHR ''s'' then cstring str (ap k) @ cprintf_from str ap (Suc k) fmt
      else if d = CHR ''%'' then d # cprintf_from str ap k fmt
      else CHR ''%'' # d # cprintf_from str ap k fmt)"

definition cprintf :: "(32 word \<Rightarrow> string) \<Rightarrow> string \<Rightarrow> (nat \<Rightarrow> 32 word) \<Rightarrow> string" where
  "cprintf str fmt ap = cprintf_from str ap 0 fmt"

section \<open>Numbers\<close>

text \<open>What the tables of digits have in common.\<close>

definition table_ok :: "string \<Rightarrow> bool" where
  "table_ok digits \<longleftrightarrow> list_all (\<lambda>d. digits ! d = char_of (48 + d)) [0..<10]"

lemma tables_ok: "table_ok udigits" "table_ok kdigits"
  by code_simp+

lemma digit_char: "d < 10 \<Longrightarrow> is_digit (char_of (48 + d)) \<and> (of_char (char_of (48 + d)) :: nat) = 48 + d"
  by (simp add: is_digit_def)

lemma atoi_snoc: "list_all is_digit s \<Longrightarrow> is_digit c \<Longrightarrow> atoi_from n (s @ [c]) = atoi_from n s * 10 + of_nat (of_char c) - 48"
  by (induction s arbitrary: n) auto

lemma digits_value:
  assumes "table_ok digits"
  shows "list_all is_digit (rev (digit_loop digits False x)) \<and> atoi_from 0 (rev (digit_loop digits False x)) = x"
proof (induction "unat x" arbitrary: x rule: less_induct)
  case less
  let ?q = "x div 10" and ?d = "unat (x mod 10)"
  have d: "?d < 10" by (simp add: unat_mod)
  have dig: "digits ! ?d = char_of (48 + ?d)" using assms d by (simp add: table_ok_def list_all_iff)
  note dc = digit_char[OF d]
  have sum: "?q * 10 + of_nat (48 + ?d) - 48 = x" using div_mult_mod_eq[of x 10] by (simp add: add.commute)
  show ?case
  proof (cases "?q = 0")
    case True
    then show ?thesis using dc dig sum by (subst (1 2) digit_loop.simps) (simp add: base_of_def)
  next
    case False
    then have "x \<noteq> 0" by auto
    then have "unat ?q < unat x" by (simp add: unat_div unat_gt_0)
    from less[OF this] show ?thesis
      using False dc dig sum by (subst (1 2) digit_loop.simps) (simp add: base_of_def atoi_snoc)
  qed
qed

lemma digits_length:
  assumes "unat x < unat (base_of hex) ^ Suc n"
  shows "length (digit_loop digits hex x) \<le> Suc n"
  using assms
proof (induction n arbitrary: x)
  case 0
  then have "x div base_of hex = 0" by (simp add: word_unat_eq_iff unat_div)
  then show ?case by (subst digit_loop.simps) simp
next
  case (Suc n)
  have b: "0 < unat (base_of hex)" by (simp add: base_of_def)
  have "unat (x div base_of hex) < unat (base_of hex) ^ Suc n"
    using Suc.prems b by (simp add: unat_div less_mult_imp_div_less mult.commute)
  then show ?case using Suc.IH by (subst digit_loop.simps) simp
qed

lemma print_buf_length: "length (print_buf digits xx hex sg) \<le> 11"
proof -
  have "unat (base_of hex) ^ Suc 9 \<ge> 2 ^ 32" by (simp add: base_of_def)
  then have "unat x < unat (base_of hex) ^ Suc 9" for x :: "32 word" using unsigned_less[of x, where ?'a = nat] by simp
  then have "length (digit_loop digits hex x) \<le> 10" for x using digits_length[of x hex 9 digits] by simp
  from le_SucI[OF this] this show ?thesis by (simp add: print_buf_def Let_def)
qed

text \<open>
  C36. Numbers survive printing and reading: for every \<open>int\<close> the kernel's and the library's \<open>%d\<close> print the same text. \<open>atoi\<close> reads a number that
  is not negative back; a negative one is printed with a minus sign, where \<open>atoi\<close> stops with 0, and behind it the digits that \<open>atoi\<close> reads
  as the magnitude, also for the least number, whose magnitude wraps around. The digits and the sign fit into the 16 bytes of the local
  buffer, in both bases.
\<close>

theorem printint_atoi_roundtrip:
  "printint kdigits n False True = printint udigits n False True \<and>
   atoi (printint udigits n False True) = (if sint n < 0 then 0 else n) \<and>
   (\<exists>ds. printint udigits n False True = (if sint n < 0 then ''-'' else []) @ ds \<and> list_all is_digit ds \<and> atoi ds = (if sint n < 0 then - n else n)) \<and>
   length (print_buf udigits n hex sg) \<le> 16 \<and> length (print_buf kdigits n hex sg) \<le> 16"
proof -
  let ?x = "if sint n < 0 then - n else n"
  have same: "digit_loop kdigits False x = digit_loop udigits False x" for x
  proof (induction "unat x" arbitrary: x rule: less_induct)
    case less
    have d: "unat (x mod 10) < 10" by (simp add: unat_mod)
    then have "kdigits ! unat (x mod 10) = udigits ! unat (x mod 10)"
      using tables_ok by (simp add: table_ok_def list_all_iff)
    moreover have "digit_loop kdigits False (x div 10) = digit_loop udigits False (x div 10)" if "x div 10 \<noteq> 0"
    proof (rule less)
      have "x \<noteq> 0" using that by auto
      then show "unat (x div 10) < unat x" by (simp add: unat_div unat_gt_0)
    qed
    ultimately show ?case by (subst (1 2) digit_loop.simps) (simp add: base_of_def)
  qed
  have p: "printint t n False True = (if sint n < 0 then ''-'' else []) @ rev (digit_loop t False ?x)" for t
    by (simp add: printint_def print_buf_def Let_def)
  have "length (print_buf udigits n hex sg) \<le> 16 \<and> length (print_buf kdigits n hex sg) \<le> 16"
    using print_buf_length[of udigits n hex sg] print_buf_length[of kdigits n hex sg] by linarith
  moreover have "list_all is_digit (rev (digit_loop udigits False ?x)) \<and> atoi (rev (digit_loop udigits False ?x)) = ?x"
    using digits_value[OF tables_ok(1), of ?x] unfolding atoi_def .
  moreover have "atoi (''-'' @ ds) = 0" for ds by (simp add: atoi_def is_digit_def)
  ultimately show ?thesis unfolding p same by (cases "sint n < 0") auto
qed

end
