(* ===== verification/User_Sh.thy ===== *)
theory User_Sh
  imports Xv6_Sysfile
begin

text \<open>
  The parser of the shell, \<open>xv6/user/sh.c\<close>. A pointer into the command line is the string from there to its end \<open>es\<close>, so the
  end is the empty string, where the source reads the terminator. A word is the pair of its first character's pointer and
  the pointer behind it, as in \<open>argv\<close> and \<open>eargv\<close>. \<open>panic\<close> ends the process with a message.

  The four routines that call each other have a bound \<open>n\<close> on the depth of calls; \<open>parsecmd\<close> gives them four times the
  length of the line, which is shown to be enough.
\<close>

section \<open>Tokens\<close>

definition whitespace :: string where
  "whitespace = [CHR 0x20, CHR 0x09, CHR 0x0D, CHR 0x0A, CHR 0x0B]"

definition symbols :: string where
  "symbols = ''<|>&;()''"

definition is_ws :: "char \<Rightarrow> bool" where
  "is_ws c \<longleftrightarrow> c \<in> set whitespace"

definition plain :: "char \<Rightarrow> bool" where
  "plain c \<longleftrightarrow> \<not> is_ws c \<and> c \<notin> set symbols"

definition skip_ws :: "string \<Rightarrow> string" where
  "skip_ws s = dropWhile is_ws s"

text \<open>The \<open>switch\<close> of \<open>gettoken\<close>: the result and the end of the token.\<close>

fun token :: "string \<Rightarrow> char \<times> string" where
  "token [] = (CHR 0x00, [])"
| "token (c # s) =
     (if c \<in> set ''|();&<'' then (c, s)
      else if c = CHR ''>'' then (if s \<noteq> [] \<and> hd s = CHR ''>'' then (CHR ''+'', tl s) else (c, s))
      else (CHR ''a'', dropWhile plain (c # s)))"

text \<open>The result, the start and the end of the token, the new value of \<open>*ps\<close>.\<close>

definition gettoken :: "string \<Rightarrow> char \<times> string \<times> string \<times> string" where
  "gettoken ps = (let s = skip_ws ps; (r, eq) = token s in (r, s, eq, skip_ws eq))"

definition peek_tok :: "string \<Rightarrow> string \<Rightarrow> bool \<times> string" where
  "peek_tok toks ps = (let s = skip_ws ps in (s \<noteq> [] \<and> hd s \<in> set toks, s))"

text \<open>The new value of \<open>*ps\<close> after a call \<open>gettoken(ps, es, 0, 0)\<close>.\<close>

definition after_token :: "string \<Rightarrow> string" where
  "after_token ps = snd (snd (snd (gettoken ps)))"

section \<open>Commands\<close>

type_synonym word_ptr = "string \<times> string"

datatype 'w cmd =
    EXEC "'w list"
  | REDIR "'w cmd" 'w "32 word" nat
  | PIPE "'w cmd" "'w cmd"
  | LIST "'w cmd" "'w cmd"
  | BACK "'w cmd"

definition MAXARGS :: nat where "MAXARGS = 10"

text \<open>\<open>Failed\<close> has what the shell prints before it gives the line up, less the newline that \<open>panic\<close> adds.\<close>

datatype 'a parsed = Done 'a | Failed string | Deeper

definition pbind :: "'a parsed \<Rightarrow> ('a \<Rightarrow> 'b parsed) \<Rightarrow> 'b parsed" where
  "pbind r f = (case r of Done x \<Rightarrow> f x | Failed m \<Rightarrow> Failed m | Deeper \<Rightarrow> Deeper)"

text \<open>A redirection: file, mode and descriptor. \<open>+\<close> is the token for \<open>>>\<close>.\<close>

type_synonym 'w redir = "'w \<times> 32 word \<times> nat"

definition redir_of :: "char \<Rightarrow> 'w \<Rightarrow> 'w redir list" where
  "redir_of tok w =
     (if tok = CHR ''<'' then [(w, O_RDONLY, 0)]
      else if tok = CHR ''>'' then [(w, O_WRONLY OR O_CREATE, 1)]
      else if tok = CHR ''+'' then [(w, O_WRONLY OR O_CREATE, 1)]
      else [])"

definition redirs :: "'w redir list \<Rightarrow> 'w cmd \<Rightarrow> 'w cmd" where
  "redirs rs c = fold (\<lambda>(w, mode, fd) c. REDIR c w mode fd) rs c"

section \<open>Parsing\<close>

lemma skip_ws_length: "length (skip_ws s) \<le> length s"
  by (simp add: skip_ws_def length_dropWhile_le)

lemma token_shorter: "s \<noteq> [] \<Longrightarrow> \<not> is_ws (hd s) \<Longrightarrow> length (snd (token s)) < length s"
proof (cases s)
  case (Cons c t)
  assume "\<not> is_ws (hd s)"
  then have "plain c" if "c \<notin> set ''|();&<''" "c \<noteq> CHR ''>''"
    using that by (auto simp: plain_def symbols_def Cons)
  then show ?thesis
    using length_dropWhile_le[of plain t] length_dropWhile_le[of plain "tl t"] by (auto simp: Cons less_Suc_eq_le)
qed simp

lemma skip_ws_head: "skip_ws s \<noteq> [] \<Longrightarrow> \<not> is_ws (hd (skip_ws s))"
  unfolding skip_ws_def by (rule hd_dropWhile)

lemma after_token_shorter: "skip_ws s \<noteq> [] \<Longrightarrow> length (after_token s) < length s"
  using token_shorter[OF _ skip_ws_head, of s] skip_ws_length[of s] skip_ws_length[of "snd (token (skip_ws s))"]
  by (auto simp: after_token_def gettoken_def Let_def split: prod.split)

lemma after_token_le: "length (after_token s) \<le> length s"
proof (cases "skip_ws s = []")
  case True
  then have "after_token s = []" by (simp add: after_token_def gettoken_def Let_def) (simp add: skip_ws_def)
  then show ?thesis by simp
qed (use after_token_shorter[of s] in simp)

lemma gettoken_after: "gettoken s = (r, q, eq, t) \<Longrightarrow> t = after_token s"
  by (simp add: after_token_def)

lemma peek_tokD: "peek_tok toks s = (b, t) \<Longrightarrow> t = skip_ws s \<and> (b \<longrightarrow> skip_ws s \<noteq> [])"
  by (auto simp: peek_tok_def Let_def)

lemma skip_ws_idem [simp]: "skip_ws (skip_ws s) = skip_ws s"
  by (simp add: skip_ws_def dropWhile_idem)

lemma token_after_skip: "skip_ws s \<noteq> [] \<Longrightarrow> length (after_token (skip_ws s)) < length s"
  using after_token_shorter[of "skip_ws s"] skip_ws_length[of s] by simp

lemma two_tokens_shorter: "skip_ws s \<noteq> [] \<Longrightarrow> length (after_token (after_token (skip_ws s))) < length s"
  using token_after_skip[of s] after_token_le[of "after_token (skip_ws s)"] by simp

lemma nul_token: "fst (token s) = CHR 0x00 \<or> s \<noteq> []"
  by (cases s) simp_all

lemma word_shorter:
  "(r, q, eq, t) = gettoken (skip_ws s) \<Longrightarrow> r \<noteq> CHR 0x00 \<Longrightarrow> length u \<le> length t \<Longrightarrow> length u < length s"
proof -
  assume a: "(r, q, eq, t) = gettoken (skip_ws s)" "r \<noteq> CHR 0x00" "length u \<le> length t"
  have "skip_ws s \<noteq> []" using a(1,2) nul_token[of "skip_ws s"] by (auto simp: gettoken_def Let_def split: prod.splits)
  then show ?thesis using token_after_skip[of s] gettoken_after[OF a(1)[symmetric]] a(3) by simp
qed

function parse_redirs :: "word_ptr redir list \<Rightarrow> string \<Rightarrow> (word_ptr redir list \<times> string) parsed" where
  "parse_redirs rs ps =
     (let (b, s) = peek_tok ''<>'' ps
      in if b then
           let (tok, _, _, s1) = gettoken s; (tok2, q, eq, s2) = gettoken s1
           in if tok2 \<noteq> CHR ''a'' then Failed ''missing file for redirection''
              else parse_redirs (rs @ redir_of tok (q, eq)) s2
         else Done (rs, s))"
  by pat_completeness auto
termination
  by (relation "measure (\<lambda>(rs, ps). length ps)")
    (auto dest!: peek_tokD[OF sym] gettoken_after[OF sym] intro: two_tokens_shorter)

declare parse_redirs.simps [simp del]

lemma parse_redirs_length: "parse_redirs rs ps = Done (rs', s) \<Longrightarrow> length s \<le> length ps"
proof (induction "length ps" arbitrary: rs ps rule: less_induct)
  case less
  obtain b t where p: "peek_tok ''<>'' ps = (b, t)" by fastforce
  note pd = peek_tokD[OF p]
  show ?case
  proof (cases b)
    case False
    then have "s = t" using less.prems by (subst (asm) parse_redirs.simps) (simp add: p)
    then show ?thesis using pd skip_ws_length by simp
  next
    case True
    obtain tok q eq s1 tok2 q2 eq2 s2 where g: "gettoken t = (tok, q, eq, s1)" "gettoken s1 = (tok2, q2, eq2, s2)" by (metis prod_cases4)
    have s2: "length s2 < length ps"
      using two_tokens_shorter[of ps] pd True gettoken_after[OF g(1)] gettoken_after[OF g(2)] by simp
    have "parse_redirs (rs @ redir_of tok (q2, eq2)) s2 = Done (rs', s)"
      using less.prems True by (subst (asm) parse_redirs.simps) (simp add: p g split: if_splits)
    from less.hyps[OF s2 this] s2 show ?thesis by simp
  qed
qed

text \<open>The loop of \<open>parseexec\<close> over the words: the words, the redirections and the new \<open>*ps\<close>.\<close>

function parse_args :: "word_ptr list \<Rightarrow> word_ptr redir list \<Rightarrow> string \<Rightarrow> (word_ptr list \<times> word_ptr redir list \<times> string) parsed" where
  "parse_args argv rs ps =
     (let (b, s) = peek_tok ''|)&;'' ps
      in if b then Done (argv, rs, s)
         else
           let (tok, q, eq, s1) = gettoken s
           in if tok = CHR 0x00 then Done (argv, rs, s1)
              else if tok \<noteq> CHR ''a'' then Failed ''syntax''
              else if length (argv @ [(q, eq)]) \<ge> MAXARGS then Failed ''too many args''
              else
                case parse_redirs rs s1 of
                  Done (rs', s2) \<Rightarrow> parse_args (argv @ [(q, eq)]) rs' s2
                | Failed m \<Rightarrow> Failed m
                | Deeper \<Rightarrow> Deeper)"
  by pat_completeness auto
termination
  by (relation "measure (\<lambda>(argv, rs, ps). length ps)")
    (auto dest!: peek_tokD[OF sym] parse_redirs_length intro: word_shorter)

declare parse_args.simps [simp del]

text \<open>The loop over \<open>&\<close> in \<open>parseline\<close>.\<close>

function parse_backs :: "'w cmd \<Rightarrow> string \<Rightarrow> 'w cmd \<times> string" where
  "parse_backs c ps =
     (let (b, s) = peek_tok ''&'' ps
      in if b then parse_backs (BACK c) (after_token s) else (c, s))"
  by pat_completeness auto
termination
  by (relation "measure (\<lambda>(c, ps). length ps)")
    (auto dest!: peek_tokD[OF sym] intro: token_after_skip)

declare parse_backs.simps [simp del]

fun parseline :: "nat \<Rightarrow> string \<Rightarrow> (word_ptr cmd \<times> string) parsed"
  and parsepipe :: "nat \<Rightarrow> string \<Rightarrow> (word_ptr cmd \<times> string) parsed"
  and parseexec :: "nat \<Rightarrow> string \<Rightarrow> (word_ptr cmd \<times> string) parsed"
  and parseblock :: "nat \<Rightarrow> string \<Rightarrow> (word_ptr cmd \<times> string) parsed" where
  "parseline 0 ps = Deeper"
| "parseline (Suc n) ps =
     pbind (parsepipe n ps) (\<lambda>(c, s).
     let (c', s1) = parse_backs c s; (b, s2) = peek_tok '';'' s1
     in if b then pbind (parseline n (after_token s2)) (\<lambda>(d, s3). Done (LIST c' d, s3))
        else Done (c', s2))"
| "parsepipe 0 ps = Deeper"
| "parsepipe (Suc n) ps =
     pbind (parseexec n ps) (\<lambda>(c, s).
     let (b, s1) = peek_tok ''|'' s
     in if b then pbind (parsepipe n (after_token s1)) (\<lambda>(d, s2). Done (PIPE c d, s2))
        else Done (c, s1))"
| "parseexec 0 ps = Deeper"
| "parseexec (Suc n) ps =
     (let (b, s) = peek_tok ''('' ps
      in if b then parseblock n s
         else
           pbind (parse_redirs [] s) (\<lambda>(rs, s1).
           pbind (parse_args [] rs s1) (\<lambda>(argv, rs', s2).
           Done (redirs rs' (EXEC argv), s2))))"
| "parseblock 0 ps = Deeper"
| "parseblock (Suc n) ps =
     (let (b, s) = peek_tok ''('' ps
      in if \<not> b then Failed ''parseblock''
         else
           pbind (parseline n (after_token s)) (\<lambda>(c, s1).
           let (b, s2) = peek_tok '')'' s1
           in if \<not> b then Failed ''syntax - missing )''
              else pbind (parse_redirs [] (after_token s2)) (\<lambda>(rs, s3). Done (redirs rs c, s3))))"

definition parseall :: "string \<Rightarrow> word_ptr cmd parsed" where
  "parseall s =
     pbind (parseline (4 * length s + 4) s) (\<lambda>(c, s1).
     let (b, s2) = peek_tok [] s1 in if s2 \<noteq> [] then Failed (''leftovers: '' @ s2 @ CHR 0x0A # ''syntax'') else Done c)"

text \<open>
  \<open>nulterminate\<close> stores a terminator behind each word of the command, in the buffer that holds the line and its terminator.
\<close>

definition nul_at :: "string \<Rightarrow> string \<Rightarrow> string" where
  "nul_at eq buf = buf[length buf - 1 - length eq := CHR 0x00]"

primrec nulterminate :: "word_ptr cmd \<Rightarrow> string \<Rightarrow> string" where
  "nulterminate (EXEC argv) buf = fold (\<lambda>(q, eq). nul_at eq) argv buf"
| "nulterminate (REDIR c w mode fd) buf = nul_at (snd w) (nulterminate c buf)"
| "nulterminate (PIPE a b) buf = nulterminate b (nulterminate a buf)"
| "nulterminate (LIST a b) buf = nulterminate b (nulterminate a buf)"
| "nulterminate (BACK c) buf = nulterminate c buf"

text \<open>The command and the buffer after the call.\<close>

definition parsecmd :: "string \<Rightarrow> (word_ptr cmd \<times> string) parsed" where
  "parsecmd s = pbind (parseall s) (\<lambda>c. Done (c, nulterminate c (s @ [CHR 0x00])))"

end
