(* ===== verification/User_Shell.thy ===== *)
theory User_Shell
  imports User_Sh
begin

text \<open>
  The shell's parser terminates on every line, and reads back the commands that a printer writes.
\<close>

section \<open>Termination\<close>

lemma pbind_Done [simp]: "pbind (Done x) f = f x"
  by (simp add: pbind_def)

lemma pbind_cases:
  assumes "pbind r f = y"
  obtains (Done) x where "r = Done x" "f x = y" | (Failed) m where "r = Failed m" "y = Failed m" | (Deeper) "r = Deeper" "y = Deeper"
  using assms by (cases r) (auto simp: pbind_def)

lemma redirs_total: "parse_redirs rs ps \<noteq> Deeper"
proof (induction rs ps rule: parse_redirs.induct)
  case (1 rs ps)
  show ?case by (subst parse_redirs.simps) (auto simp: "1.IH" split: prod.split)
qed

lemma args_result: "parse_args argv rs ps \<noteq> Deeper \<and> (\<forall>a r s. parse_args argv rs ps = Done (a, r, s) \<longrightarrow> length s \<le> length ps)"
proof (induction "length ps" arbitrary: argv rs ps rule: less_induct)
  case less
  obtain b s where p: "peek_tok ''|)&;'' ps = (b, s)" by fastforce
  obtain tok q eq s1 where g: "gettoken s = (tok, q, eq, s1)" by (metis prod_cases4)
  have s: "s = skip_ws ps" "length s \<le> length ps" using peek_tokD[OF p] skip_ws_length by simp_all
  have s1: "length s1 \<le> length ps" using gettoken_after[OF g] after_token_le[of s] s by simp
  show ?case
  proof (cases "b \<or> tok = CHR 0x00 \<or> tok \<noteq> CHR ''a'' \<or> length (argv @ [(q, eq)]) \<ge> MAXARGS")
    case True
    then show ?thesis using s(2) s1 by (subst (1 2) parse_args.simps) (auto simp: p g)
  next
    case False
    then have eq: "parse_args argv rs ps = (case parse_redirs rs s1 of Done (rs', s2) \<Rightarrow> parse_args (argv @ [(q, eq)]) rs' s2
        | Failed m \<Rightarrow> Failed m | Deeper \<Rightarrow> Deeper)"
      by (subst parse_args.simps) (simp add: p g)
    show ?thesis
    proof (cases "parse_redirs rs s1")
      case (Done x)
      obtain rs' s2 where x: "x = (rs', s2)" by fastforce
      have "length s2 < length ps"
        using word_shorter[of tok q eq s1 ps s2] g s(1) False parse_redirs_length[of rs s1 rs' s2] Done x by simp
      from less[OF this, of "argv @ [(q, eq)]" rs'] \<open>length s2 < length ps\<close> show ?thesis by (auto simp: eq Done x)
    qed (simp_all add: eq redirs_total)
  qed
qed

lemma backs_length: "parse_backs c ps = (d, s) \<Longrightarrow> length s \<le> length ps"
proof (induction c ps rule: parse_backs.induct)
  case (1 c ps)
  obtain b t where p: "peek_tok ''&'' ps = (b, t)" by fastforce
  show ?case
  proof (cases b)
    case True
    then have "parse_backs (BACK c) (after_token t) = (d, s)" using "1.prems" by (subst (asm) parse_backs.simps) (simp add: p)
    then have "length s \<le> length (after_token t)" using "1.IH"[OF p[symmetric] refl True] by simp
    then show ?thesis using after_token_le[of t] peek_tokD[OF p] skip_ws_length[of ps] by simp
  next
    case False
    then have "s = t" using "1.prems" by (subst (asm) parse_backs.simps) (simp add: p)
    then show ?thesis using peek_tokD[OF p] skip_ws_length by simp
  qed
qed

text \<open>\<open>fine k r\<close>: the parse did not run out of depth, and at most \<open>k\<close> characters are left.\<close>

definition fine :: "nat \<Rightarrow> ('a \<times> string) parsed \<Rightarrow> bool" where
  "fine k r \<longleftrightarrow> r \<noteq> Deeper \<and> (\<forall>c s. r = Done (c, s) \<longrightarrow> length s \<le> k)"

lemma fine_bind:
  assumes "fine j r" "\<And>c s. length s \<le> j \<Longrightarrow> fine k (f (c, s))"
  shows "fine k (pbind r f)"
  using assms by (cases r) (auto simp: fine_def pbind_def)

lemma fine_Done [simp]: "fine k (Done (c, s)) \<longleftrightarrow> length s \<le> k" "fine k (Failed m)"
  by (simp_all add: fine_def)

lemma fine_redirs: "length ps \<le> k \<Longrightarrow> fine k (parse_redirs rs ps)"
  using redirs_total[of rs ps] parse_redirs_length[of rs ps] unfolding fine_def by fastforce

lemma fine_mono: "fine j r \<Longrightarrow> j \<le> k \<Longrightarrow> fine k r"
  by (force simp: fine_def)

lemma fine_exec: "fine (length ps) (pbind (parse_redirs [] ps) (\<lambda>(rs, s1). pbind (parse_args [] rs s1) (\<lambda>(argv, rs', s2). Done (redirs rs' (EXEC argv), s2))))"
proof (rule fine_bind[OF fine_redirs[OF order.refl]])
  fix rs and s :: string assume "length s \<le> length ps"
  then show "fine (length ps) ((\<lambda>(rs, s1). pbind (parse_args [] rs s1) (\<lambda>(argv, rs', s2). Done (redirs rs' (EXEC argv), s2))) (rs, s))"
    using args_result[of "[]" rs s] by (cases "parse_args [] rs s") (auto simp: pbind_def)
qed

lemma parse_depth:
  "4 * length ps + 4 \<le> n \<Longrightarrow> fine (length ps) (parseline n ps)"
  "4 * length ps + 3 \<le> n \<Longrightarrow> fine (length ps) (parsepipe n ps)"
  "4 * length ps + 2 \<le> n \<Longrightarrow> fine (length ps) (parseexec n ps)"
  "4 * length ps + 1 \<le> n \<Longrightarrow> fine (length ps) (parseblock n ps)"
proof (induction n arbitrary: ps)
  case (Suc n)
  {
    case 1
    have "fine (length ps) (parsepipe n ps)" using Suc.IH(2)[of ps] 1 by simp
    then show ?case
      unfolding parseline.simps
    proof (rule fine_bind)
      fix c :: "word_ptr cmd" and s :: string assume s: "length s \<le> length ps"
      obtain c' s1 where b: "parse_backs c s = (c', s1)" by fastforce
      obtain b s2 where p: "peek_tok '';'' s1 = (b, s2)" by fastforce
      have s2: "s2 = skip_ws s1" "length s2 \<le> length ps"
        using peek_tokD[OF p] skip_ws_length[of s1] backs_length[OF b] s by simp_all
      show "fine (length ps) ((\<lambda>(c, s). let (c', s1) = parse_backs c s; (b, s2) = peek_tok '';'' s1
         in if b then pbind (parseline n (after_token s2)) (\<lambda>(d, s3). Done (LIST c' d, s3)) else Done (c', s2)) (c, s))"
      proof (cases b)
        case True
        then have a: "length (after_token s2) < length ps"
          using token_after_skip[of s1] peek_tokD[OF p] backs_length[OF b] s s2 by simp
        then have "fine (length (after_token s2)) (parseline n (after_token s2))" using Suc.IH(1)[of "after_token s2"] 1 by simp
        then have "fine (length ps) (pbind (parseline n (after_token s2)) (\<lambda>(d, s3). Done (LIST c' d, s3)))"
          by (rule fine_bind) (use a in simp)
        then show ?thesis using True by (simp add: b p)
      next
        case False
        then show ?thesis using s2 by (simp add: b p)
      qed
    qed
  next
    case 2
    have "fine (length ps) (parseexec n ps)" using Suc.IH(3)[of ps] 2 by simp
    then show ?case
      unfolding parsepipe.simps
    proof (rule fine_bind)
      fix c :: "word_ptr cmd" and s :: string assume s: "length s \<le> length ps"
      obtain b s1 where p: "peek_tok ''|'' s = (b, s1)" by fastforce
      have s1: "s1 = skip_ws s" "length s1 \<le> length ps" using peek_tokD[OF p] skip_ws_length[of s] s by simp_all
      show "fine (length ps) ((\<lambda>(c, s). let (b, s1) = peek_tok ''|'' s
         in if b then pbind (parsepipe n (after_token s1)) (\<lambda>(d, s2). Done (PIPE c d, s2)) else Done (c, s1)) (c, s))"
      proof (cases b)
        case True
        then have a: "length (after_token s1) < length ps" using token_after_skip[of s] peek_tokD[OF p] s s1 by simp
        then have "fine (length (after_token s1)) (parsepipe n (after_token s1))" using Suc.IH(2)[of "after_token s1"] 2 by simp
        then have "fine (length ps) (pbind (parsepipe n (after_token s1)) (\<lambda>(d, s2). Done (PIPE c d, s2)))"
          by (rule fine_bind) (use a in simp)
        then show ?thesis using True by (simp add: p)
      next
        case False
        then show ?thesis using s1 by (simp add: p)
      qed
    qed
  next
    case 3
    obtain b s where p: "peek_tok ''('' ps = (b, s)" by fastforce
    have s: "length s \<le> length ps" using peek_tokD[OF p] skip_ws_length[of ps] by simp
    have "fine (length s) (parseblock n s)" using Suc.IH(4)[of s] 3 s by simp
    then have "fine (length ps) (parseblock n s)" by (rule fine_mono[OF _ s])
    moreover note fine_mono[OF fine_exec[of s] s]
    ultimately show ?case by (simp add: p)
  next
    case 4
    obtain b s where p: "peek_tok ''('' ps = (b, s)" by fastforce
    show ?case
    proof (cases b)
      case True
      then have a: "length (after_token s) < length ps" using token_after_skip[of ps] peek_tokD[OF p] by simp
      then have "fine (length (after_token s)) (parseline n (after_token s))" using Suc.IH(1)[of "after_token s"] 4 by simp
      then have "fine (length ps) (pbind (parseline n (after_token s)) (\<lambda>(c, s1). let (b, s2) = peek_tok '')'' s1
           in if \<not> b then Failed ''syntax - missing )''
              else pbind (parse_redirs [] (after_token s2)) (\<lambda>(rs, s3). Done (redirs rs c, s3))))"
      proof (rule fine_bind)
        fix c :: "word_ptr cmd" and s1 :: string assume s1: "length s1 \<le> length (after_token s)"
        obtain b' s2 where p': "peek_tok '')'' s1 = (b', s2)" by fastforce
        have "length (after_token s2) \<le> length ps"
          using after_token_le[of s2] peek_tokD[OF p'] skip_ws_length[of s1] s1 a by simp
        then have "fine (length ps) (pbind (parse_redirs [] (after_token s2)) (\<lambda>(rs, s3). Done (redirs rs c, s3)))"
          by (intro fine_bind[OF fine_redirs]) auto
        then show "fine (length ps) ((\<lambda>(c, s1). let (b, s2) = peek_tok '')'' s1
           in if \<not> b then Failed ''syntax - missing )''
              else pbind (parse_redirs [] (after_token s2)) (\<lambda>(rs, s3). Done (redirs rs c, s3))) (c, s1))"
          by (simp add: p')
      qed
      then show ?thesis using True by (simp add: p)
    next
      case False
      then show ?thesis by (simp add: p)
    qed
  }
qed simp_all

lemma parseall_total: "parseall s \<noteq> Deeper"
  using parse_depth(1)[of s "4 * length s + 4"]
  by (cases "parseline (4 * length s + 4) s") (auto simp: parseall_def fine_def pbind_def Let_def split: prod.split)

section \<open>A printer\<close>

definition word_text :: "word_ptr \<Rightarrow> string" where
  "word_text w = take (length (fst w) - length (snd w)) (fst w)"

definition pp_words :: "string list \<Rightarrow> string" where
  "pp_words ws = concat (map (\<lambda>w. w @ '' '') ws)"

definition pp_redir :: "string redir \<Rightarrow> string" where
  "pp_redir r = (case r of (w, mode, fd) \<Rightarrow> (if fd = 0 then ''<'' else ''>'') @ w @ '' '')"

definition pp_redirs :: "string redir list \<Rightarrow> string" where
  "pp_redirs rs = concat (map pp_redir rs)"

definition paren :: "bool \<Rightarrow> string \<Rightarrow> string" where
  "paren b s = (if b then ''('' @ s @ '')'' else s)"

text \<open>Level 0 is a line, 1 a pipeline with \<open>&\<close>, 2 a pipeline, 3 a command.\<close>

primrec pp :: "nat \<Rightarrow> string cmd \<Rightarrow> string" where
  "pp k (EXEC ws) = pp_words ws"
| "pp k (REDIR c w mode fd) = pp 3 c @ pp_redir (w, mode, fd)"
| "pp k (PIPE a b) = paren (k > 2) (pp 3 a @ ''|'' @ pp 2 b)"
| "pp k (LIST a b) = paren (k > 0) (pp 1 a @ '';'' @ pp 0 b)"
| "pp k (BACK c) = paren (k > 1) (pp 1 c @ ''&'')"

definition word_ok :: "string \<Rightarrow> bool" where
  "word_ok w \<longleftrightarrow> w \<noteq> [] \<and> list_all plain w"

definition redir_ok :: "string redir \<Rightarrow> bool" where
  "redir_ok r = (case r of (w, mode, fd) \<Rightarrow> word_ok w \<and> (mode = O_RDONLY \<and> fd = 0 \<or> mode = O_WRONLY OR O_CREATE \<and> fd = 1))"

primrec cmd_ok :: "string cmd \<Rightarrow> bool" where
  "cmd_ok (EXEC ws) = (list_all word_ok ws \<and> length ws < MAXARGS)"
| "cmd_ok (REDIR c w mode fd) = (cmd_ok c \<and> redir_ok (w, mode, fd))"
| "cmd_ok (PIPE a b) = (cmd_ok a \<and> cmd_ok b)"
| "cmd_ok (LIST a b) = (cmd_ok a \<and> cmd_ok b)"
| "cmd_ok (BACK c) = cmd_ok c"

section \<open>Tokens of printed text\<close>

lemma word_text_append [simp]: "word_text (w @ eq, eq) = w"
  by (simp add: word_text_def)

lemma plain_facts:
  assumes "plain c"
  shows "\<not> is_ws c" "c \<notin> set ''|();&<''" "c \<noteq> CHR ''>''" "c \<notin> set ''|)&;''" "c \<notin> set ''<>''"
  using assms by (auto simp: plain_def symbols_def)

lemma sym_not_ws: "c \<in> set symbols \<Longrightarrow> \<not> is_ws c"
  by (auto simp: symbols_def is_ws_def whitespace_def)

lemma skip_ws_cons [simp]: "\<not> is_ws c \<Longrightarrow> skip_ws (c # s) = c # s" "is_ws c \<Longrightarrow> skip_ws (c # s) = skip_ws s" "skip_ws [] = []"
  by (simp_all add: skip_ws_def)

lemma ws_space: "is_ws CHR '' ''" "\<not> plain CHR '' ''"
  by (simp_all add: is_ws_def whitespace_def plain_def)

lemma word_head: "word_ok w \<Longrightarrow> \<exists>c u. w = c # u \<and> plain c"
  by (cases w) (auto simp: word_ok_def)

lemma skip_ws_word: "word_ok w \<Longrightarrow> skip_ws (w @ s) = w @ s"
  using word_head[of w] plain_facts(1) by auto

lemma gettoken_word:
  assumes "word_ok w"
  shows "gettoken (w @ '' '' @ s) = (CHR ''a'', w @ '' '' @ s, '' '' @ s, skip_ws s)"
proof -
  obtain c u where w: "w = c # u" "plain c" using word_head[OF assms] by blast
  have "dropWhile plain (w @ '' '' @ s) = '' '' @ s"
    using assms ws_space(2) by (subst dropWhile_append2) (auto simp: word_ok_def list_all_iff)
  then have "token (w @ '' '' @ s) = (CHR ''a'', '' '' @ s)" using w plain_facts[OF w(2)] by simp
  moreover have "skip_ws (w @ '' '' @ s) = w @ '' '' @ s" by (rule skip_ws_word[OF assms])
  ultimately show ?thesis by (simp add: gettoken_def ws_space(1))
qed

lemma gettoken_sym: "c \<in> set ''|();&<'' \<Longrightarrow> gettoken (c # s) = (c, c # s, s, skip_ws s)"
proof -
  assume c: "c \<in> set ''|();&<''"
  then have "\<not> is_ws c" by (auto simp: is_ws_def whitespace_def)
  then show ?thesis using c by (simp add: gettoken_def)
qed

lemma after_sym: "c \<in> set ''|();&<'' \<Longrightarrow> after_token (c # s) = skip_ws s"
  by (simp add: after_token_def gettoken_sym)

lemma gettoken_gt: "word_ok w \<Longrightarrow> gettoken (CHR ''>'' # w @ s) = (CHR ''>'', CHR ''>'' # w @ s, w @ s, skip_ws (w @ s))"
proof -
  assume w: "word_ok w"
  obtain c u where c: "w = c # u" "plain c" using word_head[OF w] by blast
  have "\<not> is_ws CHR ''>''" by (simp add: is_ws_def whitespace_def)
  then show ?thesis using c plain_facts(3)[OF c(2)] by (simp add: gettoken_def)
qed

section \<open>Redirections and words\<close>

definition stops :: "string \<Rightarrow> string \<Rightarrow> bool" where
  "stops toks s \<longleftrightarrow> skip_ws s = [] \<or> hd (skip_ws s) \<in> set toks"

lemma peek_tok_skip [simp]: "peek_tok toks (skip_ws s) = peek_tok toks s"
  by (simp add: peek_tok_def)

lemma peek_stops: "stops toks s \<Longrightarrow> set toks \<inter> set other = {} \<Longrightarrow> peek_tok other s = (False, skip_ws s)"
  by (auto simp: stops_def peek_tok_def Let_def)

lemma peek_word: "word_ok w \<Longrightarrow> set toks \<subseteq> set symbols \<Longrightarrow> peek_tok toks (w @ s) = (False, w @ s)"
  using word_head[of w] skip_ws_word[of w s] by (auto simp: peek_tok_def plain_def)

lemma peek_head: "c \<in> set symbols \<Longrightarrow> peek_tok toks (c # s) = (c \<in> set toks, c # s)"
  using sym_not_ws[of c] by (simp add: peek_tok_def)

lemma parse_redirs_skip: "parse_redirs rs (skip_ws s) = parse_redirs rs s"
  by (subst (1 2) parse_redirs.simps) simp

lemma parse_redirs_none: "stops ''|)&;'' s \<Longrightarrow> parse_redirs rs s = Done (rs, skip_ws s)"
  by (subst parse_redirs.simps) (simp add: peek_stops)

lemma parse_redirs_word: "word_ok w \<Longrightarrow> parse_redirs rs (w @ s) = Done (rs, w @ s)"
  by (subst parse_redirs.simps) (simp add: peek_word symbols_def)

definition redir_text :: "word_ptr redir \<Rightarrow> string redir" where
  "redir_text r = (case r of (w, mode, fd) \<Rightarrow> (word_text w, mode, fd))"

lemma parse_redir_step:
  assumes "redir_ok r"
  obtains p where "redir_text p = r" "\<And>acc. parse_redirs acc (pp_redir r @ s) = parse_redirs (acc @ [p]) s"
proof -
  obtain w mode fd where r: "r = (w, mode, fd)" by (cases r)
  have w: "word_ok w" using assms by (simp add: redir_ok_def r)
  let ?wp = "(w @ '' '' @ s, '' '' @ s)"
  have sk: "skip_ws (w @ '' '' @ s) = w @ '' '' @ s" by (rule skip_ws_word[OF w])
  have "parse_redirs acc (pp_redir r @ s) = parse_redirs (acc @ [(?wp, mode, fd)]) s" for acc
  proof (cases "fd = 0")
    case True
    then have "mode = O_RDONLY" using assms by (simp add: redir_ok_def r)
    then show ?thesis
      using True by (subst parse_redirs.simps)
        (simp add: r pp_redir_def peek_head symbols_def gettoken_sym sk[simplified] gettoken_word[OF w, simplified] redir_of_def parse_redirs_skip)
  next
    case False
    then have "mode = O_WRONLY OR O_CREATE" "fd = 1" using assms by (auto simp: redir_ok_def r)
    then show ?thesis
      by (subst parse_redirs.simps)
        (simp add: r pp_redir_def peek_head symbols_def gettoken_gt[OF w] sk[simplified] gettoken_word[OF w, simplified] redir_of_def parse_redirs_skip)
  qed
  moreover have "redir_text (?wp, mode, fd) = r" using word_text_append[of w "'' '' @ s"] by (simp add: redir_text_def r)
  ultimately show ?thesis using that by blast
qed

lemma parse_redirs_pp:
  assumes "list_all redir_ok rs" "stops ''|)&;'' s"
  shows "\<exists>ps. parse_redirs acc (pp_redirs rs @ s) = Done (acc @ ps, skip_ws s) \<and> map redir_text ps = rs"
  using assms(1)
proof (induction rs arbitrary: acc)
  case Nil
  then show ?case using parse_redirs_none[OF assms(2)] by (simp add: pp_redirs_def)
next
  case (Cons r rs)
  obtain p where p: "redir_text p = r" "\<And>acc. parse_redirs acc (pp_redir r @ pp_redirs rs @ s) = parse_redirs (acc @ [p]) (pp_redirs rs @ s)"
    by (rule parse_redir_step[of r "pp_redirs rs @ s"]) (use Cons.prems in simp, blast)
  obtain ps where "parse_redirs (acc @ [p]) (pp_redirs rs @ s) = Done ((acc @ [p]) @ ps, skip_ws s)" "map redir_text ps = rs"
    using Cons.IH[of "acc @ [p]"] Cons.prems by auto
  then show ?case using p by (intro exI[of _ "p # ps"]) (simp add: pp_redirs_def)
qed

lemma parse_args_skip: "parse_args argv rs (skip_ws s) = parse_args argv rs s"
  by (subst (1 2) parse_args.simps) simp

lemma parse_args_end: "stops ''|)&;'' s \<Longrightarrow> parse_args argv rs s = Done (argv, rs, skip_ws s)"
proof (cases "skip_ws s = []")
  case True
  then show ?thesis by (subst parse_args.simps) (simp add: peek_tok_def gettoken_def)
next
  case False
  moreover assume "stops ''|)&;'' s"
  ultimately show ?thesis by (subst parse_args.simps) (simp add: peek_tok_def stops_def)
qed

lemma parse_args_word:
  assumes "word_ok w" "Suc (length argv) < MAXARGS"
  shows "parse_args argv rs (w @ '' '' @ s) = (case parse_redirs rs s of
      Done (rs', s2) \<Rightarrow> parse_args (argv @ [(w @ '' '' @ s, '' '' @ s)]) rs' s2 | Failed m \<Rightarrow> Failed m | Deeper \<Rightarrow> Deeper)"
  unfolding append.simps using assms(2) by (subst parse_args.simps)
    (simp add: peek_word[OF assms(1), simplified] symbols_def gettoken_word[OF assms(1), simplified] parse_redirs_skip)

lemma parse_args_pp:
  assumes "list_all word_ok (w # ws)" "length argv + length (w # ws) < MAXARGS" "list_all redir_ok rs" "stops ''|)&;'' s"
  shows "\<exists>av ps. parse_args argv acc (pp_words (w # ws) @ pp_redirs rs @ s) = Done (argv @ av, acc @ ps, skip_ws s) \<and>
    map word_text av = w # ws \<and> map redir_text ps = rs"
  using assms(1,2)
proof (induction ws arbitrary: argv w)
  case Nil
  let ?t = "pp_redirs rs @ s"
  obtain ps where ps: "parse_redirs acc ?t = Done (acc @ ps, skip_ws s)" "map redir_text ps = rs"
    using parse_redirs_pp[OF assms(3,4)] by blast
  have "parse_args argv acc (w @ '' '' @ ?t) = Done (argv @ [(w @ '' '' @ ?t, '' '' @ ?t)], acc @ ps, skip_ws s)"
    using Nil ps parse_args_word[of w argv acc ?t] by (simp add: parse_args_skip parse_args_end[OF assms(4)])
  then show ?case
    using ps word_text_append[of w "'' '' @ ?t"] by (intro exI[of _ "[(w @ '' '' @ ?t, '' '' @ ?t)]"] exI[of _ ps]) (simp add: pp_words_def)
next
  case (Cons v ws)
  let ?t = "pp_words (v # ws) @ pp_redirs rs @ s"
  let ?p = "(w @ '' '' @ ?t, '' '' @ ?t)"
  obtain av ps where ih: "parse_args (argv @ [?p]) acc ?t = Done ((argv @ [?p]) @ av, acc @ ps, skip_ws s)"
    "map word_text av = v # ws" "map redir_text ps = rs"
    using Cons.IH[of v "argv @ [?p]"] Cons.prems by auto
  have t: "?t = v @ '' '' @ pp_words ws @ pp_redirs rs @ s" by (simp add: pp_words_def)
  have "parse_redirs acc ?t = Done (acc, ?t)" unfolding t by (rule parse_redirs_word) (use Cons.prems in simp)
  then have "parse_args argv acc (w @ '' '' @ ?t) = Done (argv @ ?p # av, acc @ ps, skip_ws s)"
    using Cons.prems parse_args_word[of w argv acc ?t] ih(1) by simp
  then show ?case
    using ih word_text_append[of w "'' '' @ ?t"] by (intro exI[of _ "?p # av"] exI[of _ ps]) (simp add: pp_words_def)
qed

section \<open>Commands\<close>

definition cmd_text :: "word_ptr cmd \<Rightarrow> string cmd" where
  "cmd_text c = map_cmd word_text c"

lemma cmd_text_redirs: "cmd_text (redirs ps c) = redirs (map redir_text ps) (cmd_text c)"
  by (induction ps arbitrary: c) (auto simp: redirs_def cmd_text_def redir_text_def split: prod.split)

lemma cmd_text_back: "cmd_text ((BACK ^^ k) c) = (BACK ^^ k) (cmd_text c)"
  by (induction k) (simp_all add: cmd_text_def)

text \<open>What each routine does with printed text that is followed by something it does not read.\<close>

definition reads_exec :: "string cmd \<Rightarrow> bool" where
  "reads_exec c \<longleftrightarrow> (\<forall>rs s n. list_all redir_ok rs \<longrightarrow> stops ''|)&;'' s \<longrightarrow> 4 * length (pp 3 c @ pp_redirs rs @ s) + 2 \<le> n \<longrightarrow>
     (\<exists>d. parseexec n (pp 3 c @ pp_redirs rs @ s) = Done (d, skip_ws s) \<and> cmd_text d = redirs rs c))"

definition reads_pipe :: "string cmd \<Rightarrow> bool" where
  "reads_pipe c \<longleftrightarrow> (\<forall>s n. stops '')&;'' s \<longrightarrow> 4 * length (pp 2 c @ s) + 3 \<le> n \<longrightarrow>
     (\<exists>d. parsepipe n (pp 2 c @ s) = Done (d, skip_ws s) \<and> cmd_text d = c))"

definition reads_back :: "string cmd \<Rightarrow> bool" where
  "reads_back c \<longleftrightarrow> (\<forall>k s n. stops '');'' s \<longrightarrow> 4 * length (pp 1 c @ replicate k CHR ''&'' @ s) + 3 \<le> n \<longrightarrow>
     (\<exists>d e t. parsepipe n (pp 1 c @ replicate k CHR ''&'' @ s) = Done (d, t) \<and> parse_backs d t = (e, skip_ws s) \<and> cmd_text e = (BACK ^^ k) c))"

definition reads_line :: "string cmd \<Rightarrow> bool" where
  "reads_line c \<longleftrightarrow> (\<forall>s n. stops '')'' s \<longrightarrow> 4 * length (pp 0 c @ s) + 4 \<le> n \<longrightarrow>
     (\<exists>d. parseline n (pp 0 c @ s) = Done (d, skip_ws s) \<and> cmd_text d = c))"

lemma Suc_fuel: "k < n \<Longrightarrow> \<exists>m. n = Suc m \<and> k \<le> m"
  by (cases n) auto

lemma stops_cons: "c \<in> set toks \<Longrightarrow> c \<in> set symbols \<Longrightarrow> stops toks (c # s)"
  using sym_not_ws[of c] by (simp add: stops_def)

lemma stops_mono: "stops toks s \<Longrightarrow> set toks \<subseteq> set other \<Longrightarrow> stops other s"
  by (auto simp: stops_def)

lemma exec_reads_exec:
  assumes "list_all word_ok ws" "length ws < MAXARGS"
  shows "reads_exec (EXEC ws)"
  unfolding reads_exec_def
proof (intro allI impI)
  fix rs s n
  assume rs: "list_all redir_ok rs" "stops ''|)&;'' s" and n: "4 * length (pp 3 (EXEC ws) @ pp_redirs rs @ s) + 2 \<le> n"
  let ?t = "pp_words ws @ pp_redirs rs @ s"
  obtain m where m: "n = Suc m" using n Suc_fuel[of 0 n] by auto
  show "\<exists>d. parseexec n (pp 3 (EXEC ws) @ pp_redirs rs @ s) = Done (d, skip_ws s) \<and> cmd_text d = redirs rs (EXEC ws)"
  proof (cases ws)
    case Nil
    obtain ps where ps: "parse_redirs [] (pp_redirs rs @ s) = Done ([] @ ps, skip_ws s)" "map redir_text ps = rs"
      using parse_redirs_pp[OF rs] by blast
    have pk: "peek_tok ''('' (pp_redirs rs @ s) = (False, skip_ws (pp_redirs rs @ s))"
    proof (cases rs)
      case Nil
      then show ?thesis using peek_stops[OF rs(2)] by (simp add: pp_redirs_def)
    next
      case (Cons r rs')
      then show ?thesis by (simp add: pp_redirs_def pp_redir_def peek_head symbols_def is_ws_def whitespace_def split: prod.split)
    qed
    show ?thesis
      using ps pk by (intro exI[of _ "redirs ps (EXEC [])"])
        (simp add: m Nil pp_words_def parse_redirs_skip parse_args_skip parse_args_end[OF rs(2)] cmd_text_redirs, simp add: cmd_text_def)
  next
    case (Cons w ws')
    have w: "word_ok w" using assms(1) Cons by simp
    have t: "?t = w @ '' '' @ pp_words ws' @ pp_redirs rs @ s" by (simp add: Cons pp_words_def)
    obtain av ps where ps: "parse_args [] [] ?t = Done ([] @ av, [] @ ps, skip_ws s)" "map word_text av = ws" "map redir_text ps = rs"
      using parse_args_pp[of w ws' "[]" rs s "[]"] assms rs Cons by auto
    have "peek_tok ''('' ?t = (False, ?t)" "parse_redirs [] ?t = Done ([], ?t)"
      unfolding t using peek_word[OF w] parse_redirs_word[OF w] by (simp_all add: symbols_def)
    then show ?thesis
      using ps by (intro exI[of _ "redirs ps (EXEC av)"]) (simp add: m cmd_text_redirs, simp add: cmd_text_def)
  qed
qed

lemma redir_reads_exec:
  assumes "reads_exec c" "redir_ok (w, mode, fd)"
  shows "reads_exec (REDIR c w mode fd)"
  unfolding reads_exec_def
proof (intro allI impI)
  fix rs s n
  let ?r = "(w, mode, fd)"
  assume "list_all redir_ok rs" "stops ''|)&;'' s" "4 * length (pp 3 (REDIR c w mode fd) @ pp_redirs rs @ s) + 2 \<le> n"
  then obtain d where "parseexec n (pp 3 c @ pp_redirs (?r # rs) @ s) = Done (d, skip_ws s)" "cmd_text d = redirs (?r # rs) c"
    using assms(1)[unfolded reads_exec_def, rule_format, of "?r # rs" s n] assms(2) by (auto simp: pp_redirs_def)
  then show "\<exists>d. parseexec n (pp 3 (REDIR c w mode fd) @ pp_redirs rs @ s) = Done (d, skip_ws s) \<and> cmd_text d = redirs rs (REDIR c w mode fd)"
    by (intro exI[of _ d]) (simp add: pp_redirs_def redirs_def)
qed

lemma redirs_Nil [simp]: "pp_redirs [] = []" "redirs [] c = c"
  by (simp_all add: pp_redirs_def redirs_def)

lemma parse_skip:
  "parseline n (skip_ws s) = parseline n s" "parsepipe n (skip_ws s) = parsepipe n s" "parseexec n (skip_ws s) = parseexec n s"
  "parseblock n (skip_ws s) = parseblock n s"
  by (induction n) simp_all

lemma pipe_of_exec:
  assumes "reads_exec c" "pp 2 c = pp 3 c"
  shows "reads_pipe c"
  unfolding reads_pipe_def
proof (intro allI impI)
  fix s n
  assume s: "stops '')&;'' s" and n: "4 * length (pp 2 c @ s) + 3 \<le> n"
  obtain m where m: "n = Suc m" "4 * length (pp 3 c @ s) + 2 \<le> m"
    using Suc_fuel[of "4 * length (pp 3 c @ s) + 2" n] n assms(2) by auto
  obtain d where d: "parseexec m (pp 3 c @ s) = Done (d, skip_ws s)" "cmd_text d = c"
    using assms(1)[unfolded reads_exec_def, rule_format, of "[]" s m] stops_mono[OF s] m by auto
  then show "\<exists>d. parsepipe n (pp 2 c @ s) = Done (d, skip_ws s) \<and> cmd_text d = c"
    using peek_stops[OF s, of "''|''"] by (simp add: m assms(2))
qed

lemma pipe_reads_pipe:
  assumes "reads_exec a" "reads_pipe b"
  shows "reads_pipe (PIPE a b)"
  unfolding reads_pipe_def
proof (intro allI impI)
  fix s n
  let ?t = "CHR ''|'' # pp 2 b @ s"
  assume s: "stops '')&;'' s" and n: "4 * length (pp 2 (PIPE a b) @ s) + 3 \<le> n"
  have pp: "pp 2 (PIPE a b) @ s = pp 3 a @ ?t" by (simp add: paren_def)
  obtain m where m: "n = Suc m" "4 * length (pp 3 a @ ?t) + 2 \<le> m" using Suc_fuel[of "4 * length (pp 3 a @ ?t) + 2" n] n pp by auto
  have st: "stops ''|)&;'' ?t" by (rule stops_cons) (simp_all add: symbols_def)
  have sk: "skip_ws ?t = ?t" using sym_not_ws[of "CHR ''|''"] by (simp add: symbols_def)
  obtain d where d: "parseexec m (pp 3 a @ ?t) = Done (d, ?t)" "cmd_text d = a"
    using assms(1)[unfolded reads_exec_def, rule_format, of "[]" ?t m] st m sk by auto
  have len: "length (skip_ws (pp 2 b @ s)) \<le> length (pp 2 b @ s)" by (rule skip_ws_length)
  obtain e where e: "parsepipe m (pp 2 b @ s) = Done (e, skip_ws s)" "cmd_text e = b"
    using assms(2)[unfolded reads_pipe_def, rule_format, of s m] s m by auto
  have "parsepipe m (skip_ws (pp 2 b @ s)) = parsepipe m (pp 2 b @ s)" by (rule parse_skip)
  then show "\<exists>d. parsepipe n (pp 2 (PIPE a b) @ s) = Done (d, skip_ws s) \<and> cmd_text d = PIPE a b"
    unfolding pp using d e by (simp add: m peek_head symbols_def after_sym cmd_text_def)
qed

lemma backs_pp:
  assumes "stops '');'' s"
  shows "parse_backs c (replicate k CHR ''&'' @ s) = ((BACK ^^ k) c, skip_ws s)"
proof (induction k arbitrary: c)
  case 0
  show ?case using peek_stops[OF assms, of "''&''"] by (subst parse_backs.simps) simp
next
  case (Suc k)
  have "parse_backs c (replicate (Suc k) CHR ''&'' @ s) = parse_backs (BACK c) (skip_ws (replicate k CHR ''&'' @ s))"
    by (subst parse_backs.simps) (simp add: peek_head symbols_def after_sym)
  also have "\<dots> = parse_backs (BACK c) (replicate k CHR ''&'' @ s)"
    by (subst (1 2) parse_backs.simps) simp
  finally show ?case using Suc[of "BACK c"] by (simp add: funpow_swap1)
qed

lemma backs_skip: "parse_backs c (skip_ws s) = parse_backs c s"
  by (subst (1 2) parse_backs.simps) simp

lemma back_of_pipe:
  assumes "reads_pipe c" "pp 1 c = pp 2 c"
  shows "reads_back c"
  unfolding reads_back_def
proof (intro allI impI)
  fix k s n
  let ?t = "replicate k CHR ''&'' @ s"
  assume s: "stops '');'' s" and n: "4 * length (pp 1 c @ ?t) + 3 \<le> n"
  have "stops '')&;'' ?t"
  proof (cases k)
    case 0
    then show ?thesis using stops_mono[OF s] by simp
  next
    case (Suc k')
    then show ?thesis using stops_cons[of "CHR ''&''" "'')&;''"] by (simp add: symbols_def)
  qed
  then obtain d where d: "parsepipe n (pp 2 c @ ?t) = Done (d, skip_ws ?t)" "cmd_text d = c"
    using assms(1)[unfolded reads_pipe_def, rule_format, of ?t n] n assms(2) by auto
  then show "\<exists>d e t. parsepipe n (pp 1 c @ ?t) = Done (d, t) \<and> parse_backs d t = (e, skip_ws s) \<and> cmd_text e = (BACK ^^ k) c"
    using backs_pp[OF s, of d k] assms(2) by (simp add: backs_skip cmd_text_back)
qed

lemma back_reads_back:
  assumes "reads_back c"
  shows "reads_back (BACK c)"
  unfolding reads_back_def
proof (intro allI impI)
  fix k s n
  assume s: "stops '');'' s" and n: "4 * length (pp 1 (BACK c) @ replicate k CHR ''&'' @ s) + 3 \<le> n"
  have pp: "pp 1 (BACK c) @ replicate k CHR ''&'' @ s = pp 1 c @ replicate (Suc k) CHR ''&'' @ s" by (simp add: paren_def)
  show "\<exists>d e t. parsepipe n (pp 1 (BACK c) @ replicate k CHR ''&'' @ s) = Done (d, t) \<and> parse_backs d t = (e, skip_ws s) \<and>
      cmd_text e = (BACK ^^ k) (BACK c)"
    unfolding pp using assms[unfolded reads_back_def, rule_format, OF s, of "Suc k" n] n pp by (simp add: funpow_swap1)
qed

lemma line_of_back:
  assumes "reads_back c" "pp 0 c = pp 1 c"
  shows "reads_line c"
  unfolding reads_line_def
proof (intro allI impI)
  fix s n
  assume s: "stops '')'' s" and n: "4 * length (pp 0 c @ s) + 4 \<le> n"
  obtain m where m: "n = Suc m" "4 * length (pp 1 c @ s) + 3 \<le> m"
    using Suc_fuel[of "4 * length (pp 1 c @ s) + 3" n] n assms(2) by auto
  obtain d e t where d: "parsepipe m (pp 1 c @ s) = Done (d, t)" "parse_backs d t = (e, skip_ws s)" "cmd_text e = c"
    using assms(1)[unfolded reads_back_def, rule_format, of s 0 m] stops_mono[OF s] m by auto
  then show "\<exists>d. parseline n (pp 0 c @ s) = Done (d, skip_ws s) \<and> cmd_text d = c"
    using peek_stops[OF s, of "'';''"] by (simp add: m assms(2))
qed

lemma list_reads_line:
  assumes "reads_back a" "reads_line b"
  shows "reads_line (LIST a b)"
  unfolding reads_line_def
proof (intro allI impI)
  fix s n
  let ?t = "CHR '';'' # pp 0 b @ s"
  assume s: "stops '')'' s" and n: "4 * length (pp 0 (LIST a b) @ s) + 4 \<le> n"
  have pp: "pp 0 (LIST a b) @ s = pp 1 a @ ?t" by (simp add: paren_def)
  obtain m where m: "n = Suc m" "4 * length (pp 1 a @ ?t) + 3 \<le> m" using Suc_fuel[of "4 * length (pp 1 a @ ?t) + 3" n] n pp by auto
  have st: "stops '');'' ?t" by (rule stops_cons) (simp_all add: symbols_def)
  have sk: "skip_ws ?t = ?t" using sym_not_ws[of "CHR '';''"] by (simp add: symbols_def)
  obtain d e t where d: "parsepipe m (pp 1 a @ ?t) = Done (d, t)" "parse_backs d t = (e, ?t)" "cmd_text e = a"
    using assms(1)[unfolded reads_back_def, rule_format, of ?t 0 m] st m sk by auto
  obtain f where f: "parseline m (pp 0 b @ s) = Done (f, skip_ws s)" "cmd_text f = b"
    using assms(2)[unfolded reads_line_def, rule_format, of s m] s m by auto
  have "parseline m (skip_ws (pp 0 b @ s)) = parseline m (pp 0 b @ s)" by (rule parse_skip)
  then show "\<exists>d. parseline n (pp 0 (LIST a b) @ s) = Done (d, skip_ws s) \<and> cmd_text d = LIST a b"
    unfolding pp using d f by (simp add: m peek_head symbols_def after_sym cmd_text_def)
qed

lemma exec_of_line:
  assumes "reads_line c" "pp 3 c = ''('' @ pp 0 c @ '')''"
  shows "reads_exec c"
  unfolding reads_exec_def
proof (intro allI impI)
  fix rs s n
  let ?u = "CHR '')'' # pp_redirs rs @ s"
  let ?t = "CHR ''('' # pp 0 c @ ?u"
  assume rs: "list_all redir_ok rs" "stops ''|)&;'' s" and n: "4 * length (pp 3 c @ pp_redirs rs @ s) + 2 \<le> n"
  have pp: "pp 3 c @ pp_redirs rs @ s = ?t" by (simp add: assms(2))
  obtain l where l: "n = Suc l" "4 * length ?t + 1 \<le> l" using Suc_fuel[of "4 * length ?t + 1" n] n pp by auto
  obtain m where m: "l = Suc m" "4 * length (pp 0 c @ ?u) + 4 \<le> m" using Suc_fuel[of "4 * length (pp 0 c @ ?u) + 4" l] l by auto
  have sk: "skip_ws ?u = ?u" using sym_not_ws[of "CHR '')''"] by (simp add: symbols_def)
  have st: "stops '')'' ?u" by (rule stops_cons) (simp_all add: symbols_def)
  obtain d where d: "parseline m (pp 0 c @ ?u) = Done (d, ?u)" "cmd_text d = c"
    using assms(1)[unfolded reads_line_def, rule_format, OF st m(2)] sk by auto
  obtain ps where ps: "parse_redirs [] (pp_redirs rs @ s) = Done ([] @ ps, skip_ws s)" "map redir_text ps = rs"
    using parse_redirs_pp[OF rs] by blast
  have "parseline m (skip_ws (pp 0 c @ ?u)) = parseline m (pp 0 c @ ?u)" by (rule parse_skip)
  then show "\<exists>d. parseexec n (pp 3 c @ pp_redirs rs @ s) = Done (d, skip_ws s) \<and> cmd_text d = redirs rs c"
    unfolding pp using d ps
    by (simp add: l m(1) peek_head symbols_def after_sym parse_redirs_skip cmd_text_redirs)
qed

text \<open>Every command that the printer can write is read back, at each level.\<close>

lemma reads_all: "cmd_ok c \<Longrightarrow> reads_exec c \<and> reads_pipe c \<and> reads_back c \<and> reads_line c"
proof (induction c)
  case (EXEC ws)
  then have e: "reads_exec (EXEC ws)" using exec_reads_exec by simp
  have p: "reads_pipe (EXEC ws)" by (rule pipe_of_exec[OF e]) simp
  have b: "reads_back (EXEC ws)" by (rule back_of_pipe[OF p]) simp
  show ?case using e p b line_of_back[OF b] by simp
next
  case (REDIR c w mode fd)
  then have e: "reads_exec (REDIR c w mode fd)" using redir_reads_exec by simp
  have p: "reads_pipe (REDIR c w mode fd)" by (rule pipe_of_exec[OF e]) simp
  have b: "reads_back (REDIR c w mode fd)" by (rule back_of_pipe[OF p]) simp
  show ?case using e p b line_of_back[OF b] by simp
next
  case (PIPE a b)
  then have p: "reads_pipe (PIPE a b)" using pipe_reads_pipe by simp
  have b: "reads_back (PIPE a b)" by (rule back_of_pipe[OF p]) (simp add: paren_def)
  have l: "reads_line (PIPE a b)" by (rule line_of_back[OF b]) (simp add: paren_def)
  show ?case using p b l exec_of_line[OF l] by (simp add: paren_def)
next
  case (LIST a b)
  then have l: "reads_line (LIST a b)" using list_reads_line by simp
  have e: "reads_exec (LIST a b)" by (rule exec_of_line[OF l]) (simp add: paren_def)
  have p: "reads_pipe (LIST a b)" by (rule pipe_of_exec[OF e]) (simp add: paren_def)
  show ?case using e p l back_of_pipe[OF p] by (simp add: paren_def)
next
  case (BACK c)
  then have b: "reads_back (BACK c)" using back_reads_back by simp
  have l: "reads_line (BACK c)" by (rule line_of_back[OF b]) (simp add: paren_def)
  have e: "reads_exec (BACK c)" by (rule exec_of_line[OF l]) (simp add: paren_def)
  show ?case using e b l pipe_of_exec[OF e] by (simp add: paren_def)
qed

text \<open>
  C37. The shell reads back what it is shown: for every command with words of ordinary characters and at most nine words per program, the line that
  the printer writes for it, with parentheses only where the grammar needs them, is parsed to that command. On any line the parser
  stops, with a command or with an error message.
\<close>

theorem parse_print_roundtrip:
  assumes "cmd_ok c"
  shows "(\<exists>d buf. parsecmd (pp 0 c) = Done (d, buf) \<and> map_cmd word_text d = c) \<and> parsecmd s \<noteq> Deeper"
proof -
  let ?s = "pp 0 c"
  obtain d where d: "parseline (4 * length ?s + 4) (?s @ []) = Done (d, skip_ws [])" "cmd_text d = c"
    using reads_all[OF assms] unfolding reads_line_def by (metis append_Nil2 order.refl skip_ws_cons(3) stops_def)
  then have "parseall ?s = Done d" by (simp add: parseall_def peek_tok_def)
  then have "parsecmd ?s = Done (d, nulterminate d (?s @ [CHR 0x00]))" by (simp add: parsecmd_def)
  moreover have "parsecmd s \<noteq> Deeper" using parseall_total[of s] by (cases "parseall s") (simp_all add: parsecmd_def pbind_def)
  ultimately show ?thesis using d(2) by (simp add: cmd_text_def)
qed

text \<open>\<open>(ls -l >out;wc <in &)|cat\<close>.\<close>

definition demo_cmd :: "string cmd" where
  "demo_cmd = PIPE (LIST (REDIR (EXEC [''ls'', ''-l'']) ''out'' (O_WRONLY OR O_CREATE) 1) (BACK (REDIR (EXEC [''wc'']) ''in'' O_RDONLY 0))) (EXEC [''cat''])"

theorem parse_print_roundtrip_witness:
  "pp 0 demo_cmd = ''(ls -l >out ;wc <in &)|cat '' \<and> (\<exists>d buf. parsecmd (pp 0 demo_cmd) = Done (d, buf) \<and> map_cmd word_text d = demo_cmd) \<and>
   parsecmd ''(ls'' \<noteq> Deeper"
proof -
  have "cmd_ok demo_cmd"
    by (simp add: demo_cmd_def word_ok_def redir_ok_def plain_def is_ws_def whitespace_def symbols_def MAXARGS_def)
  then show ?thesis
    using parse_print_roundtrip[of demo_cmd "''(ls''"] by (simp add: demo_cmd_def pp_words_def pp_redir_def paren_def)
qed

end
