(* ===== verification/User_Run.thy ===== *)
theory User_Run
  imports User_Shell User_Lib
begin

text \<open>
  How the shell runs commands: \<open>runcmd\<close> and \<open>main\<close> of \<open>xv6/user/sh.c\<close>. A process is its table of descriptors and the list of what it does
  from then on; \<open>Fork\<close> has the list of the child. Descriptors are handed out as the kernel does, the lowest free one first. What the
  system calls answer is the record \<open>world\<close>; a fork or a pipe is known by its \<open>path\<close>, the way to it in the tree of commands.
\<close>

section \<open>Descriptors\<close>

type_synonym path = "nat list"

datatype desc = Inherited nat | Opened string "32 word" | ReadEnd path | WriteEnd path

type_synonym fds = "nat \<Rightarrow> desc option"

definition fd_free :: "fds \<Rightarrow> nat option" where
  "fd_free f = find (\<lambda>i. f i = None) [0..<16]"

definition close_fd :: "nat \<Rightarrow> fds \<Rightarrow> fds" where
  "close_fd i f = f(i := None)"

definition dup_fd :: "nat \<Rightarrow> fds \<Rightarrow> fds" where
  "dup_fd i f = (if f i = None then f else case fd_free f of None \<Rightarrow> f | Some j \<Rightarrow> f(j := f i))"

definition pipe_fds :: "path \<Rightarrow> fds \<Rightarrow> (nat \<times> nat \<times> fds) option" where
  "pipe_fds path f =
     (case fd_free f of
        None \<Rightarrow> None
      | Some a \<Rightarrow>
          let f1 = f(a \<mapsto> ReadEnd path) in
          case fd_free f1 of None \<Rightarrow> None | Some b \<Rightarrow> Some (a, b, f1(b \<mapsto> WriteEnd path)))"

record world =
  opens :: "string \<Rightarrow> 32 word \<Rightarrow> bool"
  execs :: "string list \<Rightarrow> bool"
  forks :: "path \<Rightarrow> bool"
  pipes :: "path \<Rightarrow> bool"
  chdirs :: "string \<Rightarrow> bool"

datatype act = Ran "string list" fds | Says string | Chdir string | Waits | Fork "act list"

definition open_fd :: "world \<Rightarrow> string \<Rightarrow> 32 word \<Rightarrow> fds \<Rightarrow> (nat \<times> fds) option" where
  "open_fd w name mode f =
     (if opens w name mode then map_option (\<lambda>i. (i, f(i \<mapsto> Opened name mode))) (fd_free f) else None)"

definition says :: "string \<Rightarrow> string \<Rightarrow> act" where
  "says fmt arg = Says (printf (\<lambda>_. arg) (fmt @ [CHR 0x0A]) (\<lambda>_. 1))"

text \<open>\<open>panic\<close> prints and ends the process.\<close>

definition sh_panic :: "string \<Rightarrow> act list" where
  "sh_panic s = [says ''%s'' s]"

section \<open>runcmd\<close>

fun runcmd :: "world \<Rightarrow> path \<Rightarrow> string cmd \<Rightarrow> fds \<Rightarrow> act list" where
  "runcmd w path (EXEC argv) f =
     (if argv = [] then [] else if execs w argv then [Ran argv f] else [says ''exec %s failed'' (hd argv)])"
| "runcmd w path (REDIR c name mode fd) f =
     (case open_fd w name mode (close_fd fd f) of
        None \<Rightarrow> [says ''open %s failed'' name]
      | Some (_, f1) \<Rightarrow> runcmd w path c f1)"
| "runcmd w path (LIST l r) f =
     (if \<not> forks w (path @ [0]) then sh_panic ''fork''
      else Fork (runcmd w (path @ [0]) l f) # Waits # runcmd w (path @ [1]) r f)"
| "runcmd w path (PIPE l r) f =
     (if \<not> pipes w path then sh_panic ''pipe''
      else case pipe_fds path f of
        None \<Rightarrow> sh_panic ''pipe''
      | Some (p0, p1, f1) \<Rightarrow>
          if \<not> forks w (path @ [0]) then sh_panic ''fork''
          else
            Fork (runcmd w (path @ [0]) l (close_fd p1 (close_fd p0 (dup_fd p1 (close_fd 1 f1))))) #
            (if \<not> forks w (path @ [1]) then sh_panic ''fork''
             else [Fork (runcmd w (path @ [1]) r (close_fd p1 (close_fd p0 (dup_fd p0 (close_fd 0 f1))))), Waits, Waits]))"
| "runcmd w path (BACK c) f =
     (if \<not> forks w (path @ [0]) then sh_panic ''fork'' else [Fork (runcmd w (path @ [0]) c f)])"

section \<open>main\<close>

function console_fds :: "world \<Rightarrow> fds \<Rightarrow> fds" where
  "console_fds w f =
     (case open_fd w ''console'' O_RDWR f of
        None \<Rightarrow> f
      | Some (fd, f1) \<Rightarrow> if fd \<ge> 3 then close_fd fd f1 else console_fds w f1)"
  by pat_completeness auto
termination
proof (relation "measure (\<lambda>(w, f). card {i. i < 16 \<and> f i = None})")
  fix w f x fd f1
  assume "open_fd w ''console'' O_RDWR f = Some x" "(fd, f1) = x"
  then have "fd_free f = Some fd" "f1 = f(fd \<mapsto> Opened ''console'' O_RDWR)" by (auto simp: open_fd_def split: if_splits)
  then have "fd < 16" "f fd = None" "f1 = f(fd \<mapsto> Opened ''console'' O_RDWR)" by (auto simp: fd_free_def find_Some_iff)
  then have "{i. i < 16 \<and> f1 i = None} \<subset> {i. i < 16 \<and> f i = None}" by (auto split: if_splits)
  then show "((w, f1), w, f) \<in> measure (\<lambda>(w, f). card {i. i < 16 \<and> f i = None})" by (simp add: psubset_card_mono)
qed simp

declare console_fds.simps [simp del]

text \<open>The text of a word in the buffer that \<open>nulterminate\<close> has left.\<close>

definition cword :: "string \<Rightarrow> word_ptr \<Rightarrow> string" where
  "cword buf q = takeWhile (\<lambda>c. c \<noteq> CHR 0x00) (drop (length buf - 1 - length (fst q)) buf)"

lemma gets_le: "length (snd (gets_from k inp)) \<le> length inp"
  by (induction k inp rule: gets_from.induct) (auto split: prod.splits intro: le_SucI)

lemma gets_rest: "gets_from k inp = (s, rest) \<Longrightarrow> s \<noteq> [] \<Longrightarrow> length rest < length inp"
proof (cases "(k, inp)" rule: gets_from.cases)
  case (3 k' c inp')
  assume "gets_from k inp = (s, rest)" "s \<noteq> []"
  then show ?thesis using 3 gets_le[of k' inp'] by (auto split: if_splits prod.splits)
qed auto

function sh_loop :: "world \<Rightarrow> nat \<Rightarrow> string \<Rightarrow> fds \<Rightarrow> act list" where
  "sh_loop w n inp f =
     (let (line, rest) = ugets 100 inp; s = takeWhile (\<lambda>c. c \<noteq> CHR 0x00) line in
      Says ''$ '' #
      (if s = [] then []
       else if take 3 s = ''cd '' then
         (let dir = drop 3 (butlast s) in if chdirs w dir then Chdir dir else says ''cannot cd %s'' dir) # sh_loop w (Suc n) rest f
       else if \<not> forks w [n] then sh_panic ''fork''
       else
         Fork (case parsecmd s of
                 Done (c, buf) \<Rightarrow> runcmd w [n] (map_cmd (cword buf) c) f
               | Failed m \<Rightarrow> sh_panic m
               | Deeper \<Rightarrow> []) # Waits # sh_loop w (Suc n) rest f))"
  by pat_completeness auto
termination
  by (relation "measure (\<lambda>(w, n, inp, f). length inp)") (auto simp: ugets_def intro: gets_rest[OF sym] dest: gets_rest[OF sym])

declare sh_loop.simps [simp del]

definition sh_main :: "world \<Rightarrow> string \<Rightarrow> fds \<Rightarrow> act list" where
  "sh_main w inp f = sh_loop w 0 inp (console_fds w f)"

section \<open>What the plumbing amounts to\<close>

text \<open>
  The meaning of a command with the descriptors as a mapping: a pipe replaces output on the left and input on the right, a redirection
  replaces one descriptor, and nothing else changes.
\<close>

fun wire :: "world \<Rightarrow> path \<Rightarrow> string cmd \<Rightarrow> fds \<Rightarrow> act list" where
  "wire w path (EXEC argv) f =
     (if argv = [] then [] else if execs w argv then [Ran argv f] else [says ''exec %s failed'' (hd argv)])"
| "wire w path (REDIR c name mode fd) f =
     (if opens w name mode then wire w path c (f(fd \<mapsto> Opened name mode)) else [says ''open %s failed'' name])"
| "wire w path (LIST l r) f =
     (if forks w (path @ [0]) then Fork (wire w (path @ [0]) l f) # Waits # wire w (path @ [1]) r f else sh_panic ''fork'')"
| "wire w path (PIPE l r) f =
     (if \<not> pipes w path then sh_panic ''pipe''
      else if \<not> forks w (path @ [0]) then sh_panic ''fork''
      else Fork (wire w (path @ [0]) l (f(1 \<mapsto> WriteEnd path))) #
        (if forks w (path @ [1]) then [Fork (wire w (path @ [1]) r (f(0 \<mapsto> ReadEnd path))), Waits, Waits] else sh_panic ''fork''))"
| "wire w path (BACK c) f = (if forks w (path @ [0]) then [Fork (wire w (path @ [0]) c f)] else sh_panic ''fork'')"

fun std_redirs :: "'w cmd \<Rightarrow> bool" where
  "std_redirs (EXEC argv) \<longleftrightarrow> True"
| "std_redirs (REDIR c name mode fd) \<longleftrightarrow> fd < 3 \<and> std_redirs c"
| "std_redirs (LIST l r) \<longleftrightarrow> std_redirs l \<and> std_redirs r"
| "std_redirs (PIPE l r) \<longleftrightarrow> std_redirs l \<and> std_redirs r"
| "std_redirs (BACK c) \<longleftrightarrow> std_redirs c"

definition std_fds :: "fds \<Rightarrow> bool" where
  "std_fds f \<longleftrightarrow> dom f = {0, 1, 2}"

lemma std_fdsD:
  assumes "std_fds f"
  obtains a b c where "f 0 = Some a" "f 1 = Some b" "f 2 = Some c" "\<And>i. 3 \<le> i \<Longrightarrow> f i = None"
proof -
  have d: "i \<in> dom f \<longleftrightarrow> i \<in> {0, 1, 2}" for i using assms by (simp add: std_fds_def)
  obtain a b c where "f 0 = Some a" "f 1 = Some b" "f 2 = Some c" using d[of 0] d[of 1] d[of 2] by (auto simp: dom_def)
  moreover have "f i = None" if "3 \<le> i" for i using d[of i] that by (auto simp: domIff)
  ultimately show thesis by (rule that)
qed

lemma fd_list: "[0..<16] = [0, 1, 2, 3, 4, 5, 6, 7, 8, 9, 10, 11, 12, 13, 14, 15]"
  by (simp add: upt_rec)

lemma std_fds_upd: "std_fds f \<Longrightarrow> i < 3 \<Longrightarrow> std_fds (f(i \<mapsto> d))"
  by (auto simp: std_fds_def)

lemma fd_free_std: "std_fds f \<Longrightarrow> fd_free f = Some 3" "std_fds f \<Longrightarrow> fd_free (f(3 \<mapsto> d)) = Some 4"
  by (erule std_fdsD, simp add: fd_free_def fd_list)+

lemma fd_free_closed:
  assumes "std_fds f" "i < 3"
  shows "fd_free (f(i := None)) = Some i"
proof -
  consider "i = 0" | "i = 1" | "i = 2" using assms(2) by linarith
  then show ?thesis by cases (use assms(1) in \<open>elim std_fdsD; simp add: fd_free_def fd_list\<close>)+
qed

lemma pipe_std: "std_fds f \<Longrightarrow> pipe_fds path f = Some (3, 4, f(3 \<mapsto> ReadEnd path, 4 \<mapsto> WriteEnd path))"
  by (simp add: pipe_fds_def fd_free_std)

lemma pipe_out: "std_fds f \<Longrightarrow> close_fd 4 (close_fd 3 (dup_fd 4 (close_fd 1 (f(3 \<mapsto> a, 4 \<mapsto> b))))) = f(1 \<mapsto> b)"
  by (erule std_fdsD) (auto simp: fun_eq_iff close_fd_def dup_fd_def fd_free_def fd_list)

lemma pipe_in: "std_fds f \<Longrightarrow> close_fd 4 (close_fd 3 (dup_fd 3 (close_fd 0 (f(3 \<mapsto> a, 4 \<mapsto> b))))) = f(0 \<mapsto> a)"
  by (erule std_fdsD) (auto simp: fun_eq_iff close_fd_def dup_fd_def fd_free_def fd_list)

lemma runcmd_wire: "std_fds f \<Longrightarrow> std_redirs c \<Longrightarrow> runcmd w path c f = wire w path c f"
proof (induction w path c f rule: runcmd.induct)
  case (2 w path c name mode fd f)
  have fd: "fd < 3" "std_redirs c" using 2(3) by simp_all
  show ?case
  proof (cases "opens w name mode")
    case True
    then have "open_fd w name mode (close_fd fd f) = Some (fd, f(fd \<mapsto> Opened name mode))"
      using fd_free_closed[OF 2(2) fd(1)] by (simp add: open_fd_def close_fd_def)
    then show ?thesis using 2(1)[of "(fd, f(fd \<mapsto> Opened name mode))" fd, OF _ refl std_fds_upd[OF 2(2) fd(1)] fd(2)] True by (simp del: fun_upd_apply)
  qed (simp add: open_fd_def)
next
  case (4 w path l r f)
  note p = pipe_std[OF 4(3)]
  have "runcmd w (path @ [0]) l (f(1 \<mapsto> WriteEnd path)) = wire w (path @ [0]) l (f(1 \<mapsto> WriteEnd path))"
    if "pipes w path" "forks w (path @ [0])"
    using 4(1)[OF _ p refl refl, unfolded pipe_out[OF 4(3)]] that 4(4) std_fds_upd[OF 4(3)] by (simp del: fun_upd_apply)
  moreover have "runcmd w (path @ [1]) r (f(0 \<mapsto> ReadEnd path)) = wire w (path @ [1]) r (f(0 \<mapsto> ReadEnd path))"
    if "pipes w path" "forks w (path @ [0])" "forks w (path @ [1])"
    using 4(2)[OF _ p refl refl, unfolded pipe_in[OF 4(3)]] that 4(4) std_fds_upd[OF 4(3)] by (simp del: fun_upd_apply)
  ultimately show ?case using p pipe_out[OF 4(3)] pipe_in[OF 4(3)] by simp
qed auto

text \<open>The programs that a list of actions starts, each with its descriptors.\<close>

fun programs :: "act \<Rightarrow> (string list \<times> fds) list" where
  "programs (Ran argv f) = [(argv, f)]"
| "programs (Fork acts) = concat (map programs acts)"
| "programs _ = []"

lemma programs_wire:
  "std_fds f \<Longrightarrow> std_redirs c \<Longrightarrow> a \<in> set (wire w path c f) \<Longrightarrow> (argv, g) \<in> set (programs a) \<Longrightarrow> std_fds g"
proof (induction w path c f arbitrary: a rule: wire.induct)
  case (2 w path c name mode fd f)
  have fd: "fd < 3" "std_redirs c" using 2(3) by simp_all
  show ?case
  proof (cases "opens w name mode")
    case True
    then show ?thesis using 2(1)[OF True std_fds_upd[OF 2(2) fd(1)] fd(2) _ 2(5)] 2(4) by (simp del: fun_upd_apply)
  qed (use 2(4,5) in \<open>auto simp: says_def\<close>)
next
  case (4 w path l r f)
  then show ?case using std_fds_upd[OF 4(3), of 0] std_fds_upd[OF 4(3), of 1] by (auto simp: sh_panic_def says_def simp del: fun_upd_apply split: if_splits)
qed (auto simp: sh_panic_def says_def split: if_splits)

section \<open>The commands that the parser makes\<close>

definition redirs_std :: "'w redir list \<Rightarrow> bool" where
  "redirs_std rs \<longleftrightarrow> list_all (\<lambda>r. snd (snd r) < 3) rs"

lemma redirs_std_simps [simp]: "redirs_std []" "redirs_std (rs @ redir_of tok w) \<longleftrightarrow> redirs_std rs"
  by (simp_all add: redirs_std_def redir_of_def)

lemma parse_redirs_std: "parse_redirs rs ps = Done (rs', s) \<Longrightarrow> redirs_std rs \<Longrightarrow> redirs_std rs'"
proof (induction rs ps rule: parse_redirs.induct)
  case (1 rs ps)
  obtain b t where p: "peek_tok ''<>'' ps = (b, t)" by fastforce
  obtain tok q eq s1 tok2 q2 eq2 s2 where g: "gettoken t = (tok, q, eq, s1)" "gettoken s1 = (tok2, q2, eq2, s2)" by (metis prod_cases4)
  have e: "(if b then if tok2 \<noteq> CHR ''a'' then Failed ''missing file for redirection'' else parse_redirs (rs @ redir_of tok (q2, eq2)) s2
      else Done (rs, t)) = Done (rs', s)" using 1(2) by (subst (asm) parse_redirs.simps) (simp only: p g Let_def prod.case)
  show ?case
  proof (cases b)
    case True
    then have "tok2 = CHR ''a''" "parse_redirs (rs @ redir_of tok (q2, eq2)) s2 = Done (rs', s)" using e by (auto split: if_splits)
    then show ?thesis using 1(1)[OF p[symmetric] refl True g(1)[symmetric] refl refl refl g(2)[symmetric] refl refl refl] 1(3) by simp
  qed (use e 1(3) in simp)
qed

lemma parse_args_std: "parse_args argv rs ps = Done (argv', rs', s) \<Longrightarrow> redirs_std rs \<Longrightarrow> redirs_std rs'"
proof (induction argv rs ps rule: parse_args.induct)
  case (1 argv rs ps)
  obtain b t where p: "peek_tok ''|)&;'' ps = (b, t)" by fastforce
  obtain tok q eq s1 where g: "gettoken t = (tok, q, eq, s1)" by (metis prod_cases4)
  have e: "(if b then Done (argv, rs, t) else if tok = CHR 0x00 then Done (argv, rs, s1) else if tok \<noteq> CHR ''a'' then Failed ''syntax''
      else if length (argv @ [(q, eq)]) \<ge> MAXARGS then Failed ''too many args''
      else case parse_redirs rs s1 of Done (rs', s2) \<Rightarrow> parse_args (argv @ [(q, eq)]) rs' s2 | Failed m \<Rightarrow> Failed m | Deeper \<Rightarrow> Deeper) = Done (argv', rs', s)"
    using 1(2) by (subst (asm) parse_args.simps) (simp only: p g Let_def prod.case)
  show ?case
  proof (cases "b \<or> tok = CHR 0x00")
    case False
    then obtain r2 s2 where r: "parse_redirs rs s1 = Done (r2, s2)" "parse_args (argv @ [(q, eq)]) r2 s2 = Done (argv', rs', s)"
      and c: "\<not> b" "tok \<noteq> CHR 0x00" "tok = CHR ''a''" "\<not> MAXARGS \<le> length (argv @ [(q, eq)])"
      using e by (auto split: if_splits parsed.splits prod.splits simp del: length_append)
    show ?thesis
      using 1(1)[OF p[symmetric] refl c(1) g[symmetric] refl refl refl c(2) _ c(4) r(1) refl r(2) parse_redirs_std[OF r(1) 1(3)]] c(3) by simp
  qed (use e 1(3) in \<open>auto split: if_splits\<close>)
qed

lemma redirs_commands: "redirs_std rs \<Longrightarrow> std_redirs c \<Longrightarrow> std_redirs (redirs rs c)"
  unfolding redirs_def by (induction rs arbitrary: c) (auto simp: redirs_std_def)

lemma parse_backs_std: "parse_backs c ps = (c', s) \<Longrightarrow> std_redirs c \<Longrightarrow> std_redirs c'"
proof (induction c ps rule: parse_backs.induct)
  case (1 c ps)
  from 1(2) show ?case
    by (subst (asm) parse_backs.simps) (use 1(1,3) in \<open>auto split: prod.splits if_splits\<close>)
qed

lemma pbind_Done_iff: "pbind r f = Done y \<longleftrightarrow> (\<exists>x. r = Done x \<and> f x = Done y)"
  by (cases r) (auto simp: pbind_def)

lemma parse_std:
  "parseline n ps = Done (c, s) \<Longrightarrow> std_redirs c" "parsepipe n ps = Done (c, s) \<Longrightarrow> std_redirs c"
  "parseexec n ps = Done (c, s) \<Longrightarrow> std_redirs c" "parseblock n ps = Done (c, s) \<Longrightarrow> std_redirs c"
proof (induction n ps and n ps and n ps and n ps arbitrary: c s and c s and c s and c s rule: parseline_parsepipe_parseexec_parseblock.induct)
  case (2 n ps)
  obtain c0 s0 where a: "parsepipe n ps = Done (c0, s0)" using 2(3) by (auto simp: pbind_Done_iff)
  obtain c1 s1 b s2 where p: "parse_backs c0 s0 = (c1, s1)" "peek_tok '';'' s1 = (b, s2)" by (metis surj_pair)
  have c1: "std_redirs c1" by (rule parse_backs_std[OF p(1) 2(1)[OF a]])
  show ?case
  proof (cases b)
    case True
    then obtain d s3 where d: "parseline n (after_token s2) = Done (d, s3)" "c = LIST c1 d" using 2(3) a p by (auto simp: pbind_Done_iff)
    then show ?thesis using 2(2)[OF refl p(1)[symmetric] p(2)[symmetric] refl True d(1)] c1 by simp
  qed (use 2(3) a p c1 in \<open>simp add: pbind_def\<close>)
next
  case (4 n ps)
  obtain c0 s0 where a: "parseexec n ps = Done (c0, s0)" using 4(3) by (auto simp: pbind_Done_iff)
  obtain b s1 where p: "peek_tok ''|'' s0 = (b, s1)" by fastforce
  show ?case
  proof (cases b)
    case True
    then obtain d s2 where d: "parsepipe n (after_token s1) = Done (d, s2)" "c = PIPE c0 d" using 4(3) a p by (auto simp: pbind_Done_iff)
    then show ?thesis using 4(2)[OF refl p[symmetric] True d(1)] 4(1)[OF a] by simp
  qed (use 4(3) a p 4(1)[OF a] in \<open>simp add: pbind_def\<close>)
next
  case (6 n ps)
  obtain b t where p: "peek_tok ''('' ps = (b, t)" by fastforce
  show ?case
  proof (cases b)
    case True
    then show ?thesis using 6(2) 6(1)[OF refl p[symmetric] True] p by simp
  next
    case False
    then obtain rs s1 argv rs' s2 where r: "parse_redirs [] t = Done (rs, s1)" "parse_args [] rs s1 = Done (argv, rs', s2)" "c = redirs rs' (EXEC argv)"
      using 6(2) p by (auto simp: pbind_Done_iff)
    then show ?thesis using redirs_commands[OF parse_args_std[OF r(2) parse_redirs_std[OF r(1)]]] by simp
  qed
next
  case (8 n ps)
  obtain b t where p: "peek_tok ''('' ps = (b, t)" by fastforce
  have b: b using 8(2) p by (auto split: if_splits)
  obtain c0 s1 where a: "parseline n (after_token t) = Done (c0, s1)" using 8(2) p b by (auto simp: pbind_Done_iff)
  obtain b2 s2 where p2: "peek_tok '')'' s1 = (b2, s2)" by fastforce
  have "b2" using 8(2) p b a p2 by (auto simp: pbind_def split: if_splits)
  then obtain rs s3 where r: "parse_redirs [] (after_token s2) = Done (rs, s3)" "c = redirs rs c0" using 8(2) p b a p2 by (auto simp: pbind_Done_iff)
  show ?case unfolding r(2) using redirs_commands[OF parse_redirs_std[OF r(1)]] 8(1)[OF refl p[symmetric] _ a] b by simp
qed simp_all

lemma std_redirs_map [simp]: "std_redirs (map_cmd h c) = std_redirs c"
  by (induction c) simp_all

lemma parsecmd_std: "parsecmd s = Done (c, buf) \<Longrightarrow> std_redirs c"
proof -
  assume "parsecmd s = Done (c, buf)"
  then have "parseall s = Done c" by (auto simp: parsecmd_def pbind_Done_iff)
  then obtain s1 where "parseline (4 * length s + 4) s = Done (c, s1)"
    by (auto simp: parseall_def pbind_Done_iff case_prod_unfold Let_def split: if_splits)
  then show ?thesis by (rule parse_std(1))
qed

section \<open>The shell\<close>

lemma fd_free_first:
  assumes "f 3 = None"
  obtains j where "fd_free f = Some j" "j \<le> 3" "f j = None" "\<forall>i < j. f i \<noteq> None"
proof -
  have "(3 :: nat) \<in> set [0..<16]" by simp
  then have "fd_free f \<noteq> None" using assms unfolding fd_free_def find_None_iff by blast
  then obtain j where j: "fd_free f = Some j" by blast
  then obtain k where "k < 16" "f j = None" "j = k" "\<forall>i < k. f i \<noteq> None" unfolding fd_free_def find_Some_iff by auto
  moreover from this have "\<not> 3 < j" using assms by auto
  ultimately show thesis using that[OF j] by simp
qed

lemma console_std:
  assumes "opens w ''console'' O_RDWR" "dom f \<subseteq> {0, 1, 2}"
  shows "std_fds (console_fds w f)"
  using assms
proof (induction w f rule: console_fds.induct)
  case (1 w f)
  have three: "f i = None" if "3 \<le> i" for i using 1(3) that by (force simp: dom_def)
  obtain j where j: "fd_free f = Some j" "j \<le> 3" "f j = None" "\<forall>i < j. f i \<noteq> None" by (rule fd_free_first[of f, OF three[OF order_refl]])
  let ?f = "f(j \<mapsto> Opened ''console'' O_RDWR)"
  have o: "open_fd w ''console'' O_RDWR f = Some (j, ?f)" using j(1) 1(2) by (simp add: open_fd_def)
  show ?case
  proof (cases "j = 3")
    case True
    have "close_fd j ?f = f" using j(3) by (simp add: close_fd_def fun_upd_idem)
    moreover have "dom f = {0, 1, 2}" using 1(3) j(4)[rule_format, of 0] j(4)[rule_format, of 1] j(4)[rule_format, of 2] True by (auto simp: dom_def)
    ultimately show ?thesis using True o by (subst console_fds.simps) (simp add: std_fds_def del: fun_upd_apply)
  next
    case False
    then have lt: "\<not> 3 \<le> j" "j \<in> {0, 1, 2}" using j(2) by auto
    have "dom ?f \<subseteq> {0, 1, 2}" using 1(3) lt(2) by simp
    from 1(1)[OF o refl lt(1) 1(2) this] show ?thesis using lt(1) o by (subst console_fds.simps) (simp del: fun_upd_apply)
  qed
qed

lemma sh_loop_programs:
  assumes "std_fds f" "a \<in> set (sh_loop w n inp f)" "(argv, g) \<in> set (programs a)"
  shows "std_fds g"
  using assms
proof (induction w n inp f rule: sh_loop.induct)
  case (1 w n inp f)
  obtain line rest where l: "ugets 100 inp = (line, rest)" by fastforce
  let ?s = "takeWhile (\<lambda>c. c \<noteq> CHR 0x00) line"
  have run: "std_fds g" if "parsecmd ?s = Done (c, buf)" "b \<in> set (runcmd w [n] (map_cmd (cword buf) c) f)" "(argv, g) \<in> set (programs b)" for c buf b
  proof -
    have "std_redirs (map_cmd (cword buf) c)" using parsecmd_std[OF that(1)] by simp
    then show ?thesis using programs_wire[OF 1(3) _ _ that(3)] runcmd_wire[OF 1(3)] that(2) by (metis (no_types))
  qed
  note rec = 1(1)[OF l[symmetric] refl refl _ _ 1(3) _ 1(5)] 1(2)[OF l[symmetric] refl refl _ _ _ 1(3) _ 1(5)]
  from 1(4) show ?case
    by (subst (asm) sh_loop.simps)
      (use rec run l 1(5) in \<open>auto simp: Let_def sh_panic_def says_def split: if_splits parsed.splits\<close>)
qed

text \<open>
  C22. The shell connects its programs by pipes and files and leaves no descriptor open by mistake. For every command that its parser
  makes, \<open>runcmd\<close> with its closing, opening and duplicating of descriptors does what the command means: a pipe replaces the output on
  the left and the input on the right, a redirection one descriptor, and nothing else changes, also when a system call fails. So on
  any input, every program that the shell starts has just the descriptors 0, 1 and 2; a reader of a pipe sees its end.
\<close>

theorem shell_descriptors:
  assumes "opens w ''console'' O_RDWR" "dom f \<subseteq> {0, 1, 2}"
  shows "(\<forall>a argv g. a \<in> set (sh_main w inp f) \<longrightarrow> (argv, g) \<in> set (programs a) \<longrightarrow> dom g = {0, 1, 2}) \<and>
    (\<forall>s c buf path. parsecmd s = Done (c, buf) \<longrightarrow>
      runcmd w path (map_cmd (cword buf) c) (console_fds w f) = wire w path (map_cmd (cword buf) c) (console_fds w f))"
proof -
  note std = console_std[OF assms]
  have "std_redirs (map_cmd (cword buf) c)" if "parsecmd s = Done (c, buf)" for s c buf using parsecmd_std[OF that] by simp
  then show ?thesis using sh_loop_programs[OF std, of _ w 0 inp] runcmd_wire[OF std] unfolding sh_main_def by (auto simp: std_fds_def)
qed

definition demo_world :: world where
  "demo_world = \<lparr>opens = (\<lambda>_ _. True), execs = (\<lambda>_. True), forks = (\<lambda>_. True), pipes = (\<lambda>_. True), chdirs = (\<lambda>_. True)\<rparr>"

theorem shell_descriptors_witness:
  "list_all (\<lambda>a. list_all (\<lambda>(argv, g). dom g = {0, 1, 2}) (programs a)) (sh_main demo_world (''ls|wc'' @ [CHR 0x0A]) Map.empty) \<and>
   (\<exists>f. runcmd demo_world [0] (PIPE (EXEC [''ls'']) (EXEC [''wc''])) (console_fds demo_world Map.empty) =
     [Fork [Ran [''ls''] (f(1 \<mapsto> WriteEnd [0]))], Fork [Ran [''wc''] (f(0 \<mapsto> ReadEnd [0]))], Waits, Waits])"
proof -
  have o: "opens demo_world ''console'' O_RDWR" "dom (Map.empty :: fds) \<subseteq> {0, 1, 2}" by (simp_all add: demo_world_def)
  note d = shell_descriptors[OF o, of "''ls|wc'' @ [CHR 0x0A]"]
  have "std_redirs (PIPE (EXEC [''ls'']) (EXEC [''wc'']))" by simp
  from runcmd_wire[OF console_std[OF o] this, of demo_world "[0]"]
  moreover have "list_all (\<lambda>a. list_all (\<lambda>(argv, g). dom g = {0, 1, 2}) (programs a)) (sh_main demo_world (''ls|wc'' @ [CHR 0x0A]) Map.empty)"
    unfolding list_all_iff using d[THEN conjunct1] by blast
  ultimately show ?thesis by (auto simp: demo_world_def)
qed

end
