(* ===== verification/User_Tools.thy ===== *)
theory User_Tools
  imports User_Grep User_Lib
begin

text \<open>
  The programs \<open>cat\<close>, \<open>wc\<close>, \<open>echo\<close>, \<open>ls\<close> and the loop of \<open>grep\<close> (\<open>xv6/user/\<close>). A program is a function of its arguments and of what the
  system calls give it; its result is the sequence of what it writes, each text with its file descriptor. What reads from an open
  file return is a \<open>source\<close>: the pieces that become available one after the other, as from a pipe or the console, and whether the
  read after the last piece fails. A file on disk arrives in one piece, of which a read takes as much as it asked for.
\<close>

section \<open>Reading and writing\<close>

datatype source = Input (pieces: "string list") (fails: bool)

fun read_input :: "nat \<Rightarrow> source \<Rightarrow> string option \<times> source" where
  "read_input n (Input [] e) = (if e then None else Some [], Input [] e)"
| "read_input n (Input (c # cs) e) = (Some (take n c), Input (if length c \<le> n then cs else drop n c # cs) e)"

definition input_size :: "source \<Rightarrow> nat" where
  "input_size i = sum_list (map length (pieces i)) + length (pieces i)"

type_synonym writes = "(nat \<times> string) list"

definition text_on :: "nat \<Rightarrow> writes \<Rightarrow> string" where
  "text_on fd ws = concat (map snd (filter (\<lambda>w. fst w = fd) ws))"

lemma read_shrinks: "read_input n i = (Some r, j) \<Longrightarrow> r \<noteq> [] \<Longrightarrow> input_size j < input_size i"
  by (cases "(n, i)" rule: read_input.cases) (auto simp: input_size_def split: if_splits)

abbreviation newline :: char where "newline \<equiv> CHR 0x0A"
abbreviation nul :: char where "nul \<equiv> CHR 0x00"

section \<open>cat.c, echo.c\<close>

function cat :: "source \<Rightarrow> writes \<times> bool" where
  "cat i =
     (case read_input 512 i of
        (None, j) \<Rightarrow> ([(1, ''cat: read error'' @ [newline])], False)
      | (Some r, j) \<Rightarrow> if r = [] then ([], True) else (let (ws, ok) = cat j in ((1, r) # ws, ok)))"
  by pat_completeness auto
termination by (relation "measure input_size") (auto intro: read_shrinks[OF sym])

declare cat.simps [simp del]

definition cannot_open :: "string \<Rightarrow> string \<Rightarrow> string" where
  "cannot_open prog name = printf (\<lambda>_. name) (prog @ '': cannot open %s'' @ [newline]) (\<lambda>_. 1)"

fun cat_files :: "(string \<Rightarrow> source option) \<Rightarrow> string list \<Rightarrow> writes" where
  "cat_files files [] = []"
| "cat_files files (a # as) =
     (case files a of
        None \<Rightarrow> [(1, cannot_open ''cat'' a)]
      | Some i \<Rightarrow> let (ws, ok) = cat i in if ok then ws @ cat_files files as else ws)"

definition cat_main :: "(string \<Rightarrow> source option) \<Rightarrow> source \<Rightarrow> string list \<Rightarrow> writes" where
  "cat_main files stdin args = (if args = [] then fst (cat stdin) else cat_files files args)"

fun echo_main :: "string list \<Rightarrow> writes" where
  "echo_main [] = []"
| "echo_main (a # as) =
     (1, printf (\<lambda>p. if p = 1 then a else if as \<noteq> [] then '' '' else [newline]) ''%s%s'' (nth [1, 2])) # echo_main as"

section \<open>wc.c\<close>

record counts =
  nlines :: "32 word"
  nwords :: "32 word"
  nchars :: "32 word"
  inword :: bool

definition wc_char :: "char \<Rightarrow> counts \<Rightarrow> counts" where
  "wc_char ch k =
    (let k1 = k\<lparr>nchars := nchars k + 1\<rparr>;
         k2 = (if ch = newline then k1\<lparr>nlines := nlines k1 + 1\<rparr> else k1)
     in if strchr [CHR '' '', CHR 0x0D, CHR 0x09, newline, CHR 0x0B] ch \<noteq> None then k2\<lparr>inword := False\<rparr>
        else if \<not> inword k2 then k2\<lparr>nwords := nwords k2 + 1, inword := True\<rparr>
        else k2)"

function wc_loop :: "source \<Rightarrow> counts \<Rightarrow> counts option" where
  "wc_loop i k =
     (case read_input 512 i of
        (None, j) \<Rightarrow> None
      | (Some r, j) \<Rightarrow> if r = [] then Some k else wc_loop j (fold wc_char r k))"
  by pat_completeness auto
termination by (relation "measure (\<lambda>(i, k). input_size i)") (auto intro: read_shrinks[OF sym])

declare wc_loop.simps [simp del]

definition wc :: "source \<Rightarrow> string \<Rightarrow> writes \<times> bool" where
  "wc i name =
     (case wc_loop i \<lparr>nlines = 0, nwords = 0, nchars = 0, inword = False\<rparr> of
        None \<Rightarrow> ([(1, ''wc: read error'' @ [newline])], False)
      | Some k \<Rightarrow> ([(1, printf (\<lambda>_. name) (''%d %d %d %s'' @ [newline]) (nth [nlines k, nwords k, nchars k, 1]))], True))"

text \<open>\<open>wc\<close> reports a file that it cannot open under the name of \<open>cat\<close>.\<close>

fun wc_files :: "(string \<Rightarrow> source option) \<Rightarrow> string list \<Rightarrow> writes" where
  "wc_files files [] = []"
| "wc_files files (a # as) =
     (case files a of
        None \<Rightarrow> [(1, cannot_open ''cat'' a)]
      | Some i \<Rightarrow> let (ws, ok) = wc i a in if ok then ws @ wc_files files as else ws)"

definition wc_main :: "(string \<Rightarrow> source option) \<Rightarrow> source \<Rightarrow> string list \<Rightarrow> writes" where
  "wc_main files stdin args = (if args = [] then fst (wc stdin []) else wc_files files args)"

section \<open>The loop of grep.c\<close>

text \<open>
  \<open>buf\<close> is the array of 1024 characters and \<open>p\<close> an index into it. The search for a newline stops at a NUL and leaves the array if
  there is none (\<open>Overrun\<close>); that, and a read to a place in front of the array, is the result \<open>None\<close>. A line that does not match keeps
  the NUL that was written over its newline.
\<close>

datatype found_at = Overrun | Absent | At nat

fun find_newline :: "string \<Rightarrow> found_at" where
  "find_newline [] = Overrun"
| "find_newline (c # s) =
     (if c = nul then Absent else if c = newline then At 0
      else case find_newline s of At k \<Rightarrow> At (Suc k) | x \<Rightarrow> x)"

lemma find_newline_bound: "find_newline s = At k \<Longrightarrow> k < length s"
  by (induction s arbitrary: k) (auto split: if_splits found_at.splits)

function grep_lines :: "string \<Rightarrow> string \<Rightarrow> nat \<Rightarrow> writes \<Rightarrow> (string \<times> nat \<times> writes) option" where
  "grep_lines pattern buf p ws =
     (case find_newline (drop p buf) of
        Overrun \<Rightarrow> None
      | Absent \<Rightarrow> Some (buf, p, ws)
      | At k \<Rightarrow>
          let q = p + k; line = take k (drop p buf) in
          if match pattern line then grep_lines pattern buf (q + 1) (ws @ [(1, line @ [newline])])
          else grep_lines pattern (buf[q := nul]) (q + 1) ws)"
  by pat_completeness auto
termination
  by (relation "measure (\<lambda>(pattern, buf, p, ws). length buf - p)") (auto dest!: find_newline_bound)

declare grep_lines.simps [simp del]

function grep_loop :: "string \<Rightarrow> string \<Rightarrow> int \<Rightarrow> source \<Rightarrow> writes \<Rightarrow> (string \<times> writes) option" where
  "grep_loop pattern buf m i ws =
     (case read_input (nat (1024 - m)) i of
        (None, j) \<Rightarrow> Some (buf, ws)
      | (Some r, j) \<Rightarrow>
          if r = [] then Some (buf, ws)
          else if m < 0 then None
          else case grep_lines pattern (take (nat m) buf @ r @ drop (nat m + length r) buf) 0 ws of
              None \<Rightarrow> None
            | Some (buf2, p, ws2) \<Rightarrow>
                let m1 = m + int (length r);
                    m2 = (if p = 0 then 0 else m1);
                    m3 = (if m2 > 0 then m2 - int p else m2);
                    buf3 = (if m2 > 0 then umemmove 0 p (nat m3) buf2 else buf2)
                in grep_loop pattern buf3 m3 j ws2)"
  by pat_completeness auto
termination by (relation "measure (\<lambda>(pattern, buf, m, i, ws). input_size i)") (auto intro: read_shrinks[OF sym])

declare grep_loop.simps [simp del]

definition grep :: "string \<Rightarrow> string \<Rightarrow> source \<Rightarrow> (string \<times> writes) option" where
  "grep pattern buf i = grep_loop pattern buf 0 i []"

text \<open>The array is static: it starts with zeros, and the search of a file finds it as the one before has left it.\<close>

fun grep_files :: "string \<Rightarrow> (string \<Rightarrow> source option) \<Rightarrow> string list \<Rightarrow> string \<Rightarrow> writes option" where
  "grep_files pattern files [] buf = Some []"
| "grep_files pattern files (a # as) buf =
     (case files a of
        None \<Rightarrow> Some [(1, cannot_open ''grep'' a)]
      | Some i \<Rightarrow> Option.bind (grep pattern buf i) (\<lambda>(buf2, ws). map_option (\<lambda>vs. ws @ vs) (grep_files pattern files as buf2)))"

definition grep_main :: "(string \<Rightarrow> source option) \<Rightarrow> source \<Rightarrow> string list \<Rightarrow> writes option" where
  "grep_main files stdin args =
     (case args of
        [] \<Rightarrow> Some [(2, ''usage: grep pattern [file ...]'' @ [newline])]
      | pattern # names \<Rightarrow>
          if names = [] then map_option snd (grep pattern (replicate 1024 nul) stdin)
          else grep_files pattern files names (replicate 1024 nul))"

section \<open>ls.c\<close>

definition DIRSIZu :: nat where "DIRSIZu = 14"

text \<open>The loop that walks back from the end of the path to the last slash: the place after it.\<close>

primrec name_start :: "string \<Rightarrow> nat \<Rightarrow> nat" where
  "name_start path 0 = (if path \<noteq> [] \<and> path ! 0 = CHR ''/'' then 1 else 0)"
| "name_start path (Suc i) =
     (if Suc i < length path \<and> path ! Suc i = CHR ''/'' then Suc (Suc i) else name_start path i)"

definition fmtname :: "string \<Rightarrow> string" where
  "fmtname path =
    (let p = drop (name_start path (length path)) path in
     if length p \<ge> DIRSIZu then p else p @ replicate (DIRSIZu - length p) CHR '' '')"

record ustat =
  u_type :: "16 word"
  u_ino :: "32 word"
  u_size :: "32 word"

text \<open>
  \<open>stat_of\<close> is what \<open>stat\<close> and \<open>fstat\<close> say of a path and \<open>entries_of\<close> what reading a directory gives: the inode number and the fourteen
  characters of the name of each entry.
\<close>

definition ls_line :: "string \<Rightarrow> ustat \<Rightarrow> string" where
  "ls_line path st = printf (\<lambda>_. fmtname path) (''%s %d %d %d'' @ [newline]) (nth [1, scast (u_type st), u_ino st, u_size st])"

definition cname :: "string \<Rightarrow> string" where
  "cname s = takeWhile (\<lambda>c. c \<noteq> nul) s"

fun ls_entries :: "(string \<Rightarrow> ustat option) \<Rightarrow> string \<Rightarrow> (16 word \<times> string) list \<Rightarrow> writes" where
  "ls_entries stat_of path [] = []"
| "ls_entries stat_of path ((inum, name) # es) =
     (if inum = 0 then ls_entries stat_of path es
      else let buf = path @ ''/'' @ cname name in
        case stat_of buf of
          None \<Rightarrow> (1, printf (\<lambda>_. buf) (''ls: cannot stat %s'' @ [newline]) (\<lambda>_. 1)) # ls_entries stat_of path es
        | Some st \<Rightarrow> (1, ls_line buf st) # ls_entries stat_of path es)"

definition ls :: "(string \<Rightarrow> bool) \<Rightarrow> (string \<Rightarrow> ustat option) \<Rightarrow> (string \<Rightarrow> (16 word \<times> string) list) \<Rightarrow> string \<Rightarrow> writes" where
  "ls opens stat_of entries_of path =
     (if \<not> opens path then [(2, printf (\<lambda>_. path) (''ls: cannot open %s'' @ [newline]) (\<lambda>_. 1))]
      else case stat_of path of
          None \<Rightarrow> [(2, printf (\<lambda>_. path) (''ls: cannot stat %s'' @ [newline]) (\<lambda>_. 1))]
        | Some st \<Rightarrow>
            if u_type st = 2 then [(1, ls_line path st)]
            else if u_type st = 1 then
              (if length path + 1 + DIRSIZu + 1 > 512 then [(1, ''ls: path too long'' @ [newline])]
               else ls_entries stat_of path (entries_of path))
            else [])"

definition ls_main :: "(string \<Rightarrow> bool) \<Rightarrow> (string \<Rightarrow> ustat option) \<Rightarrow> (string \<Rightarrow> (16 word \<times> string) list) \<Rightarrow> string list \<Rightarrow> writes" where
  "ls_main opens stat_of entries_of args =
     (if args = [] then ls opens stat_of entries_of ''.'' else concat (map (ls opens stat_of entries_of) args))"

section \<open>rm.c, mkdir.c, ln.c, kill.c\<close>

text \<open>Here the system call is a parameter: it changes the state \<open>'s\<close> of the system and says whether it succeeded.\<close>

fun each_call :: "(string \<Rightarrow> 's \<Rightarrow> bool \<times> 's) \<Rightarrow> string \<Rightarrow> string list \<Rightarrow> 's \<Rightarrow> writes \<times> 's" where
  "each_call call msg [] s = ([], s)"
| "each_call call msg (a # as) s =
     (let (ok, s1) = call a s in
      if ok then each_call call msg as s1 else ([(2, printf (\<lambda>_. a) (msg @ [newline]) (\<lambda>_. 1))], s1))"

definition rm_main :: "(string \<Rightarrow> 's \<Rightarrow> bool \<times> 's) \<Rightarrow> string list \<Rightarrow> 's \<Rightarrow> writes \<times> 's" where
  "rm_main unlink args s =
     (if args = [] then ([(2, ''Usage: rm files...'' @ [newline])], s) else each_call unlink ''rm: %s failed to delete'' args s)"

definition mkdir_main :: "(string \<Rightarrow> 's \<Rightarrow> bool \<times> 's) \<Rightarrow> string list \<Rightarrow> 's \<Rightarrow> writes \<times> 's" where
  "mkdir_main mkdir args s =
     (if args = [] then ([(2, ''Usage: mkdir files...'' @ [newline])], s) else each_call mkdir ''mkdir: %s failed to create'' args s)"

definition ln_main :: "(string \<Rightarrow> string \<Rightarrow> 's \<Rightarrow> bool \<times> 's) \<Rightarrow> string list \<Rightarrow> 's \<Rightarrow> writes \<times> 's" where
  "ln_main link args s =
     (case args of
        [old, new] \<Rightarrow>
          let (ok, s1) = link old new s in
          (if ok then [] else [(2, printf (\<lambda>p. if p = 1 then old else new) (''link %s %s: failed'' @ [newline]) (nth [1, 2]))], s1)
      | _ \<Rightarrow> ([(2, ''Usage: ln old new'' @ [newline])], s))"

definition kill_main :: "(32 word \<Rightarrow> 's \<Rightarrow> 's) \<Rightarrow> string list \<Rightarrow> 's \<Rightarrow> 's" where
  "kill_main kill args s = fold (\<lambda>a. kill (atoi a)) args s"

text \<open>The calls are made for the arguments in order, up to the first that fails.\<close>

lemma each_call_all:
  "(\<And>a t. a \<in> set as \<Longrightarrow> fst (call a t)) \<Longrightarrow> each_call call msg as s = ([], fold (\<lambda>a t. snd (call a t)) as s)"
  by (induction as arbitrary: s) (auto simp: Let_def case_prod_unfold)

lemma each_call_stops:
  "(\<And>a t. a \<in> set as \<Longrightarrow> fst (call a t)) \<Longrightarrow> \<not> fst (call b (fold (\<lambda>a t. snd (call a t)) as s)) \<Longrightarrow>
    each_call call msg (as @ b # bs) s = ([(2, printf (\<lambda>_. b) (msg @ [newline]) (\<lambda>_. 1))], fold (\<lambda>a t. snd (call a t)) (as @ [b]) s)"
  by (induction as arbitrary: s) (auto simp: Let_def case_prod_unfold)

section \<open>What the programs write\<close>

definition contents :: "source \<Rightarrow> string" where
  "contents i = concat (pieces i)"

definition clean_source :: "source \<Rightarrow> bool" where
  "clean_source i \<longleftrightarrow> [] \<notin> set (pieces i) \<and> \<not> fails i"

lemma read_clean:
  assumes "clean_source i" "0 < n"
  obtains "contents i = []" "read_input n i = (Some [], i)"
  | r j where "read_input n i = (Some r, j)" "r \<noteq> []" "clean_source j" "contents i = r @ contents j" "input_size j < input_size i"
proof (cases i)
  case (Input cs e)
  show thesis
  proof (cases cs)
    case Nil
    then show ?thesis using that(1) Input assms by (simp add: contents_def clean_source_def)
  next
    case (Cons c ds)
    let ?j = "Input (if length c \<le> n then ds else drop n c # ds) e"
    have r: "read_input n i = (Some (take n c), ?j)" using Input Cons by simp
    have ne: "take n c \<noteq> []" using assms Input Cons by (auto simp: clean_source_def)
    show ?thesis
      by (rule that(2)[OF r ne _ _ read_shrinks[OF r ne]]) (use assms(1) Input Cons in \<open>auto simp: clean_source_def contents_def\<close>)
  qed
qed

lemma text_on_simps [simp]:
  "text_on fd [] = []" "text_on fd ((f, s) # ws) = (if f = fd then s else []) @ text_on fd ws" "text_on fd (ws @ vs) = text_on fd ws @ text_on fd vs"
  by (simp_all add: text_on_def)

lemma cat_copies: "clean_source i \<Longrightarrow> text_on 1 (fst (cat i)) = contents i \<and> snd (cat i)"
proof (induction i rule: measure_induct_rule[of input_size])
  case (less i)
  show ?case
  proof (rule read_clean[OF less.prems, of 512])
    assume "contents i = []" "read_input 512 i = (Some [], i)"
    then show ?thesis by (subst (1 2) cat.simps) simp
  next
    fix r j assume r: "read_input 512 i = (Some r, j)" "r \<noteq> []" "clean_source j" "contents i = r @ contents j" "input_size j < input_size i"
    from less.IH[OF r(5,3)] show ?thesis using r(1,2,4) by (subst (1 2) cat.simps) (auto split: prod.split)
  qed simp
qed

lemma cat_files_copies:
  assumes "\<And>a. a \<in> set as \<Longrightarrow> \<exists>i. files a = Some i \<and> clean_source i"
  shows "text_on 1 (cat_files files as) = concat (map (\<lambda>a. contents (the (files a))) as)"
  using assms
proof (induction as)
  case (Cons a as)
  then obtain i where i: "files a = Some i" "clean_source i" by auto
  obtain ws where "cat i = (ws, True)" "text_on 1 ws = contents i" using cat_copies[OF i(2)] by (cases "cat i") auto
  then show ?case using Cons i by simp
qed simp

lemma echo_text:
  "text_on 1 (echo_main as) = (if as = [] then [] else concat (map (\<lambda>a. a @ '' '') (butlast as)) @ last as @ [newline])"
  by (induction as) (auto simp: printf_def cstring_def)

text \<open>The words of a text by splitting it at the white space.\<close>

definition ws_char :: "char \<Rightarrow> bool" where
  "ws_char c \<longleftrightarrow> c = CHR '' '' \<or> c = CHR 0x0D \<or> c = CHR 0x09 \<or> c = newline \<or> c = CHR 0x0B"

function word_list :: "string \<Rightarrow> string list" where
  "word_list [] = []"
| "word_list (c # s) =
     (if ws_char c then word_list s
      else (c # takeWhile (\<lambda>d. \<not> ws_char d) s) # word_list (dropWhile (\<lambda>d. \<not> ws_char d) s))"
  by pat_completeness auto
termination by (relation "measure length") (auto simp: length_dropWhile_le le_imp_less_Suc)

lemma ws_char_strchr: "strchr [CHR '' '', CHR 0x0D, CHR 0x09, newline, CHR 0x0B] c \<noteq> None \<longleftrightarrow> ws_char c"
  by (auto simp: ws_char_def)

lemma wc_char_fields:
  "nchars (wc_char c k) = nchars k + 1" "nlines (wc_char c k) = nlines k + (if c = newline then 1 else 0)"
  "inword (wc_char c k) \<longleftrightarrow> \<not> ws_char c" "nwords (wc_char c k) = nwords k + (if ws_char c \<or> inword k then 0 else 1)"
  unfolding wc_char_def Let_def ws_char_strchr by auto

lemma wc_fold:
  "nchars (fold wc_char s k) = nchars k + of_nat (length s)"
  "nlines (fold wc_char s k) = nlines k + of_nat (length (filter (\<lambda>c. c = newline) s))"
  "nwords (fold wc_char s k) = nwords k + of_nat (length (word_list (if inword k then dropWhile (\<lambda>d. \<not> ws_char d) s else s)))"
  by (induction s arbitrary: k) (auto simp: wc_char_fields)

lemma wc_loop_fold: "clean_source i \<Longrightarrow> wc_loop i k = Some (fold wc_char (contents i) k)"
proof (induction i arbitrary: k rule: measure_induct_rule[of input_size])
  case (less i)
  show ?case
  proof (rule read_clean[OF less.prems, of 512])
    assume "contents i = []" "read_input 512 i = (Some [], i)"
    then show ?thesis by (subst wc_loop.simps) simp
  next
    fix r j assume r: "read_input 512 i = (Some r, j)" "r \<noteq> []" "clean_source j" "contents i = r @ contents j" "input_size j < input_size i"
    from less.IH[OF r(5,3)] show ?thesis using r(1,2,4) by (subst wc_loop.simps) simp
  qed simp
qed

text \<open>
  \<open>wc\<close> prints the number of newlines, of words and of characters of its input, in whatever pieces that arrives.
\<close>

theorem wc_counts:
  assumes "clean_source i"
  shows "wc i name = ([(1, printf (\<lambda>_. name) (''%d %d %d %s'' @ [newline])
    (nth [of_nat (length (filter (\<lambda>c. c = newline) (contents i))), of_nat (length (word_list (contents i))), of_nat (length (contents i)), 1]))], True)"
  by (simp add: wc_def wc_loop_fold[OF assms] wc_fold)

text \<open>\<open>fmtname\<close> gives the last element of the path, padded with blanks to the length of a directory entry.\<close>

lemma name_start_last:
  "i < length path \<Longrightarrow> drop (name_start path i) (take (Suc i) path) = rev (takeWhile (\<lambda>c. c \<noteq> CHR ''/'') (rev (take (Suc i) path)))"
proof (induction i)
  case 0
  then show ?case by (cases path) auto
next
  case (Suc i)
  have le: "name_start path i \<le> Suc i" by (induction i) (auto intro: le_SucI)
  have t: "take (Suc (Suc i)) path = take (Suc i) path @ [path ! Suc i]" using Suc.prems by (simp add: take_Suc_conv_app_nth)
  show ?case unfolding t using Suc le by (cases "path ! Suc i = CHR ''/''") simp_all
qed

theorem fmtname_last_element:
  "fmtname path = (let e = rev (takeWhile (\<lambda>c. c \<noteq> CHR ''/'') (rev path)) in e @ replicate (14 - length e) CHR '' '')"
proof -
  have "drop (name_start path (length path)) path = rev (takeWhile (\<lambda>c. c \<noteq> CHR ''/'') (rev path))"
  proof (cases "length path")
    case (Suc i)
    then show ?thesis using name_start_last[of i path] by simp
  qed simp
  then show ?thesis by (simp add: fmtname_def DIRSIZu_def Let_def)
qed

section \<open>grep on a file that fits\<close>

text \<open>The lines of a text that end in a newline.\<close>

function full_lines :: "string \<Rightarrow> string list" where
  "full_lines s =
     (if newline \<in> set s then takeWhile (\<lambda>c. c \<noteq> newline) s # full_lines (tl (dropWhile (\<lambda>c. c \<noteq> newline) s)) else [])"
  by pat_completeness auto
termination
proof (relation "measure length")
  fix s :: string assume "newline \<in> set s"
  then have "dropWhile (\<lambda>c. c \<noteq> newline) s \<noteq> []" by (simp add: dropWhile_eq_Nil_conv)
  then have "length (tl (dropWhile (\<lambda>c. c \<noteq> newline) s)) < length (dropWhile (\<lambda>c. c \<noteq> newline) s)" by (cases "dropWhile (\<lambda>c. c \<noteq> newline) s") simp_all
  also have "\<dots> \<le> length s" by (rule length_dropWhile_le)
  finally show "(tl (dropWhile (\<lambda>c. c \<noteq> newline) s), s) \<in> measure length" by simp
qed simp

declare full_lines.simps [simp del]

lemma full_lines_cases:
  "newline \<notin> set l \<Longrightarrow> full_lines l = []" "newline \<notin> set l \<Longrightarrow> full_lines (l @ newline # s) = l # full_lines s"
proof -
  show "newline \<notin> set l \<Longrightarrow> full_lines l = []" by (simp add: full_lines.simps)
  assume "newline \<notin> set l"
  then have "\<forall>c \<in> set l. c \<noteq> newline" by auto
  then show "full_lines (l @ newline # s) = l # full_lines s" by (subst full_lines.simps) simp
qed

lemma find_newline_line: "newline \<notin> set l \<Longrightarrow> nul \<notin> set l \<Longrightarrow> find_newline (l @ newline # s) = At (length l)"
  by (induction l) auto

lemma find_newline_end: "newline \<notin> set l \<Longrightarrow> nul \<notin> set l \<Longrightarrow> find_newline (l @ nul # s) = Absent"
  by (induction l) auto

lemma grep_lines_text:
  assumes "nul \<notin> set s" "drop p buf = s @ nul # rest" "p \<le> length buf"
  shows "\<exists>buf' p'. grep_lines pattern buf p ws = Some (buf', p', ws @ map (\<lambda>l. (1, l @ [newline])) (filter (match pattern) (full_lines s))) \<and>
    length buf' = length buf \<and> p \<le> p' \<and> p' \<le> p + length s \<and> (newline \<in> set s \<longrightarrow> p < p')"
  using assms
proof (induction s arbitrary: p buf ws rule: measure_induct_rule[of length])
  case (less s)
  show ?case
  proof (cases "newline \<in> set s")
    case False
    then have "find_newline (drop p buf) = Absent" using less.prems by (simp add: find_newline_end)
    then show ?thesis using False by (subst grep_lines.simps) (simp add: full_lines_cases)
  next
    case True
    then obtain l t where s: "s = l @ newline # t" "newline \<notin> set l" by (meson split_list_first)
    let ?q = "p + length l"
    have d: "drop p buf = l @ newline # t @ nul # rest" using less.prems(2) s(1) by simp
    have len: "?q < length buf" using arg_cong[OF d, of length] by simp
    have at: "find_newline (drop p buf) = At (length l)" using less.prems(1) s d by (simp add: find_newline_line)
    have line: "take (length l) (drop p buf) = l" using d by simp
    have dq: "drop (?q + 1) buf = t @ nul # rest" using arg_cong[OF d, of "drop (length l + 1)"] by (simp add: add.commute add.left_commute)
    then have dq2: "drop (?q + 1) (buf[?q := nul]) = t @ nul # rest" by simp
    have t: "nul \<notin> set t" "length t < length s" using less.prems(1) s(1) by simp_all
    show ?thesis
    proof (cases "match pattern l")
      case True
      obtain buf' p' where r: "grep_lines pattern buf (?q + 1) (ws @ [(1, l @ [newline])]) = Some (buf', p', (ws @ [(1, l @ [newline])]) @ map (\<lambda>l. (1, l @ [newline])) (filter (match pattern) (full_lines t)))"
        "length buf' = length buf" "?q + 1 \<le> p'" "p' \<le> ?q + 1 + length t" using less.IH[OF t(2,1) dq, of "ws @ [(1, l @ [newline])]"] len by auto
      show ?thesis using at line True r s by (subst grep_lines.simps) (simp add: full_lines_cases Let_def)
    next
      case False
      obtain buf' p' where r: "grep_lines pattern (buf[?q := nul]) (?q + 1) ws = Some (buf', p', ws @ map (\<lambda>l. (1, l @ [newline])) (filter (match pattern) (full_lines t)))"
        "length buf' = length buf" "?q + 1 \<le> p'" "p' \<le> ?q + 1 + length t" using less.IH[OF t(2,1) dq2, of ws] len by auto
      show ?thesis using at line False r s by (subst grep_lines.simps) (simp add: full_lines_cases Let_def)
    qed
  qed
qed

lemma grep_at_end: "grep_loop pattern buf m (Input [] False) ws = Some (buf, ws)"
  by (subst grep_loop.simps) simp

lemma grep_one_file:
  assumes "nul \<notin> set s" "length s < 1024"
  shows "\<exists>buf ws. grep pattern (replicate 1024 nul) (Input [s] False) = Some (buf, ws) \<and>
    text_on 1 ws = concat (map (\<lambda>l. l @ [newline]) (filter (match pattern) (full_lines s)))"
proof (cases "s = []")
  case True
  then show ?thesis unfolding grep_def by (subst grep_loop.simps) (simp add: full_lines_cases)
next
  case False
  let ?ws = "map (\<lambda>l. (1, l @ [newline])) (filter (match pattern) (full_lines s))" and ?b = "s @ replicate (1024 - length s) nul"
  have b: "?b = s @ nul # replicate (1023 - length s) nul"
  proof -
    have "1024 - length s = Suc (1023 - length s)" using assms(2) by simp
    then show ?thesis by (simp only: replicate_Suc)
  qed
  obtain buf' p' where l: "grep_lines pattern ?b 0 [] = Some (buf', p', ?ws)"
    using grep_lines_text[OF assms(1), of 0 ?b "replicate (1023 - length s) nul" pattern "[]"] b by auto
  have "read_input (nat 1024) (Input [s] False) = (Some s, Input [] False)" using assms(2) by simp
  then have "\<exists>buf. grep pattern (replicate 1024 nul) (Input [s] False) = Some (buf, ?ws)"
    unfolding grep_def using False l by (subst grep_loop.simps) (simp add: grep_at_end Let_def)
  moreover have "text_on 1 ?ws = concat (map (\<lambda>l. l @ [newline]) (filter (match pattern) (full_lines s)))"
    by (simp add: text_on_def comp_def)
  ultimately show ?thesis by blast
qed

text \<open>
  C32. The program \<open>grep\<close> with a pattern and one file, or the standard input, that one call of \<open>read\<close> returns whole: less than 1024 characters,
  none of which is NUL. It prints exactly the complete lines that match, in their order; a last line without a newline is left out.
\<close>

theorem grep_prints_matches:
  assumes "nul \<notin> set s" "length s < 1024" "files f = Some (Input [s] False)"
  shows "\<exists>ws. grep_main files stdin [pattern, f] = Some ws \<and> grep_main files' (Input [s] False) [pattern] = Some ws \<and>
    text_on 1 ws = concat (map (\<lambda>l. l @ [newline]) (filter (match pattern) (full_lines s)))"
  using grep_one_file[OF assms(1,2), of pattern] assms(3) by (auto simp: grep_main_def)

theorem grep_prints_matches_witness:
  "\<exists>ws. grep_main (\<lambda>_. Some (Input [''abc'' @ newline # ''bca'' @ newline # ''ab'' @ newline # ''a''] False)) (Input [] False) [''^a'', ''f''] = Some ws \<and>
    text_on 1 ws = ''abc'' @ newline # ''ab'' @ [newline]"
proof -
  let ?s = "''abc'' @ newline # ''bca'' @ newline # ''ab'' @ newline # ''a''"
  have f: "full_lines ?s = [''abc'', ''bca'', ''ab'']"
    using full_lines_cases(2)[of "''abc''"] full_lines_cases(2)[of "''bca''"] full_lines_cases(2)[of "''ab''"] full_lines_cases(1)[of "''a''"] by simp
  have "match ''^a'' ''abc''" "match ''^a'' ''ab''" "\<not> match ''^a'' ''bca''" by (simp_all add: match_def matchhere.simps)
  then show ?thesis
    using grep_prints_matches[of ?s "\<lambda>_. Some (Input [?s] False)" "''f''" "Input [] False" "''^a''"] unfolding f by auto
qed

text \<open>
  Beyond one read the program goes wrong, since nothing ends the text in the array: two lines from the console, the second shorter than
  the first, and the rest of the first is searched and printed again.
\<close>

lemma grep_prints_old_text:
  "map_option snd (grep ''o'' (replicate 1024 nul) (Input [''hello world'' @ [newline], ''hi'' @ [newline]] False)) =
     Some [(1, ''hello world'' @ [newline]), (1, ''lo world'' @ [newline])]"
  by code_simp

end
