(* ===== verification/User_Malloc.thy ===== *)
theory User_Malloc
  imports Xv6_Vm
begin

text \<open>
  \<open>user/umalloc.c\<close>: the allocator of user programs, a circular list of free blocks in the order of their addresses, kept in the headers of
  the blocks themselves. A block is a number of units of eight bytes; its first unit is the header (\<open>ptr\<close> at the address, \<open>size\<close> four
  bytes on). The memory of the process is a store of four-byte cells at the addresses that are multiples of four, so headers alias as
  they do in the program. The loops follow pointers and need not end on a damaged list: they are partial functions, and not returning
  is \<open>None\<close>.

  The process asks for memory by \<open>sbrk\<close>, which is here the system call as the process sees it: the effect of \<open>sys_sbrk\<close>, \<open>growproc\<close>,
  \<open>allocuvm\<close> and \<open>deallocuvm\<close> on the size of the process and on its cells, given how many pages the kernel has left.
\<close>

section \<open>Memory\<close>

record uheap =
  cell :: "32 word \<Rightarrow> 32 word"
  freep :: "32 word"
  base_at :: "32 word"
  brk :: "32 word"
  pages_left :: nat

definition ptr :: "uheap \<Rightarrow> 32 word \<Rightarrow> 32 word" where "ptr m p = cell m p"
definition hsize :: "uheap \<Rightarrow> 32 word \<Rightarrow> 32 word" where "hsize m p = cell m (p + 4)"
definition set_ptr :: "32 word \<Rightarrow> 32 word \<Rightarrow> uheap \<Rightarrow> uheap" where "set_ptr p v m = m\<lparr>cell := (cell m)(p := v)\<rparr>"
definition set_hsize :: "32 word \<Rightarrow> 32 word \<Rightarrow> uheap \<Rightarrow> uheap" where "set_hsize p v m = m\<lparr>cell := (cell m)(p + 4 := v)\<rparr>"

definition uvm_pages :: "32 word \<Rightarrow> 32 word \<Rightarrow> nat" where
  "uvm_pages oldsz newsz = unat (PGROUNDUPw newsz - PGROUNDUPw oldsz) div 4096"

definition sbrk :: "32 word \<Rightarrow> uheap \<Rightarrow> 32 word \<times> uheap" where
  "sbrk n m =
    (let sz = brk m; newsz = sz + n in
     if sint n > 0 then
       (if newsz > USERTOP then (-1, m)
        else if newsz < sz then (sz, m)
        else if pages_left m < uvm_pages sz newsz then (-1, m)
        else (sz, m\<lparr>brk := newsz, pages_left := pages_left m - uvm_pages sz newsz,
                   cell := (\<lambda>a. if PGROUNDUPw sz \<le> a \<and> a < PGROUNDUPw newsz then 0 else cell m a)\<rparr>))
     else if sint n < 0 then
       (if newsz \<ge> sz then (sz, m)
        else if newsz = 0 then (-1, m\<lparr>pages_left := pages_left m + uvm_pages newsz sz\<rparr>)
        else (sz, m\<lparr>brk := newsz, pages_left := pages_left m + uvm_pages newsz sz\<rparr>))
     else (sz, m))"

section \<open>The allocator\<close>

partial_function (option) free_find :: "32 word \<Rightarrow> uheap \<Rightarrow> 32 word \<Rightarrow> (32 word) option" where
  "free_find bp m p =
     (if bp > p \<and> bp < ptr m p then Some p
      else if p \<ge> ptr m p \<and> (bp > p \<or> bp < ptr m p) then Some p
      else free_find bp m (ptr m p))"

definition join_next :: "32 word \<Rightarrow> 32 word \<Rightarrow> uheap \<Rightarrow> uheap" where
  "join_next bp p m =
     (if bp + 8 * hsize m bp = ptr m p then
        (let m1 = set_hsize bp (hsize m bp + hsize m (ptr m p)) m in set_ptr bp (ptr m1 (ptr m1 p)) m1)
      else set_ptr bp (ptr m p) m)"

definition join_prev :: "32 word \<Rightarrow> 32 word \<Rightarrow> uheap \<Rightarrow> uheap" where
  "join_prev bp p m =
     (if p + 8 * hsize m p = bp then
        (let m1 = set_hsize p (hsize m p + hsize m bp) m in set_ptr p (ptr m1 bp) m1)
      else set_ptr p bp m)"

definition free :: "32 word \<Rightarrow> uheap \<Rightarrow> uheap option" where
  "free ap m =
    (let bp = ap - 8 in
     case free_find bp m (freep m) of
       None \<Rightarrow> None
     | Some p \<Rightarrow> Some ((join_prev bp p (join_next bp p m))\<lparr>freep := p\<rparr>))"

definition morecore :: "32 word \<Rightarrow> uheap \<Rightarrow> (32 word \<times> uheap) option" where
  "morecore n m =
    (let nu = (if n < 4096 then 4096 else n);
         (p, m1) = sbrk (nu * 8) m in
     if p = -1 then Some (0, m1)
     else case free (p + 8) (set_hsize p nu m1) of
         None \<Rightarrow> None
       | Some m2 \<Rightarrow> Some (freep m2, m2))"

definition cut_block :: "32 word \<Rightarrow> 32 word \<Rightarrow> 32 word \<Rightarrow> uheap \<Rightarrow> 32 word \<times> uheap" where
  "cut_block nunits prevp p m =
    (if hsize m p = nunits then (p + 8, (set_ptr prevp (ptr m p) m)\<lparr>freep := prevp\<rparr>)
     else let m1 = set_hsize p (hsize m p - nunits) m;
              q = p + 8 * hsize m1 p
          in (q + 8, (set_hsize q nunits m1)\<lparr>freep := prevp\<rparr>))"

partial_function (option) malloc_loop :: "32 word \<Rightarrow> 32 word \<Rightarrow> 32 word \<Rightarrow> uheap \<Rightarrow> (32 word \<times> uheap) option" where
  "malloc_loop nunits prevp p m =
     (if hsize m p \<ge> nunits then Some (cut_block nunits prevp p m)
      else if p = freep m then
        Option.bind (morecore nunits m) (\<lambda>r. if fst r = 0 then Some (0, snd r) else malloc_loop nunits (fst r) (ptr (snd r) (fst r)) (snd r))
      else malloc_loop nunits p (ptr m p) m)"

definition units :: "32 word \<Rightarrow> 32 word" where
  "units nbytes = (nbytes + 8 - 1) div 8 + 1"

definition malloc :: "32 word \<Rightarrow> uheap \<Rightarrow> (32 word \<times> uheap) option" where
  "malloc nbytes m =
    (let m1 = (if freep m = 0 then set_hsize (base_at m) 0 ((set_ptr (base_at m) (base_at m) m)\<lparr>freep := base_at m\<rparr>) else m);
         prevp = freep m1
     in malloc_loop (units nbytes) prevp (ptr m1 prevp) m1)"

section \<open>Cells and blocks\<close>

type_synonym ublock = "32 word \<times> 32 word"

definition extent :: "32 word \<Rightarrow> 32 word \<Rightarrow> nat set" where
  "extent p s = {unat p ..< unat p + 8 * unat s}"

lemma unit_add:
  fixes p s :: "32 word"
  assumes "unat p + 8 * unat s < 2 ^ 32"
  shows "unat (p + 8 * s) = unat p + 8 * unat s"
proof -
  have "unat (8 * s) = 8 * unat s" using assms by (subst unat_mult_lem[THEN iffD1]) simp_all
  then show ?thesis using assms by (subst unat_add_lem[THEN iffD1]) simp_all
qed

lemma small_add: "unat p + n < 2 ^ 32 \<Longrightarrow> unat (p + of_nat n :: 32 word) = unat p + n"
  by (subst unat_add_lem[THEN iffD1]) (simp_all add: unat_of_nat)

fun links :: "uheap \<Rightarrow> 32 word \<Rightarrow> ublock list \<Rightarrow> 32 word \<Rightarrow> bool" where
  "links m a [] e \<longleftrightarrow> ptr m a = e"
| "links m a ((p, s) # bs) e \<longleftrightarrow> ptr m a = p \<and> hsize m p = s \<and> links m p bs e"

fun asc :: "nat \<Rightarrow> ublock list \<Rightarrow> bool" where
  "asc lo [] \<longleftrightarrow> True"
| "asc lo ((p, s) # bs) \<longleftrightarrow> lo < unat p \<and> 0 < unat s \<and> asc (unat p + 8 * unat s) bs"

fun fin :: "nat \<Rightarrow> ublock list \<Rightarrow> nat" where
  "fin lo [] = lo"
| "fin lo ((p, s) # bs) = fin (unat p + 8 * unat s) bs"

definition free_bytes :: "ublock list \<Rightarrow> nat set" where
  "free_bytes bs = (\<Union>(p, s) \<in> set bs. extent p s)"

fun node_cells :: "ublock list \<Rightarrow> (32 word) set" where
  "node_cells [] = {}"
| "node_cells ((p, s) # bs) = {p, p + 4} \<union> node_cells bs"

lemma links_append: "links m a (xs @ (q, t) # ys) e \<longleftrightarrow> links m a xs q \<and> hsize m q = t \<and> links m q ys e"
  by (induction m a xs q rule: links.induct) auto

lemma links_cong:
  "cell m' a' = cell m a \<Longrightarrow> (\<And>c. c \<in> node_cells bs \<Longrightarrow> cell m' c = cell m c) \<Longrightarrow> links m' a' bs e \<longleftrightarrow> links m a bs e"
  by (induction m a bs e arbitrary: a' rule: links.induct) (auto simp: ptr_def hsize_def)

lemma asc_append: "asc lo (xs @ ys) \<longleftrightarrow> asc lo xs \<and> asc (fin lo xs) ys"
  by (induction lo xs rule: asc.induct) auto

lemma fin_append: "fin lo (xs @ ys) = fin (fin lo xs) ys"
  by (induction lo xs rule: fin.induct) auto

lemma asc_fin: "asc lo bs \<Longrightarrow> lo \<le> fin lo bs"
  by (induction lo bs rule: asc.induct) auto

lemma asc_member:
  "asc lo bs \<Longrightarrow> (p, s) \<in> set bs \<Longrightarrow> lo < unat p \<and> 0 < unat s \<and> unat p + 8 * unat s \<le> fin lo bs"
proof (induction lo bs rule: asc.induct)
  case (2 lo q t bs)
  with asc_fin[of "unat q + 8 * unat t" bs] show ?case by auto
qed simp

lemma free_bytes_simps [simp]:
  "free_bytes [] = {}" "free_bytes ((p, s) # bs) = extent p s \<union> free_bytes bs" "free_bytes (xs @ ys) = free_bytes xs \<union> free_bytes ys"
  by (auto simp: free_bytes_def)

lemma free_bytes_range: "asc lo bs \<Longrightarrow> x \<in> free_bytes bs \<Longrightarrow> lo < x \<and> x < fin lo bs"
  using asc_member[of lo bs] by (fastforce simp: free_bytes_def extent_def)

lemma node_cells_append [simp]: "node_cells (xs @ ys) = node_cells xs \<union> node_cells ys"
  by (induction xs rule: node_cells.induct) auto

lemma node_cells_bytes:
  assumes "c \<in> node_cells bs" "asc lo bs" "fin lo bs < 2 ^ 32"
  shows "unat c \<in> free_bytes bs"
  using assms
proof (induction lo bs rule: asc.induct)
  case (2 lo p s bs)
  have s: "unat p + 8 * unat s \<le> fin lo ((p, s) # bs)" "0 < unat s" using asc_member[OF 2(3), of p s] by simp_all
  have "unat (p + of_nat 4) = unat p + 4" by (rule small_add) (use s 2(4) in linarith)
  then have "unat p \<in> extent p s" "unat (p + 4) \<in> extent p s" using s(2) by (simp_all add: extent_def)
  then show ?case using 2(1)[of] 2(2-4) by auto
qed simp

lemma cell_updates [simp]:
  "cell (set_ptr p v m) = (cell m)(p := v)" "cell (set_hsize p v m) = (cell m)(p + 4 := v)"
  "freep (set_ptr p v m) = freep m" "freep (set_hsize p v m) = freep m"
  "base_at (set_ptr p v m) = base_at m" "base_at (set_hsize p v m) = base_at m"
  "brk (set_ptr p v m) = brk m" "brk (set_hsize p v m) = brk m"
  "pages_left (set_ptr p v m) = pages_left m" "pages_left (set_hsize p v m) = pages_left m"
  by (simp_all add: set_ptr_def set_hsize_def)

section \<open>Returning a block\<close>

text \<open>
  The free list as a list of blocks: a block that is returned goes between the blocks below and above it, and is joined with each of the
  two that touches it.
\<close>

fun merge_right :: "ublock \<Rightarrow> ublock list \<Rightarrow> ublock \<times> ublock list" where
  "merge_right (p, s) [] = ((p, s), [])"
| "merge_right (p, s) ((q, t) # ys) = (if p + 8 * s = q then ((p, s + t), ys) else ((p, s), (q, t) # ys))"

definition merge_left :: "ublock list \<Rightarrow> ublock \<Rightarrow> ublock list \<Rightarrow> ublock list" where
  "merge_left xs b ys =
     (if xs \<noteq> [] \<and> fst (last xs) + 8 * snd (last xs) = fst b then butlast xs @ (fst (last xs), snd (last xs) + snd b) # ys
      else xs @ b # ys)"

lemma insertion_point:
  assumes "asc lo bs" "extent b s \<inter> free_bytes bs = {}" "0 < unat s" "lo \<le> unat b"
  shows "\<exists>xs ys. bs = xs @ ys \<and> fin lo xs \<le> unat b \<and> asc (unat b + 8 * unat s - 1) ys"
  using assms
proof (induction lo bs rule: asc.induct)
  case (2 lo q t bs)
  show ?case
  proof (cases "unat q < unat b")
    case True
    have "unat b \<in> extent b s" using 2(4) by (simp add: extent_def)
    then have "unat b \<notin> extent q t" using 2(3) by auto
    with True have "unat q + 8 * unat t \<le> unat b" by (simp add: extent_def)
    then obtain xs ys where "bs = xs @ ys" "fin (unat q + 8 * unat t) xs \<le> unat b" "asc (unat b + 8 * unat s - 1) ys" using 2 by auto
    then show ?thesis by (intro exI[of _ "(q, t) # xs"] exI[of _ ys]) simp
  next
    case False
    have "unat q \<in> extent q t" using 2(2) by (simp add: extent_def)
    then have "unat q \<notin> extent b s" using 2(3) by auto
    with False have "unat b + 8 * unat s \<le> unat q" by (simp add: extent_def)
    with 2(2,4,5) show ?thesis by (intro exI[of _ "[]"] exI[of _ "(q, t) # bs"]) auto
  qed
qed auto

lemma merge_right_list:
  assumes "asc (unat b + 8 * unat s - 1) ys" "0 < unat s" "fin (unat b + 8 * unat s) ys < 2 ^ 32" "merge_right (b, s) ys = ((b2, s2), ys2)"
  shows "b2 = b" "unat s \<le> unat s2" "asc (unat b + 8 * unat s2) ys2" "fin (unat b + 8 * unat s2) ys2 = fin (unat b + 8 * unat s) ys"
    "extent b s2 \<union> free_bytes ys2 = extent b s \<union> free_bytes ys" "node_cells ys2 \<subseteq> node_cells ys"
proof -
  have "b2 = b \<and> unat s \<le> unat s2 \<and> asc (unat b + 8 * unat s2) ys2 \<and> fin (unat b + 8 * unat s2) ys2 = fin (unat b + 8 * unat s) ys \<and>
    extent b s2 \<union> free_bytes ys2 = extent b s \<union> free_bytes ys \<and> node_cells ys2 \<subseteq> node_cells ys"
  proof (cases ys)
    case Nil
    then show ?thesis using assms(4) by simp
  next
    case (Cons c zs)
    obtain q t where c: "c = (q, t)" by (cases c)
    have q: "unat b + 8 * unat s - 1 < unat q" "0 < unat t" "asc (unat q + 8 * unat t) zs" using assms(1) Cons c by simp_all
    have qt: "unat q + 8 * unat t < 2 ^ 32" using asc_fin[OF q(3)] assms(3) Cons c by simp
    have e: "unat (b + 8 * s) = unat b + 8 * unat s" by (rule unit_add) (use q qt in linarith)
    show ?thesis
    proof (cases "b + 8 * s = q")
      case True
      have u: "unat q = unat b + 8 * unat s" using e True by simp
      have st: "unat (s + t) = unat s + unat t" by (rule unat_add_lem[THEN iffD1]) (use u qt in simp)
      have "extent b (s + t) = extent b s \<union> extent q t" unfolding extent_def st u by auto
      moreover have "unat b + 8 * unat (s + t) = unat q + 8 * unat t" unfolding st u by simp
      moreover have "unat s \<le> unat (s + t)" unfolding st by simp
      ultimately show ?thesis using assms(4) Cons c True q(3) by auto
    next
      case False
      then have "unat b + 8 * unat s \<noteq> unat q" using e by (simp add: word_unat_eq_iff)
      then show ?thesis using assms(4) Cons c False q by auto
    qed
  qed
  then show "b2 = b" "unat s \<le> unat s2" "asc (unat b + 8 * unat s2) ys2" "fin (unat b + 8 * unat s2) ys2 = fin (unat b + 8 * unat s) ys"
    "extent b s2 \<union> free_bytes ys2 = extent b s \<union> free_bytes ys" "node_cells ys2 \<subseteq> node_cells ys" by blast+
qed

lemma merge_left_list:
  assumes "asc lo xs" "lo < unat b" "fin lo xs \<le> unat b" "asc (unat b + 8 * unat s) ys" "0 < unat s" "fin (unat b + 8 * unat s) ys < 2 ^ 32"
  shows "asc lo (merge_left xs (b, s) ys)" "fin lo (merge_left xs (b, s) ys) = fin (unat b + 8 * unat s) ys"
    "free_bytes (merge_left xs (b, s) ys) = free_bytes xs \<union> extent b s \<union> free_bytes ys" "\<exists>(q, t) \<in> set (merge_left xs (b, s) ys). unat s \<le> unat t"
proof -
  let ?l = "merge_left xs (b, s) ys"
  have "asc lo ?l \<and> fin lo ?l = fin (unat b + 8 * unat s) ys \<and> free_bytes ?l = free_bytes xs \<union> extent b s \<union> free_bytes ys \<and> (\<exists>(q, t) \<in> set ?l. unat s \<le> unat t)"
  proof (cases xs rule: rev_cases)
    case Nil
    then show ?thesis using assms by (auto simp: merge_left_def)
  next
    case (snoc zs c)
    obtain q t where c: "c = (q, t)" by (cases c)
    have q: "asc lo zs" "fin lo zs < unat q" "0 < unat t" "unat q + 8 * unat t \<le> unat b" using assms(1,3) snoc c by (simp_all add: asc_append fin_append)
    have bs: "unat b + 8 * unat s < 2 ^ 32" using asc_fin[OF assms(4)] assms(6) by simp
    have e: "unat (q + 8 * t) = unat q + 8 * unat t" by (rule unit_add) (use q bs in linarith)
    show ?thesis
    proof (cases "q + 8 * t = b")
      case True
      have u: "unat b = unat q + 8 * unat t" using e True by simp
      have st: "unat (t + s) = unat t + unat s" by (rule unat_add_lem[THEN iffD1]) (use u bs in simp)
      have "extent q (t + s) = extent q t \<union> extent b s" unfolding extent_def st u by auto
      moreover have "unat q + 8 * unat (t + s) = unat b + 8 * unat s" unfolding st u by simp
      moreover have "unat s \<le> unat (t + s)" "0 < unat (t + s)" unfolding st using q(3) by simp_all
      ultimately show ?thesis using snoc c True q(1-3) assms(4) by (auto simp: merge_left_def asc_append fin_append)
    next
      case False
      then have "unat q + 8 * unat t \<noteq> unat b" using e by (simp add: word_unat_eq_iff)
      then show ?thesis using snoc c False q assms(4,5) by (auto simp: merge_left_def asc_append fin_append)
    qed
  qed
  then show "asc lo ?l" "fin lo ?l = fin (unat b + 8 * unat s) ys" "free_bytes ?l = free_bytes xs \<union> extent b s \<union> free_bytes ys"
    "\<exists>(q, t) \<in> set ?l. unat s \<le> unat t" by blast+
qed

text \<open>What the two steps of \<open>free\<close> do to the headers, for the block \<open>b\<close> between the blocks \<open>xs\<close> and \<open>ys\<close>.\<close>

lemma join_next_links:
  assumes "links m p ys e" "merge_right (b, hsize m b) ys = ((b2, s2), ys2)" "b + 8 * hsize m b \<noteq> e"
    and "b \<notin> node_cells ys" "b + 4 \<notin> node_cells ys" "p \<noteq> b" "p \<noteq> b + 4"
  shows "hsize (join_next b p m) b = s2" "links (join_next b p m) b ys2 e"
    "c \<noteq> b \<Longrightarrow> c \<noteq> b + 4 \<Longrightarrow> cell (join_next b p m) c = cell m c"
proof -
  let ?m = "join_next b p m"
  have "hsize ?m b = s2 \<and> links ?m b ys2 e \<and> (c \<noteq> b \<longrightarrow> c \<noteq> b + 4 \<longrightarrow> cell ?m c = cell m c)"
  proof (cases ys)
    case Nil
    then show ?thesis using assms by (auto simp: join_next_def ptr_def hsize_def)
  next
    case (Cons d zs)
    obtain q t where d: "d = (q, t)" by (cases d)
    have q: "ptr m p = q" "hsize m q = t" "links m q zs e" using assms(1) Cons d by simp_all
    have ne: "b \<noteq> q" "b + 4 \<noteq> q" "b \<notin> node_cells zs" "b + 4 \<notin> node_cells zs" using assms(4,5) Cons d by auto
    show ?thesis
    proof (cases "b + 8 * hsize m b = q")
      case True
      have "cell ?m = (cell m)(b + 4 := hsize m b + t, b := ptr m q)"
        using True q(1,2) ne assms(6,7) by (simp add: join_next_def Let_def ptr_def)
      moreover from this have "links ?m b zs e \<longleftrightarrow> links m q zs e" using ne by (intro links_cong) (auto simp: ptr_def)
      ultimately show ?thesis using assms(2) Cons d True q(3) by (auto simp: hsize_def)
    next
      case False
      then have m: "cell ?m = (cell m)(b := q)" using q(1) by (simp add: join_next_def)
      then have "links ?m b ((q, t) # zs) e \<longleftrightarrow> links m p ((q, t) # zs) e" using assms(4) Cons d q(1) by (intro links_cong) (auto simp: ptr_def)
      then show ?thesis using assms(1,2) Cons d False m by (auto simp: hsize_def)
    qed
  qed
  then show "hsize ?m b = s2" "links ?m b ys2 e" "c \<noteq> b \<Longrightarrow> c \<noteq> b + 4 \<Longrightarrow> cell ?m c = cell m c" by blast+
qed

lemma join_prev_links:
  assumes "links m e xs r" "hsize m e = 0" "hsize m b = s" "links m b ys e" "distinct (e # map fst xs)" "e \<noteq> b" "e \<noteq> b + 4"
    and "node_cells xs \<inter> ({b, b + 4} \<union> node_cells ys) = {}" "{e, e + 4} \<inter> (node_cells xs \<union> {b, b + 4} \<union> node_cells ys) = {}"
    and "\<And>zs p t. xs = zs @ [(p, t)] \<Longrightarrow> {p, p + 4} \<inter> node_cells zs = {}"
  defines "p \<equiv> last (e # map fst xs)"
  shows "links (join_prev b p m) e (merge_left xs (b, s) ys) e" "hsize (join_prev b p m) e = 0"
    "c \<noteq> p \<Longrightarrow> xs = [] \<or> c \<noteq> p + 4 \<Longrightarrow> cell (join_prev b p m) c = cell m c"
proof -
  let ?m = "join_prev b p m"
  have "links ?m e (merge_left xs (b, s) ys) e \<and> hsize ?m e = 0 \<and> (c \<noteq> p \<longrightarrow> xs = [] \<or> c \<noteq> p + 4 \<longrightarrow> cell ?m c = cell m c)"
  proof (cases xs rule: rev_cases)
    case Nil
    then have m: "cell ?m = (cell m)(e := b)" "p = e" using assms(2,6) by (simp_all add: join_prev_def p_def)
    then have "links ?m b ys e \<longleftrightarrow> links m b ys e" using assms(6,9) by (intro links_cong) auto
    then show ?thesis using Nil m assms(2-7,9) by (auto simp: merge_left_def ptr_def hsize_def)
  next
    case (snoc zs d)
    obtain q t where d: "d = (q, t)" by (cases d)
    have p: "p = q" using snoc d by (simp add: p_def)
    have q: "links m e zs q" "hsize m q = t" using assms(1) snoc d by (simp_all add: links_append)
    have ne: "q \<noteq> b" "q \<noteq> b + 4" "q + 4 \<noteq> b" "q + 4 \<noteq> b + 4" "q \<notin> node_cells ys" "q + 4 \<notin> node_cells ys" "q \<notin> node_cells zs" "q + 4 \<notin> node_cells zs" "e \<noteq> q" "e \<noteq> q + 4" "e + 4 \<noteq> q" "e + 4 \<noteq> q + 4"
      using assms(8,9) assms(10)[OF snoc[unfolded d]] snoc d by auto
    show ?thesis
    proof (cases "q + 8 * t = b")
      case True
      have m: "cell ?m = (cell m)(q + 4 := t + s, q := ptr m b)"
        using True p q(2) assms(3) ne by (simp add: join_prev_def Let_def ptr_def)
      have "links ?m e zs q \<longleftrightarrow> links m e zs q" using m ne by (intro links_cong) auto
      moreover have "links ?m q ys e \<longleftrightarrow> links m b ys e" using m ne by (intro links_cong) (auto simp: ptr_def)
      ultimately show ?thesis using snoc d True q(1) assms(2,4) m p ne by (auto simp: merge_left_def links_append hsize_def)
    next
      case False
      have m: "cell ?m = (cell m)(q := b)" using False p q(2) by (simp add: join_prev_def)
      have "links ?m e zs q \<longleftrightarrow> links m e zs q" using m ne by (intro links_cong) auto
      moreover have "links ?m b ys e \<longleftrightarrow> links m b ys e" using m ne by (intro links_cong) auto
      moreover have "ptr ?m q = b" "hsize ?m q = t" "hsize ?m b = s" "hsize ?m e = 0" using m ne q(2) assms(2,3) by (auto simp: ptr_def hsize_def)
      ultimately show ?thesis using snoc d False q(1) assms(4) m p by (auto simp: merge_left_def links_append)
    qed
  qed
  then show "links ?m e (merge_left xs (b, s) ys) e" "hsize ?m e = 0" "c \<noteq> p \<Longrightarrow> xs = [] \<or> c \<noteq> p + 4 \<Longrightarrow> cell ?m c = cell m c" by blast+
qed

text \<open>The search of \<open>free\<close>: from wherever the list is entered it ends at the last block below \<open>b\<close>.\<close>

lemma search_below:
  assumes "links m a xs r" "asc l xs" "unat a \<le> l" "fin l xs \<le> unat b" "unat a < unat b" "b < r \<or> r \<le> a"
  shows "free_find b m a = Some (last (a # map fst xs))"
  using assms
proof (induction xs arbitrary: a l)
  case Nil
  then show ?case by (subst free_find.simps) (auto simp: word_less_nat_alt word_le_nat_alt)
next
  case (Cons d xs)
  obtain p s where d: "d = (p, s)" by (cases d)
  have p: "ptr m a = p" "links m p xs r" "l < unat p" "0 < unat s" "asc (unat p + 8 * unat s) xs" using Cons.prems d by simp_all
  have e: "unat p + 8 * unat s \<le> unat b" using asc_fin[OF p(5)] Cons.prems(4) d by simp
  have "free_find b m a = free_find b m p"
    using p e Cons.prems(3,5) by (subst free_find.simps) (auto simp: word_less_nat_alt word_le_nat_alt)
  also have "\<dots> = Some (last (p # map fst xs))"
    using Cons.IH[OF p(2,5)] Cons.prems(3,4,6) p(3,4) e d by (auto simp: word_less_nat_alt word_le_nat_alt)
  finally show ?case using d by simp
qed

lemma search_above:
  assumes "links m a ys e" "asc l ys" "unat a \<le> l" "b < a" "e < b"
  shows "free_find b m a = free_find b m e"
  using assms
proof (induction ys arbitrary: a l)
  case Nil
  then show ?case by (subst free_find.simps) (auto simp: word_less_nat_alt word_le_nat_alt)
next
  case (Cons d ys)
  obtain p s where d: "d = (p, s)" by (cases d)
  have p: "ptr m a = p" "links m p ys e" "l < unat p" "asc (unat p + 8 * unat s) ys" using Cons.prems d by simp_all
  have "free_find b m a = free_find b m p"
    using p Cons.prems(3,4) by (subst free_find.simps) (auto simp: word_less_nat_alt word_le_nat_alt)
  also have "\<dots> = free_find b m e" by (rule Cons.IH[OF p(2,4)]) (use p(3) Cons.prems(3-5) in \<open>auto simp: word_less_nat_alt\<close>)
  finally show ?case .
qed

lemma links_first: "links m a ys e \<Longrightarrow> ptr m a = (case ys of [] \<Rightarrow> e | (q, t) # _ \<Rightarrow> q)"
  by (cases ys) auto

lemma links_split: "links m a (xs @ ys) e \<longleftrightarrow> (\<exists>r. links m a xs r \<and> links m (last (a # map fst xs)) ys e \<and> r = ptr m (last (a # map fst xs)))"
  by (induction m a xs e rule: links.induct) auto

lemma free_find_ends:
  assumes "links m e (xs @ ys) e" "asc lo xs" "unat e \<le> lo" "fin lo xs \<le> unat b" "asc h ys" "unat b \<le> h" "unat e < unat b"
    and "f \<in> insert e (fst ` set (xs @ ys))"
  shows "free_find b m f = Some (last (e # map fst xs))"
proof -
  obtain r where r: "links m e xs r" "links m (last (e # map fst xs)) ys e" "r = ptr m (last (e # map fst xs))"
    using assms(1) by (auto simp: links_split)
  have rb: "b < r \<or> r = e" using r(2,3) assms(5,6) by (cases ys) (auto simp: word_less_nat_alt)
  have E: "free_find b m e = Some (last (e # map fst xs))" using search_below[OF r(1) assms(2,3,4,7)] rb by auto
  consider "f = e" | "f \<in> fst ` set xs" | "f \<in> fst ` set ys" using assms(8) by auto
  then show ?thesis
  proof cases
    case 2
    then obtain us t vs where x: "xs = us @ (f, t) # vs" by (auto dest: split_list)
    have f: "links m f vs r" "asc (unat f + 8 * unat t) vs" "fin (unat f + 8 * unat t) vs \<le> unat b" "unat e < unat f" "0 < unat t"
      using r(1) assms(2-4) asc_fin[of lo us] unfolding x by (auto simp: links_append asc_append fin_append)
    have "unat f < unat b" using asc_fin[OF f(2)] f(3,5) by simp
    moreover have "b < r \<or> r \<le> f" using rb f(4) by (auto simp: word_le_nat_alt)
    ultimately have "free_find b m f = Some (last (f # map fst vs))" using search_below[OF f(1,2) _ f(3)] by simp
    then show ?thesis unfolding x by simp
  next
    case 3
    then obtain us t vs where y: "ys = us @ (f, t) # vs" by (auto dest: split_list)
    have f: "links m f vs e" "asc (unat f + 8 * unat t) vs" "unat b < unat f"
      using r(2) assms(5,6) asc_fin[of h us] unfolding y by (auto simp: links_append asc_append)
    have "free_find b m f = free_find b m e"
      by (rule search_above[OF f(1,2)]) (use f(3) assms(7) in \<open>simp_all add: word_less_nat_alt\<close>)
    then show ?thesis using E by simp
  qed (use E in simp)
qed

section \<open>The heap in good order\<close>

text \<open>
  \<open>heap_ok lo m bs A\<close>: the list that starts at \<open>base\<close> is \<open>bs\<close>, in ascending order with a gap after every block, and the blocks \<open>A\<close> that the
  program holds, with their sizes in units, and those of \<open>bs\<close> share out the memory from \<open>lo\<close> to the end of the process.
\<close>

type_synonym live = "32 word \<Rightarrow> (32 word) option"

definition live_bytes :: "live \<Rightarrow> nat set" where
  "live_bytes A = (\<Union>b \<in> dom A. extent b (the (A b)))"

definition well_placed :: "nat \<Rightarrow> uheap \<Rightarrow> bool" where
  "well_placed lo m \<longleftrightarrow> 0 < base_at m \<and> unat (base_at m) + 8 \<le> lo \<and> lo \<le> unat (brk m) \<and> brk m \<le> USERTOP \<and> 4 dvd unat (base_at m) \<and> 4 dvd unat (brk m)"

definition heap_ok :: "nat \<Rightarrow> uheap \<Rightarrow> ublock list \<Rightarrow> live \<Rightarrow> bool" where
  "heap_ok lo m bs A \<longleftrightarrow>
     well_placed lo m \<and> links m (base_at m) bs (base_at m) \<and> hsize m (base_at m) = 0 \<and> freep m \<in> insert (base_at m) (fst ` set bs) \<and>
     asc (lo - 1) bs \<and> fin (lo - 1) bs \<le> unat (brk m) \<and>
     (\<forall>b s. A b = Some s \<longrightarrow> hsize m b = s \<and> 0 < unat s) \<and>
     (\<forall>b c s t. A b = Some s \<longrightarrow> A c = Some t \<longrightarrow> b \<noteq> c \<longrightarrow> extent b s \<inter> extent c t = {}) \<and>
     free_bytes bs \<inter> live_bytes A = {} \<and> free_bytes bs \<union> live_bytes A = {lo ..< unat (brk m)} \<and>
     (\<forall>p \<in> fst ` set bs \<union> dom A. 4 dvd unat p)"

lemma heap_okD:
  assumes "heap_ok lo m bs A"
  shows "well_placed lo m" "links m (base_at m) bs (base_at m)" "hsize m (base_at m) = 0" "freep m \<in> insert (base_at m) (fst ` set bs)"
    "asc (lo - 1) bs" "fin (lo - 1) bs \<le> unat (brk m)" "A b = Some s \<Longrightarrow> hsize m b = s" "A b = Some s \<Longrightarrow> 0 < unat s"
    "A b = Some s \<Longrightarrow> A c = Some t \<Longrightarrow> b \<noteq> c \<Longrightarrow> extent b s \<inter> extent c t = {}"
    "free_bytes bs \<inter> live_bytes A = {}" "free_bytes bs \<union> live_bytes A = {lo ..< unat (brk m)}" "p \<in> fst ` set bs \<union> dom A \<Longrightarrow> 4 dvd unat p"
  using assms unfolding heap_ok_def by blast+

lemma well_placedD:
  assumes "well_placed lo m"
  shows "0 < unat (base_at m)" "unat (base_at m) + 8 \<le> lo" "lo \<le> unat (brk m)" "unat (brk m) \<le> 0xA0000" "4 dvd unat (base_at m)" "4 dvd unat (brk m)"
  using assms by (simp_all add: well_placed_def word_less_nat_alt word_le_nat_alt USERTOP_def)

lemma in_live_bytes: "x \<in> live_bytes A \<longleftrightarrow> (\<exists>b s. A b = Some s \<and> x \<in> extent b s)"
  by (force simp: live_bytes_def)

lemma extent_live: "A b = Some s \<Longrightarrow> extent b s \<subseteq> live_bytes A"
  unfolding subset_iff in_live_bytes by metis

lemma live_bytes_remove: "A b = Some s \<Longrightarrow> live_bytes A = extent b s \<union> live_bytes (A(b := None))"
  unfolding set_eq_iff Un_iff in_live_bytes fun_upd_apply by (metis option.distinct(1) option.inject)

lemma live_bytes_add: "A b = None \<Longrightarrow> live_bytes (A(b \<mapsto> s)) = extent b s \<union> live_bytes A"
  unfolding set_eq_iff Un_iff in_live_bytes fun_upd_apply by (metis option.distinct(1) option.inject)

lemma extent_ends: "0 < unat s \<Longrightarrow> unat p \<in> extent p s \<and> unat p + 8 * unat s - 1 \<in> extent p s"
  by (simp add: extent_def)

lemma live_block:
  assumes "heap_ok lo m bs A" "A b = Some s"
  shows "lo \<le> unat b" "unat b + 8 * unat s \<le> unat (brk m)" "unat (b + 4) = unat b + 4" "unat b \<in> extent b s" "unat (b + 4) \<in> extent b s"
    "extent b s \<inter> free_bytes bs = {}"
proof -
  have s: "0 < unat s" using heap_okD(8)[OF assms] .
  have i: "extent b s \<subseteq> {lo ..< unat (brk m)}" using heap_okD(11)[OF assms(1)] extent_live[where A = A, OF assms(2)] by blast
  then show b: "lo \<le> unat b" "unat b + 8 * unat s \<le> unat (brk m)" using extent_ends[OF s, of b] s unfolding subset_iff by force+
  have "unat b + 8 \<le> 0xA0000" using b s well_placedD(4)[OF heap_okD(1)[OF assms(1)]] by linarith
  then show e: "unat (b + 4) = unat b + 4" using small_add[of b 4] by simp
  show "unat b \<in> extent b s" "unat (b + 4) \<in> extent b s" unfolding e extent_def using s by simp_all
  show "extent b s \<inter> free_bytes bs = {}" using heap_okD(10)[OF assms(1)] extent_live[where A = A, OF assms(2)] by blast
qed

lemma heap_ok_live:
  assumes "heap_ok lo m bs A" "A' \<subseteq>\<^sub>m A" "\<And>c. unat c \<in> live_bytes A' \<Longrightarrow> cell m' c = cell m c" "A' b = Some s"
  shows "hsize m' b = s \<and> 0 < unat s"
proof -
  have b: "A b = Some s" using assms(2,4) by (force simp: map_le_def)
  have "unat (b + 4) \<in> live_bytes A'" using live_block(5)[OF assms(1) b] extent_live[where A = A', OF assms(4)] by blast
  then show ?thesis using assms(3) heap_okD(7,8)[OF assms(1) b] by (simp add: hsize_def)
qed

lemma set_merge:
  "fst ` set (merge_left xs (b, s) ys) \<subseteq> insert b (fst ` set xs \<union> fst ` set ys)"
  by (auto simp: merge_left_def dest: in_set_butlastD split: if_splits)

lemma set_merge_right: "merge_right (b, s) ys = ((b2, s2), ys2) \<Longrightarrow> fst ` set ys2 \<subseteq> fst ` set ys"
  by (cases ys) (fastforce split: if_splits)+

lemma node_cells_last:
  assumes "asc lo (zs @ [(p, t)])" "fin lo (zs @ [(p, t)]) < 2 ^ 32"
  shows "{p, p + 4} \<inter> node_cells zs = {}"
proof -
  have z: "asc lo zs" "fin lo zs < unat p" "0 < unat t" "unat p + 8 * unat t < 2 ^ 32" using assms by (simp_all add: asc_append fin_append)
  have "unat (p + of_nat 4) = unat p + 4" by (rule small_add) (use z in linarith)
  moreover have "unat c < unat p" if "c \<in> node_cells zs" for c
    using free_bytes_range[OF z(1) node_cells_bytes[OF that z(1)]] z(2,4) by simp
  ultimately show ?thesis by fastforce
qed

lemma asc_distinct: "asc lo bs \<Longrightarrow> distinct (map fst bs)"
proof (induction lo bs rule: asc.induct)
  case (2 lo p s bs)
  then show ?case using asc_member[of "unat p + 8 * unat s" bs] by fastforce
qed simp

lemma asc_fin_other: "asc l ys \<Longrightarrow> ys \<noteq> [] \<Longrightarrow> l + 1 < fin l' ys"
proof (induction l ys rule: asc.induct)
  case (2 l p s bs)
  then show ?case using asc_fin[of "unat p + 8 * unat s" bs] by simp
qed simp

lemma free_memory:
  assumes "links m e (xs @ ys) e" "hsize m e = 0" "f = freep m" "f \<in> insert e (fst ` set (xs @ ys))" "asc lo xs" "unat e + 7 \<le> lo" "lo < unat b" "fin lo xs \<le> unat b"
    and "hsize m b = s" "0 < unat s" "asc (unat b + 8 * unat s - 1) ys" "fin (unat b + 8 * unat s) ys < 2 ^ 32" "merge_right (b, s) ys = ((b2, s2), ys2)"
  defines "p \<equiv> last (e # map fst xs)"
  defines "m' \<equiv> (join_prev b p (join_next b p m))\<lparr>freep := p\<rparr>"
  shows "free (b + 8) m = Some m'" "links m' e (merge_left xs (b, s2) ys2) e" "hsize m' e = 0"
    "c \<notin> {e} \<union> {b, b + 4} \<union> node_cells xs \<Longrightarrow> cell m' c = cell m c"
proof -
  have F: "unat b + 8 * unat s < 2 ^ 32"
    using asc_fin_other[OF assms(11), of "unat b + 8 * unat s"] assms(12) by (cases "ys = []") simp_all
  have u4: "unat (b + of_nat 4) = unat b + 4" "unat (e + of_nat 4) = unat e + 4" by (rule small_add, use F assms(6,7,10) in linarith)+
  have X: "lo < unat c \<and> unat c < unat b" if "c \<in> node_cells xs" for c
    using free_bytes_range[OF assms(5) node_cells_bytes[OF that assms(5)]] assms(8) F by simp
  have "fin (unat b + 8 * unat s - 1) ys < 2 ^ 32" using F assms(12) by (cases ys) auto
  then have Y: "unat b + 8 \<le> unat c" if "c \<in> node_cells ys" for c
    using free_bytes_range[OF assms(11) node_cells_bytes[OF that assms(11)]] assms(10) by linarith
  note mr = merge_right_list[OF assms(11,10,12,13)]
  obtain r where r: "links m e xs r" "links m p ys e" using assms(1) unfolding p_def by (auto simp: links_split)
  have p: "p = e \<and> xs = [] \<or> p \<in> node_cells xs \<and> p + 4 \<in> node_cells xs"
  proof (cases xs rule: rev_cases)
    case (snoc zs d)
    then show ?thesis by (cases d) (simp add: p_def)
  qed (simp add: p_def)
  have bs: "unat (b + 8 * s) = unat b + 8 * unat s" by (rule unit_add[OF F])
  have n: "b + 8 * s \<noteq> e" "b \<notin> node_cells ys" "b + 4 \<notin> node_cells ys" "p \<noteq> b" "p \<noteq> b + 4" "e \<noteq> b" "e \<noteq> b + 4" "e + 4 \<noteq> b" "e + 4 \<noteq> b + 4"
    using X[of p] Y[of b] Y[of "b + 4"] p u4 assms(6,7,10) bs by auto
  have b2: "b2 = b" by (rule mr(1))
  note j = join_next_links[OF r(2) assms(13)[folded assms(9)] n(1)[folded assms(9)] n(2-5)]
  let ?m1 = "join_next b p m"
  have k: "cell ?m1 c = cell m c" if "c \<noteq> b" "c \<noteq> b + 4" for c using j(3)[OF that] .
  have r1: "links ?m1 e xs r"
  proof -
    have "links ?m1 e xs r \<longleftrightarrow> links m e xs r" using X[of b] X[of "b + 4"] u4(1) n(6,7) by (intro links_cong k) auto
    then show ?thesis using r(1) by simp
  qed
  have s1: "hsize ?m1 e = 0" using k[of "e + 4"] n(8,9) assms(2) by (simp add: hsize_def)
  have d: "distinct (e # map fst xs)" using asc_distinct[OF assms(5)] asc_member[OF assms(5)] assms(6) by fastforce
  have sep: "node_cells xs \<inter> ({b, b + 4} \<union> node_cells ys2) = {}" "{e, e + 4} \<inter> (node_cells xs \<union> {b, b + 4} \<union> node_cells ys2) = {}"
  proof -
    have "c \<notin> {b, b + 4} \<union> node_cells ys2" if "c \<in> node_cells xs" for c using X[OF that] Y[of c] mr(6) u4(1) by auto
    then show "node_cells xs \<inter> ({b, b + 4} \<union> node_cells ys2) = {}" by blast
    have "unat c > unat e + 4" if "c \<in> node_cells xs \<union> {b, b + 4} \<union> node_cells ys2" for c using that X[of c] Y[of c] mr(6) u4(1) assms(6,7) by auto
    from this[of e] this[of "e + 4"] show "{e, e + 4} \<inter> (node_cells xs \<union> {b, b + 4} \<union> node_cells ys2) = {}" using u4(2) by auto
  qed
  have last: "{q, q + 4} \<inter> node_cells zs = {}" if "xs = zs @ [(q, t)]" for zs q t
    using node_cells_last[of lo zs q t] assms(5,8) F that by simp
  note l = join_prev_links[OF r1 s1 j(1,2) d n(6,7) sep last, folded p_def]
  have "free_find b m f = Some p" unfolding p_def
    by (rule free_find_ends[OF assms(1,5) _ assms(8,11) _ _ assms(4)]) (use assms(6,7,10) in simp_all)
  then show "free (b + 8) m = Some m'" unfolding free_def m'_def assms(3) by simp
  have mc: "cell m' = cell (join_prev b p ?m1)" by (simp add: m'_def)
  show "links m' e (merge_left xs (b, s2) ys2) e"
    using l(1) links_cong[of m' e "join_prev b p ?m1" e] mc by simp
  show "hsize m' e = 0" using l(2) mc by (simp add: hsize_def)
  assume c: "c \<notin> {e} \<union> {b, b + 4} \<union> node_cells xs"
  have "c \<noteq> p" "xs = [] \<or> c \<noteq> p + 4"
    using c p by auto
  then show "cell m' c = cell m c" using l(3)[where c = c] k[of c] c mc by auto
qed

lemma free_ok:
  assumes "heap_ok lo m bs A" "A b = Some s"
  obtains m' bs' where "free (b + 8) m = Some m'" "heap_ok lo m' bs' (A(b := None))" "\<exists>(q, t) \<in> set bs'. unat s \<le> unat t"
    "\<And>c. unat c \<in> live_bytes (A(b := None)) \<Longrightarrow> cell m' c = cell m c" "base_at m' = base_at m" "brk m' = brk m" "pages_left m' = pages_left m"
proof -
  note h = heap_okD[OF assms(1)] and b = live_block[OF assms] and w = well_placedD[OF heap_okD(1)[OF assms(1)]]
  let ?e = "base_at m" and ?A = "A(b := None)"
  have s: "hsize m b = s" "0 < unat s" using h(7,8)[OF assms(2)] by simp_all
  have "lo - 1 \<le> unat b" using b(1) by simp
  then obtain xs ys where bs: "bs = xs @ ys" "fin (lo - 1) xs \<le> unat b" "asc (unat b + 8 * unat s - 1) ys"
    using insertion_point[OF h(5) b(6) s(2)] by blast
  have x: "asc (lo - 1) xs" using h(5) bs(1) by (simp add: asc_append)
  have y: "fin (unat b + 8 * unat s) ys \<le> unat (brk m)"
    using h(6) b(2) bs(1) by (cases ys) (auto simp: fin_append)
  then have y32: "fin (unat b + 8 * unat s) ys < 2 ^ 32" using w(4) by simp
  obtain b2 s2 ys2 where mr: "merge_right (b, s) ys = ((b2, s2), ys2)" by (cases "merge_right (b, s) ys") auto
  note r = merge_right_list[OF bs(3) s(2) y32 mr]
  have lo: "unat ?e + 7 \<le> lo - 1" "lo - 1 < unat b" using w(1,2) b(1) by simp_all
  define p where "p = last (?e # map fst xs)"
  define m' where "m' = (join_prev b p (join_next b p m))\<lparr>freep := p\<rparr>"
  note f = free_memory[OF h(2)[unfolded bs(1)] h(3) refl h(4)[unfolded bs(1)] x lo bs(2) s bs(3) y32 mr, folded p_def, folded m'_def]
  have s2: "0 < unat s2" using r(2) s(2) by simp
  note l = merge_left_list[OF x lo(2) bs(2) r(3) s2 y32[folded r(4)]]
  let ?bs = "merge_left xs (b, s2) ys2"
  have fields: "base_at m' = base_at m" "brk m' = brk m" "pages_left m' = pages_left m" "freep m' = p"
    by (simp_all add: m'_def join_prev_def join_next_def Let_def set_ptr_def set_hsize_def)
  have fb: "free_bytes ?bs = free_bytes bs \<union> extent b s" unfolding l(3) bs(1) using r(5) by auto
  have la: "live_bytes A = extent b s \<union> live_bytes ?A" by (rule live_bytes_remove[where A = A, OF assms(2)])
  have dis: "extent b s \<inter> live_bytes ?A = {}"
  proof -
    have "x \<notin> extent b s" if c: "?A c = Some t" "x \<in> extent c t" for c t x
      using h(9)[OF assms(2), of c t] c by (auto split: if_splits)
    then show ?thesis unfolding disjoint_iff in_live_bytes by metis
  qed
  have keep: "cell m' c = cell m c" if "unat c \<in> live_bytes ?A" for c
  proof (rule f(4))
    have c: "lo \<le> unat c" "unat c \<notin> free_bytes bs" "unat c \<notin> extent b s" using that h(10,11) dis la by auto
    have "c \<notin> node_cells xs" using node_cells_bytes[OF _ x] bs(1,2) c(2) y32 b(2) w(4) by auto
    then show "c \<notin> {?e} \<union> {b, b + 4} \<union> node_cells xs" using c(1,3) w(1,2) b(4,5) by auto
  qed
  have fp: "p \<in> insert ?e (fst ` set ?bs)"
  proof (cases xs rule: rev_cases)
    case (snoc zs d)
    then show ?thesis by (cases d) (auto simp: p_def merge_left_def)
  qed (simp add: p_def)
  have "heap_ok lo m' ?bs ?A"
    unfolding heap_ok_def fields
  proof (intro conjI allI impI ballI)
    show "well_placed lo m'" using h(1) fields by (simp add: well_placed_def)
    show "fin (lo - 1) ?bs \<le> unat (brk m)" using l(2) r(4) y by simp
    show "free_bytes ?bs \<inter> live_bytes ?A = {}" "free_bytes ?bs \<union> live_bytes ?A = {lo..<unat (brk m)}"
      using fb la dis h(10,11) by auto
    fix c t assume t: "?A c = Some t"
    have "?A \<subseteq>\<^sub>m A" by (simp add: map_le_def)
    from heap_ok_live[where A' = ?A, OF assms(1) this keep t] show "hsize m' c = t" "0 < unat t" by simp_all
    fix d u assume "?A d = Some u" "c \<noteq> d"
    with t show "extent c t \<inter> extent d u = {}" using h(9)[of c t d u] by (auto split: if_splits)
  next
    fix q assume q: "q \<in> fst ` set ?bs \<union> dom ?A"
    have i: "fst ` set ?bs \<subseteq> insert b (fst ` set bs)"
      using set_merge[of xs b s2 ys2] set_merge_right[OF mr] unfolding bs(1) set_append image_Un by (elim order_trans) auto
    have j: "b \<in> dom A" "dom ?A \<subseteq> dom A" using assms(2) by (simp_all add: domI)
    from subsetD[OF Un_mono[OF i j(2)] q] show "4 dvd unat q" using h(12)[of q] j(1) by auto
  qed (use f(2,3) l(1) fp in simp_all)
  moreover have "\<exists>(q, t) \<in> set ?bs. unat s \<le> unat t"
  proof -
    obtain q t where "(q, t) \<in> set ?bs" "unat s2 \<le> unat t" using l(4) by blast
    then show ?thesis using r(2) by (intro bexI[of _ "(q, t)"]) simp_all
  qed
  ultimately show thesis using that[OF f(1)] keep fields by blast
qed

end
