(* ===== verification/User_Heap.thy ===== *)
theory User_Heap
  imports User_Malloc
begin

text \<open>
  The allocator of \<open>user/umalloc.c\<close> is correct: taking a block from the free list, growing the heap, \<open>malloc\<close> as a whole, and programs that
  use \<open>malloc\<close> and \<open>free\<close>. The heap in good order and the effect of \<open>free\<close> are in \<open>User_Malloc\<close>.
\<close>

section \<open>Taking a block\<close>

lemma heap_ok_take:
  assumes "heap_ok lo m bs A" "links m' (base_at m) bs' (base_at m)" "hsize m' (base_at m) = 0" "freep m' \<in> insert (base_at m) (fst ` set bs')"
    and "base_at m' = base_at m" "brk m' = brk m" "asc (lo - 1) bs'" "fin (lo - 1) bs' \<le> fin (lo - 1) bs" "fst ` set bs' \<subseteq> fst ` set bs" "4 dvd unat b"
    and "free_bytes bs' \<union> extent b n = free_bytes bs" "free_bytes bs' \<inter> extent b n = {}" "hsize m' b = n" "0 < unat n"
    and keep: "\<And>c. unat c \<in> live_bytes A \<Longrightarrow> cell m' c = cell m c"
  shows "A b = None" "heap_ok lo m' bs' (A(b \<mapsto> n))"
proof -
  note h = heap_okD[OF assms(1)]
  have dis: "extent b n \<inter> live_bytes A = {}" using h(10) assms(11) by blast
  show None: "A b = None"
  proof (cases "A b")
    case (Some s)
    then have "unat b \<in> live_bytes A" using live_block(4)[OF assms(1) Some] extent_live[where A = A, OF Some] by blast
    then show ?thesis using dis extent_ends[OF assms(14), of b] by blast
  qed
  let ?A = "A(b \<mapsto> n)"
  have la: "live_bytes ?A = extent b n \<union> live_bytes A" by (rule live_bytes_add[where A = A, OF None])
  have extent: "extent c t \<inter> extent b n = {}" if "A c = Some t" for c t using extent_live[where A = A, OF that] dis by blast
  show "heap_ok lo m' bs' ?A"
    unfolding heap_ok_def assms(5,6)
  proof (intro conjI allI impI ballI)
    show "well_placed lo m'" using h(1) assms(5,6) by (simp add: well_placed_def)
    show "fin (lo - 1) bs' \<le> unat (brk m)" using h(6) assms(8) by simp
    show "free_bytes bs' \<inter> live_bytes ?A = {}" "free_bytes bs' \<union> live_bytes ?A = {lo..<unat (brk m)}"
      using assms(11,12) la h(10,11) by auto
    fix c t assume t: "?A c = Some t"
    show "hsize m' c = t" "0 < unat t"
      using t heap_ok_live[where A' = A, OF assms(1) map_le_refl keep, of c t] assms(13,14) by (auto split: if_splits)
    fix d u assume "?A d = Some u" "c \<noteq> d"
    with t show "extent c t \<inter> extent d u = {}" using h(9)[of c t d u] extent[of c t] extent[of d u] by (auto split: if_splits)
  next
    fix q assume "q \<in> fst ` set bs' \<union> dom ?A"
    then show "4 dvd unat q" using h(12)[of q] assms(9,10) by auto
  qed (use assms(2-4,7) in simp_all)
qed

lemma unlink_links:
  assumes "links m e (xs @ (p, s) # ys) e" "asc lo (xs @ (p, s) # ys)" "fin lo (xs @ (p, s) # ys) < 2 ^ 32" "unat e + 7 \<le> lo"
  defines "q \<equiv> last (e # map fst xs)"
  shows "links (set_ptr q (ptr m p) m) e (xs @ ys) e" "q = e \<or> q \<in> node_cells xs"
proof -
  let ?m = "set_ptr q (ptr m p) m"
  have c: "links m e xs p" "links m p ys e" using assms(1) by (simp_all add: links_append)
  have a: "asc lo xs" "asc (unat p + 8 * unat s) ys" "fin lo xs < unat p" "fin (unat p + 8 * unat s) ys < 2 ^ 32" using assms(2,3) by (simp_all add: asc_append fin_append)
  have f: "unat p + 8 * unat s < 2 ^ 32" using asc_fin[OF a(2)] a(4) by simp
  have X: "lo < unat d \<and> unat d < unat p" if "d \<in> node_cells xs" for d
    using free_bytes_range[OF a(1) node_cells_bytes[OF that a(1)]] a(3) f by simp
  have Y: "unat p < unat d" if "d \<in> node_cells ys" for d
    using free_bytes_range[OF a(2) node_cells_bytes[OF that a(2)]] a(4) by simp
  have lp: "lo < unat p" using asc_fin[OF a(1)] a(3) by simp
  show q: "q = e \<or> q \<in> node_cells xs" by (cases xs rule: rev_cases) (auto simp: q_def)
  have qy: "q \<notin> node_cells ys" using q X[of q] Y[of q] lp assms(4) by auto
  show "links ?m e (xs @ ys) e"
  proof (cases xs rule: rev_cases)
    case Nil
    have "links ?m e ys e \<longleftrightarrow> links m p ys e" using qy Nil by (intro links_cong) (auto simp: q_def ptr_def)
    then show ?thesis using c(2) Nil by simp
  next
    case (snoc zs d)
    then obtain t where d: "xs = zs @ [(q, t)]" by (cases d) (simp add: q_def)
    have z: "{q, q + 4} \<inter> node_cells zs = {}" using node_cells_last[of lo zs q t] a(1,3) f d by simp
    have e: "q \<noteq> e" using X[of q] d assms(4) by auto
    have "links ?m e zs q \<longleftrightarrow> links m e zs q" using z e by (intro links_cong) auto
    moreover have "links ?m q ys e \<longleftrightarrow> links m p ys e" using qy by (intro links_cong) (auto simp: ptr_def)
    ultimately show ?thesis using c d by (simp add: links_append) (simp add: hsize_def)
  qed
qed

lemma shrink_links:
  assumes "links m e (xs @ (p, s) # ys) e" "asc lo (xs @ (p, s) # ys)" "fin lo (xs @ (p, s) # ys) < 2 ^ 32" "unat e + 7 \<le> lo"
    and "unat (k + 4) \<in> extent p s" "k \<noteq> p" "unat (k + 4) \<noteq> unat p"
  shows "links (set_hsize k n (set_hsize p t m)) e (xs @ (p, t) # ys) e"
proof -
  let ?m = "set_hsize k n (set_hsize p t m)"
  have c: "links m e xs p" "links m p ys e" using assms(1) by (simp_all add: links_append)
  have a: "asc lo xs" "asc (unat p + 8 * unat s) ys" "fin lo xs < unat p" "fin (unat p + 8 * unat s) ys < 2 ^ 32" "0 < unat s" using assms(2,3) by (simp_all add: asc_append fin_append)
  have f: "unat p + 8 * unat s < 2 ^ 32" using asc_fin[OF a(2)] a(4) by simp
  have u: "unat (p + of_nat 4) = unat p + 4" by (rule small_add) (use f a(5) in linarith)
  have X: "unat d < unat p" if "d \<in> node_cells xs" for d
    using free_bytes_range[OF a(1) node_cells_bytes[OF that a(1)]] a(3) f by simp
  have Y: "unat p + 8 * unat s < unat d" if "d \<in> node_cells ys" for d
    using free_bytes_range[OF a(2) node_cells_bytes[OF that a(2)]] a(4) by simp
  have le: "unat e < unat p" using asc_fin[OF a(1)] a(3) assms(4) by simp
  have k: "unat p < unat (k + 4)" "unat (k + 4) < unat p + 8 * unat s" using assms(5,7) by (simp_all add: extent_def)
  have "links ?m e xs p \<longleftrightarrow> links m e xs p" using X[of "p + 4"] X[of "k + 4"] u k le by (intro links_cong) auto
  moreover have "links ?m p ys e \<longleftrightarrow> links m p ys e" using Y[of "p + 4"] Y[of "k + 4"] u k a(5) by (intro links_cong) auto
  ultimately show ?thesis using c assms(6) by (simp add: links_append) (simp add: hsize_def)
qed

lemma take_ok:
  assumes "heap_ok lo m (xs @ (p, s) # ys) A" "n \<le> s" "0 < n"
  obtains b m' bs' where "cut_block n (last (base_at m # map fst xs)) p m = (b + 8, m')" "A b = None" "heap_ok lo m' bs' (A(b \<mapsto> n))"
    "\<And>c. unat c \<in> live_bytes A \<Longrightarrow> cell m' c = cell m c" "base_at m' = base_at m" "brk m' = brk m" "pages_left m' = pages_left m"
proof -
  note h = heap_okD[OF assms(1)] and w = well_placedD[OF heap_okD(1)[OF assms(1)]]
  let ?e = "base_at m" and ?q = "last (base_at m # map fst xs)" and ?bs = "xs @ (p, s) # ys"
  have fin: "fin (lo - 1) ?bs < 2 ^ 32" using h(6) w(4) by simp
  have e7: "unat ?e + 7 \<le> lo - 1" using w(2) by simp
  have a: "asc (lo - 1) xs" "fin (lo - 1) xs < unat p" "0 < unat s" "asc (unat p + 8 * unat s) ys" "lo - 1 < unat p" "fin (unat p + 8 * unat s) ys = fin (lo - 1) ?bs"
    using h(5) asc_fin[of "lo - 1" xs] by (simp_all add: asc_append fin_append)
  have f: "unat p + 8 * unat s < 2 ^ 32" using asc_fin[OF a(4)] a(6) fin by simp
  have sz: "hsize m p = s" using h(2) by (simp add: links_append)
  have n: "0 < unat n" "unat n \<le> unat s" using assms(2,3) by (simp_all add: word_less_nat_alt word_le_nat_alt)
  have e4: "unat (?e + of_nat 4) = unat ?e + 4" by (rule small_add) (use w(2-4) in simp)
  have notlive: "unat c \<notin> live_bytes A" if "unat c < lo \<or> unat c \<in> free_bytes ?bs" for c using that h(10,11) by auto
  have beyond: "x \<notin> extent p s" if "x \<in> free_bytes xs \<union> free_bytes ys" for x
    using that free_bytes_range[OF a(1), of x] free_bytes_range[OF a(4), of x] a(2) by (auto simp: extent_def)
  have d4: "4 dvd unat p" by (rule h(12)) simp
  show thesis
  proof (cases "s = n")
    case True
    define m' where "m' = (set_ptr ?q (ptr m p) m)\<lparr>freep := ?q\<rparr>"
    note u = unlink_links[OF h(2,5) fin e7]
    have cm: "cell m' = cell (set_ptr ?q (ptr m p) m)" by (simp add: m'_def)
    have ql: "unat ?q < lo \<or> unat ?q \<in> free_bytes ?bs"
      using u(2) w(2) node_cells_bytes[of ?q xs, OF _ a(1)] a(2) f by auto
    have keep: "cell m' c = cell m c" if "unat c \<in> live_bytes A" for c
      using that notlive[OF ql] by (auto simp: cm)
    have c1: "links m' ?e (xs @ ys) ?e" using u(1) links_cong[of m' ?e "set_ptr ?q (ptr m p) m" ?e] cm by simp
    have c2: "hsize m' ?e = 0"
    proof -
      have "?q \<noteq> ?e + 4" using u(2) free_bytes_range[OF a(1) node_cells_bytes[of _ xs, OF _ a(1)], of ?q] a(2) f e4 e7 by auto
      then show ?thesis using h(3) by (simp add: hsize_def cm)
    qed
    have c3: "freep m' \<in> insert ?e (fst ` set (xs @ ys))" by (cases xs rule: rev_cases) (auto simp: m'_def)
    have qp: "?q \<noteq> p + 4"
    proof -
      have "unat (p + of_nat 4) = unat p + 4" by (rule small_add) (use f a(3) in linarith)
      moreover have "unat ?q < unat p" using u(2) free_bytes_range[OF a(1) node_cells_bytes[of _ xs, OF _ a(1)], of ?q] a(2,5) f e7 by auto
      ultimately show ?thesis by auto
    qed
    have c4: "asc (lo - 1) (xs @ ys)" "fin (lo - 1) (xs @ ys) \<le> fin (lo - 1) ?bs"
      using a(1,2,4) asc_fin[OF a(4)] by (cases ys; auto simp: asc_append fin_append)+
    have "A p = None" "heap_ok lo m' (xs @ ys) (A(p \<mapsto> n))"
      by (rule heap_ok_take[OF assms(1) c1 c2 c3 _ _ c4 _ d4 _ _ _ n(1) keep]; use True beyond sz qp in \<open>auto simp: m'_def hsize_def\<close>)+
    then show thesis using that[of p m' "xs @ ys"] keep True sz by (simp add: cut_block_def m'_def)
  next
    case False
    then have ns: "unat n < unat s" using n(2) by (metis le_neq_implies_less word_unat_eq_iff)
    have sub: "unat (s - n) = unat s - unat n" using n(2) by (simp add: unat_sub word_le_nat_alt)
    define k where "k = p + 8 * (s - n)"
    have k: "unat k = unat p + 8 * (unat s - unat n)" unfolding k_def using unit_add[of p "s - n"] sub f by simp
    have k4: "unat (k + of_nat 4) = unat k + 4" by (rule small_add) (use k f ns n(1) in linarith)
    have k5: "unat (k + 4) \<in> extent p s" "unat (k + 4) \<noteq> unat p" "k \<noteq> p" using k k4 ns n(1) by (auto simp: extent_def)
    have p4: "unat (p + of_nat 4) = unat p + 4" by (rule small_add) (use f a(3) in linarith)
    define m' where "m' = (set_hsize k n (set_hsize p (s - n) m))\<lparr>freep := ?q\<rparr>"
    have cm: "cell m' = (cell m)(p + 4 := s - n, k + 4 := n)" by (simp add: m'_def)
    have keep: "cell m' c = cell m c" if "unat c \<in> live_bytes A" for c
    proof -
      have "unat (p + 4) \<in> extent p s" using p4 a(3) by (simp add: extent_def)
      then have "c \<noteq> p + 4" "c \<noteq> k + 4" using that notlive[of "p + 4"] notlive[of "k + 4"] k5(1) by auto
      then show ?thesis by (simp add: cm)
    qed
    have c1: "links m' ?e (xs @ (p, s - n) # ys) ?e"
      using shrink_links[OF h(2,5) fin e7 k5(1,3,2), of n "s - n"] links_cong[of m' ?e "set_hsize k n (set_hsize p (s - n) m)" ?e] cm by simp
    have c2: "hsize m' ?e = 0" using h(3) e7 e4 p4 k4 k a(5) by (auto simp: hsize_def cm)
    have c3: "freep m' \<in> insert ?e (fst ` set (xs @ (p, s - n) # ys))" by (cases xs rule: rev_cases) (auto simp: m'_def)
    have c4: "asc (lo - 1) (xs @ (p, s - n) # ys)" "fin (lo - 1) (xs @ (p, s - n) # ys) \<le> fin (lo - 1) ?bs"
      using a(1,2,4) asc_fin[OF a(4)] ns sub by (cases ys; auto simp: asc_append fin_append)+
    have sp: "extent p (s - n) \<union> extent k n = extent p s" "extent p (s - n) \<inter> extent k n = {}" using k sub ns by (auto simp: extent_def)
    have d: "4 dvd unat k" unfolding k using d4 by (intro dvd_add) simp_all
    have "A k = None" "heap_ok lo m' (xs @ (p, s - n) # ys) (A(k \<mapsto> n))"
      by (rule heap_ok_take[OF assms(1) c1 c2 c3 _ _ c4 _ d _ _ _ n(1) keep]; use beyond sp in \<open>auto simp: m'_def hsize_def\<close>)+
    then show thesis using that[of k m'] keep False sz by (simp add: cut_block_def m'_def Let_def k_def hsize_def)
  qed
qed

section \<open>The search of malloc\<close>

lemma scan:
  assumes "links m a zs e" "\<And>p s. (p, s) \<in> set zs \<Longrightarrow> s < n \<and> p \<noteq> freep m"
  shows "malloc_loop n a (ptr m a) m = malloc_loop n (last (a # map fst zs)) e m"
  using assms
proof (induction zs arbitrary: a)
  case (Cons d zs)
  obtain p s where d: "d = (p, s)" by (cases d)
  have p: "ptr m a = p" "hsize m p = s" "links m p zs e" "s < n" "p \<noteq> freep m" using Cons.prems d by auto
  have "malloc_loop n a p m = malloc_loop n p (ptr m p) m" using p by (subst malloc_loop.simps) (simp add: not_le[symmetric])
  also have "\<dots> = malloc_loop n (last (p # map fst zs)) e m" by (rule Cons.IH[OF p(3)]) (use Cons.prems(2) in auto)
  finally show ?case using p(1) d by simp
qed simp

lemma at_base:
  assumes "hsize m e = 0" "0 < n" "freep m \<noteq> e"
  shows "malloc_loop n a e m = malloc_loop n e (ptr m e) m"
  using assms by (subst malloc_loop.simps) (auto simp: word_le_nat_alt word_less_nat_alt)

lemma found: "hsize m p = s \<Longrightarrow> n \<le> s \<Longrightarrow> malloc_loop n a p m = Some (cut_block n a p m)"
  by (subst malloc_loop.simps) simp

lemma malloc_fits:
  assumes "heap_ok lo m bs A" "(p0, s0) \<in> set bs" "n \<le> s0" "0 < n"
  obtains xs p s ys where "bs = xs @ (p, s) # ys" "n \<le> s"
    "malloc_loop n (freep m) (ptr m (freep m)) m = Some (cut_block n (last (base_at m # map fst xs)) p m)"
proof -
  note h = heap_okD[OF assms(1)] and w = well_placedD[OF heap_okD(1)[OF assms(1)]] and result = that
  let ?e = "base_at m" and ?f = "freep m" and ?fit = "\<lambda>x. n \<le> snd x"
  have dis: "distinct (?e # map fst bs)" using asc_distinct[OF h(5)] asc_member[OF h(5)] w(2) by fastforce
  have go: thesis if bs: "bs = (us @ xs) @ (p, s) # ys" and c: "links m a xs p" "a = last (?e # map fst us)" and "\<forall>x \<in> set xs. \<not> ?fit x" "n \<le> s" "?f \<notin> fst ` set xs"
      and st: "malloc_loop n ?f (ptr m ?f) m = malloc_loop n a (ptr m a) m" for us a xs p s ys
  proof -
    have "malloc_loop n a (ptr m a) m = malloc_loop n (last (a # map fst xs)) p m"
      by (rule scan[OF c(1)]) (use that(4,6) in \<open>force simp: not_le[symmetric]\<close>)
    moreover have "last (a # map fst xs) = last (?e # map fst (us @ xs))" using c(2) by simp
    moreover have "hsize m p = s" using h(2) unfolding bs links_append by simp
    ultimately show thesis using that(5) st found[of m p s n] by (intro result[OF bs]) simp_all
  qed
  show thesis
  proof (cases "?f = ?e")
    case True
    have "\<exists>x \<in> set bs. ?fit x" using assms(2,3) by (intro bexI[of _ "(p0, s0)"]) simp_all
    from split_list_first_prop[OF this] obtain xs x ys where x: "bs = xs @ x # ys" "?fit x" "\<forall>y \<in> set xs. \<not> ?fit y" by blast
    obtain p s where ps: "x = (p, s)" by (cases x)
    have bs: "bs = ([] @ xs) @ (p, s) # ys" using x(1) ps by simp
    have c: "links m ?e xs p" using h(2) unfolding bs links_append by simp
    have "?f \<notin> fst ` set xs" using dis True x(1) by auto
    then show ?thesis by (rule go[OF bs c, rotated 3]) (use x(2,3) ps True in auto)
  next
    case False
    then obtain us t vs where f: "bs = us @ (?f, t) # vs" using h(4) by (auto dest: split_list)
    have c: "links m ?e us ?f" "links m ?f vs ?e" using h(2) f by (simp_all add: links_append)
    have nf: "?f \<notin> fst ` set us" "?f \<notin> fst ` set vs" using dis unfolding f by auto
    show ?thesis
    proof (cases "\<exists>x \<in> set vs. ?fit x")
      case True
      obtain xs x ys where x: "vs = xs @ x # ys" "?fit x" "\<forall>y \<in> set xs. \<not> ?fit y" using split_list_first_prop[OF True] by blast
      obtain p s where ps: "x = (p, s)" by (cases x)
      have bs: "bs = ((us @ [(?f, t)]) @ xs) @ (p, s) # ys" using f x(1) ps by simp
      have v: "links m ?f xs p" using c(2) unfolding x(1) ps links_append by simp
      have "?f \<notin> fst ` set xs" using nf(2) x(1) by auto
      then show ?thesis by (rule go[OF bs v, rotated 3]) (use x(2,3) ps in auto)
    next
      case no: False
      have "(p0, s0) \<notin> set vs" using no assms(3) by auto
      then have "(p0, s0) \<in> set (us @ [(?f, t)])" using assms(2) unfolding f by auto
      then have "\<exists>x \<in> set (us @ [(?f, t)]). ?fit x" using assms(3) by (intro bexI[of _ "(p0, s0)"]) simp_all
      from split_list_first_prop[OF this]
      obtain xs x ys where x: "us @ [(?f, t)] = xs @ x # ys" "?fit x" "\<forall>y \<in> set xs. \<not> ?fit y" by blast
      obtain p s where ps: "x = (p, s)" by (cases x)
      have bs: "bs = ([] @ xs) @ (p, s) # (ys @ vs)" using f arg_cong[OF x(1), of "\<lambda>l. l @ vs"] ps by simp
      have sub: "set xs \<subseteq> set us" using x(1) by (cases ys rule: rev_cases) auto
      have "malloc_loop n ?f (ptr m ?f) m = malloc_loop n (last (?f # map fst vs)) ?e m"
        by (rule scan[OF c(2)]) (use no nf in \<open>force simp: not_le\<close>)
      also have "\<dots> = malloc_loop n ?e (ptr m ?e) m" by (rule at_base[OF h(3) assms(4) False])
      finally have st: "malloc_loop n ?f (ptr m ?f) m = malloc_loop n ?e (ptr m ?e) m" .
      have v: "links m ?e xs p" using h(2) unfolding bs links_append by simp
      have "?f \<notin> fst ` set xs" using nf(1) sub by auto
      then show ?thesis by (rule go[OF bs v, rotated 3]) (use x(2,3) ps st in auto)
    qed
  qed
qed

lemma malloc_no_fit:
  assumes "heap_ok lo m bs A" "\<And>p s. (p, s) \<in> set bs \<Longrightarrow> s < n" "0 < n"
  shows "malloc_loop n (freep m) (ptr m (freep m)) m =
    Option.bind (morecore n m) (\<lambda>r. if fst r = 0 then Some (0, snd r) else malloc_loop n (fst r) (ptr (snd r) (fst r)) (snd r))"
proof -
  note h = heap_okD[OF assms(1)] and w = well_placedD[OF heap_okD(1)[OF assms(1)]]
  let ?e = "base_at m" and ?f = "freep m"
  have dis: "distinct (?e # map fst bs)" using asc_distinct[OF h(5)] asc_member[OF h(5)] w(2) by fastforce
  have stop: "malloc_loop n a ?f m = Option.bind (morecore n m) (\<lambda>r. if fst r = 0 then Some (0, snd r) else malloc_loop n (fst r) (ptr (snd r) (fst r)) (snd r))"
    if "hsize m ?f < n" for a using that by (subst malloc_loop.simps) (simp add: not_le[symmetric])
  show ?thesis
  proof (cases "?f = ?e")
    case True
    have "malloc_loop n ?e (ptr m ?e) m = malloc_loop n (last (?e # map fst bs)) ?e m"
      by (rule scan[OF h(2)]) (use assms(2) True dis in force)
    then show ?thesis using stop h(3) assms(3) True by simp
  next
    case False
    then obtain us t vs where f: "bs = us @ (?f, t) # vs" using h(4) by (auto dest: split_list)
    have c: "links m ?e us ?f" "links m ?f vs ?e" "hsize m ?f = t" using h(2) f by (simp_all add: links_append)
    have nf: "?f \<notin> fst ` set us" "?f \<notin> fst ` set vs" using dis unfolding f by auto
    have "malloc_loop n ?f (ptr m ?f) m = malloc_loop n (last (?f # map fst vs)) ?e m"
      by (rule scan[OF c(2)]) (use assms(2) nf in \<open>force simp: f\<close>)
    also have "\<dots> = malloc_loop n ?e (ptr m ?e) m" by (rule at_base[OF h(3) assms(3) False])
    also have "\<dots> = malloc_loop n (last (?e # map fst us)) ?f m"
      by (rule scan[OF c(1)]) (use assms(2) nf in \<open>force simp: f\<close>)
    finally show ?thesis using stop c(3) assms(2)[of ?f t] f by simp
  qed
qed

section \<open>Growing the heap\<close>

lemma round_down_word: "(a :: 32 word) AND NOT (mask n) = push_bit n (drop_bit n a)"
  by (rule bit_word_eqI) (auto simp: bit_simps)
lemma page_round_up:
  assumes "unat a \<le> 0xA0000"
  shows "unat a \<le> unat (PGROUNDUPw a)"
proof -
  let ?x = "a + 4095"
  have u: "unat ?x = unat a + 4095" using assms by (subst unat_add_lem[THEN iffD1]) simp_all
  have m: "(0xFFF :: 32 word) = mask 12" by (simp add: mask_eq_exp_minus_1)
  have "push_bit 12 (drop_bit 12 (unat ?x)) + take_bit 12 (unat ?x) = unat ?x" by (rule bits_ident)
  moreover have "take_bit 12 (unat ?x) \<le> 4095" using take_bit_nat_less_exp[of 12 "unat ?x"] by simp
  moreover have "unat (PGROUNDUPw a) = push_bit 12 (drop_bit 12 (unat ?x))"
  proof -
    have "push_bit 12 (drop_bit 12 (unat ?x)) < 2 ^ 32" using bits_ident[of 12 "unat ?x"] u assms by simp
    then have "take_bit 32 (push_bit 12 (drop_bit 12 (unat ?x))) = push_bit 12 (drop_bit 12 (unat ?x))" by (intro take_bit_nat_eq_self) simp
    moreover have "take_bit 32 (unat ?x) = unat ?x" using u assms by (intro take_bit_nat_eq_self) simp
    ultimately show ?thesis unfolding PGROUNDUPw_def m round_down_word by (simp add: unsigned_push_bit_eq unsigned_drop_bit_eq flip: m)
  qed
  ultimately show ?thesis using u by simp
qed
lemma unat_small_int:
  assumes "uint (k :: 32 word) < 2 ^ 31"
  shows "unat k < 2 ^ 31"
proof -
  have "int (unat k) < int (2 ^ 31)" using assms by (simp only: of_nat_power of_nat_numeral uint_nat)
  then show ?thesis by (simp only: of_nat_less_iff)
qed

lemma sint_small:
  assumes "unat (k :: 32 word) < 2 ^ 31"
  shows "sint k = int (unat k)"
proof -
  have "int (unat k) < int (2 ^ 31)" using assms by (simp only: of_nat_less_iff)
  then have "uint k < 2 ^ 31" by (simp only: of_nat_power of_nat_numeral uint_nat)
  moreover have "- (2 ^ 31) \<le> uint k" by (rule order_trans[OF _ uint_ge_0]) simp
  ultimately have "signed_take_bit 31 (uint k) = uint k" by (intro signed_take_bit_int_eq_self)
  then have "sint k = uint k" by (simp add: sint_uint)
  then show ?thesis by (simp only: uint_nat)
qed

lemma positive_int:
  assumes "0 < sint (k :: 32 word)"
  shows "unat k < 2 ^ 31"
proof -
  have "sint k = signed_take_bit 31 (uint k)" by (simp add: sint_uint)
  then have "0 \<le> signed_take_bit 31 (uint k)" using assms by linarith
  then have "\<not> bit (uint k) 31" by (simp only: signed_take_bit_nonnegative_iff not_False_eq_True)
  then have "even (uint k div 2 ^ 31)" by (simp add: bit_iff_odd)
  moreover have "uint k < 2 ^ 32" using uint_lt2p[of k] by simp
  ultimately have "uint k < 2 ^ 31"
  proof -
    assume "even (uint k div 2 ^ 31)" "uint k < 2 ^ 32"
    have "uint k div 2 ^ 31 < 2" using \<open>uint k < 2 ^ 32\<close> by (simp add: div_less_iff_less_mult)
    moreover have "0 \<le> uint k div 2 ^ 31" by (rule pos_imp_zdiv_nonneg_iff[THEN iffD2]) simp_all
    moreover have "x = 0" if "even x" "x < 2" "0 \<le> x" for x :: int using that by presburger
    ultimately have "uint k div 2 ^ 31 = 0" using \<open>even (uint k div 2 ^ 31)\<close> by blast
    then show ?thesis unfolding zdiv_eq_0_iff by (elim disjE conjE) simp_all
  qed
  then show ?thesis by (rule unat_small_int)
qed

lemma sbrk_grows:
  assumes "0 < sint k" "brk m \<le> USERTOP"
  obtains "sbrk k m = (-1, m)"
  | m1 where "sbrk k m = (brk m, m1)" "unat (brk m1) = unat (brk m) + unat k" "brk m1 \<le> USERTOP" "freep m1 = freep m" "base_at m1 = base_at m"
      "\<And>c. c < brk m \<Longrightarrow> cell m1 c = cell m c"
proof -
  have b: "unat (brk m) \<le> 0xA0000" using assms(2) by (simp add: word_le_nat_alt USERTOP_def)
  have "unat k < 2 ^ 31" by (rule positive_int[OF assms(1)])
  then have u: "unat (brk m + k) = unat (brk m) + unat k" using b by (intro unat_add_lem[THEN iffD1]) simp
  show thesis
  proof (cases "brk m + k > USERTOP \<or> pages_left m < uvm_pages (brk m) (brk m + k)")
    case True
    then show ?thesis using that(1) assms(1) u by (auto simp: sbrk_def Let_def word_less_nat_alt)
  next
    case False
    then have s: "sbrk k m = (brk m, m\<lparr>brk := brk m + k, pages_left := pages_left m - uvm_pages (brk m) (brk m + k),
        cell := (\<lambda>a. if PGROUNDUPw (brk m) \<le> a \<and> a < PGROUNDUPw (brk m + k) then 0 else cell m a)\<rparr>)" (is "_ = (_, ?m)")
      using assms(1) u by (auto simp: sbrk_def Let_def word_less_nat_alt)
    show ?thesis by (rule that(2)[OF s]) (use u False page_round_up[OF b] in \<open>auto simp: not_less word_le_nat_alt word_less_nat_alt\<close>)
  qed
qed

lemma heap_grows:
  assumes "heap_ok lo m bs A" "unat (brk m1) = unat (brk m) + 8 * unat nu" "brk m1 \<le> USERTOP" "freep m1 = freep m" "base_at m1 = base_at m" "0 < unat nu"
    and "\<And>c. c < brk m \<Longrightarrow> cell m1 c = cell m c"
  shows "A (brk m) = None" "heap_ok lo (set_hsize (brk m) nu m1) bs (A(brk m \<mapsto> nu))"
    "c < brk m \<Longrightarrow> cell (set_hsize (brk m) nu m1) c = cell m c"
proof -
  note h = heap_okD[OF assms(1)] and w = well_placedD[OF heap_okD(1)[OF assms(1)]]
  let ?m = "set_hsize (brk m) nu m1" and ?b = "brk m" and ?A = "A(brk m \<mapsto> nu)"
  have b4: "unat (?b + of_nat 4) = unat ?b + 4" by (rule small_add) (use w(4) in simp)
  show keep: "cell ?m c = cell m c" if "c < ?b" for c using that b4 assms(7)[OF that] by (auto simp: word_less_nat_alt)
  have below: "c < ?b" if "unat c < unat ?b" for c using that by (simp add: word_less_nat_alt)
  show None: "A ?b = None"
  proof (cases "A ?b")
    case (Some s)
    then show ?thesis using live_block(2)[OF assms(1) Some] heap_okD(8)[OF assms(1) Some] by simp
  qed
  have la: "live_bytes ?A = extent ?b nu \<union> live_bytes A" by (rule live_bytes_add[where A = A, OF None])
  have sp: "extent ?b nu = {unat (brk m) ..< unat (brk m1)}" using assms(2) by (simp add: extent_def)
  have e4: "unat (base_at m + of_nat 4) = unat (base_at m) + 4" by (rule small_add) (use w(2-4) in simp)
  have c1: "links ?m (base_at m) bs (base_at m)"
  proof -
    have "links ?m (base_at m) bs (base_at m) \<longleftrightarrow> links m (base_at m) bs (base_at m)"
    proof (rule links_cong)
      show "cell ?m (base_at m) = cell m (base_at m)" using w(2,3) by (intro keep below) simp
      fix c assume "c \<in> node_cells bs"
      then have "unat c < fin (lo - 1) bs" using free_bytes_range[OF h(5) node_cells_bytes[OF _ h(5)]] h(6) w(4) by simp
      then show "cell ?m c = cell m c" using h(6) by (intro keep below) simp
    qed
    then show ?thesis using h(2) by simp
  qed
  have extent: "extent c t \<inter> extent ?b nu = {}" if "A c = Some t" for c t
    using live_block(2)[OF assms(1) that] unfolding sp by (auto simp: extent_def)
  have live: "cell ?m c = cell m c" if "unat c \<in> live_bytes A" for c using that h(11) by (intro keep below) auto
  show "heap_ok lo ?m bs ?A"
    unfolding heap_ok_def cell_updates assms(4,5)
  proof (intro conjI allI impI ballI)
    have "4 dvd unat (brk m1)" unfolding assms(2) using w(6) by (intro dvd_add) simp_all
    then show "well_placed lo ?m" using h(1) assms(2,3,5) by (simp add: well_placed_def)
    show "hsize ?m (base_at m) = 0" using h(3) keep[OF below, of "base_at m + 4"] e4 w(2,3) by (simp add: hsize_def)
    show "fin (lo - 1) bs \<le> unat (brk m1)" using h(6) assms(2) by simp
    have "free_bytes bs \<inter> extent ?b nu = {}" using free_bytes_range[OF h(5)] h(6) unfolding sp by fastforce
    then show "free_bytes bs \<inter> live_bytes ?A = {}" using h(10) unfolding la by blast
    have "free_bytes bs \<union> live_bytes ?A = {lo..<unat (brk m)} \<union> {unat (brk m)..<unat (brk m1)}" using h(11) unfolding la sp by auto
    then show "free_bytes bs \<union> live_bytes ?A = {lo..<unat (brk m1)}" using w(3) assms(2) by (simp add: ivl_disj_un_two)
    fix c t assume t: "?A c = Some t"
    show "hsize ?m c = t" "0 < unat t"
      using t heap_ok_live[where A' = A, OF assms(1) map_le_refl live, of c t] assms(6) by (auto simp: hsize_def split: if_splits)
    fix d u assume "?A d = Some u" "c \<noteq> d"
    with t show "extent c t \<inter> extent d u = {}" using h(9)[of c t d u] extent[of c t] extent[of d u] by (auto split: if_splits)
  next
    fix q assume "q \<in> fst ` set bs \<union> dom ?A"
    then show "4 dvd unat q" using h(12)[of q] w(6) by auto
  qed (use c1 h(4,5) in simp_all)
qed

lemma morecore_ok:
  assumes "heap_ok lo m bs A" "0 < n" "unat n < 2 ^ 28"
  obtains "morecore n m = Some (0, m)" "fst (sbrk ((if n < 4096 then 4096 else n) * 8) m) = -1"
  | m' bs' where "morecore n m = Some (freep m', m')" "freep m' \<noteq> 0" "heap_ok lo m' bs' A" "\<exists>(q, t) \<in> set bs'. n \<le> t"
      "\<And>c. unat c \<in> live_bytes A \<Longrightarrow> cell m' c = cell m c" "base_at m' = base_at m" "brk m \<le> brk m'"
proof -
  note h = heap_okD[OF assms(1)] and w = well_placedD[OF heap_okD(1)[OF assms(1)]]
  define nu where "nu = (if n < 4096 then 4096 else n)"
  have nu: "unat nu < 2 ^ 28" "0 < unat nu" "n \<le> nu" using assms(2,3) by (auto simp: nu_def word_less_nat_alt word_le_nat_alt)
  have u8: "unat (nu * 8) = 8 * unat nu" using nu(1) by (subst unat_mult_lem[THEN iffD1]) simp_all
  have "sint (nu * 8) = int (unat (nu * 8))" by (rule sint_small) (use u8 nu(1) in simp)
  then have pos: "0 < sint (nu * 8)" using nu(2) unfolding u8 by (simp only: of_nat_0_less_iff)
  have top: "brk m \<le> USERTOP" using h(1) by (simp add: well_placed_def)
  show thesis
  proof (rule sbrk_grows[OF pos top])
    assume "sbrk (nu * 8) m = (-1, m)"
    then show thesis using that(1) by (simp add: morecore_def flip: nu_def)
  next
    fix m1 assume m1: "sbrk (nu * 8) m = (brk m, m1)" "unat (brk m1) = unat (brk m) + unat (nu * 8)" "brk m1 \<le> USERTOP" "freep m1 = freep m" "base_at m1 = base_at m"
      "\<And>c. c < brk m \<Longrightarrow> cell m1 c = cell m c"
    let ?m = "set_hsize (brk m) nu m1" and ?A = "A(brk m \<mapsto> nu)"
    note g = heap_grows[OF assms(1) m1(2)[unfolded u8] m1(3-5) nu(2) m1(6)]
    have A: "?A(brk m := None) = A" using g(1) by (simp add: fun_upd_idem)
    obtain m' bs' where m': "free (brk m + 8) ?m = Some m'" "heap_ok lo m' bs' A" "\<exists>(q, t) \<in> set bs'. unat nu \<le> unat t"
      "\<And>c. unat c \<in> live_bytes A \<Longrightarrow> cell m' c = cell ?m c" "base_at m' = base_at ?m" "brk m' = brk ?m"
      by (rule free_ok[where A = ?A and b = "brk m" and s = nu, OF g(2), unfolded A]) simp_all
    have ne: "brk m \<noteq> -1"
    proof
      assume "brk m = -1"
      then have "unat (-1 :: 32 word) \<le> 0xA0000" using w(4) by (simp only:)
      then show False unfolding unsigned_minus_1_eq_mask by (simp add: mask_eq_exp_minus_1)
    qed
    have "morecore n m = Some (freep m', m')" using m1(1) m'(1) ne by (simp add: morecore_def flip: nu_def)
    moreover have "freep m' \<noteq> 0"
      using heap_okD(4)[OF m'(2)] well_placedD(1,2)[OF heap_okD(1)[OF m'(2)]] asc_member[OF heap_okD(5)[OF m'(2)]] by force
    moreover have "\<exists>(q, t) \<in> set bs'. n \<le> t"
    proof -
      obtain q t where "(q, t) \<in> set bs'" "unat nu \<le> unat t" using m'(3) by blast
      then show ?thesis using nu(3) by (intro bexI[of _ "(q, t)"]) (simp_all add: word_le_nat_alt)
    qed
    moreover have "cell m' c = cell m c" if "unat c \<in> live_bytes A" for c
    proof -
      have "c < brk m" using that h(11) by (auto simp: word_less_nat_alt)
      then show ?thesis using m'(4)[OF that] g(3)[of c] by simp
    qed
    moreover have "base_at m' = base_at m" "brk m \<le> brk m'" using m'(5,6) m1(2,5) by (simp_all add: word_le_nat_alt)
    ultimately show thesis using that(2) m'(2) by blast
  qed
qed

lemma sbrk_result: "brk m1 = brk m \<Longrightarrow> pages_left m1 = pages_left m \<Longrightarrow> fst (sbrk n m1) = fst (sbrk n m)"
  by (simp only: sbrk_def Let_def if_distrib[of fst] fst_conv)

section \<open>malloc\<close>

text \<open>
  Before the first call there is no list. The program's view of the heap is \<open>heap_inv\<close>: either no list yet and no block, or a heap in good
  order.
\<close>

definition heap_inv :: "nat \<Rightarrow> uheap \<Rightarrow> live \<Rightarrow> bool" where
  "heap_inv lo m A \<longleftrightarrow> freep m = 0 \<and> well_placed lo m \<and> unat (brk m) = lo \<and> A = Map.empty \<or> (\<exists>bs. heap_ok lo m bs A)"

definition with_list :: "uheap \<Rightarrow> uheap" where
  "with_list m = (if freep m = 0 then set_hsize (base_at m) 0 ((set_ptr (base_at m) (base_at m) m)\<lparr>freep := base_at m\<rparr>) else m)"

lemma heap_freep: "heap_ok lo m bs A \<Longrightarrow> freep m \<noteq> 0"
  using heap_okD(4)[of lo m bs A] well_placedD(1,2)[OF heap_okD(1)[of lo m bs A]] asc_member[OF heap_okD(5)[of lo m bs A]] by force

lemma with_list_ok:
  assumes "heap_inv lo m A"
  obtains bs where "heap_ok lo (with_list m) bs A" "base_at (with_list m) = base_at m" "brk (with_list m) = brk m"
    "\<And>c. unat c \<in> live_bytes A \<Longrightarrow> cell (with_list m) c = cell m c"
proof (cases "freep m = 0")
  case True
  then have m: "well_placed lo m" "unat (brk m) = lo" "A = Map.empty" using assms heap_freep by (auto simp: heap_inv_def)
  note w = well_placedD[OF m(1)]
  have "heap_ok lo (with_list m) [] A"
    using True m w(2) by (auto simp: heap_ok_def with_list_def well_placed_def ptr_def hsize_def live_bytes_def)
  then show thesis using that m(3) True by (simp add: with_list_def live_bytes_def)
next
  case False
  then show thesis using assms that by (auto simp: heap_inv_def with_list_def)
qed

lemma malloc_ok:
  assumes "heap_inv lo m A" "0 < units nbytes" "unat (units nbytes) < 2 ^ 28"
  obtains m' where "malloc nbytes m = Some (0, m')" "heap_inv lo m' A" "\<And>c. unat c \<in> live_bytes A \<Longrightarrow> cell m' c = cell m c" "brk m' = brk m"
      "fst (sbrk ((if units nbytes < 4096 then 4096 else units nbytes) * 8) m) = -1"
  | b m' where "malloc nbytes m = Some (b + 8, m')" "A b = None" "heap_inv lo m' (A(b \<mapsto> units nbytes))" "\<And>c. unat c \<in> live_bytes A \<Longrightarrow> cell m' c = cell m c"
      "brk m \<le> brk m'"
proof -
  note result = that(2)
  let ?n = "units nbytes" and ?m = "with_list m"
  obtain bs where bs: "heap_ok lo ?m bs A" "base_at ?m = base_at m" "brk ?m = brk m" "\<And>c. unat c \<in> live_bytes A \<Longrightarrow> cell ?m c = cell m c"
    using with_list_ok[OF assms(1)] by metis
  have eq: "malloc nbytes m = malloc_loop ?n (freep ?m) (ptr ?m (freep ?m)) ?m" by (simp add: malloc_def with_list_def Let_def)
  have fit: thesis if m1: "heap_ok lo m1 cs A" "(p0, s0) \<in> set cs" "?n \<le> s0" "malloc nbytes m = malloc_loop ?n (freep m1) (ptr m1 (freep m1)) m1"
      and keep: "\<And>c. unat c \<in> live_bytes A \<Longrightarrow> cell m1 c = cell m c" and brk: "brk m \<le> brk m1" for m1 cs p0 s0
  proof -
    obtain xs p s ys where x: "cs = xs @ (p, s) # ys" "?n \<le> s"
      "malloc_loop ?n (freep m1) (ptr m1 (freep m1)) m1 = Some (cut_block ?n (last (base_at m1 # map fst xs)) p m1)"
      using malloc_fits[OF m1(1-3) assms(2)] .
    obtain b m' bs' where "cut_block ?n (last (base_at m1 # map fst xs)) p m1 = (b + 8, m')" "A b = None" "heap_ok lo m' bs' (A(b \<mapsto> ?n))"
      "\<And>c. unat c \<in> live_bytes A \<Longrightarrow> cell m' c = cell m1 c" "brk m' = brk m1"
      using take_ok[OF m1(1)[unfolded x(1)] x(2) assms(2)] by metis
    then show thesis using keep brk m1(4) x(3) by (intro result[of b m']) (auto simp: heap_inv_def)
  qed
  show thesis
  proof (cases "\<exists>(p, s) \<in> set bs. ?n \<le> s")
    case True
    then show ?thesis using fit[OF bs(1) _ _ eq bs(4)] bs(3) by auto
  next
    case False
    then have "\<And>p s. (p, s) \<in> set bs \<Longrightarrow> s < ?n" by (force simp: not_le)
    then have loop: "malloc_loop ?n (freep ?m) (ptr ?m (freep ?m)) ?m =
        Option.bind (morecore ?n ?m) (\<lambda>r. if fst r = 0 then Some (0, snd r) else malloc_loop ?n (fst r) (ptr (snd r) (fst r)) (snd r))"
      by (rule malloc_no_fit[OF bs(1) _ assms(2)])
    show ?thesis
    proof (rule morecore_ok[OF bs(1) assms(2,3)])
      assume no: "morecore ?n ?m = Some (0, ?m)" "fst (sbrk ((if ?n < 4096 then 4096 else ?n) * 8) ?m) = -1"
      have "malloc nbytes m = Some (0, ?m)" unfolding eq loop using no(1) by simp
      moreover have "pages_left ?m = pages_left m" by (simp add: with_list_def)
      ultimately show thesis using that(1)[of ?m] bs(1,3,4) no(2) sbrk_result[OF bs(3)] by (auto simp: heap_inv_def)
    next
      fix m1 cs assume m1: "morecore ?n ?m = Some (freep m1, m1)" "freep m1 \<noteq> 0" "heap_ok lo m1 cs A" "\<exists>(q, t) \<in> set cs. ?n \<le> t"
        "\<And>c. unat c \<in> live_bytes A \<Longrightarrow> cell m1 c = cell ?m c" "brk ?m \<le> brk m1"
      have e2: "malloc nbytes m = malloc_loop ?n (freep m1) (ptr m1 (freep m1)) m1" unfolding eq loop using m1(1,2) by simp
      obtain q t where "(q, t) \<in> set cs" "?n \<le> t" using m1(4) by blast
      then show thesis by (rule fit[OF m1(3) _ _ e2]) (use m1(5,6) bs(3,4) in auto)
    qed
  qed
qed

lemma free_inv:
  assumes "heap_inv lo m A" "A b = Some s"
  obtains m' where "free (b + 8) m = Some m'" "heap_inv lo m' (A(b := None))" "\<And>c. unat c \<in> live_bytes (A(b := None)) \<Longrightarrow> cell m' c = cell m c" "brk m' = brk m"
proof -
  obtain bs where "heap_ok lo m bs A" using assms by (auto simp: heap_inv_def)
  from free_ok[where A = A, OF this assms(2)] show thesis using that unfolding heap_inv_def by metis
qed

section \<open>Programs that use the allocator\<close>

text \<open>
  A program starts with a heap that has no list and runs by allocating, by freeing blocks that it holds, and by writing into the blocks that
  it holds, behind their headers. \<open>A\<close> has the blocks that it holds at present.
\<close>

definition payload :: "32 word \<Rightarrow> 32 word \<Rightarrow> nat set" where
  "payload b s = {unat b + 8 ..< unat b + 8 * unat s}"

definition fair_request :: "32 word \<Rightarrow> bool" where
  "fair_request nbytes \<longleftrightarrow> unat nbytes < 2 ^ 31 - 16"

inductive heap_run :: "nat \<Rightarrow> uheap \<Rightarrow> live \<Rightarrow> bool" for lo where
  start: "freep m = 0 \<Longrightarrow> well_placed lo m \<Longrightarrow> unat (brk m) = lo \<Longrightarrow> heap_run lo m Map.empty"
| refused: "heap_run lo m A \<Longrightarrow> fair_request nbytes \<Longrightarrow> malloc nbytes m = Some (0, m') \<Longrightarrow> heap_run lo m' A"
| allocate: "heap_run lo m A \<Longrightarrow> fair_request nbytes \<Longrightarrow> malloc nbytes m = Some (p, m') \<Longrightarrow> p \<noteq> 0 \<Longrightarrow> heap_run lo m' (A(p - 8 \<mapsto> units nbytes))"
| release: "heap_run lo m A \<Longrightarrow> A (p - 8) = Some s \<Longrightarrow> free p m = Some m' \<Longrightarrow> heap_run lo m' (A(p - 8 := None))"
| store: "heap_run lo m A \<Longrightarrow> A b = Some s \<Longrightarrow> unat c \<in> payload b s \<Longrightarrow> 4 dvd unat c \<Longrightarrow> heap_run lo (m\<lparr>cell := (cell m)(c := v)\<rparr>) A"

lemma units_request:
  assumes "fair_request nbytes"
  shows "unat (units nbytes) = (unat nbytes + 7) div 8 + 1" "0 < units nbytes" "unat (units nbytes) < 2 ^ 28" "unat nbytes \<le> 8 * (unat (units nbytes) - 1)"
proof -
  have b: "unat nbytes < 2147483632" using assms by (simp add: fair_request_def)
  have "nbytes + 8 - 1 = nbytes + of_nat 7" by simp
  then have u: "unat (nbytes + 8 - 1) = unat nbytes + 7" by (simp only:) (rule small_add, use b in simp)
  have d: "unat ((nbytes + 8 - 1) div 8) = (unat nbytes + 7) div 8" unfolding unat_div u by simp
  have le: "(unat nbytes + 7) div 8 \<le> 268435454" using b by linarith
  show e: "unat (units nbytes) = (unat nbytes + 7) div 8 + 1"
    unfolding units_def using d le by (subst unat_add_lem[THEN iffD1]) simp_all
  then show "0 < units nbytes" by (metis gr0I less_numeral_extra(3) unat_0 word_gt_0 zero_less_Suc Suc_eq_plus1)
  show "unat (units nbytes) < 2 ^ 28" unfolding e using le by simp
  show "unat nbytes \<le> 8 * (unat (units nbytes) - 1)" unfolding e by linarith
qed

text \<open>
  The bound on a request matters. Within eight bytes of the largest number the rounding wraps around, and a request for four gigabytes is
  one for the header alone; from two gigabytes on the number handed to \<open>sbrk\<close> is negative, so that the process shrinks.
\<close>

lemma units_wrap: "units 0xFFFFFFFF = 1" "sint (units 0x80000000 * 8) < 0"
  by (simp_all add: units_def)

lemma store_keeps:
  assumes "heap_inv lo m A" "A b = Some s" "unat c \<in> payload b s" "4 dvd unat c"
  shows "heap_inv lo (m\<lparr>cell := (cell m)(c := v)\<rparr>) A"
proof -
  obtain bs where h: "heap_ok lo m bs A" using assms(1,2) by (auto simp: heap_inv_def)
  note D = heap_okD[OF h] and w = well_placedD[OF heap_okD(1)[OF h]] and l = live_block[OF h assms(2)]
  let ?m = "m\<lparr>cell := (cell m)(c := v)\<rparr>"
  have c: "unat c \<in> extent b s" using assms(3) by (auto simp: payload_def extent_def)
  have cs: "lo \<le> unat c" "unat c \<notin> free_bytes bs" using c l(1,6) by (auto simp: extent_def)
  have e4: "unat (base_at m + of_nat 4) = unat (base_at m) + 4" by (rule small_add) (use w(2-4) in simp)
  have "links ?m (base_at m) bs (base_at m) \<longleftrightarrow> links m (base_at m) bs (base_at m)"
    by (rule links_cong) (use cs w(1,2,4) node_cells_bytes[OF _ D(5)] D(6) in auto)
  moreover have "hsize ?m (base_at m) = 0" using D(3) cs(1) e4 w(2) by (auto simp: hsize_def)
  moreover have "hsize ?m d = t \<and> 0 < unat t" if "A d = Some t" for d t
  proof -
    note k = live_block[OF h that]
    have "c \<noteq> d + 4"
    proof (cases "d = b")
      case True
      then show ?thesis using assms(3) l(3) by (auto simp: payload_def)
    next
      case False
      then show ?thesis using D(9)[OF that assms(2)] k(5) c by blast
    qed
    then show ?thesis using D(7,8)[OF that] by (simp add: hsize_def)
  qed
  ultimately have "heap_ok lo ?m bs A" using h by (simp add: heap_ok_def well_placed_def)
  then show ?thesis by (auto simp: heap_inv_def)
qed

lemma heap_run_inv: "heap_run lo m A \<Longrightarrow> heap_inv lo m A"
proof (induction rule: heap_run.induct)
  case (refused m A nbytes m')
  show ?case
  proof (rule malloc_ok[OF refused.IH units_request(2,3)[OF refused.hyps(2)]])
    fix m2 assume "malloc nbytes m = Some (0, m2)" "heap_inv lo m2 A"
    then show ?case using refused.hyps(3) by simp
  next
    fix b m2 assume a: "malloc nbytes m = Some (b + 8, m2)" "heap_inv lo m2 (A(b \<mapsto> units nbytes))"
    then obtain bs where "heap_ok lo m2 bs (A(b \<mapsto> units nbytes))" by (auto simp: heap_inv_def)
    from live_block(2)[OF this, of b] well_placedD(4)[OF heap_okD(1)[OF this]] have "unat b + 8 < 2 ^ 32"
      using units_request(1)[OF refused.hyps(2)] by simp
    then have "unat (b + of_nat 8) \<noteq> 0" using small_add[of b 8] by simp
    then show ?case using a(1) refused.hyps(3) by auto
  qed
next
  case (allocate m A nbytes p m')
  show ?case by (rule malloc_ok[OF allocate.IH units_request(2,3)[OF allocate.hyps(2)]]) (use allocate.hyps(3,4) in \<open>auto simp del: fun_upd_apply\<close>)
next
  case (release m A p s m')
  show ?case by (rule free_inv[where A = A, OF release.IH release.hyps(2)]) (use release.hyps(3) in \<open>auto simp del: fun_upd_apply\<close>)
next
  case (store m A b s c v)
  then show ?case by (intro store_keeps)
qed (simp add: heap_inv_def)

lemma one_block:
  assumes "asc l bs" "free_bytes bs = {lo ..< hi}" "bs \<noteq> []"
  obtains p s where "bs = [(p, s)]" "unat p = lo" "unat p + 8 * unat s = hi"
proof -
  obtain p s zs where bs: "bs = (p, s) # zs" using assms(3) by (metis neq_Nil_conv surj_pair)
  have z: "0 < unat s" "asc (unat p + 8 * unat s) zs" using assms(1) bs by simp_all
  have fb: "{lo ..< hi} = extent p s \<union> free_bytes zs" using assms(2) bs by simp
  have above: "unat p + 8 * unat s < x" if "x \<in> free_bytes zs" for x using free_bytes_range[OF z(2) that] by simp
  have "unat p \<in> {lo ..< hi}" "unat p + 8 * unat s - 1 \<in> {lo ..< hi}" unfolding fb using extent_ends[OF z(1), of p] by simp_all
  then have ends: "lo \<le> unat p" "unat p + 8 * unat s \<le> hi" using z(1) by auto
  have nil: "zs = []"
  proof (cases zs)
    case (Cons d ys)
    obtain q t where d: "d = (q, t)" by (cases d)
    have q: "unat q \<in> free_bytes zs" "unat p + 8 * unat s < unat q" using z(2) Cons d extent_ends[of t q] by simp_all
    then have "unat q < hi" using fb by auto
    then have "unat p + 8 * unat s \<in> extent p s \<union> free_bytes zs" using q(2) ends(1) unfolding fb[symmetric] by simp
    then show ?thesis using above[of "unat p + 8 * unat s"] by (simp add: extent_def)
  qed simp
  have "lo < hi" using ends z(1) by simp
  then have "lo \<in> {lo ..< hi}" "hi - 1 \<in> {lo ..< hi}" by auto
  then have "lo \<in> extent p s" "hi - 1 \<in> extent p s" unfolding fb nil by simp_all
  then have "unat p = lo" "unat p + 8 * unat s = hi" using ends \<open>lo < hi\<close> by (auto simp: extent_def)
  then show thesis using that bs nil by simp
qed

lemma payload_extent: "payload b s \<subseteq> extent b s"
  by (auto simp: payload_def extent_def)

lemma payload_live: "A b = Some s \<Longrightarrow> unat c \<in> payload b s \<Longrightarrow> unat c \<in> live_bytes A"
  using extent_live[of A b s] payload_extent[of b s] by blast

lemma held_apart:
  assumes "heap_run lo m A" "A b = Some s"
  shows "payload b s \<subseteq> {lo ..< unat (brk m)}" "A c = Some t \<Longrightarrow> b \<noteq> c \<Longrightarrow> payload b s \<inter> payload c t = {}"
proof -
  obtain bs where h: "heap_ok lo m bs A" using heap_run_inv[OF assms(1)] assms(2) by (auto simp: heap_inv_def)
  show "payload b s \<subseteq> {lo ..< unat (brk m)}" using live_block(1,2)[OF h assms(2)] by (auto simp: payload_def)
  show "A c = Some t \<Longrightarrow> b \<noteq> c \<Longrightarrow> payload b s \<inter> payload c t = {}" using heap_okD(9)[OF h assms(2), of c t] payload_extent by blast
qed

lemma malloc_held:
  assumes "heap_run lo m A" "fair_request nbytes"
  shows "\<exists>p m'. malloc nbytes m = Some (p, m') \<and>
      (\<forall>b s c. A b = Some s \<longrightarrow> unat c \<in> payload b s \<longrightarrow> cell m' c = cell m c) \<and>
      (p = 0 \<longrightarrow> fst (sbrk ((if units nbytes < 4096 then 4096 else units nbytes) * 8) m) = -1) \<and>
      (p \<noteq> 0 \<longrightarrow> A (p - 8) = None \<and> {unat p ..< unat p + unat nbytes} \<subseteq> payload (p - 8) (units nbytes) \<and> unat p + unat nbytes \<le> unat (brk m') \<and>
        (\<forall>b s. A b = Some s \<longrightarrow> payload b s \<inter> payload (p - 8) (units nbytes) = {}))"
proof (rule malloc_ok[OF heap_run_inv[OF assms(1)] units_request(2,3)[OF assms(2)]])
  fix m' assume "malloc nbytes m = Some (0, m')" "\<And>c. unat c \<in> live_bytes A \<Longrightarrow> cell m' c = cell m c"
    "fst (sbrk ((if units nbytes < 4096 then 4096 else units nbytes) * 8) m) = -1"
  then show ?thesis using payload_live[of A] by (intro exI[of _ 0] exI[of _ m']) auto
next
  fix b m' assume b: "malloc nbytes m = Some (b + 8, m')" "A b = None" "heap_inv lo m' (A(b \<mapsto> units nbytes))" "\<And>c. unat c \<in> live_bytes A \<Longrightarrow> cell m' c = cell m c"
  let ?A = "A(b \<mapsto> units nbytes)"
  note u = units_request[OF assms(2)]
  obtain bs where h: "heap_ok lo m' bs ?A" using b(3) by (auto simp: heap_inv_def)
  have Ab: "?A b = Some (units nbytes)" by simp
  note l = live_block[of lo m' bs ?A, OF h Ab]
  have top: "unat (brk m') \<le> 0xA0000" by (rule well_placedD(4)[OF heap_okD(1)[OF h]])
  have b8: "unat (b + of_nat 8) = unat b + 8" by (rule small_add) (use l(2) u(1) top in simp)
  have "{unat (b + 8) ..< unat (b + 8) + unat nbytes} \<subseteq> payload b (units nbytes)" using b8 u(1,4) by (auto simp: payload_def)
  moreover have "unat (b + 8) + unat nbytes \<le> unat (brk m')" using b8 u(1,4) l(2) by simp
  moreover have "payload c s \<inter> payload b (units nbytes) = {}" if c: "A c = Some s" for c s
  proof -
    have "c \<noteq> b" "?A c = Some s" using c b(2) by auto
    then have "extent c s \<inter> extent b (units nbytes) = {}" using heap_okD(9)[of lo m' bs ?A c s b "units nbytes", OF h _ Ab] by blast
    then show ?thesis using payload_extent by blast
  qed
  moreover have "b + 8 \<noteq> 0" using b8 by auto
  moreover have "cell m' c = cell m c" if "A d = Some s" "unat c \<in> payload d s" for d s c by (rule b(4)[OF payload_live[of A d s c, OF that]])
  ultimately show ?thesis using b(1,2) by (intro exI[of _ "b + 8"] exI[of _ m']) simp
qed

lemma free_held:
  assumes "heap_run lo m A" "A (p - 8) = Some s"
  shows "\<exists>m'. free p m = Some m' \<and> (\<forall>b t c. A b = Some t \<longrightarrow> b \<noteq> p - 8 \<longrightarrow> unat c \<in> payload b t \<longrightarrow> cell m' c = cell m c)"
proof (rule free_inv[of lo m A, OF heap_run_inv[OF assms(1)] assms(2)])
  fix m' assume f: "free (p - 8 + 8) m = Some m'" "\<And>c. unat c \<in> live_bytes (A(p - 8 := None)) \<Longrightarrow> cell m' c = cell m c"
  have "cell m' c = cell m c" if "A b = Some t" "b \<noteq> p - 8" "unat c \<in> payload b t" for b t c
    by (rule f(2)[OF payload_live[of _ b t]]) (use that in simp_all)
  then show ?thesis using f(1) by auto
qed

lemma all_returned:
  assumes "heap_run lo m Map.empty" "lo < unat (brk m)"
  shows "ptr m (base_at m) = of_nat lo" "lo + 8 * unat (hsize m (of_nat lo)) = unat (brk m)" "ptr m (of_nat lo) = base_at m"
proof -
  obtain bs where h: "heap_ok lo m bs Map.empty" using heap_run_inv[OF assms(1)] assms(2) by (auto simp: heap_inv_def)
  have fb: "free_bytes bs = {lo ..< unat (brk m)}" using heap_okD(11)[OF h] by (simp add: live_bytes_def)
  then have "bs \<noteq> []" using assms(2) by auto
  then obtain p s where p: "bs = [(p, s)]" "unat p = lo" "unat p + 8 * unat s = unat (brk m)" using one_block[OF heap_okD(5)[OF h] fb] by blast
  moreover have "of_nat lo = p" using p(2) by auto
  ultimately show "ptr m (base_at m) = of_nat lo" "lo + 8 * unat (hsize m (of_nat lo)) = unat (brk m)" "ptr m (of_nat lo) = base_at m"
    using heap_okD(2)[OF h] by simp_all
qed

text \<open>
  C31. The allocator of user programs, in every program that frees only blocks it holds and writes only into them: the blocks that it
  holds do not overlap and lie between the start of the heap and the end of the process. Every request below two gigabytes returns: with
  a new block of at least the requested bytes that overlaps no other, or with 0, and then only if \<open>sbrk\<close> refuses to extend the process.
  \<open>free\<close> of a block that is held returns. Both leave the contents of all other blocks alone. Once all blocks are returned, the free
  list consists of one block that is the whole heap.
\<close>

theorem malloc_free_correct:
  assumes "heap_run lo m A"
  shows "(\<forall>b s. A b = Some s \<longrightarrow> payload b s \<subseteq> {lo ..< unat (brk m)} \<and> (\<forall>c t. A c = Some t \<longrightarrow> b \<noteq> c \<longrightarrow> payload b s \<inter> payload c t = {})) \<and>
    (\<forall>nbytes. fair_request nbytes \<longrightarrow> (\<exists>p m'. malloc nbytes m = Some (p, m') \<and>
      (\<forall>b s c. A b = Some s \<longrightarrow> unat c \<in> payload b s \<longrightarrow> cell m' c = cell m c) \<and>
      (p = 0 \<longrightarrow> fst (sbrk ((if units nbytes < 4096 then 4096 else units nbytes) * 8) m) = -1) \<and>
      (p \<noteq> 0 \<longrightarrow> A (p - 8) = None \<and> {unat p ..< unat p + unat nbytes} \<subseteq> payload (p - 8) (units nbytes) \<and> unat p + unat nbytes \<le> unat (brk m') \<and>
        (\<forall>b s. A b = Some s \<longrightarrow> payload b s \<inter> payload (p - 8) (units nbytes) = {})))) \<and>
    (\<forall>p s. A (p - 8) = Some s \<longrightarrow> (\<exists>m'. free p m = Some m' \<and>
      (\<forall>b t c. A b = Some t \<longrightarrow> b \<noteq> p - 8 \<longrightarrow> unat c \<in> payload b t \<longrightarrow> cell m' c = cell m c))) \<and>
    (A = Map.empty \<longrightarrow> lo < unat (brk m) \<longrightarrow>
      ptr m (base_at m) = of_nat lo \<and> lo + 8 * unat (hsize m (of_nat lo)) = unat (brk m) \<and> ptr m (of_nat lo) = base_at m)"
proof (intro conjI)
  show "\<forall>b s. A b = Some s \<longrightarrow> payload b s \<subseteq> {lo ..< unat (brk m)} \<and> (\<forall>c t. A c = Some t \<longrightarrow> b \<noteq> c \<longrightarrow> payload b s \<inter> payload c t = {})"
    using held_apart[OF assms] by blast
qed (use malloc_held[OF assms] free_held[OF assms] all_returned[of lo m] assms in blast)+

text \<open>A process of two pages whose first request makes the heap, and the block that it then returns.\<close>

definition demo_heap :: uheap where
  "demo_heap = \<lparr>cell = (\<lambda>_. 0), freep = 0, base_at = 0x1000, brk = 0x2000, pages_left = 20\<rparr>"

theorem malloc_free_correct_witness:
  "\<exists>p m m'. malloc 100 demo_heap = Some (p, m) \<and> p \<noteq> 0 \<and> unat p + 100 \<le> unat (brk m) \<and> free p m = Some m'"
proof -
  have r: "heap_run 0x2000 demo_heap Map.empty"
    by (rule heap_run.start) (simp_all add: demo_heap_def well_placed_def USERTOP_def)
  have q: "fair_request 100" by (simp add: fair_request_def)
  have s: "fst (sbrk ((if units 100 < 4096 then 4096 else units 100) * 8) demo_heap) \<noteq> -1"
    by (simp add: units_def sbrk_def demo_heap_def USERTOP_def uvm_pages_def PGROUNDUPw_def)
  obtain p m where p: "malloc 100 demo_heap = Some (p, m)" "p \<noteq> 0" "unat p + 100 \<le> unat (brk m)"
    using malloc_free_correct[OF r, THEN conjunct2, THEN conjunct1, rule_format, OF q] s by auto
  have "heap_run 0x2000 m (Map.empty(p - 8 \<mapsto> units 100))" by (rule heap_run.allocate[OF r q p(1,2)])
  from malloc_free_correct[OF this, THEN conjunct2, THEN conjunct2, THEN conjunct1, rule_format, of p "units 100"]
  obtain m' where "free p m = Some m'" by auto
  then show ?thesis using p by blast
qed

end
