(* ===== verification/Xv6_Kbd.thy ===== *)
theory Xv6_Kbd
  imports Xv6_Console
begin

text \<open>
  \<open>kernel/kbd.c\<close> and the tables of \<open>kernel/kbd.h\<close>. The controller is the list of scan codes that it has ready: its status register says
  whether there is one, and reading the data register takes it. All codes and characters stay within a byte, so the variables \<open>data\<close>
  and \<open>c\<close> are bytes here.
\<close>

section \<open>Tables\<close>

definition SHIFT :: "32 word" where "SHIFT = 1"
definition CTL :: "32 word" where "CTL = 2"
definition ALT :: "32 word" where "ALT = 4"
definition CAPSLOCK :: "32 word" where "CAPSLOCK = 8"
definition NUMLOCK :: "32 word" where "NUMLOCK = 16"
definition SCROLLLOCK :: "32 word" where "SCROLLLOCK = 32"
definition E0ESC :: "32 word" where "E0ESC = 64"

definition chars :: "string \<Rightarrow> byte list" where
  "chars s = map of_char s"

definition ctls :: "string \<Rightarrow> byte list" where
  "ctls s = map (\<lambda>c. of_char c - 64) s"

text \<open>An initialiser: the leading elements, then single ones by their index; the rest of the 256 is zero.\<close>

definition key_table :: "byte list \<Rightarrow> (nat \<times> byte) list \<Rightarrow> byte \<Rightarrow> byte" where
  "key_table pre sp i =
     (if unat i < length pre then pre ! unat i else case map_of sp (unat i) of Some v \<Rightarrow> v | None \<Rightarrow> 0)"

definition shiftcode :: "byte \<Rightarrow> 32 word" where
  "shiftcode i =
     (if i = 0x1D then CTL else if i = 0x2A then SHIFT else if i = 0x36 then SHIFT else if i = 0x38 then ALT
      else if i = 0x9D then CTL else if i = 0xB8 then ALT else 0)"

definition togglecode :: "byte \<Rightarrow> 32 word" where
  "togglecode i = (if i = 0x3A then CAPSLOCK else if i = 0x45 then NUMLOCK else if i = 0x46 then SCROLLLOCK else 0)"

text \<open>The arrow keys and their neighbours, the same in all three tables: up, down, page up and down, left, right, home, end, insert, delete.\<close>

definition special_keys :: "(nat \<times> byte) list" where
  "special_keys = [(0xC8, 0xE2), (0xD0, 0xE3), (0xC9, 0xE6), (0xD1, 0xE7), (0xCB, 0xE4), (0xCD, 0xE5), (0x97, 0xE0), (0xCF, 0xE1), (0xD2, 0xE8), (0xD3, 0xE9)]"

definition keypad :: "byte list" where
  "keypad = [0] @ chars ''*'' @ [0] @ chars '' '' @ replicate 13 0 @ chars ''789-456+1230.'' @ [0, 0, 0, 0]"

definition normalmap :: "byte \<Rightarrow> byte" where
  "normalmap = key_table
     ([0, 0x1B] @ chars ''1234567890-='' @ [8, 9] @ chars ''qwertyuiop[]'' @ [10, 0] @ chars ''asdfghjkl;'' @ [0x27, 0x60, 0, 0x5C] @
      chars ''zxcvbnm,./'' @ keypad)
     ((0x9C, 10) # (0xB5, of_char CHR ''/'') # special_keys)"

definition shiftmap :: "byte \<Rightarrow> byte" where
  "shiftmap = key_table
     ([0, 0x1B] @ chars ''!@#$%^&*()_+'' @ [8, 9] @ chars ''QWERTYUIOP{}'' @ [10, 0] @ chars ''ASDFGHJKL:'' @ [0x22, 0x7E, 0, 0x7C] @
      chars ''ZXCVBNM<>?'' @ keypad)
     ((0x9C, 10) # (0xB5, of_char CHR ''/'') # special_keys)"

definition ctlmap :: "byte \<Rightarrow> byte" where
  "ctlmap = key_table
     (replicate 16 0 @ ctls ''QWERTYUIOP'' @ [0, 0, 13, 0] @ ctls ''ASDFGHJKL'' @ [0, 0, 0, 0, 0x1C] @ ctls ''ZXCVBNM'' @ [0, 0] @ ctls ''/'' @ [0, 0])
     ((0x9C, 13) # (0xB5, of_char CHR ''/'' - 64) # special_keys)"

section \<open>kbdgetc\<close>

record kbd =
  kshift :: "32 word"
  kcodes :: "byte list"

definition charcode :: "32 word \<Rightarrow> byte \<Rightarrow> byte" where
  "charcode i = [normalmap, shiftmap, ctlmap, ctlmap] ! unat i"

definition caps :: "byte \<Rightarrow> byte" where
  "caps c =
     (if of_char CHR ''a'' \<le> c \<and> c \<le> of_char CHR ''z'' then c + (of_char CHR ''A'' - of_char CHR ''a'')
      else if of_char CHR ''A'' \<le> c \<and> c \<le> of_char CHR ''Z'' then c + (of_char CHR ''a'' - of_char CHR ''A'')
      else c)"

definition kbdgetc :: "kbd \<Rightarrow> int \<times> kbd" where
  "kbdgetc k =
     (case kcodes k of
        [] \<Rightarrow> (-1, k)
      | data # rest \<Rightarrow>
          let k1 = k\<lparr>kcodes := rest\<rparr>; shift = kshift k in
          if data = 0xE0 then (0, k1\<lparr>kshift := shift OR E0ESC\<rparr>)
          else if data AND 0x80 \<noteq> 0 then
            let data = (if shift AND E0ESC \<noteq> 0 then data else data AND 0x7F)
            in (0, k1\<lparr>kshift := shift AND NOT (shiftcode data OR E0ESC)\<rparr>)
          else
            let (data, shift) = (if shift AND E0ESC \<noteq> 0 then (data OR 0x80, shift AND NOT E0ESC) else (data, shift));
                shift = shift OR shiftcode data;
                shift = shift XOR togglecode data;
                c = charcode (shift AND (CTL OR SHIFT)) data;
                c = (if shift AND CAPSLOCK \<noteq> 0 then caps c else c)
            in (uint c, k1\<lparr>kshift := shift\<rparr>))"

lemma kbdgetc_progress: "kbdgetc k = (c, k') \<Longrightarrow> c \<ge> 0 \<Longrightarrow> length (kcodes k') < length (kcodes k)"
  by (auto simp: kbdgetc_def Let_def split: list.splits if_splits prod.splits)

text \<open>The characters that \<open>consoleintr\<close> gets from \<open>kbdgetc\<close> before it returns -1.\<close>

function kbd_chars :: "kbd \<Rightarrow> byte list \<times> kbd" where
  "kbd_chars k =
     (let (c, k1) = kbdgetc k in
      if c \<ge> 0 then let (cs, k2) = kbd_chars k1 in (word_of_int c # cs, k2) else ([], k1))"
  by pat_completeness auto
termination
  by (relation "measure (\<lambda>k. length (kcodes k))") (auto intro: kbdgetc_progress[OF sym])

declare kbd_chars.simps [simp del]

definition kbdintr :: "kbd \<Rightarrow> input \<Rightarrow> kbd \<times> nat list \<times> bool \<times> input" where
  "kbdintr k s = (let (cs, k1) = kbd_chars k in (k1, consoleintr cs s))"

section \<open>Typing\<close>

lemma byte_tests:
  "list_all (\<lambda>n. (of_nat n :: byte) AND 0x80 = 0 \<and> (of_nat n OR 0x80 :: byte) AND 0x80 \<noteq> 0 \<and> (of_nat n OR 0x80 :: byte) AND 0x7F = of_nat n \<and>
     (of_nat n :: byte) \<noteq> 0xE0) [0..<128]"
  by code_simp

lemma low_byte:
  assumes "unat (d :: byte) < 128"
  shows "d AND 0x80 = 0" "(d OR 0x80) AND 0x80 \<noteq> 0" "(d OR 0x80) AND 0x7F = d" "d \<noteq> 0xE0"
proof -
  have "unat d \<in> set [0..<128]" using assms by simp
  then have "(of_nat (unat d) :: byte) AND 0x80 = 0 \<and> (of_nat (unat d) OR 0x80 :: byte) AND 0x80 \<noteq> 0 \<and>
      (of_nat (unat d) OR 0x80 :: byte) AND 0x7F = of_nat (unat d) \<and> (of_nat (unat d) :: byte) \<noteq> 0xE0"
    using byte_tests unfolding list_all_iff by blast
  then show "d AND 0x80 = 0" "(d OR 0x80) AND 0x80 \<noteq> 0" "(d OR 0x80) AND 0x7F = d" "d \<noteq> 0xE0" by simp_all
qed

text \<open>A key that is neither a modifier nor a lock, and the codes for pressing and releasing it. 0x60 is left out: its release is the escape code.\<close>

definition plain_key :: "byte \<Rightarrow> bool" where
  "plain_key d \<longleftrightarrow> unat d < 128 \<and> d \<noteq> 0x60 \<and> shiftcode d = 0 \<and> togglecode d = 0"

definition stroke :: "byte \<Rightarrow> byte list" where
  "stroke d = [d, d OR 0x80]"

definition key_char :: "32 word \<Rightarrow> byte \<Rightarrow> byte" where
  "key_char shift d = (let c = charcode (shift AND (CTL OR SHIFT)) d in if shift AND CAPSLOCK \<noteq> 0 then caps c else c)"

lemma release_code: "plain_key d \<Longrightarrow> d OR 0x80 \<noteq> 0xE0"
proof
  assume d: "plain_key d" "d OR 0x80 = 0xE0"
  then have "(d OR 0x80) AND 0x7F = d" using low_byte(3)[of d] by (simp add: plain_key_def)
  then show False using d by (simp add: plain_key_def)
qed

lemma and_not_disjoint:
  assumes "(a :: 32 word) AND b = 0"
  shows "a AND NOT b = a"
proof (rule bit_word_eqI)
  fix n
  have "\<not> bit (a AND b) n" using assms by simp
  then show "n < LENGTH(32) \<Longrightarrow> bit (a AND NOT b) n = bit a n" by (auto simp: bit_simps)
qed

lemma kbd_chars_step:
  "kbdgetc k = (c, k1) \<Longrightarrow> 0 \<le> c \<Longrightarrow> kbd_chars k = (let (cs, k2) = kbd_chars k1 in (word_of_int c # cs, k2))"
  by (subst kbd_chars.simps) simp

lemma stroke_chars:
  assumes "plain_key d" "shift AND E0ESC = 0"
  shows "kbd_chars \<lparr>kshift = shift, kcodes = stroke d @ rest\<rparr> =
    (let (cs, k) = kbd_chars \<lparr>kshift = shift, kcodes = rest\<rparr> in (key_char shift d # 0 # cs, k))"
proof -
  have d: "unat d < 128" "shiftcode d = 0" "togglecode d = 0" using assms(1) by (simp_all add: plain_key_def)
  note b = low_byte[OF d(1)]
  have p: "kbdgetc \<lparr>kshift = shift, kcodes = stroke d @ rest\<rparr> = (uint (key_char shift d), \<lparr>kshift = shift, kcodes = (d OR 0x80) # rest\<rparr>)"
    using b d assms(2) by (simp add: kbdgetc_def stroke_def Let_def key_char_def)
  have r: "kbdgetc \<lparr>kshift = shift, kcodes = (d OR 0x80) # rest\<rparr> = (0, \<lparr>kshift = shift, kcodes = rest\<rparr>)"
    using b d assms release_code[OF assms(1)] by (simp add: kbdgetc_def Let_def and_not_disjoint)
  show ?thesis using kbd_chars_step[OF p] kbd_chars_step[OF r] by (simp add: case_prod_unfold Let_def)
qed

lemma zero_ignored: "console_char 0 s = ([], False, s)"
  by (simp add: console_char_def ctrl_def BACKSPACE_def)

lemma typed_chars:
  "(\<And>d. d \<in> set ds \<Longrightarrow> plain_key d) \<Longrightarrow> shift AND E0ESC = 0 \<Longrightarrow>
    kbd_chars \<lparr>kshift = shift, kcodes = concat (map stroke ds)\<rparr> = (concat (map (\<lambda>d. [key_char shift d, 0]) ds), \<lparr>kshift = shift, kcodes = []\<rparr>)"
proof (induction ds)
  case Nil
  show ?case by (subst kbd_chars.simps) (simp add: kbdgetc_def)
qed (simp add: stroke_chars)

lemma zeros_ignored: "consoleintr (concat (map (\<lambda>d. [f d, 0]) ds)) s = consoleintr (map f ds) s"
  by (induction ds arbitrary: s) (simp_all add: zero_ignored case_prod_unfold Let_def)

text \<open>
  Typing reaches the console: pressing and releasing a sequence of keys gives the console just the characters of these keys, by the table
  that the modifiers held down select, and leaves the modifiers as they are.
\<close>

theorem typing_reaches_console:
  assumes "\<And>d. d \<in> set ds \<Longrightarrow> plain_key d" "shift AND E0ESC = 0"
  shows "kbdintr \<lparr>kshift = shift, kcodes = concat (map stroke ds)\<rparr> s = (\<lparr>kshift = shift, kcodes = []\<rparr>, consoleintr (map (key_char shift) ds) s)"
  by (simp add: kbdintr_def typed_chars[OF assms] zeros_ignored)

text \<open>Shift and control, held and released; the locks change with every press.\<close>

lemma modifier_keys:
  "snd (kbdgetc \<lparr>kshift = 0, kcodes = 0x2A # rest\<rparr>) = \<lparr>kshift = SHIFT, kcodes = rest\<rparr>"
  "snd (kbdgetc \<lparr>kshift = SHIFT, kcodes = 0xAA # rest\<rparr>) = \<lparr>kshift = 0, kcodes = rest\<rparr>"
  "snd (kbdgetc (snd (kbdgetc \<lparr>kshift = 0, kcodes = 0xE0 # 0x1D # rest\<rparr>))) = \<lparr>kshift = CTL, kcodes = rest\<rparr>"
  "snd (kbdgetc (snd (kbdgetc \<lparr>kshift = CTL, kcodes = 0xE0 # 0x9D # rest\<rparr>))) = \<lparr>kshift = 0, kcodes = rest\<rparr>"
  "snd (kbdgetc \<lparr>kshift = 0, kcodes = 0x3A # rest\<rparr>) = \<lparr>kshift = CAPSLOCK, kcodes = rest\<rparr>"
  by (simp_all add: kbdgetc_def shiftcode_def togglecode_def SHIFT_def CTL_def E0ESC_def CAPSLOCK_def ALT_def)

lemma key_chars:
  "map (key_char 0) [0x23, 0x17] = chars ''hi''" "map (key_char SHIFT) [0x23, 0x17] = chars ''HI''" "map (key_char CAPSLOCK) [0x23, 0x02] = chars ''H1''"
  "key_char CTL 0x2E = 3" "key_char (CTL OR SHIFT) 0x20 = 4"
  by code_simp+

end
