(* ===== verification/Xv6_Mp.thy ===== *)
theory Xv6_Mp
  imports User_Lib
begin

text \<open>
  \<open>kernel/mp.c\<close>: the search for the tables of the multiprocessor specification in the memory of the machine, a function from physical addresses
  to bytes, and the walk over the entries of the configuration table. The walk need not end: on an entry of unknown type the pointer
  stays where it is. It is a partial function, and not returning is \<open>None\<close>.
\<close>

section \<open>Searching\<close>

type_synonym pmem = "nat \<Rightarrow> byte"

definition bytes_at :: "pmem \<Rightarrow> nat \<Rightarrow> nat \<Rightarrow> byte list" where
  "bytes_at mem a n = map mem [a..<a + n]"

definition short_at :: "pmem \<Rightarrow> nat \<Rightarrow> nat" where
  "short_at mem a = unat (mem a) + 256 * unat (mem (a + 1))"

definition word_at :: "pmem \<Rightarrow> nat \<Rightarrow> nat" where
  "word_at mem a = short_at mem a + 65536 * short_at mem (a + 2)"

definition mp_sum :: "pmem \<Rightarrow> nat \<Rightarrow> nat \<Rightarrow> byte" where
  "mp_sum mem addr len = sum_list (bytes_at mem addr len)"

function mpsearch_from :: "pmem \<Rightarrow> nat \<Rightarrow> nat \<Rightarrow> nat option" where
  "mpsearch_from mem e p =
     (if p < e then
        if bytes_at mem p 4 = map of_char ''_MP_'' \<and> mp_sum mem p 16 = 0 then Some p
        else mpsearch_from mem e (p + 16)
      else None)"
  by pat_completeness auto
termination by (relation "measure (\<lambda>(mem, e, p). e - p)") auto

declare mpsearch_from.simps [simp del]

definition mpsearch1 :: "pmem \<Rightarrow> nat \<Rightarrow> nat \<Rightarrow> nat option" where
  "mpsearch1 mem addr len = mpsearch_from mem ((addr + len) mod 2 ^ 32) addr"

definition mpsearch :: "pmem \<Rightarrow> nat option" where
  "mpsearch mem =
    (let p = short_at mem (0x400 + 0x0E) * 16;
         first = (if p \<noteq> 0 then mpsearch1 mem p 1024
                  else mpsearch1 mem ((short_at mem (0x400 + 0x13) * 1024 + 2 ^ 32 - 1024) mod 2 ^ 32) 1024)
     in case first of Some mp \<Rightarrow> Some mp | None \<Rightarrow> mpsearch1 mem 0xF0000 0x10000)"

text \<open>The fields of \<open>struct mp\<close> and \<open>struct mpconf\<close>, by their offsets.\<close>

definition mp_physaddr :: "pmem \<Rightarrow> nat \<Rightarrow> nat" where "mp_physaddr mem mp = word_at mem (mp + 4)"
definition mp_imcrp :: "pmem \<Rightarrow> nat \<Rightarrow> byte" where "mp_imcrp mem mp = mem (mp + 12)"
definition conf_length :: "pmem \<Rightarrow> nat \<Rightarrow> nat" where "conf_length mem c = short_at mem (c + 4)"
definition conf_version :: "pmem \<Rightarrow> nat \<Rightarrow> byte" where "conf_version mem c = mem (c + 6)"
definition conf_lapicaddr :: "pmem \<Rightarrow> nat \<Rightarrow> nat" where "conf_lapicaddr mem c = word_at mem (c + 36)"

definition mpconfig :: "pmem \<Rightarrow> (nat \<times> nat) option" where
  "mpconfig mem =
     (case mpsearch mem of
        None \<Rightarrow> None
      | Some mp \<Rightarrow>
          let conf = mp_physaddr mem mp in
          if conf = 0 then None
          else if bytes_at mem conf 4 \<noteq> map of_char ''PCMP'' then None
          else if conf_version mem conf \<noteq> 1 \<and> conf_version mem conf \<noteq> 4 then None
          else if mp_sum mem conf (conf_length mem conf) \<noteq> 0 then None
          else Some (mp, conf))"

section \<open>mpinit\<close>

definition NCPU :: nat where "NCPU = 8"

text \<open>
  \<open>cpu_id\<close> has the identifiers stored in \<open>cpus\<close> and \<open>stray\<close> says whether one was stored behind the end of that array, which the code does not
  check. \<open>says\<close> is what is printed and \<open>ports\<close> what is written to ports.
\<close>

record mp_state =
  bcpu :: nat
  ismp :: bool
  ncpu :: nat
  ioapicid :: byte
  lapic_at :: nat
  cpu_id :: "nat \<Rightarrow> byte"
  stray :: bool
  says :: "string list"
  ports :: "(nat \<times> byte) list"

definition mp_proc :: "byte \<Rightarrow> byte \<Rightarrow> mp_state \<Rightarrow> mp_state" where
  "mp_proc apicid flags s =
    (let s1 = (if ncpu s \<noteq> unat apicid then
                 s\<lparr>says := says s @ [cprintf (\<lambda>_. []) (''mpinit: ncpu=%d apicid=%d'' @ [CHR 0x0A]) (nth [of_nat (ncpu s), ucast apicid])],
                   ismp := False\<rparr>
               else s);
         s2 = (if flags AND 2 \<noteq> 0 then s1\<lparr>bcpu := ncpu s1\<rparr> else s1)
     in s2\<lparr>cpu_id := (cpu_id s2)(ncpu s2 := of_nat (ncpu s2)), stray := stray s2 \<or> NCPU \<le> ncpu s2, ncpu := ncpu s2 + 1\<rparr>)"

partial_function (option) mp_entries :: "pmem \<Rightarrow> nat \<Rightarrow> nat \<Rightarrow> mp_state \<Rightarrow> mp_state option" where
  "mp_entries mem e p s =
     (if p < e then
        if mem p = 0 then mp_entries mem e (p + 20) (mp_proc (mem (p + 1)) (mem (p + 3)) s)
        else if mem p = 2 then mp_entries mem e (p + 8) (s\<lparr>ioapicid := mem (p + 1)\<rparr>)
        else if mem p = 1 \<or> mem p = 3 \<or> mem p = 4 then mp_entries mem e (p + 8) s
        else mp_entries mem e p
          (s\<lparr>says := says s @ [cprintf (\<lambda>_. []) (''mpinit: unknown config type %x'' @ [CHR 0x0A]) (\<lambda>_. ucast (mem p))], ismp := False\<rparr>)
      else Some s)"

text \<open>\<open>imcr\<close> is what reading port 0x23 gives.\<close>

definition mpinit :: "pmem \<Rightarrow> byte \<Rightarrow> mp_state \<Rightarrow> mp_state option" where
  "mpinit mem imcr s =
    (let s0 = s\<lparr>bcpu := 0\<rparr> in
     case mpconfig mem of
       None \<Rightarrow> Some s0
     | Some (mp, conf) \<Rightarrow>
         Option.bind (mp_entries mem (conf + conf_length mem conf) (conf + 44) (s0\<lparr>ismp := True, lapic_at := conf_lapicaddr mem conf\<rparr>)) (\<lambda>t.
         if \<not> ismp t then Some (t\<lparr>ncpu := 1, lapic_at := 0, ioapicid := 0\<rparr>)
         else if mp_imcrp mem mp \<noteq> 0 then Some (t\<lparr>ports := ports t @ [(0x22, 0x70), (0x23, imcr OR 1)]\<rparr>)
         else Some t))"

section \<open>What is found\<close>

definition is_mp :: "pmem \<Rightarrow> nat \<Rightarrow> bool" where
  "is_mp mem q \<longleftrightarrow> bytes_at mem q 4 = map of_char ''_MP_'' \<and> mp_sum mem q 16 = 0"

lemma on_grid: "p \<le> r \<Longrightarrow> r \<noteq> p \<Longrightarrow> (16 :: nat) dvd r - p \<Longrightarrow> p + 16 \<le> r \<and> 16 dvd r - (p + 16)"
  by (auto elim!: dvdE) presburger+

text \<open>The search gives the first place on the grid of sixteen bytes that has the signature and the checksum, if there is one.\<close>

lemma mpsearch_first:
  "(case mpsearch_from mem e p of
      Some q \<Rightarrow> p \<le> q \<and> q < e \<and> 16 dvd q - p \<and> is_mp mem q \<and> (\<forall>r. p \<le> r \<longrightarrow> r < q \<longrightarrow> 16 dvd r - p \<longrightarrow> \<not> is_mp mem r)
    | None \<Rightarrow> \<forall>r. p \<le> r \<longrightarrow> r < e \<longrightarrow> 16 dvd r - p \<longrightarrow> \<not> is_mp mem r)"
proof (induction mem e p rule: mpsearch_from.induct)
  case (1 mem e p)
  show ?case
  proof (cases "p < e \<and> \<not> is_mp mem p")
    case True
    have s: "mpsearch_from mem e p = mpsearch_from mem e (p + 16)" using True by (subst mpsearch_from.simps) (auto simp: is_mp_def)
    have ih: "case mpsearch_from mem e (p + 16) of
        Some q \<Rightarrow> p + 16 \<le> q \<and> q < e \<and> 16 dvd q - (p + 16) \<and> is_mp mem q \<and> (\<forall>r. p + 16 \<le> r \<longrightarrow> r < q \<longrightarrow> 16 dvd r - (p + 16) \<longrightarrow> \<not> is_mp mem r)
      | None \<Rightarrow> \<forall>r. p + 16 \<le> r \<longrightarrow> r < e \<longrightarrow> 16 dvd r - (p + 16) \<longrightarrow> \<not> is_mp mem r"
      using 1 True unfolding is_mp_def by blast
    show ?thesis
    proof (cases "mpsearch_from mem e (p + 16)")
      case None
      have "\<not> is_mp mem r" if "p \<le> r" "r < e" "16 dvd r - p" for r
        using ih None True on_grid[OF that(1) _ that(3)] that(2) by (cases "r = p") auto
      then show ?thesis using s None by simp
    next
      case (Some q)
      have "16 dvd q - p" if "p + 16 \<le> q" "16 dvd q - (p + 16)"
      proof -
        have "q - p = q - (p + 16) + 16" using that(1) by simp
        then show ?thesis using that(2) by (metis dvd_add dvd_refl)
      qed
      moreover have "\<not> is_mp mem r" if "p \<le> r" "r < q" "16 dvd r - p" for r
        using ih Some True on_grid[OF that(1) _ that(3)] that(2) by (cases "r = p") auto
      ultimately show ?thesis using s ih Some by auto
    qed
  next
    case False
    then show ?thesis by (subst mpsearch_from.simps) (auto simp: is_mp_def)
  qed
qed

text \<open>On an entry of unknown type the walk does not return.\<close>

lemma mp_entries_stuck:
  assumes "p < e" "mem p \<notin> {0, 1, 2, 3, 4}"
  shows "mp_entries mem e p s = None"
proof (rule ccontr)
  assume "mp_entries mem e p s \<noteq> None"
  then obtain y where "mp_entries mem e p s = Some y" by blast
  then have "\<not> (p < e \<and> mem p \<notin> {0, 1, 2, 3, 4})"
  proof (rule mp_entries.raw_induct[rotated, where P = "\<lambda>mem e p s y. \<not> (p < e \<and> mem p \<notin> {0, 1, 2, 3, 4})"], goal_cases)
    case (1 f mem e p s y)
    show ?case
    proof
      assume a: "p < e \<and> mem p \<notin> {0, 1, 2, 3, 4}"
      then obtain s' where "f mem e p s' = Some y" using 1(2) by (auto split: if_splits)
      from 1(1)[OF this] a show False by blast
    qed
  qed
  then show False using assms by blast
qed

text \<open>The entries of a table and their bytes, as far as the code looks at them.\<close>

datatype mp_entry = MPPROC byte byte | MPBUS | MPIOAPIC byte | MPIOINTR | MPLINTR

fun entry_size :: "mp_entry \<Rightarrow> nat" where
  "entry_size (MPPROC a f) = 20"
| "entry_size _ = 8"

fun entry_at :: "pmem \<Rightarrow> nat \<Rightarrow> mp_entry \<Rightarrow> bool" where
  "entry_at mem p (MPPROC apicid flags) \<longleftrightarrow> mem p = 0 \<and> mem (p + 1) = apicid \<and> mem (p + 3) = flags"
| "entry_at mem p MPBUS \<longleftrightarrow> mem p = 1"
| "entry_at mem p (MPIOAPIC no) \<longleftrightarrow> mem p = 2 \<and> mem (p + 1) = no"
| "entry_at mem p MPIOINTR \<longleftrightarrow> mem p = 3"
| "entry_at mem p MPLINTR \<longleftrightarrow> mem p = 4"

fun entries_at :: "pmem \<Rightarrow> nat \<Rightarrow> mp_entry list \<Rightarrow> nat \<Rightarrow> bool" where
  "entries_at mem p [] e \<longleftrightarrow> p = e"
| "entries_at mem p (x # xs) e \<longleftrightarrow> entry_at mem p x \<and> entries_at mem (p + entry_size x) xs e"

fun mp_effect :: "mp_entry \<Rightarrow> mp_state \<Rightarrow> mp_state" where
  "mp_effect (MPPROC a f) s = mp_proc a f s"
| "mp_effect (MPIOAPIC no) s = s\<lparr>ioapicid := no\<rparr>"
| "mp_effect _ s = s"

lemma entries_at_le: "entries_at mem p xs e \<Longrightarrow> p + sum_list (map entry_size xs) = e"
  by (induction xs arbitrary: p) (auto simp: add.assoc[symmetric])

lemma mp_entries_fold: "entries_at mem p xs e \<Longrightarrow> mp_entries mem e p s = Some (fold mp_effect xs s)"
proof (induction xs arbitrary: p s)
  case Nil
  then show ?case by (subst mp_entries.simps) simp
next
  case (Cons x xs)
  have "0 < entry_size x" by (cases x) simp_all
  then have "p < e" using entries_at_le[OF Cons.prems] by simp
  then show ?case using Cons by (subst mp_entries.simps) (cases x; simp)
qed

definition procs :: "mp_entry list \<Rightarrow> (byte \<times> byte) list" where
  "procs xs = concat (map (\<lambda>x. case x of MPPROC a f \<Rightarrow> [(a, f)] | _ \<Rightarrow> []) xs)"

text \<open>When the processors are numbered from zero in the order of the table, the machine is found as it is described.\<close>

lemma mp_fold_good:
  assumes "map fst (procs xs) = map of_nat [ncpu s..<ncpu s + length (procs xs)]" "ncpu s + length (procs xs) \<le> NCPU" "\<not> stray s" "ismp s"
  shows "ismp (fold mp_effect xs s) \<and> ncpu (fold mp_effect xs s) = ncpu s + length (procs xs) \<and> \<not> stray (fold mp_effect xs s) \<and>
    says (fold mp_effect xs s) = says s \<and> lapic_at (fold mp_effect xs s) = lapic_at s \<and>
    (\<forall>i. cpu_id (fold mp_effect xs s) i = (if ncpu s \<le> i \<and> i < ncpu s + length (procs xs) then of_nat i else cpu_id s i))"
  using assms
proof (induction xs arbitrary: s)
  case (Cons x xs)
  show ?case
  proof (cases x)
    case (MPPROC a f)
    have p: "procs (x # xs) = (a, f) # procs xs" using MPPROC by (simp add: procs_def)
    have a: "a = of_nat (ncpu s)" "map fst (procs xs) = map of_nat [Suc (ncpu s)..<Suc (ncpu s) + length (procs xs)]"
    proof -
      have "[ncpu s..<ncpu s + length ((a, f) # procs xs)] = ncpu s # [Suc (ncpu s)..<Suc (ncpu s) + length (procs xs)]"
        by (subst upt_conv_Cons) simp_all
      then show "a = of_nat (ncpu s)" "map fst (procs xs) = map of_nat [Suc (ncpu s)..<Suc (ncpu s) + length (procs xs)]"
        using Cons.prems(1) unfolding p by simp_all
    qed
    have "unat (of_nat (ncpu s) :: byte) = ncpu s" using Cons.prems(2) p by (simp add: unat_of_nat NCPU_def)
    then have e: "ncpu (mp_proc a f s) = Suc (ncpu s)" "ismp (mp_proc a f s)" "\<not> stray (mp_proc a f s)" "says (mp_proc a f s) = says s"
      "lapic_at (mp_proc a f s) = lapic_at s" "cpu_id (mp_proc a f s) = (cpu_id s)(ncpu s := of_nat (ncpu s))"
      using a(1) Cons.prems(2-4) p by (auto simp: mp_proc_def Let_def NCPU_def)
    have "ncpu (mp_proc a f s) + length (procs xs) \<le> NCPU" "map fst (procs xs) = map of_nat [ncpu (mp_proc a f s)..<ncpu (mp_proc a f s) + length (procs xs)]"
      using Cons.prems(2) p e(1) a(2) by simp_all
    from Cons.IH[OF this(2,1) e(3,2)] show ?thesis using e p MPPROC by auto
  qed (use Cons in \<open>auto simp: procs_def\<close>)
qed (auto simp: procs_def)

theorem mpinit_reads_table:
  assumes "mpconfig mem = Some (mp, conf)" "entries_at mem (conf + 44) xs (conf + conf_length mem conf)" "mp_imcrp mem mp = 0"
    and "map fst (procs xs) = map of_nat [0..<length (procs xs)]" "length (procs xs) \<le> NCPU" "ncpu s = 0" "\<not> stray s"
  shows "\<exists>t. mpinit mem imcr s = Some t \<and> ismp t \<and> ncpu t = length (procs xs) \<and> \<not> stray t \<and> lapic_at t = conf_lapicaddr mem conf \<and>
    (\<forall>i < length (procs xs). cpu_id t i = of_nat i)"
proof -
  let ?s = "s\<lparr>bcpu := 0, ismp := True, lapic_at := conf_lapicaddr mem conf\<rparr>"
  note f = mp_entries_fold[OF assms(2), of ?s]
  have g: "ismp (fold mp_effect xs ?s) \<and> ncpu (fold mp_effect xs ?s) = length (procs xs) \<and> \<not> stray (fold mp_effect xs ?s) \<and>
      lapic_at (fold mp_effect xs ?s) = conf_lapicaddr mem conf \<and> (\<forall>i < length (procs xs). cpu_id (fold mp_effect xs ?s) i = of_nat i)"
    using mp_fold_good[of xs ?s] assms(4-7) by simp
  then show ?thesis unfolding mpinit_def using assms(1,3) f by simp
qed

text \<open>A table with an entry of another type hangs the machine, although the code means to fall back to one processor.\<close>

theorem mpinit_hangs:
  assumes "mpconfig mem = Some (mp, conf)" "entries_at mem (conf + 44) xs p" "p < conf + conf_length mem conf" "mem p \<notin> {0, 1, 2, 3, 4}"
  shows "mpinit mem imcr s = None"
proof -
  have "mp_entries mem e q s = None" if "entries_at mem q xs p" "p < e" "mem p \<notin> {0, 1, 2, 3, 4}" for e q s
    using that
  proof (induction xs arbitrary: q s)
    case Nil
    then show ?case by (simp add: mp_entries_stuck)
  next
    case (Cons x xs)
    have "q < e" using entries_at_le[OF Cons.prems(1)] Cons.prems(2) by simp
    then show ?case using Cons by (subst mp_entries.simps) (cases x; simp)
  qed
  from this[OF assms(2-4)] show ?thesis unfolding mpinit_def using assms(1) by simp
qed

end
