(* ===== verification/Xv6_Devices.thy ===== *)
theory Xv6_Devices
  imports Xv6_Console User_Lib
begin

text \<open>
  The drivers of the interrupt controllers, the timer and the serial line: \<open>kernel/picirq.c\<close>, \<open>ioapic.c\<close>, \<open>lapic.c\<close>, \<open>timer.c\<close>, \<open>uart.c\<close>. The
  record \<open>dev\<close> has the variables of the drivers, every write to a port in order, and the registers of the two memory-mapped
  controllers. What a device answers to a read is an argument. \<open>microdelay\<close> is empty in the source; the loops that poll a device until it
  is ready have no other effect, and are taken to end.
\<close>

record dev =
  irqmask :: "16 word"
  outs :: "(nat \<times> byte) list"
  ioapic_reg :: "nat \<Rightarrow> 32 word"
  lapic_reg :: "nat \<Rightarrow> 32 word"
  lapic_writes :: "(nat \<times> 32 word) list"
  wrv :: "16 word \<times> 16 word"
  uart :: bool
  dev_says :: "string list"

definition outb :: "nat \<Rightarrow> byte \<Rightarrow> dev \<Rightarrow> dev" where
  "outb p v d = d\<lparr>outs := outs d @ [(p, v)]\<rparr>"

definition T_IRQ :: nat where "T_IRQ = 32"

section \<open>picirq.c\<close>

definition picsetmask :: "16 word \<Rightarrow> dev \<Rightarrow> dev" where
  "picsetmask msk d = outb 0xA1 (ucast (drop_bit 8 msk)) (outb 0x21 (ucast msk) (d\<lparr>irqmask := msk\<rparr>))"

definition picenable :: "nat \<Rightarrow> dev \<Rightarrow> dev" where
  "picenable irq d = picsetmask (irqmask d AND NOT (push_bit irq 1)) d"

definition pic_setup :: "(nat \<times> byte) list" where
  "pic_setup =
     [(0x21, 0xFF), (0xA1, 0xFF),
      (0x20, 0x11), (0x21, of_nat T_IRQ), (0x21, 4), (0x21, 3),
      (0xA0, 0x11), (0xA1, of_nat (T_IRQ + 8)), (0xA1, 2), (0xA1, 3),
      (0x20, 0x68), (0x20, 0x0A), (0xA0, 0x68), (0xA0, 0x0A)]"

definition picinit :: "dev \<Rightarrow> dev" where
  "picinit d =
    (let d1 = fold (\<lambda>(p, v). outb p v) pic_setup d
     in if irqmask d1 \<noteq> 0xFFFF then picsetmask (irqmask d1) d1 else d1)"

section \<open>ioapic.c\<close>

definition ioapicwrite :: "nat \<Rightarrow> 32 word \<Rightarrow> dev \<Rightarrow> dev" where
  "ioapicwrite reg v d = d\<lparr>ioapic_reg := (ioapic_reg d)(reg := v)\<rparr>"

definition ioapic_entry :: "nat \<Rightarrow> 32 word \<Rightarrow> 32 word \<Rightarrow> dev \<Rightarrow> dev" where
  "ioapic_entry i lo hi d = ioapicwrite (0x10 + 2 * i + 1) hi (ioapicwrite (0x10 + 2 * i) lo d)"

text \<open>The version and the identifier are read from registers 1 and 0.\<close>

definition ioapicinit :: "bool \<Rightarrow> byte \<Rightarrow> dev \<Rightarrow> dev" where
  "ioapicinit ismp ioapicid d =
    (if \<not> ismp then d
     else
       let maxintr = unat (drop_bit 16 (ioapic_reg d 1) AND 0xFF);
           ident = drop_bit 24 (ioapic_reg d 0);
           d1 = (if ident \<noteq> ucast ioapicid
                 then d\<lparr>dev_says := dev_says d @ [''ioapicinit: id isn'' @ [CHR 0x27] @ ''t equal to ioapicid; not a MP'' @ [CHR 0x0A]]\<rparr> else d)
       in fold (\<lambda>i. ioapic_entry i (0x10000 OR of_nat (T_IRQ + i)) 0) [0..<Suc maxintr] d1)"

definition ioapicenable :: "bool \<Rightarrow> nat \<Rightarrow> nat \<Rightarrow> dev \<Rightarrow> dev" where
  "ioapicenable ismp irq cpunum d =
    (if \<not> ismp then d else ioapic_entry irq (of_nat (T_IRQ + irq)) (push_bit 24 (of_nat cpunum)) d)"

section \<open>lapic.c\<close>

text \<open>The registers, by their index in words.\<close>

definition lapicw :: "nat \<Rightarrow> 32 word \<Rightarrow> dev \<Rightarrow> dev" where
  "lapicw i v d = d\<lparr>lapic_reg := (lapic_reg d)(i := v), lapic_writes := lapic_writes d @ [(i, v)]\<rparr>"

definition lapicinit :: "nat \<Rightarrow> 32 word \<Rightarrow> dev \<Rightarrow> dev" where
  "lapicinit c lapic d =
    (let d = d\<lparr>dev_says := dev_says d @ [cprintf (\<lambda>_. []) (''lapicinit: %d 0x%x'' @ [CHR 0x0A]) (nth [of_nat c, lapic])]\<rparr> in
     if lapic = 0 then d
     else
       let d = lapicw (0xF0 div 4) (0x100 OR of_nat (T_IRQ + 31)) d;
           d = lapicw (0x3E0 div 4) 0xB d;
           d = lapicw (0x320 div 4) (0x20000 OR of_nat (T_IRQ + 0)) d;
           d = lapicw (0x380 div 4) 10000000 d;
           d = lapicw (0x350 div 4) 0x10000 d;
           d = lapicw (0x360 div 4) 0x10000 d;
           d = (if drop_bit 16 (lapic_reg d (0x30 div 4)) AND 0xFF \<ge> 4 then lapicw (0x340 div 4) 0x10000 d else d);
           d = lapicw (0x370 div 4) (of_nat (T_IRQ + 19)) d;
           d = lapicw (0x280 div 4) 0 d;
           d = lapicw (0x280 div 4) 0 d;
           d = lapicw (0xB0 div 4) 0 d;
           d = lapicw (0x310 div 4) 0 d;
           d = lapicw (0x300 div 4) (0x80000 OR 0x500 OR 0x8000) d
       in lapicw (0x80 div 4) 0 d)"

text \<open>\<open>fl_if\<close> says whether interrupts are enabled, \<open>n\<close> is the static variable, \<open>ret\<close> the return address. The result is the processor and \<open>n\<close>.\<close>

definition cpunum :: "bool \<Rightarrow> 32 word \<Rightarrow> 32 word \<Rightarrow> 32 word \<Rightarrow> dev \<Rightarrow> (32 word \<times> 32 word) \<times> dev" where
  "cpunum fl_if ret lapic n d =
    (let d1 = (if fl_if \<and> n = 0
               then d\<lparr>dev_says := dev_says d @ [cprintf (\<lambda>_. []) (''cpu called from %x with interrupts enabled'' @ [CHR 0x0A]) (\<lambda>_. ret)]\<rparr> else d);
         n1 = (if fl_if then n + 1 else n)
     in ((if lapic \<noteq> 0 then drop_bit 24 (lapic_reg d1 (0x20 div 4)) else 0, n1), d1))"

definition lapiceoi :: "32 word \<Rightarrow> dev \<Rightarrow> dev" where
  "lapiceoi lapic d = (if lapic \<noteq> 0 then lapicw (0xB0 div 4) 0 d else d)"

definition startup_ipi :: "byte \<Rightarrow> 32 word \<Rightarrow> dev \<Rightarrow> dev" where
  "startup_ipi apicid addr d = lapicw (0x300 div 4) (0x600 OR drop_bit 12 addr) (lapicw (0x310 div 4) (push_bit 24 (ucast apicid)) d)"

definition lapicstartap :: "byte \<Rightarrow> 32 word \<Rightarrow> dev \<Rightarrow> dev" where
  "lapicstartap apicid addr d =
    (let d = outb 0x71 0x0A (outb 0x70 0xF d);
         d = d\<lparr>wrv := (0, ucast (drop_bit 4 addr))\<rparr>;
         d = lapicw (0x310 div 4) (push_bit 24 (ucast apicid)) d;
         d = lapicw (0x300 div 4) (0x500 OR 0x8000 OR 0x4000) d;
         d = lapicw (0x300 div 4) (0x500 OR 0x8000) d
     in startup_ipi apicid addr (startup_ipi apicid addr d))"

section \<open>timer.c, uart.c\<close>

definition timer_div :: "nat \<Rightarrow> nat" where
  "timer_div x = (1193182 + x div 2) div x"

definition timerinit :: "dev \<Rightarrow> dev" where
  "timerinit d =
     picenable 0 (outb 0x40 (of_nat (timer_div 100 div 256)) (outb 0x40 (of_nat (timer_div 100 mod 256)) (outb 0x43 (0x04 OR 0x30) d)))"

definition uartputc :: "byte \<Rightarrow> dev \<Rightarrow> dev" where
  "uartputc c d = (if uart d then outb 0x3F8 c d else d)"

definition uartinit :: "bool \<Rightarrow> byte \<Rightarrow> dev \<Rightarrow> dev" where
  "uartinit ismp status d =
    (let d = fold (\<lambda>(p, v). outb p v) [(0x3FA, 0), (0x3FB, 0x80), (0x3F8, of_nat (115200 div 9600)), (0x3F9, 0), (0x3FB, 3), (0x3FC, 0), (0x3F9, 1)] d in
     if status = 0xFF then d
     else fold uartputc (map of_char ''xv6...'' @ [10]) (ioapicenable ismp 4 0 (picenable 4 (d\<lparr>uart := True\<rparr>))))"

text \<open>\<open>pending\<close> are the bytes that the line has received.\<close>

definition uartgetc :: "bool \<Rightarrow> byte list \<Rightarrow> int \<times> byte list" where
  "uartgetc present pending = (if \<not> present then (-1, pending) else case pending of [] \<Rightarrow> (-1, []) | c # cs \<Rightarrow> (uint c, cs))"

definition uartintr :: "bool \<Rightarrow> byte list \<Rightarrow> input \<Rightarrow> nat list \<times> bool \<times> input" where
  "uartintr present pending s = consoleintr (if present then pending else []) s"

section \<open>What the controllers are told\<close>

text \<open>The last byte that was written to a port.\<close>

definition port_value :: "nat \<Rightarrow> dev \<Rightarrow> byte option" where
  "port_value p d = map_option snd (find (\<lambda>w. fst w = p) (rev (outs d)))"

lemma port_value_outb [simp]: "port_value p (outb q v d) = (if p = q then Some v else port_value p d)"
  by (auto simp: port_value_def outb_def)

lemma irqmask_outb [simp]: "irqmask (outb p v d) = irqmask d"
  by (simp add: outb_def)

text \<open>After any sequence of \<open>picenable\<close> the mask leaves open just the requested lines and those open before, and the controllers have it.\<close>

theorem picenable_lines:
  assumes "is \<noteq> []" "\<And>i. i \<in> set is \<Longrightarrow> i < 16" "i < 16"
  shows "bit (irqmask (fold picenable is d)) i \<longleftrightarrow> bit (irqmask d) i \<and> i \<notin> set is"
    "port_value 0x21 (fold picenable is d) = Some (ucast (irqmask (fold picenable is d)))"
    "port_value 0xA1 (fold picenable is d) = Some (ucast (drop_bit 8 (irqmask (fold picenable is d))))"
proof -
  have m: "irqmask (picenable j d) = irqmask d AND NOT (push_bit j 1)" for j d by (simp add: picenable_def picsetmask_def)
  have p: "port_value 0x21 (picenable j d) = Some (ucast (irqmask (picenable j d)))"
    "port_value 0xA1 (picenable j d) = Some (ucast (drop_bit 8 (irqmask (picenable j d))))" for j d by (simp_all add: picenable_def picsetmask_def)
  show "bit (irqmask (fold picenable is d)) i \<longleftrightarrow> bit (irqmask d) i \<and> i \<notin> set is"
    using assms(3) by (induction "is" arbitrary: d) (auto simp: m bit_simps)
  obtain js j where s: "is = js @ [j]" using assms(1) by (metis append_butlast_last_id)
  show "port_value 0x21 (fold picenable is d) = Some (ucast (irqmask (fold picenable is d)))"
    "port_value 0xA1 (fold picenable is d) = Some (ucast (drop_bit 8 (irqmask (fold picenable is d))))" unfolding s by (simp_all add: p)
qed

text \<open>
  After \<open>ioapicinit\<close> every interrupt is disabled with the vector 32 plus its number; \<open>ioapicenable\<close> enables one, on one processor, and leaves the
  others as they are.
\<close>

lemma ioapic_entry_regs:
  "ioapic_reg (ioapic_entry i lo hi d) (0x10 + 2 * j) = (if j = i then lo else ioapic_reg d (0x10 + 2 * j))"
  "ioapic_reg (ioapic_entry i lo hi d) (0x11 + 2 * j) = (if j = i then hi else ioapic_reg d (0x11 + 2 * j))"
  by (auto simp: ioapic_entry_def ioapicwrite_def)

lemma ioapic_fold:
  "ioapic_reg (fold (\<lambda>i. ioapic_entry i (lo i) 0) [0..<n] d) (0x10 + 2 * j) = (if j < n then lo j else ioapic_reg d (0x10 + 2 * j))"
  "ioapic_reg (fold (\<lambda>i. ioapic_entry i (lo i) 0) [0..<n] d) (0x11 + 2 * j) = (if j < n then 0 else ioapic_reg d (0x11 + 2 * j))"
  by (induction n) (auto simp: ioapic_entry_regs)

theorem ioapic_routes:
  assumes "irq \<le> n" "n = unat (drop_bit 16 (ioapic_reg d 1) AND 0xFF)" "j \<le> n"
  shows "ioapic_reg (ioapicenable True irq cpu (ioapicinit True ioid d)) (0x10 + 2 * j) = (if j = irq then of_nat (32 + j) else 0x10000 OR of_nat (32 + j))"
    "ioapic_reg (ioapicenable True irq cpu (ioapicinit True ioid d)) (0x11 + 2 * j) = (if j = irq then push_bit 24 (of_nat cpu) else 0)"
  using assms unfolding ioapicenable_def ioapicinit_def Let_def T_IRQ_def
  by (simp_all add: ioapic_entry_regs ioapic_fold less_Suc_eq_le del: upt_Suc)

end
