(* ===== verification/Xv6_Boot.thy ===== *)
theory Xv6_Boot
  imports Xv6_Exec
begin

text \<open>
  \<open>kernel/bootmain.c\<close>: the boot loader reads the kernel, an ELF file that starts at sector 1 of the disk, into memory. Memory is a function
  from addresses to bytes. \<open>readsect\<close> is the transfer of one sector; the commands to the controller and the waiting for it are left out. The
  loops compare pointers and need not end near the top of memory: they are partial functions.
\<close>

type_synonym bmem = "32 word \<Rightarrow> byte"
type_synonym bdisk = "nat \<Rightarrow> byte list"

definition readsect :: "bdisk \<Rightarrow> 32 word \<Rightarrow> nat \<Rightarrow> bmem \<Rightarrow> bmem" where
  "readsect dk dst sector mm =
     (\<lambda>a. if unat (a - dst) < 512 then dk sector ! unat (a - dst) else mm a)"

partial_function (option) readseg_loop :: "bdisk \<Rightarrow> 32 word \<Rightarrow> 32 word \<Rightarrow> nat \<Rightarrow> bmem \<Rightarrow> bmem option" where
  "readseg_loop dk va eva sector mm =
     (if va < eva then readseg_loop dk (va + 512) eva (sector + 1) (readsect dk va sector mm) else Some mm)"

definition readseg :: "bdisk \<Rightarrow> 32 word \<Rightarrow> 32 word \<Rightarrow> 32 word \<Rightarrow> bmem \<Rightarrow> bmem option" where
  "readseg dk va count offset mm =
     readseg_loop dk (va - offset mod 512) (va + count) (unat offset div 512 + 1) mm"

definition stosb :: "32 word \<Rightarrow> byte \<Rightarrow> 32 word \<Rightarrow> bmem \<Rightarrow> bmem" where
  "stosb va v n mm = (\<lambda>a. if a - va < n then v else mm a)"

definition mem_bytes :: "bmem \<Rightarrow> 32 word \<Rightarrow> nat \<Rightarrow> byte list" where
  "mem_bytes mm a n = map (\<lambda>i. mm (a + of_nat i)) [0..<n]"

text \<open>The fields of a program header are read from memory where they are used, so those for \<open>stosb\<close> after the sectors have been read.\<close>

definition phdr_in :: "bmem \<Rightarrow> 32 word \<Rightarrow> proghdr" where
  "phdr_in mm p = dec_proghdr (mem_bytes mm p 32)"

definition load_seg :: "bdisk \<Rightarrow> 32 word \<Rightarrow> bmem \<Rightarrow> bmem option" where
  "load_seg dk p mm =
     (let ph = phdr_in mm p; va = ph_va ph in
      map_option (\<lambda>m. let ph = phdr_in m p in
          if ph_memsz ph > ph_filesz ph then stosb (va + ph_filesz ph) 0 (ph_memsz ph - ph_filesz ph) m else m)
        (readseg dk va (ph_filesz ph) (ph_offset ph) mm))"

partial_function (option) load_segs :: "bdisk \<Rightarrow> 32 word \<Rightarrow> 32 word \<Rightarrow> bmem \<Rightarrow> bmem option" where
  "load_segs dk p eph mm = (if p < eph then Option.bind (load_seg dk p mm) (\<lambda>m. load_segs dk (p + 32) eph m) else Some mm)"
datatype booted = Bad_Magic | Entered "32 word" bmem

definition bootmain :: "bdisk \<Rightarrow> bmem \<Rightarrow> booted option" where
  "bootmain dk mm =
     Option.bind (readseg dk 0x10000 4096 0 mm) (\<lambda>m.
     let elf = dec_elfhdr (mem_bytes m 0x10000 52) in
     if e_magic elf \<noteq> ELF_MAGIC then Some Bad_Magic
     else let ph = 0x10000 + e_phoff elf; eph = ph + 32 * ucast (e_phnum elf) in
       map_option (\<lambda>m'. Entered (e_entry (dec_elfhdr (mem_bytes m' 0x10000 52))) m') (load_segs dk ph eph m))"

section \<open>The segments in memory\<close>

text \<open>The bytes of the kernel file on the disk.\<close>

definition kernel_file :: "bdisk \<Rightarrow> nat \<Rightarrow> byte" where
  "kernel_file dk j = dk (j div 512 + 1) ! (j mod 512)"

lemma in_window:
  assumes "unat (v :: 32 word) + n \<le> 2 ^ 32"
  shows "unat (a - v) < n \<longleftrightarrow> unat v \<le> unat a \<and> unat a < unat v + n"
    and "unat v \<le> unat a \<Longrightarrow> unat (a - v) = unat a - unat v"
proof -
  have lt: "unat a < 2 ^ 32" "unat v < 2 ^ 32" using unsigned_less[of a, where 'a = nat] unsigned_less[of v, where 'a = nat] by simp_all
  show e: "unat v \<le> unat a \<Longrightarrow> unat (a - v) = unat a - unat v" by (simp add: unat_sub word_le_nat_alt)
  show "unat (a - v) < n \<longleftrightarrow> unat v \<le> unat a \<and> unat a < unat v + n"
  proof (cases "unat v \<le> unat a")
    case False
    then have "unat (a - v) = 2 ^ 32 + unat a - unat v" using unat_sub_if'[of a v] lt by (simp add: word_le_nat_alt)
    then show ?thesis using False assms by auto
  qed (use e in auto)
qed

lemma readsect_apply:
  "unat dst + 512 \<le> 2 ^ 32 \<Longrightarrow>
   readsect dk dst sector mm a = (if unat dst \<le> unat a \<and> unat a < unat dst + 512 then dk sector ! (unat a - unat dst) else mm a)"
  using in_window[of dst 512 a] by (auto simp: readsect_def)

lemma stosb_apply:
  "unat va + unat n \<le> 2 ^ 32 \<Longrightarrow> stosb va v n mm a = (if unat va \<le> unat a \<and> unat a < unat va + unat n then v else mm a)"
  using in_window[of va "unat n" a] by (auto simp: stosb_def word_less_nat_alt)

lemma add_512: "unat va + 512 < 2 ^ 32 \<Longrightarrow> unat (va + 512 :: 32 word) = unat va + 512"
  by (subst unat_add_lem[THEN iffD1]) simp_all

lemma readseg_loop_result:
  assumes "unat va + 512 * n < 2 ^ 32" "\<And>k. k < n \<longleftrightarrow> unat va + 512 * k < unat eva"
  shows "\<exists>m'. readseg_loop dk va eva s mm = Some m' \<and>
    (\<forall>a. m' a = (if unat va \<le> unat a \<and> unat a < unat va + 512 * n
      then dk (s + (unat a - unat va) div 512) ! ((unat a - unat va) mod 512) else mm a))"
  using assms
proof (induction n arbitrary: va s mm)
  case 0
  have "\<not> va < eva" using 0(2)[of 0] by (simp add: word_less_nat_alt)
  then show ?case by (subst readseg_loop.simps) auto
next
  case (Suc n)
  have lt: "va < eva" using Suc.prems(2)[of 0] by (simp add: word_less_nat_alt)
  have u: "unat (va + 512) = unat va + 512" using Suc.prems(1) by (intro add_512) simp
  have r: "readsect dk va s mm a = (if unat va \<le> unat a \<and> unat a < unat va + 512 then dk s ! (unat a - unat va) else mm a)" for a
    using Suc.prems(1) by (intro readsect_apply) simp
  have "unat (va + 512) + 512 * n < 2 ^ 32" using Suc.prems(1) u by simp
  moreover have "k < n \<longleftrightarrow> unat (va + 512) + 512 * k < unat eva" for k using Suc.prems(2)[of "Suc k"] u by (simp add: add.assoc)
  ultimately obtain m' where m': "readseg_loop dk (va + 512) eva (s + 1) (readsect dk va s mm) = Some m'"
    "\<And>a. m' a = (if unat (va + 512) \<le> unat a \<and> unat a < unat (va + 512) + 512 * n
      then dk (s + 1 + (unat a - unat (va + 512)) div 512) ! ((unat a - unat (va + 512)) mod 512) else readsect dk va s mm a)"
    using Suc.IH[of "va + 512" "s + 1" "readsect dk va s mm"] by blast
  have "m' a = (if unat va \<le> unat a \<and> unat a < unat va + 512 * Suc n
      then dk (s + (unat a - unat va) div 512) ! ((unat a - unat va) mod 512) else mm a)" for a
  proof (cases "unat va + 512 \<le> unat a")
    case True
    define d where "d = unat a - (unat va + 512)"
    have e: "unat a - unat va = d + 512" using True by (simp add: d_def)
    have "(d + 512) div 512 = d div 512 + 1" "(d + 512) mod 512 = d mod 512" by (rule div_add_self2) (simp_all)
    then show ?thesis using True m'(2)[of a] u r unfolding e by (auto simp: d_def)
  next
    case False
    then show ?thesis using m'(2)[of a] u r by auto
  qed
  then show ?case using m'(1) lt by (subst readseg_loop.simps) simp
qed

lemma sectors_needed: "k < (d + 511) div 512 \<longleftrightarrow> 512 * k < (d :: nat)"
proof -
  have "k < (d + 511) div 512 \<longleftrightarrow> Suc k * 512 \<le> d + 511" by (simp only: Suc_le_eq[symmetric] less_eq_div_iff_mult_less_eq zero_less_numeral)
  then show ?thesis by auto
qed

definition seg_start :: "proghdr \<Rightarrow> nat" where
  "seg_start ph = unat (ph_va ph) - unat (ph_offset ph) mod 512"

definition seg_end :: "proghdr \<Rightarrow> nat" where
  "seg_end ph = unat (ph_va ph) + max (unat (ph_filesz ph)) (unat (ph_memsz ph))"

definition seg_ok :: "proghdr \<Rightarrow> bool" where
  "seg_ok ph \<longleftrightarrow> unat (ph_offset ph) mod 512 \<le> unat (ph_va ph) \<and> seg_end ph + 1024 < 2 ^ 32"

lemma readseg_result:
  assumes "unat off mod 512 \<le> unat va" "unat va + unat count + 1024 < 2 ^ 32"
  obtains m' where "readseg dk va count off mm = Some m'"
    "\<And>a. unat va \<le> unat a \<Longrightarrow> unat a < unat va + unat count \<Longrightarrow> m' a = kernel_file dk (unat off + (unat a - unat va))"
    "\<And>a. unat a < unat va - unat off mod 512 \<or> unat va + unat count + 511 \<le> unat a \<Longrightarrow> m' a = mm a"
proof -
  let ?r = "unat off mod 512" and ?q = "unat off div 512"
  have lo: "unat (va - off mod 512) = unat va - ?r"
  proof -
    have r: "unat (off mod 512) = ?r" by (simp add: unat_mod)
    then have "off mod 512 \<le> va" using assms(1) by (simp add: word_le_nat_alt)
    then show ?thesis using r by (simp add: unat_sub)
  qed
  have hi: "unat (va + count) = unat va + unat count" using assms(2) by (intro unat_add_lem[THEN iffD1]) simp
  define d where "d = unat va + unat count - (unat va - ?r)"
  define n where "n = (d + 511) div 512"
  have dn: "512 * n \<le> d + 511" by (simp add: n_def)
  have d: "d = unat count + ?r" using assms(1) by (simp add: d_def)
  have r: "?r < 512" by simp
  have "unat (va - off mod 512) + 512 * n < 2 ^ 32" using lo dn d assms r by linarith
  moreover have "k < n \<longleftrightarrow> unat (va - off mod 512) + 512 * k < unat (va + count)" for k
    using sectors_needed[of k d] lo hi d assms(1) unfolding n_def by linarith
  ultimately obtain m' where m': "readseg_loop dk (va - off mod 512) (va + count) (?q + 1) mm = Some m'"
    "\<And>a. m' a = (if unat va - ?r \<le> unat a \<and> unat a < unat va - ?r + 512 * n
      then dk (?q + 1 + (unat a - (unat va - ?r)) div 512) ! ((unat a - (unat va - ?r)) mod 512) else mm a)"
    using readseg_loop_result[of "va - off mod 512" n "va + count" dk "?q + 1" mm] unfolding lo by blast
  have "m' a = kernel_file dk (unat off + (unat a - unat va))" if a: "unat va \<le> unat a" "unat a < unat va + unat count" for a
  proof -
    define x where "x = unat a - (unat va - ?r)"
    have "unat off = 512 * ?q + ?r" by simp
    then have j: "unat off + (unat a - unat va) = x + 512 * ?q" using a(1) assms(1) unfolding x_def by linarith
    have "n \<noteq> 0" "x < 512 * n"
    proof -
      have "x < d" using a assms(1) unfolding x_def d by linarith
      moreover have "\<not> 512 * n < d" using sectors_needed[of n d] unfolding n_def by simp
      ultimately show "x < 512 * n" by simp
      then show "n \<noteq> 0" by auto
    qed
    then have "unat va - ?r \<le> unat a \<and> unat a < unat va - ?r + 512 * n" using a(1) unfolding x_def by linarith
    then have "m' a = dk (?q + 1 + x div 512) ! (x mod 512)" using m'(2)[of a] unfolding x_def by (simp only: if_True simp_thms)
    moreover have "(x + 512 * ?q) div 512 = ?q + x div 512" "(x + 512 * ?q) mod 512 = x mod 512" by simp_all
    ultimately show ?thesis unfolding kernel_file_def j by (simp only: add.commute add.left_commute)
  qed
  moreover have "m' a = mm a" if "unat a < unat va - ?r \<or> unat va + unat count + 511 \<le> unat a" for a
    using m'(2)[of a] that dn d assms(1) by auto
  ultimately show thesis using that m'(1) unfolding readseg_def by blast
qed

definition seg_loaded :: "bdisk \<Rightarrow> proghdr \<Rightarrow> bmem \<Rightarrow> bool" where
  "seg_loaded dk ph mm \<longleftrightarrow>
     (\<forall>i < unat (ph_filesz ph). mm (ph_va ph + of_nat i) = kernel_file dk (unat (ph_offset ph) + i)) \<and>
     (\<forall>i. unat (ph_filesz ph) \<le> i \<longrightarrow> i < unat (ph_memsz ph) \<longrightarrow> mm (ph_va ph + of_nat i) = 0)"

lemma unat_offset: "unat va + i < 2 ^ 32 \<Longrightarrow> unat (va + of_nat i :: 32 word) = unat va + i"
  by (subst unat_add_lem[THEN iffD1]) (simp_all add: unat_of_nat)

lemma mem_bytes_eq: "(\<And>i. i < n \<Longrightarrow> m' (a + of_nat i) = mm (a + of_nat i)) \<Longrightarrow> mem_bytes m' a n = mem_bytes mm a n"
  by (simp add: mem_bytes_def)

lemma phdr_in_kept:
  assumes "\<And>a. unat a < h \<Longrightarrow> m' a = mm a" "unat p + 32 \<le> h" "h < 2 ^ 32"
  shows "phdr_in m' p = phdr_in mm p"
  unfolding phdr_in_def
proof (intro arg_cong[where f = dec_proghdr] mem_bytes_eq assms(1))
  fix i :: nat assume "i < 32"
  then show "unat (p + of_nat i) < h" using unat_offset[of p i] assms(2,3) by simp
qed

lemma seg_start_less: "seg_start ph < 2 ^ 32"
proof -
  have "unat (ph_va ph) < 2 ^ LENGTH(32)" by (rule unsigned_less)
  then show ?thesis by (simp add: seg_start_def)
qed

lemma load_seg_result:
  assumes "seg_ok ph" "ph = phdr_in mm p" "unat p + 32 \<le> seg_start ph"
  obtains m' where "load_seg dk p mm = Some m'" "seg_loaded dk ph m'" "\<And>a. unat a < seg_start ph \<Longrightarrow> m' a = mm a"
proof -
  let ?va = "ph_va ph" and ?f = "ph_filesz ph" and ?z = "ph_memsz ph"
  have s: "unat (ph_offset ph) mod 512 \<le> unat ?va" "unat ?va + unat ?f + 1024 < 2 ^ 32" "unat ?va + unat ?z + 1024 < 2 ^ 32"
    using assms(1) by (auto simp: seg_ok_def seg_end_def max_def split: if_splits)
  obtain m where m: "readseg dk ?va ?f (ph_offset ph) mm = Some m"
    "\<And>a. unat ?va \<le> unat a \<Longrightarrow> unat a < unat ?va + unat ?f \<Longrightarrow> m a = kernel_file dk (unat (ph_offset ph) + (unat a - unat ?va))"
    "\<And>a. unat a < unat ?va - unat (ph_offset ph) mod 512 \<Longrightarrow> m a = mm a"
    by (rule readseg_result[OF s(1,2), of dk mm]) blast
  have ph: "phdr_in m p = ph"
    unfolding assms(2) by (rule phdr_in_kept[OF m(3)[folded seg_start_def] _ seg_start_less]) (use assms(2,3) in simp_all)
  let ?m = "if ?z > ?f then stosb (?va + ?f) 0 (?z - ?f) m else m"
  have ff: "unat (?va + ?f) = unat ?va + unat ?f" using s(2) by (intro unat_add_lem[THEN iffD1]) simp
  have zf: "unat (?z - ?f) = unat ?z - unat ?f" if "?z > ?f" using that by (simp add: unat_sub word_less_nat_alt word_le_nat_alt)
  have st: "stosb (?va + ?f) 0 (?z - ?f) m a = (if unat ?va + unat ?f \<le> unat a \<and> unat a < unat ?va + unat ?z then 0 else m a)" if "?z > ?f" for a
    using stosb_apply[of "?va + ?f" "?z - ?f" 0 m a] ff zf[OF that] s(3) that by (auto simp: word_less_nat_alt)
  have "seg_loaded dk ph ?m"
    unfolding seg_loaded_def
  proof (intro conjI allI impI)
    fix i assume i: "i < unat ?f"
    have "unat (?va + of_nat i) = unat ?va + i" by (rule unat_offset) (use i s(2) in linarith)
    then show "?m (?va + of_nat i) = kernel_file dk (unat (ph_offset ph) + i)" using i m(2)[of "?va + of_nat i"] by (simp add: st)
  next
    fix i assume i: "unat ?f \<le> i" "i < unat ?z"
    have "unat (?va + of_nat i) = unat ?va + i" by (rule unat_offset) (use i s(3) in linarith)
    then show "?m (?va + of_nat i) = 0" using i by (simp add: st word_less_nat_alt)
  qed
  moreover have "?m a = mm a" if "unat a < seg_start ph" for a
    using that m(3)[of a] st[of a] by (auto simp: seg_start_def)
  moreover have "load_seg dk p mm = Some ?m" using m(1) ph by (simp add: load_seg_def assms(2)[symmetric])
  ultimately show thesis using that by blast
qed

definition phdr_at :: "bmem \<Rightarrow> 32 word \<Rightarrow> nat \<Rightarrow> proghdr" where
  "phdr_at mm p i = phdr_in mm (p + of_nat (32 * i))"

lemma phdr_at_Suc: "phdr_at mm (p + 32) i = phdr_at mm p (Suc i)"
  by (simp add: phdr_at_def add.assoc)

lemma phdr_at_kept:
  assumes "\<And>a. unat a < h \<Longrightarrow> m' a = mm a" "unat p + 32 * n \<le> h" "h < 2 ^ 32" "i < n"
  shows "phdr_at m' p i = phdr_at mm p i"
proof -
  have "32 * Suc i \<le> 32 * n" using assms(4) by (intro mult_le_mono2) simp
  then have "unat (p + of_nat (32 * i)) + 32 \<le> h" using unat_offset[of p "32 * i"] assms(2,3) by simp
  then show ?thesis unfolding phdr_at_def by (intro phdr_in_kept[where h = h] assms(1,3))
qed

lemma seg_loaded_kept:
  assumes "seg_loaded dk ph mm" "\<And>a. unat a < h \<Longrightarrow> m' a = mm a" "seg_end ph \<le> h" "h < 2 ^ 32"
  shows "seg_loaded dk ph m'"
proof -
  have "m' (ph_va ph + of_nat i) = mm (ph_va ph + of_nat i)" if "i < unat (ph_filesz ph) \<or> i < unat (ph_memsz ph)" for i
  proof (rule assms(2))
    have "unat (ph_va ph) + i < h" using that assms(3) unfolding seg_end_def by linarith
    then show "unat (ph_va ph + of_nat i) < h" using unat_offset[of "ph_va ph" i] assms(4) by simp
  qed
  then show ?thesis using assms(1) unfolding seg_loaded_def by simp
qed

lemma load_segs_result:
  assumes "\<And>i. i < n \<Longrightarrow> seg_ok (phdr_at mm p i) \<and> unat p + 32 * n \<le> seg_start (phdr_at mm p i)"
    and "\<And>i j. i < j \<Longrightarrow> j < n \<Longrightarrow> seg_end (phdr_at mm p i) \<le> seg_start (phdr_at mm p j)"
    and "unat p + 32 * n < 2 ^ 32"
  shows "\<exists>m'. load_segs dk p (p + of_nat (32 * n)) mm = Some m' \<and> (\<forall>i < n. seg_loaded dk (phdr_at mm p i) m') \<and>
    (\<forall>h a. (\<forall>i < n. h \<le> seg_start (phdr_at mm p i)) \<longrightarrow> unat a < h \<longrightarrow> m' a = mm a)"
  using assms
proof (induction n arbitrary: p mm)
  case (Suc n)
  let ?ph = "phdr_at mm p 0"
  have ok: "seg_ok ?ph" "unat p + 32 * Suc n \<le> seg_start ?ph" using Suc.prems(1)[of 0] by simp_all
  obtain m where m: "load_seg dk p mm = Some m" "seg_loaded dk ?ph m" "\<And>a. unat a < seg_start ?ph \<Longrightarrow> m a = mm a"
    by (rule load_seg_result[OF ok(1), of mm p dk]) (use ok(2) in \<open>simp_all add: phdr_at_def\<close>)
  have p32: "unat (p + 32) = unat p + 32" using unat_offset[of p 32] Suc.prems(3) by simp
  have same: "phdr_at m (p + 32) i = phdr_at mm p (Suc i)" if "i < n" for i
    using phdr_at_kept[OF m(3) ok(2) seg_start_less, where i = "Suc i"] that by (simp add: phdr_at_Suc)
  have a1: "seg_ok (phdr_at m (p + 32) i) \<and> unat (p + 32) + 32 * n \<le> seg_start (phdr_at m (p + 32) i)" if "i < n" for i
    using Suc.prems(1)[of "Suc i"] that same[OF that] p32 by simp
  have a2: "seg_end (phdr_at m (p + 32) i) \<le> seg_start (phdr_at m (p + 32) j)" if "i < j" "j < n" for i j
    using Suc.prems(2)[of "Suc i" "Suc j"] that same[of i] same[of j] by simp
  have a3: "unat (p + 32) + 32 * n < 2 ^ 32" using Suc.prems(3) p32 by simp
  obtain m' where m': "load_segs dk (p + 32) (p + 32 + of_nat (32 * n)) m = Some m'" "\<forall>i < n. seg_loaded dk (phdr_at m (p + 32) i) m'"
    "\<And>h a. (\<forall>i < n. h \<le> seg_start (phdr_at m (p + 32) i)) \<Longrightarrow> unat a < h \<Longrightarrow> m' a = m a"
    using Suc.IH[OF a1 a2 a3] by blast
  have "seg_end ?ph < 2 ^ 32" using ok(1) by (simp add: seg_ok_def)
  then have "seg_loaded dk ?ph m'"
    by (rule seg_loaded_kept[OF m(2) m'(3)[of "seg_end ?ph"] order_refl, rotated 2]) (use Suc.prems(2)[of 0] same in auto)
  moreover have "seg_loaded dk (phdr_at mm p (Suc i)) m'" if "i < n" for i by (rule m'(2)[rule_format, OF that, unfolded same[OF that]])
  ultimately have "\<forall>i < Suc n. seg_loaded dk (phdr_at mm p i) m'" by (auto simp: less_Suc_eq_0_disj)
  moreover have "m' a = mm a" if h: "\<forall>i < Suc n. h \<le> seg_start (phdr_at mm p i)" "unat a < h" for h a
  proof -
    have "\<forall>i < n. h \<le> seg_start (phdr_at m (p + 32) i)" using h(1) same by simp
    then have "m' a = m a" by (rule m'(3)[OF _ h(2)])
    also have "\<dots> = mm a" using h by (intro m(3)) force
    finally show ?thesis .
  qed
  moreover have "load_segs dk p (p + of_nat (32 * Suc n)) mm = Some m'"
  proof -
    have "p < p + of_nat (32 * Suc n)" using unat_offset[OF Suc.prems(3)] by (simp only: word_less_nat_alt) simp
    moreover have "p + 32 + of_nat (32 * n) = p + of_nat (32 * Suc n)" by simp
    ultimately show ?thesis using m(1) m'(1) by (subst load_segs.simps) (simp only: if_True bind.simps)
  qed
  ultimately show ?case by blast
qed (subst load_segs.simps, simp)

text \<open>The header and the program headers of the file on the disk.\<close>

definition file_elf :: "bdisk \<Rightarrow> elfhdr" where
  "file_elf dk = dec_elfhdr (map (kernel_file dk) [0..<52])"

definition file_phdr :: "bdisk \<Rightarrow> nat \<Rightarrow> proghdr" where
  "file_phdr dk i = (let start = unat (e_phoff (file_elf dk)) + 32 * i in dec_proghdr (map (kernel_file dk) [start..<start + 32]))"

text \<open>
  C24. The boot loader puts the kernel in place. If the file on the disk starts with an ELF header whose program headers lie in its first page and
  describe segments above the scratch space, in ascending order and without overlap of what is written, then \<open>bootmain\<close> enters at the
  entry point with every segment in memory: its bytes of the file, followed by zeros up to its size in memory.
\<close>

theorem bootmain_loads_kernel:
  assumes "e_magic (file_elf dk) = ELF_MAGIC" "unat (e_phoff (file_elf dk)) + 32 * unat (e_phnum (file_elf dk)) \<le> 4096"
    and "\<And>i. i < unat (e_phnum (file_elf dk)) \<Longrightarrow> seg_ok (file_phdr dk i) \<and> 0x11000 \<le> seg_start (file_phdr dk i)"
    and "\<And>i j. i < j \<Longrightarrow> j < unat (e_phnum (file_elf dk)) \<Longrightarrow> seg_end (file_phdr dk i) \<le> seg_start (file_phdr dk j)"
  shows "\<exists>m. bootmain dk mm = Some (Entered (e_entry (file_elf dk)) m) \<and> (\<forall>i < unat (e_phnum (file_elf dk)). seg_loaded dk (file_phdr dk i) m)"
proof -
  have c: "unat (0 :: 32 word) mod 512 \<le> unat (0x10000 :: 32 word)" "unat (0x10000 :: 32 word) + unat (4096 :: 32 word) + 1024 < 2 ^ 32" by simp_all
  obtain m1 where m1: "readseg dk 0x10000 4096 0 mm = Some m1"
    "\<And>a. unat (0x10000 :: 32 word) \<le> unat a \<Longrightarrow> unat a < unat (0x10000 :: 32 word) + unat (4096 :: 32 word) \<Longrightarrow> m1 a = kernel_file dk (unat (0 :: 32 word) + (unat a - unat (0x10000 :: 32 word)))"
    by (rule readseg_result[OF c, of dk mm]) blast
  have content: "m1 (0x10000 + of_nat k) = kernel_file dk k" if "k < 4096" for k
  proof -
    have "unat (0x10000 + of_nat k :: 32 word) = 0x10000 + k" using unat_offset[of "0x10000" k] that by simp
    then show ?thesis using m1(2)[of "0x10000 + of_nat k"] that by simp
  qed
  have e: "dec_elfhdr (mem_bytes m1 0x10000 52) = file_elf dk" unfolding file_elf_def mem_bytes_def by (intro arg_cong[where f = dec_elfhdr] map_cong) (simp_all add: content)
  let ?p = "0x10000 + e_phoff (file_elf dk)" and ?n = "unat (e_phnum (file_elf dk))"
  have pu: "unat ?p = 0x10000 + unat (e_phoff (file_elf dk))" using assms(2) by (subst unat_add_lem[THEN iffD1]) simp_all
  have ph: "phdr_at m1 ?p i = file_phdr dk i" if "i < ?n" for i
  proof -
    have "32 * Suc i \<le> 32 * ?n" using that by (intro mult_le_mono2) simp
    then have "m1 (?p + of_nat (32 * i) + of_nat k) = kernel_file dk (unat (e_phoff (file_elf dk)) + 32 * i + k)" if "k < 32" for k
      using content[of "unat (e_phoff (file_elf dk)) + 32 * i + k"] assms(2) that by (simp add: add.assoc)
    then show ?thesis unfolding phdr_at_def phdr_in_def file_phdr_def Let_def mem_bytes_def
      by (intro arg_cong[where f = dec_proghdr] nth_equalityI) simp_all
  qed
  have "\<exists>m'. load_segs dk ?p (?p + of_nat (32 * ?n)) m1 = Some m' \<and> (\<forall>i < ?n. seg_loaded dk (phdr_at m1 ?p i) m') \<and>
      (\<forall>h a. (\<forall>i < ?n. h \<le> seg_start (phdr_at m1 ?p i)) \<longrightarrow> unat a < h \<longrightarrow> m' a = m1 a)"
  proof (rule load_segs_result)
    show "seg_ok (phdr_at m1 ?p i) \<and> unat ?p + 32 * ?n \<le> seg_start (phdr_at m1 ?p i)" if "i < ?n" for i
      using assms(3)[OF that] ph[OF that] pu assms(2) by simp
    show "seg_end (phdr_at m1 ?p i) \<le> seg_start (phdr_at m1 ?p j)" if "i < j" "j < ?n" for i j using assms(4)[OF that] ph that by simp
    show "unat ?p + 32 * ?n < 2 ^ 32" using pu assms(2) by simp
  qed
  then obtain m' where m': "load_segs dk ?p (?p + of_nat (32 * ?n)) m1 = Some m'" "\<forall>i < ?n. seg_loaded dk (phdr_at m1 ?p i) m'"
    "\<And>h a. (\<forall>i < ?n. h \<le> seg_start (phdr_at m1 ?p i)) \<Longrightarrow> unat a < h \<Longrightarrow> m' a = m1 a" by blast
  have kept: "m' a = m1 a" if "unat a < 0x11000" for a by (rule m'(3)[OF _ that]) (use assms(3) ph in simp)
  have "m' (0x10000 + of_nat k) = m1 (0x10000 + of_nat k)" if "k < 52" for k
    using kept[of "0x10000 + of_nat k"] unat_offset[of "0x10000" k] that by simp
  then have e': "dec_elfhdr (mem_bytes m' 0x10000 52) = file_elf dk" unfolding e[symmetric] by (intro arg_cong[where f = dec_elfhdr] mem_bytes_eq)
  have "32 * ucast (e_phnum (file_elf dk)) = (of_nat (32 * ?n) :: 32 word)" by (simp add: unsigned_ucast_eq)
  then show ?thesis using m1(1) e e' assms(1) ph m'(1,2) unfolding bootmain_def by (simp add: Let_def del: of_nat_mult)
qed

text \<open>A kernel file with one segment of four bytes, which takes eight in memory at \<open>0x100054\<close>.\<close>

definition demo_kernel :: bdisk where
  "demo_kernel s =
     (if s = 1 then
        [0x7F, 0x45, 0x4C, 0x46] @ replicate 20 0 @ [0x54, 0, 0x10, 0] @ [52, 0, 0, 0] @ replicate 12 0 @ [1, 0] @ replicate 6 0 @
        [1, 0, 0, 0] @ [84, 0, 0, 0] @ [0x54, 0, 0x10, 0] @ [0x54, 0, 0x10, 0] @ [4, 0, 0, 0] @ [8, 0, 0, 0] @ replicate 8 0 @
        [0xAA, 0xBB, 0xCC, 0xDD] @ replicate 424 0
      else replicate 512 0)"

lemma demo_kernel_headers:
  "file_elf demo_kernel = \<lparr>e_magic = ELF_MAGIC, e_entry = 0x100054, e_phoff = 52, e_phnum = 1\<rparr>"
  "file_phdr demo_kernel 0 = \<lparr>ph_type = 1, ph_offset = 84, ph_va = 0x100054, ph_filesz = 4, ph_memsz = 8\<rparr>"
  "kernel_file demo_kernel 84 = 0xAA"
  by code_simp+

theorem bootmain_loads_kernel_witness:
  "\<exists>m. bootmain demo_kernel (\<lambda>_. 7) = Some (Entered 0x100054 m) \<and> m 0x100054 = 0xAA \<and> m 0x100058 = 0"
proof -
  have "\<exists>m. bootmain demo_kernel (\<lambda>_. 7) = Some (Entered (e_entry (file_elf demo_kernel)) m) \<and>
      (\<forall>i < unat (e_phnum (file_elf demo_kernel)). seg_loaded demo_kernel (file_phdr demo_kernel i) m)"
    by (rule bootmain_loads_kernel) (simp_all add: demo_kernel_headers seg_ok_def seg_end_def seg_start_def)
  then obtain m where m: "bootmain demo_kernel (\<lambda>_. 7) = Some (Entered 0x100054 m)" "seg_loaded demo_kernel (file_phdr demo_kernel 0) m"
    by (auto simp: demo_kernel_headers(1))
  from m(2) have "\<forall>i < 4. m (0x100054 + of_nat i) = kernel_file demo_kernel (84 + i)" "\<forall>i. 4 \<le> i \<longrightarrow> i < 8 \<longrightarrow> m (0x100054 + of_nat i) = 0"
    unfolding seg_loaded_def demo_kernel_headers(2) by simp_all
  from this(1)[rule_format, of 0] this(2)[rule_format, of 4] have "m 0x100054 = kernel_file demo_kernel 84" "m 0x100058 = 0" by simp_all
  then show ?thesis using m(1) demo_kernel_headers(3) by auto
qed

end
