(* ===== verification/Xv6_Segs.thy ===== *)
theory Xv6_Segs
  imports Xv6_Trap
begin

text \<open>
  The tables through which the processor enters the kernel: segment and gate descriptors of \<open>kernel/mmu.h\<close>, with the widths of their
  bit-fields, \<open>seginit\<close> and the task state of \<open>switchuvm\<close> in \<open>kernel/vm.c\<close>, and \<open>tvinit\<close> in \<open>kernel/trap.c\<close>. The instructions that load a table into the
  processor are left out. The addresses of the entry points, \<open>vectors\<close>, come from a generated file and are a parameter.
\<close>

section \<open>Descriptors\<close>

record segdesc =
  lim_15_0 :: "16 word"
  base_15_0 :: "16 word"
  base_23_16 :: "8 word"
  sd_type :: "4 word"
  sd_s :: "1 word"
  sd_dpl :: "2 word"
  sd_p :: "1 word"
  lim_19_16 :: "4 word"
  avl :: "1 word"
  sd_rsv1 :: "1 word"
  sd_db :: "1 word"
  sd_g :: "1 word"
  base_31_24 :: "8 word"

definition SEG :: "4 word \<Rightarrow> 32 word \<Rightarrow> 32 word \<Rightarrow> 2 word \<Rightarrow> segdesc" where
  "SEG type base lim dpl =
     \<lparr>lim_15_0 = ucast (drop_bit 12 lim AND 0xFFFF), base_15_0 = ucast (base AND 0xFFFF), base_23_16 = ucast (drop_bit 16 base AND 0xFF),
      sd_type = type, sd_s = 1, sd_dpl = dpl, sd_p = 1, lim_19_16 = ucast (drop_bit 28 lim), avl = 0, sd_rsv1 = 0, sd_db = 1, sd_g = 1,
      base_31_24 = ucast (drop_bit 24 base)\<rparr>"

definition SEG16 :: "4 word \<Rightarrow> 32 word \<Rightarrow> 32 word \<Rightarrow> 2 word \<Rightarrow> segdesc" where
  "SEG16 type base lim dpl =
     \<lparr>lim_15_0 = ucast (lim AND 0xFFFF), base_15_0 = ucast (base AND 0xFFFF), base_23_16 = ucast (drop_bit 16 base AND 0xFF),
      sd_type = type, sd_s = 1, sd_dpl = dpl, sd_p = 1, lim_19_16 = ucast (drop_bit 16 lim), avl = 0, sd_rsv1 = 0, sd_db = 1, sd_g = 0,
      base_31_24 = ucast (drop_bit 24 base)\<rparr>"

record gatedesc =
  off_15_0 :: "16 word"
  gd_cs :: "16 word"
  gd_args :: "5 word"
  gd_rsv1 :: "3 word"
  gd_type :: "4 word"
  gd_s :: "1 word"
  gd_dpl :: "2 word"
  gd_p :: "1 word"
  off_31_16 :: "16 word"

definition SETGATE :: "bool \<Rightarrow> 16 word \<Rightarrow> 32 word \<Rightarrow> 2 word \<Rightarrow> gatedesc" where
  "SETGATE istrap sel off d =
     \<lparr>off_15_0 = ucast (off AND 0xFFFF), gd_cs = sel, gd_args = 0, gd_rsv1 = 0, gd_type = (if istrap then 0xF else 0xE), gd_s = 0, gd_dpl = d,
      gd_p = 1, off_31_16 = ucast (drop_bit 16 off)\<rparr>"

definition SEG_KCODE :: nat where "SEG_KCODE = 1"
definition SEG_KDATA :: nat where "SEG_KDATA = 2"
definition SEG_KCPU :: nat where "SEG_KCPU = 3"
definition SEG_UCODE :: nat where "SEG_UCODE = 4"
definition SEG_UDATA :: nat where "SEG_UDATA = 5"
definition SEG_TSS :: nat where "SEG_TSS = 6"
definition DPL_USER :: "2 word" where "DPL_USER = 3"

lemmas seg_numbers = SEG_KCODE_def SEG_KDATA_def SEG_KCPU_def SEG_UCODE_def SEG_UDATA_def SEG_TSS_def

section \<open>Tables\<close>

text \<open>\<open>cpu_at\<close> is the address of the field \<open>cpu\<close> of the structure of this processor.\<close>

definition seginit :: "32 word \<Rightarrow> segdesc list \<Rightarrow> segdesc list" where
  "seginit cpu_at gdt = gdt
     [SEG_KCODE := SEG (0x8 OR 0x2) 0 0xFFFFFFFF 0,
      SEG_KDATA := SEG 0x2 0 0xFFFFFFFF 0,
      SEG_UCODE := SEG (0x8 OR 0x2) 0 0xFFFFFFFF DPL_USER,
      SEG_UDATA := SEG 0x2 0 0xFFFFFFFF DPL_USER,
      SEG_KCPU := SEG 0x2 cpu_at 8 0]"

record taskstate =
  ts_ss0 :: "16 word"
  ts_esp0 :: "32 word"

text \<open>The part of \<open>switchuvm\<close> that fills the task state segment, at address \<open>ts_at\<close>, of 104 bytes; \<open>kstack\<close> is the kernel stack of the process.\<close>

definition switch_tss :: "32 word \<Rightarrow> 32 word \<Rightarrow> segdesc list \<times> taskstate \<Rightarrow> segdesc list \<times> taskstate" where
  "switch_tss ts_at kstack = (\<lambda>(gdt, ts).
     (gdt[SEG_TSS := (SEG16 0x9 ts_at (104 - 1) 0)\<lparr>sd_s := 0\<rparr>], ts\<lparr>ts_ss0 := of_nat (SEG_KDATA * 8), ts_esp0 := kstack + 4096\<rparr>))"

definition tvinit :: "(nat \<Rightarrow> 32 word) \<Rightarrow> gatedesc list \<Rightarrow> gatedesc list" where
  "tvinit vectors idt =
    (let kcode = of_nat (SEG_KCODE * 8);
         idt1 = fold (\<lambda>i t. t[i := SETGATE False kcode (vectors i) 0]) [0..<256] idt
     in idt1[T_SYSCALL := SETGATE True kcode (vectors T_SYSCALL) DPL_USER])"

section \<open>What the processor reads\<close>

definition seg_base :: "segdesc \<Rightarrow> 32 word" where
  "seg_base d = ucast (base_15_0 d) OR push_bit 16 (ucast (base_23_16 d)) OR push_bit 24 (ucast (base_31_24 d))"

text \<open>The last valid offset; a limit in pages covers the whole of its last page.\<close>

definition seg_limit :: "segdesc \<Rightarrow> 32 word" where
  "seg_limit d =
    (let l = ucast (lim_15_0 d) OR push_bit 16 (ucast (lim_19_16 d))
     in if sd_g d = 1 then push_bit 12 l OR 0xFFF else l)"

definition gate_offset :: "gatedesc \<Rightarrow> 32 word" where
  "gate_offset g = ucast (off_15_0 g) OR push_bit 16 (ucast (off_31_16 g))"

lemma low_masks: "(x :: 32 word) AND 0xFFFF = take_bit 16 x" "(x :: 32 word) AND 0xFF = take_bit 8 x"
  by (simp_all add: take_bit_eq_mask mask_eq_exp_minus_1)

lemma split_word:
  "ucast (ucast (take_bit 16 b) :: 16 word) OR push_bit 16 (ucast (ucast (take_bit 8 (drop_bit 16 b)) :: 8 word)) OR
    push_bit 24 (ucast (ucast (drop_bit 24 b) :: 8 word)) = (b :: 32 word)"
proof (rule bit_word_eqI, goal_cases)
  case (1 n)
  consider "n < 16" | k where "n = 16 + k" "k < 8" | k where "n = 24 + k" "k < 8"
    using 1 that(2)[of "n - 16"] that(3)[of "n - 24"] by fastforce
  then show ?case by cases (auto simp: bit_simps)
qed

lemma split_halves: "ucast (ucast (take_bit 16 b) :: 16 word) OR push_bit 16 (ucast (ucast (drop_bit 16 b) :: 16 word)) = (b :: 32 word)"
proof (rule bit_word_eqI, goal_cases)
  case (1 n)
  consider "n < 16" | k where "n = 16 + k" "k < 16" using 1 that(2)[of "n - 16"] by fastforce
  then show ?case by cases (auto simp: bit_simps)
qed

lemma seg_base_SEG [simp]: "seg_base (SEG t b l d) = b" "seg_base (SEG16 t b l d) = b"
  by (simp_all add: seg_base_def SEG_def SEG16_def low_masks split_word)

lemma gate_offset_SETGATE [simp]: "gate_offset (SETGATE t sel off d) = off"
  by (simp add: gate_offset_def SETGATE_def low_masks split_halves)

text \<open>A limit is kept in pages by \<open>SEG\<close>, and to the byte by \<open>SEG16\<close> if it has 20 bits.\<close>

lemma seg_limit_SEG: "seg_limit (SEG t b l d) = l OR 0xFFF"
proof (rule bit_word_eqI, goal_cases)
  case (1 n)
  have m: "(0xFFF :: 32 word) = mask 12" by (simp add: mask_eq_exp_minus_1)
  consider "n < 12" | k where "n = 12 + k" "k < 16" | k where "n = 28 + k" "k < 4"
    using 1 that(2)[of "n - 12"] that(3)[of "n - 28"] by fastforce
  then show ?case unfolding seg_limit_def SEG_def low_masks m by cases (auto simp: bit_simps)
qed

lemma seg_limit_SEG16:
  assumes "l < 2 ^ 20"
  shows "seg_limit (SEG16 t b l d) = l"
proof (rule bit_word_eqI, goal_cases)
  case (1 n)
  have "take_bit 20 l = l" using assms by (simp add: word_unat_eq_iff unsigned_take_bit_eq take_bit_nat_eq_self word_less_nat_alt)
  then have hi: "\<not> bit l n" if "20 \<le> n" using that by (metis bit_take_bit_iff not_le)
  consider "n < 16" | k where "n = 16 + k" "k < 4" | "20 \<le> n" using 1 that(2)[of "n - 16"] by fastforce
  then show ?case unfolding seg_limit_def SEG16_def low_masks using hi by cases (auto simp: bit_simps)
qed

lemma fold_update:
  "n \<le> length t \<Longrightarrow> length (fold (\<lambda>i t. t[i := f i]) [0..<n] t) = length t \<and>
    (\<forall>i < length t. fold (\<lambda>i t. t[i := f i]) [0..<n] t ! i = (if i < n then f i else t ! i))"
  by (induction n) (auto simp: nth_list_update)

lemma tvinit_gate:
  assumes "length idt = 256" "i < 256"
  shows "tvinit vectors idt ! i = SETGATE (i = T_SYSCALL) 8 (vectors i) (if i = T_SYSCALL then DPL_USER else 0)"
proof -
  note f = fold_update[of 256 idt "\<lambda>i. SETGATE False 8 (vectors i) 0"]
  show ?thesis using f assms unfolding tvinit_def Let_def SEG_KCODE_def by (simp add: nth_list_update T_SYSCALL_def del: upt_Suc upt_rec_numeral)
qed

text \<open>
  The ways into the kernel: every interrupt and trap enters at its vector in a segment of privilege level 0 that covers the whole address
  space; the stack it uses is in such a segment, too. A program can raise only the interrupt of system calls by itself, which is also
  the only one that leaves interrupts enabled.
\<close>

theorem kernel_entry:
  fixes vectors :: "nat \<Rightarrow> 32 word" and ts_at kstack cpu_at :: "32 word" and ts :: taskstate
  assumes "length idt = 256" "length gdt = 7" "i < 256"
  defines "g \<equiv> tvinit vectors idt ! i"
    and "gs \<equiv> switch_tss ts_at kstack (seginit cpu_at gdt, ts)"
  shows "gd_p g = 1" "gate_offset g = vectors i" "gd_dpl g = DPL_USER \<longleftrightarrow> i = T_SYSCALL" "gd_type g = 0xF \<longleftrightarrow> i = T_SYSCALL"
    and "\<forall>sel \<in> {gd_cs g, ts_ss0 (snd gs)}. let d = fst gs ! (unat sel div 8) in
      sd_p d = 1 \<and> sd_dpl d = 0 \<and> seg_base d = 0 \<and> seg_limit d = 0xFFFFFFFF"
    and "seg_base (fst gs ! SEG_TSS) = ts_at" "seg_limit (fst gs ! SEG_TSS) = 103"
proof -
  note t = tvinit_gate[OF assms(1,3), of vectors]
  show "gd_p g = 1" "gate_offset g = vectors i" "gd_dpl g = DPL_USER \<longleftrightarrow> i = T_SYSCALL" "gd_type g = 0xF \<longleftrightarrow> i = T_SYSCALL"
    unfolding g_def t by (simp_all add: SETGATE_def[of "i = T_SYSCALL"] gate_offset_SETGATE[unfolded SETGATE_def] DPL_USER_def)
  have k: "fst gs ! SEG_KCODE = SEG (0x8 OR 0x2) 0 0xFFFFFFFF 0" "fst gs ! SEG_KDATA = SEG 0x2 0 0xFFFFFFFF 0"
    "fst gs ! SEG_TSS = (SEG16 0x9 ts_at (104 - 1) 0)\<lparr>sd_s := 0\<rparr>" "ts_ss0 (snd gs) = 16"
    using assms(2) by (simp_all add: gs_def switch_tss_def seginit_def seg_numbers)
  have cs: "gd_cs g = 8" unfolding g_def t by (simp add: SETGATE_def)
  have l: "seg_limit (SEG ty 0 0xFFFFFFFF 0) = 0xFFFFFFFF" for ty unfolding seg_limit_SEG by simp
  have d: "sd_p (SEG ty b lim dpl) = 1" "sd_dpl (SEG ty b lim dpl) = dpl" for ty b lim dpl by (simp_all add: SEG_def)
  show "\<forall>sel \<in> {gd_cs g, ts_ss0 (snd gs)}. let d = fst gs ! (unat sel div 8) in
      sd_p d = 1 \<and> sd_dpl d = 0 \<and> seg_base d = 0 \<and> seg_limit d = 0xFFFFFFFF"
    using k[unfolded seg_numbers] unfolding cs by (simp add: l d)
  have s: "seg_base (x\<lparr>sd_s := 0\<rparr>) = seg_base x" "seg_limit (x\<lparr>sd_s := 0\<rparr>) = seg_limit x" for x by (simp_all add: seg_base_def seg_limit_def)
  show "seg_base (fst gs ! SEG_TSS) = ts_at" "seg_limit (fst gs ! SEG_TSS) = 103"
    using seg_limit_SEG16[of 103] unfolding k s by simp_all
qed

end
