(* ===== verification/Spec2Isabelle.thy ===== *)
theory Spec2Isabelle
  imports Lfs_Example Xv6_Write Xv6_Spinlock Mkfs_Tree Xv6_Trap Xv6_Exit Xv6_Console Xv6_Paging User_Grep User_Lib User_Run User_Tools User_Heap Xv6_Kbd Xv6_Mp Xv6_Devices Xv6_Boot Xv6_Segs
begin

text \<open>
  A verification library for a teaching repository of two file systems: \<^emph>\<open>linux/\<close>, a log-structured file server over UDP with its client
  library, and \<^emph>\<open>xv6/\<close>, the xv6 kernel with a file system that was extended by checksums, and its user programs. Paths below are
  relative to \<open>src/\<close>.

  \<^bold>\<open>The program and its model.\<close>

  \<^item> \<open>linux/lfs.c\<close>, \<open>lfs.h\<close>: the server keeps an inode map and the end of the log in memory (record \<open>lfs\<close>) and both again in the
    checkpoint region at the start of its image. \<open>Posix_File\<close> models the host file (\<open>lseek\<close>, \<open>read\<close>, \<open>write\<close>), \<open>Lfs_Layout\<close> the
    structures on disk, \<open>Lfs_Server\<close> every function, in the order and under the names of the source. What C leaves indeterminate
    (automatic variables, \<open>malloc\<close>) is the record \<open>junk\<close>, over which the theorems quantify.
  \<^item> \<open>linux/listenServer.c\<close>, \<open>mfs.c\<close>, \<open>sendPacket.c\<close>, \<open>mfs.h\<close>: \<open>Mfs_Protocol\<close> has the packet, the dispatcher (\<open>serve\<close>, \<open>handle\<close>,
    \<open>listenOnServer\<close>), the loop that sends again (\<open>sendPacket\<close>) and the calls of the client library. The sockets are a parameter: a
    record \<open>network\<close> of rounds that says which requests and answers get through.
  \<^item> \<open>xv6/kernel/ide.c\<close>, \<open>bio.c\<close>: \<open>Xv6_Bio\<close>, disk driver and buffer cache. A kernel function is a computation of \<open>Xv6_Base\<close>: it
    returns (\<open>Ok\<close>), panics (\<open>Panic\<close>), or has to wait for another process (\<open>Sleep\<close>).
  \<^item> \<open>xv6/kernel/fs.c\<close>, \<open>include/fs.h\<close>: \<open>Xv6_Layout\<close> (superblock, inodes and directory entries in bytes), \<open>Xv6_Fs\<close> (blocks, inodes,
    contents, with the checksums of \<open>T_CHECKED\<close> files), \<open>Xv6_Names\<close> (directories and paths); \<open>string.c\<close> is \<open>Xv6_String\<close>.
  \<^item> \<open>xv6/kernel/kalloc.c\<close>, \<open>vm.c\<close>: \<open>Xv6_Kalloc\<close> and \<open>Xv6_Vm\<close>, free list and page tables in the bytes of physical memory.
  \<^item> \<open>pipe.c\<close>, \<open>file.c\<close>, \<open>syscall.c\<close>, \<open>sysfile.c\<close>: \<open>Xv6_Pipe\<close>, \<open>Xv6_File\<close> (with the record \<open>sysk\<close> of the whole kernel), \<open>Xv6_Sysfile\<close>.
  \<^item> \<open>proc.c\<close>, \<open>sysproc.c\<close>, \<open>exec.c\<close>, \<open>trap.c\<close>: \<open>Xv6_Proc\<close>, \<open>Xv6_Exec\<close>, \<open>Xv6_Trap\<close>. A kernel path that waits is cut where it calls
    \<open>sleep\<close>; \<open>kstep\<close> is the kernel on one processor, with system calls, interrupts, faults and the scheduler as steps.
  \<^item> \<open>console.c\<close>: \<open>Xv6_Console\<close>, the line discipline and the screen; \<open>cprintf\<close> is in \<open>User_Lib\<close>.
  \<^item> \<open>kbd.c\<close>: \<open>Xv6_Kbd\<close>, from scan codes to the console. \<open>mp.c\<close>: \<open>Xv6_Mp\<close>, the search for the tables of the processors. \<open>picirq.c\<close>, \<open>ioapic.c\<close>,
    \<open>lapic.c\<close>, \<open>timer.c\<close>, \<open>uart.c\<close>: \<open>Xv6_Devices\<close>, the writes to device registers in order, with what a device answers as an argument.
    \<open>bootmain.c\<close>: \<open>Xv6_Boot\<close>, the boot loader. \<open>mmu.h\<close>, \<open>seginit\<close>, \<open>tvinit\<close>: \<open>Xv6_Segs\<close>, segment and gate descriptors, with the ways into the kernel.
  \<^item> \<open>xv6/user/\<close>: \<open>User_Lib\<close> (\<open>ulib.c\<close>, \<open>printf.c\<close>), \<open>User_Grep\<close> (the matcher of \<open>grep.c\<close>), \<open>User_Sh\<close> (the parser of \<open>sh.c\<close>),
    \<open>User_Run\<close> (\<open>runcmd\<close> and \<open>main\<close> of \<open>sh.c\<close>, over tables of descriptors), \<open>User_Tools\<close> (\<open>cat.c\<close>, \<open>echo.c\<close>, \<open>wc.c\<close>, \<open>ls.c\<close>, \<open>rm.c\<close>, \<open>mkdir.c\<close>,
    \<open>ln.c\<close>, \<open>kill.c\<close> and the loop of \<open>grep.c\<close>), \<open>User_Malloc\<close> (\<open>umalloc.c\<close>, over a store of memory cells). In the programs the answers of
    system calls are parameters.
  \<^item> \<open>spinlock.c\<close>: \<open>Xv6_Spinlock\<close>, locks and interrupt flags of several processors, one atomic action of the code per step.
  \<^item> \<open>xv6/tools/mkfs.c\<close>: \<open>Mkfs\<close>, the program that builds the disk image from a directory of the host (the type \<open>hdir\<close>).

  \<^bold>\<open>Interfaces.\<close> \<open>file_service\<close> (\<open>File_Service\<close>) is the contract of the server over an abstract file system, interpreted on the server's
  functions in \<open>Lfs_Ops\<close>; the calls of the client library rest on it. \<open>block_store\<close> (\<open>Block_Store\<close>) is what \<open>fs.c\<close> uses of the buffer
  cache, interpreted in \<open>Xv6_Bcache\<close> on \<open>bread\<close>, \<open>bwrite\<close> and \<open>brelse\<close>; all proofs about \<open>fs.c\<close> use the cache only through it.
  \<open>page_pool\<close> is the contract of \<open>kalloc\<close> and \<open>kfree\<close>. \<open>bounded_fifo\<close> is a ring buffer with free-running 32-bit counters, interpreted
  on pipes and on the input of the console.

  \<^bold>\<open>What is shown.\<close>

  \<^item> Server (C1 to C8): \<open>Lfs_Inv\<close> has the invariant, \<open>Lfs_Frame\<close>, \<open>Lfs_Dirs\<close>, \<open>Lfs_Read\<close>, \<open>Lfs_Write\<close>, \<open>Lfs_Creat\<close>, \<open>Lfs_Unlink\<close>,
    \<open>Lfs_Start\<close> the effect of each operation, \<open>Lfs_Spec\<close> and \<open>Lfs_Ops\<close> the refinement of the abstract file system, \<open>Lfs_Runs\<close> that the
    invariant holds in all states reached by requests that keep to \<open>request_ok\<close>; requests outside it, which the server does not refuse, can break
    it (an invalid type, a number that is not in the map, the name \<open>DNE\<close>, a full log). Restarting the server recovers the same files.
  \<^item> Client (C9 to C12, \<open>Mfs_Client\<close>): a call that returns has had its effect exactly once although requests are repeated, and it
    returns if some round gets through.
  \<^item> Buffer cache (C13, C14, \<open>Xv6_Bcache\<close>, \<open>Xv6_Example\<close>): a store of blocks with exclusive access.
  \<^item> File system (C16 to C21, C25, \<open>Xv6_Blocks\<close>, \<open>Xv6_Inode\<close>, \<open>Xv6_Read\<close>, \<open>Xv6_Write\<close>): allocation, inodes on disk, the bytes that are read
    and written, detection of corruption, path elements.
  \<^item> Memory (C23, C26, C27, C39, \<open>Xv6_Kalloc\<close>, \<open>Xv6_Paging\<close>), pipes and console (C28, C29, C38), arguments of system calls (C30,
    \<open>Xv6_Args\<close>).
  \<^item> Booting (C24, \<open>Xv6_Boot\<close>): the segments of the kernel file are in memory when the kernel is entered.
  \<^item> Processes (C33, C34): \<open>Xv6_Frames\<close> shows which parts of the state each call leaves alone, \<open>Xv6_Run\<close> and \<open>Xv6_Trap\<close> that the
    invariant of the process table holds in every reached state, \<open>Xv6_Exit\<close> that \<open>exit\<close> wakes the parent and orphans nobody.
  \<^item> User programs (C22, C31, C32, C35 to C37): the matcher accepts the language of the pattern and \<open>grep\<close> prints the lines of a small file that match,
    \<open>atoi\<close> reads back
    what \<open>printint\<close> prints of a number that is not negative, the shell's parser terminates and reads back printed commands, \<open>runcmd\<close> wires pipes and
    redirections as the command says and leaks no descriptor, and the blocks that \<open>malloc\<close> hands out (\<open>User_Heap\<close>) never overlap,
    keep their contents and become one free block again.
  \<^item> Locks (C15): mutual exclusion over all interleavings of the processors. In the rest of the kernel a critical section is one step.
  \<^item> Disk image (C40, \<open>Mkfs_Image\<close>, \<open>Mkfs_Files\<close>, \<open>Mkfs_Tree\<close>): the kernel finds on the finished image the tree of the host.

  \<^bold>\<open>Bounds.\<close> The server's arithmetic is on mathematical integers; the invariant keeps \<open>next_block\<close> at most \<open>2 ^ 19\<close>, so byte offsets fit the
  C type \<open>int\<close>, and operations assume the free blocks they need below that limit. A file of the server has 14 blocks. Kernel integers
  are words of their width or integers with the wrap-around written out (\<open>nextpid\<close>, beside which \<open>spawned\<close> counts for the proofs), except sizes
  that are bounded where they are used; the theorems on the allocator assume a
  file system of less than \<open>2 ^ 24\<close> blocks, which is what an address beside a checksum can hold. The shell's parser takes its nesting
  depth as fuel; \<open>4 * length + 4\<close> is proved to be enough, so \<open>parsecmd\<close> never runs out. No other definition uses fuel: loops are
  structural or have a termination proof, except the two loops of the user allocator that follow pointers and the loops of the boot
  loader, which are partial functions and proved to return, and the walk over the processor tables in \<open>Xv6_Mp\<close>, which returns on well-formed
  tables and is proved to hang on an entry of unknown type.

  \<^bold>\<open>Not modelled.\<close> \<open>main.c\<close> and the assembly files, which call the initialisation functions and switch stacks and modes of the processor; the context switch, of which the effect
  on \<open>cur\<close> and the states of processes is modelled; socket calls (\<open>udp.c\<close>), and with them
  answers and requests that arrive late, and an error of \<open>select\<close>; failures of the host in \<open>mkfs.c\<close> other than files that cannot be read; what
  control-P prints; the demonstration programs of \<open>linux/\<close>; the test programs of
  \<open>xv6/user/\<close> and \<open>init.c\<close>.
\<close>

section \<open>The file server\<close>

text \<open>
  C1. Every state that the server reaches from a fresh image, by serving requests of the kind \<open>request_ok\<close> and by being
  restarted on its own image, satisfies the invariant: the checkpoint region on disk is the inode map in memory, inodes and
  their sizes and pointers are well formed, no block has two owners, directories are well formed. \<open>request_ok\<close> admits every
  request that only reads; a request that writes has to name an inode number that is out of range or in the map, a
  name to be created has to fit into an entry, no name may be the marker \<open>DNE\<close>, the type of a new inode has to be one of the
  two, and the log has to have room. The server does not refuse other requests in time: with an invalid type, for one,
  \<open>creat_server\<close> can take a block of the log without writing the checkpoint region.
\<close>

theorem server_states_ok:
  assumes "lfs_run s"
  shows "lfs_inv s"
  using assms by (rule lfs_run_inv)

theorem server_states_ok_witness:
  "\<exists>q s t. fs_of s q = Some (AFile [0 \<mapsto> ones_block]) \<and> start_server zero_junk False (Some (bytes s)) = Some t \<and> lfs_inv t"
proof -
  obtain q s where q: "lfs_run s" "fs_of s q = Some (AFile [0 \<mapsto> ones_block])" by (rule demo_written)
  obtain t where t: "start_server zero_junk False (Some (bytes s)) = Some t" using restart[OF lfs_run_inv[OF q(1)]] .
  show ?thesis using q(2) t server_states_ok[OF lfs_run.restarted[OF q(1) t]] by blast
qed

text \<open>
  C2. Recovery: starting the server on the bytes of the image of a state it has reached gives a server with the
  same files, directories and contents.
\<close>

theorem restart_recovers:
  assumes "lfs_run s"
  shows "\<exists>t. start_server u creatable (Some (bytes s)) = Some t \<and> lfs_inv t \<and> fs_of t = fs_of s"
  using restart[OF lfs_run_inv[OF assms], of u creatable] lfs_run_inv[OF assms]
  by (metis abs_same_image same_image_lfs_inv)

theorem restart_recovers_witness:
  "\<exists>t. start_server zero_junk False (Some (bytes demo0)) = Some t \<and> lfs_inv t \<and> fs_of t = fs_of demo0"
  by (rule restart_recovers[OF demo0_run])

text \<open>
  C3. A file that is created, looked up, written and read back: in any state the server has reached, if
  \<open>creat_server\<close> of a new name returns 0, the inode number that \<open>lookup_server\<close> then returns can be written at
  any of its 14 blocks and \<open>read_server\<close> returns the block that was written.
\<close>

theorem creat_lookup_write_read:
  assumes "lfs_run s" "fs_of s p = Some (ADir d)" "name_ok name" "name \<noteq> str_DNE" "d name = None" "4 \<le> free_blocks s"
    and "junk_fits u1" "creat_server u1 (int p) MFS_REGULAR_FILE name s = (0, t1)"
    and "junk_fits u2" "lookup_server u2 (int p) name t1 = (int i, t2)"
    and "k < 14" "length b = BLOCKSIZE"
    and "junk_fits u3" "write_server u3 (int i) b (int k) t2 = (rc, t3)"
    and "junk_fits u4" "length buffer = BLOCKSIZE" "read_server u4 (int i) buffer (int k) t3 = (rc', got, t4)"
  shows "rc = 0 \<and> rc' = 0 \<and> got = b"
proof (rule lfs_service.creat_write_read[OF lfs_run_inv[OF assms(1)] assms(2-6)])
  show "creat_call s p MFS_REGULAR_FILE name 0 t1" using assms(7,8) by (auto simp: creat_call_def)
  show "lookup_call t1 p name (int i) t2" using assms(9,10) by (auto simp: lookup_call_def)
  show "write_call t2 i b k rc t3" using assms(13,14) by (auto simp: write_call_def)
  show "read_call t3 i k rc' got t4" using assms(15-17) unfolding read_call_def by blast
qed (use assms in simp_all)

theorem creat_lookup_write_read_witness:
  "\<exists>i t2 t3 t4. lookup_server zero_junk 0 name_f demo1 = (int i, t2) \<and>
     write_server zero_junk (int i) ones_block 5 t2 = (0, t3) \<and>
     read_server zero_junk (int i) zero_block 5 t3 = (0, ones_block, t4)"
proof -
  obtain q d where q: "fs_of demo1 0 = Some (ADir d)" "d name_f = Some (int q)" by (rule demo1_file)
  obtain rc t2 where l: "lookup_server zero_junk (int 0) name_f demo1 = (rc, t2)" by fastforce
  have rc: "rc = int q" using lookup_server_refines(2)[OF demo0_creat(2) q(1) name_f_ok(2) zero_junk_fits l] q(2) by simp
  obtain rcw t3 where w: "write_server zero_junk (int q) ones_block (int 5) t2 = (rcw, t3)" by fastforce
  obtain rcr got t4 where r: "read_server zero_junk (int q) zero_block (int 5) t3 = (rcr, got, t4)" using prod_cases3 by blast
  have "rcw = 0 \<and> rcr = 0 \<and> got = ones_block"
    using l rc w r demo0_creat(1)
    by (intro creat_lookup_write_read[OF demo0_run, of 0 "[str_dot \<mapsto> 0, str_dotdot \<mapsto> 0]" name_f zero_junk demo1
          zero_junk q t2 5 ones_block zero_junk rcw t3 zero_junk zero_block rcr got t4]) simp_all
  with l rc w r show ?thesis by auto
qed

text \<open>
  C4. A write changes nothing else: after \<open>write_server\<close> of block \<open>k\<close> of file \<open>i\<close>, every other written block
  of every file is read back as before.
\<close>

theorem write_keeps_other_blocks:
  assumes "lfs_run s" "fs_of s i = Some (AFile f)" "k < 14" "length b = BLOCKSIZE" "1 \<le> free_blocks s"
    and "junk_fits u1" "write_server u1 (int i) b (int k) s = (rc, t)"
    and "fs_of s j = Some (AFile g)" "g l = Some c" "(j, l) \<noteq> (i, k)"
    and "junk_fits u2" "length buffer = BLOCKSIZE" "read_server u2 (int j) buffer (int l) t = (rc', got, r)"
  shows "rc' = 0 \<and> got = c"
proof (rule lfs_service.write_read_other[OF lfs_run_inv[OF assms(1)] assms(2-5) _ assms(8-10)])
  show "write_call s i b k rc t" using assms(6,7) by (auto simp: write_call_def)
  show "read_call t j l rc' got r" using assms(11-13) unfolding read_call_def by blast
qed

theorem write_keeps_other_blocks_witness:
  "\<exists>q s t r. lfs_run s \<and> write_server zero_junk (int q) zero_block 3 s = (0, t) \<and>
     read_server zero_junk (int q) zero_block 0 t = (0, ones_block, r)"
proof -
  obtain q s where q: "lfs_run s" "fs_of s q = Some (AFile [0 \<mapsto> ones_block])" "1 \<le> free_blocks s" by (rule demo_written)
  obtain rc t where w: "write_server zero_junk (int q) zero_block (int 3) s = (rc, t)" by fastforce
  obtain rcr got r where r: "read_server zero_junk (int q) zero_block (int 0) t = (rcr, got, r)" using prod_cases3 by blast
  have "rcr = 0 \<and> got = ones_block"
    by (rule write_keeps_other_blocks[OF q(1,2) _ _ q(3) zero_junk_fits w q(2) _ _ zero_junk_fits _ r]) simp_all
  moreover have "rc = 0"
    using write_server_refines(2)[OF lfs_run_inv[OF q(1)] q(2) _ _ q(3) zero_junk_fits w] by simp
  ultimately show ?thesis using q(1) w r by auto
qed

text \<open>
  C5. \<open>creat_server\<close> with every outcome, for a name that fits into an entry and is not the marker \<open>DNE\<close>, a parent whose number is
  out of range or in the map, and three free blocks in the log. It fails without a change if the number is out of range or the
  parent is a file. In a directory a name that exists is left alone and the call succeeds. Otherwise, for one of the two types, either a
  free inode number is bound to the name, as an empty file or as a directory holding \<open>.\<close> and \<open>..\<close>, and nothing else changes, or
  the call fails without a change, and then there is no free inode number or every entry of all 14 blocks of the directory is
  taken. For any other type the call fails; what it has written until then is not undone.
\<close>

theorem creat_server_outcomes:
  assumes "lfs_run s" "known s i" "name_ok name" "name \<noteq> str_DNE" "3 \<le> free_blocks s" "junk_fits u"
    "creat_server u i type name s = (rc, t)"
  shows "case (if 0 \<le> i \<and> i < int MAXINODES then fs_of s (nat i) else None) of
      Some (ADir d) \<Rightarrow>
        if d name \<noteq> None then rc = 0 \<and> fs_of t = fs_of s
        else if type \<in> {MFS_DIRECTORY, MFS_REGULAR_FILE} then
          (rc = 0 \<and> (\<exists>q. fs_of s q = None \<and> fs_of t = a_creat (nat i) type name q (fs_of s))) \<or>
          (rc = -1 \<and> fs_of t = fs_of s \<and>
           ((\<forall>j < MAXINODES. live s j) \<or> (\<forall>k < 14. used (inode_of s (nat i)) k) \<and> no_free s (nat i) 0))
        else rc = -1
    | _ \<Rightarrow> rc = -1 \<and> fs_of t = fs_of s"
  using assms(2)
proof (cases rule: known_cases)
  case 1
  then show ?thesis using assms(7) by (auto simp: creat_server_def find_inode_invalid)
next
  case (2 n)
  note inv = lfs_run_inv[OF assms(1)]
  have n: "n < MAXINODES" using 2(2) by (simp add: live_def)
  from inv 2(2) show ?thesis
  proof (cases rule: live_kinds)
    case 1
    note dir = abs_dir[OF 1(1)]
    show ?thesis
    proof (cases "type \<in> {MFS_DIRECTORY, MFS_REGULAR_FILE}")
      case True
      show ?thesis
        using creat_server_refines(3,4)[OF inv dir assms(3,4) True assms(5,6) assms(7)[unfolded 2(1)]] abs_same_image[of s t] dir n True
        unfolding 2(1) by (simp split: if_split) blast
    next
      case False
      show ?thesis
        using creat_server_bad_type[OF inv dir assms(4) False assms(6) assms(7)[unfolded 2(1)]] abs_same_image[of s t] dir n False
        unfolding 2(1) by (simp split: if_splits)
    qed
  next
    case b: 2
    obtain r where "creat_server u (int n) type name s = (-1, r)" "same_image s r"
      using creat_server_refused[OF inv 2(2) b(2) assms(6)] .
    then show ?thesis using assms(7) 2(1) abs_file[OF b(1)] n by (simp add: abs_same_image)
  qed
qed

theorem creat_server_outcomes_witness:
  "\<exists>q. fs_of demo0 q = None \<and> fs_of demo1 = a_creat 0 MFS_REGULAR_FILE name_f q (fs_of demo0)"
proof -
  have "\<exists>q. q \<noteq> 0 \<and> fs_of demo1 = a_creat 0 MFS_REGULAR_FILE name_f q (fs_of demo0)"
    using creat_server_outcomes[OF demo0_run, of 0 name_f zero_junk MFS_REGULAR_FILE 0 demo1] demo0_creat(1)
    by (auto simp: known_def demo0_live MAXINODES_def split: if_splits)
  then show ?thesis by auto
qed

text \<open>
  C6. \<open>unlink_server\<close> of a name that the first block of the directory holds and that stands for an inode of the map: a file, or a directory
  whose first block has only \<open>.\<close> and \<open>..\<close>, whatever its later blocks hold, is removed together with its entry and nothing else
  changes; a directory with another entry in its first block makes the call fail and nothing changes. A name that does not exist is
  no error.
\<close>

theorem unlink_server_outcomes:
  assumes "lfs_run s" "fs_of s p = Some (ADir d)" "name \<noteq> str_DNE" "junk_fits u"
    "d name = None \<or> (d name = Some (int q) \<and> name \<in> fst ` set (block_entries (data_of s p 0)) \<and> live s q \<and> p \<noteq> q)"
    "unlink_server u (int p) name s = (rc, t)"
  shows "if d name = None then rc = 0 \<and> fs_of t = fs_of s
    else if is_file s q \<or> first_block_empty s q then rc = 0 \<and> fs_of t = a_unlink p name q (fs_of s)
    else rc = -1 \<and> fs_of t = fs_of s"
proof -
  note r = unlink_server_refines[OF lfs_run_inv[OF assms(1)] assms(2-4,6)]
  show ?thesis
  proof (cases "d name = None")
    case True
    with r(1) show ?thesis by (simp add: abs_same_image)
  next
    case False
    with assms(5) r(2)[of q] show ?thesis by (auto simp: abs_same_image split: if_splits)
  qed
qed

theorem unlink_server_outcomes_witness:
  "\<exists>q t. fs_of demo1 q = Some (AFile Map.empty) \<and> unlink_server zero_junk 0 name_f demo1 = (0, t) \<and>
     fs_of t = a_unlink 0 name_f q (fs_of demo1)"
proof -
  obtain q d where q: "fs_of demo1 q = Some (AFile Map.empty)" "0 < q" "fs_of demo1 0 = Some (ADir d)" "d name_f = Some (int q)"
    by (rule demo1_file)
  obtain rc t where call: "unlink_server zero_junk (int 0) name_f demo1 = (rc, t)" by fastforce
  have reg: "is_file demo1 q" using abs_file_iff[OF demo0_creat(2)] q(1) by blast
  have "if d name_f = None then rc = 0 \<and> fs_of t = fs_of demo1
      else if is_file demo1 q \<or> first_block_empty demo1 q then rc = 0 \<and> fs_of t = a_unlink 0 name_f q (fs_of demo1)
      else rc = -1 \<and> fs_of t = fs_of demo1"
    using unlink_server_outcomes[OF demo1_run q(3) name_f_ok(2) zero_junk_fits _ call, of q] q(2,4) demo1_first_block
      is_file_live[OF reg] by simp
  with reg q call show ?thesis by auto
qed

text \<open>
  \<open>unlink_server\<close> of a name that is in a later block of the directory returns 0 and takes the inode out of the
  map, but leaves the entry: the name still resolves, to a number that is no longer an inode.
\<close>

lemma unlink_leaves_later_entries:
  assumes "lfs_run s" "fs_of s p = Some (ADir d)" "name \<noteq> str_DNE" "d name = Some (int q)" "p \<noteq> q"
    "name \<notin> fst ` set (block_entries (data_of s p 0))" "junk_fits u" "unlink_server u (int p) name s = (rc, t)"
    "junk_fits u'" "lookup_server u' (int p) name t = (found, t')"
  shows "rc = 0 \<and> found = int q \<and> \<not> live t' q"
proof -
  note r = unlink_server_refines(3)[OF lfs_run_inv[OF assms(1)] assms(2,3,7,8,4,6)]
  have t: "rc = 0" "lfs_inv t" "fs_of t = (fs_of s)(q := None)" using r by simp_all
  then have dir: "fs_of t p = Some (ADir d)" using assms(2,5) by simp
  note l = lookup_server_refines[OF t(2) dir assms(3,9,10)]
  have "fs_of t' q = None" using abs_same_image[OF l(1)] t(3) by simp
  then have "\<not> live t' q" by (auto simp: fs_of_def split: if_splits)
  with t(1) l(2) assms(4) show ?thesis by simp
qed

text \<open>
  C7. \<open>start_server\<close> without an image: it fails where the file cannot be created; else it writes an image whose
  only inode is the root directory, holding \<open>.\<close> and \<open>..\<close>, and that satisfies the invariant.
\<close>

theorem start_server_fresh_image:
  assumes "junk_fits u"
  shows "start_server u False None = None \<and>
    (\<exists>s. start_server u True None = Some s \<and> lfs_inv s \<and>
      fs_of s = [0 \<mapsto> ADir [str_dot \<mapsto> 0, str_dotdot \<mapsto> 0]] \<and> next_block s = CRSIZE + 2)"
  using start_server_fresh[of u] fresh_image_inv[OF assms] abs_fresh[OF assms] fresh_image_views(2)[OF assms]
  by (simp add: start_server_def CRSIZE_def)

theorem start_server_fresh_image_witness:
  "start_server zero_junk False None = None \<and>
    (\<exists>s. start_server zero_junk True None = Some s \<and> lfs_inv s \<and>
      fs_of s = [0 \<mapsto> ADir [str_dot \<mapsto> 0, str_dotdot \<mapsto> 0]] \<and> next_block s = CRSIZE + 2)"
  by (rule start_server_fresh_image[OF zero_junk_fits])

text \<open>
  C8. \<open>stat_server\<close> returns the type of the inode and a size that is 0 or the end of the highest block that has
  been written, so at most 14 blocks.
\<close>

theorem stat_server_size:
  assumes "lfs_run s" "live s i" "junk_fits u" "stat_server u (int i) m s = (rc, m', t)"
  shows "rc = 0 \<and> fs_of t = fs_of s \<and> st_type m' = i_type (inode_of s i) \<and>
    st_size m' = (if \<exists>k. used (inode_of s i) k then int (Suc (Max {k. used (inode_of s i) k})) * int BLOCKSIZE else 0) \<and>
    st_size m' \<le> 14 * int BLOCKSIZE"
proof -
  let ?n = "inode_of s i"
  obtain r where r: "stat_server u (int i) m s = (0, m\<lparr>st_type := i_type ?n, st_size := i_size ?n\<rparr>, r)" "same_image s r"
    using stat_server_live[OF lfs_run_inv[OF assms(1)] assms(2,3)] .
  have size: "size_ok ?n" using inv_live(2)[OF lfs_run_inv[OF assms(1)] assms(2)] by (simp add: node_ok_def)
  then show ?thesis using r assms(4) size_ok_extent[OF size] size_ok_bounds[OF size] by (auto simp: abs_same_image)
qed

theorem stat_server_size_witness:
  "\<exists>s q t. stat_server zero_junk (int q) \<lparr>st_type = 7, st_size = 7\<rparr> s = (0, \<lparr>st_type = MFS_REGULAR_FILE, st_size = 4096\<rparr>, t)"
proof -
  obtain q s where q: "lfs_run s" "fs_of s q = Some (AFile [0 \<mapsto> ones_block])" "1 \<le> free_blocks s" by (rule demo_written)
  obtain rc m' t where call: "stat_server zero_junk (int q) \<lparr>st_type = 7, st_size = 7\<rparr> s = (rc, m', t)" using prod_cases3 by blast
  have reg: "is_file s q" using abs_file_iff[OF lfs_run_inv[OF q(1)]] q(2) by blast
  have "blocks_of s q = [0 \<mapsto> ones_block]" using q(2) abs_file[OF reg] by simp
  then have "used (inode_of s q) k \<longleftrightarrow> k = 0" for k
    by (auto simp: blocks_of_def fun_eq_iff split: if_splits)
  then have "{k. used (inode_of s q) k} = {0}" "\<exists>k. used (inode_of s q) k" by auto
  with stat_server_size[OF q(1) is_file_live[OF reg] zero_junk_fits call] reg
  have "rc = 0" "st_type m' = MFS_REGULAR_FILE" "st_size m' = 4096" by (auto simp: is_file_def BLOCKSIZE_def)
  then show ?thesis using call by (cases m') auto
qed

section \<open>The client over a lossy network\<close>

text \<open>
  C9. \<open>MFS_Creat\<close> over a network that may lose requests and answers: when the call returns, exactly one inode has
  been created, however often the request was executed, and a following \<open>MFS_Lookup\<close> returns its number; and it
  does return if some request gets through together with its answer.
\<close>

theorem MFS_Creat_once:
  assumes "init_done c" "network_ok net" "packet_fits send" "lfs_run s" "fs_of s p = Some (ADir d)"
    "name_ok name" "name \<noteq> str_DNE" "d name = None" "type \<in> {MFS_DIRECTORY, MFS_REGULAR_FILE}"
    "3 * int (length (rounds net)) \<le> free_blocks s"
    "\<not> (\<forall>i < MAXINODES. live s i)" "\<not> (\<forall>k < 14. used (inode_of s p) k)"
    "network_ok net'" "packet_fits send'"
  shows "(reachable_server net \<longrightarrow> MFS_Creat c net send receive (int p) type name (Up s) \<noteq> None) \<and>
    (\<forall>rc w. MFS_Creat c net send receive (int p) type name (Up s) = Some (rc, w) \<longrightarrow>
      rc = 0 \<and> (\<exists>q t. w = Up t \<and> lfs_inv t \<and> fs_of s q = None \<and> fs_of t = a_creat p type name q (fs_of s) \<and>
        (\<forall>found w'. MFS_Lookup c net' send' receive' (int p) name w = Some (found, w') \<longrightarrow> found = int q)))"
proof -
  note m = MFS_Creat_sound[OF assms(1-3) lfs_run_inv[OF assms(4)] assms(5-12), of receive]
  have "\<exists>q t. w = Up t \<and> lfs_inv t \<and> fs_of s q = None \<and> fs_of t = a_creat p type name q (fs_of s) \<and>
      (\<forall>found w'. MFS_Lookup c net' send' receive' (int p) name w = Some (found, w') \<longrightarrow> found = int q)"
    if call: "MFS_Creat c net send receive (int p) type name (Up s) = Some (rc, w)" for rc w
  proof -
    obtain q t where q: "w = Up t" "lfs_inv t" "fs_of s q = None" "fs_of t = a_creat p type name q (fs_of s)"
      using m(2)[OF call] by blast
    have "p \<noteq> q" using q(3) assms(5) by auto
    then have "fs_of t p = Some (ADir (d(name \<mapsto> int q)))" by (simp add: q(4) a_creat_def assms(5))
    from MFS_Lookup_sound(2)[OF assms(1,13,14) q(2) this assms(6,7)] q show ?thesis by auto
  qed
  with m show ?thesis by blast
qed

theorem MFS_Creat_once_witness:
  "\<exists>q t. MFS_Creat ready lossy zero_packet zero_packet (int 0) MFS_REGULAR_FILE name_f (Up demo0) = Some (0, Up t) \<and>
     fs_of demo0 q = None \<and> fs_of t = a_creat 0 MFS_REGULAR_FILE name_f q (fs_of demo0)"
proof -
  have dir: "fs_of demo0 0 = Some (ADir [str_dot \<mapsto> 0, str_dotdot \<mapsto> 0])" by simp
  have m: "(reachable_server lossy \<longrightarrow> MFS_Creat ready lossy zero_packet zero_packet (int 0) MFS_REGULAR_FILE name_f (Up demo0) \<noteq> None) \<and>
    (\<forall>rc w. MFS_Creat ready lossy zero_packet zero_packet (int 0) MFS_REGULAR_FILE name_f (Up demo0) = Some (rc, w) \<longrightarrow>
      rc = 0 \<and> (\<exists>q t. w = Up t \<and> lfs_inv t \<and> fs_of demo0 q = None \<and> fs_of t = a_creat 0 MFS_REGULAR_FILE name_f q (fs_of demo0) \<and>
        (\<forall>found w'. MFS_Lookup ready lossy zero_packet zero_packet (int 0) name_f w = Some (found, w') \<longrightarrow> found = int q)))"
    by (rule MFS_Creat_once[OF ready_init lossy_ok(1) zero_packet_fits demo0_run dir name_f_ok(1,2) _ _ _ demo0_space
          lossy_ok(1) zero_packet_fits]) simp_all
  then obtain rc w where "MFS_Creat ready lossy zero_packet zero_packet (int 0) MFS_REGULAR_FILE name_f (Up demo0) = Some (rc, w)"
    using lossy_ok(2) by auto
  with m show ?thesis by blast
qed

text \<open>
  C10. \<open>MFS_Write\<close> and \<open>MFS_Read\<close> over a network that may lose messages: when the write returns, its effect is that
  of one write, and a following read that returns has the block that was written.
\<close>

theorem MFS_Write_once:
  assumes "init_done c" "network_ok net" "lfs_run s" "fs_of s i = Some (AFile f)" "k < 14" "length b = BLOCKSIZE"
    "int (length (rounds net)) \<le> free_blocks s" "network_ok net'" "length buffer = BLOCKSIZE"
  shows "(reachable_server net \<longrightarrow> MFS_Write c net send receive (int i) b (int k) (Up s) \<noteq> None) \<and>
    (\<forall>rc w. MFS_Write c net send receive (int i) b (int k) (Up s) = Some (rc, w) \<longrightarrow>
      rc = 0 \<and> (\<exists>t. w = Up t \<and> lfs_inv t \<and> fs_of t = a_write i k b (fs_of s)) \<and>
      (\<forall>rc' got w'. MFS_Read c net' send' receive' (int i) buffer (int k) w = Some (rc', got, w') \<longrightarrow> rc' = 0 \<and> got = b))"
proof -
  note m = MFS_Write_sound[OF assms(1,2) lfs_run_inv[OF assms(3)] assms(4-7), of send receive]
  have "rc' = 0 \<and> got = b"
    if call: "MFS_Write c net send receive (int i) b (int k) (Up s) = Some (rc, w)"
      and r: "MFS_Read c net' send' receive' (int i) buffer (int k) w = Some (rc', got, w')" for rc w rc' got w'
  proof -
    obtain t where t: "w = Up t" "lfs_inv t" "fs_of t = a_write i k b (fs_of s)" using m(2)[OF call] by blast
    have "fs_of t i = Some (AFile (f(k \<mapsto> b)))" by (simp add: t(3) a_write_same assms(4))
    from MFS_Read_sound(2)[OF assms(1,8) t(2) this _ assms(6,9), of k send' receive' rc' got w'] r t(1) show ?thesis by simp
  qed
  with m show ?thesis by blast
qed

theorem MFS_Write_once_witness:
  "\<exists>q s t. fs_of s q = Some (AFile Map.empty) \<and>
     MFS_Write ready lossy zero_packet zero_packet (int q) ones_block 13 (Up s) = Some (0, Up t) \<and>
     fs_of t = a_write q 13 ones_block (fs_of s)"
proof -
  obtain q d where q: "fs_of demo1 q = Some (AFile Map.empty)" by (rule demo1_file)
  have "int (length (rounds lossy)) \<le> free_blocks demo1" using demo0_creat(3) by simp
  from MFS_Write_once[OF ready_init lossy_ok(1) demo1_run q _ _ this lossy_ok(1), of 13 ones_block zero_block
      zero_packet zero_packet zero_packet zero_packet]
  obtain t where "MFS_Write ready lossy zero_packet zero_packet (int q) ones_block (int 13) (Up demo1) = Some (0, Up t)"
    "fs_of t = a_write q 13 ones_block (fs_of demo1)" by fastforce
  with q show ?thesis by auto
qed

text \<open>
  C11. \<open>MFS_Unlink\<close> of a regular file whose name is in the first block of its directory, over a network that may lose messages: when the
  call returns, it has succeeded and had the effect of one unlink, and a following \<open>MFS_Lookup\<close> that returns
  says -1.
\<close>

theorem MFS_Unlink_once:
  assumes "init_done c" "network_ok net" "packet_fits send" "lfs_run s" "fs_of s p = Some (ADir d)"
    "name_ok name" "name \<noteq> str_DNE" "d name = Some (int q)" "name \<in> fst ` set (block_entries (data_of s p 0))"
    "is_file s q" "network_ok net'" "packet_fits send'"
  shows "(reachable_server net \<longrightarrow> MFS_Unlink c net send receive (int p) name (Up s) \<noteq> None) \<and>
    (\<forall>rc w. MFS_Unlink c net send receive (int p) name (Up s) = Some (rc, w) \<longrightarrow>
      rc = 0 \<and> (\<exists>t. w = Up t \<and> lfs_inv t \<and> fs_of t = a_unlink p name q (fs_of s)) \<and>
      (\<forall>found w'. MFS_Lookup c net' send' receive' (int p) name w = Some (found, w') \<longrightarrow> found = -1))"
proof -
  note inv = lfs_run_inv[OF assms(4)]
  have "p \<noteq> q" using abs_file[OF assms(10)] assms(5) by auto
  note m = MFS_Unlink_sound[OF assms(1-3) inv assms(5-9) is_file_live[OF assms(10)] this disjI1[OF assms(10)], of receive]
  have "found = -1"
    if call: "MFS_Unlink c net send receive (int p) name (Up s) = Some (rc, w)"
      and l: "MFS_Lookup c net' send' receive' (int p) name w = Some (found, w')" for rc w found w'
  proof -
    obtain t where t: "w = Up t" "lfs_inv t" "fs_of t = a_unlink p name q (fs_of s)" using m(2)[OF call] by blast
    have "fs_of t p = Some (ADir (d(name := None)))" using \<open>p \<noteq> q\<close> by (simp add: t(3) a_unlink_def assms(5))
    from MFS_Lookup_sound(2)[OF assms(1,11,12) t(2) this assms(6,7), of receive' found w'] l t(1) show ?thesis by simp
  qed
  with m show ?thesis by blast
qed

theorem MFS_Unlink_once_witness:
  "\<exists>q t. MFS_Unlink ready lossy zero_packet zero_packet (int 0) name_f (Up demo1) = Some (0, Up t) \<and>
     fs_of t = a_unlink 0 name_f q (fs_of demo1)"
proof -
  obtain q d where q: "fs_of demo1 q = Some (AFile Map.empty)" "0 < q" "fs_of demo1 0 = Some (ADir d)" "d name_f = Some (int q)"
    by (rule demo1_file)
  have reg: "is_file demo1 q" using abs_file_iff[OF demo0_creat(2)] q(1) by blast
  have m: "(reachable_server lossy \<longrightarrow> MFS_Unlink ready lossy zero_packet zero_packet (int 0) name_f (Up demo1) \<noteq> None) \<and>
    (\<forall>rc w. MFS_Unlink ready lossy zero_packet zero_packet (int 0) name_f (Up demo1) = Some (rc, w) \<longrightarrow>
      rc = 0 \<and> (\<exists>t. w = Up t \<and> lfs_inv t \<and> fs_of t = a_unlink 0 name_f q (fs_of demo1)) \<and>
      (\<forall>found w'. MFS_Lookup ready lossy zero_packet zero_packet (int 0) name_f w = Some (found, w') \<longrightarrow> found = -1))"
    by (rule MFS_Unlink_once[OF ready_init lossy_ok(1) zero_packet_fits demo1_run q(3) name_f_ok(1,2) q(4)
          demo1_first_block reg lossy_ok(1) zero_packet_fits])
  then obtain rc w where "MFS_Unlink ready lossy zero_packet zero_packet (int 0) name_f (Up demo1) = Some (rc, w)"
    using lossy_ok(2) by auto
  with m show ?thesis by blast
qed

text \<open>
  C12. \<open>MFS_Shutdown\<close> over a lossy network, and the next start of the server: if the answer to the request that
  stops the server arrives, the call returns 0, and starting on the image that the server left gives back the
  same file system; if that answer is lost, the server is gone and the client never returns, whatever further
  rounds the network allows.
\<close>

theorem MFS_Shutdown_restart:
  assumes "init_done c" "network_ok net" "lfs_run s" "dropWhile (\<lambda>r. \<not> delivered r) (rounds net) = r # rs"
  shows "if answered r
    then \<exists>b. MFS_Shutdown c net send receive (Up s) = Some (0, Down b) \<and>
           (\<exists>t. start_server u creatable (Some b) = Some t \<and> lfs_inv t \<and> fs_of t = fs_of s)
    else MFS_Shutdown c net send receive (Up s) = None"
proof -
  have call: "MFS_Shutdown c net send receive (Up s) =
      map_option (\<lambda>(rc, r, w1). (if rc < 0 then -1 else 0, w1)) (send_rounds (rounds net) (send\<lparr>pk_method := SHUTDOWN\<rparr>) (Up s))"
    using assms(1,2) by (simp add: MFS_Shutdown_def network_okD(1))
  obtain t where t: "start_server u creatable (Some (bytes s)) = Some t" "same_image s t"
    using restart[OF lfs_run_inv[OF assms(3)]] .
  then have "lfs_inv t" "fs_of t = fs_of s" using lfs_run_inv[OF assms(3)] by (simp_all add: same_image_views abs_same_image)
  with t(1) show ?thesis using assms(4) by (simp add: call shutdown_rounds)
qed

theorem MFS_Shutdown_restart_witness:
  "MFS_Shutdown ready lossy zero_packet zero_packet (Up demo0) = None"
  using MFS_Shutdown_restart[OF ready_init lossy_ok(1) demo0_run, of _ _ zero_packet zero_packet zero_junk False]
  by (simp add: lossy_def)

end
